(* ===== verification/Prelude.thy ===== *)
theory Prelude
  imports Complex_Main "HOL-Library.Word"
begin

unbundle bit_operations_syntax

text \<open>
  Shared vocabulary of the development: bytes and byte strings, the Python operations on
  sequences that the sources use (slices, \<open>find\<close>, \<open>rfind\<close>, \<open>strip\<close>, \<open>split\<close>), reading a
  hexadecimal integer the way \<open>int(text, 16)\<close> does, the exceptions that the model returns
  as values, and the lemmas on them that several components use.

  A Python \<open>bytes\<close> object is a list of \<open>8 word\<close>; a Python \<open>int\<close> is an \<open>int\<close> (unbounded);
  a \<open>str\<close> that the program only handles as Latin-1 or ASCII text is a \<open>string\<close>.
\<close>

section \<open>Types\<close>

type_synonym byte = "8 word"
type_synonym bytes = "byte list"

text \<open>The exceptions the modelled code raises, as values of the left summand of a result.\<close>

datatype py_error =
    ValueError
  | KeyError
  | IndexError
  | RuntimeError
  | TypeErr
  | QueueFull
  | OverflowError

named_theorems scan_simps \<open>unfolding rules for the verdicts of the framers\<close>
named_theorems stats_simps \<open>what one loop iteration does to the counters\<close>
named_theorems wf_intros \<open>preservation of the component invariants\<close>

text \<open>Python's \<open>round\<close>: halves go to the even neighbour.\<close>

definition py_round :: "real \<Rightarrow> int" where
  "py_round x =
     (let n = \<lfloor>x\<rfloor>; r = x - of_int n in
      if r < 1 / 2 then n else if r > 1 / 2 then n + 1 else if even n then n else n + 1)"

lemma py_round_lower: "x - 1 \<le> of_int (py_round x)"
  by (auto simp: py_round_def Let_def) linarith+

section \<open>Slices and searches\<close>

text \<open>\<open>xs[a:b]\<close> for non-negative bounds: out-of-range bounds are clamped.\<close>

definition py_slice :: "nat \<Rightarrow> nat \<Rightarrow> 'a list \<Rightarrow> 'a list" where
  "py_slice a b xs = take (b - a) (drop a xs)"

text \<open>\<open>xs.find(p)\<close>, with \<open>None\<close> for \<open>-1\<close>.\<close>

fun find_sub :: "'a list \<Rightarrow> 'a list \<Rightarrow> nat option" where
  "find_sub p [] = (if p = [] then Some 0 else None)"
| "find_sub p (x # xs) =
     (if take (length p) (x # xs) = p then Some 0 else map_option Suc (find_sub p xs))"

text \<open>\<open>xs.rfind(y)\<close> for a single element, with \<open>None\<close> for \<open>-1\<close>.\<close>

fun rfind1 :: "'a \<Rightarrow> 'a list \<Rightarrow> nat option" where
  "rfind1 y [] = None"
| "rfind1 y (x # xs) =
     (case rfind1 y xs of Some i \<Rightarrow> Some (Suc i) | None \<Rightarrow> if x = y then Some 0 else None)"

text \<open>\<open>text.split(c)\<close> at a single character, and \<open>partition\<close> at its first occurrence.\<close>

fun split_at :: "'a \<Rightarrow> 'a list \<Rightarrow> 'a list list" where
  "split_at c [] = [[]]"
| "split_at c (x # xs) =
     (if x = c then [] # split_at c xs
      else (case split_at c xs of [] \<Rightarrow> [[x]] | w # ws \<Rightarrow> (x # w) # ws))"

definition before_first :: "'a \<Rightarrow> 'a list \<Rightarrow> 'a list" where
  "before_first c xs = takeWhile (\<lambda>x. x \<noteq> c) xs"

definition after_first :: "'a \<Rightarrow> 'a list \<Rightarrow> 'a list" where
  "after_first c xs = tl (dropWhile (\<lambda>x. x \<noteq> c) xs)"

definition lstrip :: "('a \<Rightarrow> bool) \<Rightarrow> 'a list \<Rightarrow> 'a list" where
  "lstrip p xs = dropWhile p xs"

definition rstrip :: "('a \<Rightarrow> bool) \<Rightarrow> 'a list \<Rightarrow> 'a list" where
  "rstrip p xs = rev (dropWhile p (rev xs))"

definition strip :: "('a \<Rightarrow> bool) \<Rightarrow> 'a list \<Rightarrow> 'a list" where
  "strip p xs = rstrip p (lstrip p xs)"

definition starts_with :: "'a list \<Rightarrow> 'a list \<Rightarrow> bool" where
  "starts_with p xs \<longleftrightarrow> take (length p) xs = p"

text \<open>
  A dict built from key-value pairs in order, where a later pair wins; a dict literal, a dict
  comprehension and \<open>dict(pairs)\<close> all do this.
\<close>

definition py_dict :: "('k \<times> 'v) list \<Rightarrow> 'k \<Rightarrow> 'v option" where
  "py_dict kvs = map_of (rev kvs)"

section \<open>Text and integers\<close>

text \<open>A little-endian 16-bit field, and \<open>struct.pack("<H", n)\<close> for a value in range.\<close>

definition u16_at :: "bytes \<Rightarrow> nat \<Rightarrow> int" where
  "u16_at b i = uint (b ! i) OR push_bit 8 (uint (b ! (i + 1)))"

definition pack_u16 :: "int \<Rightarrow> bytes" where
  "pack_u16 n = [word_of_int n, word_of_int (drop_bit 8 n)]"

definition byte_of_char :: "char \<Rightarrow> byte" where
  "byte_of_char c = of_nat (of_char c)"

definition char_of_byte :: "byte \<Rightarrow> char" where
  "char_of_byte b = char_of (unat b)"

definition encode_latin1 :: "string \<Rightarrow> bytes" where
  "encode_latin1 s = map byte_of_char s"

definition decode_latin1 :: "bytes \<Rightarrow> string" where
  "decode_latin1 bs = map char_of_byte bs"

text \<open>\<open>Py_ISSPACE\<close>: tab, line feed, vertical tab, form feed, carriage return and space.\<close>

definition is_space :: "byte \<Rightarrow> bool" where
  "is_space b \<longleftrightarrow> b = 32 \<or> (9 \<le> b \<and> b \<le> 13)"

definition hex_digit :: "byte \<Rightarrow> int option" where
  "hex_digit b =
     (if 48 \<le> b \<and> b \<le> 57 then Some (uint b - 48)
      else if 65 \<le> b \<and> b \<le> 70 then Some (uint b - 55)
      else if 97 \<le> b \<and> b \<le> 102 then Some (uint b - 87)
      else None)"

text \<open>
  The digit scan of CPython's \<open>int(text, 16)\<close>: digits with single underscores between them.
  The flag says whether the previous character was a digit, which is what an underscore and
  the end of the text both require.
\<close>

fun hex_scan :: "int \<Rightarrow> bool \<Rightarrow> bytes \<Rightarrow> int option" where
  "hex_scan acc prev [] = (if prev then Some acc else None)"
| "hex_scan acc prev (x # xs) =
     (if x = 95 then (if prev then hex_scan acc False xs else None)
      else (case hex_digit x of
              None \<Rightarrow> None
            | Some d \<Rightarrow> hex_scan (16 * acc + d) True xs))"

text \<open>The optional \<open>0x\<close> or \<open>0X\<close>, after which one underscore is allowed.\<close>

fun hex_prefix :: "bytes \<Rightarrow> bytes" where
  "hex_prefix (z # x # u # xs) =
     (if z = 48 \<and> (x = 120 \<or> x = 88) then (if u = 95 then xs else u # xs) else z # x # u # xs)"
| "hex_prefix [z, x] = (if z = 48 \<and> (x = 120 \<or> x = 88) then [] else [z, x])"
| "hex_prefix xs = xs"

definition hex_unsigned :: "bytes \<Rightarrow> int option" where
  "hex_unsigned xs = hex_scan 0 False (hex_prefix xs)"

text \<open>\<open>int(text, 16)\<close>; \<open>None\<close> is the \<open>ValueError\<close>.\<close>

definition py_int16 :: "bytes \<Rightarrow> int option" where
  "py_int16 text =
     (case strip is_space text of
        [] \<Rightarrow> None
      | s # xs \<Rightarrow>
          if s = 43 then hex_unsigned xs
          else if s = 45 then map_option uminus (hex_unsigned xs)
          else hex_unsigned (s # xs))"

text \<open>Upper-case hexadecimal digits, and \<open>f"{n:0wX}"\<close> for a fixed width.\<close>

definition hex_char :: "int \<Rightarrow> byte" where
  "hex_char d = (if d < 10 then word_of_int (48 + d) else word_of_int (55 + d))"

fun hex_fixed :: "nat \<Rightarrow> int \<Rightarrow> bytes" where
  "hex_fixed 0 n = []"
| "hex_fixed (Suc w) n = hex_fixed w (n div 16) @ [hex_char (n mod 16)]"

section \<open>Lemmas on sequences\<close>

lemma length_py_slice [simp]: "length (py_slice a b xs) = min (b - a) (length xs - a)"
  by (simp add: py_slice_def min.commute)

lemma py_slice_append: "b \<le> length xs \<Longrightarrow> py_slice a b (xs @ ys) = py_slice a b xs"
  by (cases "a \<le> b") (auto simp: py_slice_def)

lemma find_sub_Some_bound:
  "find_sub p xs = Some i \<Longrightarrow> i + length p \<le> length xs"
proof (induction xs arbitrary: i)
  case Nil
  then show ?case by (auto split: if_splits)
next
  case (Cons x xs)
  show ?case
  proof (cases "take (length p) (x # xs) = p")
    case True
    with Cons.prems have "i = 0" by simp
    moreover have "length p \<le> length (x # xs)"
      using True by (metis length_take min.cobounded1)
    ultimately show ?thesis by simp
  next
    case False
    with Cons.prems obtain j where "find_sub p xs = Some j" "i = Suc j" by auto
    with Cons.IH show ?thesis by fastforce
  qed
qed

lemma find_sub_Some_take:
  "find_sub p xs = Some i \<Longrightarrow> take (length p) (drop i xs) = p"
  by (induction xs arbitrary: i) (auto split: if_splits)

lemma find_sub_first:
  "find_sub p xs = Some i \<Longrightarrow> j < i \<Longrightarrow> take (length p) (drop j xs) \<noteq> p"
proof (induction xs arbitrary: i j)
  case Nil
  then show ?case by (auto split: if_splits)
next
  case (Cons x xs)
  then obtain k where k: "find_sub p xs = Some k" "i = Suc k"
    and ne: "take (length p) (x # xs) \<noteq> p"
    by (auto split: if_splits)
  show ?case
  proof (cases j)
    case 0
    with ne show ?thesis by simp
  next
    case (Suc j')
    with Cons.prems k have "j' < k" by simp
    with Cons.IH k Suc show ?thesis by simp
  qed
qed

lemma find_sub_None:
  "find_sub p xs = None \<longleftrightarrow> (\<forall>i. take (length p) (drop i xs) \<noteq> p)"
proof (induction xs)
  case Nil
  then show ?case by auto
next
  case (Cons x xs)
  have "(\<forall>i. take (length p) (drop i (x # xs)) \<noteq> p)
      \<longleftrightarrow> take (length p) (x # xs) \<noteq> p \<and> (\<forall>i. take (length p) (drop i xs) \<noteq> p)"
    by (metis drop0 drop_Suc_Cons not0_implies_Suc)
  with Cons show ?case by auto
qed

lemma find_sub_append_Some:
  assumes "find_sub p xs = Some i"
  shows "find_sub p (xs @ ys) = Some i"
  using assms
proof (induction xs arbitrary: i)
  case Nil
  then show ?case by (cases ys) (auto split: if_splits)
next
  case (Cons x xs)
  show ?case
  proof (cases "take (length p) (x # xs) = p")
    case True
    then have "length p \<le> length (x # xs)" by (metis length_take min.cobounded1)
    then have "take (length p) ((x # xs) @ ys) = p"
      using True by (simp only: take_append) simp
    then show ?thesis using Cons.prems True by simp
  next
    case False
    with Cons.prems obtain j where j: "find_sub p xs = Some j" "i = Suc j" by auto
    then have "Suc j + length p \<le> length (x # xs)" using find_sub_Some_bound by fastforce
    then have "length p \<le> length (x # xs)" by simp
    then have "take (length p) ((x # xs) @ ys) = take (length p) (x # xs)"
      by (simp only: take_append) simp
    with False have "take (length p) (x # xs @ ys) \<noteq> p" by simp
    with Cons.IH [OF j(1)] j show ?thesis by simp
  qed
qed

lemma rfind1_Some:
  "rfind1 y xs = Some i \<Longrightarrow> i < length xs \<and> xs ! i = y"
  by (induction xs arbitrary: i) (auto split: option.splits if_splits)

lemma rfind1_None: "rfind1 y xs = None \<longleftrightarrow> y \<notin> set xs"
  by (induction xs) (auto split: option.splits)

lemma rfind1_append_last:
  "y \<notin> set ys \<Longrightarrow> rfind1 y (xs @ y # ys) = Some (length xs)"
  by (induction xs) (auto simp: rfind1_None [THEN iffD2])

lemma dropWhile_none: "(\<And>x. x \<in> set xs \<Longrightarrow> \<not> p x) \<Longrightarrow> dropWhile p xs = xs"
  by (cases xs) simp_all

lemma takeWhile_resume:
  "length (takeWhile p (xs @ d)) =
   length (takeWhile p xs) + length (takeWhile p (drop (length (takeWhile p xs)) xs @ d))"
  by (induction xs) simp_all

lemma dropWhile_drop_length: "dropWhile p xs = drop (length (takeWhile p xs)) xs"
  by (rule dropWhile_eq_drop)

section \<open>Lemmas on bytes, integers and hexadecimal text\<close>

lemma uint_byte_bounds [simp]: "0 \<le> uint (b :: byte)" "uint (b :: byte) < 256"
  using uint_lt2p [of b] by simp_all

lemma and_mask_int:
  "(x :: int) AND 255 = x mod 256"
  "(x :: int) AND 0xFFFF = x mod 65536"
  "(x :: int) AND 0xFFFFFF = x mod 16777216"
proof -
  have "x AND mask 8 = take_bit 8 x" "x AND mask 16 = take_bit 16 x" "x AND mask 24 = take_bit 24 x"
    by (simp_all only: take_bit_eq_mask)
  then show "x AND 255 = x mod 256" "x AND 0xFFFF = x mod 65536" "x AND 0xFFFFFF = x mod 16777216"
    by (simp_all add: take_bit_eq_mod mask_eq_exp_minus_1)
qed

lemma byte_of_uint_inject:
  "0 \<le> a \<Longrightarrow> a < 256 \<Longrightarrow> 0 \<le> c \<Longrightarrow> c < 256 \<Longrightarrow>
   (word_of_int a :: byte) = word_of_int c \<longleftrightarrow> a = c"
  by (simp add: word_uint_eq_iff uint_word_of_int_eq take_bit_int_eq_self)

lemma and_mask_take:
  "(x :: int) AND 0xFF = take_bit 8 x"
  "(x :: int) AND 0xFFFF = take_bit 16 x"
  "(x :: int) AND 0xFFFFFF = take_bit 24 x"
  by (simp_all only: and_mask_int take_bit_eq_mod) simp_all

lemma xor_zero_iff: "(a :: 'a :: ring_bit_operations) XOR b = 0 \<longleftrightarrow> a = b"
  by (auto simp: bit_eq_iff bit_simps)

lemma take_bit_int_idem: "0 \<le> x \<Longrightarrow> x < 2 ^ n \<Longrightarrow> take_bit n (x :: int) = x"
  by (simp add: take_bit_int_eq_self_iff)

lemma and_exp_bit: "(x :: int) AND 2 ^ n \<noteq> 0 \<longleftrightarrow> bit x n"
proof -
  have "x AND 2 ^ n = (if bit x n then 2 ^ n else 0)"
    by (rule bit_eqI) (auto simp: bit_simps)
  then show ?thesis by simp
qed

lemma or_push_8: "0 \<le> x \<Longrightarrow> x < 256 \<Longrightarrow> (x :: int) OR push_bit 8 y = x + 256 * y"
proof -
  assume x: "0 \<le> x" "x < 256"
  then have t: "take_bit 8 x = x" by (simp add: take_bit_int_idem)
  have "x AND push_bit 8 y = 0"
  proof (rule bit_eqI)
    fix n
    show "bit (x AND push_bit 8 y) n = bit (0 :: int) n"
      using arg_cong [OF t, of "\<lambda>z. bit z n"] by (auto simp: bit_simps)
  qed
  then have "x OR push_bit 8 y = x + push_bit 8 y" by (simp add: disjunctive_add_eq_or)
  then show ?thesis by (simp add: push_bit_eq_mult)
qed

lemma u16_at_bounds: "0 \<le> u16_at b i \<and> u16_at b i < 65536"
proof -
  have "0 \<le> uint (b ! i)" "uint (b ! i) \<le> 255" "0 \<le> uint (b ! (i + 1))" "uint (b ! (i + 1)) \<le> 255"
    using uint_byte_bounds [of "b ! i"] uint_byte_bounds [of "b ! (i + 1)"] by linarith+
  then show ?thesis unfolding u16_at_def by (simp add: or_push_8)
qed

lemma u16_at_pack:
  assumes "0 \<le> n" "n < 65536" "b ! i = pack_u16 n ! 0" "b ! (i + 1) = pack_u16 n ! 1"
  shows "u16_at b i = n"
proof -
  have "uint (word_of_int n :: byte) = n mod 256"
    by (simp add: uint_word_of_int)
  moreover have "uint (word_of_int (drop_bit 8 n) :: byte) = n div 256"
    using assms(1,2) by (simp add: uint_word_of_int drop_bit_eq_div)
  ultimately show ?thesis
    using assms by (simp add: u16_at_def pack_u16_def or_push_8)
qed

lemma length_pack_u16 [simp]: "length (pack_u16 n) = 2"
  by (simp add: pack_u16_def)

lemma decode_encode_latin1 [simp]: "decode_latin1 (encode_latin1 s) = s"
  by (induction s)
    (simp_all add: decode_latin1_def encode_latin1_def byte_of_char_def char_of_byte_def
      unat_of_nat)

lemma byte_of_char_inject: "byte_of_char a = byte_of_char b \<longleftrightarrow> a = b"
proof -
  have "char_of_byte (byte_of_char c) = c" for c
    using decode_encode_latin1 [of "[c]"] by (simp add: decode_latin1_def encode_latin1_def)
  then show ?thesis by metis
qed

lemma length_hex_fixed [simp]: "length (hex_fixed w n) = w"
  by (induction w arbitrary: n) simp_all

end
