(* ===== verification/Checksums.thy ===== *)
theory Checksums
  imports Prelude
begin

text \<open>
  The checksums of the wire protocols: \<open>src/mtrtk/core/crc.py\<close> (UBX Fletcher-8, RTCM
  CRC-24Q, NMEA XOR), \<open>rover/drivers/sbg/crc.py\<close> (CRC-16/KERMIT) and
  \<open>rover/drivers/vectornav/checksum.py\<close> (CRC-16/XMODEM, XOR-8, the ASCII line checksum).

  The three CRCs are table driven. The locale \<open>crc_register\<close> is what a framer relies on in a
  CRC (a linear register in which a short non-zero burst never vanishes), the locale
  \<open>msb_register\<close> proves it once for every bit-serial most-significant-bit-first register, and
  the model's routines are shown equal to such a register.
\<close>

section \<open>The routines\<close>

subsection \<open>core/crc.py\<close>

fun ubx_ck_loop :: "int \<Rightarrow> int \<Rightarrow> bytes \<Rightarrow> int \<times> int" where
  "ubx_ck_loop ck_a ck_b [] = (ck_a, ck_b)"
| "ubx_ck_loop ck_a ck_b (x # xs) =
     (let a = (ck_a + uint x) AND 0xFF; b = (ck_b + a) AND 0xFF in ubx_ck_loop a b xs)"

definition ubx_checksum :: "bytes \<Rightarrow> bytes" where
  "ubx_checksum data =
     (case ubx_ck_loop 0 0 data of (ck_a, ck_b) \<Rightarrow> [word_of_int ck_a, word_of_int ck_b])"

definition crc24q_shift :: "int \<Rightarrow> int" where
  "crc24q_shift crc0 =
     (let crc = push_bit 1 crc0
      in if crc AND 0x1000000 \<noteq> 0 then crc XOR 0x1864CFB else crc)"

definition build_crc24q_table :: "int list" where
  "build_crc24q_table =
     map (\<lambda>i. (crc24q_shift ^^ 8) (push_bit 16 (int i)) AND 0xFFFFFF) [0..<256]"

definition crc24q_step :: "int \<Rightarrow> byte \<Rightarrow> int" where
  "crc24q_step crc b =
     (push_bit 8 crc AND 0xFFFFFF) XOR
     build_crc24q_table ! nat ((drop_bit 16 crc XOR uint b) AND 0xFF)"

definition crc24q :: "bytes \<Rightarrow> int" where
  "crc24q data = foldl crc24q_step 0 data"

definition nmea_checksum :: "bytes \<Rightarrow> int" where
  "nmea_checksum body = foldl (\<lambda>result b. result XOR uint b) 0 body"

subsection \<open>rover/drivers/sbg/crc.py\<close>

definition kermit_shift :: "int \<Rightarrow> int" where
  "kermit_shift crc = (if crc AND 1 \<noteq> 0 then drop_bit 1 crc XOR 0x8408 else drop_bit 1 crc)"

definition kermit_table :: "int list" where
  "kermit_table = map (\<lambda>i. (kermit_shift ^^ 8) (int i)) [0..<256]"

definition crc16_kermit_step :: "int \<Rightarrow> byte \<Rightarrow> int" where
  "crc16_kermit_step crc b =
     kermit_table ! nat ((uint b XOR crc) AND 0xFF) XOR drop_bit 8 crc"

definition crc16_kermit :: "bytes \<Rightarrow> int" where
  "crc16_kermit data = foldl crc16_kermit_step 0 data"

subsection \<open>rover/drivers/vectornav/checksum.py\<close>

definition xmodem_shift :: "int \<Rightarrow> int" where
  "xmodem_shift crc =
     (if crc AND 0x8000 \<noteq> 0 then push_bit 1 crc XOR 0x1021 else push_bit 1 crc)"

definition xmodem_table :: "int list" where
  "xmodem_table = map (\<lambda>i. (xmodem_shift ^^ 8) (push_bit 8 (int i)) AND 0xFFFF) [0..<256]"

definition crc16_xmodem_step :: "int \<Rightarrow> byte \<Rightarrow> int" where
  "crc16_xmodem_step crc b =
     (push_bit 8 crc AND 0xFFFF) XOR
     xmodem_table ! nat ((drop_bit 8 crc XOR uint b) AND 0xFF)"

definition crc16_xmodem :: "bytes \<Rightarrow> int" where
  "crc16_xmodem data = foldl crc16_xmodem_step 0 data"

definition xor8 :: "bytes \<Rightarrow> int" where
  "xor8 data = foldl (\<lambda>cs b. cs XOR uint b) 0 data"

definition verify_ascii :: "bytes \<Rightarrow> bool" where
  "verify_ascii line =
     (let text = rstrip (\<lambda>b. b = 13 \<or> b = 10) line
      in if \<not> starts_with [36] text then False
         else (case rfind1 42 text of
                 None \<Rightarrow> False
               | Some star \<Rightarrow>
                   let body = py_slice 1 star text; given = drop (star + 1) text
                   in (case py_int16 given of
                         None \<Rightarrow> False
                       | Some value \<Rightarrow>
                           if length given = 2 then value = xor8 body
                           else if length given = 4 then value = crc16_xmodem body
                           else False)))"

text \<open>\<open>finalize_ascii\<close>; the body is an ASCII string, given here by its encoding.\<close>

definition finalize_ascii :: "bytes \<Rightarrow> bool \<Rightarrow> bytes" where
  "finalize_ascii raw crc =
     [36] @ raw @ [42] @ (if crc then hex_fixed 4 (crc16_xmodem raw) else hex_fixed 2 (xor8 raw))
       @ [13, 10]"

section \<open>The contract of a CRC register\<close>

text \<open>
  \<open>upd\<close> is one byte of a CRC with a register of \<open>k\<close> bytes: it keeps the register in range,
  it is linear over exclusive or, it forgets nothing (\<open>upd_state\<close>), and no non-zero burst of
  at most \<open>k\<close> bytes leaves a zero register behind.
\<close>

locale crc_register =
  fixes upd :: "int \<Rightarrow> byte \<Rightarrow> int" and k :: nat
  assumes k_pos: "0 < k"
    and upd_range: "0 \<le> c \<Longrightarrow> c < 2 ^ (8 * k) \<Longrightarrow> 0 \<le> upd c b \<and> upd c b < 2 ^ (8 * k)"
    and upd_xor: "0 \<le> c \<Longrightarrow> c < 2 ^ (8 * k) \<Longrightarrow> 0 \<le> d \<Longrightarrow> d < 2 ^ (8 * k) \<Longrightarrow>
      upd (c XOR d) (a XOR b) = upd c a XOR upd d b"
    and upd_state: "0 \<le> c \<Longrightarrow> c < 2 ^ (8 * k) \<Longrightarrow> upd c 0 = 0 \<Longrightarrow> c = 0"
    and upd_burst: "length xs \<le> k \<Longrightarrow> foldl upd 0 xs = 0 \<Longrightarrow> set xs \<subseteq> {0}"
begin

lemma run_range:
  "0 \<le> c \<Longrightarrow> c < 2 ^ (8 * k) \<Longrightarrow> 0 \<le> foldl upd c xs \<and> foldl upd c xs < 2 ^ (8 * k)"
  by (induction xs arbitrary: c) (auto dest: upd_range)

lemma run_xor:
  assumes "length xs = length ys" "0 \<le> c" "c < 2 ^ (8 * k)" "0 \<le> d" "d < 2 ^ (8 * k)"
  shows "foldl upd (c XOR d) (map2 (XOR) xs ys) = foldl upd c xs XOR foldl upd d ys"
  using assms
proof (induction xs ys arbitrary: c d rule: list_induct2)
  case Nil
  then show ?case by simp
next
  case (Cons x xs y ys)
  then show ?case
    using upd_range [of c x] upd_range [of d y] by (simp add: upd_xor)
qed

lemma run_zeros:
  assumes "set xs \<subseteq> {0}" "0 \<le> c" "c < 2 ^ (8 * k)" "foldl upd c xs = 0"
  shows "c = 0"
  using assms
proof (induction xs arbitrary: c)
  case Nil
  then show ?case by simp
next
  case (Cons x xs)
  then have "upd c 0 = 0" using upd_range [of c 0] by auto
  with Cons.prems show ?case by (blast intro: upd_state)
qed

text \<open>A corruption confined to \<open>k\<close> consecutive bytes always changes the CRC.\<close>

lemma burst_detected:
  assumes len: "length xs = length ys" "length xs \<le> k" and ne: "xs \<noteq> ys"
  shows "foldl upd 0 (pre @ xs @ post) \<noteq> foldl upd 0 (pre @ ys @ post)"
proof
  assume eq: "foldl upd 0 (pre @ xs @ post) = foldl upd 0 (pre @ ys @ post)"
  define c where "c = foldl upd 0 pre"
  have c: "0 \<le> c" "c < 2 ^ (8 * k)" using run_range [of 0 pre] by (simp_all add: c_def)
  define X Y where "X = foldl upd c xs" and "Y = foldl upd c ys"
  have XY: "0 \<le> X" "X < 2 ^ (8 * k)" "0 \<le> Y" "Y < 2 ^ (8 * k)"
    using run_range c by (auto simp: X_def Y_def)
  have diff: "X XOR Y = foldl upd 0 (map2 (XOR) xs ys)"
    using run_xor [OF len(1) c c] by (simp add: X_def Y_def)
  have small: "0 \<le> X XOR Y \<and> X XOR Y < 2 ^ (8 * k)"
    unfolding diff using run_range [of 0 "map2 (XOR) xs ys"] by simp
  have "foldl upd X post = foldl upd Y post"
    using eq by (simp add: X_def Y_def c_def)
  then have "foldl upd (X XOR Y) (map2 (XOR) post post) = 0"
    using run_xor [OF refl XY, of post] by simp
  moreover have "set (map2 (XOR) post post) \<subseteq> {0}"
    by (auto simp: set_zip)
  ultimately have "X XOR Y = 0"
    using small run_zeros by blast
  then have "set (map2 (XOR) xs ys) \<subseteq> {0}"
    using diff len by (intro upd_burst) auto
  then have "\<forall>i < length xs. xs ! i XOR ys ! i = 0"
    using len(1) by (auto simp: subset_iff set_conv_nth)
  then have "xs = ys"
    using len(1) by (intro nth_equalityI) (auto simp: xor_zero_iff)
  with ne show False ..
qed

end

section \<open>Bit-serial registers, most significant bit first\<close>

text \<open>
  The reference definition: a register of \<open>w\<close> bits, shifted left once per message bit, with
  the generator polynomial \<open>p\<close> folded in whenever a one is shifted out. A byte enters at the
  top of the register.
\<close>

definition msb_step :: "nat \<Rightarrow> int \<Rightarrow> int \<Rightarrow> int" where
  "msb_step w p x = take_bit w ((2 * x) XOR (if bit x (w - 1) then p else 0))"

definition msb_upd :: "nat \<Rightarrow> int \<Rightarrow> int \<Rightarrow> byte \<Rightarrow> int" where
  "msb_upd w p c b = (msb_step w p ^^ 8) (c XOR push_bit (w - 8) (uint b))"

lemma range_xor:
  "0 \<le> (x :: int) \<Longrightarrow> x < 2 ^ n \<Longrightarrow> 0 \<le> y \<Longrightarrow> y < 2 ^ n \<Longrightarrow> 0 \<le> x XOR y \<and> x XOR y < 2 ^ n"
  by (simp add: XOR_upper)

lemma uint_byte_xor: "uint ((a :: byte) XOR b) = uint a XOR uint b"
  by (simp add: uint_xor)

lemma push_byte_range: "8 + n \<le> w \<Longrightarrow> 0 \<le> push_bit n (uint (b :: byte)) \<and>
  push_bit n (uint b) < 2 ^ w"
proof -
  assume w: "8 + n \<le> w"
  have "uint b * 2 ^ n < 256 * 2 ^ n" by (rule mult_strict_right_mono) simp_all
  also have "(256 :: int) * 2 ^ n = 2 ^ (8 + n)" by (simp only: power_add) simp
  also have "(2 :: int) ^ (8 + n) \<le> 2 ^ w" using w by (intro power_increasing) simp_all
  finally show ?thesis by (simp add: push_bit_eq_mult)
qed

lemma bit_uint_byte: "bit (uint (b :: byte)) n \<Longrightarrow> n < 8"
  using bit_imp_le_length [of b n] by (simp add: bit_uint_iff)

text \<open>
  What a register of \<open>k\<close> bytes needs from its bit step \<open>T\<close>: linearity, a trivial kernel, and
  that eight steps move a byte from place \<open>Suc j\<close> to place \<open>j\<close>. Place 0 is where a message
  byte enters; \<open>slot\<close> says that different places use different bits.
\<close>

locale byte_register =
  fixes T :: "int \<Rightarrow> int" and place :: "nat \<Rightarrow> byte \<Rightarrow> int" and slot :: "nat \<Rightarrow> nat"
    and k :: nat
  assumes kp: "0 < k"
    and T_xor: "T (x XOR y) = T x XOR T y"
    and T_range: "0 \<le> x \<Longrightarrow> x < 2 ^ (8 * k) \<Longrightarrow> 0 \<le> T x \<and> T x < 2 ^ (8 * k)"
    and T_zero: "0 \<le> x \<Longrightarrow> x < 2 ^ (8 * k) \<Longrightarrow> T x = 0 \<Longrightarrow> x = 0"
    and place_range: "j < k \<Longrightarrow> 0 \<le> place j b \<and> place j b < 2 ^ (8 * k)"
    and place_xor: "place j (a XOR b) = place j a XOR place j b"
    and place_zero: "j < k \<Longrightarrow> place j b = 0 \<longleftrightarrow> b = 0"
    and place_slot: "j < k \<Longrightarrow> bit (place j b) n \<Longrightarrow> slot n = j"
    and place_shift: "Suc j < k \<Longrightarrow> (T ^^ 8) (place (Suc j) b) = place j b"
begin

definition upd :: "int \<Rightarrow> byte \<Rightarrow> int" where
  "upd c b = (T ^^ 8) (c XOR place 0 b)"

fun lay :: "nat \<Rightarrow> bytes \<Rightarrow> int" where
  "lay j [] = 0"
| "lay j (x # xs) = place j x XOR lay (Suc j) xs"

lemma T_of_zero: "T 0 = 0"
  using T_xor [of 0 0] by simp

lemma iter_of_zero: "(T ^^ n) 0 = 0"
  by (induction n) (simp_all add: T_of_zero)

lemma iter_xor: "(T ^^ n) (x XOR y) = (T ^^ n) x XOR (T ^^ n) y"
  by (induction n) (simp_all add: T_xor)

lemma iter_range:
  "0 \<le> x \<Longrightarrow> x < 2 ^ (8 * k) \<Longrightarrow> 0 \<le> (T ^^ n) x \<and> (T ^^ n) x < 2 ^ (8 * k)"
  by (induction n) (auto simp: T_range)

lemma iter_zero:
  assumes "0 \<le> x" "x < 2 ^ (8 * k)" "(T ^^ n) x = 0"
  shows "x = 0"
  using assms(3)
proof (induction n)
  case (Suc n)
  then have "(T ^^ n) x = 0" using iter_range [OF assms(1,2), of n] T_zero by simp
  then show ?case by (rule Suc.IH)
qed simp

lemma iter_inject:
  assumes "0 \<le> x" "x < 2 ^ (8 * k)" "0 \<le> y" "y < 2 ^ (8 * k)"
  shows "(T ^^ n) x = (T ^^ n) y \<longleftrightarrow> x = y"
proof
  assume "(T ^^ n) x = (T ^^ n) y"
  then have "(T ^^ n) (x XOR y) = 0" by (simp add: iter_xor)
  then have "x XOR y = 0"
    using range_xor [OF assms] by (blast intro: iter_zero)
  then show "x = y" by (simp add: xor_zero_iff)
qed simp

lemma lay_range:
  "j + length xs \<le> k \<Longrightarrow> 0 \<le> lay j xs \<and> lay j xs < 2 ^ (8 * k)"
proof (induction xs arbitrary: j)
  case (Cons x xs)
  then have "0 \<le> lay (Suc j) xs \<and> lay (Suc j) xs < 2 ^ (8 * k)" "j < k" by simp_all
  with place_range [of j x] show ?case by (simp add: range_xor)
qed simp

lemma lay_slot: "j + length xs \<le> k \<Longrightarrow> bit (lay j xs) n \<Longrightarrow> j \<le> slot n"
proof (induction xs arbitrary: j)
  case (Cons x xs)
  then consider "bit (place j x) n" | "bit (lay (Suc j) xs) n" by (auto simp: bit_simps)
  then show ?case
  proof cases
    case 1
    then show ?thesis using Cons.prems place_slot [of j x n] by simp
  next
    case 2
    then have "Suc j \<le> slot n" using Cons.prems by (intro Cons.IH) simp_all
    then show ?thesis by simp
  qed
qed simp

lemma lay_zero: "j + length xs \<le> k \<Longrightarrow> lay j xs = 0 \<Longrightarrow> set xs \<subseteq> {0}"
proof (induction xs arbitrary: j)
  case (Cons x xs)
  then have eq: "place j x = lay (Suc j) xs" by (simp add: xor_zero_iff)
  have "\<not> bit (place j x) n" for n
    using eq Cons.prems place_slot [of j x n] lay_slot [of "Suc j" xs n] by auto
  then have "place j x = 0" by (auto intro: bit_eqI)
  moreover from this eq have "set xs \<subseteq> {0}" using Cons.prems by (intro Cons.IH [of "Suc j"]) simp_all
  ultimately show ?case using Cons.prems place_zero by simp
qed simp

lemma lay_shift: "Suc j + length xs \<le> k \<Longrightarrow> (T ^^ 8) (lay (Suc j) xs) = lay j xs"
  by (induction xs arbitrary: j) (simp_all add: iter_of_zero iter_xor place_shift del: funpow.simps)

text \<open>A run over at most \<open>k\<close> bytes is that many bit steps of the bytes laid side by side.\<close>

lemma run_lay:
  "length xs \<le> k \<Longrightarrow> foldl upd c xs = (T ^^ (8 * length xs)) (c XOR lay 0 xs)"
proof (induction xs arbitrary: c)
  case Nil
  then show ?case by simp
next
  case (Cons x xs)
  have "foldl upd c (x # xs) = (T ^^ (8 * length xs)) (upd c x XOR lay 0 xs)"
    using Cons by simp
  also have "upd c x XOR lay 0 xs = (T ^^ 8) (c XOR place 0 x XOR lay (Suc 0) xs)"
    using Cons.prems lay_shift [of 0 xs] by (simp only: upd_def iter_xor) (simp add: xor.assoc)
  also have "(T ^^ (8 * length xs)) \<dots> = (T ^^ (8 * length (x # xs))) (c XOR lay 0 (x # xs))"
    by (simp only: funpow_add [THEN fun_cong, unfolded comp_def, symmetric] lay.simps
        xor.assoc) (simp add: add.commute)
  finally show ?case .
qed

text \<open>The register ends at zero exactly when the message ends with the register's content.\<close>

lemma residue:
  assumes "length xs \<le> k" "0 \<le> c" "c < 2 ^ (8 * k)"
  shows "foldl upd c xs = 0 \<longleftrightarrow> c = lay 0 xs"
proof -
  have r: "0 \<le> lay 0 xs" "lay 0 xs < 2 ^ (8 * k)" using lay_range [of 0 xs] assms by simp_all
  have "foldl upd c xs = 0 \<longleftrightarrow> c XOR lay 0 xs = 0"
    using iter_zero range_xor [OF assms(2,3) r] run_lay [OF assms(1), of c] iter_of_zero
    by metis
  then show ?thesis by (simp add: xor_zero_iff)
qed

sublocale crc_register upd k
proof
  show "0 < k" by (rule kp)
next
  fix c :: int and b :: byte assume "0 \<le> c" "c < 2 ^ (8 * k)"
  then show "0 \<le> upd c b \<and> upd c b < 2 ^ (8 * k)"
    unfolding upd_def using place_range [OF kp, of b] by (intro iter_range) (simp_all add: range_xor)
next
  show "upd (c XOR d) (a XOR b) = upd c a XOR upd d b" for c d :: int and a b :: byte
    by (simp only: upd_def place_xor iter_xor [symmetric] xor.assoc xor.left_commute)
next
  fix c :: int assume c: "0 \<le> c" "c < 2 ^ (8 * k)" "upd c 0 = 0"
  then show "c = 0"
    unfolding upd_def using place_zero [OF kp, of 0] by (simp del: funpow.simps) (rule iter_zero)
next
  fix xs :: bytes assume "length xs \<le> k" "foldl upd 0 xs = 0"
  then show "set xs \<subseteq> {0}"
    using residue [of xs 0] lay_zero [of 0 xs] by simp
qed

end

locale msb_register =
  fixes w :: nat and p :: int
  assumes w8: "8 \<le> w" and w_bytes: "8 dvd w" and p_odd: "bit p 0"
begin

lemma msb_xor: "msb_step w p (x XOR y) = msb_step w p x XOR msb_step w p y"
  by (rule bit_eqI) (auto simp: msb_step_def bit_simps bit_double_iff)

lemma msb_range: "0 \<le> msb_step w p x \<and> msb_step w p x < 2 ^ w"
  unfolding msb_step_def by (simp only: take_bit_nonnegative take_bit_int_less_exp)

lemma msb_zero:
  assumes "0 \<le> x" "x < 2 ^ w" "msb_step w p x = 0"
  shows "x = 0"
proof -
  have bits: "\<not> bit (msb_step w p x) n" for n using assms(3) by simp
  have top: "\<not> bit x (w - 1)"
    using bits [of 0] w8 p_odd by (auto simp: msb_step_def bit_simps bit_double_iff)
  have "\<not> bit x n" if "n < w - 1" for n
    using bits [of "Suc n"] that top by (auto simp: msb_step_def bit_simps bit_double_iff)
  with top have "\<not> bit x n" if "n < w" for n
    using that by (cases "n = w - 1") auto
  then have "take_bit w x = 0"
    by (intro bit_eqI) (auto simp: bit_simps)
  then show ?thesis using assms by (simp add: take_bit_int_idem)
qed

lemma msb_shift:
  "0 \<le> x \<Longrightarrow> push_bit n x < 2 ^ w \<Longrightarrow> (msb_step w p ^^ n) x = push_bit n x"
proof (induction n)
  case 0
  then show ?case by simp
next
  case (Suc n)
  let ?y = "push_bit n x"
  have eq: "push_bit (Suc n) x = 2 * ?y" by (simp add: push_bit_eq_mult)
  have y: "0 \<le> ?y" using Suc.prems by simp
  have two: "(2 :: int) ^ w = 2 * 2 ^ (w - 1)" using w8 by (metis Suc_diff_1 less_le_trans
        power_Suc zero_less_numeral)
  have lt: "?y < 2 ^ (w - 1)" "?y < 2 ^ w" "2 * ?y < 2 ^ w"
    using Suc.prems eq two y by linarith+
  then have "take_bit (w - 1) ?y = ?y" using y by (simp add: take_bit_int_idem)
  then have "\<not> bit ?y (w - 1)" by (metis bit_take_bit_iff less_irrefl)
  with Suc lt eq y show ?case by (simp add: msb_step_def take_bit_int_idem)
qed

sublocale byte_register "msb_step w p" "\<lambda>j b. push_bit (w - 8 - 8 * j) (uint b)"
  "\<lambda>n. (w - 1 - n) div 8" "w div 8"
proof
  have w: "8 * (w div 8) = w" using w_bytes by simp
  show "0 < w div 8" using w8 by simp
  fix x y :: int and j n :: nat and a b :: byte
  show "msb_step w p (x XOR y) = msb_step w p x XOR msb_step w p y" by (rule msb_xor)
  show "0 \<le> msb_step w p x \<and> msb_step w p x < 2 ^ (8 * (w div 8))"
    unfolding w by (rule msb_range)
  show "x = 0" if "0 \<le> x" "x < 2 ^ (8 * (w div 8))" "msb_step w p x = 0"
    using that unfolding w by (rule msb_zero)
  show "push_bit (w - 8 - 8 * j) (uint (a XOR b)) =
      push_bit (w - 8 - 8 * j) (uint a) XOR push_bit (w - 8 - 8 * j) (uint b)"
    by (simp add: uint_byte_xor push_bit_xor)
  show "0 \<le> push_bit (w - 8 - 8 * j) (uint b) \<and>
      push_bit (w - 8 - 8 * j) (uint b) < 2 ^ (8 * (w div 8))" if "j < w div 8"
    unfolding w by (rule push_byte_range) (use w8 in simp)
  show "push_bit (w - 8 - 8 * j) (uint b) = 0 \<longleftrightarrow> b = 0" if "j < w div 8"
    by (simp add: push_bit_eq_mult uint_0_iff)
  show "(w - 1 - n) div 8 = j" if j: "j < w div 8" and "bit (push_bit (w - 8 - 8 * j) (uint b)) n"
  proof -
    from that(2) have n: "w - 8 - 8 * j \<le> n" "n - (w - 8 - 8 * j) < 8"
      by (auto simp: bit_simps dest: bit_imp_le_length)
    moreover have "8 * Suc j \<le> w" using mult_le_mono2 [of "Suc j" "w div 8" 8] j w by simp
    ultimately show ?thesis by (intro div_nat_eqI) (use w in simp_all)
  qed
  show "(msb_step w p ^^ 8) (push_bit (w - 8 - 8 * Suc j) (uint b)) =
      push_bit (w - 8 - 8 * j) (uint b)" if "Suc j < w div 8"
  proof -
    have "8 * Suc (Suc j) \<le> w"
      using mult_le_mono2 [of "Suc (Suc j)" "w div 8" 8] that w by simp
    then have eq: "push_bit 8 (push_bit (w - 8 - 8 * Suc j) (uint b)) =
        push_bit (w - 8 - 8 * j) (uint b)" by (simp add: Suc_diff_Suc)
    then show ?thesis
      using push_byte_range [of "w - 8 - 8 * j" w b] w8 by (subst msb_shift) auto
  qed
qed

end

section \<open>The model's routines as registers\<close>

text \<open>A register contract holds for any routine that agrees with one on its range.\<close>

context crc_register
begin

lemma run_cong:
  assumes "\<And>c b. 0 \<le> c \<Longrightarrow> c < 2 ^ (8 * k) \<Longrightarrow> f c b = upd c b"
    and "0 \<le> c" "c < 2 ^ (8 * k)"
  shows "foldl f c xs = foldl upd c xs"
  using assms(2,3)
  by (induction xs arbitrary: c) (auto simp: assms(1) dest: upd_range)

lemma transfer:
  assumes eq: "\<And>c b. 0 \<le> c \<Longrightarrow> c < 2 ^ (8 * k) \<Longrightarrow> f c b = upd c b"
  shows "crc_register f k"
proof
  show "0 < k" by (rule k_pos)
  fix c d :: int and a b :: byte
  show "0 \<le> f c b \<and> f c b < 2 ^ (8 * k)" if "0 \<le> c" "c < 2 ^ (8 * k)"
    using that upd_range by (simp add: eq)
  show "f (c XOR d) (a XOR b) = f c a XOR f d b"
    if "0 \<le> c" "c < 2 ^ (8 * k)" "0 \<le> d" "d < 2 ^ (8 * k)"
    using that range_xor [OF that] by (simp add: eq upd_xor)
  show "c = 0" if "0 \<le> c" "c < 2 ^ (8 * k)" "f c 0 = 0"
    using that upd_state by (simp add: eq)
  show "set xs \<subseteq> {0}" if "length xs \<le> k" "foldl f 0 xs = 0" for xs
    using that run_cong [of f 0 xs, OF eq] upd_burst [of xs] by simp
qed

end

interpretation crc24_ref: msb_register "24" "0x1864CFB"
  by unfold_locales (simp_all add: bit_simps)

interpretation xmodem_ref: msb_register "16" "0x1021"
  by unfold_locales (simp_all add: bit_simps)

subsection \<open>CRC-24Q\<close>

lemma crc24q_shift_eq:
  assumes "0 \<le> x" "x < 2 ^ 24"
  shows "crc24q_shift x = msb_step 24 0x1864CFB x"
proof -
  have test: "2 * x AND 0x1000000 \<noteq> 0 \<longleftrightarrow> bit x 23"
    using and_exp_bit [of "2 * x" 24] by (simp add: bit_double_iff)
  have eq: "crc24q_shift x = 2 * x XOR (if bit x 23 then 0x1864CFB else 0)"
    using test by (simp add: crc24q_shift_def push_bit_eq_mult mult.commute)
  have hi: "bit x n \<Longrightarrow> n < 24" for n
    using assms by (metis bit_take_bit_iff take_bit_int_idem)
  have pn: "bit (0x1864CFB :: int) n \<Longrightarrow> n < 25" for n
  proof -
    have "take_bit 25 (0x1864CFB :: int) = 0x1864CFB" by simp
    then show "bit (0x1864CFB :: int) n \<Longrightarrow> n < 25" by (metis bit_take_bit_iff)
  qed
  have high: "bit (crc24q_shift x) n \<Longrightarrow> n < 24" for n
    unfolding eq using hi [of "n - 1"] pn [of n]
    by (cases "n = 24") (auto simp: bit_simps bit_double_iff split: if_splits)
  have "take_bit 24 (crc24q_shift x) = crc24q_shift x"
    using high by (auto simp: bit_eq_iff bit_take_bit_iff)
  moreover have "msb_step 24 0x1864CFB x = take_bit 24 (crc24q_shift x)"
    unfolding msb_step_def eq by simp
  ultimately show ?thesis by simp
qed

lemma funpow_cong_range:
  assumes "\<And>x. P x \<Longrightarrow> f x = g x" "\<And>x. P x \<Longrightarrow> P (g x)" "P x"
  shows "(f ^^ n) x = (g ^^ n) x \<and> P ((g ^^ n) x)"
  by (induction n) (auto simp: assms)

lemma crc24q_table_nth:
  assumes "i < 256"
  shows "build_crc24q_table ! i = (msb_step 24 0x1864CFB ^^ 8) (push_bit 16 (int i))"
proof -
  let ?x = "push_bit 16 (int i)"
  have x: "0 \<le> ?x \<and> ?x < 2 ^ 24" using assms by (simp add: push_bit_eq_mult)
  have "(crc24q_shift ^^ 8) ?x = (msb_step 24 0x1864CFB ^^ 8) ?x \<and>
      0 \<le> (msb_step 24 0x1864CFB ^^ 8) ?x \<and> (msb_step 24 0x1864CFB ^^ 8) ?x < 2 ^ 24"
    by (rule funpow_cong_range [where P = "\<lambda>x. 0 \<le> x \<and> x < 2 ^ 24", OF _ _ x])
      (simp_all only: crc24q_shift_eq crc24_ref.msb_range)
  then show ?thesis
    using assms by (simp add: build_crc24q_table_def and_mask_int del: funpow.simps)
qed

lemma crc24q_step_bitwise:
  assumes "0 \<le> c" "c < 2 ^ (8 * 3)"
  shows "crc24q_step c b = crc24_ref.upd c b"
proof -
  define hi lo where "hi = drop_bit 16 c" and "lo = take_bit 16 c"
  have split: "c = push_bit 16 hi XOR lo"
    by (rule bit_eqI) (auto simp: hi_def lo_def bit_simps)
  have hi: "0 \<le> hi" "hi < 256" using assms by (simp_all add: hi_def drop_bit_eq_div)
  have lo: "0 \<le> lo" "lo < 2 ^ 16"
    unfolding lo_def by (simp, rule take_bit_int_less_exp)
  let ?i = "hi XOR uint b"
  have i: "0 \<le> ?i" "?i < 256" using range_xor [of hi 8 "uint b"] hi by simp_all
  have mask: "?i AND 0xFF = ?i" using i by (simp add: and_mask_int)
  have table: "build_crc24q_table ! nat (?i AND 0xFF)
      = (msb_step 24 0x1864CFB ^^ 8) (push_bit 16 ?i)"
    unfolding mask using i by (subst crc24q_table_nth) simp_all
  have "push_bit 8 c AND 0xFFFFFF = push_bit 8 lo"
    by (simp only: and_mask_take take_bit_push_bit) (simp add: lo_def)
  also have "\<dots> = (msb_step 24 0x1864CFB ^^ 8) lo"
    using lo by (subst crc24_ref.msb_shift) (simp_all add: push_bit_eq_mult)
  finally have "crc24q_step c b = (msb_step 24 0x1864CFB ^^ 8) (lo XOR push_bit 16 ?i)"
    unfolding crc24q_step_def hi_def [symmetric] table by (simp only: crc24_ref.iter_xor)
  also have "lo XOR push_bit 16 ?i = c XOR push_bit 16 (uint b)"
  proof -
    have "c XOR push_bit 16 (uint b) = (push_bit 16 hi XOR lo) XOR push_bit 16 (uint b)"
      using split by simp
    then show ?thesis by (simp add: push_bit_xor ac_simps)
  qed
  finally show ?thesis unfolding crc24_ref.upd_def by simp
qed

interpretation crc24: crc_register crc24q_step 3
  using crc24_ref.transfer [of crc24q_step] crc24q_step_bitwise by simp

lemma crc24q_bitwise: "crc24q data = foldl (msb_upd 24 0x1864CFB) 0 data"
proof -
  have "foldl crc24q_step 0 data = foldl crc24_ref.upd 0 data"
    by (rule crc24_ref.run_cong) (use crc24q_step_bitwise in simp_all)
  moreover have "crc24_ref.upd = msb_upd 24 0x1864CFB"
    unfolding fun_eq_iff crc24_ref.upd_def msb_upd_def by simp
  ultimately show ?thesis by (simp add: crc24q_def)
qed

lemma crc24q_range: "0 \<le> crc24q data \<and> crc24q data < 2 ^ 24"
  using crc24.run_range [of 0 data] by (simp add: crc24q_def)

subsection \<open>CRC-16/XMODEM\<close>

lemma xmodem_shift_eq: "take_bit 16 (xmodem_shift x) = msb_step 16 0x1021 (take_bit 16 x)"
proof -
  have test: "x AND 0x8000 \<noteq> 0 \<longleftrightarrow> bit x 15" using and_exp_bit [of x 15] by simp
  have eq: "xmodem_shift x = 2 * x XOR (if bit x 15 then 0x1021 else 0)"
    using test by (simp add: xmodem_shift_def push_bit_eq_mult mult.commute)
  show ?thesis
    by (rule bit_eqI) (auto simp: eq msb_step_def bit_simps bit_double_iff)
qed

lemma xmodem_iter_eq:
  "take_bit 16 ((xmodem_shift ^^ n) x) = (msb_step 16 0x1021 ^^ n) (take_bit 16 x)"
  by (induction n) (simp_all add: xmodem_shift_eq)

lemma xmodem_table_nth:
  assumes "i < 256"
  shows "xmodem_table ! i = (msb_step 16 0x1021 ^^ 8) (push_bit 8 (int i))"
proof -
  have "take_bit 16 (push_bit 8 (int i)) = push_bit 8 (int i)"
    using assms by (intro take_bit_int_idem) (simp_all add: push_bit_eq_mult)
  moreover have "xmodem_table ! i = take_bit 16 ((xmodem_shift ^^ 8) (push_bit 8 (int i)))"
    using assms by (simp add: xmodem_table_def and_mask_take del: funpow.simps)
  ultimately show ?thesis by (simp only: xmodem_iter_eq)
qed

lemma crc16_xmodem_step_bitwise:
  assumes "0 \<le> c" "c < 2 ^ (8 * 2)"
  shows "crc16_xmodem_step c b = xmodem_ref.upd c b"
proof -
  define hi lo where "hi = drop_bit 8 c" and "lo = take_bit 8 c"
  have split: "c = push_bit 8 hi XOR lo"
    by (rule bit_eqI) (auto simp: hi_def lo_def bit_simps)
  have hi: "0 \<le> hi" "hi < 256" using assms by (simp_all add: hi_def drop_bit_eq_div)
  have lo: "0 \<le> lo" "lo < 2 ^ 8"
    unfolding lo_def by (simp, rule take_bit_int_less_exp)
  let ?i = "hi XOR uint b"
  have i: "0 \<le> ?i" "?i < 256" using range_xor [of hi 8 "uint b"] hi by simp_all
  have mask: "?i AND 0xFF = ?i" using i by (simp add: and_mask_int)
  have table: "xmodem_table ! nat (?i AND 0xFF) = (msb_step 16 0x1021 ^^ 8) (push_bit 8 ?i)"
    unfolding mask using i by (subst xmodem_table_nth) simp_all
  have "push_bit 8 c AND 0xFFFF = push_bit 8 lo"
    by (simp only: and_mask_take take_bit_push_bit) (simp add: lo_def)
  also have "\<dots> = (msb_step 16 0x1021 ^^ 8) lo"
    using lo by (subst xmodem_ref.msb_shift) (simp_all add: push_bit_eq_mult)
  finally have "crc16_xmodem_step c b = (msb_step 16 0x1021 ^^ 8) (lo XOR push_bit 8 ?i)"
    unfolding crc16_xmodem_step_def hi_def [symmetric] table by (simp only: xmodem_ref.iter_xor)
  also have "lo XOR push_bit 8 ?i = c XOR push_bit 8 (uint b)"
  proof -
    have "c XOR push_bit 8 (uint b) = (push_bit 8 hi XOR lo) XOR push_bit 8 (uint b)"
      using split by simp
    then show ?thesis by (simp add: push_bit_xor ac_simps)
  qed
  finally show ?thesis unfolding xmodem_ref.upd_def by simp
qed

interpretation xmodem: crc_register crc16_xmodem_step 2
  using xmodem_ref.transfer [of crc16_xmodem_step] crc16_xmodem_step_bitwise by simp

lemma crc16_xmodem_range: "0 \<le> crc16_xmodem data \<and> crc16_xmodem data < 2 ^ 16"
  using xmodem.run_range [of 0 data] by (simp add: crc16_xmodem_def)

lemma crc16_xmodem_bitwise: "crc16_xmodem data = foldl (msb_upd 16 0x1021) 0 data"
proof -
  have "foldl crc16_xmodem_step 0 data = foldl xmodem_ref.upd 0 data"
    by (rule xmodem_ref.run_cong) (use crc16_xmodem_step_bitwise in simp_all)
  moreover have "xmodem_ref.upd = msb_upd 16 0x1021"
    unfolding fun_eq_iff xmodem_ref.upd_def msb_upd_def by simp
  ultimately show ?thesis by (simp add: crc16_xmodem_def)
qed

text \<open>
  The residue a VectorNav receiver tests: the CRC over a body and two more bytes is zero
  exactly when those bytes are the body's CRC, most significant byte first.
\<close>

lemma crc16_xmodem_residue:
  "crc16_xmodem (body @ [hi, lo]) = 0 \<longleftrightarrow> crc16_xmodem body = push_bit 8 (uint hi) XOR uint lo"
proof -
  let ?c = "crc16_xmodem body"
  have c: "0 \<le> ?c" "?c < 2 ^ (8 * (16 div 8))" using crc16_xmodem_range [of body] by simp_all
  have "crc16_xmodem (body @ [hi, lo]) = foldl xmodem_ref.upd ?c [hi, lo]"
    using xmodem_ref.run_cong [of crc16_xmodem_step ?c "[hi, lo]"] crc16_xmodem_step_bitwise c
    by (simp add: crc16_xmodem_def)
  moreover have "xmodem_ref.lay 0 [hi, lo] = push_bit 8 (uint hi) XOR uint lo"
    unfolding xmodem_ref.lay.simps by simp
  moreover have "length [hi, lo] \<le> 16 div 8" by simp
  ultimately show ?thesis
    by (simp only: xmodem_ref.residue [OF _ c])
qed

subsection \<open>CRC-16/KERMIT\<close>

text \<open>The reflected register of sbgECom: bits leave at the bottom, a byte enters there.\<close>

lemma kermit_shift_eq: "kermit_shift x = drop_bit 1 x XOR (if bit x 0 then 0x8408 else 0)"
  using and_exp_bit [of x 0] by (simp add: kermit_shift_def)

interpretation kermit_ref: byte_register kermit_shift "\<lambda>j b. push_bit (8 * j) (uint b)"
  "\<lambda>n. n div 8" "2"
proof
  fix x y :: int and j n :: nat and a b :: byte
  have b15: "bit (0x8408 :: int) 15" by simp
  show "kermit_shift (x XOR y) = kermit_shift x XOR kermit_shift y"
    by (rule bit_eqI) (auto simp: kermit_shift_eq bit_simps)
  show "0 \<le> kermit_shift x \<and> kermit_shift x < 2 ^ (8 * 2)" if "0 \<le> x" "x < 2 ^ (8 * 2)"
  proof -
    have "0 \<le> drop_bit 1 x \<and> drop_bit 1 x < 2 ^ 16"
      using that by (simp add: drop_bit_eq_div)
    then show ?thesis using range_xor [of "drop_bit 1 x" 16 "if bit x 0 then 0x8408 else 0"]
      by (simp add: kermit_shift_eq split: if_splits)
  qed
  show "x = 0" if x: "0 \<le> x" "x < 2 ^ (8 * 2)" and z: "kermit_shift x = 0"
  proof -
    have eq: "drop_bit 1 x = (if bit x 0 then 0x8408 else 0)"
      using z by (simp add: kermit_shift_eq xor_zero_iff)
    have "drop_bit 1 x < 0x8408" using x by (simp add: drop_bit_eq_div)
    with eq have "\<not> bit x 0" "drop_bit 1 x = 0" by (auto split: if_splits)
    then show "x = 0" by (simp add: drop_bit_eq_div bit_0) presburger
  qed
  show "push_bit (8 * j) (uint (a XOR b)) = push_bit (8 * j) (uint a) XOR push_bit (8 * j) (uint b)"
    by (simp add: uint_byte_xor push_bit_xor)
  show "0 \<le> push_bit (8 * j) (uint b) \<and> push_bit (8 * j) (uint b) < 2 ^ (8 * 2)" if "j < 2"
    using that by (intro push_byte_range) simp
  show "push_bit (8 * j) (uint b) = 0 \<longleftrightarrow> b = 0"
    by (simp add: push_bit_eq_mult uint_0_iff)
  show "n div 8 = j" if "bit (push_bit (8 * j) (uint b)) n"
  proof -
    have "8 * j \<le> n" "n - 8 * j < 8"
      using that by (auto simp: bit_simps dest: bit_imp_le_length)
    then show ?thesis by (intro div_nat_eqI) simp_all
  qed
  have low: "kermit_shift (2 * z) = z" for z
    by (simp add: kermit_shift_eq bit_0 drop_bit_eq_div)
  have "(kermit_shift ^^ m) (2 ^ m * z) = z" for m z
    by (induction m) (simp_all add: funpow_Suc_right low mult.assoc del: funpow.simps)
  from this [of 8 "push_bit (8 * j) (uint b)"]
  show "(kermit_shift ^^ 8) (push_bit (8 * Suc j) (uint b)) = push_bit (8 * j) (uint b)"
    by (simp add: push_bit_eq_mult power_add ac_simps del: funpow.simps)
qed simp

lemma kermit_table_nth: "i < 256 \<Longrightarrow> kermit_table ! i = (kermit_shift ^^ 8) (int i)"
  by (simp add: kermit_table_def del: funpow.simps)

lemma crc16_kermit_step_bitwise:
  assumes "0 \<le> c" "c < 2 ^ (8 * 2)"
  shows "crc16_kermit_step c b = kermit_ref.upd c b"
proof -
  define hi lo where "hi = drop_bit 8 c" and "lo = take_bit 8 c"
  have split: "c = push_bit 8 hi XOR lo"
    by (rule bit_eqI) (auto simp: hi_def lo_def bit_simps)
  have lo: "0 \<le> lo" "lo < 2 ^ 8"
    unfolding lo_def by (simp, rule take_bit_int_less_exp)
  let ?i = "uint b XOR lo"
  have i: "0 \<le> ?i" "?i < 256" using range_xor [of "uint b" 8 lo] lo by simp_all
  have "take_bit 8 (uint b) = uint b" by (intro take_bit_int_idem) simp_all
  then have "(uint b XOR c) AND 0xFF = ?i"
    by (simp only: and_mask_take take_bit_xor lo_def)
  then have table: "kermit_table ! nat ((uint b XOR c) AND 0xFF) = (kermit_shift ^^ 8) ?i"
    using i by (simp only:) (subst kermit_table_nth, simp_all del: funpow.simps)
  have low: "kermit_shift (2 * z) = z" for z
    by (simp add: kermit_shift_eq bit_0 drop_bit_eq_div)
  have "(kermit_shift ^^ m) (2 ^ m * z) = z" for m z
    by (induction m) (simp_all add: funpow_Suc_right low mult.assoc del: funpow.simps)
  from this [of 8 hi] have "hi = (kermit_shift ^^ 8) (push_bit 8 hi)"
    by (simp add: push_bit_eq_mult ac_simps del: funpow.simps)
  then have "crc16_kermit_step c b = (kermit_shift ^^ 8) (?i XOR push_bit 8 hi)"
    unfolding crc16_kermit_step_def hi_def [symmetric] table by (simp only: kermit_ref.iter_xor)
  also have "?i XOR push_bit 8 hi = c XOR uint b"
  proof -
    have "c XOR uint b = (push_bit 8 hi XOR lo) XOR uint b" using split by simp
    then show ?thesis by (simp add: ac_simps)
  qed
  finally show ?thesis unfolding kermit_ref.upd_def by simp
qed

interpretation kermit: crc_register crc16_kermit_step 2
  using kermit_ref.transfer [of crc16_kermit_step] crc16_kermit_step_bitwise by simp

lemma crc16_kermit_range: "0 \<le> crc16_kermit data \<and> crc16_kermit data < 2 ^ 16"
  using kermit.run_range [of 0 data] by (simp add: crc16_kermit_def)

text \<open>
  The evaluator computes an entry of a table from its index rather than the whole table for
  every byte.
\<close>

lemma and_byte_index:
  "nat ((x :: int) AND 0xFF) < 256" "int (nat ((x :: int) AND 0xFF)) = x AND 0xFF"
  by (simp_all add: and_mask_int nat_less_iff)

lemma crc_steps_code [code]:
  "crc24q_step crc b = (push_bit 8 crc AND 0xFFFFFF) XOR
     ((crc24q_shift ^^ 8) (push_bit 16 ((drop_bit 16 crc XOR uint b) AND 0xFF)) AND 0xFFFFFF)"
  "crc16_kermit_step crc b = (kermit_shift ^^ 8) ((uint b XOR crc) AND 0xFF) XOR drop_bit 8 crc"
  "crc16_xmodem_step crc b = (push_bit 8 crc AND 0xFFFF) XOR
     ((xmodem_shift ^^ 8) (push_bit 8 ((drop_bit 8 crc XOR uint b) AND 0xFF)) AND 0xFFFF)"
proof -
  let ?i = "\<lambda>x :: int. nat (x AND 0xFF)"
  have "build_crc24q_table ! ?i x = (crc24q_shift ^^ 8) (push_bit 16 (x AND 0xFF)) AND 0xFFFFFF"
    "kermit_table ! ?i x = (kermit_shift ^^ 8) (x AND 0xFF)"
    "xmodem_table ! ?i x = (xmodem_shift ^^ 8) (push_bit 8 (x AND 0xFF)) AND 0xFFFF" for x
    unfolding build_crc24q_table_def kermit_table_def xmodem_table_def
    by (simp_all add: and_byte_index del: and_numerals)
  then show "crc24q_step crc b = (push_bit 8 crc AND 0xFFFFFF) XOR
     ((crc24q_shift ^^ 8) (push_bit 16 ((drop_bit 16 crc XOR uint b) AND 0xFF)) AND 0xFFFFFF)"
    "crc16_kermit_step crc b = (kermit_shift ^^ 8) ((uint b XOR crc) AND 0xFF) XOR drop_bit 8 crc"
    "crc16_xmodem_step crc b = (push_bit 8 crc AND 0xFFFF) XOR
     ((xmodem_shift ^^ 8) (push_bit 8 ((drop_bit 8 crc XOR uint b) AND 0xFF)) AND 0xFFFF)"
    unfolding crc24q_step_def crc16_kermit_step_def crc16_xmodem_step_def by simp_all
qed

section \<open>Error detection\<close>

lemma crc24q_burst:
  "length xs = length ys \<Longrightarrow> length xs \<le> 3 \<Longrightarrow> xs \<noteq> ys \<Longrightarrow>
   crc24q (pre @ xs @ post) \<noteq> crc24q (pre @ ys @ post)"
  unfolding crc24q_def by (rule crc24.burst_detected)

lemma crc16_kermit_burst:
  "length xs = length ys \<Longrightarrow> length xs \<le> 2 \<Longrightarrow> xs \<noteq> ys \<Longrightarrow>
   crc16_kermit (pre @ xs @ post) \<noteq> crc16_kermit (pre @ ys @ post)"
  unfolding crc16_kermit_def by (rule kermit.burst_detected)

lemma crc16_xmodem_burst:
  "length xs = length ys \<Longrightarrow> length xs \<le> 2 \<Longrightarrow> xs \<noteq> ys \<Longrightarrow>
   crc16_xmodem (pre @ xs @ post) \<noteq> crc16_xmodem (pre @ ys @ post)"
  unfolding crc16_xmodem_def by (rule xmodem.burst_detected)

subsection \<open>The Fletcher checksum in wrapping byte arithmetic\<close>

fun weighted :: "bytes \<Rightarrow> byte" where
  "weighted [] = 0"
| "weighted (x # xs) = of_nat (length (x # xs)) * x + weighted xs"

lemma ubx_ck_loop_word:
  "ubx_ck_loop (uint a) (uint b) xs =
     (uint (a + sum_list xs), uint (b + of_nat (length xs) * a + weighted xs))"
proof (induction xs arbitrary: a b)
  case Nil
  then show ?case by simp
next
  case (Cons x xs)
  have "(uint a + uint x) AND 0xFF = uint (a + x)"
    by (simp add: and_mask_take uint_word_ariths take_bit_eq_mod)
  moreover have "(uint b + uint (a + x)) AND 0xFF = uint (b + (a + x))"
    by (simp add: and_mask_take uint_word_ariths take_bit_eq_mod)
  ultimately show ?case
    by (simp add: Let_def Cons.IH algebra_simps)
qed

lemma ubx_checksum_word: "ubx_checksum xs = [sum_list xs, weighted xs]"
  using ubx_ck_loop_word [of 0 0 xs] by (simp add: ubx_checksum_def)

lemma length_ubx_checksum [simp]: "length (ubx_checksum xs) = 2"
  by (simp add: ubx_checksum_word)

lemma weighted_append:
  "weighted (xs @ ys) = weighted xs + of_nat (length ys) * sum_list xs + weighted ys"
  by (induction xs) (simp_all add: algebra_simps)

subsection \<open>The exclusive-or checksums\<close>

lemma xor_fold: "foldl (\<lambda>r (b :: byte). r XOR uint b) c xs = c XOR uint (foldr (XOR) xs 0)"
  by (induction xs arbitrary: c) (simp_all add: uint_byte_xor ac_simps)

lemma xor8_word: "xor8 xs = uint (foldr (XOR) xs 0)"
  by (simp add: xor8_def xor_fold)

lemma nmea_checksum_word: "nmea_checksum xs = uint (foldr (XOR) xs 0)"
  by (simp add: nmea_checksum_def xor_fold)

lemma xor8_range: "0 \<le> xor8 xs \<and> xor8 xs < 256"
  by (simp add: xor8_word)

lemma foldr_xor_append:
  "foldr (XOR) (xs @ ys) (0 :: byte) = foldr (XOR) xs 0 XOR foldr (XOR) ys 0"
  by (induction xs) (simp_all add: ac_simps)

section \<open>Reading back a printed checksum\<close>

lemma hex_char_facts:
  assumes "0 \<le> d" "d < 16"
  shows "hex_digit (hex_char d) = Some d \<and> \<not> is_space (hex_char d) \<and>
    hex_char d \<notin> {10, 13, 42, 43, 45, 88, 95, 120}"
proof -
  have "d \<in> {0, 1, 2, 3, 4, 5, 6, 7, 8, 9, 10, 11, 12, 13, 14, 15}"
    using assms by simp presburger
  then show ?thesis
    by (elim insertE emptyE) (simp_all add: hex_char_def hex_digit_def is_space_def)
qed

lemma hex_scan_digits:
  "(\<forall>x \<in> set xs. hex_digit x \<noteq> None) \<Longrightarrow>
   hex_scan acc prev xs =
     (if xs = [] \<and> \<not> prev then None else Some (foldl (\<lambda>a x. 16 * a + the (hex_digit x)) acc xs))"
proof (induction xs arbitrary: acc prev)
  case (Cons x xs)
  then obtain d where d: "hex_digit x = Some d" by auto
  then have "x \<noteq> 95" by (auto simp: hex_digit_def)
  with d Cons show ?case by simp
qed simp

lemma hex_fixed_set:
  "x \<in> set (hex_fixed w n) \<Longrightarrow> \<exists>d. 0 \<le> d \<and> d < 16 \<and> x = hex_char d"
  by (induction w arbitrary: n) (auto intro: exI [where x = "n mod 16" for n])

lemma hex_fixed_value:
  "foldl (\<lambda>a x. 16 * a + the (hex_digit x)) acc (hex_fixed w n) = acc * 16 ^ w + n mod 16 ^ w"
proof (induction w arbitrary: n)
  case (Suc w)
  have "n mod 16 ^ Suc w = 16 * (n div 16 mod 16 ^ w) + n mod 16"
    using zmod_zmult2_eq [of "16 ^ w" n 16] by simp
  then show ?case
    using hex_char_facts [of "n mod 16"] by (simp add: Suc.IH distrib_left)
qed simp

lemma py_int16_hex_fixed:
  assumes "0 < w" "0 \<le> n" "n < 16 ^ w"
  shows "py_int16 (hex_fixed w n) = Some n"
proof -
  let ?t = "hex_fixed w n"
  have ne: "?t \<noteq> []" using assms(1) by (metis length_0_conv length_hex_fixed less_irrefl)
  have chars: "\<forall>x \<in> set ?t. hex_digit x \<noteq> None \<and> \<not> is_space x \<and> x \<notin> {43, 45, 88, 95, 120}"
    using hex_fixed_set hex_char_facts by fastforce
  have dw: "dropWhile is_space ?t = ?t"
    by (rule dropWhile_none) (use chars in simp)
  have dwr: "dropWhile is_space (rev ?t) = rev ?t"
    by (rule dropWhile_none) (use chars in simp)
  have strip: "strip is_space ?t = ?t"
    by (simp add: strip_def lstrip_def rstrip_def dw dwr)
  have pre: "hex_prefix ?t = ?t"
    using chars by (cases ?t rule: hex_prefix.cases) auto
  have "hex_unsigned ?t = Some n"
    using chars ne hex_fixed_value [of 0 w n] assms
    by (simp add: hex_unsigned_def pre hex_scan_digits)
  then show ?thesis
    using chars ne unfolding py_int16_def strip by (cases ?t) simp_all
qed

lemma verify_finalize_ascii_line: "verify_ascii (finalize_ascii raw crc)"
proof -
  let ?cs = "if crc then hex_fixed 4 (crc16_xmodem raw) else hex_fixed 2 (xor8 raw)"
  have cs: "x \<in> set ?cs \<Longrightarrow> x \<notin> {10, 13, 42}" for x
    using hex_fixed_set [of x] hex_char_facts by (cases crc) fastforce+
  have ne: "?cs \<noteq> []" by (metis length_0_conv length_hex_fixed zero_neq_numeral)
  let ?p = "\<lambda>b :: byte. b = 13 \<or> b = 10"
  have "dropWhile ?p (rev ?cs @ 42 # rev raw @ [36]) = rev ?cs @ 42 # rev raw @ [36]"
    using ne cs [of "last ?cs"] by (cases "rev ?cs") (auto simp: rev_eq_Cons_iff)
  then have txt_eq: "rstrip ?p (finalize_ascii raw crc) = 36 # raw @ 42 # ?cs"
    by (simp add: rstrip_def finalize_ascii_def)
  have star: "rfind1 42 (36 # raw @ 42 # ?cs) = Some (Suc (length raw))"
  proof -
    have "42 \<notin> set ?cs" using cs by blast
    from rfind1_append_last [OF this, of "36 # raw"] show ?thesis by (simp only: append_Cons length_Cons)
  qed
  have body: "py_slice 1 (Suc (length raw)) (36 # raw @ 42 # ?cs) = raw"
    by (simp add: py_slice_def)
  show ?thesis
    using py_int16_hex_fixed [of 4 "crc16_xmodem raw"] py_int16_hex_fixed [of 2 "xor8 raw"]
      crc16_xmodem_range [of raw] xor8_range [of raw]
    unfolding verify_ascii_def Let_def txt_eq star option.case body
    by (simp add: starts_with_def)
qed

section \<open>Properties\<close>

text \<open>
  C2. The table-driven \<open>crc24q\<close> of RTCM 3 is the bit-serial CRC of generator 0x1864CFB, and
  changing any three consecutive bytes (or fewer) of a message always changes it.
\<close>

theorem crc24q_reference_and_burst:
  "crc24q data = foldl (msb_upd 24 0x1864CFB) 0 data \<and>
   0 \<le> crc24q data \<and> crc24q data < 2 ^ 24 \<and>
   (length xs = length ys \<and> length xs \<le> 3 \<and> xs \<noteq> ys \<longrightarrow>
     crc24q (pre @ xs @ post) \<noteq> crc24q (pre @ ys @ post))"
  using crc24q_bitwise crc24q_range crc24q_burst by blast

theorem crc24q_reference_and_burst_witness:
  "crc24q [0xD3, 0, 1, 7] \<noteq> crc24q [0xD3, 0, 2, 7]"
  using crc24q_reference_and_burst [of "[]" "[1]" "[2]" "[0xD3, 0]" "[7]"] by simp

text \<open>
  The UBX Fletcher checksum detects every single-byte change and every exchange of two
  different adjacent bytes of the covered range.
\<close>

theorem ubx_checksum_detects:
  assumes "a \<noteq> b"
  shows "ubx_checksum (pre @ a # post) \<noteq> ubx_checksum (pre @ b # post) \<and>
    ubx_checksum (pre @ a # b # post) \<noteq> ubx_checksum (pre @ b # a # post)"
proof -
  have swap: "weighted (pre @ a # b # post) - weighted (pre @ b # a # post) = a - b"
    by (simp add: weighted_append algebra_simps)
  then have "weighted (pre @ a # b # post) \<noteq> weighted (pre @ b # a # post)"
    using assms by (metis eq_iff_diff_eq_0)
  with assms show ?thesis by (simp add: ubx_checksum_word)
qed

theorem ubx_checksum_detects_witness:
  "ubx_checksum [1, 7, 2, 0] \<noteq> ubx_checksum [1, 7, 3, 0] \<and>
   ubx_checksum [1, 7, 2, 3, 0] \<noteq> ubx_checksum [1, 7, 3, 2, 0]"
  using ubx_checksum_detects [of 2 3 "[1, 7]" "[0]"] by simp

text \<open>
  Both 16-bit CRCs detect every change of two consecutive bytes or fewer, and a VectorNav
  frame passes the receiver's zero-residue test exactly when its last two bytes are the CRC of
  the bytes before them, most significant byte first.
\<close>

theorem crc16_burst_and_residue:
  "(length xs = length ys \<and> length xs \<le> 2 \<and> xs \<noteq> ys \<longrightarrow>
      crc16_kermit (pre @ xs @ post) \<noteq> crc16_kermit (pre @ ys @ post) \<and>
      crc16_xmodem (pre @ xs @ post) \<noteq> crc16_xmodem (pre @ ys @ post)) \<and>
   (crc16_xmodem (body @ [hi, lo]) = 0 \<longleftrightarrow>
      crc16_xmodem body = 256 * uint hi + uint lo)"
proof -
  have "push_bit 8 (uint hi) XOR uint lo = 256 * uint hi + uint lo"
  proof -
    have "push_bit 8 (uint hi) AND uint lo = 0"
      by (rule bit_eqI) (auto simp: bit_simps dest: bit_imp_le_length)
    then have "push_bit 8 (uint hi) + uint lo = push_bit 8 (uint hi) OR uint lo"
      by (simp add: disjunctive_add_eq_or)
    moreover have "push_bit 8 (uint hi) OR uint lo = push_bit 8 (uint hi) XOR uint lo"
      by (rule bit_eqI) (auto simp: bit_simps dest: bit_imp_le_length)
    ultimately show ?thesis by (simp add: push_bit_eq_mult)
  qed
  then show ?thesis
    using crc16_kermit_burst crc16_xmodem_burst crc16_xmodem_residue by simp
qed

theorem crc16_burst_and_residue_witness:
  "crc16_kermit [0, 1, 2] \<noteq> crc16_kermit [0, 3, 2]"
  using crc16_burst_and_residue [of "[1]" "[3]" "[0]" "[2]" "[]" 0 0] by simp

text \<open>
  Every line that \<open>finalize_ascii\<close> builds, with either checksum, is accepted by
  \<open>verify_ascii\<close>: the printed checksum is read back as the value that was printed.
\<close>

theorem verify_finalize_ascii: "verify_ascii (finalize_ascii raw crc)"
  by (rule verify_finalize_ascii_line)

end
