(* ===== verification/Scanner.thy ===== *)
theory Scanner
  imports Prelude
begin

text \<open>
  The contract of an incremental framer, the \<open>FrameSplitter\<close> protocol of
  \<open>src/mtrtk/core/frames.py\<close>: a buffer, a loop over it that either cuts a frame off the front,
  drops bytes, or stops to wait for more, and \<open>feed\<close>, which appends a chunk and runs the loop.

  The locale \<open>scanner\<close> is what the three framers of the program promise about one loop
  iteration; its lemmas are what \<open>Router\<close> and the drivers rely on: every emitted frame is well
  formed, frames are cut out of the stream in order and without overlap, a stream of
  well-formed frames comes back frame by frame, and the chunking of the stream does not matter.
  The theories \<open>Frames\<close>, \<open>SbgFramer\<close> and \<open>VnFramer\<close> interpret it on the model's framers.
\<close>

text \<open>
  What a framer decides about the front of its buffer: wait for more bytes (\<open>None\<close> in the
  sources), reject this offset (\<open>False\<close>), reject it and count a checksum error or an invalid
  header, or accept a frame of a given length.
\<close>

datatype verdict = Wait | Reject | BadSum | BadHeader | Accept nat

text \<open>
  \<open>_next_sync\<close> of the UBX and VectorNav framers: the first index from 1 on that holds a sync
  byte, or the buffer's length.
\<close>

fun next_sync :: "(byte \<Rightarrow> bool) \<Rightarrow> bytes \<Rightarrow> nat" where
  "next_sync sync [] = 0"
| "next_sync sync (x # xs) = Suc (length (takeWhile (\<lambda>b. \<not> sync b) xs))"

text \<open>\<open>cuts xs rs rest\<close>: the pieces \<open>rs\<close> occur in \<open>xs\<close> in order and disjoint, before the suffix \<open>rest\<close>.\<close>

fun cuts :: "bytes \<Rightarrow> bytes list \<Rightarrow> bytes \<Rightarrow> bool" where
  "cuts xs [] rest \<longleftrightarrow> (\<exists>g. xs = g @ rest)"
| "cuts xs (r # rs) rest \<longleftrightarrow> (\<exists>g ys. xs = g @ r @ ys \<and> cuts ys rs rest)"

lemma cuts_drop: "cuts xs [] (drop n xs)"
  unfolding cuts.simps by (metis append_take_drop_id)

lemma cuts_prefix: "cuts xs rs rest \<Longrightarrow> cuts (g @ xs) rs rest"
  by (cases rs) (auto, metis append.assoc)

lemma cuts_append: "cuts xs rs ys \<Longrightarrow> cuts ys qs rest \<Longrightarrow> cuts xs (rs @ qs) rest"
  by (induction xs rs ys rule: cuts.induct) (auto intro: cuts_prefix)

lemma cuts_length:
  "cuts xs rs rest \<Longrightarrow> length rest + sum_list (map length rs) \<le> length xs"
  by (induction xs rs rest rule: cuts.induct) fastforce+

text \<open>A framer over a list of chunks, each with its own reading of the clocks.\<close>

fun feed_chunks ::
  "('c \<Rightarrow> 's \<Rightarrow> bytes \<Rightarrow> 's \<times> 'f list) \<Rightarrow> ('f \<Rightarrow> 'v) \<Rightarrow> 'c list \<Rightarrow> 's \<Rightarrow> bytes list \<Rightarrow> 's \<times> 'v list"
where
  "feed_chunks feed view (c # cs) s (d # ds) =
     (case feed c s d of (t, fs) \<Rightarrow>
        case feed_chunks feed view cs t ds of (u, vs) \<Rightarrow> (u, map view fs @ vs))"
| "feed_chunks feed view _ s _ = (s, [])"

locale scanner =
  fixes buf :: "'s \<Rightarrow> bytes"
    and push :: "'s \<Rightarrow> bytes \<Rightarrow> 's"
    and step :: "'c \<Rightarrow> 's \<Rightarrow> 's \<times> 'f list \<times> bool"
    and loop :: "'c \<Rightarrow> 's \<Rightarrow> 's \<times> 'f list"
    and feed :: "'c \<Rightarrow> 's \<Rightarrow> bytes \<Rightarrow> 's \<times> 'f list"
    and view :: "'f \<Rightarrow> 'v"
    and rawv :: "'v \<Rightarrow> bytes"
    and wf :: "'v \<Rightarrow> bool"
    and ok :: "'s \<Rightarrow> bytes \<Rightarrow> bool"
  assumes loop_eq: "loop c s =
      (if buf s = [] then (s, [])
       else (case step c s of (s', fs, go) \<Rightarrow>
               if go then (case loop c s' of (t, gs) \<Rightarrow> (t, fs @ gs)) else (s', fs)))"
    and step_clock: "step c s = (s', fs, go) \<Longrightarrow>
      \<exists>fs'. step c' s = (s', fs', go) \<and> map view fs' = map view fs"
    and step_progress: "buf s \<noteq> [] \<Longrightarrow> step c s = (s', fs, True) \<Longrightarrow>
      length (buf s') < length (buf s)"
    and step_cuts: "buf s \<noteq> [] \<Longrightarrow> step c s = (s', fs, go) \<Longrightarrow>
      cuts (buf s) (map (\<lambda>f. rawv (view f)) fs) (buf s')"
    and step_wf: "buf s \<noteq> [] \<Longrightarrow> step c s = (s', fs, go) \<Longrightarrow> f \<in> set fs \<Longrightarrow> wf (view f)"
    and step_complete: "wf v \<Longrightarrow> buf s = rawv v @ d \<Longrightarrow>
      \<exists>s' f. step c s = (s', [f], True) \<and> view f = v \<and> buf s' = d"
    and wf_nonempty: "wf v \<Longrightarrow> rawv v \<noteq> []"
    and buf_push: "buf (push s d) = buf s @ d"
    and push_push: "push (push s a) b = push s (a @ b)"
    and feed_loop: "ok s d \<Longrightarrow> feed c s d = loop c (push s d)"
    and feed_cuts: "\<exists>t. feed c s d = loop c t \<and> (\<exists>g. buf s @ d = g @ buf t)"
    and ok_prefix: "ok s (a @ b) \<Longrightarrow> ok s a"
    and ok_push: "ok s (a @ b) \<Longrightarrow> ok (push s a) b"
    and ok_step: "ok s d \<Longrightarrow> buf s \<noteq> [] \<Longrightarrow> step c s = (s', fs, go) \<Longrightarrow> ok s' d"
    and resume_go: "ok s d \<Longrightarrow> buf s \<noteq> [] \<Longrightarrow> step c s = (s', fs, True) \<Longrightarrow>
      apsnd (map view) (loop c (push s d)) =
      (case loop c (push s' d) of (t, gs) \<Rightarrow> (t, map view fs @ map view gs))"
    and resume_stop: "ok s d \<Longrightarrow> buf s \<noteq> [] \<Longrightarrow> step c s = (s', fs, False) \<Longrightarrow>
      fs = [] \<and> apsnd (map view) (loop c (push s d)) = apsnd (map view) (loop c (push s' d))"
begin

lemma loop_induct [case_names Empty Stop Go]:
  assumes "\<And>s. buf s = [] \<Longrightarrow> loop c s = (s, []) \<Longrightarrow> P s"
    and "\<And>s s' fs. buf s \<noteq> [] \<Longrightarrow> step c s = (s', fs, False) \<Longrightarrow> loop c s = (s', fs) \<Longrightarrow> P s"
    and "\<And>s s' fs. buf s \<noteq> [] \<Longrightarrow> step c s = (s', fs, True) \<Longrightarrow>
      loop c s = (case loop c s' of (t, gs) \<Rightarrow> (t, fs @ gs)) \<Longrightarrow> P s' \<Longrightarrow> P s"
  shows "P s"
proof (induction "length (buf s)" arbitrary: s rule: less_induct)
  case less
  show ?case
  proof (cases "buf s = []")
    case True
    then show ?thesis using assms(1) loop_eq [of c s] by simp
  next
    case False
    obtain s' fs go where st: "step c s = (s', fs, go)" by (cases "step c s")
    show ?thesis
    proof (cases go)
      case True
      with st have "step c s = (s', fs, True)" by simp
      then have "P s'" by (intro less.hyps step_progress [OF False])
      then show ?thesis using assms(3) [of s s' fs] False st True loop_eq [of c s] by simp
    next
      case go: False
      then show ?thesis using assms(2) [of s s' fs] False st loop_eq [of c s] by simp
    qed
  qed
qed

lemma loop_clock: "apsnd (map view) (loop c s) = apsnd (map view) (loop c' s)"
proof (induction s rule: loop_induct [where c = c])
  case (Empty s)
  then show ?case using loop_eq [of c' s] by simp
next
  case (Stop s s' fs)
  then obtain fs' where "step c' s = (s', fs', False)" "map view fs' = map view fs"
    using step_clock by blast
  then show ?case using Stop loop_eq [of c' s] by simp
next
  case (Go s s' fs)
  then obtain fs' where "step c' s = (s', fs', True)" "map view fs' = map view fs"
    using step_clock by blast
  then show ?case using Go loop_eq [of c' s] by (auto split: prod.splits)
qed

lemma loop_wf: "loop c s = (t, fs) \<Longrightarrow> f \<in> set fs \<Longrightarrow> wf (view f)"
proof (induction s arbitrary: t fs rule: loop_induct [where c = c])
  case (Go s s' fs0)
  then show ?case using step_wf [of s c s' fs0 True f] by (auto split: prod.splits)
next
  case (Stop s s' fs0)
  then show ?case using step_wf [of s c s' fs0 False f] by auto
qed simp

lemma loop_cuts: "loop c s = (t, fs) \<Longrightarrow> cuts (buf s) (map (\<lambda>f. rawv (view f)) fs) (buf t)"
proof (induction s arbitrary: t fs rule: loop_induct [where c = c])
  case (Go s s' fs0)
  then show ?case using step_cuts [of s c s' fs0 True]
    by (auto split: prod.splits dest: cuts_append)
next
  case (Stop s s' fs0)
  then show ?case using step_cuts [of s c s' fs0 False] by simp
qed auto

text \<open>What a caller of \<open>feed\<close> may rely on.\<close>

lemma feed_wf: "feed c s d = (t, fs) \<Longrightarrow> f \<in> set fs \<Longrightarrow> wf (view f)"
  using feed_cuts [of c s d] loop_wf by metis

lemma feed_in_order: "feed c s d = (t, fs) \<Longrightarrow> cuts (buf s @ d) (map (\<lambda>f. rawv (view f)) fs) (buf t)"
  using feed_cuts [of c s d] loop_cuts cuts_prefix by metis

lemma loop_resume:
  "ok s d \<Longrightarrow> loop c s = (t, fs) \<Longrightarrow>
   apsnd (map view) (loop c (push s d)) =
   (case loop c (push t d) of (u, gs) \<Rightarrow> (u, map view fs @ map view gs))"
proof (induction s arbitrary: t fs rule: loop_induct [where c = c])
  case (Empty s)
  then show ?case by (auto split: prod.splits)
next
  case (Stop s s' fs0)
  then show ?case using resume_stop [of s d c s' fs0] by (auto split: prod.splits)
next
  case (Go s s' fs0)
  obtain u gs where u: "loop c s' = (u, gs)" by (cases "loop c s'")
  have "ok s' d" using Go ok_step by blast
  then have IH: "apsnd (map view) (loop c (push s' d)) =
      (case loop c (push u d) of (v, hs) \<Rightarrow> (v, map view gs @ map view hs))"
    using Go.IH u by blast
  have "apsnd (map view) (loop c (push s d)) =
      (case loop c (push s' d) of (v, hs) \<Rightarrow> (v, map view fs0 @ map view hs))"
    using resume_go Go by blast
  then show ?case using Go u IH by (auto split: prod.splits)
qed

lemma loop_ok:
  "ok s d \<Longrightarrow> loop c s = (t, fs) \<Longrightarrow> ok t d"
proof (induction s arbitrary: t fs rule: loop_induct [where c = c])
  case (Stop s s' fs0)
  then show ?case using ok_step by auto
next
  case (Go s s' fs0)
  then show ?case using ok_step [of s d c s' fs0 True] by (auto split: prod.splits)
qed simp

text \<open>Chunking does not matter.\<close>

lemma feed_all_concat:
  assumes "length cs = length ds" "ds \<noteq> []" "ok s (concat ds)"
  shows "feed_chunks feed view cs s ds = apsnd (map view) (feed c s (concat ds))"
  using assms
proof (induction cs ds arbitrary: s rule: list_induct2)
  case Nil
  then show ?case by simp
next
  case (Cons c1 cs d ds)
  obtain t fs where t: "loop c1 (push s d) = (t, fs)" by (cases "loop c1 (push s d)")
  have okd: "ok s d" "ok (push s d) (concat ds)"
    using Cons.prems ok_prefix ok_push by auto
  have f1: "feed c1 s d = (t, fs)" using feed_loop [OF okd(1)] t by simp
  have okt: "ok t (concat ds)" using loop_ok [OF okd(2) t] .
  have all: "apsnd (map view) (feed c s (concat (d # ds))) =
      (case loop c1 (push t (concat ds)) of (u, gs) \<Rightarrow> (u, map view fs @ map view gs))"
    using loop_resume [OF okd(2) t] loop_clock [of c _ c1] feed_loop [OF Cons.prems(2)]
    by (simp add: push_push)
  show ?case
  proof (cases "ds = []")
    case True
    with Cons.hyps have "cs = []" by simp
    have "loop c (push s d) = feed c s (concat (d # ds))"
      using feed_loop [OF Cons.prems(2)] True by simp
    then show ?thesis using True \<open>cs = []\<close> f1 t loop_clock [of c "push s d" c1] by simp
  next
    case False
    have "feed_chunks feed view cs t ds = apsnd (map view) (feed c1 t (concat ds))"
      using Cons.IH [OF False okt] Cons.prems loop_clock feed_loop [OF okt] by metis
    then show ?thesis
      using all f1 feed_loop [OF okt, of c1] by (auto split: prod.splits)
  qed
qed

text \<open>A stream of well-formed frames comes back as those frames.\<close>

lemma loop_stream:
  "(\<forall>v \<in> set vs. wf v) \<Longrightarrow> buf s = concat (map rawv vs) \<Longrightarrow>
   \<exists>t fs. loop c s = (t, fs) \<and> map view fs = vs \<and> buf t = []"
proof (induction vs arbitrary: s)
  case Nil
  then show ?case using loop_eq [of c s] by simp
next
  case (Cons v vs)
  then obtain s' f where st: "step c s = (s', [f], True)" "view f = v"
    "buf s' = concat (map rawv vs)"
    using step_complete [of v s "concat (map rawv vs)" c] by auto
  moreover obtain t fs where "loop c s' = (t, fs)" "map view fs = vs" "buf t = []"
    using Cons.IH [of s'] Cons.prems st by auto
  moreover have "buf s \<noteq> []" using Cons.prems wf_nonempty by auto
  ultimately show ?case using loop_eq [of c s] by auto
qed

lemma feed_stream:
  assumes "\<forall>v \<in> set vs. wf v" "buf s = []" "ok s (concat (map rawv vs))"
  shows "\<exists>t fs. feed c s (concat (map rawv vs)) = (t, fs) \<and> map view fs = vs \<and> buf t = []"
  using loop_stream [OF assms(1), of "push s (concat (map rawv vs))" c] assms
    feed_loop buf_push by simp

end

text \<open>
  A framer that also counts what it throws away: every byte that entered is in a frame, in the
  garbage counter or still in the buffer.
\<close>

locale counting_scanner = scanner buf push step loop feed view rawv wf ok
  for buf :: "'s \<Rightarrow> bytes" and push step loop and feed :: "'c \<Rightarrow> 's \<Rightarrow> bytes \<Rightarrow> 's \<times> 'f list"
    and view :: "'f \<Rightarrow> 'v" and rawv wf ok +
  fixes garbage :: "'s \<Rightarrow> nat"
  assumes step_count: "buf s \<noteq> [] \<Longrightarrow> step c s = (s', fs, go) \<Longrightarrow>
      length (buf s) + garbage s =
      length (buf s') + garbage s' + sum_list (map (\<lambda>f. length (rawv (view f))) fs)"
    and feed_count: "\<exists>t. feed c s d = loop c t \<and>
      length (buf t) + garbage t = length (buf s) + length d + garbage s"
begin

lemma loop_conserves: "loop c s = (t, fs) \<Longrightarrow>
   length (buf s) + garbage s =
   length (buf t) + garbage t + sum_list (map (\<lambda>f. length (rawv (view f))) fs)"
proof (induction s arbitrary: t fs rule: loop_induct [where c = c])
  case (Go s s' fs0)
  obtain u gs where u: "loop c s' = (u, gs)" by (cases "loop c s'")
  then show ?case using Go step_count [of s c s' fs0 True] Go.IH [OF u] by simp
next
  case (Stop s s' fs0)
  then show ?case using step_count [of s c s' fs0 False] by simp
qed simp

lemma feed_conserves: "feed c s d = (t, fs) \<Longrightarrow>
   length (buf s) + length d + garbage s =
   length (buf t) + garbage t + sum_list (map (\<lambda>f. length (rawv (view f))) fs)"
  using feed_count [of c s d] loop_conserves by metis

end

text \<open>
  A framer that stops to wait only for a frame of at most \<open>cap\<close> further bytes: whatever is fed,
  the buffer never holds more than that when \<open>feed\<close> returns.
\<close>

locale bounded_scanner = scanner buf push step loop feed view rawv wf ok
  for buf :: "'s \<Rightarrow> bytes" and push step loop and feed :: "'c \<Rightarrow> 's \<Rightarrow> bytes \<Rightarrow> 's \<times> 'f list"
    and view :: "'f \<Rightarrow> 'v" and rawv wf ok +
  fixes cap :: nat
  assumes step_cap: "buf s \<noteq> [] \<Longrightarrow> step c s = (s', fs, False) \<Longrightarrow> length (buf s') \<le> cap"
begin

lemma loop_cap: "loop c s = (t, fs) \<Longrightarrow> length (buf t) \<le> cap"
proof (induction s arbitrary: t fs rule: loop_induct [where c = c])
  case (Go s s' fs0)
  then show ?case by (auto split: prod.splits)
next
  case (Stop s s' fs0)
  then show ?case using step_cap by auto
qed auto

lemma feed_cap: "feed c s d = (t, fs) \<Longrightarrow> length (buf t) \<le> cap"
  using feed_cuts [of c s d] loop_cap by metis

end

end
