(* ===== verification/Text.thy ===== *)
theory Text
  imports Prelude "HOL-Library.Char_ord"
begin

text \<open>
  Text as the sources format and match it: decimal numbers with and without zero padding, the case
  mappings and character classes of ASCII text, joining, and the \<open>$\<close> of a regular expression,
  which also matches before one final line feed.
\<close>

section \<open>Characters\<close>

definition is_digit :: "char \<Rightarrow> bool" where
  "is_digit c \<longleftrightarrow> CHR ''0'' \<le> c \<and> c \<le> CHR ''9''"

definition is_upper :: "char \<Rightarrow> bool" where
  "is_upper c \<longleftrightarrow> CHR ''A'' \<le> c \<and> c \<le> CHR ''Z''"

definition is_lower :: "char \<Rightarrow> bool" where
  "is_lower c \<longleftrightarrow> CHR ''a'' \<le> c \<and> c \<le> CHR ''z''"

text \<open>
  The case mappings of Latin-1 text, but for the three lower-case letters whose upper case is not
  Latin-1 (they stay as they are), and the white space \<open>str.strip\<close> takes off.
\<close>

definition to_upper :: "char \<Rightarrow> char" where
  "to_upper c =
     (let n = of_char c :: nat in
      if is_lower c \<or> 224 \<le> n \<and> n \<le> 254 \<and> n \<noteq> 247 then char_of (n - 32) else c)"

definition to_lower :: "char \<Rightarrow> char" where
  "to_lower c =
     (let n = of_char c :: nat in
      if is_upper c \<or> 192 \<le> n \<and> n \<le> 222 \<and> n \<noteq> 215 then char_of (n + 32) else c)"

definition is_white :: "char \<Rightarrow> bool" where
  "is_white c \<longleftrightarrow>
     (let n = of_char c :: nat in 9 \<le> n \<and> n \<le> 13 \<or> 28 \<le> n \<and> n \<le> 32 \<or> n = 133 \<or> n = 160)"

abbreviation strip_str :: "string \<Rightarrow> string" where
  "strip_str \<equiv> strip is_white"

definition upper :: "string \<Rightarrow> string" where "upper = map to_upper"
definition lower :: "string \<Rightarrow> string" where "lower = map to_lower"

section \<open>Decimal numbers\<close>

definition digit_char :: "nat \<Rightarrow> char" where
  "digit_char n = char_of (48 + n)"

definition digit_value :: "char \<Rightarrow> nat" where
  "digit_value c = of_char c - 48"

text \<open>\<open>str(n)\<close> for a non-negative integer.\<close>

fun dec :: "nat \<Rightarrow> string" where
  "dec n = (if n < 10 then [digit_char n] else dec (n div 10) @ [digit_char (n mod 10)])"

declare dec.simps [simp del]

definition dec_int :: "int \<Rightarrow> string" where
  "dec_int n = (if n < 0 then CHR ''-'' # dec (nat (- n)) else dec (nat n))"

text \<open>\<open>f"{n:0wd}"\<close> for a non-negative integer, and the last \<open>w\<close> digits of a number.\<close>

definition zpad :: "nat \<Rightarrow> nat \<Rightarrow> string" where
  "zpad w n = replicate (w - length (dec n)) CHR ''0'' @ dec n"

fun digits :: "nat \<Rightarrow> nat \<Rightarrow> string" where
  "digits 0 n = []"
| "digits (Suc w) n = digits w (n div 10) @ [digit_char (n mod 10)]"

text \<open>\<open>int(s)\<close> of a string of ASCII digits.\<close>

definition undec :: "string \<Rightarrow> nat" where
  "undec s = foldl (\<lambda>a c. 10 * a + digit_value c) 0 s"

lemma digit_value_char [simp]: "n < 10 \<Longrightarrow> digit_value (digit_char n) = n"
  by (simp add: digit_value_def digit_char_def)

lemma is_digit_of_char: "is_digit c \<longleftrightarrow> 48 \<le> (of_char c :: nat) \<and> (of_char c :: nat) \<le> 57"
  by (simp add: is_digit_def less_eq_char_def)

lemma is_digit_char [simp]: "n < 10 \<Longrightarrow> is_digit (digit_char n)"
  by (simp add: is_digit_of_char digit_char_def)

lemma length_digits [simp]: "length (digits w n) = w"
  by (induction w arbitrary: n) simp_all

lemma digits_all_digit: "list_all is_digit (digits w n)"
  by (induction w arbitrary: n) simp_all

lemma dec_all_digit: "list_all is_digit (dec n)"
  by (induction n rule: dec.induct) (subst dec.simps, simp)

lemma undec_append: "undec (xs @ [c]) = 10 * undec xs + digit_value c"
  by (simp add: undec_def)

lemma undec_digits: "undec (digits w n) = n mod 10 ^ w"
proof (induction w arbitrary: n)
  case (Suc w)
  have "n mod (10 * 10 ^ w) = 10 * (n div 10 mod 10 ^ w) + n mod 10"
    by (rule mod_mult2_eq)
  then show ?case using Suc by (simp add: undec_append)
qed (simp add: undec_def)

lemma undec_dec [simp]: "undec (dec n) = n"
  by (induction n rule: dec.induct) (subst dec.simps, auto simp: undec_append undec_def)

lemma dec_inject: "dec m = dec n \<longleftrightarrow> m = n"
  using undec_dec by metis

lemma dec_length: "n < 10 ^ w \<Longrightarrow> 0 < w \<Longrightarrow> length (dec n) \<le> w"
proof (induction w arbitrary: n)
  case (Suc w)
  show ?case
  proof (cases "n < 10")
    case True
    then show ?thesis by (subst dec.simps) simp
  next
    case False
    then have "n div 10 < 10 ^ w" "0 < w" using Suc.prems by (cases w; auto)+
    then show ?thesis using Suc.IH [of "n div 10"] False by (subst dec.simps) simp
  qed
qed simp

lemma digits_zero: "digits w 0 = replicate w CHR ''0''"
proof (induction w)
  case (Suc w)
  have "digit_char 0 = CHR ''0''" by code_simp
  then show ?case using Suc by (simp add: replicate_append_same)
qed simp

lemma zpad_digits: "n < 10 ^ w \<Longrightarrow> 0 < w \<Longrightarrow> zpad w n = digits w n"
proof (induction w arbitrary: n)
  case (Suc w)
  show ?case
  proof (cases "n < 10")
    case True
    then have "dec n = [digit_char n]" by (subst dec.simps) simp
    then show ?thesis using True by (simp add: zpad_def digits_zero)
  next
    case False
    then have w: "n div 10 < 10 ^ w" "0 < w" using Suc.prems by (cases w; auto)+
    have "dec n = dec (n div 10) @ [digit_char (n mod 10)]" using False by (subst dec.simps) simp
    then show ?thesis using Suc.IH [OF w] by (simp add: zpad_def)
  qed
qed simp

lemma dec_length_lower: "10 ^ w \<le> n \<Longrightarrow> w < length (dec n)"
proof (induction w arbitrary: n)
  case 0
  then show ?case by (subst dec.simps) simp
next
  case (Suc w)
  have "(10 :: nat) \<le> 10 ^ Suc w" by simp
  then have "\<not> n < 10" using Suc.prems by linarith
  moreover have "10 ^ w \<le> n div 10" using Suc.prems by (simp add: less_eq_div_iff_mult_less_eq mult.commute)
  ultimately show ?case using Suc.IH by (subst dec.simps) simp
qed

lemma dec_digits_exact:
  assumes "10 ^ w \<le> n" "n < 10 ^ Suc w"
  shows "dec n = digits (Suc w) n"
  using dec_length_lower [OF assms(1)] dec_length [OF assms(2)] zpad_digits [OF assms(2)]
  by (simp add: zpad_def)

text \<open>\<open>f"{n:X}"\<close>.\<close>

definition hex_digit_char :: "nat \<Rightarrow> char" where
  "hex_digit_char n = (if n < 10 then char_of (48 + n) else char_of (55 + n))"

fun hex_upper :: "nat \<Rightarrow> string" where
  "hex_upper n = (if n < 16 then [hex_digit_char n] else hex_upper (n div 16) @ [hex_digit_char (n mod 16)])"

declare hex_upper.simps [simp del]

section \<open>Patterns and pieces\<close>

text \<open>\<open>s.split("\\r\\n")\<close>.\<close>

fun split_crlf :: "string \<Rightarrow> string list" where
  "split_crlf [] = [[]]"
| "split_crlf [c] = [[c]]"
| "split_crlf (a # b # s) =
     (if a = CHR 0x0D \<and> b = CHR 0x0A then [] # split_crlf s
      else (case split_crlf (b # s) of [] \<Rightarrow> [[a]] | w # ws \<Rightarrow> (a # w) # ws))"

definition CRLF :: string where "CRLF = [CHR 0x0D, CHR 0x0A]"

text \<open>\<open>f"{x:.df}"\<close>: \<open>d\<close> decimals, halves to even.\<close>

definition fixed :: "nat \<Rightarrow> real \<Rightarrow> string" where
  "fixed d x =
     (let k = nat (py_round (\<bar>x\<bar> * 10 ^ d))
      in (if x < 0 then ''-'' else []) @ dec (k div 10 ^ d) @
         (if d = 0 then [] else CHR ''.'' # digits d (k mod 10 ^ d)))"


text \<open>The subject of a pattern that ends in \<open>$\<close>: the text, or the text before a final line feed.\<close>

definition at_end :: "string \<Rightarrow> string" where
  "at_end s = (if s \<noteq> [] \<and> last s = CHR 0x0A then butlast s else s)"

fun join :: "string \<Rightarrow> string list \<Rightarrow> string" where
  "join sep [] = []"
| "join sep [w] = w"
| "join sep (w # ws) = w @ sep @ join sep ws"

definition str_opt_true :: "string option \<Rightarrow> bool" where
  "str_opt_true s \<longleftrightarrow> s \<noteq> None \<and> s \<noteq> Some []"

end
