(* ===== verification/Frames.thy ===== *)
theory Frames
  imports Checksums Scanner Text
begin

text \<open>
  \<open>src/mtrtk/core/frames.py\<close>: frames, and the incremental framer of a mixed UBX / RTCM 3 /
  NMEA byte stream. The two host time stamps of a frame are one reading of the clocks per call
  of \<open>feed\<close>, given as an argument; \<open>Frame.parsed\<close> (third-party parsers behind a cache) is not
  modelled here. The framer is an instance of \<open>scanner\<close>.
\<close>

section \<open>Frames\<close>

datatype proto = UBX | RTCM3 | NMEA | SBG | VN

record frame =
  fr_proto :: proto
  fr_raw :: bytes
  fr_t_mono :: real
  fr_t_host :: real

text \<open>
  Indexing a \<open>bytes\<close> object, and decoding ASCII with replacement: U+FFFD, which is not a
  character of \<open>string\<close>, is written CHR 0xFF, which decoding ASCII never gives otherwise.
\<close>

definition byte_at :: "bytes \<Rightarrow> nat \<Rightarrow> py_error + byte" where
  "byte_at xs i = (if i < length xs then Inr (xs ! i) else Inl IndexError)"

definition decode_ascii_replace :: "bytes \<Rightarrow> string" where
  "decode_ascii_replace bs = map (\<lambda>b. if b < 128 then char_of_byte b else CHR 0xFF) bs"

definition hex2 :: "byte \<Rightarrow> string" where
  "hex2 b = decode_latin1 (hex_fixed 2 (uint b))"

definition ubx_class_id :: "frame \<Rightarrow> py_error + byte \<times> byte" where
  "ubx_class_id f =
     (if fr_proto f \<noteq> UBX then Inl ValueError
      else (case byte_at (fr_raw f) 2 of
              Inl e \<Rightarrow> Inl e
            | Inr c \<Rightarrow> (case byte_at (fr_raw f) 3 of Inl e \<Rightarrow> Inl e | Inr i \<Rightarrow> Inr (c, i))))"

definition rtcm_type :: "frame \<Rightarrow> py_error + nat" where
  "rtcm_type f =
     (if fr_proto f \<noteq> RTCM3 then Inl ValueError
      else (case byte_at (fr_raw f) 3 of
              Inl e \<Rightarrow> Inl e
            | Inr a \<Rightarrow> (case byte_at (fr_raw f) 4 of
                          Inl e \<Rightarrow> Inl e
                        | Inr b \<Rightarrow> Inr (nat (push_bit 4 (uint a) OR drop_bit 4 (uint b))))))"

text \<open>
  \<open>Frame.identity\<close>. \<open>names\<close> is pyubx2's table of message names, \<open>namer\<close> the SBG namer if one
  is registered.
\<close>

definition identity ::
  "(bytes \<Rightarrow> string option) \<Rightarrow> (bytes \<Rightarrow> py_error + string) option \<Rightarrow> frame \<Rightarrow> py_error + string"
where
  "identity names namer f =
     (let r = fr_raw f in
      case fr_proto f of
        UBX \<Rightarrow>
          (case names (py_slice 2 4 r) of
             Some (c # cs) \<Rightarrow> Inr (c # cs)
           | _ \<Rightarrow> (case (byte_at r 2, byte_at r 3) of
                     (Inr c, Inr i) \<Rightarrow> Inr (''UBX-'' @ hex2 c @ ''-'' @ hex2 i)
                   | _ \<Rightarrow> Inl IndexError))
      | RTCM3 \<Rightarrow> (case rtcm_type f of Inl e \<Rightarrow> Inl e | Inr n \<Rightarrow> Inr (dec n))
      | SBG \<Rightarrow>
          (case namer of
             Some fn \<Rightarrow> fn r
           | None \<Rightarrow> (case (byte_at r 3, byte_at r 2) of
                        (Inr c, Inr i) \<Rightarrow> Inr (''SBG-'' @ hex2 c @ ''-'' @ hex2 i)
                      | _ \<Rightarrow> Inl IndexError))
      | VN \<Rightarrow> Inr (if take 1 r = [0xFA] then ''VN-BIN'' else ''VN-ASCII'')
      | NMEA \<Rightarrow>
          (let stop = (case find_sub [44] r of Some i \<Rightarrow> if 0 < i then i else 6 | None \<Rightarrow> 6)
           in Inr (decode_ascii_replace (py_slice 1 stop r))))"

definition payload :: "frame \<Rightarrow> py_error + bytes" where
  "payload f =
     (let r = fr_raw f; n = length r in
      case fr_proto f of
        UBX \<Rightarrow> Inr (py_slice 6 (n - 2) r)
      | RTCM3 \<Rightarrow> Inr (py_slice 3 (n - 3) r)
      | SBG \<Rightarrow> (case byte_at r 3 of
                  Inl e \<Rightarrow> Inl e
                | Inr c \<Rightarrow> Inr (if c AND 0x80 \<noteq> 0 then py_slice 11 (n - 3) r else py_slice 6 (n - 3) r))
      | _ \<Rightarrow> Inr r)"

section \<open>The framer\<close>

definition UBX_MAX_PAYLOAD :: nat where "UBX_MAX_PAYLOAD = 8192"
definition NMEA_MAX_LEN :: nat where "NMEA_MAX_LEN = 256"

definition sync_byte :: "byte \<Rightarrow> bool" where
  "sync_byte b \<longleftrightarrow> b = 0xB5 \<or> b = 0xD3 \<or> b = 0x24"

record framer_stats =
  fs_frames :: "proto \<Rightarrow> nat option"
  fs_garbage :: nat
  fs_checksum_errors :: nat

record framer =
  f_buf :: bytes
  f_max :: nat
  f_stats :: framer_stats

definition framer_init :: "nat \<Rightarrow> framer" where
  "framer_init max_buffer =
     \<lparr>f_buf = [], f_max = max_buffer,
      f_stats = \<lparr>fs_frames = [UBX \<mapsto> 0, RTCM3 \<mapsto> 0, NMEA \<mapsto> 0],
                 fs_garbage = 0, fs_checksum_errors = 0\<rparr>\<rparr>"

definition f_drop :: "nat \<Rightarrow> framer \<Rightarrow> framer" where
  "f_drop n s = s\<lparr>f_buf := drop n (f_buf s),
     f_stats := (f_stats s)\<lparr>fs_garbage := fs_garbage (f_stats s) + n\<rparr>\<rparr>"

definition f_bad_sum :: "framer \<Rightarrow> framer" where
  "f_bad_sum s =
     s\<lparr>f_stats := (f_stats s)\<lparr>fs_checksum_errors := fs_checksum_errors (f_stats s) + 1\<rparr>\<rparr>"

definition f_emit :: "real \<times> real \<Rightarrow> proto \<Rightarrow> nat \<Rightarrow> framer \<Rightarrow> framer \<times> frame" where
  "f_emit clk p n s =
     (s\<lparr>f_buf := drop n (f_buf s),
        f_stats := (f_stats s)\<lparr>fs_frames :=
          (fs_frames (f_stats s))(p := map_option Suc (fs_frames (f_stats s) p))\<rparr>\<rparr>,
      \<lparr>fr_proto = p, fr_raw = take n (f_buf s), fr_t_mono = fst clk, fr_t_host = snd clk\<rparr>)"

definition try_ubx :: "bytes \<Rightarrow> verdict" where
  "try_ubx b =
     (if length b < 2 then Wait
      else if b ! 1 \<noteq> 0x62 then Reject
      else if length b < 6 then Wait
      else
        let len = nat (uint (b ! 4) OR push_bit 8 (uint (b ! 5))) in
        if len > UBX_MAX_PAYLOAD then Reject
        else
          let total = 6 + len + 2 in
          if length b < total then Wait
          else if py_slice (total - 2) total b \<noteq> ubx_checksum (py_slice 2 (total - 2) b) then BadSum
          else Accept total)"

definition try_rtcm :: "bytes \<Rightarrow> verdict" where
  "try_rtcm b =
     (if length b < 3 then Wait
      else if uint (b ! 1) AND 0xFC \<noteq> 0 then Reject
      else
        let len = nat (push_bit 8 (uint (b ! 1) AND 0x03) OR uint (b ! 2)); total = 3 + len + 3 in
        if length b < total then Wait
        else
          let expected = crc24q (take (3 + len) b);
              got = push_bit 16 (uint (b ! (total - 3))) OR push_bit 8 (uint (b ! (total - 2)))
                    OR uint (b ! (total - 1)) in
          if expected \<noteq> got then BadSum else Accept total)"

definition try_nmea :: "bytes \<Rightarrow> verdict" where
  "try_nmea b =
     (case find_sub [13, 10] (take (NMEA_MAX_LEN + 2) b) of
        None \<Rightarrow> if length b < NMEA_MAX_LEN then Wait else Reject
      | Some stop \<Rightarrow>
          (case rfind1 42 (take stop b) of
             None \<Rightarrow> Reject
           | Some star \<Rightarrow>
               if stop - star \<noteq> 3 then Reject
               else (case py_int16 (py_slice (star + 1) stop b) of
                       None \<Rightarrow> Reject
                     | Some given \<Rightarrow>
                         if given \<noteq> nmea_checksum (py_slice 1 star b) then BadSum
                         else Accept (stop + 2))))"

definition front_proto :: "byte \<Rightarrow> proto" where
  "front_proto x = (if x = 0xB5 then UBX else if x = 0xD3 then RTCM3 else NMEA)"

definition try_front :: "proto \<Rightarrow> bytes \<Rightarrow> verdict" where
  "try_front p b = (case p of UBX \<Rightarrow> try_ubx b | RTCM3 \<Rightarrow> try_rtcm b | _ \<Rightarrow> try_nmea b)"

text \<open>One iteration of the loop of \<open>feed\<close>; the flag is false where the loop breaks.\<close>

definition framer_step :: "real \<times> real \<Rightarrow> framer \<Rightarrow> framer \<times> frame list \<times> bool" where
  "framer_step clk s =
     (case f_buf s of
        [] \<Rightarrow> (s, [], False)
      | x # _ \<Rightarrow>
          if \<not> sync_byte x then (f_drop (next_sync sync_byte (f_buf s)) s, [], True)
          else (case try_front (front_proto x) (f_buf s) of
                  Wait \<Rightarrow> (s, [], False)
                | Accept n \<Rightarrow> (case f_emit clk (front_proto x) n s of (s', f) \<Rightarrow> (s', [f], True))
                | BadSum \<Rightarrow> (f_drop 1 (f_bad_sum s), [], True)
                | _ \<Rightarrow> (f_drop 1 s, [], True)))"

section \<open>What an accepted frame looks like\<close>

definition valid_ubx :: "bytes \<Rightarrow> bool" where
  "valid_ubx r \<longleftrightarrow> 8 \<le> length r \<and> r ! 0 = 0xB5 \<and> r ! 1 = 0x62 \<and>
     length r = 8 + nat (uint (r ! 4) OR push_bit 8 (uint (r ! 5))) \<and>
     length r \<le> 8 + UBX_MAX_PAYLOAD \<and>
     drop (length r - 2) r = ubx_checksum (py_slice 2 (length r - 2) r)"

definition valid_rtcm :: "bytes \<Rightarrow> bool" where
  "valid_rtcm r \<longleftrightarrow> 6 \<le> length r \<and> r ! 0 = 0xD3 \<and> uint (r ! 1) AND 0xFC = 0 \<and>
     length r = 6 + nat (push_bit 8 (uint (r ! 1) AND 0x03) OR uint (r ! 2)) \<and>
     crc24q (take (length r - 3) r) =
       (push_bit 16 (uint (r ! (length r - 3))) OR push_bit 8 (uint (r ! (length r - 2)))
        OR uint (r ! (length r - 1)))"

definition valid_nmea :: "bytes \<Rightarrow> bool" where
  "valid_nmea r \<longleftrightarrow> 6 \<le> length r \<and> length r \<le> NMEA_MAX_LEN + 2 \<and> r ! 0 = 0x24 \<and>
     find_sub [13, 10] r = Some (length r - 2) \<and> r ! (length r - 5) = 42 \<and>
     42 \<notin> set (py_slice (length r - 4) (length r - 2) r) \<and>
     py_int16 (py_slice (length r - 4) (length r - 2) r) = Some (nmea_checksum (py_slice 1 (length r - 5) r))"

definition valid_frame :: "proto \<times> bytes \<Rightarrow> bool" where
  "valid_frame v =
     (case fst v of
        UBX \<Rightarrow> valid_ubx (snd v) | RTCM3 \<Rightarrow> valid_rtcm (snd v) | NMEA \<Rightarrow> valid_nmea (snd v)
      | _ \<Rightarrow> False)"

definition frame_view :: "frame \<Rightarrow> proto \<times> bytes" where
  "frame_view f = (fr_proto f, fr_raw f)"

section \<open>Verdicts\<close>

lemma try_ubx_Accept:
  assumes "hd b = 0xB5" "try_ubx b = Accept n"
  shows "0 < n \<and> n \<le> length b \<and> valid_ubx (take n b)"
proof -
  define len where "len = nat (uint (b ! 4) OR push_bit 8 (uint (b ! 5)))"
  have n: "n = 8 + len" and b: "6 \<le> length b" "b ! 1 = 0x62" "len \<le> UBX_MAX_PAYLOAD"
    and le: "n \<le> length b" and sum: "py_slice (6 + len) n b = ubx_checksum (py_slice 2 (6 + len) b)"
    using assms(2) by (auto simp: try_ubx_def Let_def len_def split: if_splits)
  have h: "b ! 0 = 0xB5" using assms(1) b(1) by (cases b) auto
  define r where "r = take n b"
  have r: "length r = n" using le by (simp add: r_def)
  have idx: "r ! i = b ! i" if "i < 8" for i using that n by (simp add: r_def)
  have "drop (n - 2) r = py_slice (6 + len) n b" "py_slice 2 (n - 2) r = py_slice 2 (6 + len) b"
    using n le by (auto simp: r_def py_slice_def drop_take min_def)
  then have "valid_ubx r"
    using n b h sum idx by (simp add: valid_ubx_def r len_def)
  then show ?thesis using n le by (simp add: r_def)
qed

lemma try_ubx_valid:
  assumes "valid_ubx r"
  shows "try_ubx (r @ d) = Accept (length r)"
proof -
  let ?n = "length r"
  have r: "8 \<le> ?n" "r ! 1 = 0x62" "?n = 8 + nat (uint (r ! 4) OR push_bit 8 (uint (r ! 5)))"
    "?n \<le> 8 + UBX_MAX_PAYLOAD" "drop (?n - 2) r = ubx_checksum (py_slice 2 (?n - 2) r)"
    using assms by (auto simp: valid_ubx_def)
  have "py_slice (?n - 2) ?n (r @ d) = drop (?n - 2) r" "py_slice 2 (?n - 2) (r @ d) = py_slice 2 (?n - 2) r"
    using r(1) by (auto simp: py_slice_def)
  moreover have "6 + nat (uint (r ! 4) OR push_bit 8 (uint (r ! 5))) + 2 = ?n"
    "nat (uint (r ! 4) OR push_bit 8 (uint (r ! 5))) \<le> UBX_MAX_PAYLOAD"
    using r by simp_all
  ultimately show ?thesis
    using r(1,2,5) by (simp add: try_ubx_def Let_def nth_append)
qed

lemma try_rtcm_Accept:
  assumes "hd b = 0xD3" "try_rtcm b = Accept n"
  shows "0 < n \<and> n \<le> length b \<and> valid_rtcm (take n b)"
proof -
  define len where "len = nat (push_bit 8 (uint (b ! 1) AND 0x03) OR uint (b ! 2))"
  have n: "n = 6 + len" and b: "3 \<le> length b" "uint (b ! 1) AND 0xFC = 0" and le: "n \<le> length b"
    and crc: "crc24q (take (3 + len) b) = (push_bit 16 (uint (b ! (n - 3))) OR
      push_bit 8 (uint (b ! (n - 2))) OR uint (b ! (n - 1)))"
    using assms(2) by (auto simp: try_rtcm_def Let_def len_def split: if_splits)
  have h: "b ! 0 = 0xD3" using assms(1) b(1) by (cases b) auto
  define r where "r = take n b"
  have r: "length r = n" using le by (simp add: r_def)
  have idx: "r ! i = b ! i" if "i < n" for i using that by (simp add: r_def)
  have "take (n - 3) r = take (3 + len) b" using n by (simp add: r_def)
  moreover have "r ! (n - 3) = b ! (n - 3)" "r ! (n - 2) = b ! (n - 2)" "r ! (n - 1) = b ! (n - 1)"
    "r ! 0 = b ! 0" "r ! 1 = b ! 1" "r ! 2 = b ! 2"
    using n by (auto intro!: idx)
  ultimately have "valid_rtcm r"
    unfolding valid_rtcm_def r using n b h crc by (simp add: len_def)
  then show ?thesis using n le by (simp add: r_def)
qed

lemma try_rtcm_valid:
  assumes "valid_rtcm r"
  shows "try_rtcm (r @ d) = Accept (length r)"
proof -
  let ?n = "length r"
  define len where "len = nat (push_bit 8 (uint (r ! 1) AND 0x03) OR uint (r ! 2))"
  have r: "uint (r ! 1) AND 0xFC = 0" "?n = 6 + len"
    "crc24q (take (?n - 3) r) = (push_bit 16 (uint (r ! (?n - 3))) OR
      push_bit 8 (uint (r ! (?n - 2))) OR uint (r ! (?n - 1)))"
    using assms by (auto simp: valid_rtcm_def len_def)
  have idx: "(r @ d) ! i = r ! i" if "i < ?n" for i using that by (simp add: nth_append)
  have at: "(r @ d) ! 1 = r ! 1" "(r @ d) ! 2 = r ! 2" "(r @ d) ! (?n - 3) = r ! (?n - 3)"
    "(r @ d) ! (?n - 2) = r ! (?n - 2)" "(r @ d) ! (?n - 1) = r ! (?n - 1)"
    using r(2) by (auto intro!: idx)
  have tk: "take (3 + len) (r @ d) = take (?n - 3) r" using r(2) by simp
  have total: "3 + len + 3 = ?n" using r(2) by simp
  show ?thesis
    unfolding try_rtcm_def Let_def at len_def [symmetric] total tk
    using r by simp
qed

lemma find_sub_take:
  assumes "find_sub p xs = Some i" "i + length p \<le> n"
  shows "find_sub p (take n xs) = Some i"
  using assms
proof (induction xs arbitrary: i n)
  case (Cons x xs)
  show ?case
  proof (cases "take (length p) (x # xs) = p")
    case True
    with Cons.prems have i: "i = 0" "length p \<le> n" by auto
    have "take (length p) (take n (x # xs)) = p" using True i(2) by (simp only: take_take) (simp add: min_def)
    then show ?thesis using i(1) by (cases "take n (x # xs)") (auto split: if_splits)
  next
    case False
    with Cons.prems obtain j where j: "find_sub p xs = Some j" "i = Suc j" by auto
    with Cons.prems obtain m where m: "n = Suc m" by (cases n) auto
    have "length p \<le> n" using Cons.prems j by simp
    then have "take (length p) (take n (x # xs)) = take (length p) (x # xs)"
      by (simp only: take_take) (simp add: min_def)
    with False have "take (length p) (x # take m xs) \<noteq> p" using m by simp
    then show ?thesis using Cons.IH [OF j(1), of m] Cons.prems j m by simp
  qed
qed auto

lemma find_sub_untake: "find_sub p (take n xs) = Some i \<Longrightarrow> find_sub p xs = Some i"
  using find_sub_append_Some [of p "take n xs" i "drop n xs"] by simp

lemma try_nmea_Accept:
  assumes "hd b = 0x24" "try_nmea b = Accept n"
  shows "0 < n \<and> n \<le> length b \<and> valid_nmea (take n b)"
proof -
  obtain stop star given where stop: "find_sub [13, 10] (take (NMEA_MAX_LEN + 2) b) = Some stop"
    and star: "rfind1 42 (take stop b) = Some star" "stop - star = 3"
    and given: "py_int16 (py_slice (star + 1) stop b) = Some given"
      "given = nmea_checksum (py_slice 1 star b)"
    and n: "n = stop + 2"
    using assms(2) by (auto simp: try_nmea_def split: option.splits if_splits)
  have fs: "find_sub [13, 10] b = Some stop" by (rule find_sub_untake [OF stop])
  have le: "n \<le> length b" "n \<le> NMEA_MAX_LEN + 2"
    using find_sub_Some_bound [OF fs] find_sub_Some_bound [OF stop] n by simp_all
  have st: "star < stop" "b ! star = 42" "star + 3 = stop"
    using rfind1_Some [OF star(1)] star(2) by auto
  have h: "b ! 0 = 0x24" using assms(1) le n by (cases b) auto
  have "star \<noteq> 0" using h st(2) by (cases star) auto
  define r where "r = take n b"
  have r: "length r = n" using le by (simp add: r_def)
  have "find_sub [13, 10] r = Some stop"
    unfolding r_def by (rule find_sub_take [OF fs]) (simp add: n)
  moreover have "r ! (n - 5) = 42" "r ! 0 = 0x24"
  proof -
    have "n = star + 5" using st n by simp
    then show "r ! (n - 5) = 42" "r ! 0 = 0x24" using st(2) h by (simp_all add: r_def)
  qed
  moreover have "py_slice (n - 4) (n - 2) r = py_slice (star + 1) stop b"
    "py_slice 1 (n - 5) r = py_slice 1 star b"
    using st(3) n by (auto simp: r_def py_slice_def drop_take min_def)
  moreover have "42 \<notin> set (py_slice (star + 1) stop b)"
  proof
    assume "42 \<in> set (py_slice (star + 1) stop b)"
    then have "42 \<in> set (drop (star + 1) (take stop b))"
      by (simp add: py_slice_def drop_take)
    then obtain ys zs where yz: "drop (star + 1) (take stop b) = ys @ 42 # zs" "42 \<notin> set zs"
      by (metis split_list_last)
    then have "take stop b = (take (star + 1) (take stop b) @ ys) @ 42 # zs"
      by (metis append.assoc append_take_drop_id)
    then have "rfind1 42 (take stop b) = Some (length (take (star + 1) (take stop b) @ ys))"
      using rfind1_append_last [OF yz(2)] by metis
    then have "star = length (take (star + 1) (take stop b) @ ys)" using star(1) by simp
    moreover have "length (take (star + 1) (take stop b)) = star + 1"
      using st n le by simp
    ultimately show False by simp
  qed
  ultimately have "valid_nmea r"
    using \<open>star \<noteq> 0\<close> st n le given unfolding valid_nmea_def r by simp
  then show ?thesis using n le by (simp add: r_def)
qed

lemma try_nmea_valid:
  assumes "valid_nmea r"
  shows "try_nmea (r @ d) = Accept (length r)"
proof -
  let ?n = "length r"
  have r: "6 \<le> ?n" "?n \<le> NMEA_MAX_LEN + 2" "find_sub [13, 10] r = Some (?n - 2)"
    "r ! (?n - 5) = 42" "42 \<notin> set (py_slice (?n - 4) (?n - 2) r)"
    "py_int16 (py_slice (?n - 4) (?n - 2) r) = Some (nmea_checksum (py_slice 1 (?n - 5) r))"
    using assms by (auto simp: valid_nmea_def)
  have stop: "find_sub [13, 10] (take (NMEA_MAX_LEN + 2) (r @ d)) = Some (?n - 2)"
    by (rule find_sub_take [OF find_sub_append_Some [OF r(3)]]) (use r(1,2) in simp)
  have "take (?n - 2) (r @ d) = take (?n - 5) r @ 42 # py_slice (?n - 4) (?n - 2) r"
  proof -
    have "take (?n - 2) (r @ d) = take (?n - 2) r" by simp
    also have "\<dots> = take (?n - 5) r @ take 3 (drop (?n - 5) r)"
    proof -
      have "?n - 2 = (?n - 5) + 3" using r(1) by simp
      then show ?thesis by (simp only: take_add)
    qed
    also have "drop (?n - 5) r = 42 # drop (?n - 4) r"
    proof -
      have "Suc (?n - 5) = ?n - 4" "?n - 5 < ?n" using r(1) by simp_all
      then show ?thesis using Cons_nth_drop_Suc [of "?n - 5" r] r(4) by simp
    qed
    also have "take 3 (42 # drop (?n - 4) r) = 42 # take (?n - 2 - (?n - 4)) (drop (?n - 4) r)"
    proof -
      have "?n - 2 - (?n - 4) = 2" using r(1) by simp
      then show ?thesis by (simp add: numeral_eq_Suc)
    qed
    finally show ?thesis by (simp add: py_slice_def)
  qed
  then have star: "rfind1 42 (take (?n - 2) (r @ d)) = Some (?n - 5)"
    using rfind1_append_last [OF r(5), of "take (?n - 5) r"] r(1) by simp
  have "?n - 2 - (?n - 5) = 3" "?n - 5 + 1 = ?n - 4" "?n - 2 + 2 = ?n" using r(1) by simp_all
  moreover have "py_slice (?n - 4) (?n - 2) (r @ d) = py_slice (?n - 4) (?n - 2) r"
    "py_slice 1 (?n - 5) (r @ d) = py_slice 1 (?n - 5) r"
    by (rule py_slice_append, simp)+
  ultimately show ?thesis
    unfolding try_nmea_def stop option.case star using r(6) by simp
qed

lemma try_front_Accept:
  "sync_byte x \<Longrightarrow> b = x # xs \<Longrightarrow> try_front (front_proto x) b = Accept n \<Longrightarrow>
   0 < n \<and> n \<le> length b \<and> valid_frame (front_proto x, take n b)"
  using try_ubx_Accept [of b n] try_rtcm_Accept [of b n] try_nmea_Accept [of b n]
  by (auto simp: try_front_def front_proto_def sync_byte_def valid_frame_def split: if_splits)

lemma try_front_valid:
  assumes "valid_frame (p, r)"
  shows "try_front p (r @ d) = Accept (length r) \<and>
    (\<exists>x xs. r = x # xs \<and> sync_byte x \<and> front_proto x = p)"
proof -
  have ne: "r \<noteq> []"
    using assms by (auto simp: valid_frame_def valid_ubx_def valid_rtcm_def valid_nmea_def
        split: proto.splits)
  then obtain x xs where r: "r = x # xs" by (cases r) auto
  show ?thesis
  proof (cases p)
    case UBX
    with assms have v: "valid_ubx r" by (simp add: valid_frame_def)
    with r have "x = 0xB5" by (simp add: valid_ubx_def)
    with UBX r try_ubx_valid [OF v] show ?thesis
      by (simp add: try_front_def sync_byte_def front_proto_def)
  next
    case RTCM3
    with assms have v: "valid_rtcm r" by (simp add: valid_frame_def)
    with r have "x = 0xD3" by (simp add: valid_rtcm_def)
    with RTCM3 r try_rtcm_valid [OF v] show ?thesis
      by (simp add: try_front_def sync_byte_def front_proto_def)
  next
    case NMEA
    with assms have v: "valid_nmea r" by (simp add: valid_frame_def)
    with r have "x = 0x24" by (simp add: valid_nmea_def)
    with NMEA r try_nmea_valid [OF v] show ?thesis
      by (simp add: try_front_def sync_byte_def front_proto_def)
  qed (use assms in \<open>simp_all add: valid_frame_def\<close>)
qed

lemma next_sync_bounds: "b \<noteq> [] \<Longrightarrow> 0 < next_sync p b \<and> next_sync p b \<le> length b"
  by (cases b) (auto simp: length_takeWhile_le)

lemma f_emit_buf:
  "f_emit clk p n s = (s', f) \<Longrightarrow> f_buf s' = drop n (f_buf s)"
  by (auto simp: f_emit_def)

lemma framer_step_cases:
  assumes "framer_step clk s = (s', fs, go)" "f_buf s \<noteq> []"
  obtains (Garbage) "\<not> sync_byte (hd (f_buf s))" "fs = []" "go"
      "s' = f_drop (next_sync sync_byte (f_buf s)) s"
    | (Waits) "sync_byte (hd (f_buf s))" "fs = []" "\<not> go" "s' = s"
      "try_front (front_proto (hd (f_buf s))) (f_buf s) = Wait"
    | (Accepts) n f where "sync_byte (hd (f_buf s))" "fs = [f]" "go"
      "try_front (front_proto (hd (f_buf s))) (f_buf s) = Accept n"
      "f_emit clk (front_proto (hd (f_buf s))) n s = (s', f)"
    | (Rejects) t where "sync_byte (hd (f_buf s))" "fs = []" "go" "s' = f_drop 1 t"
      "try_front (front_proto (hd (f_buf s))) (f_buf s) \<notin> {Wait} \<union> range Accept"
      "t = (if try_front (front_proto (hd (f_buf s))) (f_buf s) = BadSum then f_bad_sum s else s)"
proof -
  obtain x xs where b: "f_buf s = x # xs" using assms(2) by (cases "f_buf s") auto
  let ?v = "try_front (front_proto x) (x # xs)"
  show ?thesis
  proof (cases "sync_byte x")
    case False
    then have "framer_step clk s = (f_drop (next_sync sync_byte (x # xs)) s, [], True)"
      by (simp only: framer_step_def b list.case) simp
    with assms(1) have "s' = f_drop (next_sync sync_byte (x # xs)) s" "fs = []" go by simp_all
    with False show ?thesis by (intro that(1)) (auto simp: b)
  next
    case True
    note step = framer_step_def b list.case
    show ?thesis
    proof (cases ?v)
      case Wait
      then have "framer_step clk s = (s, [], False)"
        by (simp only: step) (simp add: True)
      with assms(1) have "s' = s" "fs = []" "\<not> go" by simp_all
      with True Wait show ?thesis by (intro that(2)) (auto simp: b)
    next
      case (Accept n)
      obtain t f where e: "f_emit clk (front_proto x) n s = (t, f)"
        by (cases "f_emit clk (front_proto x) n s")
      then have "framer_step clk s = (t, [f], True)"
        by (simp only: step) (simp add: True Accept)
      with assms(1) have "s' = t" "fs = [f]" go by simp_all
      with True Accept e show ?thesis by (intro that(3) [of f n]) (auto simp: b)
    next
      case BadSum
      then have "framer_step clk s = (f_drop 1 (f_bad_sum s), [], True)"
        by (simp only: step) (simp add: True)
      with assms(1) have "s' = f_drop 1 (f_bad_sum s)" "fs = []" go by simp_all
      with True BadSum show ?thesis by (intro that(4) [of "f_bad_sum s"]) (auto simp: b)
    next
      case Reject
      then have "framer_step clk s = (f_drop 1 s, [], True)"
        by (simp only: step) (simp add: True)
      with assms(1) have "s' = f_drop 1 s" "fs = []" go by simp_all
      with True Reject show ?thesis by (intro that(4) [of s]) (auto simp: b)
    next
      case BadHeader
      then have "framer_step clk s = (f_drop 1 s, [], True)"
        by (simp only: step) (simp add: True)
      with assms(1) have "s' = f_drop 1 s" "fs = []" go by simp_all
      with True BadHeader show ?thesis by (intro that(4) [of s]) (auto simp: b)
    qed
  qed
qed

lemma f_buf_simps [simp]:
  "f_buf (f_drop n s) = drop n (f_buf s)" "f_buf (f_bad_sum s) = f_buf s"
  by (simp_all add: f_drop_def f_bad_sum_def)

lemma hd_try_front:
  assumes "sync_byte (hd b)" "b \<noteq> []" "try_front (front_proto (hd b)) b = Accept n"
  shows "0 < n \<and> n \<le> length b \<and> valid_frame (front_proto (hd b), take n b)"
  using assms try_front_Accept [of "hd b" b "tl b" n] by simp

lemma framer_step_progress:
  assumes "f_buf s \<noteq> []" "framer_step clk s = (s', fs, True)"
  shows "length (f_buf s') < length (f_buf s)"
  using assms(2,1)
proof (cases rule: framer_step_cases)
  case Garbage
  then show ?thesis using next_sync_bounds [OF assms(1), of sync_byte] assms(1)
    by (simp add: diff_less)
next
  case (Accepts n f)
  then show ?thesis using hd_try_front [of "f_buf s" n] assms(1) f_emit_buf by fastforce
next
  case (Rejects t)
  then show ?thesis using assms(1) by simp
qed simp

section \<open>The loop and \<open>feed\<close>\<close>

function framer_loop :: "real \<times> real \<Rightarrow> framer \<Rightarrow> framer \<times> frame list" where
  "framer_loop clk s =
     (if f_buf s = [] then (s, [])
      else (case framer_step clk s of
              (s', fs, go) \<Rightarrow>
                if go then (case framer_loop clk s' of (t, gs) \<Rightarrow> (t, fs @ gs)) else (s', fs)))"
  by pat_completeness auto
termination
  by (relation "measure (\<lambda>(clk, s). length (f_buf s))") (auto intro: framer_step_progress [OF _ sym])

declare framer_loop.simps [simp del]

definition f_push :: "framer \<Rightarrow> bytes \<Rightarrow> framer" where
  "f_push s data = s\<lparr>f_buf := f_buf s @ data\<rparr>"

definition framer_feed :: "real \<times> real \<Rightarrow> framer \<Rightarrow> bytes \<Rightarrow> framer \<times> frame list" where
  "framer_feed clk s data =
     (let s1 = f_push s data;
          s2 = (if length (f_buf s1) > f_max s1
                then f_drop (length (f_buf s1) - f_max s1) s1 else s1)
      in framer_loop clk s2)"

section \<open>More bytes do not change a verdict\<close>

text \<open>
  The one exception is an NMEA line whose CR LF begins 255 or 256 bytes after its dollar sign:
  a whole line of 257 or 258 bytes is accepted, but the framer gives a partial one up once 256
  bytes of it have come without a CR LF. \<open>lines_ok\<close> says that a stream holds no such line.
\<close>

fun lines_ok :: "bytes \<Rightarrow> bool" where
  "lines_ok [] \<longleftrightarrow> True"
| "lines_ok (x # xs) \<longleftrightarrow>
     (x = 0x24 \<longrightarrow> find_sub [13, 10] (x # xs) \<notin> {Some 255, Some 256}) \<and> lines_ok xs"

lemma lines_ok_suffix: "lines_ok (a @ b) \<Longrightarrow> lines_ok b"
  by (induction a) simp_all

lemma lines_ok_prefix: "lines_ok (a @ b) \<Longrightarrow> lines_ok a"
  by (induction a) (auto dest: find_sub_append_Some [where ys = b])

lemma lines_ok_drop: "lines_ok a \<Longrightarrow> lines_ok (drop n a)"
  by (metis append_take_drop_id lines_ok_suffix)

lemma try_ubx_append:
  assumes "try_ubx b \<noteq> Wait"
  shows "try_ubx (b @ d) = try_ubx b"
proof (cases "length b < 6")
  case True
  with assms show ?thesis
    by (simp add: try_ubx_def nth_append split: if_splits)
next
  case False
  define len where "len = nat (uint (b ! 4) OR push_bit 8 (uint (b ! 5)))"
  have len': "nat (uint ((b @ d) ! 4) OR push_bit 8 (uint ((b @ d) ! 5))) = len"
    using False by (simp add: len_def nth_append)
  show ?thesis
  proof (cases "b ! 1 \<noteq> 0x62 \<or> len > UBX_MAX_PAYLOAD")
    case True
    with False len' show ?thesis
      by (simp add: try_ubx_def Let_def len_def nth_append)
  next
    case ok: False
    then have le: "6 + len + 2 \<le> length b"
      using assms False by (simp add: try_ubx_def Let_def len_def split: if_splits)
    then have "py_slice (6 + len + 2 - 2) (6 + len + 2) (b @ d) = py_slice (6 + len + 2 - 2) (6 + len + 2) b"
      "py_slice 2 (6 + len + 2 - 2) (b @ d) = py_slice 2 (6 + len + 2 - 2) b"
      by (simp_all add: py_slice_append)
    with ok False le show ?thesis
      unfolding try_ubx_def len' len_def [symmetric] Let_def by (simp add: nth_append)
  qed
qed

lemma try_rtcm_append:
  assumes "try_rtcm b \<noteq> Wait"
  shows "try_rtcm (b @ d) = try_rtcm b"
proof -
  define len where "len = nat (push_bit 8 (uint (b ! 1) AND 0x03) OR uint (b ! 2))"
  have b: "3 \<le> length b" using assms by (simp add: try_rtcm_def split: if_splits)
  then have at: "(b @ d) ! 1 = b ! 1" "(b @ d) ! 2 = b ! 2" by (simp_all add: nth_append)
  show ?thesis
  proof (cases "uint (b ! 1) AND 0xFC \<noteq> 0")
    case True
    then show ?thesis using b unfolding try_rtcm_def at by simp
  next
    case False
    then have le: "3 + len + 3 \<le> length b"
      using assms b by (simp add: try_rtcm_def Let_def len_def split: if_splits)
    have idx: "(b @ d) ! (3 + len + 3 - i) = b ! (3 + len + 3 - i)" if "0 < i" for i
    proof -
      have "3 + len + 3 - i < length b" using le that by simp
      then show ?thesis by (simp only: nth_append if_True)
    qed
    have "take (3 + len) (b @ d) = take (3 + len) b" using le by simp
    then show ?thesis
      using b le False unfolding try_rtcm_def at len_def [symmetric] Let_def
      by (simp only: idx [of 1] idx [of 2] idx [of 3] zero_less_one zero_less_numeral) simp
  qed
qed

lemma try_nmea_append:
  assumes "try_nmea b \<noteq> Wait" "hd b = 0x24" "b \<noteq> []" "lines_ok (b @ d)"
  shows "try_nmea (b @ d) = try_nmea b"
proof (cases "find_sub [13, 10] (take (NMEA_MAX_LEN + 2) b)")
  case None
  with assms(1) have len: "NMEA_MAX_LEN \<le> length b"
    by (auto simp: try_nmea_def split: if_splits)
  have "find_sub [13, 10] (take (NMEA_MAX_LEN + 2) (b @ d)) = None"
  proof (rule ccontr)
    assume "find_sub [13, 10] (take (NMEA_MAX_LEN + 2) (b @ d)) \<noteq> None"
    then obtain i where i: "find_sub [13, 10] (take (NMEA_MAX_LEN + 2) (b @ d)) = Some i" by auto
    have full: "find_sub [13, 10] (b @ d) = Some i" by (rule find_sub_untake [OF i])
    have le: "i + 2 \<le> NMEA_MAX_LEN + 2" using find_sub_Some_bound [OF i] by simp
    have "\<not> i + 2 \<le> length b"
    proof
      assume "i + 2 \<le> length b"
      then have "find_sub [13, 10] (take (min (NMEA_MAX_LEN + 2) (length b)) (b @ d)) = Some i"
        using le by (intro find_sub_take [OF full]) simp
      then show False using None by (simp add: min_def split: if_splits)
    qed
    then have "i = 255 \<or> i = 256" using le len by (auto simp: NMEA_MAX_LEN_def)
    then show False using assms full by (cases b) auto
  qed
  then show ?thesis using None len by (simp add: try_nmea_def)
next
  case (Some stop)
  then have fs: "find_sub [13, 10] (take (NMEA_MAX_LEN + 2) (b @ d)) = Some stop"
    using find_sub_append_Some [OF Some, of "take (NMEA_MAX_LEN + 2 - length b) d"] by simp
  have "stop + 2 \<le> length b" using find_sub_Some_bound [OF Some] by simp
  then have "take stop (b @ d) = take stop b" and
    sl: "\<And>star. py_slice (Suc star) stop (b @ d) = py_slice (Suc star) stop b"
    by (auto intro: py_slice_append)
  moreover have "py_slice 1 star (b @ d) = py_slice 1 star b" if "star < stop" for star
    using that \<open>stop + 2 \<le> length b\<close> by (intro py_slice_append) simp
  ultimately show ?thesis
    unfolding try_nmea_def Some fs
    by (auto split: option.splits dest: rfind1_Some)
qed

lemma try_front_append:
  "sync_byte x \<Longrightarrow> try_front (front_proto x) (x # xs) \<noteq> Wait \<Longrightarrow> lines_ok (x # xs @ d) \<Longrightarrow>
   try_front (front_proto x) (x # xs @ d) = try_front (front_proto x) (x # xs)"
  using try_ubx_append [of "x # xs" d] try_rtcm_append [of "x # xs" d]
    try_nmea_append [of "x # xs" d]
  by (auto simp: try_front_def front_proto_def sync_byte_def split: if_splits)

section \<open>The framer is a counting scanner\<close>

lemma next_sync_takeWhile:
  "\<not> sync (hd b) \<Longrightarrow> b \<noteq> [] \<Longrightarrow> next_sync sync b = length (takeWhile (\<lambda>x. \<not> sync x) b)"
  by (cases b) simp_all

lemma f_drop_drop: "f_drop a (f_drop b s) = f_drop (b + a) s"
  by (simp add: f_drop_def add.commute)

lemma f_drop_0 [simp]: "f_drop 0 s = s"
  by (simp add: f_drop_def)

lemma f_push_drop: "n \<le> length (f_buf s) \<Longrightarrow> f_push (f_drop n s) d = f_drop n (f_push s d)"
  by (simp add: f_push_def f_drop_def)

lemma f_push_buf [simp]: "f_buf (f_push s d) = f_buf s @ d"
  by (simp add: f_push_def)

lemma f_push_bad_sum: "f_push (f_bad_sum s) d = f_bad_sum (f_push s d)"
  by (simp add: f_push_def f_bad_sum_def)

lemma f_emit_push:
  "n \<le> length (f_buf s) \<Longrightarrow> f_emit clk p n (f_push s d) =
   (f_push (fst (f_emit clk p n s)) d, snd (f_emit clk p n s))"
  by (cases s) (simp add: f_emit_def f_push_def)

definition skip_garbage :: "framer \<Rightarrow> framer" where
  "skip_garbage s = f_drop (length (takeWhile (\<lambda>x. \<not> sync_byte x) (f_buf s))) s"

lemma framer_loop_skip: "framer_loop clk s = framer_loop clk (skip_garbage s)"
proof (cases "f_buf s")
  case Nil
  then show ?thesis by (simp add: skip_garbage_def)
next
  case (Cons x xs)
  show ?thesis
  proof (cases "sync_byte x")
    case True
    with Cons show ?thesis by (simp add: skip_garbage_def)
  next
    case False
    have "framer_step clk s = (skip_garbage s, [], True)"
      unfolding framer_step_def skip_garbage_def using Cons False by simp
    with Cons show ?thesis by (subst framer_loop.simps) simp
  qed
qed

lemma framer_step_push:
  assumes "framer_step clk s = (s', fs, True)" "f_buf s \<noteq> []" "sync_byte (hd (f_buf s))"
    and "lines_ok (f_buf s @ d)"
  shows "framer_step clk (f_push s d) = (f_push s' d, fs, True)"
proof -
  obtain x xs where b: "f_buf s = x # xs" using assms(2) by (cases "f_buf s") auto
  then have sx: "sync_byte x" using assms(3) by simp
  let ?v = "try_front (front_proto x) (x # xs)"
  have nw: "?v \<noteq> Wait" using assms(1) b sx by (auto simp: framer_step_def)
  have v: "try_front (front_proto x) (x # xs @ d) = ?v"
    using try_front_append [OF sx nw, of d] assms(4) b by simp
  have bp: "f_buf (f_push s d) = x # xs @ d" using b by simp
  note step = framer_step_def b bp list.case
  show ?thesis
  proof (cases ?v)
    case (Accept n)
    have n: "n \<le> length (x # xs)" using try_front_Accept [OF sx refl Accept] by simp
    obtain t f where e: "f_emit clk (front_proto x) n s = (t, f)"
      by (cases "f_emit clk (front_proto x) n s")
    have ep: "f_emit clk (front_proto x) n (f_push s d) = (f_push t d, f)"
      using f_emit_push [of n s clk "front_proto x" d] e b n by simp
    have "framer_step clk s = (t, [f], True)"
      by (simp only: step) (simp add: sx Accept e)
    moreover have "framer_step clk (f_push s d) = (f_push t d, [f], True)"
      by (simp only: step) (simp add: sx v Accept ep)
    ultimately show ?thesis using assms(1) by simp
  next
    case BadSum
    have "framer_step clk s = (f_drop 1 (f_bad_sum s), [], True)"
      by (simp only: step) (simp add: sx BadSum)
    moreover have "framer_step clk (f_push s d) = (f_drop 1 (f_bad_sum (f_push s d)), [], True)"
      by (simp only: step) (simp add: sx v BadSum)
    ultimately show ?thesis
      using assms(1) f_push_drop [of 1 "f_bad_sum s" d] b by (simp add: f_push_bad_sum)
  next
    case Reject
    have "framer_step clk s = (f_drop 1 s, [], True)"
      by (simp only: step) (simp add: sx Reject)
    moreover have "framer_step clk (f_push s d) = (f_drop 1 (f_push s d), [], True)"
      by (simp only: step) (simp add: sx v Reject)
    ultimately show ?thesis using assms(1) f_push_drop [of 1 s d] b by simp
  next
    case BadHeader
    have "framer_step clk s = (f_drop 1 s, [], True)"
      by (simp only: step) (simp add: sx BadHeader)
    moreover have "framer_step clk (f_push s d) = (f_drop 1 (f_push s d), [], True)"
      by (simp only: step) (simp add: sx v BadHeader)
    ultimately show ?thesis using assms(1) f_push_drop [of 1 s d] b by simp
  qed (use nw in simp)
qed

lemma framer_skip_push:
  assumes "\<not> sync_byte (hd (f_buf s))" "f_buf s \<noteq> []"
  shows "skip_garbage (f_push s d) =
    skip_garbage (f_push (f_drop (next_sync sync_byte (f_buf s)) s) d)"
proof -
  let ?p = "\<lambda>x. \<not> sync_byte x"
  let ?n = "length (takeWhile ?p (f_buf s))"
  have n: "next_sync sync_byte (f_buf s) = ?n" by (rule next_sync_takeWhile) (use assms in simp_all)
  have "length (takeWhile ?p (f_buf s @ d)) = ?n + length (takeWhile ?p (drop ?n (f_buf s) @ d))"
    by (rule takeWhile_resume)
  then show ?thesis
    unfolding skip_garbage_def n
    by (simp add: f_push_drop length_takeWhile_le f_drop_drop)
qed

lemma framer_resume:
  assumes "lines_ok (f_buf s @ d)" "f_buf s \<noteq> []" "framer_step clk s = (s', fs, True)"
  shows "framer_loop clk (f_push s d) =
    (case framer_loop clk (f_push s' d) of (t, gs) \<Rightarrow> (t, fs @ gs))"
proof (cases "sync_byte (hd (f_buf s))")
  case True
  from framer_step_push [OF assms(3,2) True assms(1)] assms(2)
  show ?thesis by (subst framer_loop.simps) simp
next
  case False
  with assms(3,2) have "fs = []" "s' = f_drop (next_sync sync_byte (f_buf s)) s"
    by (auto elim: framer_step_cases)
  then have "framer_loop clk (f_push s d) = framer_loop clk (f_push s' d)" and "fs = []"
    using framer_skip_push [OF False assms(2), of d] framer_loop_skip by metis+
  then show ?thesis by simp
qed

definition framer_ok :: "framer \<Rightarrow> bytes \<Rightarrow> bool" where
  "framer_ok s d \<longleftrightarrow> length (f_buf s @ d) \<le> f_max s \<and> lines_ok (f_buf s @ d)"

definition framer_garbage :: "framer \<Rightarrow> nat" where
  "framer_garbage s = fs_garbage (f_stats s)"

lemma framer_step_clock:
  assumes "framer_step c s = (s', fs, go)"
  shows "\<exists>fs'. framer_step c' s = (s', fs', go) \<and> map frame_view fs' = map frame_view fs"
  using assms
  by (auto simp: framer_step_def f_emit_def frame_view_def split: list.splits verdict.splits)

lemma framer_step_max: "framer_step c s = (s', fs, go) \<Longrightarrow> f_max s' = f_max s"
  by (auto simp: framer_step_def f_emit_def f_drop_def f_bad_sum_def
      split: list.splits verdict.splits if_splits)

lemma framer_step_suffix:
  assumes "f_buf s \<noteq> []" "framer_step c s = (s', fs, go)"
  shows "\<exists>n. f_buf s' = drop n (f_buf s)"
  using assms(2,1)
proof (cases rule: framer_step_cases)
  case Waits
  then have "f_buf s' = drop 0 (f_buf s)" by simp
  then show ?thesis ..
next
  case (Accepts n f)
  then show ?thesis using f_emit_buf by blast
next
  case (Rejects t)
  then show ?thesis by (intro exI [where x = 1]) simp
qed (auto simp: )

lemma framer_step_frames:
  assumes "f_buf s \<noteq> []" "framer_step c s = (s', fs, go)"
  shows "cuts (f_buf s) (map (\<lambda>f. snd (frame_view f)) fs) (f_buf s') \<and>
    (\<forall>f \<in> set fs. valid_frame (frame_view f)) \<and>
    length (f_buf s) + framer_garbage s =
    length (f_buf s') + framer_garbage s' + sum_list (map (\<lambda>f. length (snd (frame_view f))) fs)"
  using assms(2,1)
proof (cases rule: framer_step_cases)
  case Garbage
  then show ?thesis
    using next_sync_bounds [OF assms(1), of sync_byte]
    by (auto simp: framer_garbage_def f_drop_def
        intro: exI [where x = "take (next_sync sync_byte (f_buf s)) (f_buf s)"])
next
  case Waits
  then show ?thesis by simp
next
  case (Accepts n f)
  let ?r = "take n (f_buf s)"
  have n: "0 < n" "n \<le> length (f_buf s)" "valid_frame (front_proto (hd (f_buf s)), ?r)"
    using hd_try_front Accepts assms(1) by blast+
  have s': "f_buf s' = drop n (f_buf s)" "framer_garbage s' = framer_garbage s"
    "frame_view f = (front_proto (hd (f_buf s)), ?r)"
    using Accepts by (auto simp: f_emit_def framer_garbage_def frame_view_def)
  then show ?thesis
  proof -
    have "f_buf s = [] @ ?r @ drop n (f_buf s) \<and> drop n (f_buf s) = [] @ drop n (f_buf s)" by simp
    then have "cuts (f_buf s) [?r] (drop n (f_buf s))" unfolding cuts.simps by blast
    then show ?thesis using n s' Accepts(2) by simp
  qed
next
  case (Rejects t)
  then have "f_buf t = f_buf s" "framer_garbage t = framer_garbage s"
    by (auto simp: framer_garbage_def f_bad_sum_def)
  moreover have "0 < length (f_buf s)" using assms(1) by simp
  ultimately show ?thesis
    using Rejects by (auto simp: framer_garbage_def f_drop_def
        intro: exI [where x = "take 1 (f_buf s)"])
qed

lemma framer_step_complete:
  assumes "valid_frame v" "f_buf s = snd v @ d"
  shows "\<exists>s' f. framer_step c s = (s', [f], True) \<and> frame_view f = v \<and> f_buf s' = d"
proof -
  obtain x xs where x: "snd v = x # xs" "sync_byte x" "front_proto x = fst v"
    and acc: "try_front (fst v) (snd v @ d) = Accept (length (snd v))"
    using try_front_valid [of "fst v" "snd v" d] assms(1) by auto
  obtain s' f where e: "f_emit c (fst v) (length (snd v)) s = (s', f)"
    by (cases "f_emit c (fst v) (length (snd v)) s")
  have b: "f_buf s = x # xs @ d" using assms(2) x by simp
  have acc': "try_front (fst v) (x # xs @ d) = Accept (length (snd v))" using acc x by simp
  have "framer_step c s = (s', [f], True)"
    unfolding framer_step_def b list.case acc' [folded x(3)]
    by (simp only: x(2) x(3) acc' verdict.case e prod.case) simp
  moreover have "frame_view f = v" "f_buf s' = d"
    using e assms(2) by (auto simp: f_emit_def frame_view_def)
  ultimately show ?thesis by blast
qed

interpretation ubx: counting_scanner f_buf f_push framer_step framer_loop framer_feed
  frame_view snd valid_frame framer_ok framer_garbage
proof
  fix c c' :: "real \<times> real" and s s' :: framer and fs :: "frame list" and go :: bool
    and a b d :: bytes and v :: "proto \<times> bytes"
  show "framer_loop c s = (if f_buf s = [] then (s, [])
       else (case framer_step c s of (s', fs, go) \<Rightarrow>
               if go then (case framer_loop c s' of (t, gs) \<Rightarrow> (t, fs @ gs)) else (s', fs)))"
    by (subst framer_loop.simps) simp
  show "\<exists>fs'. framer_step c' s = (s', fs', go) \<and> map frame_view fs' = map frame_view fs"
    if "framer_step c s = (s', fs, go)"
    using that by (rule framer_step_clock)
  show "length (f_buf s') < length (f_buf s)"
    if "f_buf s \<noteq> []" "framer_step c s = (s', fs, True)"
    using that by (rule framer_step_progress)
  show "cuts (f_buf s) (map (\<lambda>f. snd (frame_view f)) fs) (f_buf s')"
    if "f_buf s \<noteq> []" "framer_step c s = (s', fs, go)"
    using framer_step_frames [OF that] by blast
  show "valid_frame (frame_view f)"
    if "f_buf s \<noteq> []" "framer_step c s = (s', fs, go)" "f \<in> set fs" for f
    using framer_step_frames [OF that(1,2)] that(3) by blast
  show "length (f_buf s) + framer_garbage s =
      length (f_buf s') + framer_garbage s' + sum_list (map (\<lambda>f. length (snd (frame_view f))) fs)"
    if "f_buf s \<noteq> []" "framer_step c s = (s', fs, go)"
    using framer_step_frames [OF that] by blast
  show "\<exists>s' f. framer_step c s = (s', [f], True) \<and> frame_view f = v \<and> f_buf s' = d"
    if "valid_frame v" "f_buf s = snd v @ d"
    using that by (rule framer_step_complete)
  show "snd v \<noteq> []" if "valid_frame v"
    using try_front_valid [of "fst v" "snd v" "[]"] that by auto
  show "f_buf (f_push s d) = f_buf s @ d" by simp
  show "f_push (f_push s a) b = f_push s (a @ b)" by (simp add: f_push_def)
  show "framer_feed c s d = framer_loop c (f_push s d)" if "framer_ok s d"
    using that by (simp add: framer_ok_def framer_feed_def Let_def f_push_def)
  let ?over = "length (f_buf s @ d) - f_max s"
  let ?t = "if length (f_buf s @ d) > f_max s then f_drop ?over (f_push s d) else f_push s d"
  have feed: "framer_feed c s d = framer_loop c ?t"
    by (simp add: framer_feed_def Let_def f_push_def)
  have "f_buf s @ d = take ?over (f_buf s @ d) @ f_buf ?t"
    by (simp del: drop_append take_append)
  then show "\<exists>t. framer_feed c s d = framer_loop c t \<and> (\<exists>g. f_buf s @ d = g @ f_buf t)"
    using feed by blast
  have "length (f_buf ?t) + framer_garbage ?t = length (f_buf s) + length d + framer_garbage s"
    by (cases "length (f_buf s @ d) > f_max s")
      (simp_all add: framer_garbage_def f_drop_def f_push_def del: drop_append)
  then show "\<exists>t. framer_feed c s d = framer_loop c t \<and>
      length (f_buf t) + framer_garbage t = length (f_buf s) + length d + framer_garbage s"
    using feed by blast
  show "framer_ok s a" if "framer_ok s (a @ b)"
    using that lines_ok_prefix [of "f_buf s @ a" b] by (simp add: framer_ok_def)
  show "framer_ok (f_push s a) b" if "framer_ok s (a @ b)"
    using that by (simp add: framer_ok_def f_push_def)
  show "framer_ok s' d" if h: "framer_ok s d" "f_buf s \<noteq> []" "framer_step c s = (s', fs, go)"
  proof -
    obtain n where n: "f_buf s' = drop n (f_buf s)" using framer_step_suffix [OF h(2,3)] by blast
    have "drop n (f_buf s) @ d = drop (min n (length (f_buf s))) (f_buf s @ d)"
      by (simp add: min_def)
    moreover have "lines_ok (drop (min n (length (f_buf s))) (f_buf s @ d))"
      by (rule lines_ok_drop) (use h(1) in \<open>simp add: framer_ok_def\<close>)
    ultimately have "lines_ok (f_buf s' @ d)" by (simp only: n)
    then show ?thesis
      using h(1) n framer_step_max [OF h(3)] by (auto simp: framer_ok_def)
  qed
  show "apsnd (map frame_view) (framer_loop c (f_push s d)) =
      (case framer_loop c (f_push s' d) of (t, gs) \<Rightarrow> (t, map frame_view fs @ map frame_view gs))"
    if "framer_ok s d" "f_buf s \<noteq> []" "framer_step c s = (s', fs, True)"
    using framer_resume [of s d c s' fs] that by (simp add: framer_ok_def split: prod.splits)
  show "fs = [] \<and> apsnd (map frame_view) (framer_loop c (f_push s d)) =
      apsnd (map frame_view) (framer_loop c (f_push s' d))"
    if "framer_ok s d" "f_buf s \<noteq> []" "framer_step c s = (s', fs, False)"
    using that(3,2) by (cases rule: framer_step_cases) simp_all
qed

section \<open>Properties\<close>

text \<open>
  Feeding a stream to the framer in any chunking gives the same frames, and leaves the same
  buffer and counters, as feeding it whole, as long as the stream fits the buffer and holds no
  NMEA line of 257 or 258 bytes.
\<close>

theorem framer_chunking:
  assumes "length cs = length ds" "ds \<noteq> []"
    and "length (concat ds) \<le> max_buffer" "lines_ok (concat ds)"
  shows "feed_chunks framer_feed frame_view cs (framer_init max_buffer) ds =
    apsnd (map frame_view) (framer_feed c (framer_init max_buffer) (concat ds))"
  by (rule ubx.feed_all_concat) (use assms in \<open>simp_all add: framer_ok_def framer_init_def\<close>)

lemma framer_chunking_witness:
  "feed_chunks framer_feed frame_view [(0, 0), (1, 1)] (framer_init 1000) [[0xB5, 0x62, 1, 7, 0], [0, 8, 25]] =
     apsnd (map frame_view) (framer_feed (2, 2) (framer_init 1000)
       (concat [[0xB5, 0x62, 1, 7, 0], [0, 8, 25]])) \<and>
   snd (feed_chunks framer_feed frame_view [(0, 0), (1, 1)] (framer_init 1000) [[0xB5, 0x62, 1, 7, 0], [0, 8, 25]]) =
     [(UBX, [0xB5, 0x62, 1, 7, 0, 0, 8, 25])]"
proof
  show "feed_chunks framer_feed frame_view [(0, 0), (1, 1)] (framer_init 1000) [[0xB5, 0x62, 1, 7, 0], [0, 8, 25]] =
     apsnd (map frame_view) (framer_feed (2, 2) (framer_init 1000)
       (concat [[0xB5, 0x62, 1, 7, 0], [0, 8, 25]]))"
    by (rule framer_chunking) code_simp+
  show "snd (feed_chunks framer_feed frame_view [(0, 0), (1, 1)] (framer_init 1000) [[0xB5, 0x62, 1, 7, 0], [0, 8, 25]]) =
     [(UBX, [0xB5, 0x62, 1, 7, 0, 0, 8, 25])]"
    by code_simp
qed

text \<open>
  C1. Every frame the framer returns, from any state and for any bytes, is complete and has a
  valid checksum; the frames are disjoint pieces of the stream, in order; and every byte that
  ever entered is in a returned frame, in the garbage counter or still in the buffer.
\<close>

theorem framer_feed_sound:
  assumes "framer_feed clk s d = (t, fs)"
  shows "list_all (\<lambda>f. valid_frame (frame_view f)) fs \<and>
    cuts (f_buf s @ d) (map fr_raw fs) (f_buf t) \<and>
    length (f_buf s) + length d + fs_garbage (f_stats s) =
    length (f_buf t) + fs_garbage (f_stats t) + sum_list (map (\<lambda>f. length (fr_raw f)) fs)"
  using ubx.feed_wf [OF assms] ubx.feed_in_order [OF assms] ubx.feed_conserves [OF assms]
  by (simp add: list_all_iff frame_view_def framer_garbage_def)

lemma framer_feed_sound_witness:
  "\<exists>t fs. framer_feed (0, 0) (framer_init 1000) [7, 0xB5, 0x62, 1, 7, 0, 0, 8, 25] = (t, fs) \<and>
    list_all (\<lambda>f. valid_frame (frame_view f)) fs \<and> length fs = 1 \<and> fs_garbage (f_stats t) = 1"
proof -
  let ?d = "[7, 0xB5, 0x62, 1, 7, 0, 0, 8, 25] :: bytes"
  obtain t fs where t: "framer_feed (0, 0) (framer_init 1000) ?d = (t, fs)"
    by (cases "framer_feed (0, 0) (framer_init 1000) ?d")
  have "(case framer_feed (0, 0) (framer_init 1000) ?d of (t, fs) \<Rightarrow>
      length fs = 1 \<and> fs_garbage (f_stats t) = 1)"
    by code_simp
  then have "length fs = 1" "fs_garbage (f_stats t) = 1" using t by simp_all
  with framer_feed_sound [OF t] t show ?thesis by blast
qed

text \<open>
  A stream made of complete frames with valid checksums comes back as exactly those frames,
  with nothing left in the buffer and no garbage counted.
\<close>

theorem framer_stream_roundtrip:
  assumes "list_all valid_frame vs" "length (concat (map snd vs)) \<le> max_buffer"
    and "lines_ok (concat (map snd vs))"
  shows "\<exists>t fs. framer_feed clk (framer_init max_buffer) (concat (map snd vs)) = (t, fs) \<and>
    map frame_view fs = vs \<and> f_buf t = [] \<and> fs_garbage (f_stats t) = 0"
proof -
  obtain t fs where t: "framer_feed clk (framer_init max_buffer) (concat (map snd vs)) = (t, fs)"
    "map frame_view fs = vs" "f_buf t = []"
    using ubx.feed_stream [of vs "framer_init max_buffer" clk] assms
    by (auto simp: list_all_iff framer_ok_def framer_init_def)
  have "sum_list (map (\<lambda>f. length (snd (frame_view f))) fs) = length (concat (map snd vs))"
    unfolding t(2) [symmetric] by (simp add: length_concat comp_def)
  then have "framer_garbage t = 0"
    using ubx.feed_conserves [OF t(1)] t(3) by (simp add: framer_init_def framer_garbage_def)
  then show ?thesis using t by (auto simp: framer_garbage_def)
qed

lemma framer_stream_roundtrip_witness:
  "\<exists>t fs. framer_feed (0, 0) (framer_init 64)
      (concat (map snd [(UBX, [0xB5, 0x62, 1, 7, 0, 0, 8, 25]), (NMEA, [36, 65, 42, 52, 49, 13, 10])])) = (t, fs) \<and>
    map frame_view fs = [(UBX, [0xB5, 0x62, 1, 7, 0, 0, 8, 25]), (NMEA, [36, 65, 42, 52, 49, 13, 10])] \<and>
    f_buf t = [] \<and> fs_garbage (f_stats t) = 0"
  by (rule framer_stream_roundtrip) code_simp+

definition long_line :: bytes where
  "long_line = 36 # replicate 251 65 @ [42, 52, 49, 13, 10]"

text \<open>
  The hypothesis on long lines is needed: a checksummed NMEA line of 257 bytes that comes in
  one piece is returned, while the same line cut after its 256th byte is thrown away, byte by
  byte.
\<close>

theorem framer_long_line_chunking:
  "map frame_view (snd (framer_feed (0, 0) (framer_init 1000) long_line)) = [(NMEA, long_line)] \<and>
   snd (feed_chunks framer_feed frame_view [(0, 0), (0, 0)] (framer_init 1000)
     [take 256 long_line, drop 256 long_line]) = []"
  by code_simp

end
