(* ===== verification/SbgFramer.thy ===== *)
theory SbgFramer
  imports Frames
begin

text \<open>
  The sbgECom framer, \<open>src/mtrtk/rover/drivers/sbg/framer.py\<close> with the id tables of
  \<open>sbg/ids.py\<close>: \<open>encode\<close>, \<open>name_for\<close>, and \<open>SbgFramer.feed\<close>, another instance of \<open>scanner\<close>
  (not of \<open>counting_scanner\<close>: dropped extended frames are in no byte counter). The release time
  of the frames of one call is one reading of the clocks, as the class's documentation says.
\<close>

section \<open>Ids\<close>

definition SBG_CLASS :: "(string \<times> int) list" where
  "SBG_CLASS =
     [(''LOG_ECOM_0'', 0), (''LOG_ECOM_1'', 1), (''LOG_NMEA_0'', 2), (''LOG_NMEA_1'', 3),
      (''LOG_THIRD_PARTY_0'', 4), (''LOG_NMEA_GNSS'', 5), (''LOG_CMD_0'', 16), (''CMD_0'', 16),
      (''LOG_ALL'', 255)]"

definition SBG_LOG :: "(string \<times> int) list" where
  "SBG_LOG =
     [(''STATUS'', 1), (''UTC_TIME'', 2), (''IMU_DATA'', 3), (''MAG'', 4), (''MAG_CALIB'', 5),
      (''EKF_EULER'', 6), (''EKF_QUAT'', 7), (''EKF_NAV'', 8), (''SHIP_MOTION'', 9),
      (''GPS1_VEL'', 13), (''GPS1_POS'', 14), (''GPS1_HDT'', 15), (''GPS2_VEL'', 16),
      (''GPS2_POS'', 17), (''GPS2_HDT'', 18), (''ODO_VEL'', 19), (''EVENT_A'', 24),
      (''EVENT_B'', 25), (''EVENT_C'', 26), (''EVENT_D'', 27), (''EVENT_E'', 28),
      (''DVL_BOTTOM_TRACK'', 29), (''DVL_WATER_TRACK'', 30), (''GPS1_RAW'', 31),
      (''SHIP_MOTION_HP'', 32), (''AIR_DATA'', 36), (''USBL'', 37), (''GPS2_RAW'', 38),
      (''IMU_SHORT'', 44), (''EVENT_OUT_A'', 45), (''EVENT_OUT_B'', 46), (''DEPTH'', 47),
      (''DIAG'', 48), (''RTCM_RAW'', 49), (''GPS1_SAT'', 50), (''GPS2_SAT'', 51),
      (''EKF_ROT_ACCEL_BODY'', 52), (''EKF_ROT_ACCEL_NED'', 53), (''EKF_VEL_BODY'', 54),
      (''SESSION_INFO'', 55), (''EKF_DEBUG'', 56), (''PTP_STATUS'', 57), (''VELOCITY_1'', 58),
      (''VIB_MON_FFT'', 59), (''VIB_MON_REPORT'', 60), (''EKF_AIR_DATA'', 61),
      (''POSITION_1'', 62)]"

definition SBG_CMD :: "(string \<times> int) list" where
  "SBG_CMD =
     [(''ACK'', 0), (''SETTINGS_ACTION'', 1), (''IMPORT_SETTINGS'', 2), (''EXPORT_SETTINGS'', 3),
      (''INFO'', 4), (''INIT_PARAMETERS'', 5), (''MOTION_PROFILE_ID'', 7),
      (''IMU_ALIGNMENT_LEVER_ARM'', 8), (''AIDING_ASSIGNMENT'', 9),
      (''MAGNETOMETER_MODEL_ID'', 11), (''MAGNETOMETER_REJECT_MODE'', 12),
      (''SET_MAG_CALIB'', 13), (''START_MAG_CALIB'', 14), (''COMPUTE_MAG_CALIB'', 15),
      (''GNSS_1_MODEL_ID'', 17), (''GNSS_1_LEVER_ARM_ALIGNMENT'', 18),
      (''GNSS_1_REJECT_MODES'', 19), (''ODO_CONF'', 20), (''ODO_LEVER_ARM'', 21),
      (''ODO_REJECT_MODE'', 22), (''UART_CONF'', 23), (''CAN_BUS_CONF'', 24),
      (''CAN_OUTPUT_CONF'', 25), (''SYNC_IN_CONF'', 26), (''SYNC_OUT_CONF'', 27),
      (''NMEA_TALKER_ID'', 29), (''OUTPUT_CONF'', 30), (''ADVANCED_CONF'', 32),
      (''FEATURES'', 33), (''LICENSE_APPLY'', 34), (''OUTPUT_CLASS_ENABLE'', 35),
      (''ETHERNET_CONF'', 36), (''ETHERNET_INFO'', 37), (''VALIDITY_THRESHOLDS'', 38),
      (''DVL_MODEL_ID'', 39), (''DVL_INSTALLATION'', 40), (''DVL_REJECT_MODES'', 41),
      (''AIRDATA_MODEL_ID'', 42), (''AIRDATA_LEVER_ARM'', 43), (''AIRDATA_REJECT_MODES'', 44),
      (''ODO_CAN_CONF'', 45), (''GNSS_1_INSTALLATION'', 46), (''API_POST'', 47),
      (''API_GET'', 48)]"

definition sbg_class_of :: "string \<Rightarrow> int option" where
  "sbg_class_of = py_dict SBG_CLASS"

definition LOG_NAME :: "int \<Rightarrow> string option" where
  "LOG_NAME = py_dict (map (\<lambda>(k, v). (v, k)) SBG_LOG)"

definition CMD_NAME :: "int \<Rightarrow> string option" where
  "CMD_NAME = py_dict (map (\<lambda>(k, v). (v, k)) SBG_CMD)"

definition WIRE_CLASSES :: "int list" where
  "WIRE_CLASSES = map snd (filter (\<lambda>(k, v). k \<noteq> ''LOG_ALL'') SBG_CLASS)"

definition SBG_SYNC :: bytes where "SBG_SYNC = [0xFF, 0x5A]"
definition SBG_ETX :: byte where "SBG_ETX = 0x33"
definition SBG_MAX_PAYLOAD :: nat where "SBG_MAX_PAYLOAD = 4086"

text \<open>\<open>encode\<close>; \<open>bytes([a, b])\<close> raises for a value outside 0..255.\<close>

definition sbg_encode :: "int \<Rightarrow> int \<Rightarrow> bytes \<Rightarrow> py_error + bytes" where
  "sbg_encode msg_class msg_id pl =
     (if length pl > SBG_MAX_PAYLOAD then Inl ValueError
      else if msg_class AND 0x80 \<noteq> 0 then Inl ValueError
      else if \<not> (0 \<le> msg_id \<and> msg_id < 256 \<and> 0 \<le> msg_class \<and> msg_class < 256) then Inl ValueError
      else
        let body = [word_of_int msg_id, word_of_int msg_class] @ pack_u16 (int (length pl)) @ pl
        in Inr (SBG_SYNC @ body @ pack_u16 (crc16_kermit body) @ [SBG_ETX]))"

definition name_for :: "bytes \<Rightarrow> py_error + string" where
  "name_for raw =
     (case byte_at raw 2 of
        Inl e \<Rightarrow> Inl e
      | Inr msg_id \<Rightarrow>
          (case byte_at raw 3 of
             Inl e \<Rightarrow> Inl e
           | Inr msg_class \<Rightarrow>
               if Some (uint msg_class) = sbg_class_of ''LOG_ECOM_0'' \<and> LOG_NAME (uint msg_id) \<noteq> None
               then Inr (the (LOG_NAME (uint msg_id)))
               else if Some (uint msg_class) = sbg_class_of ''CMD_0''
               then Inr (''CMD-'' @ (case CMD_NAME (uint msg_id) of Some n \<Rightarrow> n | None \<Rightarrow> hex2 msg_id))
               else Inr (''SBG-'' @ hex2 msg_class @ ''-'' @ hex2 msg_id)))"

section \<open>The framer\<close>

record sbg_stats =
  ss_frames :: nat
  ss_crc_failed :: nat
  ss_resyncs :: nat
  ss_extended_dropped :: nat
  ss_bytes_skipped :: nat

record sbg_framer =
  sb_buf :: bytes
  sb_stats :: sbg_stats

definition sbg_init :: sbg_framer where
  "sbg_init = \<lparr>sb_buf = [], sb_stats = \<lparr>ss_frames = 0, ss_crc_failed = 0, ss_resyncs = 0,
     ss_extended_dropped = 0, ss_bytes_skipped = 0\<rparr>\<rparr>"

definition sbg_discard :: "nat \<Rightarrow> sbg_framer \<Rightarrow> sbg_framer" where
  "sbg_discard n s = s\<lparr>sb_buf := drop n (sb_buf s),
     sb_stats := (sb_stats s)\<lparr>ss_bytes_skipped := ss_bytes_skipped (sb_stats s) + n\<rparr>\<rparr>"

definition sbg_skip_one :: "sbg_framer \<Rightarrow> sbg_framer" where
  "sbg_skip_one s = s\<lparr>sb_buf := drop 1 (sb_buf s),
     sb_stats := (sb_stats s)\<lparr>ss_resyncs := ss_resyncs (sb_stats s) + 1,
                              ss_bytes_skipped := ss_bytes_skipped (sb_stats s) + 1\<rparr>\<rparr>"

definition sbg_crc_failed :: "sbg_framer \<Rightarrow> sbg_framer" where
  "sbg_crc_failed s =
     s\<lparr>sb_stats := (sb_stats s)\<lparr>ss_crc_failed := ss_crc_failed (sb_stats s) + 1\<rparr>\<rparr>"

text \<open>What the header and trailer at the front of the buffer, which starts with the sync pair, say.\<close>

definition sbg_front :: "bytes \<Rightarrow> verdict" where
  "sbg_front b =
     (if length b < 6 then Wait
      else
        let len = nat (u16_at b 4) in
        if len > SBG_MAX_PAYLOAD \<or> uint (b ! 3) AND NOT 0x80 \<notin> set WIRE_CLASSES then Reject
        else
          let total = 6 + len + 3 in
          if length b < total then Wait
          else
            let crc = u16_at b (6 + len) in
            if b ! (total - 1) \<noteq> SBG_ETX \<or> crc \<noteq> crc16_kermit (py_slice 2 (6 + len) b) then BadSum
            else Accept total)"

text \<open>A complete frame leaves the buffer; an extended one is counted and not returned.\<close>

definition sbg_release :: "real \<times> real \<Rightarrow> nat \<Rightarrow> sbg_framer \<Rightarrow> sbg_framer \<times> frame list" where
  "sbg_release clk n s =
     (let raw = take n (sb_buf s); s1 = s\<lparr>sb_buf := drop n (sb_buf s)\<rparr>; st = sb_stats s in
      if raw ! 3 AND 0x80 \<noteq> 0
      then (s1\<lparr>sb_stats := st\<lparr>ss_extended_dropped := ss_extended_dropped st + 1\<rparr>\<rparr>, [])
      else (s1\<lparr>sb_stats := st\<lparr>ss_frames := ss_frames st + 1\<rparr>\<rparr>,
            [\<lparr>fr_proto = SBG, fr_raw = raw, fr_t_mono = fst clk, fr_t_host = snd clk\<rparr>]))"

text \<open>One iteration of the loop of \<open>feed\<close>; the flag is false where the loop breaks.\<close>

definition sbg_step :: "real \<times> real \<Rightarrow> sbg_framer \<Rightarrow> sbg_framer \<times> frame list \<times> bool" where
  "sbg_step clk s =
     (let buf = sb_buf s in
      case find_sub SBG_SYNC buf of
        None \<Rightarrow>
          let keep = (if last buf = SBG_SYNC ! 0 then 1 else 0)
          in (sbg_discard (length buf - keep) s, [], False)
      | Some start \<Rightarrow>
          let s1 = (if start \<noteq> 0 then sbg_discard start s else s) in
          (case sbg_front (sb_buf s1) of
             Wait \<Rightarrow> (s1, [], False)
           | Accept n \<Rightarrow> (case sbg_release clk n s1 of (s2, fs) \<Rightarrow> (s2, fs, True))
           | BadSum \<Rightarrow> (sbg_skip_one (sbg_crc_failed s1), [], True)
           | _ \<Rightarrow> (sbg_skip_one s1, [], True)))"

section \<open>What an accepted frame looks like\<close>

text \<open>A complete frame on the wire, extended or not, and the standard frames that are returned.\<close>

definition sbg_on_wire :: "bytes \<Rightarrow> bool" where
  "sbg_on_wire r \<longleftrightarrow> 9 \<le> length r \<and> take 2 r = SBG_SYNC \<and> length r = 9 + nat (u16_at r 4) \<and>
     length r \<le> 9 + SBG_MAX_PAYLOAD \<and> uint (r ! 3) AND NOT 0x80 \<in> set WIRE_CLASSES \<and>
     r ! (length r - 1) = SBG_ETX \<and>
     u16_at r (length r - 3) = crc16_kermit (py_slice 2 (length r - 3) r)"

definition valid_sbg :: "proto \<times> bytes \<Rightarrow> bool" where
  "valid_sbg v \<longleftrightarrow> fst v = SBG \<and> sbg_on_wire (snd v) \<and> snd v ! 3 AND 0x80 = 0"

lemma sbg_front_Accept:
  assumes "sbg_front b = Accept n" "take 2 b = SBG_SYNC"
  shows "9 \<le> n \<and> n \<le> length b \<and> sbg_on_wire (take n b)"
proof -
  define len where "len = nat (u16_at b 4)"
  have n: "n = 9 + len" "n \<le> length b" and h: "len \<le> SBG_MAX_PAYLOAD"
      "uint (b ! 3) AND NOT 0x80 \<in> set WIRE_CLASSES"
    and tr: "b ! (n - 1) = SBG_ETX" "u16_at b (n - 3) = crc16_kermit (py_slice 2 (n - 3) b)"
    using assms(1) by (auto simp: sbg_front_def Let_def len_def split: if_splits)
  define r where "r = take n b"
  have r: "length r = n" using n by (simp add: r_def)
  have idx: "r ! i = b ! i" if "i < n" for i using that by (simp add: r_def)
  have u: "u16_at r 4 = u16_at b 4" "u16_at r (6 + nat (u16_at b 4)) = u16_at b (6 + nat (u16_at b 4))"
    using n idx by (auto simp: u16_at_def len_def)
  have "take 2 r = take 2 b" using n by (simp add: r_def min_def)
  moreover have "py_slice 2 (n - 3) r = py_slice 2 (n - 3) b"
    by (auto simp: r_def py_slice_def drop_take min_def)
  ultimately have "sbg_on_wire r"
    using n h tr assms(2) by (simp add: sbg_on_wire_def r u idx len_def)
  then show ?thesis using n by (simp add: r_def)
qed

lemma sbg_front_valid:
  assumes "sbg_on_wire r"
  shows "sbg_front (r @ d) = Accept (length r)"
proof -
  let ?n = "length r"
  have r: "9 \<le> ?n" "?n = 9 + nat (u16_at r 4)" "?n \<le> 9 + SBG_MAX_PAYLOAD"
    "uint (r ! 3) AND NOT 0x80 \<in> set WIRE_CLASSES" "r ! (?n - 1) = SBG_ETX"
    "u16_at r (?n - 3) = crc16_kermit (py_slice 2 (?n - 3) r)"
    using assms unfolding sbg_on_wire_def by blast+
  have u: "u16_at (r @ d) 4 = u16_at r 4" "u16_at (r @ d) (?n - 3) = u16_at r (?n - 3)"
    using r(1) by (auto simp: u16_at_def nth_append)
  have n: "6 + nat (u16_at r 4) + 3 = ?n" "6 + nat (u16_at r 4) = ?n - 3" using r(2) by simp_all
  have at: "(r @ d) ! 3 = r ! 3" "(r @ d) ! (?n - 1) = r ! (?n - 1)"
    using r(1) by (auto simp: nth_append)
  have sl: "py_slice 2 (?n - 3) (r @ d) = py_slice 2 (?n - 3) r"
    by (rule py_slice_append) simp
  have le: "nat (u16_at r 4) \<le> SBG_MAX_PAYLOAD" using r(2,3) by linarith
  show ?thesis
    unfolding sbg_front_def Let_def u(1) n(1) unfolding n(2) u(2) at sl
    using r le by simp
qed

lemma sbg_front_append:
  assumes "sbg_front b \<noteq> Wait"
  shows "sbg_front (b @ d) = sbg_front b"
proof -
  define len where "len = nat (u16_at b 4)"
  have b: "6 \<le> length b" using assms by (auto simp: sbg_front_def split: if_splits)
  have u: "nat (u16_at (b @ d) 4) = len" "(b @ d) ! 3 = b ! 3"
    using b by (auto simp: u16_at_def nth_append len_def)
  show ?thesis
  proof (cases "len > SBG_MAX_PAYLOAD \<or> uint (b ! 3) AND NOT 0x80 \<notin> set WIRE_CLASSES")
    case True
    then show ?thesis
      using b by (simp add: sbg_front_def Let_def u len_def [symmetric] del: One_nat_def)
  next
    case False
    then have le: "6 + len + 3 \<le> length b"
      using assms b by (auto simp: sbg_front_def Let_def len_def split: if_splits)
    then have at: "u16_at (b @ d) (6 + len) = u16_at b (6 + len)"
      "(b @ d) ! (6 + len + 3 - 1) = b ! (6 + len + 3 - 1)"
      "py_slice 2 (6 + len) (b @ d) = py_slice 2 (6 + len) b"
      by (auto simp: u16_at_def nth_append intro!: py_slice_append)
    show ?thesis
      unfolding sbg_front_def Let_def u len_def [symmetric] at using False le by simp
  qed
qed

lemma sbg_front_Wait: "sbg_front b = Wait \<Longrightarrow> length b \<le> 8 + SBG_MAX_PAYLOAD"
  by (auto simp: sbg_front_def Let_def SBG_MAX_PAYLOAD_def split: if_splits)

section \<open>One iteration\<close>

lemma sb_buf_simps [simp]:
  "sb_buf (sbg_discard n s) = drop n (sb_buf s)" "sb_buf (sbg_skip_one s) = drop 1 (sb_buf s)"
  "sb_buf (sbg_crc_failed s) = sb_buf s"
  by (simp_all add: sbg_discard_def sbg_skip_one_def sbg_crc_failed_def)

lemma sbg_discard_0 [simp]: "sbg_discard 0 s = s"
  by (simp add: sbg_discard_def)

lemma sbg_discard_discard: "sbg_discard m (sbg_discard n s) = sbg_discard (n + m) s"
  by (cases s) (simp add: sbg_discard_def add.commute)

lemma sbg_release_buf: "sbg_release clk n s = (t, fs) \<Longrightarrow> sb_buf t = drop n (sb_buf s)"
  by (auto simp: sbg_release_def Let_def split: if_splits)

lemma sbg_step_found:
  assumes "find_sub SBG_SYNC (sb_buf s) = Some i"
  shows "sbg_step clk s =
     (case sbg_front (drop i (sb_buf s)) of
        Wait \<Rightarrow> (sbg_discard i s, [], False)
      | Accept n \<Rightarrow> (case sbg_release clk n (sbg_discard i s) of (s2, fs) \<Rightarrow> (s2, fs, True))
      | BadSum \<Rightarrow> (sbg_skip_one (sbg_crc_failed (sbg_discard i s)), [], True)
      | _ \<Rightarrow> (sbg_skip_one (sbg_discard i s), [], True))"
proof -
  have "(if i \<noteq> 0 then sbg_discard i s else s) = sbg_discard i s" by simp
  then show ?thesis unfolding sbg_step_def Let_def assms option.case by (simp only: sb_buf_simps)
qed

lemma sbg_step_cases:
  assumes "sbg_step clk s = (s', fs, go)" "sb_buf s \<noteq> []"
  obtains (NoSync) k where "find_sub SBG_SYNC (sb_buf s) = None" "fs = []" "\<not> go"
      "k = (if last (sb_buf s) = SBG_SYNC ! 0 then 1 else 0)"
      "s' = sbg_discard (length (sb_buf s) - k) s"
    | (Waits) i where "find_sub SBG_SYNC (sb_buf s) = Some i" "fs = []" "\<not> go"
      "s' = sbg_discard i s" "sbg_front (drop i (sb_buf s)) = Wait"
    | (Accepts) i n where "find_sub SBG_SYNC (sb_buf s) = Some i" "go"
      "sbg_front (drop i (sb_buf s)) = Accept n" "sbg_release clk n (sbg_discard i s) = (s', fs)"
    | (Rejects) i t where "find_sub SBG_SYNC (sb_buf s) = Some i" "fs = []" "go"
      "sbg_front (drop i (sb_buf s)) \<notin> {Wait} \<union> range Accept" "s' = sbg_skip_one t"
      "t = (if sbg_front (drop i (sb_buf s)) = BadSum then sbg_crc_failed (sbg_discard i s)
            else sbg_discard i s)"
proof (cases "find_sub SBG_SYNC (sb_buf s)")
  case None
  then show ?thesis
    using assms(1) by (intro that(1)) (auto simp: sbg_step_def Let_def split: if_splits)
next
  case (Some i)
  note step = sbg_step_found [OF Some, of clk]
  show ?thesis
  proof (cases "sbg_front (drop i (sb_buf s))")
    case Wait
    with assms(1) step Some show ?thesis by (intro that(2)) auto
  next
    case (Accept n)
    with assms(1) step Some show ?thesis by (intro that(3)) (auto split: prod.splits)
  next
    case BadSum
    with assms(1) step Some show ?thesis by (intro that(4)) auto
  next
    case Reject
    with assms(1) step Some show ?thesis by (intro that(4)) auto
  next
    case BadHeader
    with assms(1) step Some show ?thesis by (intro that(4)) auto
  qed
qed

lemma sbg_sync_at:
  assumes "find_sub SBG_SYNC b = Some i"
  shows "take 2 (drop i b) = SBG_SYNC \<and> i + 2 \<le> length b"
  using find_sub_Some_take [OF assms] find_sub_Some_bound [OF assms]
  by (simp add: SBG_SYNC_def numeral_2_eq_2)

lemma sbg_step_progress:
  assumes "sb_buf s \<noteq> []" "sbg_step clk s = (s', fs, True)"
  shows "length (sb_buf s') < length (sb_buf s)"
  using assms(2,1)
proof (cases rule: sbg_step_cases)
  case (Accepts i n)
  then show ?thesis
    using sbg_sync_at [OF Accepts(1)] sbg_front_Accept [OF Accepts(3)] sbg_release_buf [OF Accepts(4)]
    by auto
next
  case (Rejects i t)
  then show ?thesis using sbg_sync_at [OF Rejects(1)] by auto
qed simp_all

section \<open>The loop and \<open>feed\<close>\<close>

function sbg_loop :: "real \<times> real \<Rightarrow> sbg_framer \<Rightarrow> sbg_framer \<times> frame list" where
  "sbg_loop clk s =
     (if sb_buf s = [] then (s, [])
      else (case sbg_step clk s of
              (s', fs, go) \<Rightarrow>
                if go then (case sbg_loop clk s' of (t, gs) \<Rightarrow> (t, fs @ gs)) else (s', fs)))"
  by pat_completeness auto
termination
  by (relation "measure (\<lambda>(clk, s). length (sb_buf s))") (auto intro: sbg_step_progress [OF _ sym])

declare sbg_loop.simps [simp del]

definition sbg_push :: "sbg_framer \<Rightarrow> bytes \<Rightarrow> sbg_framer" where
  "sbg_push s data = s\<lparr>sb_buf := sb_buf s @ data\<rparr>"

definition sbg_feed :: "real \<times> real \<Rightarrow> sbg_framer \<Rightarrow> bytes \<Rightarrow> sbg_framer \<times> frame list" where
  "sbg_feed clk s data = sbg_loop clk (sbg_push s data)"

section \<open>More bytes resume the scan\<close>

lemma sb_buf_push [simp]: "sb_buf (sbg_push s d) = sb_buf s @ d"
  by (simp add: sbg_push_def)

lemma sbg_push_discard:
  "n \<le> length (sb_buf s) \<Longrightarrow> sbg_push (sbg_discard n s) d = sbg_discard n (sbg_push s d)"
  by (cases s) (simp add: sbg_push_def sbg_discard_def)

lemma sbg_push_skip:
  "sb_buf s \<noteq> [] \<Longrightarrow> sbg_push (sbg_skip_one s) d = sbg_skip_one (sbg_push s d)"
  by (cases "sb_buf s"; cases s) (simp_all add: sbg_push_def sbg_skip_one_def)

lemma sbg_push_crc: "sbg_push (sbg_crc_failed s) d = sbg_crc_failed (sbg_push s d)"
  by (cases s) (simp add: sbg_push_def sbg_crc_failed_def)

lemma sbg_release_push:
  assumes "n \<le> length (sb_buf s)" "sbg_release clk n s = (t, fs)"
  shows "sbg_release clk n (sbg_push s d) = (sbg_push t d, fs)"
  using assms by (cases s) (auto simp: sbg_release_def Let_def sbg_push_def)

text \<open>The part of the buffer before the sync pair does not matter but for the counter.\<close>

lemma sbg_step_skip:
  assumes "drop k (sb_buf s) \<noteq> []"
    and "find_sub SBG_SYNC (sb_buf s) = map_option ((+) k) (find_sub SBG_SYNC (drop k (sb_buf s)))"
  shows "sbg_step clk (sbg_discard k s) = sbg_step clk s"
proof (cases "find_sub SBG_SYNC (drop k (sb_buf s))")
  case None
  have k: "k < length (sb_buf s)" using assms(1) by simp
  then have l: "last (drop k (sb_buf s)) = last (sb_buf s)" by simp
  have "k + (length (sb_buf s) - k - c) = length (sb_buf s) - c" if "c \<le> 1" for c
    using k that by simp
  then show ?thesis
    using None assms(2) l k by (simp add: sbg_step_def Let_def sbg_discard_discard)
next
  case (Some i)
  have "find_sub SBG_SYNC (sb_buf (sbg_discard k s)) = Some i" using Some by simp
  moreover have "find_sub SBG_SYNC (sb_buf s) = Some (k + i)" using Some assms(2) by simp
  ultimately show ?thesis
    by (simp only: sbg_step_found sbg_discard_discard sb_buf_simps drop_drop add.commute [of i k])
qed

lemma sbg_loop_skip:
  assumes "drop k (sb_buf s) \<noteq> []"
    and "find_sub SBG_SYNC (sb_buf s) = map_option ((+) k) (find_sub SBG_SYNC (drop k (sb_buf s)))"
  shows "sbg_loop clk (sbg_discard k s) = sbg_loop clk s"
proof -
  have "sb_buf s \<noteq> []" using assms(1) by auto
  then show ?thesis
    by (subst (1 2) sbg_loop.simps) (simp only: sb_buf_simps assms(1) sbg_step_skip [OF assms] if_False)
qed

lemma map_option_Suc_plus: "map_option Suc (map_option ((+) n) m) = map_option ((+) (Suc n)) m"
  by (cases m) simp_all

lemma find_sync_resume:
  assumes "b \<noteq> []" "find_sub SBG_SYNC b = None"
    and "k = length b - (if last b = SBG_SYNC ! 0 then 1 else 0)"
  shows "find_sub SBG_SYNC (b @ d) = map_option ((+) k) (find_sub SBG_SYNC (drop k (b @ d)))"
  using assms
proof (induction b arbitrary: k rule: list_nonempty_induct)
  case (single x)
  have "map_option (\<lambda>a. a) m = m" "map_option ((+) (Suc 0)) m = map_option Suc m"
    for m :: "nat option" by (cases m; simp)+
  then show ?case using single by (auto simp: SBG_SYNC_def)
next
  case (cons x xs)
  let ?k = "length xs - (if last xs = SBG_SYNC ! 0 then 1 else 0)"
  have no: "take 2 (x # xs) \<noteq> SBG_SYNC" "find_sub SBG_SYNC xs = None"
    using cons.prems(1) by (auto simp: SBG_SYNC_def split: if_splits)
  have two: "length SBG_SYNC = 2" by (simp add: SBG_SYNC_def)
  have "take 2 (x # xs @ d) \<noteq> SBG_SYNC" using no(1) cons.hyps by (cases xs) auto
  then have "find_sub SBG_SYNC ((x # xs) @ d) = map_option Suc (find_sub SBG_SYNC (xs @ d))"
    using two by simp
  also have "\<dots> = map_option Suc (map_option ((+) ?k) (find_sub SBG_SYNC (drop ?k (xs @ d))))"
    using cons.IH [OF no(2) refl] by simp
  also have "\<dots> = map_option ((+) (Suc ?k)) (find_sub SBG_SYNC (drop (Suc ?k) ((x # xs) @ d)))"
    by (simp only: map_option_Suc_plus append_Cons drop_Suc_Cons)
  also have "Suc ?k = k" using cons.prems(2) cons.hyps by (cases xs) auto
  finally show ?case .
qed

lemma find_sub_drop:
  "find_sub p xs = Some i \<Longrightarrow> find_sub p (drop i xs) = Some 0"
  by (induction xs arbitrary: i) (auto split: if_splits)

lemma sbg_resume_go:
  assumes "sb_buf s \<noteq> []" "sbg_step clk s = (s', fs, True)"
  shows "sbg_step clk (sbg_push s d) = (sbg_push s' d, fs, True)"
proof -
  from assms(2,1) show ?thesis
  proof (cases rule: sbg_step_cases)
    case (Accepts i n)
    have f: "find_sub SBG_SYNC (sb_buf (sbg_push s d)) = Some i"
      using find_sub_append_Some [OF Accepts(1)] by simp
    have i: "take 2 (drop i (sb_buf s)) = SBG_SYNC" "i + 2 \<le> length (sb_buf s)"
      using sbg_sync_at [OF Accepts(1)] by auto
    have "n \<le> length (sb_buf (sbg_discard i s))"
      using sbg_front_Accept [OF Accepts(3) i(1)] by simp
    from sbg_release_push [OF this Accepts(4), of d]
    have "sbg_release clk n (sbg_discard i (sbg_push s d)) = (sbg_push s' d, fs)"
      using i(2) by (simp add: sbg_push_discard)
    moreover have "sbg_front (drop i (sb_buf (sbg_push s d))) = Accept n"
      using sbg_front_append [of "drop i (sb_buf s)" d] Accepts(3) i(2) by simp
    ultimately show ?thesis unfolding sbg_step_found [OF f] by simp
  next
    case (Rejects i t)
    have f: "find_sub SBG_SYNC (sb_buf (sbg_push s d)) = Some i"
      using find_sub_append_Some [OF Rejects(1)] by simp
    have i: "i + 2 \<le> length (sb_buf s)" using sbg_sync_at [OF Rejects(1)] by auto
    have v: "sbg_front (drop i (sb_buf (sbg_push s d))) = sbg_front (drop i (sb_buf s))"
      using sbg_front_append [of "drop i (sb_buf s)" d] Rejects(4) i by simp
    have "sb_buf (sbg_discard i s) \<noteq> []" using i by auto
    then show ?thesis
      unfolding sbg_step_found [OF f] v using Rejects i
      by (cases "sbg_front (drop i (sb_buf s))")
        (auto simp: sbg_push_skip sbg_push_crc sbg_push_discard)
  qed simp_all
qed

lemma sbg_resume_stop:
  assumes "sb_buf s \<noteq> []" "sbg_step clk s = (s', fs, False)"
  shows "fs = [] \<and> sbg_loop clk (sbg_push s d) = sbg_loop clk (sbg_push s' d)"
  using assms(2,1)
proof (cases rule: sbg_step_cases)
  case (NoSync k)
  let ?n = "length (sb_buf s) - k"
  have s': "sbg_push s' d = sbg_discard ?n (sbg_push s d)"
    using NoSync by (simp add: sbg_push_discard)
  show ?thesis
  proof (cases "drop ?n (sb_buf (sbg_push s d)) = []")
    case True
    then have "d = []" "length (sb_buf s) \<le> length (sb_buf s) - k" by simp_all
    moreover have "0 < length (sb_buf s)" using assms(1) by simp
    ultimately have d: "d = []" "k = 0" by linarith+
    then have e: "sbg_push s d = s" by (simp add: sbg_push_def)
    have "sbg_loop clk s = (s', [])"
      using assms NoSync by (subst sbg_loop.simps) simp
    moreover have "sbg_loop clk (sbg_push s' d) = (s', [])"
      using d NoSync(5) by (subst sbg_loop.simps) (simp add: sbg_push_def)
    ultimately show ?thesis using e NoSync by simp
  next
    case False
    have "find_sub SBG_SYNC (sb_buf (sbg_push s d)) =
        map_option ((+) ?n) (find_sub SBG_SYNC (drop ?n (sb_buf (sbg_push s d))))"
      using find_sync_resume [OF assms(1) NoSync(1), of ?n d] NoSync(4) by simp
    then show ?thesis using sbg_loop_skip [OF False] s' NoSync(2) by simp
  qed
next
  case (Waits i)
  have f: "find_sub SBG_SYNC (sb_buf (sbg_push s d)) = Some i"
    using find_sub_append_Some [OF Waits(1)] by simp
  have i: "i + 2 \<le> length (sb_buf s)" using sbg_sync_at [OF Waits(1)] by auto
  then have "drop i (sb_buf (sbg_push s d)) \<noteq> []" by simp
  moreover have "find_sub SBG_SYNC (sb_buf (sbg_push s d)) =
      map_option ((+) i) (find_sub SBG_SYNC (drop i (sb_buf (sbg_push s d))))"
    using f find_sub_drop [OF f] by simp
  ultimately show ?thesis
    using sbg_loop_skip Waits i by (simp add: sbg_push_discard)
qed simp_all

section \<open>The contract\<close>

lemma sbg_step_clock:
  assumes "sbg_step c s = (s', fs, go)"
  shows "\<exists>fs'. sbg_step c' s = (s', fs', go) \<and> map frame_view fs' = map frame_view fs"
  using assms
  by (auto simp: sbg_step_def Let_def sbg_release_def frame_view_def
      split: option.splits verdict.splits if_splits prod.splits)

lemma sbg_release_cases:
  assumes "sbg_release clk n s = (t, fs)"
  shows "fs = [] \<or> (take n (sb_buf s) ! 3 AND 0x80 = 0 \<and> map frame_view fs = [(SBG, take n (sb_buf s))])"
  using assms by (auto simp: sbg_release_def Let_def frame_view_def split: if_splits)

lemma sbg_step_frames:
  assumes "sb_buf s \<noteq> []" "sbg_step c s = (s', fs, go)"
  shows "cuts (sb_buf s) (map (\<lambda>f. snd (frame_view f)) fs) (sb_buf s') \<and>
    (\<forall>f \<in> set fs. valid_sbg (frame_view f))"
  using assms(2,1)
proof (cases rule: sbg_step_cases)
  case (NoSync k)
  then show ?thesis
    using cuts_drop [of "sb_buf s" "length (sb_buf s) - k"] by (simp del: cuts.simps)
next
  case (Waits i)
  then show ?thesis using cuts_drop [of "sb_buf s" i] by (simp del: cuts.simps)
next
  case (Rejects i t)
  then have "sb_buf s' = drop (Suc i) (sb_buf s)" by simp
  then show ?thesis using Rejects cuts_drop [of "sb_buf s" "Suc i"] by (simp del: cuts.simps)
next
  case (Accepts i n)
  have r: "9 \<le> n" "n \<le> length (drop i (sb_buf s))" "sbg_on_wire (take n (drop i (sb_buf s)))"
    using sbg_front_Accept [OF Accepts(3)] sbg_sync_at [OF Accepts(1)] by auto
  have b: "sb_buf s' = drop n (drop i (sb_buf s))" using sbg_release_buf [OF Accepts(4)] by simp
  have split: "sb_buf s = take i (sb_buf s) @ take n (drop i (sb_buf s)) @ drop n (drop i (sb_buf s))"
    by (simp del: drop_drop)
  have "fs = [] \<or> (take n (drop i (sb_buf s)) ! 3 AND 0x80 = 0 \<and>
      map frame_view fs = [(SBG, take n (drop i (sb_buf s)))])"
    using sbg_release_cases [OF Accepts(4)] by simp
  then show ?thesis
  proof
    assume "fs = []"
    then show ?thesis using b cuts_drop [of "sb_buf s" "n + i"] by (simp del: cuts.simps)
  next
    assume h: "take n (drop i (sb_buf s)) ! 3 AND 0x80 = 0 \<and>
      map frame_view fs = [(SBG, take n (drop i (sb_buf s)))]"
    then obtain f where f: "fs = [f]" "frame_view f = (SBG, take n (drop i (sb_buf s)))" by auto
    have "cuts (sb_buf s) [take n (drop i (sb_buf s))] (sb_buf s')"
      unfolding cuts.simps b
      by (intro exI [of _ "take i (sb_buf s)"] exI [of _ "drop n (drop i (sb_buf s))"]
          conjI split exI [of _ "[]"]) simp
    then show ?thesis using f h r(3) by (simp add: valid_sbg_def)
  qed
qed

lemma sbg_step_complete:
  assumes "valid_sbg v" "sb_buf s = snd v @ d"
  shows "\<exists>s' f. sbg_step c s = (s', [f], True) \<and> frame_view f = v \<and> sb_buf s' = d"
proof -
  let ?r = "snd v"
  have v: "sbg_on_wire ?r" "?r ! 3 AND 0x80 = 0" "fst v = SBG" using assms(1) by (simp_all add: valid_sbg_def)
  then have r: "9 \<le> length ?r" "take 2 ?r = SBG_SYNC" unfolding sbg_on_wire_def by blast+
  have "find_sub SBG_SYNC (sb_buf s) = Some 0"
  proof (cases "sb_buf s")
    case Nil
    then show ?thesis using assms(2) r by simp
  next
    case (Cons x xs)
    have "take 2 (x # xs) = SBG_SYNC" using Cons assms(2) r by (simp flip: Cons)
    moreover have "length SBG_SYNC = 2" by (simp add: SBG_SYNC_def)
    ultimately show ?thesis using Cons by simp
  qed
  then have "sbg_step c s = (case sbg_release c (length ?r) s of (s2, fs) \<Rightarrow> (s2, fs, True))"
    using sbg_front_valid [OF v(1), of d] assms(2) by (simp add: sbg_step_found)
  moreover have "snd (sbg_release c (length ?r) s) =
      [\<lparr>fr_proto = SBG, fr_raw = ?r, fr_t_mono = fst c, fr_t_host = snd c\<rparr>]"
    "sb_buf (fst (sbg_release c (length ?r) s)) = d"
    using v(2) assms(2) by (simp_all add: sbg_release_def Let_def)
  ultimately show ?thesis
    using v(3) by (auto simp: frame_view_def split: prod.splits intro: prod_eqI)
qed

interpretation sbg: scanner sb_buf sbg_push sbg_step sbg_loop sbg_feed frame_view snd valid_sbg
  "\<lambda>_ _. True"
proof
  fix c c' :: "real \<times> real" and s s' :: sbg_framer and fs :: "frame list" and go :: bool
    and a b d :: bytes and v :: "proto \<times> bytes"
  show "sbg_loop c s = (if sb_buf s = [] then (s, [])
       else (case sbg_step c s of (s', fs, go) \<Rightarrow>
               if go then (case sbg_loop c s' of (t, gs) \<Rightarrow> (t, fs @ gs)) else (s', fs)))"
    by (subst sbg_loop.simps) simp
  show "\<exists>fs'. sbg_step c' s = (s', fs', go) \<and> map frame_view fs' = map frame_view fs"
    if "sbg_step c s = (s', fs, go)"
    using that by (rule sbg_step_clock)
  show "length (sb_buf s') < length (sb_buf s)"
    if "sb_buf s \<noteq> []" "sbg_step c s = (s', fs, True)"
    using that by (rule sbg_step_progress)
  show "cuts (sb_buf s) (map (\<lambda>f. snd (frame_view f)) fs) (sb_buf s')"
    if "sb_buf s \<noteq> []" "sbg_step c s = (s', fs, go)"
    using sbg_step_frames [OF that] by blast
  show "valid_sbg (frame_view f)"
    if "sb_buf s \<noteq> []" "sbg_step c s = (s', fs, go)" "f \<in> set fs" for f
    using sbg_step_frames [OF that(1,2)] that(3) by blast
  show "\<exists>s' f. sbg_step c s = (s', [f], True) \<and> frame_view f = v \<and> sb_buf s' = d"
    if "valid_sbg v" "sb_buf s = snd v @ d"
    using that by (rule sbg_step_complete)
  show "snd v \<noteq> []" if "valid_sbg v"
    using that by (auto simp: valid_sbg_def sbg_on_wire_def)
  show "sb_buf (sbg_push s d) = sb_buf s @ d" by simp
  show "sbg_push (sbg_push s a) b = sbg_push s (a @ b)" by (simp add: sbg_push_def)
  show "sbg_feed c s d = sbg_loop c (sbg_push s d)" by (simp add: sbg_feed_def)
  show "\<exists>t. sbg_feed c s d = sbg_loop c t \<and> (\<exists>g. sb_buf s @ d = g @ sb_buf t)"
    by (rule exI [of _ "sbg_push s d"]) (simp add: sbg_feed_def)
  show "apsnd (map frame_view) (sbg_loop c (sbg_push s d)) =
      (case sbg_loop c (sbg_push s' d) of (t, gs) \<Rightarrow> (t, map frame_view fs @ map frame_view gs))"
    if h: "sb_buf s \<noteq> []" "sbg_step c s = (s', fs, True)"
  proof -
    have "sbg_loop c (sbg_push s d) = (case sbg_loop c (sbg_push s' d) of (t, gs) \<Rightarrow> (t, fs @ gs))"
      using sbg_resume_go [OF h, of d] h(1) by (subst sbg_loop.simps) simp
    then show ?thesis by (simp split: prod.splits)
  qed
  show "fs = [] \<and> apsnd (map frame_view) (sbg_loop c (sbg_push s d)) =
      apsnd (map frame_view) (sbg_loop c (sbg_push s' d))"
    if "sb_buf s \<noteq> []" "sbg_step c s = (s', fs, False)"
    using sbg_resume_stop [OF that, of d] by simp
qed simp_all

interpretation sbg_cap: bounded_scanner sb_buf sbg_push sbg_step sbg_loop sbg_feed frame_view snd
  valid_sbg "\<lambda>_ _. True" "8 + SBG_MAX_PAYLOAD"
proof
  show "length (sb_buf s') \<le> 8 + SBG_MAX_PAYLOAD"
    if "sb_buf s \<noteq> []" "sbg_step c s = (s', fs, False)" for s c s' fs
    using that(2,1) by (cases rule: sbg_step_cases) (auto dest: sbg_front_Wait)
qed

section \<open>Encoded frames and names\<close>

lemma WIRE_CLASSES_eq: "WIRE_CLASSES = [0, 1, 2, 3, 4, 5, 16, 16]"
  by code_simp

lemma sbg_encode_valid:
  assumes "sbg_encode c i p = Inr r" "c \<in> set WIRE_CLASSES"
  shows "valid_sbg (SBG, r) \<and> py_slice 6 (length r - 3) r = p \<and>
    r ! 2 = word_of_int i \<and> r ! 3 = word_of_int c"
proof -
  let ?body = "[word_of_int i, word_of_int c] @ pack_u16 (int (length p)) @ p"
  have p: "length p \<le> 4086" and r: "r = SBG_SYNC @ ?body @ pack_u16 (crc16_kermit ?body) @ [SBG_ETX]"
    using assms(1) by (auto simp: sbg_encode_def Let_def SBG_MAX_PAYLOAD_def split: if_splits)
  have len: "length r = 9 + length p" by (simp add: r SBG_SYNC_def)
  have r': "r = [0xFF, 0x5A, word_of_int i, word_of_int c, pack_u16 (int (length p)) ! 0,
      pack_u16 (int (length p)) ! 1] @ p @ pack_u16 (crc16_kermit ?body) @ [SBG_ETX]"
    by (simp add: r SBG_SYNC_def pack_u16_def)
  have "u16_at r 4 = int (length p)"
    using p by (intro u16_at_pack) (simp_all add: r')
  moreover have "u16_at r (6 + length p) = crc16_kermit ?body"
    using crc16_kermit_range [of ?body]
    by (intro u16_at_pack) (simp_all add: r' nth_append)
  moreover have "py_slice 2 (6 + length p) r = ?body"
  proof -
    have "6 + length p - 2 = length ?body" by simp
    moreover have "drop 2 r = ?body @ pack_u16 (crc16_kermit ?body) @ [SBG_ETX]"
      by (simp add: r SBG_SYNC_def)
    ultimately show ?thesis unfolding py_slice_def by (metis append_eq_conv_conj)
  qed
  moreover have "py_slice 6 (6 + length p) r = p" by (simp add: r' py_slice_def)
  moreover have "r ! (8 + length p) = SBG_ETX" by (simp add: r' nth_append)
  moreover have "uint (r ! 3) AND NOT 0x80 \<in> set WIRE_CLASSES \<and> r ! 3 AND 0x80 = 0"
    using assms(2) unfolding WIRE_CLASSES_eq r' by auto
  moreover have "take 2 r = SBG_SYNC" "r ! 2 = word_of_int i" "r ! 3 = word_of_int c"
    by (simp_all add: r' SBG_SYNC_def)
  ultimately show ?thesis
    using p len by (simp add: valid_sbg_def sbg_on_wire_def SBG_MAX_PAYLOAD_def)
qed

lemma hex2_inject: "hex2 a = hex2 b \<Longrightarrow> a = b"
proof -
  assume "hex2 a = hex2 b"
  moreover have "inj char_of_byte"
  proof (rule injI)
    fix x y :: byte
    assume "char_of_byte x = char_of_byte y"
    moreover have "unat x < 256" "unat y < 256" using unsigned_less [of x, where ?'a = nat]
      unsigned_less [of y, where ?'a = nat] by simp_all
    ultimately have "unat x = unat y"
      by (metis char_of_byte_def mod_less of_char_of)
    then show "x = y" by (simp add: word_unat_eq_iff)
  qed
  ultimately have "hex_fixed 2 (uint a) = hex_fixed 2 (uint b)"
    by (simp add: hex2_def decode_latin1_def inj_map_eq_map)
  moreover have "py_int16 (hex_fixed 2 (uint x)) = Some (uint x)" for x :: byte
    by (rule py_int16_hex_fixed) simp_all
  ultimately show "a = b" by (metis option.inject word_uint_eq_iff)
qed

lemma length_hex2 [simp]: "length (hex2 b) = 2"
  by (simp add: hex2_def decode_latin1_def)

lemma py_dict_inverse:
  assumes "py_dict (map (\<lambda>(k, v). (v, k)) kvs) x = Some n" "distinct (map fst kvs)"
    and "py_dict (map (\<lambda>(k, v). (v, k)) kvs) y = Some n"
  shows "x = y"
proof -
  have "(n, x) \<in> set kvs" "(n, y) \<in> set kvs"
    using assms(1,3) by (auto simp: py_dict_def dest!: map_of_SomeD)
  then show ?thesis using assms(2) by (rule eq_key_imp_eq_value [rotated])
qed

lemma py_dict_mem: "py_dict (map (\<lambda>(k, v). (v, k)) kvs) x = Some n \<Longrightarrow> (n, x) \<in> set kvs"
  by (auto simp: py_dict_def dest!: map_of_SomeD)

lemma sbg_names:
  "distinct (map fst SBG_LOG)" "distinct (map fst SBG_CMD)"
  "list_all (\<lambda>(k, v). take 4 k \<noteq> ''SBG-'' \<and> take 4 k \<noteq> ''CMD-'') SBG_LOG"
  "list_all (\<lambda>(k, v). length k \<noteq> 2) SBG_CMD"
  by code_simp+

lemma cmd_or_hex_inject:
  assumes "(case CMD_NAME (uint x) of Some n \<Rightarrow> n | None \<Rightarrow> hex2 x) =
    (case CMD_NAME (uint y) of Some n \<Rightarrow> n | None \<Rightarrow> hex2 y)"
  shows "x = y"
proof -
  have cmd: "m \<noteq> hex2 z" if "CMD_NAME i = Some m" for i m z
    using that py_dict_mem [of SBG_CMD i m] sbg_names(4) length_hex2 [of z]
    by (auto simp: CMD_NAME_def list_all_iff)
  show ?thesis
  proof (cases "CMD_NAME (uint x)"; cases "CMD_NAME (uint y)")
    fix m m'
    assume "CMD_NAME (uint x) = Some m" "CMD_NAME (uint y) = Some m'"
    then show ?thesis
      using assms py_dict_inverse [OF _ sbg_names(2)] by (auto simp: CMD_NAME_def word_uint_eq_iff)
  next
    assume "CMD_NAME (uint x) = None" "CMD_NAME (uint y) = None"
    then show ?thesis using assms hex2_inject by simp
  next
    fix m
    assume "CMD_NAME (uint x) = None" "CMD_NAME (uint y) = Some m"
    then show ?thesis using assms cmd by auto
  next
    fix m
    assume "CMD_NAME (uint x) = Some m" "CMD_NAME (uint y) = None"
    then show ?thesis using assms cmd by auto
  qed
qed

section \<open>Properties\<close>

text \<open>
  Feeding a stream to the SBG framer in any chunking gives the same frames, buffer and
  counters as feeding it whole.
\<close>

theorem sbg_chunking:
  assumes "length cs = length ds" "ds \<noteq> []"
  shows "feed_chunks sbg_feed frame_view cs s ds = apsnd (map frame_view) (sbg_feed c s (concat ds))"
  by (rule sbg.feed_all_concat) (use assms in simp_all)

lemma sbg_chunking_witness:
  "feed_chunks sbg_feed frame_view [(0, 0), (1, 1)] sbg_init
     [[0xFF, 0x5A, 1, 0, 2], [0, 9, 9, 0, 0, 0x33]] =
   apsnd (map frame_view)
     (sbg_feed (2, 2) sbg_init (concat [[0xFF, 0x5A, 1, 0, 2], [0, 9, 9, 0, 0, 0x33]]))"
  by (rule sbg_chunking) simp_all

text \<open>
  C3. Whatever bytes arrive, the frames the SBG framer returns are complete standard frames
  with a known class and a valid CRC, cut out of the stream in order and without overlap, and at
  most 4,094 bytes (one frame less its last byte) stay buffered, although there is no cap on
  the buffer in the code.
\<close>

theorem sbg_feed_sound_bounded:
  assumes "sbg_feed clk s d = (t, fs)"
  shows "list_all (\<lambda>f. valid_sbg (frame_view f)) fs \<and>
    cuts (sb_buf s @ d) (map fr_raw fs) (sb_buf t) \<and> length (sb_buf t) \<le> 4094"
  using sbg.feed_wf [OF assms] sbg.feed_in_order [OF assms] sbg_cap.feed_cap [OF assms]
  by (simp add: list_all_iff frame_view_def SBG_MAX_PAYLOAD_def)

lemma sbg_feed_sound_bounded_witness:
  "\<exists>t fs. sbg_feed (0, 0) sbg_init [1, 0xFF, 0x5A, 0] = (t, fs) \<and> length (sb_buf t) \<le> 4094"
proof -
  obtain t fs where t: "sbg_feed (0, 0) sbg_init [1, 0xFF, 0x5A, 0] = (t, fs)"
    by (cases "sbg_feed (0, 0) sbg_init [1, 0xFF, 0x5A, 0]")
  with sbg_feed_sound_bounded [OF t] show ?thesis by blast
qed

text \<open>
  What \<open>encode\<close> builds, for any classes of the wire, ids and payloads, the framer gives
  back: one frame per message, in order, each with its payload, id and class, and nothing left
  over.
\<close>

theorem sbg_encode_roundtrip:
  assumes "list_all2 (\<lambda>(c, i, p) r. c \<in> set WIRE_CLASSES \<and> sbg_encode c i p = Inr r) ms rs"
  shows "\<exists>t fs. sbg_feed clk sbg_init (concat rs) = (t, fs) \<and> sb_buf t = [] \<and> map fr_raw fs = rs \<and>
    list_all2 (\<lambda>(c, i, p) f. payload f = Inr p \<and> byte_at (fr_raw f) 2 = Inr (word_of_int i) \<and>
      byte_at (fr_raw f) 3 = Inr (word_of_int c)) ms fs"
proof -
  let ?vs = "map (Pair SBG) rs"
  have enc: "valid_sbg (SBG, r)" if r: "r \<in> set rs" for r
  proof -
    obtain k where k: "k < length rs" "rs ! k = r" using r by (auto simp: in_set_conv_nth)
    obtain c i p where m: "ms ! k = (c, i, p)" by (cases "ms ! k")
    show ?thesis using assms k m sbg_encode_valid [of c i p r] by (auto simp: list_all2_conv_all_nth)
  qed
  have "\<forall>v \<in> set ?vs. valid_sbg v" using enc by auto
  then obtain t fs where t: "sbg_feed clk sbg_init (concat (map snd ?vs)) = (t, fs)"
      "map frame_view fs = ?vs" "sb_buf t = []"
    using sbg.feed_stream [of ?vs sbg_init clk] by (auto simp: sbg_init_def)
  have raws: "map fr_raw fs = rs"
    using arg_cong [OF t(2), of "map snd"] by (simp add: frame_view_def comp_def)
  have len: "length ms = length rs" "length fs = length rs"
    using list_all2_lengthD [OF assms] arg_cong [OF raws, of length] by simp_all
  have "list_all2 (\<lambda>(c, i, p) f. payload f = Inr p \<and> byte_at (fr_raw f) 2 = Inr (word_of_int i) \<and>
      byte_at (fr_raw f) 3 = Inr (word_of_int c)) ms fs"
  proof (rule list_all2_all_nthI)
    show "length ms = length fs" using len by simp
  next
    fix k
    assume k: "k < length ms"
    obtain c i p where m: "ms ! k = (c, i, p)" by (cases "ms ! k")
    have e: "sbg_encode c i p = Inr (rs ! k)" "c \<in> set WIRE_CLASSES"
      using assms k m by (auto simp: list_all2_conv_all_nth)
    have f: "fr_raw (fs ! k) = rs ! k" "fr_proto (fs ! k) = SBG"
      using k len arg_cong [OF t(2), of "\<lambda>xs. xs ! k"] by (simp_all add: frame_view_def)
    have "valid_sbg (SBG, rs ! k)" using sbg_encode_valid [OF e] by blast
    then have "9 \<le> length (rs ! k)" "rs ! k ! 3 AND 0x80 = 0"
      by (auto simp: valid_sbg_def sbg_on_wire_def)
    then show "(case ms ! k of (c, i, p) \<Rightarrow> \<lambda>f. payload f = Inr p \<and>
        byte_at (fr_raw f) 2 = Inr (word_of_int i) \<and> byte_at (fr_raw f) 3 = Inr (word_of_int c)) (fs ! k)"
      using sbg_encode_valid [OF e] f by (simp add: m payload_def byte_at_def Let_def)
  qed
  then show ?thesis using t raws by (auto simp: comp_def)
qed

lemma sbg_encode_roundtrip_witness:
  "\<exists>t fs. sbg_feed (0, 0) sbg_init (concat [[255, 90, 8, 0, 2, 0, 1, 2, 228, 34, 51]]) = (t, fs) \<and>
    sb_buf t = [] \<and> map fr_raw fs = [[255, 90, 8, 0, 2, 0, 1, 2, 228, 34, 51]] \<and>
    list_all2 (\<lambda>(c, i, p) f. payload f = Inr p \<and> byte_at (fr_raw f) 2 = Inr (word_of_int i) \<and>
      byte_at (fr_raw f) 3 = Inr (word_of_int c)) [(0, 8, [1, 2])] fs"
  by (rule sbg_encode_roundtrip) code_simp

text \<open>
  \<open>name_for\<close> is a key: two SBG frames with the same name have the same class and id.
\<close>

theorem name_for_distinguishes:
  assumes "name_for a = Inr n" "name_for b = Inr n"
  shows "a ! 3 = b ! 3 \<and> a ! 2 = b ! 2"
proof -
  have cl: "sbg_class_of ''LOG_ECOM_0'' = Some 0" "sbg_class_of ''CMD_0'' = Some 16"
    by code_simp+
  have name: "(uint (r ! 3) = 0 \<and> LOG_NAME (uint (r ! 2)) = Some n) \<or>
      (uint (r ! 3) = 16 \<and> n = ''CMD-'' @ (case CMD_NAME (uint (r ! 2)) of Some n \<Rightarrow> n | None \<Rightarrow> hex2 (r ! 2))) \<or>
      (uint (r ! 3) \<noteq> 16 \<and> n = ''SBG-'' @ hex2 (r ! 3) @ ''-'' @ hex2 (r ! 2))"
    if "name_for r = Inr n" for r
    using that by (auto simp: name_for_def byte_at_def cl split: if_splits option.splits)
  have log: "take 4 n \<noteq> ''SBG-''" "take 4 n \<noteq> ''CMD-''" if "LOG_NAME i = Some n" for i
    using that py_dict_mem [of SBG_LOG i n] sbg_names(3) by (auto simp: LOG_NAME_def list_all_iff)
  have inj: "LOG_NAME i = Some m \<Longrightarrow> LOG_NAME j = Some m \<Longrightarrow> i = j" for i j m
    using py_dict_inverse sbg_names(1) by (auto simp: LOG_NAME_def)
  have cmds: "(case CMD_NAME (uint x) of Some n \<Rightarrow> n | None \<Rightarrow> hex2 x) =
      (case CMD_NAME (uint y) of Some n \<Rightarrow> n | None \<Rightarrow> hex2 y) \<Longrightarrow> x = y" for x y
    by (rule cmd_or_hex_inject)
  show ?thesis
    using name [OF assms(1)]
  proof (elim disjE)
    assume a: "uint (a ! 3) = 0 \<and> LOG_NAME (uint (a ! 2)) = Some n"
    then show ?thesis using name [OF assms(2)] log [of "uint (a ! 2)"] inj
      by (auto simp: word_uint_eq_iff)
  next
    assume a: "uint (a ! 3) = 16 \<and> n = ''CMD-'' @ (case CMD_NAME (uint (a ! 2)) of Some n \<Rightarrow> n | None \<Rightarrow> hex2 (a ! 2))"
    then have "n ! 0 = CHR ''C''" "take 4 n = ''CMD-''" by simp_all
    then show ?thesis using name [OF assms(2)] log(2) a cmds
      by (auto simp: word_uint_eq_iff)
  next
    assume a: "uint (a ! 3) \<noteq> 16 \<and> n = ''SBG-'' @ hex2 (a ! 3) @ ''-'' @ hex2 (a ! 2)"
    then have "n ! 0 = CHR ''S''" "take 4 n = ''SBG-''" by simp_all
    then show ?thesis using name [OF assms(2)] log(1) a
      by (auto dest!: hex2_inject)
  qed
qed

lemma name_for_distinguishes_witness:
  "([0, 0, 8, 0] :: bytes) ! 2 = ([0xFF, 0x5A, 8, 0] :: bytes) ! 2 \<and>
   name_for [0, 0, 8, 0] = Inr ''EKF_NAV''"
proof -
  have n: "name_for [0, 0, 8, 0] = Inr ''EKF_NAV''" "name_for [0xFF, 0x5A, 8, 0] = Inr ''EKF_NAV''"
    by code_simp+
  show ?thesis using name_for_distinguishes [OF n] n(1) by blast
qed

end
