(* ===== verification/VnFields.thy ===== *)
theory VnFields
  imports Prelude "HOL-Library.Sublist"
begin

text \<open>
  The layout of a VectorNav binary output frame, \<open>src/mtrtk/rover/drivers/vectornav/fields.py\<close>:
  the size table, \<open>_walk\<close> (headers of the selected groups, then their fields),
  \<open>binary_length\<close> and \<open>field_layout\<close>.

  The walk answers \<open>Inl ValueError\<close> for a header no unit sends, \<open>Inr None\<close> while the bytes
  present do not determine the length, and \<open>Inr (Some r)\<close> when they do.
\<close>

section \<open>Results of a walk over a prefix\<close>

type_synonym 'a scan = "py_error + 'a option"

definition scan_bind :: "'a scan \<Rightarrow> ('a \<Rightarrow> 'b scan) \<Rightarrow> 'b scan" where
  "scan_bind r f =
     (case r of Inl e \<Rightarrow> Inl e | Inr None \<Rightarrow> Inr None | Inr (Some x) \<Rightarrow> f x)"

text \<open>\<open>settles r r'\<close>: more bytes may turn "need more" into any answer, and change no other.\<close>

definition settles :: "'a scan \<Rightarrow> 'a scan \<Rightarrow> bool" where
  "settles r r' \<longleftrightarrow> r = Inr None \<or> r' = r"

lemma settles_refl [intro, simp]: "settles r r"
  by (simp add: settles_def)

lemma settles_None [intro, simp]: "settles (Inr None) r"
  by (simp add: settles_def)

lemma settles_bind:
  "settles r r' \<Longrightarrow> (\<And>x. settles (f x) (f' x)) \<Longrightarrow> settles (scan_bind r f) (scan_bind r' f')"
  by (auto simp: settles_def scan_bind_def split: sum.splits option.splits)

lemma scan_bind_Some:
  "scan_bind r f = Inr (Some y) \<longleftrightarrow> (\<exists>x. r = Inr (Some x) \<and> f x = Inr (Some y))"
  by (auto simp: scan_bind_def split: sum.splits option.splits)

lemma scan_bind_None:
  "scan_bind r f = Inr None \<longleftrightarrow> r = Inr None \<or> (\<exists>x. r = Inr (Some x) \<and> f x = Inr None)"
  by (auto simp: scan_bind_def split: sum.splits option.splits)

section \<open>The walk\<close>

definition GPS_GROUPS :: "nat list" where "GPS_GROUPS = [3, 6]"

definition FIELD_SIZES :: "nat list list" where
  "FIELD_SIZES =
     [[8, 8, 8, 12, 16, 12, 24, 12, 12, 24, 20, 28, 2, 4, 8],
      [8, 8, 8, 2, 8, 8, 8, 4, 4, 1, 0, 0, 0, 0, 0],
      [2, 12, 12, 12, 4, 4, 16, 12, 12, 12, 12, 2, 40, 0, 0],
      [8, 8, 2, 1, 1, 24, 24, 12, 12, 12, 4, 4, 2, 28, 2],
      [2, 12, 16, 36, 12, 12, 12, 12, 12, 12, 28, 24, 12, 0, 0],
      [2, 24, 24, 12, 12, 12, 12, 12, 12, 4, 4, 68, 64, 0, 0],
      [8, 8, 2, 1, 1, 24, 24, 12, 12, 12, 4, 4, 2, 28, 2]]"

definition EXT_FLAG :: int where "EXT_FLAG = 0x8000"
definition EXT_RAWMEAS :: int where "EXT_RAWMEAS = 1"
definition RAWMEAS_BIT :: nat where "RAWMEAS_BIT = 16"
definition SATINFO_BIT :: nat where "SATINFO_BIT = 14"
definition SATINFO_HEADER :: nat where "SATINFO_HEADER = 2"
definition SATINFO_RECORD :: nat where "SATINFO_RECORD = 8"
definition RAWMEAS_HEADER :: nat where "RAWMEAS_HEADER = 12"
definition RAWMEAS_RECORD :: nat where "RAWMEAS_RECORD = 28"
definition RAWMEAS_COUNT_OFFSET :: nat where "RAWMEAS_COUNT_OFFSET = 10"
definition MAX_SATS :: nat where "MAX_SATS = 64"
definition MAX_MEAS :: nat where "MAX_MEAS = 200"

text \<open>(group bit, field bit, offset in frame, size)\<close>

type_synonym layout = "(nat \<times> nat \<times> nat \<times> nat) list"

text \<open>The extension word of a group whose field word is \<open>fw\<close>, if it has one.\<close>

definition vn_ext :: "bytes \<Rightarrow> nat \<Rightarrow> int \<Rightarrow> nat \<Rightarrow> (int \<times> nat) scan" where
  "vn_ext buf g fw pos =
     (if fw AND EXT_FLAG \<noteq> 0 then
        (if g \<notin> set GPS_GROUPS then Inl ValueError
         else if length buf < pos + 2 then Inr None
         else let ext = u16_at buf pos in
           if ext AND NOT EXT_RAWMEAS \<noteq> 0 then Inl ValueError else Inr (Some (ext, pos + 2)))
      else Inr (Some (0, pos)))"

text \<open>The first loop: the field and extension words of the groups that the groups byte selects.\<close>

fun vn_headers ::
  "bytes \<Rightarrow> int \<Rightarrow> nat list \<Rightarrow> nat \<Rightarrow> ((nat \<times> int \<times> int) list \<times> nat) scan" where
  "vn_headers buf groups [] pos = Inr (Some ([], pos))"
| "vn_headers buf groups (g # gs) pos =
     (if groups AND push_bit g 1 = 0 then vn_headers buf groups gs pos
      else if length buf < pos + 2 then Inr None
      else
        let fw = u16_at buf pos; plain = fw AND NOT EXT_FLAG in
        scan_bind (vn_ext buf g fw (pos + 2)) (\<lambda>(ext, pos').
          if plain = 0 \<and> ext = 0 then Inl ValueError
          else scan_bind (vn_headers buf groups gs pos') (\<lambda>(hs, stop).
            Inr (Some ((g, plain, ext) # hs, stop)))))"

text \<open>The size of one field, where a satellite list gives its own count.\<close>

definition vn_size :: "bytes \<Rightarrow> nat \<Rightarrow> nat \<Rightarrow> nat \<Rightarrow> nat scan" where
  "vn_size buf g b pos =
     (let size = FIELD_SIZES ! g ! b in
      if size = 0 then Inl ValueError
      else if g \<in> set GPS_GROUPS \<and> b = SATINFO_BIT then
        (if length buf < pos + 1 then Inr None
         else let n = unat (buf ! pos) in
           if n > MAX_SATS then Inl ValueError
           else Inr (Some (SATINFO_HEADER + SATINFO_RECORD * n)))
      else Inr (Some size))"

fun vn_bits :: "bytes \<Rightarrow> nat \<Rightarrow> int \<Rightarrow> nat list \<Rightarrow> nat \<Rightarrow> (layout \<times> nat) scan" where
  "vn_bits buf g fw [] pos = Inr (Some ([], pos))"
| "vn_bits buf g fw (b # bs) pos =
     (if fw AND push_bit b 1 = 0 then vn_bits buf g fw bs pos
      else scan_bind (vn_size buf g b pos) (\<lambda>size.
        scan_bind (vn_bits buf g fw bs (pos + size)) (\<lambda>(l, stop).
          Inr (Some ((g, b, pos, size) # l, stop)))))"

definition vn_raw :: "bytes \<Rightarrow> nat \<Rightarrow> int \<Rightarrow> nat \<Rightarrow> (layout \<times> nat) scan" where
  "vn_raw buf g ext pos =
     (if ext AND EXT_RAWMEAS \<noteq> 0 then
        (if length buf < pos + RAWMEAS_COUNT_OFFSET + 1 then Inr None
         else let m = unat (buf ! (pos + RAWMEAS_COUNT_OFFSET)) in
           if m > MAX_MEAS then Inl ValueError
           else let size = RAWMEAS_HEADER + RAWMEAS_RECORD * m in
             Inr (Some ([(g, RAWMEAS_BIT, pos, size)], pos + size)))
      else Inr (Some ([], pos)))"

text \<open>The second loop.\<close>

fun vn_groups :: "bytes \<Rightarrow> (nat \<times> int \<times> int) list \<Rightarrow> nat \<Rightarrow> (layout \<times> nat) scan" where
  "vn_groups buf [] pos = Inr (Some ([], pos))"
| "vn_groups buf ((g, fw, ext) # hs) pos =
     scan_bind (vn_bits buf g fw [0..<15] pos) (\<lambda>(l1, p1).
       scan_bind (vn_raw buf g ext p1) (\<lambda>(l2, p2).
         scan_bind (vn_groups buf hs p2) (\<lambda>(l3, p3). Inr (Some (l1 @ l2 @ l3, p3)))))"

definition vn_walk :: "bytes \<Rightarrow> (layout \<times> nat) scan" where
  "vn_walk buf =
     (if length buf < 2 then Inr None
      else
        let groups = uint (buf ! 1) in
        if groups = 0 \<or> groups AND 0x80 \<noteq> 0 then Inl ValueError
        else scan_bind (vn_headers buf groups [0..<7] 2) (\<lambda>(hs, pos).
          scan_bind (vn_groups buf hs pos) (\<lambda>(l, stop). Inr (Some (l, stop + 2)))))"

definition binary_length :: "bytes \<Rightarrow> nat scan" where
  "binary_length buf = scan_bind (vn_walk buf) (\<lambda>(l, n). Inr (Some n))"

definition field_layout :: "bytes \<Rightarrow> py_error + layout" where
  "field_layout buf =
     (case vn_walk buf of
        Inl e \<Rightarrow> Inl e | Inr None \<Rightarrow> Inl ValueError | Inr (Some (l, n)) \<Rightarrow> Inr l)"

section \<open>More bytes settle the answer\<close>

lemma u16_at_append: "i + 1 < length buf \<Longrightarrow> u16_at (buf @ d) i = u16_at buf i"
  by (simp add: u16_at_def nth_append)

lemma vn_ext_settles: "settles (vn_ext buf g fw pos) (vn_ext (buf @ d) g fw pos)"
  by (auto simp: vn_ext_def Let_def u16_at_append)

lemma vn_size_settles: "settles (vn_size buf g b pos) (vn_size (buf @ d) g b pos)"
  by (auto simp: vn_size_def Let_def nth_append)

lemma vn_raw_settles: "settles (vn_raw buf g ext pos) (vn_raw (buf @ d) g ext pos)"
  by (auto simp: vn_raw_def Let_def nth_append)

lemma vn_headers_settles:
  "settles (vn_headers buf groups gs pos) (vn_headers (buf @ d) groups gs pos)"
proof (induction gs arbitrary: pos)
  case (Cons g gs)
  show ?case
  proof (cases "groups AND push_bit g 1 = 0 \<or> length buf < pos + 2")
    case True
    then show ?thesis using Cons by auto
  next
    case False
    then have "u16_at (buf @ d) pos = u16_at buf pos" by (simp add: u16_at_append)
    then show ?thesis
      using False by (auto simp: Let_def split: prod.splits
          intro!: settles_bind vn_ext_settles Cons)
  qed
qed simp

lemma vn_bits_settles:
  "settles (vn_bits buf g fw bs pos) (vn_bits (buf @ d) g fw bs pos)"
  by (induction bs arbitrary: pos) (auto split: prod.splits intro!: settles_bind vn_size_settles)

lemma vn_groups_settles: "settles (vn_groups buf hs pos) (vn_groups (buf @ d) hs pos)"
  by (induction buf hs pos rule: vn_groups.induct)
    (auto split: prod.splits intro!: settles_bind vn_bits_settles vn_raw_settles)

lemma vn_walk_settles: "settles (vn_walk buf) (vn_walk (buf @ d))"
proof (cases "length buf < 2")
  case False
  then have "(buf @ d) ! 1 = buf ! 1" by (simp add: nth_append)
  then show ?thesis
    using False by (auto simp: vn_walk_def Let_def split: prod.splits
        intro!: settles_bind vn_headers_settles vn_groups_settles)
qed (simp add: vn_walk_def)

lemma binary_length_settles: "settles (binary_length buf) (binary_length (buf @ d))"
  unfolding binary_length_def by (auto intro!: settles_bind vn_walk_settles split: prod.splits)

section \<open>Where a walk can stop\<close>

text \<open>
  \<open>bits_max g\<close> bounds the fields of a group without its RawMeas; a RawMeas takes at most 5,612
  bytes. The last GPS group's RawMeas is never behind an undecided position, which is why an
  undecided prefix is shorter than the largest frame the protocol allows.
\<close>

definition field_max :: "nat \<Rightarrow> nat \<Rightarrow> nat" where
  "field_max g b = (if g \<in> set GPS_GROUPS \<and> b = SATINFO_BIT then 514 else FIELD_SIZES ! g ! b)"

definition bits_max :: "nat \<Rightarrow> nat" where
  "bits_max g = sum_list (map (field_max g) [0..<15])"

definition raw_max :: nat where "raw_max = 5612"

definition gps :: "nat \<Rightarrow> nat" where "gps g = (if g \<in> set GPS_GROUPS then 1 else 0)"

lemma vn_ext_bounds:
  "vn_ext buf g fw pos = Inr (Some (ext, q)) \<Longrightarrow>
     pos \<le> q \<and> q \<le> pos + 2 \<and> (ext \<noteq> 0 \<longrightarrow> gps g = 1)"
  "vn_ext buf g fw pos = Inr None \<Longrightarrow> length buf < pos + 2"
  by (auto simp: vn_ext_def Let_def gps_def split: if_splits)

lemma vn_size_bounds:
  "vn_size buf g b pos = Inr (Some n) \<Longrightarrow> 0 < n \<and> n \<le> field_max g b"
  "vn_size buf g b pos = Inr None \<Longrightarrow> length buf < pos + 1 \<and> gps g = 1"
  by (auto simp: vn_size_def Let_def gps_def field_max_def MAX_SATS_def SATINFO_HEADER_def
      SATINFO_RECORD_def split: if_splits)

lemma vn_raw_bounds:
  "vn_raw buf g ext pos = Inr (Some (l, q)) \<Longrightarrow>
     pos \<le> q \<and> q \<le> pos + (if ext = 0 then 0 else raw_max)"
  "vn_raw buf g ext pos = Inr None \<Longrightarrow> length buf < pos + 11 \<and> ext \<noteq> 0"
  by (auto simp: vn_raw_def Let_def raw_max_def MAX_MEAS_def RAWMEAS_HEADER_def RAWMEAS_RECORD_def
      RAWMEAS_COUNT_OFFSET_def split: if_splits)

lemma vn_headers_Some:
  assumes "vn_headers buf groups gs pos = Inr (Some (hs, q))"
  shows "pos \<le> q \<and> q \<le> pos + 4 * length gs \<and> subseq (map fst hs) gs \<and>
    (\<forall>(g, fw, ext) \<in> set hs. ext \<noteq> 0 \<longrightarrow> gps g = 1)"
  using assms
proof (induction gs arbitrary: pos hs q)
  case (Cons g gs)
  show ?case
  proof (cases "groups AND push_bit g 1 = 0")
    case True
    with Cons.prems have "vn_headers buf groups gs pos = Inr (Some (hs, q))" by simp
    from Cons.IH [OF this] show ?thesis by (auto intro: list_emb_Cons)
  next
    case False
    with Cons.prems obtain ext pos' hs' where e: "vn_ext buf g (u16_at buf pos) (pos + 2) = Inr (Some (ext, pos'))"
      "vn_headers buf groups gs pos' = Inr (Some (hs', q))"
      "hs = (g, u16_at buf pos AND NOT EXT_FLAG, ext) # hs'"
      by (auto simp: Let_def scan_bind_Some split: if_splits prod.splits)
    from Cons.IH [OF e(2)] vn_ext_bounds(1) [OF e(1)] show ?thesis
      unfolding e(3) by auto
  qed
qed auto

lemma vn_headers_None:
  "vn_headers buf groups gs pos = Inr None \<Longrightarrow> length buf < pos + 4 * length gs"
proof (induction gs arbitrary: pos)
  case (Cons g gs)
  then show ?case
    by (fastforce simp: Let_def scan_bind_None split: if_splits prod.splits
        dest: vn_ext_bounds)
qed simp

lemma vn_bits_Some:
  assumes "vn_bits buf g fw bs pos = Inr (Some (l, q))"
  shows "pos \<le> q \<and> q \<le> pos + sum_list (map (field_max g) bs)"
  using assms
proof (induction bs arbitrary: pos l)
  case (Cons b bs)
  show ?case
  proof (cases "fw AND push_bit b 1 = 0")
    case True
    then show ?thesis using Cons by fastforce
  next
    case False
    then obtain n l' where "vn_size buf g b pos = Inr (Some n)"
      "vn_bits buf g fw bs (pos + n) = Inr (Some (l', q))"
      using Cons.prems by (auto simp: scan_bind_Some)
    then show ?thesis using Cons.IH [of "pos + n" l'] vn_size_bounds(1) [of buf g b pos n] by simp
  qed
qed simp

lemma vn_bits_None:
  assumes "vn_bits buf g fw bs pos = Inr None"
  shows "length buf < pos + sum_list (map (field_max g) bs) + 1 \<and> gps g = 1"
  using assms
proof (induction bs arbitrary: pos)
  case (Cons b bs)
  show ?case
  proof (cases "fw AND push_bit b 1 = 0")
    case True
    then show ?thesis using Cons by fastforce
  next
    case False
    then consider "vn_size buf g b pos = Inr None"
      | n where "vn_size buf g b pos = Inr (Some n)" "vn_bits buf g fw bs (pos + n) = Inr None"
      using Cons.prems by (auto simp: scan_bind_None)
    then show ?thesis
    proof cases
      case 1
      then show ?thesis using vn_size_bounds(2) by fastforce
    next
      case 2
      then show ?thesis using Cons.IH [of "pos + n"] vn_size_bounds(1) [of buf g b pos n] by simp
    qed
  qed
qed simp

lemma vn_groups_None:
  assumes "vn_groups buf hs pos = Inr None"
    and "\<forall>(g, fw, ext) \<in> set hs. ext \<noteq> 0 \<longrightarrow> gps g = 1"
  shows "length buf + raw_max <
    pos + sum_list (map (\<lambda>g. bits_max g + gps g * raw_max) (map fst hs)) + 11"
  using assms
proof (induction buf hs pos rule: vn_groups.induct)
  case (2 buf g fw ext hs pos)
  let ?s = "sum_list (map (\<lambda>g. bits_max g + gps g * raw_max) (map fst hs))"
  have ext: "ext \<noteq> 0 \<longrightarrow> gps g = 1" using 2 by simp
  consider "vn_bits buf g fw [0..<15] pos = Inr None"
    | l1 p1 where "vn_bits buf g fw [0..<15] pos = Inr (Some (l1, p1))" "vn_raw buf g ext p1 = Inr None"
    | l1 p1 l2 p2 where "vn_bits buf g fw [0..<15] pos = Inr (Some (l1, p1))"
      "vn_raw buf g ext p1 = Inr (Some (l2, p2))" "vn_groups buf hs p2 = Inr None"
    using 2 by (fastforce simp: scan_bind_None split: prod.splits)
  then show ?case
  proof cases
    case 1
    then show ?thesis using vn_bits_None [OF 1] by (simp add: bits_max_def)
  next
    case 2: 2
    then show ?thesis using vn_bits_Some [OF 2(1)] vn_raw_bounds(2) [OF 2(2)] ext
      by (simp add: bits_max_def)
  next
    case c: 3
    have "length buf + raw_max < p2 + ?s + 11" using c 2 by auto
    moreover have "p2 \<le> pos + bits_max g + gps g * raw_max"
      using vn_bits_Some [OF c(1)] vn_raw_bounds(1) [OF c(2)] ext
      by (auto simp: bits_max_def split: if_splits)
    ultimately show ?thesis by simp
  qed
qed simp

lemma sum_list_subseq: "subseq xs ys \<Longrightarrow> sum_list (map f xs) \<le> sum_list (map (f :: 'a \<Rightarrow> nat) ys)"
  by (induction rule: list_emb.induct) auto

text \<open>
  The framer's limit on an undecided prefix, 8,192 bytes, is never the reason to give up: an
  undecided prefix has at most 7,837 bytes.
\<close>

lemma binary_length_None:
  assumes "binary_length buf = Inr None"
  shows "length buf < 7838"
proof (cases "length buf < 2")
  case False
  have total: "sum_list (map (\<lambda>g. bits_max g + gps g * raw_max) [0..<7]) = 13409"
    by code_simp
  from assms False consider "vn_headers buf (uint (buf ! 1)) [0..<7] 2 = Inr None"
    | hs pos where "vn_headers buf (uint (buf ! 1)) [0..<7] 2 = Inr (Some (hs, pos))"
      "vn_groups buf hs pos = Inr None"
    by (auto simp: binary_length_def vn_walk_def Let_def scan_bind_None split: if_splits prod.splits)
  then show ?thesis
  proof cases
    case 1
    from vn_headers_None [OF this] show ?thesis by simp
  next
    case 2
    note h = vn_headers_Some [OF 2(1)]
    have "length buf + raw_max < pos + sum_list (map (\<lambda>g. bits_max g + gps g * raw_max) (map fst hs)) + 11"
      using vn_groups_None [OF 2(2)] h by blast
    also have "\<dots> \<le> 30 + 13409 + 11"
      using sum_list_subseq [of "map fst hs" "[0..<7]" "\<lambda>g. bits_max g + gps g * raw_max"] h total
      by simp
    finally show ?thesis by (simp add: raw_max_def)
  qed
qed simp

section \<open>A walk reads nothing past the frame\<close>

lemma u16_at_take: "pos + 2 \<le> m \<Longrightarrow> u16_at (take m buf) pos = u16_at buf pos"
  by (simp add: u16_at_def)

lemma vn_ext_take:
  "vn_ext buf g fw pos = Inr (Some (ext, q)) \<Longrightarrow> q \<le> m \<Longrightarrow> m \<le> length buf \<Longrightarrow>
   vn_ext (take m buf) g fw pos = Inr (Some (ext, q))"
  by (auto simp: vn_ext_def Let_def u16_at_take split: if_splits)

lemma vn_size_take:
  "vn_size buf g b pos = Inr (Some n) \<Longrightarrow> pos + n \<le> m \<Longrightarrow> m \<le> length buf \<Longrightarrow>
   vn_size (take m buf) g b pos = Inr (Some n)"
  by (auto simp: vn_size_def Let_def SATINFO_HEADER_def split: if_splits)

lemma vn_raw_take:
  "vn_raw buf g ext pos = Inr (Some (l, q)) \<Longrightarrow> q \<le> m \<Longrightarrow> m \<le> length buf \<Longrightarrow>
   vn_raw (take m buf) g ext pos = Inr (Some (l, q))"
  by (auto simp: vn_raw_def Let_def RAWMEAS_HEADER_def RAWMEAS_COUNT_OFFSET_def split: if_splits)

lemma vn_headers_take:
  assumes "vn_headers buf groups gs pos = Inr (Some (hs, q))" "q \<le> m" "m \<le> length buf"
  shows "vn_headers (take m buf) groups gs pos = Inr (Some (hs, q))"
  using assms(1)
proof (induction gs arbitrary: pos hs)
  case (Cons g gs)
  show ?case
  proof (cases "groups AND push_bit g 1 = 0")
    case True
    with Cons show ?thesis by simp
  next
    case False
    with Cons.prems obtain ext pos' hs' where e:
      "vn_ext buf g (u16_at buf pos) (pos + 2) = Inr (Some (ext, pos'))"
      "vn_headers buf groups gs pos' = Inr (Some (hs', q))"
      "\<not> (u16_at buf pos AND NOT EXT_FLAG = 0 \<and> ext = 0)"
      "hs = (g, u16_at buf pos AND NOT EXT_FLAG, ext) # hs'"
      by (auto simp: Let_def scan_bind_Some split: if_splits prod.splits)
    have le: "pos' \<le> q" "pos + 2 \<le> pos'"
      using vn_headers_Some [OF e(2)] vn_ext_bounds(1) [OF e(1)] by auto
    have u: "u16_at (take m buf) pos = u16_at buf pos" using le assms by (intro u16_at_take) simp
    have x: "vn_ext (take m buf) g (u16_at buf pos) (pos + 2) = Inr (Some (ext, pos'))"
      using vn_ext_take [OF e(1)] le assms by simp
    have "pos + 2 \<le> length (take m buf)" using le assms by simp
    then show ?thesis
      using False e(3,4) Cons.IH [OF e(2)]
      by (simp add: Let_def u x [simplified] scan_bind_def del: length_take)
  qed
qed simp

lemma vn_bits_take:
  assumes "vn_bits buf g fw bs pos = Inr (Some (l, q))" "q \<le> m" "m \<le> length buf"
  shows "vn_bits (take m buf) g fw bs pos = Inr (Some (l, q))"
  using assms(1)
proof (induction bs arbitrary: pos l)
  case (Cons b bs)
  show ?case
  proof (cases "fw AND push_bit b 1 = 0")
    case True
    with Cons show ?thesis by simp
  next
    case False
    then obtain n l' where w: "vn_size buf g b pos = Inr (Some n)"
      "vn_bits buf g fw bs (pos + n) = Inr (Some (l', q))" "l = (g, b, pos, n) # l'"
      using Cons.prems by (auto simp: scan_bind_Some)
    have "pos + n \<le> m" using vn_bits_Some [OF w(2)] assms(2) by simp
    from vn_size_take [OF w(1) this assms(3)] Cons.IH [OF w(2)] w(3) False
    show ?thesis by (simp add: scan_bind_def)
  qed
qed simp

lemma vn_groups_mono: "vn_groups buf hs pos = Inr (Some (l, q)) \<Longrightarrow> pos \<le> q"
proof (induction buf hs pos arbitrary: l rule: vn_groups.induct)
  case (2 buf g fw ext hs pos)
  from 2(2) obtain l1 p1 l2 p2 l3 where w: "vn_bits buf g fw [0..<15] pos = Inr (Some (l1, p1))"
    "vn_raw buf g ext p1 = Inr (Some (l2, p2))" "vn_groups buf hs p2 = Inr (Some (l3, q))"
    by (auto simp: scan_bind_Some)
  then have "p2 \<le> q" using 2 by auto
  then show ?case using vn_bits_Some [OF w(1)] vn_raw_bounds(1) [OF w(2)] by simp
qed simp

lemma vn_groups_take:
  assumes "vn_groups buf hs pos = Inr (Some (l, q))" "q \<le> m" "m \<le> length buf"
  shows "vn_groups (take m buf) hs pos = Inr (Some (l, q))"
  using assms
proof (induction buf hs pos arbitrary: l rule: vn_groups.induct)
  case (2 buf g fw ext hs pos)
  from 2(2) obtain l1 p1 l2 p2 l3 where w: "vn_bits buf g fw [0..<15] pos = Inr (Some (l1, p1))"
    "vn_raw buf g ext p1 = Inr (Some (l2, p2))" "vn_groups buf hs p2 = Inr (Some (l3, q))"
    "l = l1 @ l2 @ l3"
    by (auto simp: scan_bind_Some)
  have le: "p1 \<le> m" "p2 \<le> m"
    using vn_raw_bounds(1) [OF w(2)] vn_groups_mono [OF w(3)] 2(3) by auto
  from vn_bits_take [OF w(1) le(1) 2(4)] vn_raw_take [OF w(2) le(2) 2(4)] 2(1) [OF w(3) 2(3,4)] w
  show ?case by (simp add: scan_bind_def)
qed simp

lemma binary_length_take:
  assumes "binary_length buf = Inr (Some n)" "n \<le> length buf"
  shows "binary_length (take n buf) = Inr (Some n)"
proof -
  from assms(1) obtain l hs pos q where h: "2 \<le> length buf"
    "\<not> (uint (buf ! 1) = 0 \<or> uint (buf ! 1) AND 0x80 \<noteq> 0)"
    "vn_headers buf (uint (buf ! 1)) [0..<7] 2 = Inr (Some (hs, pos))"
    "vn_groups buf hs pos = Inr (Some (l, q))" "n = q + 2"
    by (auto simp: binary_length_def vn_walk_def Let_def scan_bind_Some split: if_splits prod.splits)
  have le: "pos \<le> n" "q \<le> n" "2 \<le> pos"
    using vn_groups_mono [OF h(4)] vn_headers_Some [OF h(3)] h(5) by auto
  have "take n buf ! 1 = buf ! 1" "2 \<le> length (take n buf)" using h le by simp_all
  then show ?thesis
    using h(2,5) vn_headers_take [OF h(3) le(1) assms(2)] vn_groups_take [OF h(4) le(2) assms(2)]
    by (simp add: binary_length_def vn_walk_def scan_bind_def del: length_take)
qed

section \<open>The layout tiles the payload\<close>

text \<open>\<open>tiles l a z\<close>: the fields of \<open>l\<close> are non-empty and lie end to end from \<open>a\<close> to \<open>z\<close>.\<close>

fun tiles :: "layout \<Rightarrow> nat \<Rightarrow> nat \<Rightarrow> bool" where
  "tiles [] a z \<longleftrightarrow> a = z"
| "tiles ((g, b, pos, n) # l) a z \<longleftrightarrow> pos = a \<and> 0 < n \<and> tiles l (a + n) z"

lemma tiles_append: "tiles l a m \<Longrightarrow> tiles l' m z \<Longrightarrow> tiles (l @ l') a z"
  by (induction l a m rule: tiles.induct) auto

definition field_before :: "nat \<times> nat \<times> nat \<times> nat \<Rightarrow> nat \<times> nat \<times> nat \<times> nat \<Rightarrow> bool" where
  "field_before x y \<longleftrightarrow> fst x < fst y \<or> (fst x = fst y \<and> fst (snd x) < fst (snd y))"

lemma vn_bits_layout:
  assumes "vn_bits buf g fw bs pos = Inr (Some (l, q))" "sorted_wrt (<) bs"
  shows "tiles l pos q \<and> sorted_wrt field_before l \<and> (\<forall>x \<in> set l. fst x = g \<and> fst (snd x) \<in> set bs)"
  using assms
proof (induction bs arbitrary: pos l)
  case (Cons b bs)
  show ?case
  proof (cases "fw AND push_bit b 1 = 0")
    case True
    then show ?thesis using Cons by fastforce
  next
    case False
    then obtain n l' where w: "vn_size buf g b pos = Inr (Some n)"
      "vn_bits buf g fw bs (pos + n) = Inr (Some (l', q))" "l = (g, b, pos, n) # l'"
      using Cons.prems by (auto simp: scan_bind_Some)
    have "0 < n" using vn_size_bounds(1) [OF w(1)] by simp
    then show ?thesis
      using Cons.IH [OF w(2)] Cons.prems(2) w(3) by (auto simp: field_before_def)
  qed
qed simp

lemma vn_raw_layout:
  assumes "vn_raw buf g ext pos = Inr (Some (l, q))"
  shows "tiles l pos q \<and> sorted_wrt field_before l \<and> (\<forall>x \<in> set l. fst x = g \<and> fst (snd x) = RAWMEAS_BIT)"
  using assms
  by (auto simp: vn_raw_def Let_def RAWMEAS_HEADER_def split: if_splits)

lemma vn_groups_layout:
  assumes "vn_groups buf hs pos = Inr (Some (l, q))" "sorted_wrt (<) (map fst hs)"
  shows "tiles l pos q \<and> sorted_wrt field_before l \<and> (\<forall>x \<in> set l. fst x \<in> set (map fst hs))"
  using assms
proof (induction buf hs pos arbitrary: l rule: vn_groups.induct)
  case (2 buf g fw ext hs pos)
  from 2(2) obtain l1 p1 l2 p2 l3 where w: "vn_bits buf g fw [0..<15] pos = Inr (Some (l1, p1))"
    "vn_raw buf g ext p1 = Inr (Some (l2, p2))" "vn_groups buf hs p2 = Inr (Some (l3, q))"
    "l = l1 @ l2 @ l3"
    by (auto simp: scan_bind_Some)
  have IH: "tiles l3 p2 q \<and> sorted_wrt field_before l3 \<and> (\<forall>x \<in> set l3. fst x \<in> set (map fst hs))"
    using 2 w by auto
  note b = vn_bits_layout [OF w(1)] and r = vn_raw_layout [OF w(2)]
  have "sorted_wrt (<) [0..<15]" by simp
  note b = b [OF this]
  have gs: "\<forall>h \<in> set (map fst hs). g < h" using 2(3) by simp
  have tiles: "tiles l pos q" using b r IH w(4) by (auto intro: tiles_append)
  have lows: "field_before x y" if "x \<in> set l1" "y \<in> set l2" for x y
  proof -
    have "fst x = g \<and> fst (snd x) < 15" using that b by auto
    moreover have "fst y = g \<and> fst (snd y) = RAWMEAS_BIT" using that r by blast
    ultimately show ?thesis by (simp add: field_before_def RAWMEAS_BIT_def)
  qed
  have highs: "field_before x y" if "x \<in> set l1 \<union> set l2" "y \<in> set l3" for x y
  proof -
    have "fst x = g" using that b r by blast
    moreover have "g < fst y" using that IH gs by blast
    ultimately show ?thesis by (simp add: field_before_def)
  qed
  have "sorted_wrt field_before l"
    using b r IH lows highs unfolding w(4) by (auto simp: sorted_wrt_append)
  moreover have "\<forall>x \<in> set l. fst x \<in> set (map fst ((g, fw, ext) # hs))"
    using b r IH w(4) by auto
  ultimately show ?case using tiles by blast
qed simp

lemma sorted_wrt_subseq: "subseq xs ys \<Longrightarrow> sorted_wrt P ys \<Longrightarrow> sorted_wrt P xs"
proof (induction rule: list_emb.induct)
  case (list_emb_Cons2 x y xs ys)
  then show ?case by (auto dest: list_emb_set)
qed auto

text \<open>
  Once the length of a VectorNav frame is known it stays the same whatever bytes follow,
  and so does the verdict that a header is invalid; and it is known, or the header refused, by
  7,838 bytes, so the framer's rule for a longer undecided prefix is never used.
\<close>

theorem binary_length_settled:
  "settles (binary_length buf) (binary_length (buf @ d)) \<and>
   (binary_length buf = Inr None \<longrightarrow> length buf < 7838)"
  using binary_length_settles binary_length_None by blast

lemma binary_length_settled_witness:
  "binary_length [0xFA, 1, 1] = Inr None \<and> length ([0xFA, 1, 1] :: bytes) < 7838"
proof
  show "binary_length [0xFA, 1, 1] = Inr None" by code_simp
  with binary_length_settled [of "[0xFA, 1, 1]"] show "length ([0xFA, 1, 1] :: bytes) < 7838" by blast
qed

text \<open>
  The layout of a frame tiles its payload: the fields are non-empty, in group and field
  order, and lie end to end from the end of the header words to the CRC.
\<close>

theorem field_layout_tiles:
  assumes "field_layout buf = Inr l"
  shows "\<exists>a n. binary_length buf = Inr (Some n) \<and> 2 \<le> a \<and> a \<le> 30 \<and> tiles l a (n - 2) \<and>
    sorted_wrt field_before l"
proof -
  obtain n where w: "vn_walk buf = Inr (Some (l, n))"
    using assms by (auto simp: field_layout_def split: sum.splits option.splits)
  then obtain hs pos q where h: "vn_headers buf (uint (buf ! 1)) [0..<7] 2 = Inr (Some (hs, pos))"
    "vn_groups buf hs pos = Inr (Some (l, q))" "n = q + 2"
    by (auto simp: vn_walk_def Let_def scan_bind_Some split: if_splits prod.splits)
  note s = vn_headers_Some [OF h(1)]
  have "sorted_wrt (<) (map fst hs)" using s sorted_wrt_subseq [of "map fst hs" "[0..<7]"] by simp
  from vn_groups_layout [OF h(2) this] s have "2 \<le> pos \<and> pos \<le> 30 \<and> tiles l pos (n - 2) \<and>
      sorted_wrt field_before l"
    using h(3) by simp
  moreover have "binary_length buf = Inr (Some n)" using w by (simp add: binary_length_def scan_bind_def)
  ultimately show ?thesis by blast
qed

lemma field_layout_tiles_witness:
  "\<exists>a n. binary_length ([0xFA, 0x09, 0x08, 0x00, 0x00, 0x40] @ replicate 12 0 @ [1] @ replicate 9 0) = Inr (Some n) \<and>
    2 \<le> a \<and> a \<le> 30 \<and> tiles [(0, 3, 6, 12), (3, 14, 18, 10)] a (n - 2) \<and>
    sorted_wrt field_before [(0, 3, 6, 12), (3, 14, 18, 10)]"
  by (rule field_layout_tiles) code_simp

end
