(* ===== verification/VnFramer.thy ===== *)
theory VnFramer
  imports Frames VnFields
begin

text \<open>
  The VectorNav framer, \<open>src/mtrtk/rover/drivers/vectornav/framer.py\<close>: binary frames, whose
  length comes from \<open>binary_length\<close>, and ASCII lines, in one stream. It is an instance of
  \<open>counting_scanner\<close> and of \<open>bounded_scanner\<close>.
\<close>

section \<open>The framer\<close>

definition BIN_SYNC :: byte where "BIN_SYNC = 0xFA"
definition ASCII_START :: byte where "ASCII_START = 0x24"
definition ASCII_MAX_LEN :: nat where "ASCII_MAX_LEN = 512"
definition MAX_PENDING :: nat where "MAX_PENDING = 8 * 1024"
definition MAX_BUFFER :: nat where "MAX_BUFFER = 1048576"

definition vn_sync :: "byte \<Rightarrow> bool" where
  "vn_sync b \<longleftrightarrow> b = BIN_SYNC \<or> b = ASCII_START"

record vn_stats =
  vs_frames :: nat
  vs_ascii_frames :: nat
  vs_crc_failed :: nat
  vs_resyncs :: nat
  vs_bytes_skipped :: nat
  vs_invalid_headers :: nat

record vn_framer =
  v_buf :: bytes
  v_stats :: vn_stats
  v_skipping :: bool

definition vn_init :: vn_framer where
  "vn_init = \<lparr>v_buf = [],
     v_stats = \<lparr>vs_frames = 0, vs_ascii_frames = 0, vs_crc_failed = 0, vs_resyncs = 0,
                vs_bytes_skipped = 0, vs_invalid_headers = 0\<rparr>,
     v_skipping = False\<rparr>"

definition vn_skip :: "nat \<Rightarrow> vn_framer \<Rightarrow> vn_framer" where
  "vn_skip n s =
     s\<lparr>v_buf := drop n (v_buf s),
       v_stats := (v_stats s)\<lparr>vs_bytes_skipped := vs_bytes_skipped (v_stats s) + n,
         vs_resyncs := vs_resyncs (v_stats s) + (if v_skipping s then 0 else 1)\<rparr>,
       v_skipping := True\<rparr>"

definition vn_crc_failed :: "vn_framer \<Rightarrow> vn_framer" where
  "vn_crc_failed s = s\<lparr>v_stats := (v_stats s)\<lparr>vs_crc_failed := vs_crc_failed (v_stats s) + 1\<rparr>\<rparr>"

definition vn_invalid_header :: "vn_framer \<Rightarrow> vn_framer" where
  "vn_invalid_header s =
     s\<lparr>v_stats := (v_stats s)\<lparr>vs_invalid_headers := vs_invalid_headers (v_stats s) + 1\<rparr>\<rparr>"

text \<open>\<open>_emit\<close>, and the counter that \<open>_try_ascii\<close> adds for a line.\<close>

definition vn_emit :: "real \<times> real \<Rightarrow> bool \<Rightarrow> nat \<Rightarrow> vn_framer \<Rightarrow> vn_framer \<times> frame" where
  "vn_emit clk ascii n s =
     (s\<lparr>v_buf := drop n (v_buf s), v_skipping := False,
        v_stats := (v_stats s)\<lparr>vs_frames := vs_frames (v_stats s) + 1,
          vs_ascii_frames := vs_ascii_frames (v_stats s) + (if ascii then 1 else 0)\<rparr>\<rparr>,
      \<lparr>fr_proto = VN, fr_raw = take n (v_buf s), fr_t_mono = fst clk, fr_t_host = snd clk\<rparr>)"

definition try_binary :: "bytes \<Rightarrow> verdict" where
  "try_binary b =
     (case binary_length b of
        Inl e \<Rightarrow> BadHeader
      | Inr None \<Rightarrow> if length b > MAX_PENDING then Reject else Wait
      | Inr (Some n) \<Rightarrow>
          if n > MAX_PENDING then BadHeader
          else if length b < n then Wait
          else if crc16_xmodem (py_slice 1 n b) \<noteq> 0 then BadSum
          else Accept n)"

text \<open>The loop of \<open>_try_ascii\<close> over the indices \<open>is\<close>.\<close>

fun vn_line :: "bytes \<Rightarrow> nat list \<Rightarrow> verdict" where
  "vn_line b [] = (if length b \<ge> ASCII_MAX_LEN + 2 then Reject else Wait)"
| "vn_line b (i # is) =
     (if b ! i = 0x0D then
        (if i + 1 \<ge> length b then Wait
         else if b ! (i + 1) \<noteq> 0x0A then Reject
         else if \<not> verify_ascii (take (i + 2) b) then BadSum
         else Accept (i + 2))
      else if \<not> (0x20 \<le> b ! i \<and> b ! i \<le> 0x7E) then Reject
      else vn_line b is)"

definition VN_PREFIX :: bytes where "VN_PREFIX = [0x24, 0x56, 0x4E]"

definition try_ascii :: "bytes \<Rightarrow> verdict" where
  "try_ascii b =
     (let prefix = take 3 b in
      if \<not> starts_with prefix VN_PREFIX then Reject
      else if length prefix < 3 then Wait
      else vn_line b [3..<min (length b) (ASCII_MAX_LEN + 2)])"

definition try_vn :: "byte \<Rightarrow> bytes \<Rightarrow> verdict" where
  "try_vn x b = (if x = BIN_SYNC then try_binary b else try_ascii b)"

definition vn_step :: "real \<times> real \<Rightarrow> vn_framer \<Rightarrow> vn_framer \<times> frame list \<times> bool" where
  "vn_step clk s =
     (case v_buf s of
        [] \<Rightarrow> (s, [], False)
      | x # _ \<Rightarrow>
          if \<not> vn_sync x then (vn_skip (next_sync vn_sync (v_buf s)) s, [], True)
          else (case try_vn x (v_buf s) of
                  Wait \<Rightarrow> (s, [], False)
                | Accept n \<Rightarrow> (case vn_emit clk (x \<noteq> BIN_SYNC) n s of (s', f) \<Rightarrow> (s', [f], True))
                | BadSum \<Rightarrow> (vn_skip 1 (vn_crc_failed s), [], True)
                | BadHeader \<Rightarrow> (vn_skip 1 (vn_invalid_header s), [], True)
                | Reject \<Rightarrow> (vn_skip 1 s, [], True)))"

section \<open>What an accepted frame looks like\<close>

definition valid_binary :: "bytes \<Rightarrow> bool" where
  "valid_binary r \<longleftrightarrow> hd r = BIN_SYNC \<and> binary_length r = Inr (Some (length r)) \<and>
     length r \<le> MAX_PENDING \<and> crc16_xmodem (drop 1 r) = 0"

definition valid_line :: "bytes \<Rightarrow> bool" where
  "valid_line r \<longleftrightarrow> 5 \<le> length r \<and> length r \<le> ASCII_MAX_LEN + 3 \<and> take 3 r = VN_PREFIX \<and>
     drop (length r - 2) r = [0x0D, 0x0A] \<and>
     (\<forall>i \<in> {3..<length r - 2}. 0x20 \<le> r ! i \<and> r ! i \<le> 0x7E) \<and> verify_ascii r"

definition valid_vn :: "proto \<times> bytes \<Rightarrow> bool" where
  "valid_vn v \<longleftrightarrow> fst v = VN \<and> (valid_binary (snd v) \<or> valid_line (snd v))"

section \<open>Verdicts\<close>

lemma binary_length_append:
  "binary_length b \<noteq> Inr None \<Longrightarrow> binary_length (b @ d) = binary_length b"
  using binary_length_settles [of b d] by (auto simp: settles_def)

lemma binary_length_ge_2: "binary_length b = Inr (Some n) \<Longrightarrow> 2 \<le> n \<and> 2 \<le> length b"
  by (auto simp: binary_length_def vn_walk_def scan_bind_Some Let_def split: if_splits)

lemma try_binary_Accept:
  assumes "try_binary b = Accept n" "hd b = BIN_SYNC"
  shows "0 < n \<and> n \<le> length b \<and> valid_binary (take n b)"
proof -
  have n: "binary_length b = Inr (Some n)" "n \<le> MAX_PENDING" "n \<le> length b"
    "crc16_xmodem (py_slice 1 n b) = 0"
    using assms(1) by (auto simp: try_binary_def split: sum.splits option.splits if_splits)
  have two: "2 \<le> n" using binary_length_ge_2 [OF n(1)] by simp
  have "hd (take n b) = hd b" using two by (cases b) simp_all
  moreover have "drop 1 (take n b) = py_slice 1 n b" by (simp add: py_slice_def drop_take)
  ultimately show ?thesis
    using n two binary_length_take [OF n(1,3)] assms(2) by (simp add: valid_binary_def min_def)
qed

lemma try_binary_valid:
  assumes "valid_binary r"
  shows "try_binary (r @ d) = Accept (length r)"
proof -
  have r: "binary_length r = Inr (Some (length r))" "length r \<le> MAX_PENDING" "crc16_xmodem (drop 1 r) = 0"
    using assms by (simp_all add: valid_binary_def)
  then have "binary_length (r @ d) = Inr (Some (length r))" by (simp add: binary_length_append)
  moreover have "py_slice 1 (length r) (r @ d) = drop 1 r"
    by (cases r) (simp_all add: py_slice_def)
  ultimately show ?thesis using r by (simp add: try_binary_def)
qed

lemma try_binary_append:
  assumes "try_binary b \<noteq> Wait"
  shows "try_binary (b @ d) = try_binary b"
proof (cases "binary_length b")
  case (Inl e)
  then show ?thesis using binary_length_append [of b d] by (simp add: try_binary_def)
next
  case (Inr r)
  show ?thesis
  proof (cases r)
    case None
    then have "length b < 7838" using Inr binary_length_None by simp
    then have "try_binary b = Wait" using Inr None by (simp add: try_binary_def MAX_PENDING_def)
    with assms show ?thesis by simp
  next
    case (Some n)
    then show ?thesis
      using Inr assms binary_length_append [of b d]
      by (auto simp: try_binary_def py_slice_append split: if_splits)
  qed
qed

lemma try_binary_Wait: "try_binary b = Wait \<Longrightarrow> length b \<le> MAX_PENDING"
  by (auto simp: try_binary_def split: sum.splits option.splits if_splits)

lemma vn_line_Accept:
  assumes "vn_line b [k..<m] = Accept n" "m \<le> length b"
  shows "\<exists>i. k \<le> i \<and> i < m \<and> n = i + 2 \<and> n \<le> length b \<and> b ! i = 0x0D \<and> b ! (i + 1) = 0x0A \<and>
    verify_ascii (take n b) \<and> (\<forall>j \<in> {k..<i}. 0x20 \<le> b ! j \<and> b ! j \<le> 0x7E)"
  using assms
proof (induction "m - k" arbitrary: k)
  case 0
  then show ?case by (auto split: if_splits)
next
  case (Suc x)
  then have k: "k < m" by simp
  then have u: "[k..<m] = k # [Suc k..<m]" by (rule upt_conv_Cons)
  show ?case
  proof (cases "b ! k = 0x0D")
    case True
    then show ?thesis using Suc.prems k unfolding u by (auto intro!: exI [of _ k] split: if_splits)
  next
    case False
    then have p: "0x20 \<le> b ! k" "b ! k \<le> 0x7E" "vn_line b [Suc k..<m] = Accept n"
      using Suc.prems unfolding u by (auto split: if_splits)
    have "x = m - Suc k" using Suc.hyps(2) by simp
    from Suc.hyps(1) [OF this p(3) Suc.prems(2)]
    obtain i where i: "Suc k \<le> i \<and> i < m \<and> n = i + 2 \<and> n \<le> length b \<and> b ! i = 0x0D \<and>
      b ! (i + 1) = 0x0A \<and> verify_ascii (take n b) \<and>
      (\<forall>j \<in> {Suc k..<i}. 0x20 \<le> b ! j \<and> b ! j \<le> 0x7E)"
      by blast
    then have "{k..<i} = insert k {Suc k..<i}" by auto
    then show ?thesis using i p(1,2) by (intro exI [of _ i]) auto
  qed
qed

lemma vn_line_valid:
  assumes "k \<le> i" "i < m" "i + 2 \<le> length b" "b ! i = 0x0D" "b ! (i + 1) = 0x0A"
    and "verify_ascii (take (i + 2) b)" "\<forall>j \<in> {k..<i}. 0x20 \<le> b ! j \<and> b ! j \<le> 0x7E"
  shows "vn_line b [k..<m] = Accept (i + 2)"
  using assms
proof (induction "i - k" arbitrary: k)
  case 0
  then have "[k..<m] = i # [Suc i..<m]" by (simp add: upt_conv_Cons)
  then show ?case using 0 by simp
next
  case (Suc x)
  then have "[k..<m] = k # [Suc k..<m]" by (simp add: upt_conv_Cons)
  moreover have "0x20 \<le> b ! k \<and> b ! k \<le> 0x7E" using Suc by simp
  moreover have "\<not> (0x20 \<le> (0x0D :: byte))" by simp
  then have "b ! k \<noteq> 0x0D" using calculation(2) by metis
  moreover have "vn_line b [Suc k..<m] = Accept (i + 2)" using Suc by simp
  ultimately show ?case by simp
qed

lemma vn_line_append:
  assumes "vn_line b is \<noteq> Wait" "\<forall>i \<in> set is. i < length b"
    and "length b \<ge> ASCII_MAX_LEN + 2 \<longrightarrow> js = []"
  shows "vn_line (b @ d) (is @ js) = vn_line b is"
  using assms
proof (induction "is")
  case Nil
  then show ?case by (auto split: if_splits)
next
  case (Cons i "is")
  have at: "(b @ d) ! i = b ! i" using Cons.prems(2) by (simp add: nth_append)
  show ?case
  proof (cases "b ! i = 0x0D")
    case True
    then have "i + 1 < length b" using Cons.prems(1) by (auto split: if_splits)
    then show ?thesis using at True by (auto simp: nth_append)
  next
    case False
    then show ?thesis using at Cons by auto
  qed
qed

lemma vn_line_Wait:
  "vn_line b is = Wait \<Longrightarrow> \<forall>i \<in> set is. i < ASCII_MAX_LEN + 2 \<Longrightarrow> length b \<le> ASCII_MAX_LEN + 2"
  by (induction "is") (auto split: if_splits)

lemma vn_line_verdicts: "vn_line b is \<noteq> BadHeader"
  by (induction "is") auto

lemma try_ascii_Accept:
  assumes "try_ascii b = Accept n"
  shows "0 < n \<and> n \<le> length b \<and> valid_line (take n b)"
proof -
  have pre: "take 3 b = VN_PREFIX" and
    line: "vn_line b [3..<min (length b) (ASCII_MAX_LEN + 2)] = Accept n"
    using assms by (auto simp: try_ascii_def Let_def starts_with_def VN_PREFIX_def min_def
        split: if_splits)
  from vn_line_Accept [OF line] obtain i where i: "3 \<le> i" "i < ASCII_MAX_LEN + 2" "n = i + 2"
    "n \<le> length b" "b ! i = 0x0D" "b ! (i + 1) = 0x0A" "verify_ascii (take n b)"
    "\<forall>j \<in> {3..<i}. 0x20 \<le> b ! j \<and> b ! j \<le> 0x7E"
    by auto
  have "drop i b = b ! i # b ! (i + 1) # drop (i + 2) b"
    using i(3,4) by (simp add: Cons_nth_drop_Suc)
  then have "drop i (take n b) = [0x0D, 0x0A]" using i(3,5,6) by (simp add: drop_take)
  moreover have "length (take n b) = i + 2" using i(3,4) by simp
  moreover have "take 3 (take n b) = VN_PREFIX" using pre i(1,3) by (simp add: min_def)
  ultimately have "valid_line (take n b)"
    using i by (auto simp: valid_line_def)
  then show ?thesis using i by simp
qed

lemma try_ascii_valid:
  assumes "valid_line r"
  shows "try_ascii (r @ d) = Accept (length r)"
proof -
  let ?i = "length r - 2"
  have r: "5 \<le> length r" "length r \<le> ASCII_MAX_LEN + 3" "take 3 r = VN_PREFIX"
    "drop ?i r = [0x0D, 0x0A]" "\<forall>i \<in> {3..<?i}. 0x20 \<le> r ! i \<and> r ! i \<le> 0x7E" "verify_ascii r"
    using assms by (simp_all add: valid_line_def)
  have cr: "r ! ?i = 0x0D" "r ! (?i + 1) = 0x0A"
    using arg_cong [OF r(4), of "\<lambda>xs. xs ! 0"] arg_cong [OF r(4), of "\<lambda>xs. xs ! 1"] r(1)
    by simp_all
  have "take (?i + 2) (r @ d) = r" using r(1) by simp
  then have "vn_line (r @ d) [3..<min (length (r @ d)) (ASCII_MAX_LEN + 2)] = Accept (?i + 2)"
    using r cr by (intro vn_line_valid) (auto simp: nth_append)
  then show ?thesis
    using r(1,3) by (simp add: try_ascii_def Let_def starts_with_def VN_PREFIX_def)
qed

lemma try_ascii_append:
  assumes "try_ascii b \<noteq> Wait"
  shows "try_ascii (b @ d) = try_ascii b"
proof (cases "length b < 3")
  case True
  then have "\<not> starts_with b VN_PREFIX"
    using assms by (auto simp: try_ascii_def Let_def split: if_splits)
  moreover have "starts_with b VN_PREFIX" if h: "starts_with (b @ e) VN_PREFIX" for e
    using arg_cong [OF h [unfolded starts_with_def], of "take (length b)"]
    by (simp add: starts_with_def min_def)
  ultimately have "\<not> starts_with (b @ e) VN_PREFIX" for e by blast
  from this [of "[]"] this [of "take (3 - length b) d"]
  have "\<not> starts_with (take 3 (b @ d)) VN_PREFIX" "\<not> starts_with (take 3 b) VN_PREFIX"
    using True by simp_all
  then show ?thesis by (simp add: try_ascii_def)
next
  case False
  then have t: "take 3 (b @ d) = take 3 b" by simp
  let ?m = "min (length b) (ASCII_MAX_LEN + 2)" and ?m' = "min (length (b @ d)) (ASCII_MAX_LEN + 2)"
  have "3 \<le> ?m" "?m \<le> ?m'" using False by (auto simp: ASCII_MAX_LEN_def)
  then have "[3..<?m'] = [3..<?m] @ [?m..<?m']"
    by (metis le_add_diff_inverse upt_add_eq_append)
  moreover have "vn_line (b @ d) ([3..<?m] @ [?m..<?m']) = vn_line b [3..<?m]"
    if "vn_line b [3..<?m] \<noteq> Wait"
    by (rule vn_line_append [OF that]) auto
  ultimately show ?thesis
    using assms False unfolding try_ascii_def Let_def t by (auto split: if_splits)
qed

lemma try_ascii_Wait:
  assumes "try_ascii b = Wait"
  shows "length b \<le> ASCII_MAX_LEN + 2"
proof (cases "length b < 3")
  case False
  then have "vn_line b [3..<min (length b) (ASCII_MAX_LEN + 2)] = Wait"
    using assms by (auto simp: try_ascii_def Let_def split: if_splits)
  then show ?thesis by (rule vn_line_Wait) auto
qed simp

lemma try_vn_Accept:
  assumes "try_vn (hd b) b = Accept n"
  shows "0 < n \<and> n \<le> length b \<and> valid_vn (VN, take n b)"
  using assms try_binary_Accept [of b n] try_ascii_Accept [of b n]
  by (auto simp: try_vn_def valid_vn_def split: if_splits)

lemma try_vn_valid:
  assumes "valid_vn v"
  shows "\<exists>x xs. snd v = x # xs \<and> vn_sync x \<and> fst v = VN \<and> try_vn x (snd v @ d) = Accept (length (snd v))"
proof (cases "valid_binary (snd v)")
  case True
  then obtain xs where "snd v = BIN_SYNC # xs"
    using binary_length_ge_2 [of "snd v" "length (snd v)"] by (cases "snd v") (auto simp: valid_binary_def)
  then show ?thesis
    using try_binary_valid [OF True, of d] assms by (auto simp: vn_sync_def try_vn_def valid_vn_def)
next
  case False
  with assms have l: "valid_line (snd v)" "fst v = VN" by (auto simp: valid_vn_def)
  then obtain xs where "snd v = ASCII_START # xs"
    by (cases "snd v") (auto simp: valid_line_def VN_PREFIX_def ASCII_START_def)
  then show ?thesis
    using try_ascii_valid [OF l(1), of d] l(2)
    by (auto simp: vn_sync_def try_vn_def BIN_SYNC_def ASCII_START_def)
qed

lemma try_vn_append: "try_vn x b \<noteq> Wait \<Longrightarrow> try_vn x (b @ d) = try_vn x b"
  using try_binary_append [of b d] try_ascii_append [of b d]
  by (auto simp: try_vn_def split: if_splits)

lemma try_vn_Wait: "try_vn x b = Wait \<Longrightarrow> length b \<le> MAX_PENDING"
  using try_binary_Wait [of b] try_ascii_Wait [of b]
  by (auto simp: try_vn_def ASCII_MAX_LEN_def MAX_PENDING_def split: if_splits)

section \<open>One iteration\<close>

lemma v_buf_simps [simp]:
  "v_buf (vn_skip n s) = drop n (v_buf s)" "v_buf (vn_crc_failed s) = v_buf s"
  "v_buf (vn_invalid_header s) = v_buf s"
  by (simp_all add: vn_skip_def vn_crc_failed_def vn_invalid_header_def)

text \<open>What a rejected offset does before its byte is dropped.\<close>

definition vn_count :: "verdict \<Rightarrow> vn_framer \<Rightarrow> vn_framer" where
  "vn_count v s = (if v = BadSum then vn_crc_failed s else if v = BadHeader then vn_invalid_header s else s)"

lemma vn_count_buf [simp]: "v_buf (vn_count v s) = v_buf s"
  by (simp add: vn_count_def)

lemma vn_step_garbage:
  "v_buf s \<noteq> [] \<Longrightarrow> \<not> vn_sync (hd (v_buf s)) \<Longrightarrow>
   vn_step clk s = (vn_skip (next_sync vn_sync (v_buf s)) s, [], True)"
  by (cases "v_buf s") (simp_all add: vn_step_def)

lemma vn_step_sync:
  assumes "v_buf s \<noteq> []" "vn_sync (hd (v_buf s))"
  shows "vn_step clk s =
     (case try_vn (hd (v_buf s)) (v_buf s) of
        Wait \<Rightarrow> (s, [], False)
      | Accept n \<Rightarrow> (case vn_emit clk (hd (v_buf s) \<noteq> BIN_SYNC) n s of (s', f) \<Rightarrow> (s', [f], True))
      | v \<Rightarrow> (vn_skip 1 (vn_count v s), [], True))"
proof -
  obtain x xs where b: "v_buf s = x # xs" using assms(1) by (cases "v_buf s") auto
  then show ?thesis
    using assms(2) unfolding vn_step_def b list.case list.sel vn_count_def
    by (cases "try_vn x (x # xs)") simp_all
qed

lemma vn_step_cases:
  assumes "vn_step clk s = (s', fs, go)" "v_buf s \<noteq> []"
  obtains (Garbage) "\<not> vn_sync (hd (v_buf s))" "fs = []" "go"
      "s' = vn_skip (next_sync vn_sync (v_buf s)) s"
    | (Waits) "vn_sync (hd (v_buf s))" "fs = []" "\<not> go" "s' = s"
      "try_vn (hd (v_buf s)) (v_buf s) = Wait"
    | (Accepts) n f where "vn_sync (hd (v_buf s))" "fs = [f]" "go"
      "try_vn (hd (v_buf s)) (v_buf s) = Accept n"
      "vn_emit clk (hd (v_buf s) \<noteq> BIN_SYNC) n s = (s', f)"
    | (Rejects) v where "vn_sync (hd (v_buf s))" "fs = []" "go"
      "try_vn (hd (v_buf s)) (v_buf s) = v" "v \<notin> {Wait} \<union> range Accept"
      "s' = vn_skip 1 (vn_count v s)"
proof (cases "vn_sync (hd (v_buf s))")
  case False
  then show ?thesis using assms vn_step_garbage by (intro that(1)) auto
next
  case True
  note step = vn_step_sync [OF assms(2) True, of clk]
  show ?thesis
  proof (cases "try_vn (hd (v_buf s)) (v_buf s)")
    case Wait
    with step assms(1) True show ?thesis by (intro that(2)) auto
  next
    case (Accept n)
    obtain t f where "vn_emit clk (hd (v_buf s) \<noteq> BIN_SYNC) n s = (t, f)"
      by (cases "vn_emit clk (hd (v_buf s) \<noteq> BIN_SYNC) n s")
    with Accept step assms(1) True show ?thesis by (intro that(3) [of f n]) auto
  next
    case BadSum
    with step assms(1) True show ?thesis by (intro that(4) [of BadSum]) auto
  next
    case BadHeader
    with step assms(1) True show ?thesis by (intro that(4) [of BadHeader]) auto
  next
    case Reject
    with step assms(1) True show ?thesis by (intro that(4) [of Reject]) auto
  qed
qed

lemma vn_step_progress:
  assumes "v_buf s \<noteq> []" "vn_step clk s = (s', fs, True)"
  shows "length (v_buf s') < length (v_buf s)"
  using assms(2,1)
proof (cases rule: vn_step_cases)
  case Garbage
  then show ?thesis using next_sync_bounds [OF assms(1), of vn_sync] assms(1) by (simp add: diff_less)
next
  case (Accepts n f)
  then show ?thesis using try_vn_Accept [OF Accepts(4)] assms(1) by (auto simp: vn_emit_def)
next
  case (Rejects v)
  then show ?thesis using assms(1) by simp
qed simp

section \<open>The loop and \<open>feed\<close>\<close>

function vn_loop :: "real \<times> real \<Rightarrow> vn_framer \<Rightarrow> vn_framer \<times> frame list" where
  "vn_loop clk s =
     (if v_buf s = [] then (s, [])
      else (case vn_step clk s of
              (s', fs, go) \<Rightarrow>
                if go then (case vn_loop clk s' of (t, gs) \<Rightarrow> (t, fs @ gs)) else (s', fs)))"
  by pat_completeness auto
termination
  by (relation "measure (\<lambda>(clk, s). length (v_buf s))") (auto intro: vn_step_progress [OF _ sym])

declare vn_loop.simps [simp del]

definition vn_push :: "vn_framer \<Rightarrow> bytes \<Rightarrow> vn_framer" where
  "vn_push s data = s\<lparr>v_buf := v_buf s @ data\<rparr>"

definition vn_feed :: "real \<times> real \<Rightarrow> vn_framer \<Rightarrow> bytes \<Rightarrow> vn_framer \<times> frame list" where
  "vn_feed clk s data =
     (let s1 = vn_push s data;
          s2 = (if length (v_buf s1) > MAX_BUFFER
                then vn_skip (length (v_buf s1) - MAX_BUFFER) s1 else s1)
      in vn_loop clk s2)"

section \<open>More bytes resume the scan\<close>

lemma v_buf_push [simp]: "v_buf (vn_push s d) = v_buf s @ d"
  by (simp add: vn_push_def)

lemma vn_push_skip: "n \<le> length (v_buf s) \<Longrightarrow> vn_push (vn_skip n s) d = vn_skip n (vn_push s d)"
  by (cases s) (simp add: vn_push_def vn_skip_def)

lemma vn_push_count: "vn_push (vn_count v s) d = vn_count v (vn_push s d)"
  by (cases s) (simp add: vn_push_def vn_count_def vn_crc_failed_def vn_invalid_header_def)

lemma vn_skip_skip: "vn_skip m (vn_skip n s) = vn_skip (n + m) s"
  by (cases s) (simp add: vn_skip_def add.commute)

lemma vn_emit_push:
  assumes "n \<le> length (v_buf s)" "vn_emit clk a n s = (t, f)"
  shows "vn_emit clk a n (vn_push s d) = (vn_push t d, f)"
  using assms by (cases s) (auto simp: vn_emit_def vn_push_def)

definition vn_skip_garbage :: "vn_framer \<Rightarrow> vn_framer" where
  "vn_skip_garbage s =
     (let n = length (takeWhile (\<lambda>x. \<not> vn_sync x) (v_buf s)) in if n = 0 then s else vn_skip n s)"

lemma vn_loop_skip: "vn_loop clk s = vn_loop clk (vn_skip_garbage s)"
proof (cases "v_buf s = [] \<or> vn_sync (hd (v_buf s))")
  case True
  then show ?thesis by (cases "v_buf s") (auto simp: vn_skip_garbage_def)
next
  case False
  then have "next_sync vn_sync (v_buf s) = length (takeWhile (\<lambda>x. \<not> vn_sync x) (v_buf s))"
    by (intro next_sync_takeWhile) auto
  moreover have "0 < next_sync vn_sync (v_buf s)" using False next_sync_bounds by blast
  ultimately have "vn_step clk s = (vn_skip_garbage s, [], True)"
    using False vn_step_garbage [of s clk] by (simp add: vn_skip_garbage_def)
  then show ?thesis using False by (subst vn_loop.simps) simp
qed

lemma vn_skip_push:
  assumes "\<not> vn_sync (hd (v_buf s))" "v_buf s \<noteq> []"
  shows "vn_skip_garbage (vn_push s d) =
    vn_skip_garbage (vn_push (vn_skip (next_sync vn_sync (v_buf s)) s) d)"
proof -
  let ?p = "\<lambda>x. \<not> vn_sync x"
  let ?n = "length (takeWhile ?p (v_buf s))"
  have n: "next_sync vn_sync (v_buf s) = ?n" by (rule next_sync_takeWhile) (use assms in simp_all)
  have pos: "0 < ?n" using next_sync_bounds [OF assms(2), of vn_sync] n by simp
  have push: "vn_push (vn_skip ?n s) d = vn_skip ?n (vn_push s d)"
    by (rule vn_push_skip) (rule length_takeWhile_le)
  have "length (takeWhile ?p (v_buf s @ d)) = ?n + length (takeWhile ?p (drop ?n (v_buf s) @ d))"
    by (rule takeWhile_resume)
  then show ?thesis
    using pos unfolding n push vn_skip_garbage_def Let_def
    by (auto simp: vn_skip_skip length_takeWhile_le)
qed

lemma vn_step_push:
  assumes "vn_step clk s = (s', fs, True)" "v_buf s \<noteq> []" "vn_sync (hd (v_buf s))"
  shows "vn_step clk (vn_push s d) = (vn_push s' d, fs, True)"
proof -
  let ?x = "hd (v_buf s)"
  have ne: "v_buf (vn_push s d) \<noteq> []" "hd (v_buf (vn_push s d)) = ?x" using assms(2) by simp_all
  have v: "try_vn ?x (v_buf s @ d) = try_vn ?x (v_buf s)" if "try_vn ?x (v_buf s) \<noteq> Wait"
    using that by (rule try_vn_append)
  note step = vn_step_sync [OF ne(1), unfolded ne(2), OF assms(3), of clk, unfolded v_buf_push]
  from assms(1,2) show ?thesis
  proof (cases rule: vn_step_cases)
    case (Accepts n f)
    then have "n \<le> length (v_buf s)" using try_vn_Accept by blast
    from vn_emit_push [OF this Accepts(5), of d] Accepts v show ?thesis by (simp add: step)
  next
    case (Rejects w)
    then have "try_vn ?x (v_buf s @ d) = w" using v by auto
    moreover have "1 \<le> length (v_buf s)" using assms(2) by (cases "v_buf s") simp_all
    then have "vn_push s' d = vn_skip 1 (vn_count w (vn_push s d))"
      using Rejects(6) vn_push_skip [of 1 "vn_count w s" d] by (simp add: vn_push_count)
    ultimately show ?thesis using Rejects(2,5) by (cases w) (auto simp: step)
  qed (use assms in simp_all)
qed

lemma vn_resume:
  assumes "v_buf s \<noteq> []" "vn_step clk s = (s', fs, True)"
  shows "vn_loop clk (vn_push s d) = (case vn_loop clk (vn_push s' d) of (t, gs) \<Rightarrow> (t, fs @ gs))"
proof (cases "vn_sync (hd (v_buf s))")
  case True
  from vn_step_push [OF assms(2,1) True] assms(1)
  show ?thesis by (subst vn_loop.simps) simp
next
  case False
  with assms have "fs = []" "s' = vn_skip (next_sync vn_sync (v_buf s)) s"
    by (auto elim: vn_step_cases)
  then have "vn_loop clk (vn_push s d) = vn_loop clk (vn_push s' d)" and "fs = []"
    using vn_skip_push [OF False assms(1), of d] vn_loop_skip by metis+
  then show ?thesis by simp
qed

section \<open>The contract\<close>

definition vn_garbage :: "vn_framer \<Rightarrow> nat" where
  "vn_garbage s = vs_bytes_skipped (v_stats s)"

lemma vn_garbage_simps [simp]:
  "vn_garbage (vn_skip n s) = vn_garbage s + n" "vn_garbage (vn_count v s) = vn_garbage s"
  by (simp_all add: vn_garbage_def vn_skip_def vn_count_def vn_crc_failed_def vn_invalid_header_def)

lemma vn_step_clock:
  assumes "vn_step c s = (s', fs, go)"
  shows "\<exists>fs'. vn_step c' s = (s', fs', go) \<and> map frame_view fs' = map frame_view fs"
  using assms
  by (auto simp: vn_step_def vn_emit_def frame_view_def split: list.splits verdict.splits)

lemma vn_step_frames:
  assumes "v_buf s \<noteq> []" "vn_step c s = (s', fs, go)"
  shows "cuts (v_buf s) (map (\<lambda>f. snd (frame_view f)) fs) (v_buf s') \<and>
    (\<forall>f \<in> set fs. valid_vn (frame_view f)) \<and>
    length (v_buf s) + vn_garbage s =
    length (v_buf s') + vn_garbage s' + sum_list (map (\<lambda>f. length (snd (frame_view f))) fs)"
  using assms(2,1)
proof (cases rule: vn_step_cases)
  case Garbage
  then show ?thesis
    using next_sync_bounds [OF assms(1), of vn_sync] cuts_drop [of "v_buf s" "next_sync vn_sync (v_buf s)"]
    by (simp del: cuts.simps)
next
  case Waits
  then show ?thesis by simp
next
  case (Accepts n f)
  let ?r = "take n (v_buf s)"
  have n: "0 < n" "n \<le> length (v_buf s)" "valid_vn (VN, ?r)" using try_vn_Accept Accepts(4) by blast+
  have s': "v_buf s' = drop n (v_buf s)" "vn_garbage s' = vn_garbage s" "frame_view f = (VN, ?r)"
    using Accepts by (auto simp: vn_emit_def vn_garbage_def frame_view_def)
  have "v_buf s = [] @ ?r @ drop n (v_buf s) \<and> drop n (v_buf s) = [] @ drop n (v_buf s)" by simp
  then have "cuts (v_buf s) [?r] (drop n (v_buf s))" unfolding cuts.simps by blast
  then show ?thesis using n s' Accepts(2) by simp
next
  case (Rejects v)
  have "1 \<le> length (v_buf s)" using assms(1) by (cases "v_buf s") simp_all
  then show ?thesis using Rejects cuts_drop [of "v_buf s" 1] by (simp del: cuts.simps)
qed

lemma vn_step_complete:
  assumes "valid_vn v" "v_buf s = snd v @ d"
  shows "\<exists>s' f. vn_step c s = (s', [f], True) \<and> frame_view f = v \<and> v_buf s' = d"
proof -
  obtain x xs where x: "snd v = x # xs" "vn_sync x" "fst v = VN"
    and acc: "try_vn x (snd v @ d) = Accept (length (snd v))"
    using try_vn_valid [OF assms(1), of d] by auto
  have b: "v_buf s \<noteq> []" "hd (v_buf s) = x" using assms(2) x by simp_all
  obtain s' f where e: "vn_emit c (x \<noteq> BIN_SYNC) (length (snd v)) s = (s', f)"
    by (cases "vn_emit c (x \<noteq> BIN_SYNC) (length (snd v)) s")
  have "vn_step c s = (s', [f], True)"
    using vn_step_sync [OF b(1), unfolded b(2), OF x(2), of c, unfolded assms(2) acc] e by simp
  moreover have "frame_view f = v" "v_buf s' = d"
    using e assms(2) x(3) by (auto simp: vn_emit_def frame_view_def intro: prod_eqI)
  ultimately show ?thesis by blast
qed

definition vn_ok :: "vn_framer \<Rightarrow> bytes \<Rightarrow> bool" where
  "vn_ok s d \<longleftrightarrow> length (v_buf s) + length d \<le> MAX_BUFFER"

lemma vn_feed_start:
  "\<exists>t. vn_feed c s d = vn_loop c t \<and> (\<exists>g. v_buf s @ d = g @ v_buf t) \<and>
    length (v_buf t) + vn_garbage t = length (v_buf s) + length d + vn_garbage s"
proof -
  let ?s1 = "vn_push s d" and ?n = "length (v_buf s @ d) - MAX_BUFFER"
  let ?t = "if length (v_buf ?s1) > MAX_BUFFER then vn_skip ?n ?s1 else ?s1"
  have "vn_garbage ?s1 = vn_garbage s" by (simp add: vn_garbage_def vn_push_def)
  then have "length (v_buf ?t) + vn_garbage ?t = length (v_buf s) + length d + vn_garbage s"
    by (simp del: drop_append)
  moreover have "\<exists>g. v_buf s @ d = g @ v_buf ?t"
    using append_take_drop_id [of ?n "v_buf s @ d"] by (cases "length (v_buf ?s1) > MAX_BUFFER")
      (simp_all del: append_take_drop_id drop_append take_append, metis)
  moreover have "vn_feed c s d = vn_loop c ?t" by (simp add: vn_feed_def Let_def)
  ultimately show ?thesis by blast
qed

interpretation vn: counting_scanner v_buf vn_push vn_step vn_loop vn_feed frame_view snd valid_vn
  vn_ok vn_garbage
proof
  fix c c' :: "real \<times> real" and s s' :: vn_framer and fs :: "frame list" and go :: bool
    and a b d :: bytes and v :: "proto \<times> bytes"
  show "vn_loop c s = (if v_buf s = [] then (s, [])
       else (case vn_step c s of (s', fs, go) \<Rightarrow>
               if go then (case vn_loop c s' of (t, gs) \<Rightarrow> (t, fs @ gs)) else (s', fs)))"
    by (subst vn_loop.simps) simp
  show "\<exists>fs'. vn_step c' s = (s', fs', go) \<and> map frame_view fs' = map frame_view fs"
    if "vn_step c s = (s', fs, go)"
    using that by (rule vn_step_clock)
  show "length (v_buf s') < length (v_buf s)" if "v_buf s \<noteq> []" "vn_step c s = (s', fs, True)"
    using that by (rule vn_step_progress)
  show "cuts (v_buf s) (map (\<lambda>f. snd (frame_view f)) fs) (v_buf s')"
    if "v_buf s \<noteq> []" "vn_step c s = (s', fs, go)"
    using vn_step_frames [OF that] by blast
  show "valid_vn (frame_view f)"
    if "v_buf s \<noteq> []" "vn_step c s = (s', fs, go)" "f \<in> set fs" for f
    using vn_step_frames [OF that(1,2)] that(3) by blast
  show "length (v_buf s) + vn_garbage s =
      length (v_buf s') + vn_garbage s' + sum_list (map (\<lambda>f. length (snd (frame_view f))) fs)"
    if "v_buf s \<noteq> []" "vn_step c s = (s', fs, go)"
    using vn_step_frames [OF that] by blast
  show "\<exists>s' f. vn_step c s = (s', [f], True) \<and> frame_view f = v \<and> v_buf s' = d"
    if "valid_vn v" "v_buf s = snd v @ d"
    using that by (rule vn_step_complete)
  show "snd v \<noteq> []" if "valid_vn v"
    using try_vn_valid [OF that] by auto
  show "v_buf (vn_push s d) = v_buf s @ d" by simp
  show "vn_push (vn_push s a) b = vn_push s (a @ b)" by (simp add: vn_push_def)
  show "vn_feed c s d = vn_loop c (vn_push s d)" if "vn_ok s d"
    using that by (simp add: vn_ok_def vn_feed_def Let_def)
  show "\<exists>t. vn_feed c s d = vn_loop c t \<and> (\<exists>g. v_buf s @ d = g @ v_buf t)"
    using vn_feed_start by blast
  show "\<exists>t. vn_feed c s d = vn_loop c t \<and>
      length (v_buf t) + vn_garbage t = length (v_buf s) + length d + vn_garbage s"
    using vn_feed_start by blast
  show "vn_ok s a" if "vn_ok s (a @ b)" using that by (simp add: vn_ok_def)
  show "vn_ok (vn_push s a) b" if "vn_ok s (a @ b)" using that by (simp add: vn_ok_def)
  show "vn_ok s' d" if "vn_ok s d" "v_buf s \<noteq> []" "vn_step c s = (s', fs, go)"
    using that(1) cuts_length [of "v_buf s" _ "v_buf s'"] vn_step_frames [OF that(2,3)]
    by (fastforce simp: vn_ok_def)
  show "apsnd (map frame_view) (vn_loop c (vn_push s d)) =
      (case vn_loop c (vn_push s' d) of (t, gs) \<Rightarrow> (t, map frame_view fs @ map frame_view gs))"
    if "v_buf s \<noteq> []" "vn_step c s = (s', fs, True)"
    using vn_resume [OF that, of d] by (simp split: prod.splits)
  show "fs = [] \<and> apsnd (map frame_view) (vn_loop c (vn_push s d)) =
      apsnd (map frame_view) (vn_loop c (vn_push s' d))"
    if "v_buf s \<noteq> []" "vn_step c s = (s', fs, False)"
    using that(2,1) by (cases rule: vn_step_cases) simp_all
qed

interpretation vn_cap: bounded_scanner v_buf vn_push vn_step vn_loop vn_feed frame_view snd valid_vn
  vn_ok MAX_PENDING
proof
  show "length (v_buf s') \<le> MAX_PENDING"
    if "v_buf s \<noteq> []" "vn_step c s = (s', fs, False)" for s c s' fs
    using that(2,1) by (cases rule: vn_step_cases) (auto dest: try_vn_Wait)
qed

section \<open>Lines that the driver builds\<close>

definition printable :: "byte \<Rightarrow> bool" where
  "printable b \<longleftrightarrow> 0x20 \<le> b \<and> b \<le> 0x7E"

lemma hex_fixed_printable: "x \<in> set (hex_fixed w n) \<Longrightarrow> printable x"
proof -
  assume "x \<in> set (hex_fixed w n)"
  then obtain d where d: "0 \<le> d" "d < 16" "x = hex_char d" using hex_fixed_set by blast
  then have "d = 0 \<or> d = 1 \<or> d = 2 \<or> d = 3 \<or> d = 4 \<or> d = 5 \<or> d = 6 \<or> d = 7 \<or> d = 8 \<or> d = 9 \<or>
      d = 10 \<or> d = 11 \<or> d = 12 \<or> d = 13 \<or> d = 14 \<or> d = 15"
    by presburger
  then show ?thesis using d(3) by (auto simp: hex_char_def printable_def)
qed

lemma finalize_ascii_line:
  assumes "take 2 raw = [0x56, 0x4E]" "list_all printable raw"
  shows "valid_line (finalize_ascii raw crc) \<longleftrightarrow> length raw + (if crc then 2 else 0) \<le> 509"
proof -
  let ?cs = "if crc then hex_fixed 4 (crc16_xmodem raw) else hex_fixed 2 (xor8 raw)"
  let ?r = "finalize_ascii raw crc"
  have r: "?r = (36 # raw @ 42 # ?cs) @ [13, 10]" by (simp add: finalize_ascii_def)
  have len: "length ?r = length raw + length ?cs + 4" "length ?cs = (if crc then 4 else 2)"
    by (simp_all add: finalize_ascii_def)
  have "list_all printable ?cs" by (auto simp: list_all_iff intro: hex_fixed_printable)
  moreover have "printable 36" "printable 42" by (simp_all add: printable_def)
  ultimately have p: "list_all printable (36 # raw @ 42 # ?cs)" using assms(2) by simp
  have "printable (?r ! i)" if "i < length ?r - 2" for i
  proof -
    have "i < length (36 # raw @ 42 # ?cs)" using that unfolding r by simp
    then show ?thesis unfolding r using p by (auto simp: nth_append list_all_length simp del: append_Cons)
  qed
  then have pr: "\<forall>i \<in> {3..<length ?r - 2}. 0x20 \<le> ?r ! i \<and> ?r ! i \<le> 0x7E"
    by (simp add: printable_def)
  have two: "2 \<le> length raw" using arg_cong [OF assms(1), of length] by simp
  have "take 3 ?r = 36 # take 2 raw" using two by (simp add: r numeral_3_eq_3 numeral_2_eq_2)
  then have pre: "take 3 ?r = VN_PREFIX" using assms(1) by (simp add: VN_PREFIX_def)
  have "drop (length ?r - 2) ?r = [0x0D, 0x0A]" unfolding r by simp
  then show ?thesis
    using pre pr len two verify_finalize_ascii_line [of raw crc]
    by (auto simp: valid_line_def ASCII_MAX_LEN_def)
qed

section \<open>Properties\<close>

text \<open>
  Feeding a stream to the VectorNav framer in any chunking gives the same frames, buffer,
  resync state and counters as feeding it whole, as long as it fits the buffer.
\<close>

theorem vn_chunking:
  assumes "length cs = length ds" "ds \<noteq> []" "length (v_buf s) + length (concat ds) \<le> MAX_BUFFER"
  shows "feed_chunks vn_feed frame_view cs s ds = apsnd (map frame_view) (vn_feed c s (concat ds))"
  by (rule vn.feed_all_concat) (use assms in \<open>simp_all add: vn_ok_def\<close>)

lemma vn_chunking_witness:
  "feed_chunks vn_feed frame_view [(0, 0), (1, 1)] vn_init [[0x24, 0x56], [0x4E, 0x2A, 0x31]] =
   apsnd (map frame_view) (vn_feed (2, 2) vn_init (concat [[0x24, 0x56], [0x4E, 0x2A, 0x31]]))"
  by (rule vn_chunking) (simp_all add: vn_init_def MAX_BUFFER_def)

text \<open>
  C4. Every frame the VectorNav framer returns is a binary frame of the length its header
  gives with a zero CRC residue, or a printable line with a valid checksum; frames are cut out
  of the stream in order; every byte is in a frame, counted as skipped or still buffered; and
  at most 8,192 bytes stay buffered.
\<close>

theorem vn_feed_sound:
  assumes "vn_feed clk s d = (t, fs)"
  shows "list_all (\<lambda>f. valid_vn (frame_view f)) fs \<and>
    cuts (v_buf s @ d) (map fr_raw fs) (v_buf t) \<and> length (v_buf t) \<le> 8192 \<and>
    length (v_buf s) + length d + vs_bytes_skipped (v_stats s) =
    length (v_buf t) + vs_bytes_skipped (v_stats t) + sum_list (map (\<lambda>f. length (fr_raw f)) fs)"
  using vn.feed_wf [OF assms] vn.feed_in_order [OF assms] vn.feed_conserves [OF assms]
    vn_cap.feed_cap [OF assms]
  by (simp add: list_all_iff frame_view_def vn_garbage_def MAX_PENDING_def)

lemma vn_feed_sound_witness:
  "\<exists>t fs. vn_feed (0, 0) vn_init [1, 2, 0x24, 0x56] = (t, fs) \<and> length (v_buf t) \<le> 8192 \<and>
    4 = length (v_buf t) + vs_bytes_skipped (v_stats t) + sum_list (map (\<lambda>f. length (fr_raw f)) fs)"
proof -
  obtain t fs where t: "vn_feed (0, 0) vn_init [1, 2, 0x24, 0x56] = (t, fs)"
    by (cases "vn_feed (0, 0) vn_init [1, 2, 0x24, 0x56]")
  from vn_feed_sound [OF t] t show ?thesis by (auto simp: vn_init_def)
qed

text \<open>
  The lines that \<open>finalize_ascii\<close> builds from printable VN bodies come back from the framer
  as exactly those lines, up to a total length of 515 bytes; a longer one is not a valid line.
\<close>

theorem vn_ascii_roundtrip:
  assumes "list_all (\<lambda>raw. take 2 raw = [0x56, 0x4E] \<and> list_all printable raw) raws"
    and "length (concat (map (\<lambda>raw. finalize_ascii raw crc) raws)) \<le> MAX_BUFFER"
  shows "list_all (\<lambda>raw. length (finalize_ascii raw crc) \<le> 515) raws \<longleftrightarrow>
    (\<exists>t fs. vn_feed clk vn_init (concat (map (\<lambda>raw. finalize_ascii raw crc) raws)) = (t, fs) \<and>
      map fr_raw fs = map (\<lambda>raw. finalize_ascii raw crc) raws \<and> v_buf t = [])"
proof -
  let ?rs = "map (\<lambda>raw. finalize_ascii raw crc) raws" and ?vs = "map (\<lambda>raw. (VN, finalize_ascii raw crc)) raws"
  have len: "length (finalize_ascii raw crc) = length raw + (if crc then 8 else 6)" for raw
    by (simp add: finalize_ascii_def)
  have line: "valid_line (finalize_ascii raw crc) \<longleftrightarrow> length (finalize_ascii raw crc) \<le> 515"
    if "raw \<in> set raws" for raw
    using finalize_ascii_line [of raw crc] assms(1) that len [of raw] by (auto simp: list_all_iff)
  have start: "hd (finalize_ascii raw crc) = ASCII_START" for raw
    by (simp add: finalize_ascii_def ASCII_START_def)
  show ?thesis
  proof
    assume "list_all (\<lambda>raw. length (finalize_ascii raw crc) \<le> 515) raws"
    then have "\<forall>v \<in> set ?vs. valid_vn v" using line by (auto simp: valid_vn_def list_all_iff)
    moreover have "concat (map snd ?vs) = concat ?rs" by (simp add: comp_def)
    ultimately obtain t fs where t: "vn_feed clk vn_init (concat ?rs) = (t, fs)"
      "map frame_view fs = ?vs" "v_buf t = []"
      using vn.feed_stream [of ?vs vn_init clk] assms(2) by (auto simp: vn_ok_def vn_init_def)
    have raws: "map fr_raw fs = ?rs"
      using arg_cong [OF t(2), of "map snd"] by (simp add: frame_view_def comp_def)
    then show "\<exists>t fs. vn_feed clk vn_init (concat ?rs) = (t, fs) \<and> map fr_raw fs = ?rs \<and> v_buf t = []"
      using t by auto
  next
    assume "\<exists>t fs. vn_feed clk vn_init (concat ?rs) = (t, fs) \<and> map fr_raw fs = ?rs \<and> v_buf t = []"
    then obtain t fs where t: "vn_feed clk vn_init (concat ?rs) = (t, fs)" "map fr_raw fs = ?rs" by blast
    have "valid_line (finalize_ascii raw crc)" if r: "raw \<in> set raws" for raw
    proof -
      have "finalize_ascii raw crc \<in> fr_raw ` set fs" using r t(2) by (metis image_eqI set_map)
      then obtain f where f: "f \<in> set fs" "finalize_ascii raw crc = fr_raw f" by auto
      have "valid_binary (finalize_ascii raw crc) \<or> valid_line (finalize_ascii raw crc)"
        using vn.feed_wf [OF t(1) f(1)] f(2) by (simp add: valid_vn_def frame_view_def)
      then show ?thesis using start by (auto simp: valid_binary_def BIN_SYNC_def ASCII_START_def)
    qed
    then show "list_all (\<lambda>raw. length (finalize_ascii raw crc) \<le> 515) raws"
      using line by (auto simp: list_all_iff)
  qed
qed

lemma vn_ascii_roundtrip_witness:
  "\<exists>t fs. vn_feed (0, 0) vn_init (concat (map (\<lambda>raw. finalize_ascii raw False) [[0x56, 0x4E, 0x52]])) = (t, fs) \<and>
      map fr_raw fs = map (\<lambda>raw. finalize_ascii raw False) [[0x56, 0x4E, 0x52]] \<and> v_buf t = []"
  by (rule vn_ascii_roundtrip [THEN iffD1])
    (simp_all add: printable_def finalize_ascii_def MAX_BUFFER_def)

end
