(* ===== verification/Bus.thy ===== *)
theory Bus
  imports Prelude "HOL-Library.Sublist"
begin

text \<open>
  The publish/subscribe bus, \<open>src/mtrtk/core/bus.py\<close>. A subscription's \<open>asyncio.Queue\<close> is the
  list of its items, oldest first; \<open>get\<close> on an empty queue, which suspends the consumer, has no
  result. Subscriptions are objects that the bus and their consumers share, so the bus keeps
  them in a store and refers to them by address.

  \<open>drop_oldest\<close> is the contract of a bounded queue that makes room by losing its oldest item;
  the subscriptions and the NTRIP caster's client queues are instances.
\<close>

section \<open>The contract of a queue that drops its oldest item\<close>

definition last_n :: "nat \<Rightarrow> 'a list \<Rightarrow> 'a list" where
  "last_n n xs = drop (length xs - n) xs"

lemma length_last_n [simp]: "length (last_n n xs) = min n (length xs)"
  by (auto simp: last_n_def min_def)

locale drop_oldest =
  fixes items :: "'s \<Rightarrow> 'a list"
    and cap :: "'s \<Rightarrow> nat"
    and lost :: "'s \<Rightarrow> nat"
    and live :: "'s \<Rightarrow> bool"
    and put :: "'a \<Rightarrow> 's \<Rightarrow> 's"
  assumes put_room: "live s \<Longrightarrow> length (items s) < cap s \<Longrightarrow>
      items (put x s) = items s @ [x] \<and> lost (put x s) = lost s"
    and put_full: "live s \<Longrightarrow> length (items s) = cap s \<Longrightarrow>
      items (put x s) = tl (items s) @ [x] \<and> lost (put x s) = Suc (lost s)"
    and put_live: "live s \<Longrightarrow> live (put x s) \<and> cap (put x s) = cap s"
    and live_cap: "live s \<Longrightarrow> 0 < cap s \<and> length (items s) \<le> cap s"
begin

lemma put_last_n:
  assumes "live s"
  shows "items (put x s) = last_n (cap s) (items s @ [x]) \<and>
    lost (put x s) + length (items (put x s)) = lost s + length (items s) + 1"
proof -
  have c: "0 < cap s" "length (items s) \<le> cap s" using live_cap [OF assms] by auto
  then consider "length (items s) < cap s" | "length (items s) = cap s" by linarith
  then show ?thesis
  proof cases
    case 1
    then show ?thesis using put_room [OF assms] by (auto simp: last_n_def)
  next
    case 2
    then obtain y ys where "items s = y # ys" using c by (cases "items s") auto
    then show ?thesis using put_full [OF assms 2] 2 by (auto simp: last_n_def)
  qed
qed

lemma last_n_last_n: "last_n n (last_n n xs @ ys) = last_n n (xs @ ys)"
  by (cases "n \<le> length xs") (simp_all add: last_n_def add.commute)

text \<open>After any number of puts the queue holds the newest items, in order, and nothing is uncounted.\<close>

lemma puts_last_n:
  "live s \<Longrightarrow>
   live (fold put xs s) \<and> cap (fold put xs s) = cap s \<and>
   items (fold put xs s) = last_n (cap s) (items s @ xs) \<and>
   lost (fold put xs s) + length (items (fold put xs s)) = lost s + length (items s) + length xs"
proof (induction xs arbitrary: s)
  case Nil
  then show ?case using live_cap by (auto simp: last_n_def)
next
  case (Cons x xs)
  have "live (put x s)" "cap (put x s) = cap s" using put_live [OF Cons.prems] by auto
  then show ?case
    using Cons.IH [of "put x s"] put_last_n [OF Cons.prems, of x] last_n_last_n [of "cap s" "items s @ [x]" xs]
    by auto
qed

end

section \<open>Subscriptions\<close>

datatype policy = DropOldest | Unbounded

datatype 'a msg = Item string 'a | Closed

record 'a subscription =
  s_patterns :: "string list"
  s_policy :: policy
  s_maxsize :: int
  s_high_water :: int
  s_queue :: "'a msg list"
  s_dropped :: nat
  s_high_water_hits :: nat
  s_closed :: bool

definition sub_new :: "string list \<Rightarrow> policy \<Rightarrow> int \<Rightarrow> int \<Rightarrow> 'a subscription" where
  "sub_new patterns policy maxsize high_water =
     \<lparr>s_patterns = patterns, s_policy = policy, s_maxsize = maxsize, s_high_water = high_water,
      s_queue = [], s_dropped = 0, s_high_water_hits = 0, s_closed = False\<rparr>"

definition ends_with :: "string \<Rightarrow> string \<Rightarrow> bool" where
  "ends_with suf xs \<longleftrightarrow> length suf \<le> length xs \<and> drop (length xs - length suf) xs = suf"

definition sub_all :: "string list \<Rightarrow> bool" where
  "sub_all patterns \<longleftrightarrow> ''*'' \<in> set patterns"

definition sub_prefixes :: "string list \<Rightarrow> string list" where
  "sub_prefixes patterns = map butlast (filter (ends_with ''.*'') patterns)"

definition sub_exact :: "string list \<Rightarrow> string list" where
  "sub_exact patterns = filter (\<lambda>p. \<not> ends_with ''*'' p) patterns"

definition pattern_matches :: "string list \<Rightarrow> string \<Rightarrow> bool" where
  "pattern_matches patterns topic \<longleftrightarrow>
     sub_all patterns \<or> topic \<in> set (sub_exact patterns) \<or>
     list_ex (\<lambda>p. starts_with p topic) (sub_prefixes patterns)"

abbreviation sub_matches :: "'a subscription \<Rightarrow> string \<Rightarrow> bool" where
  "sub_matches s \<equiv> pattern_matches (s_patterns s)"

text \<open>\<open>asyncio.Queue.put_nowait\<close>: a queue with a positive \<open>maxsize\<close> raises when it is full.\<close>

definition queue_full :: "'a subscription \<Rightarrow> bool" where
  "queue_full s \<longleftrightarrow> s_maxsize s > 0 \<and> int (length (s_queue s)) \<ge> s_maxsize s"

definition put_nowait :: "'a msg \<Rightarrow> 'a subscription \<Rightarrow> py_error + 'a subscription" where
  "put_nowait m s = (if queue_full s then Inl QueueFull else Inr (s\<lparr>s_queue := s_queue s @ [m]\<rparr>))"

definition evict_one :: "'a subscription \<Rightarrow> 'a subscription" where
  "evict_one s = s\<lparr>s_queue := tl (s_queue s)\<rparr>"

definition sub_offer :: "string \<Rightarrow> 'a \<Rightarrow> 'a subscription \<Rightarrow> py_error + 'a subscription" where
  "sub_offer topic x s =
     (if s_closed s then Inr s
      else if s_policy s = Unbounded then
        (case put_nowait (Item topic x) s of
           Inl e \<Rightarrow> Inl e
         | Inr t \<Rightarrow>
             Inr (if int (length (s_queue t)) \<ge> s_high_water t
                  then t\<lparr>s_high_water_hits := s_high_water_hits t + 1\<rparr> else t))
      else (case put_nowait (Item topic x) s of
              Inr t \<Rightarrow> Inr t
            | Inl e \<Rightarrow> put_nowait (Item topic x)
                ((evict_one s)\<lparr>s_dropped := s_dropped s + 1\<rparr>)))"

definition sub_close :: "'a subscription \<Rightarrow> py_error + 'a subscription" where
  "sub_close s =
     (if s_closed s then Inr s
      else let s1 = s\<lparr>s_closed := True\<rparr> in
        (case put_nowait Closed s1 of
           Inr t \<Rightarrow> Inr t
         | Inl e \<Rightarrow> put_nowait Closed (evict_one s1)))"

text \<open>
  \<open>__anext__\<close>: no result while the queue is empty; otherwise the next item, or \<open>None\<close> for the
  end of the iteration.
\<close>

definition sub_next :: "'a subscription \<Rightarrow> ((string \<times> 'a) option \<times> 'a subscription) option" where
  "sub_next s =
     (case s_queue s of
        [] \<Rightarrow> None
      | m # ms \<Rightarrow>
          Some (case m of Item t x \<Rightarrow> Some (t, x) | Closed \<Rightarrow> None, s\<lparr>s_queue := ms\<rparr>))"

section \<open>The bus\<close>

record 'a bus =
  b_store :: "nat \<Rightarrow> 'a subscription option"
  b_subs :: "nat list"
  b_next :: nat

definition bus_init :: "'a bus" where
  "bus_init = \<lparr>b_store = Map.empty, b_subs = [], b_next = 0\<rparr>"

definition bus_subscribe :: "string list \<Rightarrow> int \<Rightarrow> policy \<Rightarrow> int \<Rightarrow> 'a bus \<Rightarrow> 'a bus \<times> nat" where
  "bus_subscribe patterns maxsize policy high_water b =
     (let size = (if policy = Unbounded then 0 else maxsize); i = b_next b in
      (b\<lparr>b_store := (b_store b)(i \<mapsto> sub_new patterns policy size high_water),
         b_subs := b_subs b @ [i], b_next := i + 1\<rparr>, i))"

definition bus_unsubscribe :: "nat \<Rightarrow> 'a bus \<Rightarrow> py_error + 'a bus" where
  "bus_unsubscribe i b =
     (case b_store b i of
        None \<Rightarrow> Inl KeyError
      | Some s \<Rightarrow>
          (case sub_close s of
             Inl e \<Rightarrow> Inl e
           | Inr t \<Rightarrow> Inr (b\<lparr>b_store := (b_store b)(i \<mapsto> t),
                              b_subs := filter (\<lambda>j. j \<noteq> i) (b_subs b)\<rparr>)))"

fun publish_to :: "nat list \<Rightarrow> string \<Rightarrow> 'a \<Rightarrow> 'a bus \<Rightarrow> py_error + 'a bus" where
  "publish_to [] topic x b = Inr b"
| "publish_to (i # is) topic x b =
     (case b_store b i of
        None \<Rightarrow> Inl KeyError
      | Some s \<Rightarrow>
          if sub_matches s topic then
            (case sub_offer topic x s of
               Inl e \<Rightarrow> Inl e
             | Inr t \<Rightarrow> publish_to is topic x (b\<lparr>b_store := (b_store b)(i \<mapsto> t)\<rparr>))
          else publish_to is topic x b)"

definition bus_publish :: "string \<Rightarrow> 'a \<Rightarrow> 'a bus \<Rightarrow> py_error + 'a bus" where
  "bus_publish topic x b = publish_to (b_subs b) topic x b"

definition subscriber_count :: "'a bus \<Rightarrow> nat" where
  "subscriber_count b = length (b_subs b)"

section \<open>Invariants\<close>

definition queued :: "'a subscription \<Rightarrow> (string \<times> 'a) list" where
  "queued s = List.map_filter (\<lambda>m. case m of Item t x \<Rightarrow> Some (t, x) | Closed \<Rightarrow> None) (s_queue s)"

definition is_item :: "'a msg \<Rightarrow> bool" where
  "is_item m \<longleftrightarrow> m \<noteq> Closed"

text \<open>
  A bounded queue is within its bound, an unbounded subscription has no bound, and the end
  mark is in the queue only after \<open>close\<close>, and last.
\<close>

definition sub_ok :: "'a subscription \<Rightarrow> bool" where
  "sub_ok s \<longleftrightarrow>
     (s_maxsize s > 0 \<longrightarrow> int (length (s_queue s)) \<le> s_maxsize s) \<and>
     (s_policy s = Unbounded \<longrightarrow> s_maxsize s \<le> 0) \<and>
     list_all is_item (butlast (s_queue s)) \<and>
     (\<not> s_closed s \<longrightarrow> list_all is_item (s_queue s))"

lemma queued_simps [simp]:
  "queued (s\<lparr>s_queue := []\<rparr>) = []"
  "queued (s\<lparr>s_dropped := n, s_queue := q\<rparr>) = queued (s\<lparr>s_queue := q\<rparr>)"
  "queued (s\<lparr>s_queue := q @ [Item t x]\<rparr>) = queued (s\<lparr>s_queue := q\<rparr>) @ [(t, x)]"
  "queued (s\<lparr>s_queue := q @ [Closed]\<rparr>) = queued (s\<lparr>s_queue := q\<rparr>)"
  "queued (s\<lparr>s_queue := Item t x # q\<rparr>) = (t, x) # queued (s\<lparr>s_queue := q\<rparr>)"
  "queued (s\<lparr>s_queue := Closed # q\<rparr>) = queued (s\<lparr>s_queue := q\<rparr>)"
  by (simp_all add: queued_def List.map_filter_def)

lemma queued_length:
  "list_all is_item (s_queue s) \<Longrightarrow> length (queued s) = length (s_queue s)"
  by (auto simp: queued_def List.map_filter_def is_item_def list_all_iff filter_id_conv split: msg.splits)

lemma queued_tl:
  assumes "list_all is_item (s_queue s)"
  shows "queued (evict_one s) = tl (queued s)"
  using assms by (cases "s_queue s")
    (auto simp: queued_def evict_one_def List.map_filter_def is_item_def split: msg.splits)

text \<open>An offer always succeeds: on a live subscription it appends, and a full queue loses its oldest item.\<close>

lemma sub_offer_live:
  assumes "sub_ok s" "\<not> s_closed s"
  shows "\<exists>t. sub_offer topic x s = Inr t \<and> sub_ok t \<and> \<not> s_closed t \<and>
    s_patterns t = s_patterns s \<and> s_policy t = s_policy s \<and> s_maxsize t = s_maxsize s \<and>
    (if queue_full s then queued t = tl (queued s) @ [(topic, x)] \<and> s_dropped t = Suc (s_dropped s) \<and>
        queued s \<noteq> []
     else queued t = queued s @ [(topic, x)] \<and> s_dropped t = s_dropped s)"
proof -
  have items: "list_all is_item (s_queue s)" using assms by (simp add: sub_ok_def)
  then have items': "list_all is_item (butlast (s_queue s @ [Item topic x]))" "is_item (Item topic x)"
    "list_all is_item (tl (s_queue s))"
    by (simp_all add: is_item_def, cases "s_queue s", simp_all)
  show ?thesis
  proof (cases "queue_full s")
    case True
    then have p: "s_policy s \<noteq> Unbounded" and q: "s_maxsize s > 0" "int (length (s_queue s)) = s_maxsize s"
      using assms(1) by (auto simp: sub_ok_def queue_full_def)
    then have ne: "s_queue s \<noteq> []" by auto
    then have "queued s \<noteq> []" using queued_length [OF items] by auto
    moreover have "int (length (tl (s_queue s))) < s_maxsize s" using q ne by (cases "s_queue s") auto
    ultimately show ?thesis
      using True p q assms items items' queued_tl [OF items] ne
      by (auto simp: sub_offer_def put_nowait_def queue_full_def evict_one_def sub_ok_def)
  next
    case False
    then show ?thesis
      using assms items items' by (auto simp: sub_offer_def put_nowait_def queue_full_def sub_ok_def queued_def List.map_filter_def)
  qed
qed

lemma sub_offer_closed: "s_closed s \<Longrightarrow> sub_offer topic x s = Inr s"
  by (simp add: sub_offer_def)

lemma sub_close_ok:
  assumes "sub_ok s"
  shows "\<exists>t. sub_close s = Inr t \<and> sub_ok t \<and> s_closed t \<and> s_dropped t = s_dropped s \<and>
    s_maxsize t = s_maxsize s \<and>
    (queued t = queued s \<or> (\<not> s_closed s \<and> queue_full s \<and> queued s \<noteq> [] \<and> queued t = tl (queued s)))"
proof (cases "s_closed s")
  case True
  then show ?thesis using assms by (simp add: sub_close_def)
next
  case False
  then have items: "list_all is_item (s_queue s)" using assms by (simp add: sub_ok_def)
  then have items': "list_all is_item (tl (s_queue s))" by (cases "s_queue s") auto
  show ?thesis
  proof (cases "queue_full s")
    case True
    then have p: "s_policy s \<noteq> Unbounded" and q: "s_maxsize s > 0" "int (length (s_queue s)) = s_maxsize s"
      using assms(1) by (auto simp: sub_ok_def queue_full_def)
    then have ne: "s_queue s \<noteq> []" by auto
    then have "queued s \<noteq> []" using queued_length [OF items] by auto
    moreover have "int (length (tl (s_queue s))) < s_maxsize s" using q ne by (cases "s_queue s") auto
    moreover have "queued (s\<lparr>s_queue := tl (s_queue s)\<rparr>) = tl (queued s)"
      using queued_tl [OF items] by (simp add: evict_one_def)
    ultimately show ?thesis
      using True p q False items' ne assms
      by (auto simp: sub_close_def Let_def put_nowait_def queue_full_def evict_one_def sub_ok_def
          queued_def List.map_filter_def)
  next
    case nf: False
    then show ?thesis
      using False assms items
      by (auto simp: sub_close_def Let_def put_nowait_def queue_full_def sub_ok_def
          queued_def List.map_filter_def)
  qed
qed

lemma sub_next_ok:
  assumes "sub_ok s" "sub_next s = Some (r, t)"
  shows "sub_ok t \<and> s_closed t = s_closed s \<and> s_dropped t = s_dropped s \<and> s_maxsize t = s_maxsize s \<and>
    (case r of Some i \<Rightarrow> queued s = i # queued t | None \<Rightarrow> queued s = [] \<and> queued t = [] \<and> s_closed s)"
proof -
  obtain m ms where q: "s_queue s = m # ms" "t = s\<lparr>s_queue := ms\<rparr>"
      "r = (case m of Item t x \<Rightarrow> Some (t, x) | Closed \<Rightarrow> None)"
    using assms(2) by (auto simp: sub_next_def split: list.splits)
  have "m = Closed \<Longrightarrow> ms = [] \<and> s_closed s"
    using assms(1) q(1) by (cases ms) (auto simp: sub_ok_def is_item_def)
  moreover have "list_all is_item (butlast ms)" "\<not> s_closed s \<longrightarrow> list_all is_item ms"
    using assms(1) q(1) by (cases ms; auto simp: sub_ok_def)+
  ultimately show ?thesis
    using assms(1) q by (cases m) (auto simp: sub_ok_def queued_def List.map_filter_def)
qed

section \<open>A subscription over its life\<close>

datatype 'a sub_op = Offer string 'a | Next | Close

text \<open>The consumer's view: the subscription and the items received, in order.\<close>

fun sub_run ::
  "'a sub_op list \<Rightarrow> 'a subscription \<Rightarrow> py_error + ('a subscription \<times> (string \<times> 'a) list)"
where
  "sub_run [] s = Inr (s, [])"
| "sub_run (Offer topic x # ops) s =
     (case sub_offer topic x s of Inl e \<Rightarrow> Inl e | Inr t \<Rightarrow> sub_run ops t)"
| "sub_run (Close # ops) s =
     (case sub_close s of Inl e \<Rightarrow> Inl e | Inr t \<Rightarrow> sub_run ops t)"
| "sub_run (Next # ops) s =
     (case sub_next s of
        None \<Rightarrow> sub_run ops s
      | Some (r, t) \<Rightarrow>
          (case sub_run ops t of
             Inl e \<Rightarrow> Inl e
           | Inr (u, rcv) \<Rightarrow> Inr (u, (case r of Some i \<Rightarrow> [i] | None \<Rightarrow> []) @ rcv)))"

text \<open>What was offered before the subscription was closed.\<close>

fun offers :: "'a sub_op list \<Rightarrow> (string \<times> 'a) list" where
  "offers [] = []"
| "offers (Offer topic x # ops) = (topic, x) # offers ops"
| "offers (Next # ops) = offers ops"
| "offers (Close # ops) = []"

definition pending_offers :: "'a sub_op list \<Rightarrow> 'a subscription \<Rightarrow> (string \<times> 'a) list" where
  "pending_offers ops s = queued s @ (if s_closed s then [] else offers ops)"

lemma subseq_tl_append: "subseq (xs @ ys) (queued t @ zs) \<Longrightarrow> queued t = tl q \<Longrightarrow> subseq (xs @ ys) (q @ zs)"
  by (cases q) auto

lemma sub_run_ok:
  assumes "sub_ok s"
  shows "\<exists>t rcv e. sub_run ops s = Inr (t, rcv) \<and> sub_ok t \<and> s_maxsize t = s_maxsize s \<and>
    subseq (rcv @ queued t) (pending_offers ops s) \<and> s_dropped s \<le> s_dropped t \<and>
    (s_closed s \<longrightarrow> s_closed t) \<and>
    e \<le> (if s_closed t \<and> \<not> s_closed s then 1 else 0) \<and>
    length (pending_offers ops s) + s_dropped s = length (rcv @ queued t) + s_dropped t + e \<and>
    (s_maxsize s \<le> 0 \<longrightarrow> e = 0 \<and> s_dropped t = s_dropped s)"
  using assms
proof (induction ops s rule: sub_run.induct)
  case (1 s)
  then show ?case by (auto simp: pending_offers_def intro!: exI [of _ 0])
next
  case (2 topic x ops s)
  show ?case
  proof (cases "s_closed s")
    case True
    then show ?thesis using 2 by (simp add: sub_offer_closed pending_offers_def)
  next
    case False
    obtain u where u: "sub_offer topic x s = Inr u" "sub_ok u" "\<not> s_closed u" "s_maxsize u = s_maxsize s"
      "if queue_full s then queued u = tl (queued s) @ [(topic, x)] \<and> s_dropped u = Suc (s_dropped s) \<and>
        queued s \<noteq> []
       else queued u = queued s @ [(topic, x)] \<and> s_dropped u = s_dropped s"
      using sub_offer_live [OF 2(2) False, of topic x] by auto
    obtain t rcv e where t: "sub_run ops u = Inr (t, rcv)" "sub_ok t" "s_maxsize t = s_maxsize u"
      "subseq (rcv @ queued t) (pending_offers ops u)" "s_dropped u \<le> s_dropped t"
      "e \<le> (if s_closed t \<and> \<not> s_closed u then 1 else 0)"
      "length (pending_offers ops u) + s_dropped u = length (rcv @ queued t) + s_dropped t + e"
      "s_maxsize u \<le> 0 \<longrightarrow> e = 0 \<and> s_dropped t = s_dropped u"
      using 2(1) [OF u(1,2)] by blast
    have p: "pending_offers ops u = queued u @ offers ops"
      "pending_offers (Offer topic x # ops) s = queued s @ (topic, x) # offers ops"
      using False u(3) by (simp_all add: pending_offers_def)
    have full: "s_maxsize s \<le> 0 \<Longrightarrow> \<not> queue_full s" by (simp add: queue_full_def)
    have "subseq (rcv @ queued t) (queued s @ (topic, x) # offers ops)"
      using t(4) u(5) unfolding p
      by (cases "queued s") (auto split: if_splits)
    moreover have "length (pending_offers (Offer topic x # ops) s) + s_dropped s =
        length (rcv @ queued t) + s_dropped t + e"
      using t(7) u(5) unfolding p by (cases "queued s") (auto split: if_splits)
    ultimately show ?thesis
      using u t False full unfolding p
      by (intro exI [of _ t] exI [of _ rcv] exI [of _ e]) (auto split: if_splits)
  qed
next
  case (3 ops s)
  obtain u where u: "sub_close s = Inr u" "sub_ok u" "s_closed u" "s_dropped u = s_dropped s"
    "s_maxsize u = s_maxsize s"
    "queued u = queued s \<or> (\<not> s_closed s \<and> queue_full s \<and> queued s \<noteq> [] \<and> queued u = tl (queued s))"
    using sub_close_ok [OF 3(2)] by blast
  obtain t rcv e where t: "sub_run ops u = Inr (t, rcv)" "sub_ok t" "s_maxsize t = s_maxsize u"
    "subseq (rcv @ queued t) (pending_offers ops u)" "s_dropped u \<le> s_dropped t" "s_closed t"
    "e = 0"
    "length (pending_offers ops u) + s_dropped u = length (rcv @ queued t) + s_dropped t + e"
    "s_maxsize u \<le> 0 \<longrightarrow> e = 0 \<and> s_dropped t = s_dropped u"
    using 3(1) [OF u(1,2)] u(3) by auto
  have p: "pending_offers ops u = queued u" "pending_offers (Close # ops) s = queued s"
    using u(3) by (simp_all add: pending_offers_def)
  have full: "s_maxsize s \<le> 0 \<Longrightarrow> \<not> queue_full s" by (simp add: queue_full_def)
  have sub: "subseq (rcv @ queued t) (queued s)"
    using t(4) u(6) unfolding p by (cases "queued s") auto
  from u(6) show ?case
  proof
    assume "queued u = queued s"
    then show ?thesis using u t sub unfolding p
      by (intro exI [of _ t] exI [of _ rcv] exI [of _ 0]) auto
  next
    assume q: "\<not> s_closed s \<and> queue_full s \<and> queued s \<noteq> [] \<and> queued u = tl (queued s)"
    then obtain y ys where "queued s = y # ys" by (cases "queued s") auto
    then show ?thesis using u t sub q full unfolding p
      by (intro exI [of _ t] exI [of _ rcv] exI [of _ 1]) auto
  qed
next
  case (4 ops s)
  show ?case
  proof (cases "sub_next s")
    case None
    then have "sub_run (Next # ops) s = sub_run ops s"
      "pending_offers (Next # ops) s = pending_offers ops s"
      by (simp_all add: pending_offers_def)
    then show ?thesis using 4(1) [OF None 4(3)] by (simp only:)
  next
    case (Some ru)
    obtain r u where ru: "ru = (r, u)" by (cases ru)
    note n = sub_next_ok [OF 4(3) Some [unfolded ru]]
    obtain t rcv e where t: "sub_run ops u = Inr (t, rcv)" "sub_ok t" "s_maxsize t = s_maxsize u"
      "subseq (rcv @ queued t) (pending_offers ops u)" "s_dropped u \<le> s_dropped t"
      "s_closed u \<longrightarrow> s_closed t"
      "e \<le> (if s_closed t \<and> \<not> s_closed u then 1 else 0)"
      "length (pending_offers ops u) + s_dropped u = length (rcv @ queued t) + s_dropped t + e"
      "s_maxsize u \<le> 0 \<longrightarrow> e = 0 \<and> s_dropped t = s_dropped u"
      using 4(2) [OF Some [unfolded ru] refl] n by blast
    have p: "pending_offers (Next # ops) s = (case r of Some i \<Rightarrow> [i] | None \<Rightarrow> []) @ pending_offers ops u"
      using n by (cases r) (auto simp: pending_offers_def)
    show ?thesis
      using Some ru n t unfolding p
      by (intro exI [of _ t] exI [of _ "(case r of Some i \<Rightarrow> [i] | None \<Rightarrow> []) @ rcv"] exI [of _ e])
        (cases r; auto)
  qed
qed

section \<open>Publishing\<close>

definition bus_ok :: "'a bus \<Rightarrow> bool" where
  "bus_ok b \<longleftrightarrow> distinct (b_subs b) \<and> (\<forall>i s. b_store b i = Some s \<longrightarrow> i < b_next b \<and> sub_ok s) \<and>
     list_all (\<lambda>i. case b_store b i of Some s \<Rightarrow> \<not> s_closed s | None \<Rightarrow> False) (b_subs b)"

lemma sub_new_ok: "(pol = Unbounded \<longrightarrow> msz \<le> 0) \<Longrightarrow> sub_ok (sub_new patterns pol msz hw)"
  by (simp add: sub_ok_def sub_new_def)

lemma bus_init_ok: "bus_ok bus_init"
  by (simp add: bus_ok_def bus_init_def)

lemma bus_subscribe_ok:
  assumes "bus_ok b" "bus_subscribe patterns maxsize pol hw b = (b', i)"
  shows "bus_ok b' \<and> b_subs b' = b_subs b @ [i] \<and> b_store b i = None"
proof -
  have i: "i = b_next b" and b': "b_subs b' = b_subs b @ [i]" "b_next b' = i + 1"
    "b_store b' = (b_store b)(i \<mapsto> sub_new patterns pol (if pol = Unbounded then 0 else maxsize) hw)"
    using assms(2) by (auto simp: bus_subscribe_def Let_def)
  have fresh: "b_store b i = None" using assms(1) i by (cases "b_store b i") (auto simp: bus_ok_def)
  moreover have "i \<notin> set (b_subs b)" using assms(1) fresh by (auto simp: bus_ok_def list_all_iff)
  moreover have "sub_ok (sub_new patterns pol (if pol = Unbounded then 0 else maxsize) hw)"
    by (rule sub_new_ok) simp
  ultimately show ?thesis
    using assms(1) b' i by (auto simp: bus_ok_def list_all_iff sub_new_def less_Suc_eq)
qed

lemma bus_unsubscribe_ok:
  assumes "bus_ok b" "b_store b i = Some s"
  shows "\<exists>b'. bus_unsubscribe i b = Inr b' \<and> bus_ok b' \<and> i \<notin> set (b_subs b') \<and>
    (\<forall>j. j \<noteq> i \<longrightarrow> b_store b' j = b_store b j)"
proof -
  have "sub_ok s" using assms by (auto simp: bus_ok_def)
  then obtain t where "sub_close s = Inr t" "sub_ok t" using sub_close_ok by blast
  then show ?thesis using assms by (auto simp: bus_unsubscribe_def bus_ok_def list_all_iff)
qed

text \<open>What one publication does to a subscription.\<close>

definition delivered :: "string \<Rightarrow> 'a \<Rightarrow> 'a subscription \<Rightarrow> 'a subscription" where
  "delivered topic x s = (if sub_matches s topic then projr (sub_offer topic x s) else s)"

lemma publish_to_effect:
  assumes "distinct is" "\<forall>i \<in> set is. \<exists>s. b_store b i = Some s \<and> sub_ok s \<and> \<not> s_closed s"
  shows "\<exists>b'. publish_to is topic x b = Inr b' \<and> b_subs b' = b_subs b \<and> b_next b' = b_next b \<and>
    (\<forall>i. b_store b' i = (if i \<in> set is then map_option (delivered topic x) (b_store b i) else b_store b i))"
  using assms
proof (induction "is" arbitrary: b)
  case (Cons i "is")
  obtain s where s: "b_store b i = Some s" "sub_ok s" "\<not> s_closed s" using Cons.prems(2) by auto
  obtain t where t: "sub_offer topic x s = Inr t" using sub_offer_live [OF s(2,3)] by blast
  let ?b = "if sub_matches s topic then b\<lparr>b_store := (b_store b)(i \<mapsto> t)\<rparr> else b"
  have step: "publish_to (i # is) topic x b = publish_to is topic x ?b" using s t by simp
  have "\<forall>j \<in> set is. \<exists>s. b_store ?b j = Some s \<and> sub_ok s \<and> \<not> s_closed s"
    using Cons.prems by auto
  from Cons.IH [OF _ this] Cons.prems(1) obtain b' where b': "publish_to is topic x ?b = Inr b'"
    "b_subs b' = b_subs b" "b_next b' = b_next b"
    "\<forall>j. b_store b' j = (if j \<in> set is then map_option (delivered topic x) (b_store ?b j) else b_store ?b j)"
    by auto
  have "b_store b' j = (if j \<in> set (i # is) then map_option (delivered topic x) (b_store b j) else b_store b j)" for j
    using b'(4) Cons.prems(1) s(1) t by (auto simp: delivered_def)
  then show ?case using step b' by auto
qed simp

lemma delivered_ok:
  assumes "sub_ok s" "\<not> s_closed s"
  shows "sub_ok (delivered topic x s) \<and> \<not> s_closed (delivered topic x s) \<and>
    s_patterns (delivered topic x s) = s_patterns s \<and> s_policy (delivered topic x s) = s_policy s \<and>
    s_maxsize (delivered topic x s) = s_maxsize s"
  using assms sub_offer_live [OF assms, of topic x] by (auto simp: delivered_def)

lemma bus_publish_effect:
  assumes "bus_ok b"
  shows "\<exists>b'. bus_publish topic x b = Inr b' \<and> bus_ok b' \<and> b_subs b' = b_subs b \<and> b_next b' = b_next b \<and>
    (\<forall>i. b_store b' i =
      (if i \<in> set (b_subs b) then map_option (delivered topic x) (b_store b i) else b_store b i))"
proof -
  have live: "\<forall>i \<in> set (b_subs b). \<exists>s. b_store b i = Some s \<and> sub_ok s \<and> \<not> s_closed s"
    using assms by (auto simp: bus_ok_def list_all_iff split: option.splits)
  then obtain b' where b': "bus_publish topic x b = Inr b'" "b_subs b' = b_subs b" "b_next b' = b_next b"
    "\<forall>i. b_store b' i = (if i \<in> set (b_subs b) then map_option (delivered topic x) (b_store b i) else b_store b i)"
    using publish_to_effect [of "b_subs b" b topic x] assms unfolding bus_publish_def bus_ok_def by blast
  have "bus_ok b'"
    unfolding bus_ok_def list_all_iff
  proof (intro conjI allI impI ballI)
    show "distinct (b_subs b')" using assms b'(2) by (simp add: bus_ok_def)
  next
    fix i s assume "b_store b' i = Some s"
    then obtain s0 where "b_store b i = Some s0" "s = s0 \<or> (i \<in> set (b_subs b) \<and> s = delivered topic x s0)"
      using b'(4) by (auto split: if_splits)
    then show "i < b_next b'" "sub_ok s"
      using assms live b'(3) delivered_ok by (fastforce simp: bus_ok_def)+
  next
    fix i assume "i \<in> set (b_subs b')"
    then show "case b_store b' i of None \<Rightarrow> False | Some s \<Rightarrow> \<not> s_closed s"
      using live b' delivered_ok by fastforce
  qed
  then show ?thesis using b' by blast
qed

interpretation dropping: drop_oldest queued "\<lambda>s. nat (s_maxsize s)" s_dropped
  "\<lambda>s. sub_ok s \<and> \<not> s_closed s \<and> s_maxsize s > 0" "\<lambda>(topic, x) s. projr (sub_offer topic x s)"
proof
  fix s :: "'a subscription" and m :: "string \<times> 'a"
  obtain topic x where m: "m = (topic, x)" by (cases m)
  assume l: "sub_ok s \<and> \<not> s_closed s \<and> s_maxsize s > 0"
  then have len: "length (queued s) = length (s_queue s)"
    by (intro queued_length) (simp add: sub_ok_def)
  then have full: "queue_full s \<longleftrightarrow> length (queued s) = nat (s_maxsize s)"
    using l by (auto simp: queue_full_def sub_ok_def)
  show "0 < nat (s_maxsize s) \<and> length (queued s) \<le> nat (s_maxsize s)"
    using l len by (auto simp: sub_ok_def)
  note o = sub_offer_live [of s topic x]
  show "(sub_ok ((\<lambda>(topic, x) s. projr (sub_offer topic x s)) m s) \<and>
      \<not> s_closed ((\<lambda>(topic, x) s. projr (sub_offer topic x s)) m s) \<and>
      s_maxsize ((\<lambda>(topic, x) s. projr (sub_offer topic x s)) m s) > 0) \<and>
      nat (s_maxsize ((\<lambda>(topic, x) s. projr (sub_offer topic x s)) m s)) = nat (s_maxsize s)"
    using o l m by auto
  show "queued ((\<lambda>(topic, x) s. projr (sub_offer topic x s)) m s) = queued s @ [m] \<and>
      s_dropped ((\<lambda>(topic, x) s. projr (sub_offer topic x s)) m s) = s_dropped s"
    if "length (queued s) < nat (s_maxsize s)"
    using that o l m full by auto
  show "queued ((\<lambda>(topic, x) s. projr (sub_offer topic x s)) m s) = tl (queued s) @ [m] \<and>
      s_dropped ((\<lambda>(topic, x) s. projr (sub_offer topic x s)) m s) = Suc (s_dropped s)"
    if "length (queued s) = nat (s_maxsize s)"
    using that o l m full by auto
qed

section \<open>Properties\<close>

text \<open>
  C5. A consumer receives, in publication order and without duplicates, exactly the offered
  items that were neither dropped (and counted) nor still queued; closing a full queue loses
  one more, uncounted; an unbounded subscription loses nothing; and no operation raises.
\<close>

theorem subscription_delivery:
  fixes ops :: "'a sub_op list"
  assumes "pol = Unbounded \<longrightarrow> msz \<le> 0"
  shows "\<exists>t rcv e. sub_run ops (sub_new patterns pol msz hw) = Inr (t, rcv) \<and>
    subseq (rcv @ queued t) (offers ops) \<and> e \<le> 1 \<and> (e = 1 \<longrightarrow> s_closed t) \<and>
    length (offers ops) = length rcv + length (queued t) + s_dropped t + e \<and>
    (msz > 0 \<longrightarrow> int (length (s_queue t)) \<le> msz) \<and>
    (msz \<le> 0 \<longrightarrow> rcv @ queued t = offers ops \<and> s_dropped t = 0)"
proof -
  let ?s = "sub_new patterns pol msz hw :: 'a subscription"
  have n: "queued ?s = []" "s_dropped ?s = 0" "\<not> s_closed ?s" "s_maxsize ?s = msz"
    by (simp_all add: sub_new_def queued_def List.map_filter_def)
  then have p: "pending_offers ops ?s = offers ops" by (simp add: pending_offers_def)
  obtain t rcv e where t: "sub_run ops ?s = Inr (t, rcv)" "sub_ok t" "s_maxsize t = msz"
    "subseq (rcv @ queued t) (offers ops)" "e \<le> (if s_closed t \<and> \<not> s_closed ?s then 1 else 0)"
    "length (offers ops) + 0 = length (rcv @ queued t) + s_dropped t + e"
    "msz \<le> 0 \<longrightarrow> e = 0 \<and> s_dropped t = 0"
    using sub_run_ok [OF sub_new_ok [OF assms], of ops patterns hw] unfolding n p by blast
  have "msz \<le> 0 \<Longrightarrow> rcv @ queued t = offers ops"
    using t(4,6,7) subseq_same_length [of "rcv @ queued t" "offers ops"] by auto
  moreover have "msz > 0 \<longrightarrow> int (length (s_queue t)) \<le> msz"
    using t(2,3) by (simp add: sub_ok_def)
  ultimately show ?thesis using t(1,4-7) by (intro exI [of _ t] exI [of _ rcv] exI [of _ e]) (auto split: if_splits)
qed

lemma subscription_delivery_witness:
  "\<exists>t rcv. sub_run [Offer ''a'' 1, Offer ''a'' 2, Offer ''a'' (3 :: nat), Next, Close]
      (sub_new [''*''] DropOldest 2 10) = Inr (t, rcv) \<and> rcv = [(''a'', 2)] \<and>
    subseq (rcv @ queued t) [(''a'', 1), (''a'', 2), (''a'', 3)]"
proof -
  let ?ops = "[Offer ''a'' 1, Offer ''a'' 2, Offer ''a'' (3 :: nat), Next, Close]"
  obtain t rcv where t: "sub_run ?ops (sub_new [''*''] DropOldest 2 10) = Inr (t, rcv)"
      "subseq (rcv @ queued t) (offers ?ops)"
    using subscription_delivery [of DropOldest 2 ?ops "[''*'']" 10] by auto
  have "map_sum id snd (sub_run ?ops (sub_new [''*''] DropOldest 2 10)) = Inr [(''a'', 2)]" by code_simp
  then show ?thesis using t by auto
qed

text \<open>
  Publishing never raises, offers the item once to every current subscription whose
  patterns match and touches no other one; an unsubscribed consumer gets nothing more.
\<close>

theorem publish_isolated:
  assumes "bus_ok b"
  shows "\<exists>b'. bus_publish topic x b = Inr b' \<and> bus_ok b' \<and> b_subs b' = b_subs b \<and>
    (\<forall>i. b_store b' i =
      (if i \<in> set (b_subs b)
       then map_option (\<lambda>s. if pattern_matches (s_patterns s) topic then projr (sub_offer topic x s) else s) (b_store b i)
       else b_store b i))"
  using bus_publish_effect [OF assms, of topic x] unfolding delivered_def by blast

lemma publish_isolated_witness:
  "\<exists>b' :: nat bus. bus_publish ''a'' 1 bus_init = Inr b' \<and> bus_ok b' \<and> b_subs b' = []"
  using publish_isolated [of "bus_init :: nat bus" "''a''" 1] bus_init_ok
  by (auto simp: bus_init_def)

text \<open>
  A live consumer that falls behind keeps the newest items: after any number of offers a
  bounded subscription holds the last \<open>maxsize\<close> of them, in order, and its counter says how
  many it lost.
\<close>

theorem subscription_keeps_newest:
  assumes "sub_ok s" "\<not> s_closed s" "s_maxsize s > 0"
  shows "queued (fold (\<lambda>(topic, x) s. projr (sub_offer topic x s)) ms s) =
      last_n (nat (s_maxsize s)) (queued s @ ms) \<and>
    s_dropped (fold (\<lambda>(topic, x) s. projr (sub_offer topic x s)) ms s) =
      s_dropped s + (length (queued s) + length ms - nat (s_maxsize s))"
  using dropping.puts_last_n [of s ms] assms by (auto simp: length_last_n)

lemma subscription_keeps_newest_witness:
  "queued (fold (\<lambda>(topic, x) s. projr (sub_offer topic x s)) [(''a'', 1), (''a'', 2), (''a'', 3 :: nat)]
      (sub_new [''a''] DropOldest 2 10)) = [(''a'', 2), (''a'', 3)]"
  using subscription_keeps_newest [of "sub_new [''a''] DropOldest 2 10" "[(''a'', 1), (''a'', 2), (''a'', 3 :: nat)]"]
  by (simp add: sub_ok_def sub_new_def last_n_def queued_def List.map_filter_def)

end
