(* ===== verification/Router.thy ===== *)
theory Router
  imports Frames SbgFramer VnFramer Bus
begin

text \<open>
  \<open>src/mtrtk/core/router.py\<close>: bytes go through a framer, and every complete frame is published
  on two topics of the bus. The framer is any \<open>FrameSplitter\<close>, an argument here; \<open>names\<close> is
  pyubx2's table of message names, \<open>namer\<close> the registered SBG namer.
\<close>

definition TOPIC_RAW_UBX :: string where "TOPIC_RAW_UBX = ''raw.ubx''"
definition TOPIC_RAW_RTCM :: string where "TOPIC_RAW_RTCM = ''raw.rtcm''"
definition TOPIC_RAW_NMEA :: string where "TOPIC_RAW_NMEA = ''raw.nmea''"
definition TOPIC_RAW_SBG :: string where "TOPIC_RAW_SBG = ''raw.sbg''"
definition TOPIC_RAW_VN :: string where "TOPIC_RAW_VN = ''raw.vn''"

type_synonym namer = "bytes \<Rightarrow> py_error + string"

definition topics_for ::
  "(bytes \<Rightarrow> string option) \<Rightarrow> namer option \<Rightarrow> frame \<Rightarrow> py_error + string \<times> string"
where
  "topics_for names namer f =
     (let name = identity names namer f in
      case fr_proto f of
        UBX \<Rightarrow> map_sum id (\<lambda>n. (TOPIC_RAW_UBX, ''ubx.'' @ n)) name
      | RTCM3 \<Rightarrow> map_sum id (\<lambda>n. (TOPIC_RAW_RTCM, ''rtcm.'' @ dec n)) (rtcm_type f)
      | SBG \<Rightarrow> map_sum id (\<lambda>n. (TOPIC_RAW_SBG, ''sbg.'' @ n)) name
      | VN \<Rightarrow> map_sum id (\<lambda>n. (TOPIC_RAW_VN, ''vn.'' @ n)) name
      | NMEA \<Rightarrow> map_sum id (\<lambda>n. (TOPIC_RAW_NMEA, ''nmea.'' @ n)) name)"

text \<open>The two loops of \<open>feed\<close>; an exception ends them, with what was published so far kept.\<close>

fun publish_frames ::
  "(bytes \<Rightarrow> string option) \<Rightarrow> namer option \<Rightarrow> frame list \<Rightarrow> frame bus \<Rightarrow> frame bus \<times> py_error option"
where
  "publish_frames names namer [] b = (b, None)"
| "publish_frames names namer (f # fs) b =
     (case topics_for names namer f of
        Inl e \<Rightarrow> (b, Some e)
      | Inr (t1, t2) \<Rightarrow>
          (case bus_publish t1 f b of
             Inl e \<Rightarrow> (b, Some e)
           | Inr b1 \<Rightarrow>
               (case bus_publish t2 f b1 of
                  Inl e \<Rightarrow> (b1, Some e)
                | Inr b2 \<Rightarrow> publish_frames names namer fs b2)))"

record 's router =
  r_bus :: "frame bus"
  r_framer :: 's
  r_bytes_in :: nat

definition router_feed ::
  "(bytes \<Rightarrow> string option) \<Rightarrow> namer option \<Rightarrow> ('c \<Rightarrow> 's \<Rightarrow> bytes \<Rightarrow> 's \<times> frame list) \<Rightarrow> 'c \<Rightarrow> bytes \<Rightarrow>
   's router \<Rightarrow> 's router \<times> (py_error + frame list)"
where
  "router_feed names namer feed clk data r =
     (case feed clk (r_framer r) data of
        (fr, frames) \<Rightarrow>
          (case publish_frames names namer frames (r_bus r) of
             (b, err) \<Rightarrow>
               (r\<lparr>r_bus := b, r_framer := fr, r_bytes_in := r_bytes_in r + length data\<rparr>,
                (case err of Some e \<Rightarrow> Inl e | None \<Rightarrow> Inr frames))))"

section \<open>Frames of the framers have topics\<close>

definition raw_topic :: "proto \<Rightarrow> string" where
  "raw_topic p = (case p of UBX \<Rightarrow> TOPIC_RAW_UBX | RTCM3 \<Rightarrow> TOPIC_RAW_RTCM | SBG \<Rightarrow> TOPIC_RAW_SBG
     | VN \<Rightarrow> TOPIC_RAW_VN | NMEA \<Rightarrow> TOPIC_RAW_NMEA)"

definition well_formed :: "frame \<Rightarrow> bool" where
  "well_formed f \<longleftrightarrow> valid_frame (frame_view f) \<or> valid_sbg (frame_view f) \<or> valid_vn (frame_view f)"

lemma well_formed_length:
  assumes "well_formed f" "fr_proto f \<in> {UBX, RTCM3, SBG}"
  shows "5 \<le> length (fr_raw f)"
  using assms
  by (auto simp: well_formed_def frame_view_def valid_frame_def valid_ubx_def valid_rtcm_def
      valid_sbg_def sbg_on_wire_def valid_vn_def split: proto.splits)

lemma topics_for_well_formed:
  assumes "well_formed f"
  shows "\<exists>n. topics_for names (Some name_for) f = Inr (raw_topic (fr_proto f), n) \<and>
    take 4 n \<noteq> ''raw.''"
proof -
  have len: "5 \<le> length (fr_raw f)" if "fr_proto f \<in> {UBX, RTCM3, SBG}"
    using well_formed_length [OF assms that] .
  show ?thesis
  proof (cases "fr_proto f")
    case UBX
    with len show ?thesis
      by (auto simp: topics_for_def identity_def raw_topic_def byte_at_def Let_def
          split: option.splits list.splits)
  next
    case RTCM3
    with len show ?thesis
      by (auto simp: topics_for_def identity_def raw_topic_def byte_at_def Let_def rtcm_type_def)
  next
    case NMEA
    then show ?thesis by (simp add: topics_for_def identity_def raw_topic_def Let_def)
  next
    case SBG
    with len show ?thesis
      by (auto simp: topics_for_def identity_def raw_topic_def byte_at_def Let_def name_for_def)
  next
    case VN
    then show ?thesis by (simp add: topics_for_def identity_def raw_topic_def Let_def)
  qed
qed

section \<open>Publishing frames\<close>

lemma publish_frames_effect:
  assumes "bus_ok b" "list_all well_formed fs" "i \<in> set (b_subs b)" "b_store b i = Some s"
    and "\<not> s_closed s" "s_maxsize s \<le> 0" "s_patterns s = [raw_topic p]"
  shows "\<exists>b' s'. publish_frames names (Some name_for) fs b = (b', None) \<and> bus_ok b' \<and>
    b_subs b' = b_subs b \<and> b_store b' i = Some s' \<and>
    queued s' = queued s @ map (Pair (raw_topic p)) (filter (\<lambda>f. fr_proto f = p) fs) \<and>
    s_dropped s' = s_dropped s"
  using assms
proof (induction fs arbitrary: b s)
  case (Cons f fs)
  obtain n where t: "topics_for names (Some name_for) f = Inr (raw_topic (fr_proto f), n)"
      and n: "take 4 n \<noteq> ''raw.''"
    using topics_for_well_formed [of f names] Cons.prems(2) by auto
  have raw: "raw_topic q = raw_topic p \<longleftrightarrow> q = p" "take 4 (raw_topic p) = ''raw.''"
    "\<not> ends_with ''*'' (raw_topic p)" "\<not> ends_with ''.*'' (raw_topic p)" "raw_topic p \<noteq> ''*''" for q
    by (cases p; cases q; simp add: raw_topic_def TOPIC_RAW_UBX_def TOPIC_RAW_RTCM_def
        TOPIC_RAW_NMEA_def TOPIC_RAW_SBG_def TOPIC_RAW_VN_def ends_with_def)+
  have matches: "sub_matches u topic \<longleftrightarrow> topic = raw_topic p" if "s_patterns u = [raw_topic p]"
    for u :: "frame subscription" and topic
    using raw that by (auto simp: pattern_matches_def sub_all_def sub_exact_def sub_prefixes_def)
  have one: "\<exists>b' s'. bus_publish topic f b = Inr b' \<and> bus_ok b' \<and> b_subs b' = b_subs b \<and>
      b_store b' i = Some s' \<and> \<not> s_closed s' \<and> s_maxsize s' \<le> 0 \<and> s_patterns s' = [raw_topic p] \<and>
      queued s' = queued s @ (if topic = raw_topic p then [(topic, f)] else []) \<and>
      s_dropped s' = s_dropped s"
    if h: "bus_ok b" "i \<in> set (b_subs b)" "b_store b i = Some s" "\<not> s_closed s" "s_maxsize s \<le> 0"
      "s_patterns s = [raw_topic p]" for b s topic
  proof -
    obtain b' where b': "bus_publish topic f b = Inr b'" "bus_ok b'" "b_subs b' = b_subs b"
      "b_store b' i = Some (delivered topic f s)"
      using bus_publish_effect [OF h(1), of topic f] h(2,3) by auto
    have ok: "sub_ok s" using h(1,3) by (auto simp: bus_ok_def)
    have "\<not> queue_full s" using h(5) by (simp add: queue_full_def)
    then obtain t where t: "sub_offer topic f s = Inr t" "queued t = queued s @ [(topic, f)]"
      "s_dropped t = s_dropped s"
      using sub_offer_live [OF ok h(4), of topic f] by auto
    have "queued (delivered topic f s) = queued s @ (if topic = raw_topic p then [(topic, f)] else []) \<and>
        s_dropped (delivered topic f s) = s_dropped s"
      unfolding delivered_def matches [OF h(6)] t(1) by (simp add: t(2,3))
    then show ?thesis using b' delivered_ok [OF ok h(4), of topic f] h(5,6)
      by (intro exI [of _ b'] exI [of _ "delivered topic f s"]) simp
  qed
  obtain b1 s1 where b1: "bus_publish (raw_topic (fr_proto f)) f b = Inr b1" "bus_ok b1"
    "b_subs b1 = b_subs b" "b_store b1 i = Some s1" "\<not> s_closed s1" "s_maxsize s1 \<le> 0"
    "s_patterns s1 = [raw_topic p]" "s_dropped s1 = s_dropped s"
    "queued s1 = queued s @ (if fr_proto f = p then [(raw_topic p, f)] else [])"
    using one [OF Cons.prems(1,3-7), of "raw_topic (fr_proto f)"] raw(1) by auto
  have "n \<noteq> raw_topic p" using n raw(2) by auto
  then obtain b2 s2 where b2: "bus_publish n f b1 = Inr b2" "bus_ok b2"
    "b_subs b2 = b_subs b" "b_store b2 i = Some s2" "\<not> s_closed s2" "s_maxsize s2 \<le> 0"
    "s_patterns s2 = [raw_topic p]" "s_dropped s2 = s_dropped s" "queued s2 = queued s1"
    using one [OF b1(2) _ b1(4-7), of n] Cons.prems(3) b1(3,8) by auto
  show ?case
    using Cons.IH [OF b2(2) _ _ b2(4-7)] Cons.prems(2,3) b1 b2 t by auto
qed auto

section \<open>Properties\<close>

text \<open>
  C6. Nothing the framer returns is lost on the way to the raw logger, or reordered: a frame of
  any protocol reaches an unbounded subscription to its raw topic exactly once, in stream
  order, and feeding never raises.
\<close>

theorem router_delivers_raw:
  assumes "bus_ok (r_bus r)" "i \<in> set (b_subs (r_bus r))" "b_store (r_bus r) i = Some s"
    and "\<not> s_closed s" "s_maxsize s \<le> 0" "s_patterns s = [raw_topic p]"
  shows "\<exists>r' s' frames. router_feed names (Some name_for) framer_feed clk data r = (r', Inr frames) \<and>
    framer_feed clk (r_framer r) data = (r_framer r', frames) \<and>
    b_store (r_bus r') i = Some s' \<and>
    queued s' = queued s @ map (Pair (raw_topic p)) (filter (\<lambda>f. fr_proto f = p) frames) \<and>
    s_dropped s' = s_dropped s \<and> r_bytes_in r' = r_bytes_in r + length data"
proof -
  obtain fr frames where f: "framer_feed clk (r_framer r) data = (fr, frames)"
    by (cases "framer_feed clk (r_framer r) data")
  have "list_all well_formed frames"
    using ubx.feed_wf [OF f] by (auto simp: list_all_iff well_formed_def)
  then obtain b' s' where "publish_frames names (Some name_for) frames (r_bus r) = (b', None)"
    "b_store b' i = Some s'" "s_dropped s' = s_dropped s"
    "queued s' = queued s @ map (Pair (raw_topic p)) (filter (\<lambda>f. fr_proto f = p) frames)"
    using publish_frames_effect [OF assms(1) _ assms(2-)] by blast
  then show ?thesis using f by (simp add: router_feed_def)
qed

lemma router_delivers_raw_witness:
  "\<exists>r' s' frames. router_feed Map.empty (Some name_for) framer_feed (0, 0) [0xB5, 0x62, 1, 7, 0, 0, 8, 25]
      \<lparr>r_bus = fst (bus_subscribe [''raw.ubx''] 1000 Unbounded 2000 bus_init),
       r_framer = framer_init 1000, r_bytes_in = 0\<rparr> = (r', Inr frames) \<and>
    b_store (r_bus r') 0 = Some s' \<and>
    queued s' = map (Pair ''raw.ubx'') (filter (\<lambda>f. fr_proto f = UBX) frames)"
proof -
  let ?b = "fst (bus_subscribe [''raw.ubx''] 1000 Unbounded 2000 bus_init) :: frame bus"
  let ?r = "\<lparr>r_bus = ?b, r_framer = framer_init 1000, r_bytes_in = 0\<rparr>"
  let ?s = "sub_new [''raw.ubx''] Unbounded 0 2000 :: frame subscription"
  have b: "bus_ok ?b" "b_subs ?b = [0]" "b_store ?b 0 = Some ?s"
    using bus_subscribe_ok [OF bus_init_ok, of "[''raw.ubx'']" 1000 Unbounded 2000]
    by (auto simp: bus_subscribe_def bus_init_def Let_def split: prod.splits)
  have s: "\<not> s_closed ?s" "s_maxsize ?s \<le> 0" "s_patterns ?s = [raw_topic UBX]" "queued ?s = []"
    by (simp_all add: sub_new_def raw_topic_def TOPIC_RAW_UBX_def queued_def List.map_filter_def)
  obtain r' s' frames where "router_feed Map.empty (Some name_for) framer_feed (0, 0)
      [0xB5, 0x62, 1, 7, 0, 0, 8, 25] ?r = (r', Inr frames)" "b_store (r_bus r') 0 = Some s'"
      "queued s' = queued ?s @ map (Pair (raw_topic UBX)) (filter (\<lambda>f. fr_proto f = UBX) frames)"
    using router_delivers_raw [of ?r 0 ?s UBX Map.empty "(0, 0)" "[0xB5, 0x62, 1, 7, 0, 0, 8, 25]"] b s
    by auto
  then show ?thesis using s by (auto simp: raw_topic_def TOPIC_RAW_UBX_def)
qed

end
