(* ===== verification/Calendar.thy ===== *)
theory Calendar
  imports Prelude
begin

text \<open>
  What the sources use of Python's \<open>datetime\<close>: an aware UTC datetime is the number of
  microseconds since 0001-01-01T00:00 (the proleptic Gregorian calendar of \<open>datetime\<close>), a
  \<open>timedelta\<close> a number of microseconds. The calendar functions are those of CPython's
  \<open>_ymd2ord\<close> and \<open>_ord2ymd\<close>, shown inverse to each other.
\<close>

type_synonym utc = int

definition SECOND :: int where "SECOND = 1000000"
definition HOUR :: int where "HOUR = 3600000000"
definition DAY :: int where "DAY = 86400000000"

text \<open>\<open>t.replace(minute=0, second=0, microsecond=0)\<close>\<close>

definition hour_floor :: "utc \<Rightarrow> utc" where
  "hour_floor t = t - t mod HOUR"

text \<open>\<open>timedelta(seconds=x)\<close> for a real number of seconds.\<close>

definition timedelta_s :: "real \<Rightarrow> int" where
  "timedelta_s x = py_round (x * 1000000)"

section \<open>The Gregorian calendar\<close>

definition is_leap :: "int \<Rightarrow> bool" where
  "is_leap y \<longleftrightarrow> y mod 4 = 0 \<and> (y mod 100 \<noteq> 0 \<or> y mod 400 = 0)"

definition days_before_year :: "int \<Rightarrow> int" where
  "days_before_year year =
     (let y = year - 1 in y * 365 + y div 4 - y div 100 + y div 400)"

definition days_in_month :: "int \<Rightarrow> int \<Rightarrow> int" where
  "days_in_month y m =
     (if m = 2 then (if is_leap y then 29 else 28)
      else if m \<in> {4, 6, 9, 11} then 30 else 31)"

definition valid_date :: "int \<Rightarrow> int \<Rightarrow> int \<Rightarrow> bool" where
  "valid_date y m d \<longleftrightarrow> 1 \<le> y \<and> y \<le> 9999 \<and> 1 \<le> m \<and> m \<le> 12 \<and> 1 \<le> d \<and> d \<le> days_in_month y m"

text \<open>Days in the months of \<open>ms\<close>; the day number of a date, 1 for 0001-01-01.\<close>

fun days_of_months :: "int \<Rightarrow> int list \<Rightarrow> int" where
  "days_of_months y [] = 0"
| "days_of_months y (m # ms) = days_in_month y m + days_of_months y ms"

definition months_before :: "int \<Rightarrow> int list" where
  "months_before m = takeWhile (\<lambda>k. k < m) [1, 2, 3, 4, 5, 6, 7, 8, 9, 10, 11, 12]"

definition day_of_year :: "int \<Rightarrow> int \<Rightarrow> int \<Rightarrow> int" where
  "day_of_year y m d = days_of_months y (months_before m) + d"

definition ymd2ord :: "int \<Rightarrow> int \<Rightarrow> int \<Rightarrow> int" where
  "ymd2ord y m d = days_before_year y + day_of_year y m d"

definition year_of :: "int \<Rightarrow> int" where
  "year_of n =
     (let y = (n - 1) * 400 div 146097 + 1 in if n > days_before_year (y + 1) then y + 1 else y)"

text \<open>Month and day of the \<open>d\<close>-th day of year \<open>y\<close>, looking from the first of the listed months on.\<close>

fun month_day :: "int \<Rightarrow> int list \<Rightarrow> int \<Rightarrow> int \<times> int" where
  "month_day y [] d = (12, d)"
| "month_day y [m] d = (m, d)"
| "month_day y (m # ms) d =
     (if d \<le> days_in_month y m then (m, d) else month_day y ms (d - days_in_month y m))"

definition ord2ymd :: "int \<Rightarrow> int \<times> int \<times> int" where
  "ord2ymd n =
     (let y = year_of n; (m, d) = month_day y [1, 2, 3, 4, 5, 6, 7, 8, 9, 10, 11, 12] (n - days_before_year y)
      in (y, m, d))"

text \<open>\<open>datetime(y, mo, d, h, mi, s, tzinfo=UTC)\<close>; \<open>None\<close> is the \<open>ValueError\<close>.\<close>

definition mk_datetime :: "int \<Rightarrow> int \<Rightarrow> int \<Rightarrow> int \<Rightarrow> int \<Rightarrow> int \<Rightarrow> utc option" where
  "mk_datetime y mo d h mi s =
     (if valid_date y mo d \<and> 0 \<le> h \<and> h \<le> 23 \<and> 0 \<le> mi \<and> mi \<le> 59 \<and> 0 \<le> s \<and> s \<le> 59
      then Some ((ymd2ord y mo d - 1) * DAY + h * HOUR + mi * 60 * SECOND + s * SECOND)
      else None)"

definition date_of :: "utc \<Rightarrow> int \<times> int \<times> int" where
  "date_of t = ord2ymd (t div DAY + 1)"

definition hour_of :: "utc \<Rightarrow> int" where
  "hour_of t = t mod DAY div HOUR"

section \<open>Lemmas\<close>

lemma hour_floor_le: "hour_floor t \<le> t \<and> t < hour_floor t + HOUR"
proof -
  have "t mod HOUR < HOUR" "0 \<le> t mod HOUR" by (simp_all add: HOUR_def)
  then show ?thesis unfolding hour_floor_def by linarith
qed

lemma hour_floor_dvd: "HOUR dvd hour_floor t"
  by (simp add: hour_floor_def minus_mod_eq_mult_div)

lemma hour_floor_idem [simp]: "hour_floor (hour_floor t) = hour_floor t"
  by (simp add: hour_floor_def)

lemma hour_floor_mono: "s \<le> t \<Longrightarrow> hour_floor s \<le> hour_floor t"
  by (simp add: hour_floor_def minus_mod_eq_mult_div HOUR_def zdiv_mono1)

lemma hour_floor_add: "hour_floor t = t \<Longrightarrow> hour_floor (t + HOUR) = t + HOUR"
  by (simp add: hour_floor_def)

lemma py_round_bounds: "of_int (py_round x) - 1 / 2 \<le> x \<and> x \<le> of_int (py_round x) + 1 / 2"
proof -
  define n where "n = \<lfloor>x\<rfloor>"
  have "of_int n \<le> x" "x < of_int n + 1" unfolding n_def by linarith+
  then show ?thesis unfolding py_round_def Let_def n_def [symmetric] by auto
qed

lemma py_round_int [simp]: "py_round (of_int n) = n"
  by (simp add: py_round_def)

lemma days_before_year_bounds:
  "146097 * y - 146796 \<le> 400 * days_before_year y" "400 * days_before_year y \<le> 146097 * y - 145701"
proof -
  define k where "k = y - 1"
  define a b c where "a = k div 4" and "b = k div 100" and "c = k div 400"
  have q: "4 * a = k - k mod 4" "100 * b = k - k mod 100" "400 * c = k - k mod 400"
    by (simp_all add: a_def b_def c_def minus_mod_eq_mult_div)
  have m: "0 \<le> k mod 4" "k mod 4 < 4" "0 \<le> k mod 100" "k mod 100 < 100"
    "0 \<le> k mod 400" "k mod 400 < 400"
    by simp_all
  have d: "400 * days_before_year y = 146000 * k + 400 * a - 400 * b + 400 * c"
    by (simp add: days_before_year_def Let_def k_def a_def b_def c_def algebra_simps)
  have "400 * days_before_year y \<ge> 146097 * k - 699" using q m d by linarith
  then show "146097 * y - 146796 \<le> 400 * days_before_year y" by (simp add: k_def algebra_simps)
  have "400 * days_before_year y \<le> 146097 * k + 396" using q m d by linarith
  then show "400 * days_before_year y \<le> 146097 * y - 145701" by (simp add: k_def algebra_simps)
qed

lemma year_of_bounds:
  "days_before_year (year_of n) < n \<and> n \<le> days_before_year (year_of n + 1)"
proof -
  define k where "k = (n - 1) * 400 div 146097"
  have "(n - 1) * 400 mod 146097 < 146097" "0 \<le> (n - 1) * 400 mod 146097" by simp_all
  moreover have "146097 * k = (n - 1) * 400 - (n - 1) * 400 mod 146097"
    by (simp add: k_def minus_mod_eq_mult_div)
  ultimately have "146097 * k \<le> (n - 1) * 400" "(n - 1) * 400 < 146097 * k + 146097" by linarith+
  then have k: "146097 * k \<le> 400 * n - 400" "400 * n - 400 < 146097 * k + 146097"
    by (simp_all add: algebra_simps)
  have lo: "days_before_year (k + 1) < n"
    using k(1) days_before_year_bounds(2) [of "k + 1"] by (simp add: algebra_simps)
  have hi: "n \<le> days_before_year (k + 3)"
    using k(2) days_before_year_bounds(1) [of "k + 3"] by (simp add: algebra_simps)
  have "year_of n = (if n > days_before_year (k + 2) then k + 2 else k + 1)"
    by (simp add: year_of_def Let_def k_def add.commute)
  then show ?thesis using lo hi by (auto simp: add.commute)
qed

lemma leap_arith:
  assumes "b \<longrightarrow> a" "c \<longrightarrow> b"
  shows "N + 365 + (if a then 1 else 0) - (if b then 1 else 0) + (if c then 1 else 0) =
    N + (if a \<and> (\<not> b \<or> c) then 366 else (365 :: int))"
  using assms by (cases a; cases b; cases c; simp)

lemma days_before_year_step:
  "days_before_year (y + 1) = days_before_year y + (if is_leap y then 366 else 365)"
proof -
  have step: "(k + 1) div m = k div m + (if (k + 1) mod m = 0 then 1 else 0)" if m: "1 < m" for k m :: int
  proof -
    define q r where "q = k div m" and "r = k mod m"
    have k: "k + 1 = m * q + (r + 1)" by (simp add: q_def r_def)
    have r: "0 \<le> r" "r < m" using m by (simp_all add: r_def)
    show ?thesis
    proof (cases "r + 1 < m")
      case True
      then have "(k + 1) div m = q" "(k + 1) mod m = r + 1"
        using k r int_div_pos_eq [OF k] int_mod_pos_eq [OF k] by simp_all
      then show ?thesis using r by (simp add: q_def)
    next
      case False
      with r have "r + 1 = m" by simp
      with k have k': "k + 1 = m * (q + 1) + 0" by (simp add: algebra_simps)
      have "(k + 1) div m = q + 1" "(k + 1) mod m = 0"
        using m int_div_pos_eq [OF k'] int_mod_pos_eq [OF k'] by simp_all
      then show ?thesis by (simp add: q_def)
    qed
  qed
  have imp: "y mod 100 = 0 \<longrightarrow> y mod 4 = 0" "y mod 400 = 0 \<longrightarrow> y mod 100 = 0"
    by presburger+
  have d: "y div m = (y - 1) div m + (if y mod m = 0 then 1 else 0)" if "1 < m" for m
    using step [OF that, of "y - 1"] by simp
  have "days_before_year (y + 1) = y * 365 + y div 4 - y div 100 + y div 400"
    by (simp add: days_before_year_def)
  also have "\<dots> = days_before_year y + 365 + (if y mod 4 = 0 then 1 else 0)
      - (if y mod 100 = 0 then 1 else 0) + (if y mod 400 = 0 then 1 else 0)"
  proof -
    have e: "y div 4 = (y - 1) div 4 + (if y mod 4 = 0 then 1 else 0)"
      "y div 100 = (y - 1) div 100 + (if y mod 100 = 0 then 1 else 0)"
      "y div 400 = (y - 1) div 400 + (if y mod 400 = 0 then 1 else 0)"
      by (rule d, simp)+
    have "(y - 1) * 365 = y * 365 - 365" by simp
    then show ?thesis unfolding days_before_year_def Let_def using e by linarith
  qed
  also have "\<dots> = days_before_year y + (if is_leap y then 366 else 365)"
  proof -
    define a b c where "a \<longleftrightarrow> y mod 4 = 0" and "b \<longleftrightarrow> y mod 100 = 0" and "c \<longleftrightarrow> y mod 400 = 0"
    have "b \<longrightarrow> a" "c \<longrightarrow> b" unfolding a_def b_def c_def by (rule imp)+
    then show ?thesis unfolding is_leap_def a_def [symmetric] b_def [symmetric] c_def [symmetric]
      by (rule leap_arith)
  qed
  finally show ?thesis .
qed

section \<open>Dates and ordinals\<close>

lemma month_day_ok:
  assumes "0 < d" "d \<le> days_of_months y ms" "ms \<noteq> []" "month_day y ms d = (m, e)"
    and "\<And>k. 0 < days_in_month y k" "distinct ms"
  shows "m \<in> set ms \<and> 1 \<le> e \<and> e \<le> days_in_month y m \<and>
    days_of_months y (takeWhile (\<lambda>k. k \<noteq> m) ms) + e = d"
  using assms
proof (induction y ms d rule: month_day.induct)
  case (3 y m1 m2 ms d)
  show ?case
  proof (cases "d \<le> days_in_month y m1")
    case True
    then show ?thesis using 3 by auto
  next
    case False
    then have "m \<in> set (m2 # ms) \<and> 1 \<le> e \<and> e \<le> days_in_month y m \<and>
        days_of_months y (takeWhile (\<lambda>k. k \<noteq> m) (m2 # ms)) + e = d - days_in_month y m1"
      using 3 by auto
    moreover have "m1 \<noteq> m" using calculation 3(7) by auto
    ultimately show ?thesis by auto
  qed
qed auto

lemma days_in_month_pos: "0 < days_in_month y m"
  by (simp add: days_in_month_def)

lemma year_length: "days_of_months y [1, 2, 3, 4, 5, 6, 7, 8, 9, 10, 11, 12] = (if is_leap y then 366 else 365)"
  by (simp add: days_in_month_def)

lemma months_before_listed:
  "list_all (\<lambda>m. months_before m =
     takeWhile (\<lambda>k. k \<noteq> m) [1, 2, 3, 4, 5, 6, 7, 8, 9, 10, 11, 12]) [1..12]"
  by code_simp

lemma months_before_eq:
  assumes "m \<in> {1..12}"
  shows "months_before m = takeWhile (\<lambda>k. k \<noteq> m) [1, 2, 3, 4, 5, 6, 7, 8, 9, 10, 11, 12]"
  using months_before_listed assms unfolding list_all_iff set_upto by blast

lemma ymd2ord_ord2ymd:
  assumes "ord2ymd n = (y, m, d)"
  shows "ymd2ord y m d = n \<and> y = year_of n \<and> 1 \<le> m \<and> m \<le> 12 \<and> 1 \<le> d \<and> d \<le> days_in_month y m"
proof -
  let ?ms = "[1, 2, 3, 4, 5, 6, 7, 8, 9, 10, 11, 12] :: int list"
  have y: "y = year_of n" and md: "month_day y ?ms (n - days_before_year y) = (m, d)"
    using assms by (auto simp: ord2ymd_def Let_def simp del: month_day.simps split: prod.splits)
  have b: "days_before_year y < n" "n \<le> days_before_year (y + 1)"
    using year_of_bounds [of n] y by simp_all
  have "0 < n - days_before_year y" using b(1) by simp
  moreover have "n - days_before_year y \<le> days_of_months y ?ms"
    using b(2) unfolding year_length days_before_year_step by simp
  moreover have "?ms \<noteq> []" "distinct ?ms" by simp_all
  ultimately have "m \<in> set ?ms \<and> 1 \<le> d \<and> d \<le> days_in_month y m \<and>
      days_of_months y (takeWhile (\<lambda>k. k \<noteq> m) ?ms) + d = n - days_before_year y"
    using month_day_ok [OF _ _ _ md days_in_month_pos] by blast
  then have r: "m \<in> set ?ms" "1 \<le> d" "d \<le> days_in_month y m"
    "days_of_months y (takeWhile (\<lambda>k. k \<noteq> m) ?ms) + d = n - days_before_year y"
    by blast+
  then have "m \<in> {1..12}" by auto
  with r y show ?thesis by (auto simp: ymd2ord_def day_of_year_def months_before_eq)
qed

text \<open>Splitting an instant into date and hour and putting the hour together again.\<close>

lemma mk_datetime_of_hour:
  assumes "hour_floor t = t" "date_of t = (y, m, d)" "1 \<le> y" "y \<le> 9999"
  shows "mk_datetime y m d (hour_of t) 0 0 = Some t"
proof -
  have o: "ymd2ord y m d = t div DAY + 1" "1 \<le> m" "m \<le> 12" "1 \<le> d" "d \<le> days_in_month y m"
    using ymd2ord_ord2ymd [OF assms(2) [unfolded date_of_def]] by blast+
  have "HOUR dvd t" using assms(1) hour_floor_dvd [of t] by simp
  then have "HOUR dvd t mod DAY"
    by (simp add: dvd_mod HOUR_def DAY_def)
  then have h: "t mod DAY = hour_of t * HOUR" by (simp add: hour_of_def)
  have "0 \<le> t mod DAY" "t mod DAY < DAY" by (simp_all add: DAY_def)
  then have "0 \<le> hour_of t \<and> hour_of t \<le> 23" unfolding h by (simp add: HOUR_def DAY_def)
  moreover have "t div DAY * DAY + t mod DAY = t" by simp
  ultimately show ?thesis
    using o assms(3,4) h by (simp add: mk_datetime_def valid_date_def)
qed

end
