(* ===== verification/RawLog.thy ===== *)
theory RawLog
  imports Calendar Frames "HOL-Library.AList"
begin

text \<open>
  The hourly raw logger, \<open>src/mtrtk/rawlog/writer.py\<close>: the sidecar, the open hour file, the
  writer with its pending buffer, its clock and its ticker, and the recovery of a tree left by a
  crash.

  The file tree is a \<open>disk\<close>: what each data file holds and what its sidecar says, by key. The
  writer of one station names its files by the hour alone, so its keys are hours; the recovery
  walks any tree and is stated for any key. A sidecar that cannot be loaded is \<open>Unreadable\<close>, the
  ISO strings in a sidecar are the instants they denote. The hasher is the list of the bytes it was
  fed. \<open>rawlog_env\<close> holds what the writer calls and the repository does not define: SHA-256, the
  identity of a frame and the third-party parser of NAV-PVT. Clock readings are
  arguments, one monotonic reading serving a whole step. An \<open>OSError\<close> of the file system and the advance of an instant past the year 9999 are
  not modelled.
\<close>

section \<open>Sidecars\<close>

type_synonym counts = "(string \<times> nat) list"

record sidecar =
  sc_station :: string
  sc_role :: string
  sc_start_utc :: "utc option"
  sc_end_utc :: "utc option"
  sc_hour_utc :: "utc option"
  sc_bytes :: nat
  sc_msg_counts :: counts
  sc_sha256 :: "string option"
  sc_firmware :: string
  sc_site :: "string option"
  sc_keep :: bool
  sc_time_source :: string
  sc_complete :: bool
  sc_recovered :: bool
  sc_end_utc_source :: "string option"

datatype sc_file = Loadable sidecar | Unreadable

record 'k disk =
  d_data :: "'k \<Rightarrow> bytes option"
  d_side :: "'k \<Rightarrow> sc_file option"
  d_tmp :: "'k list"

text \<open>\<open>counts[k] = counts.get(k, 0) + n\<close>, and the same for every entry of another dict.\<close>

definition count_of :: "string \<Rightarrow> counts \<Rightarrow> nat" where
  "count_of k m = (case map_of m k of Some n \<Rightarrow> n | None \<Rightarrow> 0)"

definition count_add :: "string \<Rightarrow> nat \<Rightarrow> counts \<Rightarrow> counts" where
  "count_add k n m = AList.update k (count_of k m + n) m"

definition count_merge :: "counts \<Rightarrow> counts \<Rightarrow> counts" where
  "count_merge extra m = fold (\<lambda>(k, n). count_add k n) extra m"

definition dump_at :: "'k \<Rightarrow> sidecar \<Rightarrow> 'k disk \<Rightarrow> 'k disk" where
  "dump_at h sc d = d\<lparr>d_side := (d_side d)(h := Some (Loadable sc))\<rparr>"

definition contents :: "'k disk \<Rightarrow> 'k \<Rightarrow> bytes" where
  "contents d h = (case d_data d h of Some bs \<Rightarrow> bs | None \<Rightarrow> [])"

definition append_at :: "'k \<Rightarrow> bytes \<Rightarrow> 'k disk \<Rightarrow> 'k disk" where
  "append_at h bs d = d\<lparr>d_data := (d_data d)(h := Some (contents d h @ bs))\<rparr>"

section \<open>The open hour\<close>

record open_log =
  ol_hour :: utc
  ol_sidecar :: sidecar
  ol_hashed :: bytes

text \<open>Python's \<open>a or b\<close> on a string and on an optional string.\<close>

definition or_str :: "string \<Rightarrow> string \<Rightarrow> string" where
  "or_str a b = (if a = [] then b else a)"

definition or_opt :: "string option \<Rightarrow> string option \<Rightarrow> string option" where
  "or_opt a b = (case a of Some (c # cs) \<Rightarrow> a | _ \<Rightarrow> b)"

definition carry_over :: "sc_file option \<Rightarrow> sidecar \<Rightarrow> sidecar" where
  "carry_over previous sc =
     (case previous of
        Some (Loadable p) \<Rightarrow>
          sc\<lparr>sc_recovered := True,
             sc_msg_counts := sc_msg_counts p,
             sc_start_utc := (case sc_start_utc p of Some t \<Rightarrow> Some t | None \<Rightarrow> sc_start_utc sc),
             sc_keep := (sc_keep p \<or> sc_keep sc),
             sc_firmware := or_str (sc_firmware sc) (sc_firmware p),
             sc_site := or_opt (sc_site sc) (sc_site p),
             sc_time_source := or_str (sc_time_source p) (sc_time_source sc)\<rparr>
      | _ \<Rightarrow> sc\<lparr>sc_recovered := True\<rparr>)"

definition open_log_new :: "utc \<Rightarrow> sidecar \<Rightarrow> utc disk \<Rightarrow> open_log \<times> utc disk" where
  "open_log_new h sc d =
     (let bs = contents d h;
          sc' = (if bs \<noteq> [] then carry_over (d_side d h) (sc\<lparr>sc_bytes := length bs\<rparr>) else sc)
      in (\<lparr>ol_hour = h, ol_sidecar = sc', ol_hashed = bs\<rparr>, append_at h [] d))"

definition log_write :: "bytes \<Rightarrow> string \<Rightarrow> open_log \<times> utc disk \<Rightarrow> open_log \<times> utc disk" where
  "log_write raw i = (\<lambda>(l, d).
     (l\<lparr>ol_hashed := ol_hashed l @ raw,
        ol_sidecar := (ol_sidecar l)\<lparr>sc_bytes := sc_bytes (ol_sidecar l) + length raw,
                                     sc_msg_counts := count_add i 1 (sc_msg_counts (ol_sidecar l))\<rparr>\<rparr>,
      append_at (ol_hour l) raw d))"

definition log_write_bulk :: "bytes \<Rightarrow> counts \<Rightarrow> open_log \<times> utc disk \<Rightarrow> open_log \<times> utc disk" where
  "log_write_bulk raw cs = (\<lambda>(l, d).
     (l\<lparr>ol_hashed := ol_hashed l @ raw,
        ol_sidecar := (ol_sidecar l)\<lparr>sc_bytes := sc_bytes (ol_sidecar l) + length raw,
                                     sc_msg_counts := count_merge cs (sc_msg_counts (ol_sidecar l))\<rparr>\<rparr>,
      append_at (ol_hour l) raw d))"

definition log_dump :: "open_log \<Rightarrow> utc disk \<Rightarrow> utc disk" where
  "log_dump l d = dump_at (ol_hour l) (ol_sidecar l) d"

definition log_close :: "(bytes \<Rightarrow> string) \<Rightarrow> utc option \<Rightarrow> open_log \<Rightarrow> utc disk \<Rightarrow> utc disk" where
  "log_close sha end_utc l d =
     dump_at (ol_hour l)
       ((ol_sidecar l)\<lparr>sc_end_utc := end_utc, sc_sha256 := Some (sha (ol_hashed l)),
                       sc_complete := True\<rparr>) d"

section \<open>The writer\<close>

definition PENDING_CAP_BYTES :: nat where "PENDING_CAP_BYTES = 8 * 1024 * 1024"
definition SIDECAR_UPDATE_S :: real where "SIDECAR_UPDATE_S = 60"
definition BACKPRESSURE_REPEAT_S :: real where "BACKPRESSURE_REPEAT_S = 60"

text \<open>The fields of a parsed NAV-PVT that the writer reads.\<close>

record nav_pvt =
  pvt_valid_date :: bool
  pvt_valid_time :: bool
  pvt_year :: int
  pvt_month :: int
  pvt_day :: int
  pvt_hour :: int
  pvt_min :: int
  pvt_second :: int

record rawlog_env =
  e_sha :: "bytes \<Rightarrow> string"
  e_ident :: "frame \<Rightarrow> py_error + string"
  e_pvt :: "frame \<Rightarrow> py_error + nav_pvt"

datatype log_event =
    Rotated utc
  | ClosedHour utc
  | LogError string
  | BackpressureEv nat
  | Drained nat

record writer =
  w_station :: string
  w_role :: string
  w_filter :: "string list"
  w_fsync_interval :: real
  w_high_water :: nat
  w_current :: "open_log option"
  w_firmware :: string
  w_site :: "string option"
  w_pending :: bytes
  w_pending_counts :: counts
  w_utc :: "utc option"
  w_utc_mono :: "real option"
  w_closed_hour :: "utc option"
  w_frozen_utc :: "utc option"
  w_time_source :: string
  w_last_fsync :: real
  w_last_sidecar :: real
  w_fsync_pending :: bool
  w_bp_active :: bool
  w_bp_last :: real
  w_clamped :: bool
  w_disk :: "utc disk"
  w_events :: "log_event list"

definition writer_init ::
  "string \<Rightarrow> string list \<Rightarrow> string \<Rightarrow> real \<Rightarrow> string \<Rightarrow> string option \<Rightarrow> real \<Rightarrow> utc disk \<Rightarrow> writer"
where
  "writer_init station messages role fsync_s firmware site mt d =
     \<lparr>w_station = station, w_role = role, w_filter = messages, w_fsync_interval = fsync_s,
      w_high_water = 2000, w_current = None, w_firmware = firmware, w_site = site,
      w_pending = [], w_pending_counts = [], w_utc = None, w_utc_mono = None,
      w_closed_hour = None, w_frozen_utc = None, w_time_source = ''receiver'',
      w_last_fsync = mt, w_last_sidecar = mt, w_fsync_pending = False,
      w_bp_active = False, w_bp_last = 0, w_clamped = False, w_disk = d, w_events = []\<rparr>"

definition publish_ev :: "log_event \<Rightarrow> writer \<Rightarrow> writer" where
  "publish_ev e w = w\<lparr>w_events := w_events w @ [e]\<rparr>"

text \<open>The metadata setters: the open sidecar is updated too; \<open>keep\<close> is written at once.\<close>

definition on_sidecar :: "(sidecar \<Rightarrow> sidecar) \<Rightarrow> writer \<Rightarrow> writer" where
  "on_sidecar f w =
     w\<lparr>w_current := map_option (\<lambda>l. l\<lparr>ol_sidecar := f (ol_sidecar l)\<rparr>) (w_current w)\<rparr>"

definition dump_current :: "writer \<Rightarrow> writer" where
  "dump_current w =
     (case w_current w of None \<Rightarrow> w | Some l \<Rightarrow> w\<lparr>w_disk := log_dump l (w_disk w)\<rparr>)"

definition set_firmware :: "string \<Rightarrow> writer \<Rightarrow> writer" where
  "set_firmware v w = on_sidecar (\<lambda>sc. sc\<lparr>sc_firmware := v\<rparr>) (w\<lparr>w_firmware := v\<rparr>)"

definition set_site :: "string option \<Rightarrow> writer \<Rightarrow> writer" where
  "set_site v w = on_sidecar (\<lambda>sc. sc\<lparr>sc_site := v\<rparr>) (w\<lparr>w_site := v\<rparr>)"

definition set_keep :: "bool \<Rightarrow> writer \<Rightarrow> writer" where
  "set_keep keep w = dump_current (on_sidecar (\<lambda>sc. sc\<lparr>sc_keep := keep\<rparr>) w)"

definition close_current :: "(bytes \<Rightarrow> string) \<Rightarrow> writer \<Rightarrow> writer" where
  "close_current sha w =
     (case w_current w of
        None \<Rightarrow> w
      | Some l \<Rightarrow> publish_ev (ClosedHour (ol_hour l))
                  (w\<lparr>w_current := None, w_disk := log_close sha (w_utc w) l (w_disk w)\<rparr>))"

definition new_sidecar :: "utc \<Rightarrow> writer \<Rightarrow> sidecar" where
  "new_sidecar h w =
     \<lparr>sc_station = w_station w, sc_role = w_role w, sc_start_utc = w_utc w, sc_end_utc = None,
      sc_hour_utc = Some h, sc_bytes = 0, sc_msg_counts = [], sc_sha256 = None,
      sc_firmware = w_firmware w, sc_site = w_site w, sc_keep = False,
      sc_time_source = w_time_source w, sc_complete = False, sc_recovered = False,
      sc_end_utc_source = None\<rparr>"

definition rotate_to :: "(bytes \<Rightarrow> string) \<Rightarrow> utc \<Rightarrow> writer \<Rightarrow> writer" where
  "rotate_to sha h w0 =
     (let w = close_current sha w0;
          ld = open_log_new h (new_sidecar h w) (w_disk w);
          (l, d) = (if w_pending w \<noteq> [] then log_write_bulk (w_pending w) (w_pending_counts w) ld else ld)
      in publish_ev (Rotated h)
           (dump_current
             (w\<lparr>w_current := Some l, w_disk := d,
                w_pending := [],
                w_pending_counts := (if w_pending w \<noteq> [] then [] else w_pending_counts w)\<rparr>)))"

definition buffer_pending :: "(bytes \<Rightarrow> string) \<Rightarrow> utc \<Rightarrow> real \<Rightarrow> bytes \<Rightarrow> string \<Rightarrow> writer \<Rightarrow> writer" where
  "buffer_pending sha now mt raw i w0 =
     (let w = w0\<lparr>w_pending := w_pending w0 @ raw,
                 w_pending_counts := count_add i 1 (w_pending_counts w0)\<rparr>
      in if length (w_pending w) > PENDING_CAP_BYTES
         then rotate_to sha (hour_floor now)
                (w\<lparr>w_utc := Some now, w_utc_mono := Some mt, w_time_source := ''host''\<rparr>)
         else w)"

definition note_utc :: "utc \<Rightarrow> real \<Rightarrow> writer \<Rightarrow> writer" where
  "note_utc t mt w =
     (let w' = (case w_frozen_utc w of
                  Some z \<Rightarrow> if t \<noteq> z then w\<lparr>w_frozen_utc := None, w_closed_hour := None\<rparr> else w
                | None \<Rightarrow> w)
      in w'\<lparr>w_utc := Some t, w_utc_mono := Some mt, w_time_source := ''receiver''\<rparr>)"

definition clamp_second :: "int \<Rightarrow> writer \<Rightarrow> int \<times> writer" where
  "clamp_second s w =
     (if 0 \<le> s \<and> s \<le> 59 then (s, w) else (min (max s 0) 59, w\<lparr>w_clamped := True\<rparr>))"

text \<open>A handler's result: the exception it ends with, if any, and the state it leaves.\<close>

definition update_time :: "rawlog_env \<Rightarrow> real \<Rightarrow> frame \<Rightarrow> writer \<Rightarrow> py_error option \<times> writer" where
  "update_time E mt f w =
     (case e_pvt E f of
        Inl e \<Rightarrow> (Some e, w)
      | Inr m \<Rightarrow>
          if pvt_valid_date m \<and> pvt_valid_time m then
            (let (s, w') = clamp_second (pvt_second m) w in
             case mk_datetime (pvt_year m) (pvt_month m) (pvt_day m) (pvt_hour m) (pvt_min m) s of
               None \<Rightarrow> (Some ValueError, w')
             | Some t \<Rightarrow> (None, note_utc t mt w'))
          else (None, w))"

definition target_hour :: "utc \<Rightarrow> writer \<Rightarrow> utc" where
  "target_hour t w =
     (case w_closed_hour w of
        Some c \<Rightarrow> if hour_floor t \<le> c then c + HOUR else hour_floor t
      | None \<Rightarrow> hour_floor t)"

definition write_frame :: "(bytes \<Rightarrow> string) \<Rightarrow> utc \<Rightarrow> bytes \<Rightarrow> string \<Rightarrow> writer \<Rightarrow> writer" where
  "write_frame sha h raw i w0 =
     (let w = (case w_current w0 of
                 Some l \<Rightarrow> if ol_hour l \<noteq> h then rotate_to sha h w0 else w0
               | None \<Rightarrow> rotate_to sha h w0)
      in case w_current w of
           None \<Rightarrow> w
         | Some l \<Rightarrow> (let (l', d) = log_write raw i (l, w_disk w) in w\<lparr>w_current := Some l', w_disk := d\<rparr>))"

definition handle_ubx :: "(bytes \<Rightarrow> string) \<Rightarrow> utc \<Rightarrow> real \<Rightarrow> bytes \<Rightarrow> string \<Rightarrow> writer \<Rightarrow> writer" where
  "handle_ubx sha now mt raw i w =
     (if i \<notin> set (w_filter w) then w
      else (case w_utc w of
              None \<Rightarrow> buffer_pending sha now mt raw i w
            | Some t \<Rightarrow> write_frame sha (target_hour t w) raw i w))"

definition handle :: "rawlog_env \<Rightarrow> utc \<Rightarrow> real \<Rightarrow> frame \<Rightarrow> writer \<Rightarrow> py_error option \<times> writer" where
  "handle E now mt f w =
     (if fr_proto f \<noteq> UBX then (None, w)
      else (case e_ident E f of
              Inl e \<Rightarrow> (Some e, w)
            | Inr i \<Rightarrow>
                (let (err, w') = (if i = ''NAV-PVT'' then update_time E mt f w else (None, w))
                 in case err of
                      Some e \<Rightarrow> (Some e, w')
                    | None \<Rightarrow> (None, handle_ubx (e_sha E) now mt (fr_raw f) i w'))))"

section \<open>The ticker\<close>

definition hour_elapsed :: "real \<Rightarrow> writer \<Rightarrow> bool" where
  "hour_elapsed mt w =
     (case (w_current w, w_utc w, w_utc_mono w) of
        (Some l, Some t, Some m) \<Rightarrow>
          0 < mt - m \<and> ol_hour l + HOUR \<le> t + timedelta_s (mt - m)
      | _ \<Rightarrow> False)"

definition close_elapsed_hour :: "(bytes \<Rightarrow> string) \<Rightarrow> real \<Rightarrow> writer \<Rightarrow> writer" where
  "close_elapsed_hour sha mt w =
     (if hour_elapsed mt w then
        (case (w_current w, w_utc w, w_utc_mono w) of
           (Some l, Some t, Some m) \<Rightarrow>
             (close_current sha w)
               \<lparr>w_frozen_utc := (case w_frozen_utc w of Some z \<Rightarrow> Some z | None \<Rightarrow> Some t),
                w_utc := Some (t + timedelta_s (mt - m)),
                w_utc_mono := Some mt,
                w_closed_hour := Some (ol_hour l)\<rparr>
         | _ \<Rightarrow> w)
      else w)"

definition tick :: "(bytes \<Rightarrow> string) \<Rightarrow> real \<Rightarrow> writer \<Rightarrow> writer" where
  "tick sha mt w0 =
     (if w_current w0 = None then w0
      else (let w = close_elapsed_hour sha mt w0 in
            if w_current w = None then w
            else if mt - w_last_sidecar w \<ge> SIDECAR_UPDATE_S
            then (dump_current w)\<lparr>w_last_sidecar := mt\<rparr>
            else w))"

text \<open>The two halves of \<open>_maybe_fsync\<close>, before and after the worker thread.\<close>

definition fsync_begin :: "real \<Rightarrow> writer \<Rightarrow> writer option" where
  "fsync_begin mt w =
     (if w_current w = None \<or> w_fsync_pending w \<or> mt - w_last_fsync w < w_fsync_interval w then None
      else Some (w\<lparr>w_last_fsync := mt, w_fsync_pending := True\<rparr>))"

definition fsync_end :: "writer \<Rightarrow> writer" where
  "fsync_end w = w\<lparr>w_fsync_pending := False\<rparr>"

definition check_pressure :: "nat \<Rightarrow> real \<Rightarrow> writer \<Rightarrow> writer" where
  "check_pressure queued mt w =
     (if queued \<ge> w_high_water w then
        (if w_bp_active w \<and> mt - w_bp_last w < BACKPRESSURE_REPEAT_S then w
         else publish_ev (BackpressureEv queued) (w\<lparr>w_bp_active := True, w_bp_last := mt\<rparr>))
      else if w_bp_active w \<and> queued < w_high_water w div 2 then
        publish_ev (Drained queued) (w\<lparr>w_bp_active := False\<rparr>)
      else w)"

section \<open>The run loop\<close>

text \<open>
  What the event loop interleaves: a frame taken off the subscription (with the length of the
  queue left behind it), a turn of the ticker, the setters other components call. An exception of
  \<open>handle\<close> is reported and the loop goes on.
\<close>

datatype log_input =
    FrameIn frame utc real nat
  | TickIn real
  | FsyncDone
  | KeepIn bool
  | FirmwareIn string
  | SiteIn "string option"
  | UtcIn utc real

definition run_frame :: "rawlog_env \<Rightarrow> frame \<Rightarrow> utc \<Rightarrow> real \<Rightarrow> nat \<Rightarrow> writer \<Rightarrow> writer" where
  "run_frame E f now mt queued w =
     (let (err, w') = handle E now mt f w
      in check_pressure queued mt
           (case err of None \<Rightarrow> w' | Some e \<Rightarrow> publish_ev (LogError ''write'') w'))"

definition run_tick :: "(bytes \<Rightarrow> string) \<Rightarrow> real \<Rightarrow> writer \<Rightarrow> writer" where
  "run_tick sha mt w =
     (let w' = tick sha mt w in case fsync_begin mt w' of Some v \<Rightarrow> v | None \<Rightarrow> w')"

fun log_step :: "rawlog_env \<Rightarrow> log_input \<Rightarrow> writer \<Rightarrow> writer" where
  "log_step E (FrameIn f now mt queued) w = run_frame E f now mt queued w"
| "log_step E (TickIn mt) w = run_tick (e_sha E) mt w"
| "log_step E FsyncDone w = fsync_end w"
| "log_step E (KeepIn b) w = set_keep b w"
| "log_step E (FirmwareIn v) w = set_firmware v w"
| "log_step E (SiteIn v) w = set_site v w"
| "log_step E (UtcIn t mt) w = note_utc t mt w"

definition log_run :: "rawlog_env \<Rightarrow> log_input list \<Rightarrow> writer \<Rightarrow> writer" where
  "log_run E = fold (log_step E)"

text \<open>The \<open>finally\<close> of \<open>run\<close>, after the last frame.\<close>

definition log_finish :: "rawlog_env \<Rightarrow> nat \<Rightarrow> writer \<Rightarrow> writer" where
  "log_finish E queued w =
     close_current (e_sha E)
       (if w_bp_active w then publish_ev (Drained queued) (w\<lparr>w_bp_active := False\<rparr>) else w)"

section \<open>Recovery after a crash\<close>

definition recover_one :: "(bytes \<Rightarrow> string) \<Rightarrow> 'k \<Rightarrow> 'k disk \<times> 'k list \<Rightarrow> 'k disk \<times> 'k list" where
  "recover_one sha k = (\<lambda>(d, out).
     (case d_side d k of
        Some (Loadable sc) \<Rightarrow>
          if sc_complete sc then (d, out)
          else (case d_data d k of
                  None \<Rightarrow> (d\<lparr>d_side := (d_side d)(k := None)\<rparr>, out)
                | Some bs \<Rightarrow>
                    (dump_at k (sc\<lparr>sc_bytes := length bs, sc_sha256 := Some (sha bs),
                                   sc_end_utc := None, sc_end_utc_source := Some ''unknown'',
                                   sc_complete := True, sc_recovered := True\<rparr>) d,
                     out @ [k]))
      | _ \<Rightarrow> (d, out)))"

text \<open>\<open>keys\<close> are the sidecars the glob lists, in order.\<close>

definition recover_incomplete :: "(bytes \<Rightarrow> string) \<Rightarrow> 'k list \<Rightarrow> 'k disk \<Rightarrow> 'k disk \<times> 'k list" where
  "recover_incomplete sha keys d = fold (recover_one sha) keys (d\<lparr>d_tmp := []\<rparr>, [])"

section \<open>What the operations do to the files\<close>

lemma contents_append_at [simp]:
  "contents (append_at h bs d) k = contents d k @ (if k = h then bs else [])"
  by (simp add: contents_def append_at_def)

lemma contents_dump_at [simp]: "contents (dump_at h sc d) k = contents d k"
  by (simp add: contents_def dump_at_def)

lemma side_append_at [simp]: "d_side (append_at h bs d) = d_side d"
  by (simp add: append_at_def)

lemma side_dump_at [simp]: "d_side (dump_at h sc d) = (d_side d)(h := Some (Loadable sc))"
  by (simp add: dump_at_def)

lemma data_append_at [simp]: "d_data (append_at h bs d) = (d_data d)(h := Some (contents d h @ bs))"
  by (simp add: append_at_def)

lemma data_dump_at [simp]: "d_data (dump_at h sc d) = d_data d"
  by (simp add: dump_at_def)

lemma contents_data: "d_data d h = Some bs \<Longrightarrow> contents d h = bs"
  by (simp add: contents_def)

lemma log_close_contents [simp]: "contents (log_close sha e l d) k = contents d k"
  by (simp add: log_close_def)

lemma log_dump_contents [simp]: "contents (log_dump l d) k = contents d k"
  by (simp add: log_dump_def)

lemma carry_over_keeps [simp]:
  "sc_complete (carry_over p sc) = sc_complete sc"
  "sc_bytes (carry_over p sc) = sc_bytes sc"
  "sc_recovered (carry_over p sc)"
  by (auto simp: carry_over_def split: option.splits sc_file.splits)

text \<open>The fields that only the setters change.\<close>

definition same_setup :: "writer \<Rightarrow> writer \<Rightarrow> bool" where
  "same_setup w w' \<longleftrightarrow> w_filter w' = w_filter w \<and> w_station w' = w_station w \<and> w_role w' = w_role w"

lemma same_setup_trans: "same_setup u v \<Longrightarrow> same_setup v w \<Longrightarrow> same_setup u w"
  by (simp add: same_setup_def)

lemma publish_ev_simps [simp]:
  "w_current (publish_ev e w) = w_current w" "w_disk (publish_ev e w) = w_disk w"
  "w_pending (publish_ev e w) = w_pending w" "w_utc (publish_ev e w) = w_utc w"
  "w_utc_mono (publish_ev e w) = w_utc_mono w" "w_filter (publish_ev e w) = w_filter w"
  "w_closed_hour (publish_ev e w) = w_closed_hour w" "w_frozen_utc (publish_ev e w) = w_frozen_utc w"
  "w_station (publish_ev e w) = w_station w" "w_role (publish_ev e w) = w_role w"
  "w_firmware (publish_ev e w) = w_firmware w" "w_site (publish_ev e w) = w_site w"
  "w_time_source (publish_ev e w) = w_time_source w" "w_pending_counts (publish_ev e w) = w_pending_counts w"
  by (simp_all add: publish_ev_def)

lemma on_sidecar_simps [simp]:
  "w_disk (on_sidecar f w) = w_disk w" "w_pending (on_sidecar f w) = w_pending w"
  "w_utc (on_sidecar f w) = w_utc w" "w_utc_mono (on_sidecar f w) = w_utc_mono w"
  "w_filter (on_sidecar f w) = w_filter w" "w_closed_hour (on_sidecar f w) = w_closed_hour w"
  "w_frozen_utc (on_sidecar f w) = w_frozen_utc w" "w_current (on_sidecar f w) = None \<longleftrightarrow> w_current w = None"
  by (simp_all add: on_sidecar_def)

lemma dump_current_simps [simp]:
  "contents (w_disk (dump_current w)) k = contents (w_disk w) k"
  "w_pending (dump_current w) = w_pending w" "w_utc (dump_current w) = w_utc w"
  "w_utc_mono (dump_current w) = w_utc_mono w" "w_filter (dump_current w) = w_filter w"
  "w_closed_hour (dump_current w) = w_closed_hour w" "w_frozen_utc (dump_current w) = w_frozen_utc w"
  "w_current (dump_current w) = w_current w" "d_data (w_disk (dump_current w)) = d_data (w_disk w)"
  by (simp_all add: dump_current_def log_dump_def split: option.splits)

lemma close_current_simps [simp]:
  "contents (w_disk (close_current sha w)) k = contents (w_disk w) k"
  "w_pending (close_current sha w) = w_pending w" "w_utc (close_current sha w) = w_utc w"
  "w_utc_mono (close_current sha w) = w_utc_mono w" "w_filter (close_current sha w) = w_filter w"
  "w_closed_hour (close_current sha w) = w_closed_hour w" "w_frozen_utc (close_current sha w) = w_frozen_utc w"
  "w_current (close_current sha w) = None" "w_pending_counts (close_current sha w) = w_pending_counts w"
  "w_firmware (close_current sha w) = w_firmware w" "w_site (close_current sha w) = w_site w"
  "w_station (close_current sha w) = w_station w" "w_role (close_current sha w) = w_role w"
  "w_time_source (close_current sha w) = w_time_source w"
  by (simp_all add: close_current_def split: option.splits)

lemma open_log_new_effect:
  assumes "open_log_new h sc d = (l, d')"
  shows "ol_hour l = h" "ol_hashed l = contents d h" "d' = append_at h [] d"
    "sc_complete (ol_sidecar l) = sc_complete sc"
    "sc_bytes sc = 0 \<Longrightarrow> sc_bytes (ol_sidecar l) = length (contents d h)"
  using assms by (auto simp: open_log_new_def Let_def split: if_splits)

lemma log_write_bulk_effect:
  assumes "log_write_bulk raw cs (l, d) = (l', d')"
  shows "ol_hour l' = ol_hour l" "ol_hashed l' = ol_hashed l @ raw" "d' = append_at (ol_hour l) raw d"
    "sc_complete (ol_sidecar l') = sc_complete (ol_sidecar l)"
    "sc_bytes (ol_sidecar l') = sc_bytes (ol_sidecar l) + length raw"
  using assms by (auto simp: log_write_bulk_def)

lemma log_write_effect:
  assumes "log_write raw i (l, d) = (l', d')"
  shows "ol_hour l' = ol_hour l" "ol_hashed l' = ol_hashed l @ raw" "d' = append_at (ol_hour l) raw d"
    "sc_complete (ol_sidecar l') = sc_complete (ol_sidecar l)"
    "sc_bytes (ol_sidecar l') = sc_bytes (ol_sidecar l) + length raw"
  using assms by (auto simp: log_write_def)

text \<open>Rotation: the pending bytes go to the new hour, in front of what follows, and nowhere else.\<close>

lemma rotate_to_effect:
  fixes sha h w k
  defines "v \<equiv> rotate_to sha h w"
  shows "w_pending v = []"
    and "contents (w_disk v) k = contents (w_disk w) k @ (if k = h then w_pending w else [])"
    and "w_utc v = w_utc w" "w_utc_mono v = w_utc_mono w" "w_filter v = w_filter w"
    and "w_closed_hour v = w_closed_hour w" "w_frozen_utc v = w_frozen_utc w"
    and "\<exists>l. w_current v = Some l \<and> ol_hour l = h \<and> \<not> sc_complete (ol_sidecar l) \<and>
           ol_hashed l = contents (w_disk v) h \<and> sc_bytes (ol_sidecar l) = length (ol_hashed l) \<and>
           d_side (w_disk v) = (d_side (w_disk (close_current sha w)))(h := Some (Loadable (ol_sidecar l)))"
    and "d_data (w_disk v) h \<noteq> None"
    and "k \<noteq> h \<Longrightarrow> d_data (w_disk v) k = d_data (w_disk (close_current sha w)) k"
proof -
  let ?u = "close_current sha w"
  obtain l0 d0 where ld: "open_log_new h (new_sidecar h ?u) (w_disk ?u) = (l0, d0)" by fastforce
  note o = open_log_new_effect [OF ld]
  obtain l d where l: "(if w_pending w \<noteq> [] then log_write_bulk (w_pending w) (w_pending_counts w) (l0, d0)
      else (l0, d0)) = (l, d)" by fastforce
  have a: "ol_hour l = h" "ol_hashed l = contents (w_disk w) h @ w_pending w"
    "d_side d = d_side (w_disk ?u)" "\<not> sc_complete (ol_sidecar l)"
    "sc_bytes (ol_sidecar l) = length (contents (w_disk w) h @ w_pending w)"
    "contents d j = contents (w_disk w) j @ (if j = h then w_pending w else [])"
    "d_data d h \<noteq> None" "j \<noteq> h \<Longrightarrow> d_data d j = d_data (w_disk ?u) j" for j
    using o l by (auto simp: new_sidecar_def log_write_bulk_def split: if_splits)
  have v: "v = publish_ev (Rotated h) (dump_current (?u\<lparr>w_current := Some l, w_disk := d, w_pending := [],
      w_pending_counts := (if w_pending w \<noteq> [] then [] else w_pending_counts w)\<rparr>))"
    unfolding v_def rotate_to_def Let_def using ld l by (cases "w_pending w = []") simp_all
  show "w_pending v = []" "w_utc v = w_utc w" "w_utc_mono v = w_utc_mono w" "w_filter v = w_filter w"
    "w_closed_hour v = w_closed_hour w" "w_frozen_utc v = w_frozen_utc w"
    "contents (w_disk v) k = contents (w_disk w) k @ (if k = h then w_pending w else [])"
    "d_data (w_disk v) h \<noteq> None"
    "k \<noteq> h \<Longrightarrow> d_data (w_disk v) k = d_data (w_disk ?u) k"
    using a by (simp_all add: v)
  show "\<exists>l. w_current v = Some l \<and> ol_hour l = h \<and> \<not> sc_complete (ol_sidecar l) \<and>
           ol_hashed l = contents (w_disk v) h \<and> sc_bytes (ol_sidecar l) = length (ol_hashed l) \<and>
           d_side (w_disk v) = (d_side (w_disk ?u))(h := Some (Loadable (ol_sidecar l)))"
    using a by (simp add: v) (simp add: dump_current_def log_dump_def)
qed

section \<open>The invariant of the writer\<close>

text \<open>
  A sidecar on disk that says \<open>complete\<close> describes its file; the open hour's sidecar in memory
  describes the file so far and its copy on disk is not complete; the pending buffer is bounded and
  empty while a file is open.
\<close>

definition disk_ok :: "(bytes \<Rightarrow> string) \<Rightarrow> 'k disk \<Rightarrow> bool" where
  "disk_ok sha d \<longleftrightarrow>
     (\<forall>k sc. d_side d k = Some (Loadable sc) \<longrightarrow> sc_complete sc \<longrightarrow>
        (\<exists>bs. d_data d k = Some bs \<and> sc_sha256 sc = Some (sha bs) \<and> sc_bytes sc = length bs))"

definition log_ok :: "open_log \<Rightarrow> utc disk \<Rightarrow> bool" where
  "log_ok l d \<longleftrightarrow>
     ol_hashed l = contents d (ol_hour l) \<and> d_data d (ol_hour l) \<noteq> None \<and>
     sc_bytes (ol_sidecar l) = length (ol_hashed l) \<and> \<not> sc_complete (ol_sidecar l) \<and>
     (\<exists>sc. d_side d (ol_hour l) = Some (Loadable sc) \<and> \<not> sc_complete sc)"

definition files_ok :: "(bytes \<Rightarrow> string) \<Rightarrow> writer \<Rightarrow> bool" where
  "files_ok sha w \<longleftrightarrow>
     disk_ok sha (w_disk w) \<and>
     (\<forall>l. w_current w = Some l \<longrightarrow> log_ok l (w_disk w)) \<and>
     (w_utc w = None \<longrightarrow> w_current w = None) \<and> (w_utc_mono w = None \<longleftrightarrow> w_utc w = None) \<and>
     (w_pending w \<noteq> [] \<longrightarrow> w_current w = None)"

definition writer_ok :: "(bytes \<Rightarrow> string) \<Rightarrow> writer \<Rightarrow> bool" where
  "writer_ok sha w \<longleftrightarrow> files_ok sha w \<and> length (w_pending w) \<le> PENDING_CAP_BYTES"

lemma publish_ev_ok [wf_intros]: "writer_ok sha w \<Longrightarrow> writer_ok sha (publish_ev e w)"
  by (simp add: writer_ok_def files_ok_def)

lemma disk_ok_dump_incomplete:
  "disk_ok sha d \<Longrightarrow> \<not> sc_complete sc \<Longrightarrow> disk_ok sha (dump_at h sc d)"
  by (auto simp: disk_ok_def)

lemma disk_ok_append:
  assumes "disk_ok sha d" "\<And>sc. d_side d h = Some (Loadable sc) \<Longrightarrow> \<not> sc_complete sc"
  shows "disk_ok sha (append_at h bs d)"
  using assms by (auto simp: disk_ok_def)

lemma close_current_files_ok:
  assumes "files_ok sha w"
  shows "files_ok sha (close_current sha w)"
proof (cases "w_current w")
  case None
  then show ?thesis using assms by (simp add: close_current_def)
next
  case (Some l)
  then have "log_ok l (w_disk w)" "disk_ok sha (w_disk w)" using assms by (auto simp: files_ok_def)
  then have "disk_ok sha (log_close sha (w_utc w) l (w_disk w))"
    by (auto simp: log_ok_def disk_ok_def log_close_def contents_def split: if_splits)
  then show ?thesis using assms Some by (auto simp: files_ok_def close_current_def)
qed

lemma close_current_ok [wf_intros]: "writer_ok sha w \<Longrightarrow> writer_ok sha (close_current sha w)"
  by (simp add: writer_ok_def close_current_files_ok)

lemma rotate_to_ok:
  assumes "files_ok sha w" "w_utc w \<noteq> None"
  shows "writer_ok sha (rotate_to sha h w)"
proof -
  let ?v = "rotate_to sha h w" and ?u = "close_current sha w"
  have u: "disk_ok sha (w_disk ?u)" using close_current_files_ok [OF assms(1)] by (simp add: files_ok_def)
  note r = rotate_to_effect [where sha = sha and h = h and w = w]
  obtain l where l: "w_current ?v = Some l" "ol_hour l = h" "\<not> sc_complete (ol_sidecar l)"
    "ol_hashed l = contents (w_disk ?v) h" "sc_bytes (ol_sidecar l) = length (ol_hashed l)"
    "d_side (w_disk ?v) = (d_side (w_disk ?u))(h := Some (Loadable (ol_sidecar l)))"
    using r(8) by blast
  have "log_ok l (w_disk ?v)" using l r(9) by (auto simp: log_ok_def)
  moreover have "disk_ok sha (w_disk ?v)"
    using u l(3,6) r(10) by (auto simp: disk_ok_def split: if_splits)
  ultimately show ?thesis using assms r(1,3,4) l(1) by (auto simp: writer_ok_def files_ok_def)
qed

lemma writer_ok_files [wf_intros]: "writer_ok sha w \<Longrightarrow> files_ok sha w"
  by (simp add: writer_ok_def)

lemma rotate_to_writer_ok [wf_intros]:
  "writer_ok sha w \<Longrightarrow> w_utc w \<noteq> None \<Longrightarrow> writer_ok sha (rotate_to sha h w)"
  by (rule rotate_to_ok [OF writer_ok_files])

lemma dump_current_ok [wf_intros]:
  assumes "writer_ok sha w"
  shows "writer_ok sha (dump_current w)"
proof (cases "w_current w")
  case None
  then show ?thesis using assms by (simp add: dump_current_def)
next
  case (Some l)
  then have "log_ok l (w_disk w)" "disk_ok sha (w_disk w)" using assms by (auto simp: writer_ok_def files_ok_def)
  then show ?thesis using assms Some
    by (auto simp: writer_ok_def files_ok_def log_ok_def dump_current_def log_dump_def intro: disk_ok_dump_incomplete)
qed

lemma on_sidecar_ok [wf_intros]:
  assumes "writer_ok sha w"
    and "\<And>sc. sc_complete (f sc) = sc_complete sc" "\<And>sc. sc_bytes (f sc) = sc_bytes sc"
  shows "writer_ok sha (on_sidecar f w)"
  using assms by (auto simp: writer_ok_def files_ok_def on_sidecar_def log_ok_def)

lemma setters_ok [wf_intros]:
  assumes "writer_ok sha w"
  shows "writer_ok sha (set_keep b w)" "writer_ok sha (set_firmware v w)" "writer_ok sha (set_site s w)"
proof -
  have "writer_ok sha (w\<lparr>w_firmware := v\<rparr>)" "writer_ok sha (w\<lparr>w_site := s\<rparr>)"
    using assms by (simp_all add: writer_ok_def files_ok_def)
  then show "writer_ok sha (set_keep b w)" "writer_ok sha (set_firmware v w)" "writer_ok sha (set_site s w)"
    unfolding set_keep_def set_firmware_def set_site_def
    by (auto intro!: wf_intros assms)
qed

lemma note_utc_ok [wf_intros]: "writer_ok sha w \<Longrightarrow> writer_ok sha (note_utc t m w)"
  by (auto simp: writer_ok_def files_ok_def note_utc_def Let_def split: option.splits)

lemma update_time_ok [wf_intros]: "writer_ok sha w \<Longrightarrow> writer_ok sha (snd (update_time E m f w))"
  unfolding update_time_def
  by (auto simp: clamp_second_def Let_def split: sum.splits option.splits if_splits
      intro!: note_utc_ok) (simp_all add: writer_ok_def files_ok_def)

lemma log_write_ok:
  assumes "writer_ok sha w" "w_current w = Some l" "log_write raw i (l, w_disk w) = (l', d)"
  shows "writer_ok sha (w\<lparr>w_current := Some l', w_disk := d\<rparr>)"
proof -
  note e = log_write_effect [OF assms(3)]
  have "log_ok l (w_disk w)" "disk_ok sha (w_disk w)" using assms by (auto simp: writer_ok_def files_ok_def)
  then have "log_ok l' d" "disk_ok sha d"
    using e by (auto simp: log_ok_def intro!: disk_ok_append)
  then show ?thesis using assms by (auto simp: writer_ok_def files_ok_def)
qed

lemma write_frame_ok [wf_intros]:
  assumes "writer_ok sha w" "w_utc w \<noteq> None"
  shows "writer_ok sha (write_frame sha h raw i w)"
proof -
  define v where "v = (case w_current w of
     Some l \<Rightarrow> if ol_hour l \<noteq> h then rotate_to sha h w else w | None \<Rightarrow> rotate_to sha h w)"
  have "writer_ok sha v" using assms by (auto simp: v_def intro!: wf_intros split: option.splits)
  then show ?thesis unfolding write_frame_def Let_def v_def [symmetric]
    by (auto split: option.splits prod.splits intro: log_write_ok)
qed

lemma buffer_pending_ok [wf_intros]:
  assumes "writer_ok sha w" "w_utc w = None"
  shows "writer_ok sha (buffer_pending sha now m raw i w)"
proof -
  have "files_ok sha (w\<lparr>w_pending := w_pending w @ raw, w_pending_counts := cs,
      w_utc := Some now, w_utc_mono := Some m, w_time_source := ''host''\<rparr>)" for cs
    using assms by (simp add: writer_ok_def files_ok_def)
  then show ?thesis
    using assms unfolding buffer_pending_def Let_def
    by (auto intro!: rotate_to_ok) (auto simp: writer_ok_def files_ok_def)
qed

lemma handle_ubx_ok [wf_intros]:
  "writer_ok sha w \<Longrightarrow> writer_ok sha (handle_ubx sha now m raw i w)"
  by (auto simp: handle_ubx_def split: option.splits intro!: wf_intros)

lemma handle_ok [wf_intros]:
  assumes "writer_ok (e_sha E) w"
  shows "writer_ok (e_sha E) (snd (handle E now m f w))"
proof -
  have "writer_ok (e_sha E) v" if "update_time E m f w = (err, v)" for err v
    using update_time_ok [OF assms, of E m f] that by simp
  then show ?thesis using assms
    by (auto simp: handle_def Let_def split: sum.splits prod.splits option.splits if_splits intro: wf_intros)
qed

lemma check_pressure_ok [wf_intros]:
  assumes "writer_ok sha w" shows "writer_ok sha (check_pressure q m w)"
proof -
  have "writer_ok sha (w\<lparr>w_bp_active := a, w_bp_last := x\<rparr>)" "writer_ok sha (w\<lparr>w_bp_active := a\<rparr>)" for a x
    using assms by (simp_all add: writer_ok_def files_ok_def)
  then show ?thesis using assms by (simp add: check_pressure_def publish_ev_ok)
qed

lemma close_elapsed_hour_ok [wf_intros]:
  assumes "writer_ok sha w"
  shows "writer_ok sha (close_elapsed_hour sha m w)"
  using close_current_ok [OF assms] assms
  by (auto simp: close_elapsed_hour_def writer_ok_def files_ok_def split: option.splits)

lemma tick_ok [wf_intros]:
  assumes "writer_ok sha w"
  shows "writer_ok sha (tick sha m w)"
proof -
  have "writer_ok sha ((dump_current v)\<lparr>w_last_sidecar := m\<rparr>)" if "writer_ok sha v" for v
    using dump_current_ok [OF that] by (simp add: writer_ok_def files_ok_def)
  then show ?thesis using close_elapsed_hour_ok [OF assms] assms by (simp add: tick_def Let_def)
qed

lemma log_step_ok:
  assumes "writer_ok (e_sha E) w"
  shows "writer_ok (e_sha E) (log_step E e w)"
proof (cases e)
  case (FrameIn f now m q)
  then show ?thesis using handle_ok [OF assms, of now m f]
    by (auto simp: run_frame_def split: prod.splits option.splits intro!: check_pressure_ok publish_ev_ok)
next
  case (TickIn m)
  have "writer_ok (e_sha E) (tick (e_sha E) m w)" by (rule tick_ok [OF assms])
  then show ?thesis
    by (auto simp: TickIn run_tick_def fsync_begin_def Let_def writer_ok_def files_ok_def split: option.splits if_splits)
next
  case FsyncDone
  then show ?thesis using assms by (simp add: fsync_end_def writer_ok_def files_ok_def)
qed (use assms in \<open>auto intro: wf_intros\<close>)

lemma log_run_ok:
  assumes "writer_ok (e_sha E) w"
  shows "writer_ok (e_sha E) (log_run E es w)"
  unfolding log_run_def using assms by (induction es arbitrary: w) (simp_all add: log_step_ok)

lemma writer_init_ok:
  "disk_ok sha d \<Longrightarrow> writer_ok sha (writer_init station messages role fsync_s firmware site m d)"
  by (simp add: writer_ok_def files_ok_def writer_init_def)

section \<open>Where the frames go\<close>

text \<open>The frames the writer takes: UBX, wanted, and no NAV-PVT that cannot be read.\<close>

definition readable_time :: "rawlog_env \<Rightarrow> frame \<Rightarrow> bool" where
  "readable_time E f =
     (case e_pvt E f of
        Inl e \<Rightarrow> False
      | Inr p \<Rightarrow> pvt_valid_date p \<and> pvt_valid_time p \<longrightarrow>
          mk_datetime (pvt_year p) (pvt_month p) (pvt_day p) (pvt_hour p) (pvt_min p)
            (min (max (pvt_second p) 0) 59) \<noteq> None)"

definition accepts :: "rawlog_env \<Rightarrow> string list \<Rightarrow> frame \<Rightarrow> bool" where
  "accepts E messages f =
     (fr_proto f = UBX \<and>
      (case e_ident E f of
         Inl e \<Rightarrow> False
       | Inr i \<Rightarrow> i \<in> set messages \<and> (i = ''NAV-PVT'' \<longrightarrow> readable_time E f)))"

fun accepted :: "rawlog_env \<Rightarrow> string list \<Rightarrow> log_input list \<Rightarrow> bytes list" where
  "accepted E messages [] = []"
| "accepted E messages (FrameIn f now mt q # es) =
     (if accepts E messages f then [fr_raw f] else []) @ accepted E messages es"
| "accepted E messages (e # es) = accepted E messages es"

lemma update_time_effect:
  "update_time E m f w = (err, v) \<Longrightarrow>
   (err = None \<longleftrightarrow> readable_time E f) \<and> w_pending v = w_pending w \<and> w_disk v = w_disk w \<and>
   w_filter v = w_filter w \<and> w_current v = w_current w"
  by (auto simp: update_time_def readable_time_def clamp_second_def note_utc_def Let_def
      split: sum.splits option.splits if_splits)

lemma write_frame_effect:
  fixes sha h raw i w k
  assumes "files_ok sha w"
  defines "v \<equiv> write_frame sha h raw i w"
  shows "w_pending v = []" "w_utc v = w_utc w" "w_filter v = w_filter w"
    and "contents (w_disk v) k = contents (w_disk w) k @ (if k = h then w_pending w @ raw else [])"
proof -
  define u where "u = (case w_current w of
     Some l \<Rightarrow> if ol_hour l \<noteq> h then rotate_to sha h w else w | None \<Rightarrow> rotate_to sha h w)"
  note r = rotate_to_effect [where sha = sha and h = h and w = w]
  have u: "w_pending u = []" "w_utc u = w_utc w" "w_filter u = w_filter w"
    "\<exists>l. w_current u = Some l \<and> ol_hour l = h"
    "contents (w_disk u) k = contents (w_disk w) k @ (if k = h then w_pending w else [])" for k
    using assms(1) r(1,3,5,2) r(8) by (auto simp: u_def files_ok_def split: option.splits)
  obtain l where l: "w_current u = Some l" "ol_hour l = h" using u(4) by blast
  have v: "v = (let (l', d) = log_write raw i (l, w_disk u) in u\<lparr>w_current := Some l', w_disk := d\<rparr>)"
    unfolding v_def write_frame_def Let_def u_def [symmetric] by (simp add: l)
  then show "w_pending v = []" "w_utc v = w_utc w" "w_filter v = w_filter w"
    "contents (w_disk v) k = contents (w_disk w) k @ (if k = h then w_pending w @ raw else [])"
    using u l by (simp_all add: log_write_def)
qed

text \<open>
  \<open>J\<close> lists the frames that reached a file, with their hour, and \<open>K\<close> those still buffered.
\<close>

definition journal :: "utc disk \<Rightarrow> (utc \<times> bytes) list \<Rightarrow> bytes list \<Rightarrow> writer \<Rightarrow> bool" where
  "journal d0 J K w \<longleftrightarrow>
     w_pending w = concat K \<and>
     (\<forall>h. contents (w_disk w) h = contents d0 h @ concat (map snd (filter (\<lambda>j. fst j = h) J)))"

lemma journal_same:
  "journal d0 J K w \<Longrightarrow> w_pending v = w_pending w \<Longrightarrow>
   (\<And>k. contents (w_disk v) k = contents (w_disk w) k) \<Longrightarrow> journal d0 J K v"
  by (simp add: journal_def)

lemma concat_placed:
  "concat (map snd (filter (\<lambda>j. fst j = k) (map (Pair h) xs))) = (if k = h then concat xs else [])"
  by (induction xs) auto

lemma journal_flush:
  assumes "journal d0 J K w" "w_pending v = []"
    and "\<And>k. contents (w_disk v) k = contents (w_disk w) k @ (if k = h then w_pending w @ raw else [])"
  shows "journal d0 (J @ map (Pair h) (K @ [raw])) [] v"
  using assms by (auto simp: journal_def concat_placed)

lemma handle_ubx_journal:
  assumes "writer_ok sha w" "journal d0 J K w" "i \<in> set (w_filter w)"
  shows "\<exists>J' K'. journal d0 J' K' (handle_ubx sha now m raw i w) \<and>
    map snd J' @ K' = map snd J @ K @ [raw] \<and> w_filter (handle_ubx sha now m raw i w) = w_filter w"
proof (cases "w_utc w")
  case (Some t)
  let ?h = "target_hour t w"
  have v: "handle_ubx sha now m raw i w = write_frame sha ?h raw i w"
    using Some assms(3) by (simp add: handle_ubx_def)
  note e = write_frame_effect [OF writer_ok_files [OF assms(1)], where h = ?h and raw = raw and i = i]
  have "journal d0 (J @ map (Pair ?h) (K @ [raw])) [] (handle_ubx sha now m raw i w)"
    unfolding v by (rule journal_flush [OF assms(2) e(1)]) (rule e(4))
  then show ?thesis using e(3) unfolding v
    by (intro exI [of _ "J @ map (Pair ?h) (K @ [raw])"] exI [of _ "[]"]) (simp add: comp_def)
next
  case None
  have v: "handle_ubx sha now m raw i w = buffer_pending sha now m raw i w"
    using None assms(3) by (simp add: handle_ubx_def)
  define u where "u = w\<lparr>w_pending := w_pending w @ raw,
      w_pending_counts := count_add i 1 (w_pending_counts w)\<rparr>"
  show ?thesis
  proof (cases "length (w_pending u) > PENDING_CAP_BYTES")
    case True
    define x where "x = u\<lparr>w_utc := Some now, w_utc_mono := Some m, w_time_source := ''host''\<rparr>"
    note r = rotate_to_effect [where sha = sha and h = "hour_floor now" and w = x]
    have b: "buffer_pending sha now m raw i w = rotate_to sha (hour_floor now) x"
      using True unfolding buffer_pending_def Let_def u_def [symmetric] x_def by simp
    have "journal d0 (J @ map (Pair (hour_floor now)) (K @ [raw])) [] (rotate_to sha (hour_floor now) x)"
      by (rule journal_flush [OF assms(2) r(1)]) (use r(2) in \<open>simp add: x_def u_def\<close>)
    then show ?thesis using r(5) unfolding v b
      by (intro exI [of _ "J @ map (Pair (hour_floor now)) (K @ [raw])"] exI [of _ "[]"])
        (simp add: comp_def x_def u_def)
  next
    case False
    then have "buffer_pending sha now m raw i w = u"
      unfolding buffer_pending_def Let_def u_def [symmetric] by simp
    moreover have "journal d0 J (K @ [raw]) u" using assms(2) by (simp add: journal_def u_def)
    ultimately show ?thesis unfolding v
      by (intro exI [of _ J] exI [of _ "K @ [raw]"]) (simp add: u_def)
  qed
qed

lemma handle_journal:
  fixes E now m f w
  assumes "writer_ok (e_sha E) w" "journal d0 J K w"
  defines "v \<equiv> snd (handle E now m f w)"
  shows "\<exists>J' K'. journal d0 J' K' v \<and> w_filter v = w_filter w \<and>
    map snd J' @ K' = map snd J @ K @ (if accepts E (w_filter w) f then [fr_raw f] else [])"
proof (cases "\<exists>i. fr_proto f = UBX \<and> e_ident E f = Inr i")
  case False
  then have "v = w" "\<not> accepts E (w_filter w) f"
    by (auto simp: v_def handle_def accepts_def split: sum.splits)
  then show ?thesis using assms(2) by auto
next
  case True
  then obtain i where i: "fr_proto f = UBX" "e_ident E f = Inr i" by blast
  obtain err u where u: "(if i = ''NAV-PVT'' then update_time E m f w else (None, w)) = (err, u)"
    by fastforce
  have ok: "writer_ok (e_sha E) u" using assms(1) update_time_ok [OF assms(1), of E m f] u
    by (auto split: if_splits)
  have e: "w_pending u = w_pending w" "w_disk u = w_disk w" "w_filter u = w_filter w"
    "err = None \<longleftrightarrow> (i = ''NAV-PVT'' \<longrightarrow> readable_time E f)"
    using u update_time_effect [of E m f w] by (auto split: if_splits)
  have j: "journal d0 J K u" using assms(2) e by (auto intro: journal_same)
  have v: "v = (case err of Some x \<Rightarrow> u | None \<Rightarrow> handle_ubx (e_sha E) now m (fr_raw f) i u)"
    using i u by (simp add: v_def handle_def Let_def split: option.splits)
  show ?thesis
  proof (cases "accepts E (w_filter w) f")
    case True
    then have a: "err = None" "i \<in> set (w_filter u)" using i e by (auto simp: accepts_def)
    show ?thesis using handle_ubx_journal [OF ok j a(2), of now m "fr_raw f"] a e True unfolding v
      by auto
  next
    case False
    then have "v = u" using i e by (auto simp: v accepts_def handle_ubx_def split: option.splits)
    then show ?thesis using j e False by auto
  qed
qed

lemma tick_contents [simp]:
  "contents (w_disk (tick sha m w)) k = contents (w_disk w) k"
  "w_pending (tick sha m w) = w_pending w" "w_filter (tick sha m w) = w_filter w"
  by (auto simp: tick_def close_elapsed_hour_def Let_def split: option.splits)

lemma quiet_step_contents:
  assumes "\<And>f now m q. e \<noteq> FrameIn f now m q"
  shows "contents (w_disk (log_step E e w)) k = contents (w_disk w) k"
    and "w_pending (log_step E e w) = w_pending w" and "w_filter (log_step E e w) = w_filter w"
  using assms
  by (cases e; simp add: run_tick_def fsync_begin_def fsync_end_def set_keep_def set_firmware_def
      set_site_def note_utc_def Let_def split: option.split)+

lemma check_pressure_simps [simp]:
  "w_disk (check_pressure q m w) = w_disk w" "w_pending (check_pressure q m w) = w_pending w"
  "w_filter (check_pressure q m w) = w_filter w" "w_current (check_pressure q m w) = w_current w"
  "w_utc (check_pressure q m w) = w_utc w" "w_closed_hour (check_pressure q m w) = w_closed_hour w"
  "w_frozen_utc (check_pressure q m w) = w_frozen_utc w"
  by (simp_all add: check_pressure_def)

lemma log_step_journal:
  assumes "writer_ok (e_sha E) w" "journal d0 J K w"
  shows "\<exists>J' K'. journal d0 J' K' (log_step E e w) \<and> w_filter (log_step E e w) = w_filter w \<and>
    map snd J' @ K' = map snd J @ K @ accepted E (w_filter w) [e]"
proof (cases "\<exists>f now m q. e = FrameIn f now m q")
  case True
  then obtain f now m q where e: "e = FrameIn f now m q" by blast
  obtain J' K' where "journal d0 J' K' (snd (handle E now m f w))"
    "w_filter (snd (handle E now m f w)) = w_filter w"
    "map snd J' @ K' = map snd J @ K @ (if accepts E (w_filter w) f then [fr_raw f] else [])"
    using handle_journal [OF assms, of now m f] by blast
  then show ?thesis unfolding e
    by (intro exI [of _ J'] exI [of _ K'])
      (auto simp: run_frame_def split: prod.splits option.splits intro: journal_same)
next
  case False
  then have "accepted E (w_filter w) [e] = []" by (cases e) auto
  moreover have "journal d0 J K (log_step E e w)"
    using quiet_step_contents [of e E w] False by (intro journal_same [OF assms(2)]) auto
  ultimately show ?thesis using quiet_step_contents(3) [of e E w] False
    by (intro exI [of _ J] exI [of _ K]) auto
qed

lemma accepted_Cons: "accepted E ms (e # es) = accepted E ms [e] @ accepted E ms es"
  by (cases e) simp_all

lemma log_run_journal:
  assumes "writer_ok (e_sha E) w" "journal d0 J K w"
  shows "\<exists>J' K'. journal d0 J' K' (log_run E es w) \<and>
    map snd J' @ K' = map snd J @ K @ accepted E (w_filter w) es"
  using assms
proof (induction es arbitrary: w J K)
  case Nil
  then show ?case by (auto simp: log_run_def)
next
  case (Cons e es)
  obtain J1 K1 where s: "journal d0 J1 K1 (log_step E e w)" "w_filter (log_step E e w) = w_filter w"
    "map snd J1 @ K1 = map snd J @ K @ accepted E (w_filter w) [e]"
    using log_step_journal [OF Cons.prems] by blast
  obtain J2 K2 where r: "journal d0 J2 K2 (log_run E es (log_step E e w))"
    "map snd J2 @ K2 = map snd J1 @ K1 @ accepted E (w_filter w) es"
    using Cons.IH [OF log_step_ok [OF Cons.prems(1)] s(1)] s(2) by auto
  have "map snd J2 @ K2 = map snd J @ K @ accepted E (w_filter w) (e # es)"
    using r(2) s(3) accepted_Cons [of E "w_filter w" e es] by simp
  moreover have "log_run E (e # es) w = log_run E es (log_step E e w)" by (simp add: log_run_def)
  ultimately show ?case using r(1) by auto
qed

section \<open>The hour that was closed\<close>

definition reading :: "rawlog_env \<Rightarrow> frame \<Rightarrow> utc option" where
  "reading E f =
     (if fr_proto f = UBX \<and> e_ident E f = Inr ''NAV-PVT'' then
        (case e_pvt E f of
           Inl e \<Rightarrow> None
         | Inr p \<Rightarrow>
             if pvt_valid_date p \<and> pvt_valid_time p
             then mk_datetime (pvt_year p) (pvt_month p) (pvt_day p) (pvt_hour p) (pvt_min p)
                    (min (max (pvt_second p) 0) 59)
             else None)
      else None)"

text \<open>Inputs that tell the time \<open>z\<close> again, or no time at all.\<close>

fun repeats :: "rawlog_env \<Rightarrow> utc \<Rightarrow> log_input \<Rightarrow> bool" where
  "repeats E z (FrameIn f now mt q) = (reading E f = None \<or> reading E f = Some z)"
| "repeats E z (UtcIn t mt) = (t = z)"
| "repeats E z _ = True"

definition past :: "utc \<Rightarrow> utc \<Rightarrow> writer \<Rightarrow> bool" where
  "past z h w \<longleftrightarrow>
     w_frozen_utc w = Some z \<and> w_utc w \<noteq> None \<and>
     (\<exists>c. w_closed_hour w = Some c \<and> h \<le> c) \<and>
     (\<forall>l. w_current w = Some l \<longrightarrow> h < ol_hour l)"

abbreviation same_at :: "utc \<Rightarrow> writer \<Rightarrow> writer \<Rightarrow> bool" where
  "same_at h w v \<equiv>
     contents (w_disk v) h = contents (w_disk w) h \<and> d_side (w_disk v) h = d_side (w_disk w) h"

lemma past_target:
  assumes "past z h w" "w_utc w = Some t"
  shows "h < target_hour t w"
  using assms by (auto simp: past_def target_hour_def HOUR_def)

lemma side_close_current:
  "d_side (w_disk (close_current sha w)) k =
     (case w_current w of
        Some l \<Rightarrow> if k = ol_hour l then d_side (log_close sha (w_utc w) l (w_disk w)) k else d_side (w_disk w) k
      | None \<Rightarrow> d_side (w_disk w) k)"
  by (auto simp: close_current_def log_close_def split: option.splits)

lemma side_dump_current:
  "d_side (w_disk (dump_current w)) k =
     (case w_current w of
        Some l \<Rightarrow> if k = ol_hour l then Some (Loadable (ol_sidecar l)) else d_side (w_disk w) k
      | None \<Rightarrow> d_side (w_disk w) k)"
  by (auto simp: dump_current_def log_dump_def split: option.splits)

lemma past_write_frame:
  fixes z h w g sha raw i
  assumes p: "past z h w" and g: "h < g" and ok: "files_ok sha w"
  defines "v \<equiv> write_frame sha g raw i w"
  shows "past z h v \<and> same_at h w v"
proof -
  define u where "u = (case w_current w of
     Some l \<Rightarrow> if ol_hour l \<noteq> g then rotate_to sha g w else w | None \<Rightarrow> rotate_to sha g w)"
  note r = rotate_to_effect [where sha = sha and h = g and w = w]
  have rot: "past z h (rotate_to sha g w) \<and> same_at h w (rotate_to sha g w) \<and>
      (\<exists>l. w_current (rotate_to sha g w) = Some l \<and> ol_hour l = g)"
    using p g r(2,3,6,7) r(8) by (auto simp: past_def side_close_current split: option.splits)
  have u: "past z h u" "same_at h w u" "\<exists>l. w_current u = Some l \<and> ol_hour l = g"
    using rot p by (auto simp: u_def split: option.splits)
  obtain l where l: "w_current u = Some l" "ol_hour l = g" using u(3) by blast
  have "v = (let (l', d) = log_write raw i (l, w_disk u) in u\<lparr>w_current := Some l', w_disk := d\<rparr>)"
    unfolding v_def write_frame_def Let_def u_def [symmetric] by (simp add: l)
  then show ?thesis using u l g by (auto simp: log_write_def past_def)
qed

lemma past_note_utc: "past z h w \<Longrightarrow> past z h (note_utc z mt w) \<and> same_at h w (note_utc z mt w)"
  by (auto simp: past_def note_utc_def)

lemma clamp_second_cases:
  "clamp_second s w = (min (max s 0) 59, w) \<or> clamp_second s w = (min (max s 0) 59, w\<lparr>w_clamped := True\<rparr>)"
  by (simp add: clamp_second_def)

lemma update_time_reading:
  assumes "fr_proto f = UBX" "e_ident E f = Inr ''NAV-PVT''" "update_time E mt f w = (err, v)"
  shows "(\<exists>t u. reading E f = Some t \<and> v = note_utc t mt u \<and> (u = w \<or> u = w\<lparr>w_clamped := True\<rparr>)) \<or>
    (reading E f = None \<and> (v = w \<or> v = w\<lparr>w_clamped := True\<rparr>))"
proof (cases "e_pvt E f")
  case (Inl e)
  then show ?thesis using assms by (simp add: update_time_def reading_def)
next
  case (Inr p)
  obtain u where u: "clamp_second (pvt_second p) w = (min (max (pvt_second p) 0) 59, u)"
    "u = w \<or> u = w\<lparr>w_clamped := True\<rparr>"
    using clamp_second_cases [of "pvt_second p" w] by blast
  show ?thesis
  proof (cases "pvt_valid_date p \<and> pvt_valid_time p")
    case True
    then show ?thesis using assms Inr u(2) unfolding update_time_def reading_def
      by (cases "mk_datetime (pvt_year p) (pvt_month p) (pvt_day p) (pvt_hour p) (pvt_min p)
          (min (max (pvt_second p) 0) 59)") (auto simp: u(1))
  next
    case False
    then show ?thesis using assms Inr by (auto simp: update_time_def reading_def)
  qed
qed

lemma past_handle:
  assumes p: "past z h w" and ok: "writer_ok (e_sha E) w"
    and q: "reading E f = None \<or> reading E f = Some z"
  shows "past z h (snd (handle E now mt f w)) \<and> same_at h w (snd (handle E now mt f w))"
proof -
  have ubx: "past z h (handle_ubx (e_sha E) now mt raw i u) \<and> same_at h w (handle_ubx (e_sha E) now mt raw i u)"
    if "past z h u" "same_at h w u" "writer_ok (e_sha E) u" for u raw i
  proof -
    obtain t where t: "w_utc u = Some t" using \<open>past z h u\<close> by (auto simp: past_def)
    show ?thesis
      using past_write_frame [OF that(1) past_target [OF that(1) t] writer_ok_files [OF that(3)]] that t
      by (auto simp: handle_ubx_def)
  qed
  have upd: "past z h u \<and> same_at h w u \<and> writer_ok (e_sha E) u"
    if i: "fr_proto f = UBX" "e_ident E f = Inr ''NAV-PVT''" and u: "update_time E mt f w = (err, u)" for err u
  proof -
    have c: "past z h (w\<lparr>w_clamped := True\<rparr>)" using p by (simp add: past_def)
    have "past z h u \<and> same_at h w u"
      using update_time_reading [OF i u] q p c past_note_utc [OF p] past_note_utc [OF c] by auto
    then show ?thesis using update_time_ok [OF ok, of E mt f] u by simp
  qed
  show ?thesis using ubx [OF p _ ok] upd ubx p
    by (auto simp: handle_def Let_def split: sum.splits prod.splits option.splits if_splits)
qed

lemma past_tick:
  assumes "past z h w"
  shows "past z h (tick sha mt w) \<and> same_at h w (tick sha mt w)"
  using assms
  by (auto simp: tick_def close_elapsed_hour_def past_def Let_def side_dump_current side_close_current
      split: option.splits)

lemma past_step:
  assumes "past z h w" "writer_ok (e_sha E) w" "repeats E z e"
  shows "past z h (log_step E e w) \<and> same_at h w (log_step E e w)"
proof (cases e)
  case (FrameIn f now mt q)
  have "past z h v \<Longrightarrow> past z h (check_pressure q mt v)" for v by (simp add: past_def)
  moreover have "past z h v \<Longrightarrow> past z h (publish_ev x v)" for v x by (simp add: past_def)
  ultimately show ?thesis using past_handle [OF assms(1,2), of f now mt] assms(3) FrameIn
    by (auto simp: run_frame_def split: prod.splits option.splits)
next
  case (TickIn mt)
  then show ?thesis using past_tick [OF assms(1), of "e_sha E" mt]
    by (auto simp: run_tick_def fsync_begin_def past_def Let_def split: option.splits)
next
  case (UtcIn t mt)
  then show ?thesis using past_note_utc [OF assms(1)] assms(3) by simp
qed (use assms in \<open>auto simp: past_def fsync_end_def set_keep_def set_firmware_def set_site_def
      on_sidecar_def side_dump_current split: option.splits\<close>)

lemma past_run:
  assumes "past z h w" "writer_ok (e_sha E) w" "list_all (repeats E z) es"
  shows "past z h (log_run E es w) \<and> same_at h w (log_run E es w)"
  using assms
proof (induction es arbitrary: w)
  case Nil
  then show ?case by (simp add: log_run_def)
next
  case (Cons e es)
  have "past z h (log_step E e w) \<and> same_at h w (log_step E e w)"
    using past_step Cons.prems by simp
  then show ?case using Cons.IH [of "log_step E e w"] log_step_ok [OF Cons.prems(2), of e] Cons.prems(3)
    by (simp add: log_run_def)
qed

lemma tick_closes_effect:
  assumes "hour_elapsed mt w" "w_current w = Some l" "w_utc w = Some t"
  shows "w_current (tick sha mt w) = None"
    and "d_side (w_disk (tick sha mt w)) (ol_hour l) = Some (Loadable ((ol_sidecar l)
      \<lparr>sc_end_utc := Some t, sc_sha256 := Some (sha (ol_hashed l)), sc_complete := True\<rparr>))"
    and "w_closed_hour (tick sha mt w) = Some (ol_hour l)"
    and "w_frozen_utc (tick sha mt w) = (case w_frozen_utc w of Some z \<Rightarrow> Some z | None \<Rightarrow> Some t)"
    and "w_utc (tick sha mt w) \<noteq> None"
  using assms
  by (auto simp: tick_def close_elapsed_hour_def hour_elapsed_def Let_def close_current_def log_close_def
      split: option.splits)

lemma hour_elapses:
  assumes "w_current w = Some l" "w_utc w = Some t" "w_utc_mono w = Some m"
  shows "\<exists>M. \<forall>mt\<ge>M. hour_elapsed mt w"
proof (intro exI allI impI)
  fix mt :: real
  assume M: "m + 1 + real_of_int (max 0 (ol_hour l + HOUR - t)) + 1 \<le> mt"
  let ?n = "ol_hour l + HOUR - t"
  have p: "0 < mt - m" using M by linarith
  have "real_of_int ?n \<le> real_of_int (max 0 ?n)" "0 \<le> real_of_int (max 0 ?n)" by simp_all
  moreover have "N + 1 \<le> (mt - m) * 1000000" if "N \<le> X" "0 \<le> X" "m + 1 + X + 1 \<le> mt" for N X
    using that by (simp add: algebra_simps)
  ultimately have "real_of_int ?n + 1 \<le> (mt - m) * 1000000" using M by blast
  then have "real_of_int ?n \<le> of_int (timedelta_s (mt - m))"
    using py_round_lower [of "(mt - m) * 1000000"] unfolding timedelta_s_def by linarith
  then show "hour_elapsed mt w" using assms p by (auto simp: hour_elapsed_def)
qed

section \<open>Recovery\<close>

lemma recover_one_cases:
  assumes "recover_one sha k (d, out) = (d', out')"
  shows "d_data d' = d_data d" "\<And>j. j \<noteq> k \<Longrightarrow> d_side d' j = d_side d j"
    "\<And>sc. d_side d' k = Some (Loadable sc) \<Longrightarrow> sc_complete sc"
    "out' = out @ (case (d_side d k, d_data d k) of
                     (Some (Loadable sc), Some bs) \<Rightarrow> if sc_complete sc then [] else [k] | _ \<Rightarrow> [])"
    "disk_ok sha d \<Longrightarrow> disk_ok sha d'"
    "(\<And>sc. d_side d k = Some (Loadable sc) \<Longrightarrow> sc_complete sc) \<Longrightarrow> d' = d"
  using assms
  by (auto simp: recover_one_def dump_at_def disk_ok_def split: option.splits sc_file.splits if_splits)

definition needs_recovery :: "'k disk \<Rightarrow> 'k \<Rightarrow> bool" where
  "needs_recovery d k =
     (case (d_side d k, d_data d k) of (Some (Loadable sc), Some bs) \<Rightarrow> \<not> sc_complete sc | _ \<Rightarrow> False)"

lemma recover_fold:
  assumes "fold (recover_one sha) ks (d, out) = (d', out')" "distinct ks"
  shows "d_data d' = d_data d \<and> (\<forall>j. j \<notin> set ks \<longrightarrow> d_side d' j = d_side d j) \<and>
    (\<forall>k \<in> set ks. \<forall>sc. d_side d' k = Some (Loadable sc) \<longrightarrow> sc_complete sc) \<and>
    out' = out @ filter (needs_recovery d) ks \<and> (disk_ok sha d \<longrightarrow> disk_ok sha d')"
  using assms
proof (induction ks arbitrary: d out)
  case Nil
  then show ?case by simp
next
  case (Cons k ks)
  obtain d1 out1 where o: "recover_one sha k (d, out) = (d1, out1)" by fastforce
  note r = recover_one_cases [OF o]
  have f: "fold (recover_one sha) ks (d1, out1) = (d', out')" and n: "k \<notin> set ks" "distinct ks"
    using Cons.prems o by auto
  note IH = Cons.IH [OF f n(2)]
  have "needs_recovery d1 j = needs_recovery d j" if "j \<in> set ks" for j
  proof -
    have "j \<noteq> k" using that n(1) by auto
    then show ?thesis using r(1) r(2) [of j] by (simp add: needs_recovery_def)
  qed
  then have flt: "filter (needs_recovery d1) ks = filter (needs_recovery d) ks" by (simp cong: filter_cong)
  have "out1 = out @ (if needs_recovery d k then [k] else [])"
    unfolding r(4) by (auto simp: needs_recovery_def split: option.splits sc_file.splits)
  moreover have "sc_complete sc" if "d_side d' k = Some (Loadable sc)" for sc
    using that IH n(1) r(3) by auto
  ultimately show ?case using IH r(1,2,5) flt by auto
qed

lemma recover_fold_idle:
  assumes "\<forall>k \<in> set ks. \<forall>sc. d_side d k = Some (Loadable sc) \<longrightarrow> sc_complete sc"
  shows "fold (recover_one sha) ks (d, out) = (d, out)"
  using assms
  by (induction ks) (auto simp: recover_one_def split: option.splits sc_file.splits)

section \<open>Properties\<close>

text \<open>
  C7. Every frame the writer takes is written exactly once and whole, in the order of arrival: from
  the start on an arbitrary tree, through any interleaving of frames, ticks, fsyncs and setters, and
  the final close, the frames taken are those placed in a file followed by those still waiting for
  the receiver's time, and each hour's file is what it was before followed by the frames placed in
  that hour.
\<close>

theorem raw_log_journal:
  fixes E es queued station messages role fsync_s firmware site mt d0
  assumes "disk_ok (e_sha E) d0"
  defines "w \<equiv> log_finish E queued (log_run E es (writer_init station messages role fsync_s firmware site mt d0))"
  shows "\<exists>J K. map snd J @ K = accepted E messages es \<and> w_pending w = concat K \<and>
    (\<forall>h. contents (w_disk w) h = contents d0 h @ concat (map snd (filter (\<lambda>j. fst j = h) J)))"
proof -
  let ?w0 = "writer_init station messages role fsync_s firmware site mt d0"
  have "journal d0 [] [] ?w0" "w_filter ?w0 = messages" by (simp_all add: journal_def writer_init_def)
  then obtain J K where jk: "journal d0 J K (log_run E es ?w0)" "map snd J @ K = accepted E messages es"
    using log_run_journal [OF writer_init_ok [OF assms(1)], of d0 "[]" "[]" station messages role fsync_s
        firmware site mt es] by auto
  have "journal d0 J K w" unfolding w_def
    by (rule journal_same [OF jk(1)]) (simp_all add: log_finish_def)
  then show ?thesis using jk(2) unfolding journal_def by blast
qed

text \<open>A concrete environment: the checksum is the list of the bytes' characters.\<close>

definition demo_env :: rawlog_env where
  "demo_env = \<lparr>e_sha = map (\<lambda>b. char_of (unat b)),
     e_ident = (\<lambda>f. Inr (if take 1 (fr_raw f) = [1] then ''NAV-PVT'' else ''RXM-RAWX'')),
     e_pvt = (\<lambda>f. Inr \<lparr>pvt_valid_date = True, pvt_valid_time = True, pvt_year = 2026, pvt_month = 7,
                pvt_day = 9, pvt_hour = 16, pvt_min = 59, pvt_second = 60\<rparr>)\<rparr>"

definition demo_frame :: "bytes \<Rightarrow> frame" where
  "demo_frame raw = \<lparr>fr_proto = UBX, fr_raw = raw, fr_t_mono = 0, fr_t_host = 0\<rparr>"

definition empty_disk :: "'k disk" where
  "empty_disk = \<lparr>d_data = (\<lambda>_. None), d_side = (\<lambda>_. None), d_tmp = []\<rparr>"

lemma empty_disk_ok: "disk_ok sha empty_disk"
  by (simp add: disk_ok_def empty_disk_def)

theorem raw_log_journal_witness:
  "\<exists>J K. map snd J @ K = accepted demo_env [''RXM-RAWX'']
       [FrameIn (demo_frame [7]) 0 0 0, FrameIn (demo_frame [1]) 0 1 0, FrameIn (demo_frame [8]) 0 1 0] \<and>
     w_pending (log_finish demo_env 0 (log_run demo_env
       [FrameIn (demo_frame [7]) 0 0 0, FrameIn (demo_frame [1]) 0 1 0, FrameIn (demo_frame [8]) 0 1 0]
       (writer_init ''BASE'' [''RXM-RAWX''] ''base'' 10 [] None 0 empty_disk))) = concat K \<and>
     (\<forall>h. contents (w_disk (log_finish demo_env 0 (log_run demo_env
       [FrameIn (demo_frame [7]) 0 0 0, FrameIn (demo_frame [1]) 0 1 0, FrameIn (demo_frame [8]) 0 1 0]
       (writer_init ''BASE'' [''RXM-RAWX''] ''base'' 10 [] None 0 empty_disk)))) h =
       contents (empty_disk :: utc disk) h @ concat (map snd (filter (\<lambda>j. fst j = h) J)))"
  by (rule raw_log_journal [OF empty_disk_ok])

text \<open>
  C8. The invariant of the writer, through any run and after the final close: a complete sidecar
  carries the SHA-256 and the length of its file, the open hour's sidecar in memory carries those of
  the file so far while the copy on disk is never complete, a file is open only once the time is
  known and only with an empty pending buffer, and that buffer never holds more than 8 MiB.
\<close>

theorem raw_log_invariant:
  fixes E es queued station messages role fsync_s firmware site mt d0
  assumes "disk_ok (e_sha E) d0"
  defines "w \<equiv> log_run E es (writer_init station messages role fsync_s firmware site mt d0)"
  shows "writer_ok (e_sha E) w \<and> writer_ok (e_sha E) (log_finish E queued w) \<and>
    w_current (log_finish E queued w) = None"
proof -
  have ok: "writer_ok (e_sha E) w" unfolding w_def by (intro log_run_ok writer_init_ok assms(1))
  then have "writer_ok (e_sha E) (w\<lparr>w_bp_active := False\<rparr>)"
    by (simp add: writer_ok_def files_ok_def)
  then have "writer_ok (e_sha E) (log_finish E queued w)"
    using ok by (auto simp: log_finish_def intro: close_current_ok publish_ev_ok)
  then show ?thesis using ok by (simp add: log_finish_def)
qed

theorem raw_log_invariant_witness:
  "writer_ok (e_sha demo_env) (log_run demo_env [FrameIn (demo_frame [1]) 0 1 0, TickIn 61]
       (writer_init ''BASE'' [''NAV-PVT''] ''base'' 10 [] None 0 empty_disk)) \<and>
   writer_ok (e_sha demo_env) (log_finish demo_env 0 (log_run demo_env [FrameIn (demo_frame [1]) 0 1 0, TickIn 61]
       (writer_init ''BASE'' [''NAV-PVT''] ''base'' 10 [] None 0 empty_disk))) \<and>
   w_current (log_finish demo_env 0 (log_run demo_env [FrameIn (demo_frame [1]) 0 1 0, TickIn 61]
       (writer_init ''BASE'' [''NAV-PVT''] ''base'' 10 [] None 0 empty_disk))) = None"
  by (rule raw_log_invariant [OF empty_disk_ok])

text \<open>
  C9. An hour does not stay open for ever, and once closed it stays closed while the receiver says
  nothing new: for every open hour there is a monotonic instant from which every tick closes it,
  with a complete sidecar. Its \<open>end_utc\<close> is the writer's clock at the close, which is the last
  reading \<open>z\<close> it was given or, where the clock has already been projected past an hour that
  elapsed in silence, the projection that opened this one (\<open>w_frozen_utc\<close> then still holds \<open>z\<close>). In
  both cases no input after such a tick that repeats the reading \<open>z\<close>, or carries none, touches the
  file or its sidecar again.
\<close>

theorem raw_log_hour_closes:
  fixes E w
  assumes "writer_ok (e_sha E) w" "w_current w = Some l"
  defines "z \<equiv> (case w_frozen_utc w of Some z \<Rightarrow> z | None \<Rightarrow> the (w_utc w))"
  shows "\<exists>M t. w_utc w = Some t \<and> (\<forall>mt\<ge>M.
    (let v = tick (e_sha E) mt w in
       w_current v = None \<and>
       (\<exists>sc. d_side (w_disk v) (ol_hour l) = Some (Loadable sc) \<and> sc_complete sc \<and>
          sc_end_utc sc = Some t \<and> sc_sha256 sc = Some (e_sha E (contents (w_disk w) (ol_hour l)))) \<and>
       (\<forall>es. list_all (repeats E z) es \<longrightarrow>
          contents (w_disk (log_run E es v)) (ol_hour l) = contents (w_disk w) (ol_hour l) \<and>
          d_side (w_disk (log_run E es v)) (ol_hour l) = d_side (w_disk v) (ol_hour l))))"
proof -
  obtain t m where tm: "w_utc w = Some t" "w_utc_mono w = Some m"
    using assms by (auto simp: writer_ok_def files_ok_def)
  obtain M where M: "\<forall>mt\<ge>M. hour_elapsed mt w" using hour_elapses [OF assms(2) tm] by blast
  have l: "log_ok l (w_disk w)" using assms by (simp add: writer_ok_def files_ok_def)
  have stay: "past z (ol_hour l) (tick (e_sha E) mt w)" if "M \<le> mt" for mt
    using tick_closes_effect [of mt w l t "e_sha E"] M assms(2) tm(1) that
    by (auto simp: past_def z_def split: option.splits)
  show ?thesis
  proof (intro exI [of _ M] exI [of _ t] conjI allI impI)
    show "w_utc w = Some t" by (rule tm(1))
    fix mt assume mt: "M \<le> mt"
    note c = tick_closes_effect [of mt w l t "e_sha E"]
    have "contents (w_disk (log_run E es (tick (e_sha E) mt w))) (ol_hour l) = contents (w_disk w) (ol_hour l) \<and>
        d_side (w_disk (log_run E es (tick (e_sha E) mt w))) (ol_hour l) =
        d_side (w_disk (tick (e_sha E) mt w)) (ol_hour l)" if "list_all (repeats E z) es" for es
      using past_run [OF stay [OF mt] tick_ok [OF assms(1)] that] by simp
    then show "let v = tick (e_sha E) mt w in
       w_current v = None \<and>
       (\<exists>sc. d_side (w_disk v) (ol_hour l) = Some (Loadable sc) \<and> sc_complete sc \<and>
          sc_end_utc sc = Some t \<and> sc_sha256 sc = Some (e_sha E (contents (w_disk w) (ol_hour l)))) \<and>
       (\<forall>es. list_all (repeats E z) es \<longrightarrow>
          contents (w_disk (log_run E es v)) (ol_hour l) = contents (w_disk w) (ol_hour l) \<and>
          d_side (w_disk (log_run E es v)) (ol_hour l) = d_side (w_disk v) (ol_hour l))"
      using c M mt assms(2) tm(1) l by (auto simp: Let_def log_ok_def)
  qed
qed

definition demo_writer :: writer where
  "demo_writer = log_run demo_env [FrameIn (demo_frame [1]) 0 5 0]
     (writer_init ''BASE'' [''NAV-PVT''] ''base'' 10 [] None 0 empty_disk)"

lemma demo_writer_ok: "writer_ok (e_sha demo_env) demo_writer"
  unfolding demo_writer_def by (intro log_run_ok writer_init_ok empty_disk_ok)

lemma demo_writer_open: "w_current demo_writer = Some (the (w_current demo_writer))"
proof -
  have "w_current demo_writer \<noteq> None" by code_simp
  then show ?thesis by simp
qed

theorem raw_log_hour_closes_witness:
  "\<exists>M. w_current (tick (e_sha demo_env) M demo_writer) = None \<and>
    (\<exists>sc. d_side (w_disk (tick (e_sha demo_env) M demo_writer)) (ol_hour (the (w_current demo_writer))) =
       Some (Loadable sc) \<and> sc_complete sc)"
  using raw_log_hour_closes [OF demo_writer_ok demo_writer_open] unfolding Let_def by (meson order_refl)

text \<open>
  A writer that opens an hour whose file already holds data appends to it, and its sidecar goes
  on from the one it finds: the counts, the start time, the operator's \<open>keep\<close> mark and the clock
  that named the file are the old ones, firmware and site are the live ones where they are known,
  the byte count is that of the whole file and the file is marked recovered.
\<close>

theorem restart_carries_over:
  assumes "contents (w_disk w) h \<noteq> []" "d_side (w_disk w) h = Some (Loadable p)"
    and "w_current w = None" "w_pending w = []"
  shows "contents (w_disk (rotate_to sha h w)) h = contents (w_disk w) h \<and>
    (\<exists>sc. d_side (w_disk (rotate_to sha h w)) h = Some (Loadable sc) \<and>
       sc_msg_counts sc = sc_msg_counts p \<and> sc_keep sc = sc_keep p \<and>
       sc_start_utc sc = (if sc_start_utc p = None then w_utc w else sc_start_utc p) \<and>
       sc_firmware sc = (if w_firmware w = [] then sc_firmware p else w_firmware w) \<and>
       sc_time_source sc = (if sc_time_source p = [] then w_time_source w else sc_time_source p) \<and>
       sc_site sc = (case w_site w of Some (c # cs) \<Rightarrow> w_site w | _ \<Rightarrow> sc_site p) \<and>
       sc_bytes sc = length (contents (w_disk w) h) \<and> sc_recovered sc \<and> \<not> sc_complete sc)"
  using assms
  by (auto simp: rotate_to_def close_current_def open_log_new_def carry_over_def new_sidecar_def or_str_def
      or_opt_def dump_current_def log_dump_def Let_def split: option.splits)

definition demo_disk :: "utc disk" where
  "demo_disk = dump_at 0 ((new_sidecar 0 demo_writer)\<lparr>sc_keep := True\<rparr>) (append_at 0 [1, 2] empty_disk)"

theorem restart_carries_over_witness:
  "let w = writer_init ''BASE'' [''NAV-PVT''] ''base'' 10 ''1.13'' None 0 demo_disk;
       p = (new_sidecar 0 demo_writer)\<lparr>sc_keep := True\<rparr> in
    contents (w_disk (rotate_to (e_sha demo_env) 0 w)) 0 = contents (w_disk w) 0 \<and>
    (\<exists>sc. d_side (w_disk (rotate_to (e_sha demo_env) 0 w)) 0 = Some (Loadable sc) \<and>
       sc_msg_counts sc = sc_msg_counts p \<and> sc_keep sc = sc_keep p \<and>
       sc_start_utc sc = (if sc_start_utc p = None then w_utc w else sc_start_utc p) \<and>
       sc_firmware sc = (if w_firmware w = [] then sc_firmware p else w_firmware w) \<and>
       sc_time_source sc = (if sc_time_source p = [] then w_time_source w else sc_time_source p) \<and>
       sc_site sc = (case w_site w of Some (c # cs) \<Rightarrow> w_site w | _ \<Rightarrow> sc_site p) \<and>
       sc_bytes sc = length (contents (w_disk w) 0) \<and> sc_recovered sc \<and> \<not> sc_complete sc)"
  unfolding Let_def
  by (rule restart_carries_over) (simp_all add: demo_disk_def writer_init_def contents_def empty_disk_def)

text \<open>
  C10. Recovery after a crash finalises every listed sidecar it can read, returns exactly the data
  files it finalised, in order, never changes a data file, leaves every other sidecar alone, makes or
  keeps complete sidecars true to their files, and a second pass finds nothing to do.
\<close>

theorem recover_incomplete_correct:
  fixes keys :: "'k list" and d sha
  assumes "distinct keys"
  defines "r \<equiv> recover_incomplete sha keys d"
  shows "d_data (fst r) = d_data d \<and> snd r = filter (needs_recovery d) keys \<and> d_tmp (fst r) = [] \<and>
    (\<forall>j. j \<notin> set keys \<longrightarrow> d_side (fst r) j = d_side d j) \<and>
    (\<forall>k \<in> set keys. \<forall>sc. d_side (fst r) k = Some (Loadable sc) \<longrightarrow> sc_complete sc) \<and>
    (disk_ok sha d \<longrightarrow> disk_ok sha (fst r)) \<and> recover_incomplete sha keys (fst r) = (fst r, [])"
proof -
  let ?d = "d\<lparr>d_tmp := []\<rparr>"
  obtain d' out where r: "fold (recover_one sha) keys (?d, []) = (d', out)" by fastforce
  note f = recover_fold [OF r assms(1)]
  have n: "needs_recovery ?d = needs_recovery d" by (rule ext) (simp add: needs_recovery_def)
  have t: "d_tmp d' = []"
  proof -
    have "d_tmp (fst (fold (recover_one sha) ks (x, y))) = d_tmp x" for ks x y
    proof (induction ks arbitrary: x y)
      case (Cons k ks)
      obtain x1 y1 where o: "recover_one sha k (x, y) = (x1, y1)" by fastforce
      then have "d_tmp x1 = d_tmp x"
        by (auto simp: recover_one_def dump_at_def split: option.splits sc_file.splits if_splits)
      then show ?case using Cons.IH o by simp
    qed simp
    from this [of keys ?d "[]"] show ?thesis using r by simp
  qed
  then have "d'\<lparr>d_tmp := []\<rparr> = d'" by simp
  then have "recover_incomplete sha keys d' = (d', [])"
    unfolding recover_incomplete_def using f recover_fold_idle [of keys d' sha "[]"] by simp
  moreover have "disk_ok sha d \<longrightarrow> disk_ok sha ?d" by (simp add: disk_ok_def)
  moreover have "r = (d', out)" unfolding r_def recover_incomplete_def by (rule r)
  ultimately show ?thesis using f n t by simp
qed

theorem recover_incomplete_witness:
  "let r = recover_incomplete (e_sha demo_env) [0, 3600000000] demo_disk in
    d_data (fst r) = d_data demo_disk \<and>
    snd r = filter (needs_recovery demo_disk) [0, 3600000000] \<and>
    recover_incomplete (e_sha demo_env) [0, 3600000000] (fst r) = (fst r, [])"
proof -
  have "distinct [0, 3600000000 :: int]" by simp
  from recover_incomplete_correct [OF this, of "e_sha demo_env" demo_disk] show ?thesis
    unfolding Let_def by blast
qed

end
