(* ===== verification/LogIndex.thy ===== *)
theory LogIndex
  imports RawLog Text "HOL-Library.List_Lexorder"
begin

text \<open>
  The directory of raw logs: the path an hour's file has (\<open>log_path\<close>, \<open>sidecar_path\<close> of
  \<open>src/mtrtk/rawlog/writer.py\<close>), the read-only view of the tree (\<open>src/mtrtk/rawlog/index.py\<close>), the
  retention policy (\<open>src/mtrtk/rawlog/retention.py\<close>) and the splicing of a window of hours
  (\<open>src/mtrtk/rinex/splice.py\<close>). A path is the list of its components; the tree is a \<open>disk\<close> keyed by
  the path of the data file, and the paths a glob lists are an argument, in the order it gives them.
  Free space, in gigabytes, is a function of what a pass has removed so far.
\<close>

type_synonym path = "string list"

section \<open>Names of hour files\<close>

definition year_text :: "utc \<Rightarrow> string" where
  "year_text t = (case date_of t of (y, m, d) \<Rightarrow> dec (nat y))"

definition month_text :: "utc \<Rightarrow> string" where
  "month_text t = (case date_of t of (y, m, d) \<Rightarrow> zpad 2 (nat m))"

definition day_text :: "utc \<Rightarrow> string" where
  "day_text t = (case date_of t of (y, m, d) \<Rightarrow> zpad 2 (nat d))"

definition doy_text :: "utc \<Rightarrow> string" where
  "doy_text t = (case date_of t of (y, m, d) \<Rightarrow> zpad 3 (nat (day_of_year y m d)))"

definition hour_text :: "utc \<Rightarrow> string" where
  "hour_text t = zpad 2 (nat (hour_of t))"

definition log_name :: "string \<Rightarrow> utc \<Rightarrow> string" where
  "log_name station h =
     station @ ''_'' @ year_text h @ month_text h @ day_text h @ ''_'' @ hour_text h @ ''.ubx''"

definition log_path :: "path \<Rightarrow> string \<Rightarrow> utc \<Rightarrow> path" where
  "log_path base station h = base @ [''ubx'', year_text h, doy_text h, log_name station h]"

text \<open>\<open>Path.with_suffix\<close> on the last component.\<close>

definition name_stem :: "string \<Rightarrow> string" where
  "name_stem n =
     (case rfind1 (CHR ''.'') n of
        Some i \<Rightarrow> if 0 < i \<and> i + 1 < length n then take i n else n
      | None \<Rightarrow> n)"

definition with_suffix :: "string \<Rightarrow> path \<Rightarrow> path" where
  "with_suffix ext p = butlast p @ [name_stem (last p) @ ext]"

definition sidecar_path :: "path \<Rightarrow> path" where
  "sidecar_path p = with_suffix ''.json'' p"

definition station_char :: "char \<Rightarrow> bool" where
  "station_char c \<longleftrightarrow> is_upper c \<or> is_digit c"

definition station_ok :: "string \<Rightarrow> bool" where
  "station_ok s \<longleftrightarrow> length s = 4 \<and> list_all station_char s"

text \<open>
  The pattern of \<open>_NAME_RE\<close> at its fixed offsets, and \<open>strptime\<close> with \<open>%Y%m%d%H\<close> on ten digits.
\<close>

definition parse_log_name :: "string \<Rightarrow> (string \<times> utc) option" where
  "parse_log_name name =
     (let s = at_end name; station = take 4 s; date = take 8 (drop 5 s); hour = take 2 (drop 14 s) in
      if length s = 20 \<and> list_all station_char station \<and> take 1 (drop 4 s) = ''_'' \<and>
         list_all is_digit date \<and> take 1 (drop 13 s) = ''_'' \<and> list_all is_digit hour \<and>
         drop 16 s = ''.ubx''
      then map_option (Pair station)
             (mk_datetime (int (undec (take 4 date))) (int (undec (take 2 (drop 4 date))))
                (int (undec (drop 6 date))) (int (undec hour)) 0 0)
      else None)"

section \<open>The index\<close>

record logfile =
  lf_path :: path
  lf_sidecar_path :: path
  lf_station :: string
  lf_hour :: utc
  lf_bytes :: nat
  lf_complete :: bool
  lf_keep :: bool
  lf_msg_counts :: counts
  lf_start_utc :: "utc option"
  lf_end_utc :: "utc option"
  lf_site :: "string option"

definition hour_end :: "logfile \<Rightarrow> utc" where
  "hour_end lf = lf_hour lf + HOUR"

definition read_sidecar :: "path disk \<Rightarrow> path \<Rightarrow> sidecar option" where
  "read_sidecar d p = (case d_side d p of Some (Loadable sc) \<Rightarrow> Some sc | _ \<Rightarrow> None)"

definition load_logfile :: "path disk \<Rightarrow> path \<Rightarrow> logfile option" where
  "load_logfile d p =
     (case parse_log_name (last p) of
        None \<Rightarrow> None
      | Some (station, h) \<Rightarrow>
          (case d_data d p of
             None \<Rightarrow> None
           | Some bs \<Rightarrow>
               (case read_sidecar d p of
                  None \<Rightarrow> Some \<lparr>lf_path = p, lf_sidecar_path = sidecar_path p, lf_station = station,
                     lf_hour = h, lf_bytes = length bs, lf_complete = False, lf_keep = False,
                     lf_msg_counts = [], lf_start_utc = None, lf_end_utc = None, lf_site = None\<rparr>
                | Some sc \<Rightarrow> Some \<lparr>lf_path = p, lf_sidecar_path = sidecar_path p, lf_station = station,
                     lf_hour = h, lf_bytes = length bs, lf_complete = sc_complete sc,
                     lf_keep = sc_keep sc, lf_msg_counts = sc_msg_counts sc,
                     lf_start_utc = sc_start_utc sc, lf_end_utc = sc_end_utc sc,
                     lf_site = sc_site sc\<rparr>)))"

definition list_logs :: "path disk \<Rightarrow> path list \<Rightarrow> logfile list" where
  "list_logs d globbed = sort_key lf_hour (List.map_filter (load_logfile d) globbed)"

definition overlaps :: "utc \<Rightarrow> utc \<Rightarrow> logfile \<Rightarrow> bool" where
  "overlaps start stop lf \<longleftrightarrow> lf_hour lf < stop \<and> start < hour_end lf"

definition files_for_window :: "path disk \<Rightarrow> path list \<Rightarrow> utc \<Rightarrow> utc \<Rightarrow> logfile list" where
  "files_for_window d globbed start stop = filter (overlaps start stop) (list_logs d globbed)"

definition by_hour :: "logfile list \<Rightarrow> utc \<Rightarrow> logfile option" where
  "by_hour lfs = py_dict (map (\<lambda>lf. (lf_hour lf, lf)) lfs)"

function hour_slots :: "(utc \<Rightarrow> logfile option) \<Rightarrow> utc \<Rightarrow> utc \<Rightarrow> (utc \<times> logfile option) list" where
  "hour_slots files h stop =
     (if h < stop then (h, files h) # hour_slots files (h + HOUR) stop else [])"
  by pat_completeness auto

termination hour_slots
  by (relation "measure (\<lambda>(files, h, stop). nat (stop - h))") (auto simp: HOUR_def)

declare hour_slots.simps [simp del]

definition hour_availability ::
  "path disk \<Rightarrow> path list \<Rightarrow> utc \<Rightarrow> utc \<Rightarrow> (utc \<times> logfile option) list"
where
  "hour_availability d globbed start stop =
     hour_slots (by_hour (list_logs d globbed)) (hour_floor start) stop"

section \<open>Retention\<close>

definition prunable :: "logfile list \<Rightarrow> logfile list" where
  "prunable logs =
     (if length logs < 2 then [] else filter (\<lambda>lf. \<not> lf_keep lf) (butlast logs))"

definition delete_log :: "logfile \<Rightarrow> path disk \<Rightarrow> path disk" where
  "delete_log v d =
     d\<lparr>d_data := (d_data d)(lf_path v := None), d_side := (d_side d)(lf_path v := None)\<rparr>"

text \<open>\<open>_prune\<close>: what is deleted, given what has been deleted before.\<close>

fun prune_from :: "(logfile list \<Rightarrow> real) \<Rightarrow> real \<Rightarrow> logfile list \<Rightarrow> logfile list \<Rightarrow> logfile list" where
  "prune_from free min_free deleted [] = deleted"
| "prune_from free min_free deleted (v # vs) =
     (if free deleted < min_free then
        (if free (deleted @ [v]) \<ge> min_free then deleted @ [v]
         else prune_from free min_free (deleted @ [v]) vs)
      else deleted)"

definition prune_once :: "(logfile list \<Rightarrow> real) \<Rightarrow> real \<Rightarrow> logfile list \<Rightarrow> logfile list" where
  "prune_once free min_free logs = prune_from free min_free [] (prunable logs)"

text \<open>
  \<open>prune\<close> with \<open>reclaim\<close>: the exports made of the hours up to a victim's end go first; free space
  depends on the instants reclaimed and on the logs deleted. A failing \<open>reclaim\<close> is only reported.
\<close>

fun prune_reclaim ::
  "(utc list \<Rightarrow> logfile list \<Rightarrow> real) \<Rightarrow> real \<Rightarrow> utc list \<Rightarrow> logfile list \<Rightarrow> logfile list \<Rightarrow>
     utc list \<times> logfile list"
where
  "prune_reclaim free min_free recl deleted [] = (recl, deleted)"
| "prune_reclaim free min_free recl deleted (v # vs) =
     (if free recl deleted \<ge> min_free then (recl, deleted)
      else if free (recl @ [hour_end v]) deleted \<ge> min_free then (recl @ [hour_end v], deleted)
      else prune_reclaim free min_free (recl @ [hour_end v]) (deleted @ [v]) vs)"

definition prune_all ::
  "(utc list \<Rightarrow> logfile list \<Rightarrow> real) \<Rightarrow> real \<Rightarrow> bool \<Rightarrow> logfile list \<Rightarrow> utc list \<times> logfile list"
where
  "prune_all free min_free has_reclaim logs =
     (if has_reclaim then prune_reclaim free min_free [] [] (prunable logs)
      else ([], prune_once (free []) min_free logs))"

definition prune_disk :: "logfile list \<Rightarrow> path disk \<Rightarrow> path disk" where
  "prune_disk = fold delete_log"

section \<open>Splicing a window\<close>

datatype splice_error =
    EmptyWindow
  | NegativeLead
  | NoData
  | MixedStations "string list"
  | Disappeared path
  | ReadFailed path

record splice_result =
  sr_path :: path
  sr_files :: "logfile list"
  sr_bytes :: nat
  sr_lead_hours :: int

type_synonym outputs = "path \<Rightarrow> bytes option"

definition CHUNK :: nat where "CHUNK = push_bit 20 1"

text \<open>
  The loop that reads a log in chunks and writes each to the partial file. \<open>bad k\<close> says that the read
  number \<open>k\<close> of the file raises an \<open>OSError\<close>; the first component tells whether one did.
\<close>

function copy_chunks ::
  "(nat \<Rightarrow> bool) \<Rightarrow> path \<Rightarrow> nat \<Rightarrow> bytes \<Rightarrow> outputs \<times> nat \<Rightarrow> bool \<times> outputs \<times> nat"
where
  "copy_chunks bad part k rest (out, n) =
     (if bad k then (True, out, n)
      else
        (let chunk = take CHUNK rest in
         if chunk = [] then (False, out, n)
         else copy_chunks bad part (Suc k) (drop CHUNK rest)
                (out(part := Some (case out part of Some bs \<Rightarrow> bs @ chunk | None \<Rightarrow> chunk)), n + length chunk)))"
  by pat_completeness auto

termination copy_chunks
  by (relation "measure (\<lambda>(bad, part, k, rest, s). length rest)") (auto simp: CHUNK_def Let_def)

declare copy_chunks.simps [simp del]

fun copy_files ::
  "(path \<Rightarrow> nat \<Rightarrow> bool) \<Rightarrow> path disk \<Rightarrow> path \<Rightarrow> logfile list \<Rightarrow> outputs \<times> nat \<Rightarrow>
     splice_error option \<times> outputs \<times> nat"
where
  "copy_files bad d part [] s = (None, s)"
| "copy_files bad d part (lf # lfs) s =
     (case d_data d (lf_path lf) of
        None \<Rightarrow> (Some (Disappeared (lf_path lf)), s)
      | Some bs \<Rightarrow>
          (case copy_chunks (bad (lf_path lf)) part 0 bs s of
             (True, s') \<Rightarrow> (Some (ReadFailed (lf_path lf)), s')
           | (False, s') \<Rightarrow> copy_files bad d part lfs s'))"

definition part_path :: "path \<Rightarrow> path" where
  "part_path dest = butlast dest @ [last dest @ ''.part'']"

definition window_files ::
  "path disk \<Rightarrow> path list \<Rightarrow> utc \<Rightarrow> utc \<Rightarrow> int \<Rightarrow> string option \<Rightarrow> logfile list"
where
  "window_files d globbed start stop lead station =
     (let files = files_for_window d globbed (start - lead * HOUR) stop in
      case station of None \<Rightarrow> files | Some s \<Rightarrow> filter (\<lambda>lf. lf_station lf = s) files)"

text \<open>
  \<open>d\<close> is the tree that was listed, \<open>d'\<close> the tree while it is read and \<open>bad\<close> tells which reads of it fail.
\<close>

definition splice_window ::
  "path disk \<Rightarrow> path list \<Rightarrow> path disk \<Rightarrow> (path \<Rightarrow> nat \<Rightarrow> bool) \<Rightarrow> utc \<Rightarrow> utc \<Rightarrow> path \<Rightarrow> int \<Rightarrow>
     string option \<Rightarrow> outputs \<Rightarrow> (splice_error + splice_result) \<times> outputs"
where
  "splice_window d globbed d' bad start stop dest lead station out =
     (if start \<ge> stop then (Inl EmptyWindow, out)
      else if lead < 0 then (Inl NegativeLead, out)
      else
        (let files = window_files d globbed start stop lead station in
         if \<not> list_ex (overlaps start stop) files then (Inl NoData, out)
         else
           (let stations = sort (remdups (map lf_station files)) in
            if length stations > 1 then (Inl (MixedStations stations), out)
            else
              (let part = part_path dest in
               case copy_files bad d' part files (out(part := Some []), 0) of
                 (Some e, out', n) \<Rightarrow> (Inl e, out'(part := None))
               | (None, out', n) \<Rightarrow>
                   (Inr \<lparr>sr_path = dest, sr_files = files, sr_bytes = n, sr_lead_hours = lead\<rparr>,
                    out'(dest := out' part, part := None))))))"

section \<open>Lemmas: names\<close>

lemma date_bounds:
  assumes "date_of t = (y, m, d)" "1000 \<le> y" "y \<le> 9999"
  shows "year_text t = digits 4 (nat y)" "month_text t = digits 2 (nat m)" "day_text t = digits 2 (nat d)"
    "hour_text t = digits 2 (nat (hour_of t))" "0 \<le> m" "m < 100" "0 \<le> d" "d < 100"
    "0 \<le> hour_of t" "hour_of t < 100"
proof -
  have o: "1 \<le> m" "m \<le> 12" "1 \<le> d" "d \<le> days_in_month y m"
    using ymd2ord_ord2ymd [OF assms(1) [unfolded date_of_def]] by blast+
  have d: "days_in_month y m \<le> 31" by (simp add: days_in_month_def)
  have "0 \<le> t mod DAY" "t mod DAY < DAY" by (simp_all add: DAY_def)
  then have h: "0 \<le> hour_of t" "hour_of t < 24"
    by (simp_all add: hour_of_def HOUR_def DAY_def pos_imp_zdiv_nonneg_iff)
  show "0 \<le> m" "m < 100" "0 \<le> d" "d < 100" "0 \<le> hour_of t" "hour_of t < 100" using o d h by simp_all
  have "nat y < 10 ^ Suc 3" "10 ^ 3 \<le> nat y" using assms(2,3) by (simp_all add: nat_less_iff le_nat_iff)
  then have "dec (nat y) = digits 4 (nat y)"
    using dec_digits_exact [of 3 "nat y"] by (simp only: Suc_numeral add_num_simps numeral_3_eq_3 [symmetric]) 
  then show "year_text t = digits 4 (nat y)"
    using assms(1) by (simp only: year_text_def prod.case)
  have "nat m < 10 ^ 2" "nat d < 10 ^ 2" "nat (hour_of t) < 10 ^ 2"
    using o d h by (simp_all add: nat_less_iff)
  then show "month_text t = digits 2 (nat m)" "day_text t = digits 2 (nat d)"
    "hour_text t = digits 2 (nat (hour_of t))"
    using assms(1) by (simp_all only: month_text_def day_text_def hour_text_def zpad_digits prod.case pos2)
qed

lemma take_drop_log_name:
  assumes "length st = 4" "length a = 4" "length b = 2" "length c = 2" "length e = 2"
  defines "s \<equiv> st @ ''_'' @ a @ b @ c @ ''_'' @ e @ ''.ubx''"
  shows "length s = 20" "take 4 s = st" "take 1 (drop 4 s) = ''_''" "take 8 (drop 5 s) = a @ b @ c"
    "take 1 (drop 13 s) = ''_''" "take 2 (drop 14 s) = e" "drop 16 s = ''.ubx''" "at_end s = s"
    "take 4 (a @ b @ c) = a" "take 2 (drop 4 (a @ b @ c)) = b" "drop 6 (a @ b @ c) = c"
  using assms(1-5) by (simp_all add: s_def at_end_def)

lemma parse_log_name_of_path:
  assumes "station_ok st" "hour_floor h = h" "date_of h = (y, m, d)" "1000 \<le> y" "y \<le> 9999"
  shows "parse_log_name (log_name st h) = Some (st, h)"
proof -
  note b = date_bounds [OF assms(3-5)]
  note n = take_drop_log_name [of st "digits 4 (nat y)" "digits 2 (nat m)" "digits 2 (nat d)"
      "digits 2 (nat (hour_of h))"]
  have st: "length st = 4" "list_all station_char st" using assms(1) by (simp_all add: station_ok_def)
  have u: "int (undec (digits 4 (nat y))) = y" "int (undec (digits 2 (nat m))) = m"
    "int (undec (digits 2 (nat d))) = d" "int (undec (digits 2 (nat (hour_of h)))) = hour_of h"
    using b(5-10) assms(4,5) by (simp_all add: undec_digits nat_less_iff mod_less)
  have m: "mk_datetime y m d (hour_of h) 0 0 = Some h"
    using mk_datetime_of_hour [OF assms(2,3)] assms(4,5) by simp
  show ?thesis
    unfolding parse_log_name_def Let_def log_name_def b(1-4)
    using n st by (simp only: length_digits digits_all_digit list_all_append u m) simp
qed

lemma log_path_inject:
  assumes "station_ok st" "hour_floor h = h" "date_of h = (y, m, d)" "1000 \<le> y" "y \<le> 9999"
    and "station_ok st'" "hour_floor h' = h'" "date_of h' = (y', m', d')" "1000 \<le> y'" "y' \<le> 9999"
    and "log_path base st h = log_path base st' h'"
  shows "st = st' \<and> h = h'"
proof -
  have "log_name st h = log_name st' h'" using assms(11) by (simp add: log_path_def)
  then have "Some (st, h) = Some (st', h')"
    using parse_log_name_of_path [OF assms(1-5)] parse_log_name_of_path [OF assms(6-10)] by argo
  then show ?thesis by simp
qed

section \<open>Lemmas: the index\<close>

lemma list_logs_sorted: "sorted (map lf_hour (list_logs d g))"
  by (simp add: list_logs_def)

lemma load_logfile_Some:
  assumes "load_logfile d p = Some lf"
  shows "lf_path lf = p \<and> parse_log_name (last p) = Some (lf_station lf, lf_hour lf) \<and>
    (\<exists>bs. d_data d p = Some bs \<and> lf_bytes lf = length bs)"
  using assms by (auto simp: load_logfile_def split: option.splits prod.splits)

lemma set_list_logs: "set (list_logs d g) = {lf. \<exists>p \<in> set g. load_logfile d p = Some lf}"
  by (force simp: list_logs_def List.map_filter_def image_def)

lemma by_hour_Some: "by_hour lfs h = Some lf \<Longrightarrow> lf \<in> set lfs \<and> lf_hour lf = h"
  by (auto simp: by_hour_def py_dict_def dest!: map_of_SomeD)

lemma by_hour_None: "by_hour lfs h = None \<longleftrightarrow> (\<forall>lf \<in> set lfs. lf_hour lf \<noteq> h)"
  by (auto simp: by_hour_def py_dict_def map_of_eq_None_iff image_def)

definition slot_count :: "utc \<Rightarrow> utc \<Rightarrow> nat" where
  "slot_count h stop = nat ((stop - h + HOUR - 1) div HOUR)"

lemma hour_slots_eq:
  "hour_slots files h stop =
     map (\<lambda>i. (h + int i * HOUR, files (h + int i * HOUR))) [0..<slot_count h stop]"
proof (induction files h stop rule: hour_slots.induct)
  case (1 files h stop)
  show ?case
  proof (cases "h < stop")
    case True
    have "(stop - h + HOUR - 1) div HOUR = (stop - (h + HOUR) + HOUR - 1 + HOUR) div HOUR"
      by (simp add: algebra_simps)
    also have "\<dots> = (stop - (h + HOUR) + HOUR - 1) div HOUR + 1"
      by (rule div_add_self2) (simp add: HOUR_def)
    finally have "(stop - h + HOUR - 1) div HOUR = (stop - (h + HOUR) + HOUR - 1) div HOUR + 1" .
    moreover have "0 \<le> (stop - (h + HOUR) + HOUR - 1) div HOUR"
      using True by (simp add: HOUR_def pos_imp_zdiv_nonneg_iff)
    ultimately have c: "slot_count h stop = Suc (slot_count (h + HOUR) stop)"
      by (simp add: slot_count_def nat_add_distrib)
    show ?thesis using 1 [OF True] True
      by (subst hour_slots.simps) (simp add: c upt_conv_Cons map_Suc_upt [symmetric] comp_def algebra_simps
          del: upt_Suc)
  next
    case False
    then have "(stop - h + HOUR - 1) div HOUR \<le> 0" by (simp add: HOUR_def)
    then show ?thesis using False by (subst hour_slots.simps) (simp add: slot_count_def)
  qed
qed

section \<open>Lemmas: retention\<close>

lemma prune_from_props:
  "\<exists>n. prune_from free mf del vs = del @ take n vs \<and> n \<le> length vs \<and>
     (n = length vs \<or> mf \<le> free (del @ take n vs)) \<and> (\<forall>k < n. free (del @ take k vs) < mf)"
proof (induction vs arbitrary: del)
  case Nil
  then show ?case by simp
next
  case (Cons v vs)
  consider "mf \<le> free del" | "free del < mf" "mf \<le> free (del @ [v])" | "free del < mf" "free (del @ [v]) < mf"
    by linarith
  then show ?case
  proof cases
    case 1
    then show ?thesis by (intro exI [of _ 0]) simp
  next
    case 2
    then show ?thesis by (intro exI [of _ "Suc 0"]) simp
  next
    case 3
    obtain n where n: "prune_from free mf (del @ [v]) vs = (del @ [v]) @ take n vs" "n \<le> length vs"
      "n = length vs \<or> mf \<le> free ((del @ [v]) @ take n vs)" "\<forall>k < n. free ((del @ [v]) @ take k vs) < mf"
      using Cons.IH by blast
    have "\<forall>k < Suc n. free (del @ take k (v # vs)) < mf"
      using n(4) 3(1) by (simp add: All_less_Suc2)
    then show ?thesis using n(1-3) 3 by (intro exI [of _ "Suc n"]) simp
  qed
qed

lemma prune_reclaim_props:
  "\<exists>n r. prune_reclaim free mf recl del vs = (r, del @ take n vs) \<and> n \<le> length vs \<and>
     (n = length vs \<or> mf \<le> free r (del @ take n vs)) \<and>
     (\<forall>k < n. free (recl @ map hour_end (take (Suc k) vs)) (del @ take k vs) < mf)"
proof (induction vs arbitrary: recl del)
  case Nil
  then show ?case by simp
next
  case (Cons v vs)
  let ?r = "recl @ [hour_end v]"
  consider "mf \<le> free recl del" | "free recl del < mf" "mf \<le> free ?r del"
    | "free recl del < mf" "free ?r del < mf"
    by linarith
  then show ?case
  proof cases
    case 1
    then show ?thesis by (intro exI [of _ 0] exI [of _ recl]) simp
  next
    case 2
    then show ?thesis by (intro exI [of _ 0] exI [of _ ?r]) simp
  next
    case 3
    obtain n r where n: "prune_reclaim free mf ?r (del @ [v]) vs = (r, (del @ [v]) @ take n vs)"
      "n \<le> length vs" "n = length vs \<or> mf \<le> free r ((del @ [v]) @ take n vs)"
      "\<forall>k < n. free (?r @ map hour_end (take (Suc k) vs)) ((del @ [v]) @ take k vs) < mf"
      using Cons.IH by blast
    have "\<forall>k < Suc n. free (recl @ map hour_end (take (Suc k) (v # vs))) (del @ take k (v # vs)) < mf"
      using n(4) 3(2) by (simp add: All_less_Suc2)
    then show ?thesis using n(1-3) 3 by (intro exI [of _ "Suc n"] exI [of _ r]) simp
  qed
qed

lemma sorted_filter_take:
  assumes "sorted (map f xs)" "v \<in> set (take n (filter P xs))" "x \<in> set (filter P xs)" "x \<notin> set (take n (filter P xs))"
  shows "f v \<le> f x"
proof -
  have s: "sorted (map f (filter P xs))" using assms(1) by (rule sorted_filter)
  have "x \<in> set (drop n (filter P xs))"
    using assms(3,4) append_take_drop_id [of n "filter P xs"] by (metis Un_iff set_append)
  moreover have "sorted (map f (take n (filter P xs)) @ map f (drop n (filter P xs)))"
    using s by (simp add: map_append [symmetric] del: map_append)
  ultimately show ?thesis using assms(2) by (auto simp: sorted_append)
qed

lemma prune_disk_data:
  "d_data (prune_disk vs d) p = (if p \<in> lf_path ` set vs then None else d_data d p) \<and>
   d_side (prune_disk vs d) p = (if p \<in> lf_path ` set vs then None else d_side d p)"
  unfolding prune_disk_def by (induction vs arbitrary: d) (auto simp: delete_log_def)

section \<open>Lemmas: splicing\<close>

text \<open>The reads of a file of these bytes: one for each chunk and one that finds the end.\<close>

definition read_of :: "bytes \<Rightarrow> nat \<Rightarrow> bool" where
  "read_of bs k \<longleftrightarrow> k * CHUNK < length bs + CHUNK"

lemma read_of_0 [simp]: "read_of bs 0"
  by (simp add: read_of_def CHUNK_def)

lemma read_of_Nil [simp]: "read_of [] k \<longleftrightarrow> k = 0"
  by (simp add: read_of_def CHUNK_def)

lemma read_of_Suc: "rest \<noteq> [] \<Longrightarrow> read_of rest (Suc k) \<longleftrightarrow> read_of (drop CHUNK rest) k"
proof -
  assume "rest \<noteq> []"
  then have l: "0 < length rest" by simp
  have "k * C < L \<longleftrightarrow> k * C < L - C + C" if "0 < L" for L C :: nat
  proof (cases "C \<le> L")
    case False
    then show ?thesis using that by (cases k) auto
  qed simp
  from this [OF l] show ?thesis unfolding read_of_def by simp
qed

lemma reads_split:
  assumes "rest \<noteq> []"
  shows "(\<exists>j. read_of rest j \<and> bad (k + j)) \<longleftrightarrow>
    bad k \<or> (\<exists>j. read_of (drop CHUNK rest) j \<and> bad (Suc k + j))"
proof
  assume "\<exists>j. read_of rest j \<and> bad (k + j)"
  then obtain j where "read_of rest j" "bad (k + j)" by blast
  then show "bad k \<or> (\<exists>j. read_of (drop CHUNK rest) j \<and> bad (Suc k + j))"
    using assms by (cases j) (auto simp: read_of_Suc)
next
  assume "bad k \<or> (\<exists>j. read_of (drop CHUNK rest) j \<and> bad (Suc k + j))"
  then consider "bad k" | j where "read_of rest (Suc j)" "bad (k + Suc j)"
    using assms by (auto simp: read_of_Suc)
  then show "\<exists>j. read_of rest j \<and> bad (k + j)"
  proof cases
    case 1
    then show ?thesis using read_of_0 [of rest] by (metis add_0_right)
  qed blast
qed

lemma copy_chunks_eq:
  assumes "out part = Some bs"
  shows "if \<exists>j. read_of rest j \<and> bad (k + j)
    then \<exists>c m. copy_chunks bad part k rest (out, n) = (True, out(part := Some c), m)
    else copy_chunks bad part k rest (out, n) = (False, out(part := Some (bs @ rest)), n + length rest)"
  using assms
proof (induction "length rest" arbitrary: k rest out n bs rule: less_induct)
  case less
  show ?case
  proof (cases "bad k")
    case True
    then have "\<exists>j. read_of rest j \<and> bad (k + j)" using read_of_0 [of rest] by (metis add_0_right)
    moreover have "copy_chunks bad part k rest (out, n) = (True, out(part := Some bs), n)"
      using True less(2) by (subst copy_chunks.simps) (simp add: fun_upd_idem)
    ultimately show ?thesis by auto
  next
    case ok: False
    show ?thesis
    proof (cases "rest = []")
      case True
      then show ?thesis using less(2) ok by (subst copy_chunks.simps) (simp add: fun_upd_idem)
    next
      case False
      then have c: "take CHUNK rest \<noteq> []" by (simp add: CHUNK_def)
      let ?out = "out(part := Some (bs @ take CHUNK rest))"
      have step: "copy_chunks bad part k rest (out, n) =
          copy_chunks bad part (Suc k) (drop CHUNK rest) (?out, n + length (take CHUNK rest))"
        using c less(2) ok by (subst copy_chunks.simps) (simp add: Let_def)
      have l: "length (take CHUNK rest) + length (drop CHUNK rest) = length rest"
        by (metis append_take_drop_id length_append)
      have "length (drop CHUNK rest) < length rest" using False by (simp add: CHUNK_def)
      note IH = less(1) [OF this, where out = ?out and k = "Suc k" and n = "n + length (take CHUNK rest)",
          OF fun_upd_same]
      show ?thesis
        using IH l ok unfolding reads_split [OF False] step
        by (auto split: if_splits simp: add.assoc)
    qed
  qed
qed

definition log_bytes :: "path disk \<Rightarrow> logfile \<Rightarrow> bytes" where
  "log_bytes d lf = contents d (lf_path lf)"

text \<open>A file that is there and can be read to its end.\<close>

abbreviation readable :: "(path \<Rightarrow> nat \<Rightarrow> bool) \<Rightarrow> path disk \<Rightarrow> logfile \<Rightarrow> bool" where
  "readable bad d lf \<equiv>
     \<exists>bs. d_data d (lf_path lf) = Some bs \<and> \<not> (\<exists>k. read_of bs k \<and> bad (lf_path lf) k)"

text \<open>What an error of the copying tells.\<close>

fun copy_error :: "(path \<Rightarrow> nat \<Rightarrow> bool) \<Rightarrow> path disk \<Rightarrow> logfile list \<Rightarrow> splice_error \<Rightarrow> bool" where
  "copy_error bad d lfs (Disappeared p) = (\<exists>lf \<in> set lfs. lf_path lf = p \<and> d_data d p = None)"
| "copy_error bad d lfs (ReadFailed p) = (\<exists>lf \<in> set lfs. lf_path lf = p \<and>
     (\<exists>bs k. d_data d p = Some bs \<and> read_of bs k \<and> bad p k))"
| "copy_error bad d lfs e = False"

lemma copy_error_Cons: "copy_error bad d lfs e \<Longrightarrow> copy_error bad d (lf # lfs) e"
  by (cases e) auto

lemma copy_files_eq:
  assumes "out part = Some bs"
  shows "if \<forall>lf \<in> set lfs. readable bad d lf
    then copy_files bad d part lfs (out, n) =
      (None, out(part := Some (bs @ concat (map (log_bytes d) lfs))),
       n + length (concat (map (log_bytes d) lfs)))
    else \<exists>e c m. copy_files bad d part lfs (out, n) = (Some e, out(part := Some c), m) \<and> copy_error bad d lfs e"
  using assms
proof (induction lfs arbitrary: out bs n)
  case Nil
  then show ?case by (simp add: fun_upd_idem)
next
  case (Cons lf lfs)
  show ?case
  proof (cases "d_data d (lf_path lf)")
    case None
    then have "copy_files bad d part (lf # lfs) (out, n) = (Some (Disappeared (lf_path lf)), out(part := Some bs), n) \<and>
        copy_error bad d (lf # lfs) (Disappeared (lf_path lf))"
      using Cons.prems by (simp add: fun_upd_idem)
    moreover have "\<not> (\<forall>x \<in> set (lf # lfs). readable bad d x)" using None by simp
    ultimately show ?thesis by (simp only: if_False) blast
  next
    case (Some c)
    note cc = copy_chunks_eq [where out = out and part = part and bs = bs and bad = "bad (lf_path lf)"
        and k = 0 and rest = c and n = n, OF Cons.prems, unfolded add_0]
    show ?thesis
    proof (cases "\<exists>j. read_of c j \<and> bad (lf_path lf) j")
      case True
      then obtain c' m where "copy_chunks (bad (lf_path lf)) part 0 c (out, n) = (True, out(part := Some c'), m)"
        using cc by auto
      then have "copy_files bad d part (lf # lfs) (out, n) = (Some (ReadFailed (lf_path lf)), out(part := Some c'), m) \<and>
          copy_error bad d (lf # lfs) (ReadFailed (lf_path lf))"
        using Some True by auto
      moreover have "\<not> (\<forall>x \<in> set (lf # lfs). readable bad d x)" using Some True by simp
      ultimately show ?thesis by (simp only: if_False) blast
    next
      case False
      then have step: "copy_files bad d part (lf # lfs) (out, n) =
          copy_files bad d part lfs (out(part := Some (bs @ c)), n + length c)"
        using Some cc by simp
      have "readable bad d lf" using Some False by simp
      then have all: "(\<forall>x \<in> set (lf # lfs). readable bad d x) \<longleftrightarrow> (\<forall>x \<in> set lfs. readable bad d x)"
        by simp
      have lb: "log_bytes d lf = c" using contents_data [OF Some, folded log_bytes_def] by simp
      note IH = Cons.IH [of "out(part := Some (bs @ c))" "bs @ c" "n + length c", OF fun_upd_same, unfolded fun_upd_upd]
      show ?thesis
      proof (cases "\<forall>x \<in> set lfs. readable bad d x")
        case True
        show ?thesis using IH [unfolded if_P [OF True]] lb
          unfolding all step if_P [OF True] by (simp add: add.assoc)
      next
        case False
        show ?thesis using IH [unfolded if_not_P [OF False]] copy_error_Cons
          unfolding all step if_not_P [OF False] by blast
      qed
    qed
  qed
qed

section \<open>Properties\<close>

text \<open>
  File names and hours correspond one to one for the years 1000 to 9999: the name that
  \<open>log_path\<close> gives an hour of a station parses back to that station and hour, the sidecar's name is
  the same with the other suffix, and two station hours never share a path.
\<close>

theorem log_name_roundtrip:
  assumes "station_ok st" "hour_floor h = h" "date_of h = (y, m, d)" "1000 \<le> y" "y \<le> 9999"
  shows "parse_log_name (last (log_path base st h)) = Some (st, h) \<and>
    (station_ok st' \<and> hour_floor h' = h' \<and> (\<exists>y' m' d'. date_of h' = (y', m', d') \<and> 1000 \<le> y' \<and> y' \<le> 9999) \<and>
     log_path base st' h' = log_path base st h \<longrightarrow> st' = st \<and> h' = h)"
proof
  show "parse_log_name (last (log_path base st h)) = Some (st, h)"
    using parse_log_name_of_path [OF assms] by (simp add: log_path_def)
  show "station_ok st' \<and> hour_floor h' = h' \<and> (\<exists>y' m' d'. date_of h' = (y', m', d') \<and> 1000 \<le> y' \<and> y' \<le> 9999) \<and>
     log_path base st' h' = log_path base st h \<longrightarrow> st' = st \<and> h' = h"
    using log_path_inject [OF assms] by metis
qed

theorem log_name_roundtrip_witness:
  "parse_log_name (last (log_path [''data''] ''MT01'' 63919209600000000)) = Some (''MT01'', 63919209600000000)"
proof (rule log_name_roundtrip [where y = 2026 and m = 7 and d = 9, THEN conjunct1])
  show "station_ok ''MT01''" by code_simp
  show "hour_floor 63919209600000000 = 63919209600000000" by (simp add: hour_floor_def HOUR_def)
  show "date_of 63919209600000000 = (2026, 7, 9)" by code_simp
qed simp_all

text \<open>
  C11. \<open>hour_availability\<close> is total and gives one slot per hour, consecutive from the hour of the
  start to the last hour that begins before the end; a slot holds a file exactly when the tree has
  one for its hour, and then one of that hour.
\<close>

theorem hour_availability_correct:
  "map fst (hour_availability d g start stop) =
     map (\<lambda>i. hour_floor start + int i * HOUR) [0..<slot_count (hour_floor start) stop] \<and>
   list_all (\<lambda>(h, f).
      hour_floor start \<le> h \<and> h < stop \<and>
      (case f of
         Some lf \<Rightarrow> lf \<in> set (list_logs d g) \<and> lf_hour lf = h
       | None \<Rightarrow> h \<notin> lf_hour ` set (list_logs d g))) (hour_availability d g start stop)"
  unfolding list_all_iff
proof (intro conjI ballI)
  let ?s = "hour_floor start" and ?b = "by_hour (list_logs d g)"
  note e = hour_slots_eq [of ?b ?s stop, folded hour_availability_def]
  show "map fst (hour_availability d g start stop) = map (\<lambda>i. ?s + int i * HOUR) [0..<slot_count ?s stop]"
    by (simp add: e comp_def)
  fix x assume "x \<in> set (hour_availability d g start stop)"
  then obtain i where i: "i < slot_count ?s stop" "x = (?s + int i * HOUR, ?b (?s + int i * HOUR))"
    unfolding e by auto
  have "0 < HOUR" by (simp add: HOUR_def)
  have "int i + 1 \<le> (stop - ?s + HOUR - 1) div HOUR" using i(1) unfolding slot_count_def by linarith
  moreover have "(stop - ?s + HOUR - 1) div HOUR * HOUR \<le> stop - ?s + HOUR - 1"
    using pos_mod_sign [OF \<open>0 < HOUR\<close>, of "stop - ?s + HOUR - 1"]
    by (simp only: minus_mod_eq_div_mult [symmetric])
  ultimately have "(int i + 1) * HOUR \<le> stop - ?s + HOUR - 1"
    using \<open>0 < HOUR\<close> mult_right_mono [of "int i + 1" "(stop - ?s + HOUR - 1) div HOUR" HOUR] by linarith
  then have "?s + int i * HOUR < stop" by (simp add: algebra_simps)
  moreover have "?s \<le> ?s + int i * HOUR" by (simp add: HOUR_def)
  ultimately show "case x of (h, f) \<Rightarrow> ?s \<le> h \<and> h < stop \<and>
      (case f of Some lf \<Rightarrow> lf \<in> set (list_logs d g) \<and> lf_hour lf = h
       | None \<Rightarrow> h \<notin> lf_hour ` set (list_logs d g))"
    using i(2) by (auto simp: by_hour_None dest!: by_hour_Some split: option.split)
qed

text \<open>
  C12. A retention pass deletes a prefix of the prunable hours, oldest first: never the newest log of
  the listing, never one marked \<open>keep\<close>, and no unkept older log is left while a newer one goes;
  before each deletion space was below the floor (with the exports up to that hour reclaimed, where
  they are), and at the end either space is back or nothing prunable is left. No other file or
  sidecar is touched.
\<close>

theorem prune_correct:
  fixes d g free mf has_reclaim
  defines "logs \<equiv> list_logs d g"
  defines "r \<equiv> fst (prune_all free mf has_reclaim logs)"
    and "del \<equiv> snd (prune_all free mf has_reclaim logs)"
  shows "(\<exists>n \<le> length (prunable logs). del = take n (prunable logs) \<and>
      (n = length (prunable logs) \<or> mf \<le> free r del) \<and>
      (\<forall>k < n. free (if has_reclaim then map hour_end (take (Suc k) (prunable logs)) else [])
                 (take k (prunable logs)) < mf)) \<and>
    (\<forall>v \<in> set del. \<not> lf_keep v \<and> v \<in> set (butlast logs) \<and>
      (\<forall>lf \<in> set (butlast logs). \<not> lf_keep lf \<and> lf \<notin> set del \<longrightarrow> lf_hour v \<le> lf_hour lf)) \<and>
    (\<forall>p. p \<notin> lf_path ` set del \<longrightarrow>
      d_data (prune_disk del d) p = d_data d p \<and> d_side (prune_disk del d) p = d_side d p)"
proof -
  let ?c = "prunable logs"
  have "\<exists>n \<le> length ?c. del = take n ?c \<and> (n = length ?c \<or> mf \<le> free r del) \<and>
    (\<forall>k < n. free (if has_reclaim then map hour_end (take (Suc k) ?c) else []) (take k ?c) < mf)"
  proof (cases has_reclaim)
    case True
    obtain n q where "prune_reclaim free mf [] [] ?c = (q, take n ?c)" "n \<le> length ?c"
      "n = length ?c \<or> mf \<le> free q (take n ?c)" "\<forall>k < n. free (map hour_end (take (Suc k) ?c)) (take k ?c) < mf"
      using prune_reclaim_props [of free mf "[]" "[]" ?c] by auto
    then show ?thesis using True
      by (intro exI [of _ n]) (simp add: r_def del_def prune_all_def)
  next
    case False
    obtain n where "prune_from (free []) mf [] ?c = take n ?c" "n \<le> length ?c"
      "n = length ?c \<or> mf \<le> free [] (take n ?c)" "\<forall>k < n. free [] (take k ?c) < mf"
      using prune_from_props [of "free []" mf "[]" ?c] by auto
    then show ?thesis using False
      by (intro exI [of _ n]) (simp add: r_def del_def prune_all_def prune_once_def)
  qed
  moreover obtain n where n: "del = take n ?c" using calculation by blast
  have s: "sorted (map lf_hour (butlast logs))"
    unfolding logs_def map_butlast by (rule sorted_butlast) (rule list_logs_sorted)
  have "\<not> lf_keep v \<and> v \<in> set (butlast logs) \<and>
      (\<forall>lf \<in> set (butlast logs). \<not> lf_keep lf \<and> lf \<notin> set del \<longrightarrow> lf_hour v \<le> lf_hour lf)"
    if v: "v \<in> set del" for v
  proof -
    have "v \<in> set ?c" using v unfolding n by (rule in_set_takeD)
    moreover from this have c: "?c = filter (\<lambda>lf. \<not> lf_keep lf) (butlast logs)"
      by (auto simp: prunable_def split: if_splits)
    ultimately show ?thesis
      using sorted_filter_take [OF s, of v n] v unfolding n c by simp
  qed
  ultimately show ?thesis by (simp add: prune_disk_data)
qed

text \<open>A tree with two hours of one station, the first of them marked \<open>keep\<close>.\<close>

definition demo_hour :: utc where "demo_hour = 63919209600000000"

definition demo_paths :: "path list" where
  "demo_paths = [log_path [] ''MT01'' (demo_hour + HOUR), log_path [] ''MT01'' demo_hour]"

definition demo_tree :: "path disk" where
  "demo_tree = append_at (demo_paths ! 0) [3, 4] (append_at (demo_paths ! 1) [1, 2] empty_disk)"

theorem prune_witness:
  "let logs = list_logs demo_tree demo_paths;
       del = snd (prune_all (\<lambda>r del. real (length del)) 1 False logs) in
    (\<exists>n. del = take n (prunable logs) \<and> (n = length (prunable logs) \<or> 1 \<le> real (length del)))"
  using prune_correct [where d = demo_tree and g = demo_paths and mf = 1 and has_reclaim = False
      and free = "\<lambda>r del. real (length del)"]
  unfolding Let_def by blast

lemma demo_parse:
  "parse_log_name (last (log_path [] ''MT01'' demo_hour)) = Some (''MT01'', demo_hour)"
  "parse_log_name (last (log_path [] ''MT01'' (demo_hour + HOUR))) = Some (''MT01'', demo_hour + HOUR)"
proof -
  have "hour_floor demo_hour = demo_hour" "hour_floor (demo_hour + HOUR) = demo_hour + HOUR"
    by (simp_all add: hour_floor_def demo_hour_def HOUR_def)
  moreover have "date_of demo_hour = (2026, 7, 9)" "date_of (demo_hour + HOUR) = (2026, 7, 9)" "station_ok ''MT01''"
    by code_simp+
  ultimately show "parse_log_name (last (log_path [] ''MT01'' demo_hour)) = Some (''MT01'', demo_hour)"
    "parse_log_name (last (log_path [] ''MT01'' (demo_hour + HOUR))) = Some (''MT01'', demo_hour + HOUR)"
    using parse_log_name_of_path [of "''MT01''" demo_hour 2026 7 9] parse_log_name_of_path [of "''MT01''" "demo_hour + HOUR" 2026 7 9]
    by (simp_all add: log_path_def)
qed

definition demo_file :: "utc \<Rightarrow> nat \<Rightarrow> logfile" where
  "demo_file h n = \<lparr>lf_path = log_path [] ''MT01'' h, lf_sidecar_path = sidecar_path (log_path [] ''MT01'' h), lf_station = ''MT01'',
     lf_hour = h, lf_bytes = n, lf_complete = False, lf_keep = False, lf_msg_counts = [], lf_start_utc = None, lf_end_utc = None,
     lf_site = None\<rparr>"

lemma demo_window:
  "window_files demo_tree demo_paths (demo_hour + HOUR) (demo_hour + 2 * HOUR) 1 None = [demo_file demo_hour 2, demo_file (demo_hour + HOUR) 2]"
  "d_data demo_tree (log_path [] ''MT01'' demo_hour) = Some [1, 2]"
  "d_data demo_tree (log_path [] ''MT01'' (demo_hour + HOUR)) = Some [3, 4]"
proof -
  have n: "log_path [] ''MT01'' demo_hour \<noteq> log_path [] ''MT01'' (demo_hour + HOUR)"
  proof
    assume "log_path [] ''MT01'' demo_hour = log_path [] ''MT01'' (demo_hour + HOUR)"
    then have "Some (''MT01'', demo_hour) = Some (''MT01'', demo_hour + HOUR)" using demo_parse by metis
    then show False by (simp add: HOUR_def)
  qed
  show d: "d_data demo_tree (log_path [] ''MT01'' demo_hour) = Some [1, 2]"
    "d_data demo_tree (log_path [] ''MT01'' (demo_hour + HOUR)) = Some [3, 4]"
    using n by (simp_all add: demo_tree_def demo_paths_def append_at_def contents_def empty_disk_def)
  have s: "read_sidecar demo_tree p = None" for p
    by (simp add: read_sidecar_def demo_tree_def append_at_def empty_disk_def)
  have l: "list_logs demo_tree demo_paths = [demo_file demo_hour 2, demo_file (demo_hour + HOUR) 2]"
    using d s demo_parse by (simp add: list_logs_def List.map_filter_def demo_paths_def load_logfile_def demo_file_def HOUR_def)
  show "window_files demo_tree demo_paths (demo_hour + HOUR) (demo_hour + 2 * HOUR) 1 None =
      [demo_file demo_hour 2, demo_file (demo_hour + HOUR) 2]"
    by (simp add: window_files_def files_for_window_def l overlaps_def hour_end_def demo_file_def HOUR_def)
qed

lemma part_path_neq: "dest \<noteq> [] \<Longrightarrow> part_path dest \<noteq> dest"
proof
  assume d: "dest \<noteq> []" "part_path dest = dest"
  then have "last dest @ ''.part'' = last dest" unfolding part_path_def by (metis last_snoc)
  then show False by simp
qed

lemma distinct_single:
  assumes "distinct xs"
  shows "length xs \<le> 1 \<longleftrightarrow> (\<forall>a \<in> set xs. \<forall>b \<in> set xs. a = b)"
proof (cases xs)
  case (Cons x ys)
  then show ?thesis using assms by (cases ys) auto
qed simp

text \<open>
  C13. \<open>splice_window\<close> succeeds exactly when the window and the lead are sound, some hour of the
  chosen station overlaps the window itself, all hours are of one station, and each is still there
  and can be read to its end. Then \<open>dest\<close> holds the concatenation of the hours overlapping the
  window with its lead, oldest first, the byte count is its length, no partial file is left and no
  other file changes. The error names the condition that does not hold. An error found before the
  copying (empty window, negative lead, no data, several stations) changes no file at all; a log that
  disappeared or could not be read leaves \<open>dest\<close> and every other file as they were and no partial
  file.
\<close>

theorem splice_window_correct:
  fixes d g d' bad start stop lead station out
  assumes "dest \<noteq> []"
  defines "r \<equiv> splice_window d g d' bad start stop dest lead station out"
    and "files \<equiv> window_files d g start stop lead station"
  shows "((\<exists>res. fst r = Inr res) \<longleftrightarrow>
      start < stop \<and> 0 \<le> lead \<and> (\<exists>lf \<in> set files. overlaps start stop lf) \<and>
      (\<forall>a \<in> set files. \<forall>b \<in> set files. lf_station a = lf_station b) \<and>
      (\<forall>lf \<in> set files. readable bad d' lf)) \<and>
    sorted (map lf_hour files) \<and>
    (case fst r of
       Inr res \<Rightarrow>
         snd r = out(dest := Some (concat (map (log_bytes d') files)), part_path dest := None) \<and>
         sr_path res = dest \<and> sr_files res = files \<and> sr_lead_hours res = lead \<and>
         sr_bytes res = length (concat (map (log_bytes d') files))
     | Inl EmptyWindow \<Rightarrow> snd r = out \<and> stop \<le> start
     | Inl NegativeLead \<Rightarrow> snd r = out \<and> lead < 0
     | Inl NoData \<Rightarrow> snd r = out \<and> \<not> (\<exists>lf \<in> set files. overlaps start stop lf)
     | Inl (MixedStations ss) \<Rightarrow> snd r = out \<and> set ss = lf_station ` set files \<and> 1 < length ss \<and> distinct ss
     | Inl e \<Rightarrow> snd r = out(part_path dest := None) \<and> copy_error bad d' files e)"
proof -
  let ?part = "part_path dest"
  have pd: "?part \<noteq> dest" by (rule part_path_neq [OF assms(1)])
  have srt: "sorted (map lf_hour files)"
    by (auto simp: files_def window_files_def files_for_window_def Let_def list_logs_sorted
        intro: sorted_filter split: option.split)
  define stations where "stations = sort (remdups (map lf_station files))"
  have st: "set stations = lf_station ` set files" "distinct stations" by (simp_all add: stations_def)
  have one: "length stations \<le> 1 \<longleftrightarrow> (\<forall>a \<in> set files. \<forall>b \<in> set files. lf_station a = lf_station b)"
    unfolding distinct_single [OF st(2)] st(1) by simp
  have r: "r = (if stop \<le> start then (Inl EmptyWindow, out)
    else if lead < 0 then (Inl NegativeLead, out)
    else if \<not> list_ex (overlaps start stop) files then (Inl NoData, out)
    else if 1 < length stations then (Inl (MixedStations stations), out)
    else (case copy_files bad d' ?part files (out(?part := Some []), 0) of
         (Some e, out', n) \<Rightarrow> (Inl e, out'(?part := None))
       | (None, out', n) \<Rightarrow>
           (Inr \<lparr>sr_path = dest, sr_files = files, sr_bytes = n, sr_lead_hours = lead\<rparr>,
            out'(dest := out' ?part, ?part := None))))"
    unfolding r_def splice_window_def Let_def files_def [symmetric] stations_def [symmetric] by simp
  note c = copy_files_eq [where out = "out(?part := Some [])" and part = ?part and bs = "[]" and lfs = files
      and bad = bad and d = d' and n = 0, OF fun_upd_same]
  consider "stop \<le> start" | "start < stop" "lead < 0"
    | "start < stop" "0 \<le> lead" "\<not> list_ex (overlaps start stop) files"
    | "start < stop" "0 \<le> lead" "list_ex (overlaps start stop) files" "1 < length stations"
    | (copies) "start < stop" "0 \<le> lead" "list_ex (overlaps start stop) files" "length stations \<le> 1"
    by linarith
  then show ?thesis
  proof cases
    case copies
    note r' = r [simplified if_not_P not_less not_le copies]
    show ?thesis
    proof (cases "\<forall>lf \<in> set files. readable bad d' lf")
      case True
      note c1 = c [unfolded if_P [OF True] fun_upd_upd append_Nil add_0]
      let ?bs = "concat (map (log_bytes d') files)"
      have "out(?part := Some ?bs, dest := Some ?bs, ?part := None) = out(dest := Some ?bs, ?part := None)"
        by (rule ext) simp
      then have e: "r = (Inr \<lparr>sr_path = dest, sr_files = files, sr_bytes = length ?bs, sr_lead_hours = lead\<rparr>,
          out(dest := Some ?bs, ?part := None))"
        unfolding r' c1 prod.case option.case fun_upd_same by (simp only: not_True_eq_False if_False)
      have B: "start < stop \<and> 0 \<le> lead \<and> (\<exists>lf \<in> set files. overlaps start stop lf) \<and>
          (\<forall>a \<in> set files. \<forall>b \<in> set files. lf_station a = lf_station b) \<and> (\<forall>lf \<in> set files. readable bad d' lf)"
        by (intro conjI copies(1,2) True copies(3) [unfolded list_ex_iff] iffD1 [OF one copies(4)])
      have R: "\<exists>res. fst r = Inr res" unfolding e by simp
      show ?thesis
      proof (rule conjI [OF iffI [OF B R] conjI [OF srt]], goal_cases)
        case 1
        show ?case unfolding e by simp
      qed
    next
      case False
      then obtain e p m where c1: "copy_files bad d' ?part files (out(?part := Some []), 0) =
          (Some e, out(?part := Some p), m)" "copy_error bad d' files e"
        using c [unfolded if_not_P [OF False] fun_upd_upd] by blast
      have "r = (Inl e, out(?part := None))" unfolding r' c1(1) by simp
      then show ?thesis using False c1(2) srt by (cases e) simp_all
    qed
  next
    case 1
    then show ?thesis using srt by (simp add: r)
  next
    case 2
    then show ?thesis using srt by (simp add: r)
  next
    case 3
    then show ?thesis using srt by (simp add: r list_ex_iff)
  next
    case 4
    then have "\<not> (\<forall>a \<in> set files. \<forall>b \<in> set files. lf_station a = lf_station b)" using one by linarith
    then show ?thesis using 4 srt st by (simp add: r)
  qed
qed

theorem splice_window_witness:
  "let r = splice_window demo_tree demo_paths demo_tree (\<lambda>p k. False) (demo_hour + HOUR) (demo_hour + 2 * HOUR)
      [''out.ubx''] 1 None (\<lambda>_. None) in
    (\<exists>res. fst r = Inr res \<and> sr_bytes res = 4) \<and> snd r [''out.ubx''] = Some [1, 2, 3, 4] \<and> snd r (part_path [''out.ubx'']) = None"
proof -
  have "[''out.ubx''] \<noteq> []" by simp
  note t = splice_window_correct [OF this, where d = demo_tree and g = demo_paths and d' = demo_tree
        and bad = "\<lambda>p k. False" and start = "demo_hour + HOUR" and stop = "demo_hour + 2 * HOUR" and lead = 1
        and station = None and out = "\<lambda>_. None", unfolded demo_window(1)]
  have p: "part_path [''out.ubx''] \<noteq> [''out.ubx'']" by (simp add: part_path_neq)
  let ?r = "splice_window demo_tree demo_paths demo_tree (\<lambda>p k. False) (demo_hour + HOUR) (demo_hour + 2 * HOUR)
      [''out.ubx''] 1 None (\<lambda>_. None)"
  have b: "log_bytes demo_tree (demo_file demo_hour 2) = [1, 2]" "log_bytes demo_tree (demo_file (demo_hour + HOUR) 2) = [3, 4]"
    using demo_window(2,3) by (simp_all add: log_bytes_def contents_def demo_file_def)
  have "\<exists>res. fst ?r = Inr res"
    using conjunct1 [OF t] demo_window(2,3) by (simp add: overlaps_def hour_end_def demo_file_def HOUR_def)
  then obtain res where "fst ?r = Inr res" by blast
  then show ?thesis using t b p by (simp add: Let_def)
qed

end
