(* ===== verification/Naming.thy ===== *)
theory Naming
  imports Calendar Text LogIndex
begin

text \<open>
  RINEX file names, \<open>src/mtrtk/rinex/naming.py\<close>: the duration and period codes and the long (RINEX 3)
  and short (RINEX 2) names. Seconds are real numbers, \<open>None\<close> for an unspecified interval; the
  non-finite floats that \<open>period_code\<close> refuses have no counterpart. Station and country are ASCII.
\<close>

definition UNITS :: "(char \<times> int) list" where
  "UNITS = [(CHR ''D'', 86400), (CHR ''H'', 3600), (CHR ''M'', 60), (CHR ''S'', 1)]"

definition ceil_div :: "int \<Rightarrow> int \<Rightarrow> int" where
  "ceil_div a b = - ((- a) div b)"

fun exact_code :: "(char \<times> int) list \<Rightarrow> int \<Rightarrow> string option" where
  "exact_code [] s = None"
| "exact_code ((u, n) # us) s =
     (if s mod n = 0 \<and> s div n \<le> 99 then Some (zpad 2 (nat (s div n)) @ [u]) else exact_code us s)"

fun ceil_code :: "(char \<times> int) list \<Rightarrow> int \<Rightarrow> string option" where
  "ceil_code [] s = None"
| "ceil_code ((u, n) # us) s =
     (if ceil_div s n \<le> 99 then Some (zpad 2 (nat (ceil_div s n)) @ [u]) else ceil_code us s)"

definition duration_code :: "real \<Rightarrow> string" where
  "duration_code seconds =
     (let s = max 1 (py_round seconds) in
      case exact_code UNITS s of
        Some c \<Rightarrow> c
      | None \<Rightarrow> (case ceil_code (rev UNITS) s of Some c \<Rightarrow> c | None \<Rightarrow> ''99D''))"

definition period_code :: "real option \<Rightarrow> py_error + string" where
  "period_code interval =
     (case interval of
        None \<Rightarrow> Inr ''00U''
      | Some seconds \<Rightarrow>
          if seconds \<le> 0 then Inr ''00U''
          else if seconds < 1 then
            (let cs = seconds * 100 in
             if \<bar>cs - of_int (py_round cs)\<bar> < 1 / 1000000 \<and> 1 \<le> py_round cs \<and> py_round cs \<le> 99
             then Inr (zpad 2 (nat (py_round cs)) @ ''C'') else Inl ValueError)
          else if \<bar>seconds - of_int (py_round seconds)\<bar> > 1 / 1000000000 then Inl ValueError
          else (case exact_code UNITS (py_round seconds) of Some c \<Rightarrow> Inr c | None \<Rightarrow> Inl ValueError))"

definition station_code :: "string \<Rightarrow> py_error + string" where
  "station_code station =
     (let code = upper station in if station_ok (at_end code) then Inr code else Inl ValueError)"

definition country_ok :: "string \<Rightarrow> bool" where
  "country_ok s \<longleftrightarrow> length s = 3 \<and> list_all is_upper s"

definition minute_text :: "utc \<Rightarrow> string" where
  "minute_text t = zpad 2 (nat (t mod HOUR div (60 * SECOND)))"

definition rinex3_name ::
  "string \<Rightarrow> string \<Rightarrow> utc \<Rightarrow> real \<Rightarrow> real option \<Rightarrow> string \<Rightarrow> char \<Rightarrow> py_error + string"
where
  "rinex3_name station country start duration interval kind source =
     (case station_code station of
        Inl e \<Rightarrow> Inl e
      | Inr code \<Rightarrow>
          (let ccc = upper country in
           if \<not> country_ok (at_end ccc) then Inl ValueError
           else if source \<notin> {CHR ''R'', CHR ''S'', CHR ''U''} then Inl ValueError
           else
             (let base = code @ ''00'' @ ccc @ ''_'' @ [source] @ ''_'' @ year_text start @ doy_text start @
                    hour_text start @ minute_text start @ ''_'' @ duration_code duration in
              if kind = ''MO''
              then map_sum id (\<lambda>p. base @ ''_'' @ p @ ''_MO.rnx'') (period_code interval)
              else Inr (base @ ''_'' @ kind @ ''.rnx''))))"

definition rinex2_name :: "string \<Rightarrow> utc \<Rightarrow> real \<Rightarrow> string \<Rightarrow> py_error + string" where
  "rinex2_name station start duration kind =
     map_sum id
       (\<lambda>code. lower code @ doy_text start @
          [if duration \<ge> 86400 then CHR ''0'' else char_of (97 + nat (hour_of start))] @ ''.'' @
          (case date_of start of (y, m, d) \<Rightarrow> zpad 2 (nat (y mod 100))) @ kind)
       (station_code station)"

section \<open>What a code says\<close>

text \<open>The seconds a two-digit code with a unit stands for.\<close>

definition unit_seconds :: "char \<Rightarrow> int" where
  "unit_seconds u = (case map_of UNITS u of Some n \<Rightarrow> n | None \<Rightarrow> 0)"

definition code_seconds :: "string \<Rightarrow> int" where
  "code_seconds c = int (undec (take 2 c)) * unit_seconds (c ! 2)"

lemma code_seconds_eq:
  assumes "0 \<le> k" "k \<le> 99"
  shows "code_seconds (zpad 2 (nat k) @ [u]) = k * unit_seconds u" "length (zpad 2 (nat k) @ [u]) = 3"
proof -
  have z: "zpad 2 (nat k) = digits 2 (nat k)" using assms by (intro zpad_digits) (simp_all add: nat_less_iff)
  have "(digits 2 (nat k) @ [u]) ! 2 = u" by (metis length_digits nth_append_length)
  then show "code_seconds (zpad 2 (nat k) @ [u]) = k * unit_seconds u" "length (zpad 2 (nat k) @ [u]) = 3"
    using assms unfolding code_seconds_def z by (simp_all add: undec_digits nat_less_iff)
qed

lemma exact_code_Some:
  assumes "exact_code us s = Some c" "0 < s" "\<forall>(u, n) \<in> set us. 0 < n \<and> unit_seconds u = n"
  shows "code_seconds c = s \<and> length c = 3"
  using assms
proof (induction us s rule: exact_code.induct)
  case (2 u n us s)
  show ?case
  proof (cases "s mod n = 0 \<and> s div n \<le> 99")
    case True
    have "0 \<le> s div n" using 2 by (simp add: pos_imp_zdiv_nonneg_iff)
    moreover have "s div n * n = s" using True by (simp add: mod_0_imp_dvd)
    ultimately show ?thesis using 2 True code_seconds_eq [of "s div n" u] by auto
  next
    case False
    then show ?thesis using 2 by (auto split: if_splits)
  qed
qed simp

lemma ceil_div_bounds:
  assumes "0 < n" shows "s \<le> ceil_div s n * n \<and> ceil_div s n * n < s + n"
proof -
  have "(- s) div n * n = - s - (- s) mod n" by (simp add: minus_mod_eq_div_mult [symmetric])
  moreover have "0 \<le> (- s) mod n" "(- s) mod n < n" using assms by simp_all
  ultimately show ?thesis unfolding ceil_div_def by linarith
qed

lemma ceil_code_cases:
  assumes "0 < s" "\<forall>(u, n) \<in> set us. 0 < n \<and> unit_seconds u = n"
  shows "(\<exists>(u, n) \<in> set us. \<exists>c. ceil_code us s = Some c \<and> length c = 3 \<and> s \<le> code_seconds c \<and> code_seconds c < s + n) \<or>
    (ceil_code us s = None \<and> (\<forall>(u, n) \<in> set us. 99 * n < s))"
  using assms
proof (induction us s rule: ceil_code.induct)
  case (2 u n us s)
  have n: "0 < n" "unit_seconds u = n" using 2(3) by auto
  note b = ceil_div_bounds [OF n(1), of s]
  show ?case
  proof (cases "ceil_div s n \<le> 99")
    case True
    have "(- s) div n \<le> 0" by (rule div_nonpos_pos_le0) (use 2(2) n(1) in simp_all)
    then have "0 \<le> ceil_div s n" unfolding ceil_div_def by linarith
    then show ?thesis using b True n code_seconds_eq [of "ceil_div s n" u] by auto
  next
    case False
    then have "100 * n \<le> ceil_div s n * n" using n(1) by (intro mult_right_mono) simp_all
    then have "99 * n < s" using b by linarith
    then show ?thesis using 2 False by auto
  qed
qed simp

section \<open>Properties\<close>

lemma UNITS_ok: "\<forall>(u, n) \<in> set UNITS. 0 < n \<and> unit_seconds u = n" "set (rev UNITS) = set UNITS"
  by (auto simp: UNITS_def unit_seconds_def)

lemma period_code_exact:
  assumes "period_code (Some x) = Inr c" "1 \<le> x"
  shows "\<bar>x - of_int (code_seconds c)\<bar> \<le> 1 / 1000000000"
proof -
  have x: "\<bar>x - of_int (py_round x)\<bar> \<le> 1 / 1000000000" and c: "exact_code UNITS (py_round x) = Some c"
    using assms by (auto simp: period_code_def split: if_splits option.splits)
  have "0 < py_round x" using x assms(2) by linarith
  then show ?thesis using exact_code_Some [OF c _ UNITS_ok(1)] x by simp
qed

text \<open>
  The codes in RINEX names mean what they say. A duration code is three characters, never
  understates the span (rounded to whole seconds, at least one), overstates it by less than one of
  its units, and is exact when some unit expresses the span exactly in two digits; only a span above
  99 days gives 99D. A period code for an interval of a second or more names that interval to the
  nanosecond, so \<open>period_code\<close> refuses what it cannot express.
\<close>

theorem naming_codes_correct:
  "(let s = max 1 (py_round x); c = duration_code x in
      length c = 3 \<and>
      (99 * 86400 < s \<and> c = ''99D'' \<or>
       s \<le> code_seconds c \<and> (\<exists>(u, n) \<in> set UNITS. code_seconds c < s + n)) \<and>
      ((\<exists>(u, n) \<in> set UNITS. s mod n = 0 \<and> s div n \<le> 99) \<longrightarrow> code_seconds c = s)) \<and>
   (1 \<le> y \<and> period_code (Some y) = Inr p \<longrightarrow> \<bar>y - of_int (code_seconds p)\<bar> \<le> 1 / 1000000000)"
proof
  show "1 \<le> y \<and> period_code (Some y) = Inr p \<longrightarrow> \<bar>y - of_int (code_seconds p)\<bar> \<le> 1 / 1000000000"
    using period_code_exact by blast
  define s where "s = max 1 (py_round x)"
  have pos: "0 < s" by (simp add: s_def)
  have none: "\<not> (\<exists>(u, n) \<in> set us. s mod n = 0 \<and> s div n \<le> 99)" if "exact_code us s = None" for us
    using that by (induction us s rule: exact_code.induct) (auto split: if_splits)
  have "length (duration_code x) = 3 \<and>
      (99 * 86400 < s \<and> duration_code x = ''99D'' \<or>
       s \<le> code_seconds (duration_code x) \<and> (\<exists>(u, n) \<in> set UNITS. code_seconds (duration_code x) < s + n)) \<and>
      ((\<exists>(u, n) \<in> set UNITS. s mod n = 0 \<and> s div n \<le> 99) \<longrightarrow> code_seconds (duration_code x) = s)"
  proof (cases "exact_code UNITS s")
    case (Some c)
    then have "duration_code x = c" by (simp add: duration_code_def s_def)
    moreover have "\<exists>(u, n) \<in> set UNITS. s < s + n" by (auto simp: UNITS_def)
    ultimately show ?thesis using exact_code_Some [OF Some pos UNITS_ok(1)] by simp
  next
    case None
    then have d: "duration_code x = (case ceil_code (rev UNITS) s of Some c \<Rightarrow> c | None \<Rightarrow> ''99D'')"
      by (simp add: duration_code_def s_def)
    have ok: "\<forall>(u, n) \<in> set (rev UNITS). 0 < n \<and> unit_seconds u = n"
      unfolding UNITS_ok(2) by (rule UNITS_ok(1))
    have ne: "(\<exists>(u, n) \<in> set UNITS. s mod n = 0 \<and> s div n \<le> 99) \<longrightarrow> code_seconds c = s" for c
      using none [OF None] by blast
    from ceil_code_cases [OF pos ok] show ?thesis
    proof (elim disjE conjE)
      assume "\<exists>(u, n) \<in> set (rev UNITS). \<exists>c. ceil_code (rev UNITS) s = Some c \<and> length c = 3 \<and>
          s \<le> code_seconds c \<and> code_seconds c < s + n"
      then obtain u n c where c: "(u, n) \<in> set UNITS" "ceil_code (rev UNITS) s = Some c" "length c = 3"
        "s \<le> code_seconds c" "code_seconds c < s + n"
        unfolding UNITS_ok(2) by blast
      then have "duration_code x = c" by (simp add: d)
      moreover have "\<exists>(u, n) \<in> set UNITS. code_seconds c < s + n" using c(1,5) by blast
      ultimately show ?thesis using c(3,4) ne [of c] by simp
    next
      assume n: "ceil_code (rev UNITS) s = None" and b: "\<forall>(u, n) \<in> set (rev UNITS). 99 * n < s"
      have "99 * 86400 < s" using b by (simp add: UNITS_def)
      moreover have "duration_code x = ''99D''" using n by (simp add: d)
      ultimately show ?thesis using ne by simp
    qed
  qed
  then show "let s = max 1 (py_round x); c = duration_code x in
      length c = 3 \<and>
      (99 * 86400 < s \<and> c = ''99D'' \<or>
       s \<le> code_seconds c \<and> (\<exists>(u, n) \<in> set UNITS. code_seconds c < s + n)) \<and>
      ((\<exists>(u, n) \<in> set UNITS. s mod n = 0 \<and> s div n \<le> 99) \<longrightarrow> code_seconds c = s)"
    unfolding Let_def s_def .
qed

theorem naming_codes_witness:
  "length (duration_code 9000) = 3 \<and> \<bar>(30 :: real) - of_int (code_seconds ''30S'')\<bar> \<le> 1 / 1000000000"
proof -
  have "period_code (Some 30) = Inr ''30S''" by code_simp
  then show ?thesis
    using naming_codes_correct [of 9000 30 "''30S''"] unfolding Let_def by simp
qed

end
