(* ===== verification/Caster.thy ===== *)
theory Caster
  imports Bus Frames Text
begin

text \<open>
  The NTRIP caster, \<open>src/mtrtk/base/ntrip_caster.py\<close>: the request head and the decision on it, the
  responses, one client's bounded frame queue and write loop, and the caster with its cached
  station messages and its clients. What the code leaves to other code is a parameter: base64 with
  UTF-8 decoding, the NMEA parser, the antenna position, the bitrate and the rows of the client log.
  The event loop is explicit: a step is what runs between two suspensions of a coroutine, and a run
  is any sequence of steps. The response head of a new stream is written to an empty socket buffer,
  so its \<open>drain\<close> does not suspend and admission and registration are one step.
\<close>

section \<open>Requests\<close>

definition HEADER_LIMIT :: nat where "HEADER_LIMIT = 8192"
definition CLIENT_QUEUE_FRAMES :: nat where "CLIENT_QUEUE_FRAMES = 64"
definition SLOW_CLIENT_BYTES :: nat where "SLOW_CLIENT_BYTES = 256 * 1024"
definition SLOW_CLIENT_GRACE_S :: real where "SLOW_CLIENT_GRACE_S = 10"
definition REALM :: string where "REALM = ''mtrtk''"
definition SERVER_NAME :: string where "SERVER_NAME = ''mtrtk/0.1.0''"

record request =
  rq_method :: string
  rq_path :: string
  rq_v2 :: bool
  rq_headers :: "(string \<times> string) list"

definition header_of :: "string \<Rightarrow> (string \<times> string) list \<Rightarrow> string" where
  "header_of k hs = (case py_dict hs k of Some v \<Rightarrow> v | None \<Rightarrow> [])"

definition scheme_char :: "char \<Rightarrow> bool" where
  "scheme_char c \<longleftrightarrow> is_upper c \<or> is_lower c \<or> is_digit c \<or> c \<in> {CHR ''+'', CHR ''.'', CHR ''-''}"

text \<open>\<open>_ABSOLUTE_FORM_RE.sub("", target, count=1)\<close>: scheme and authority are taken off.\<close>

definition strip_authority :: "string \<Rightarrow> string" where
  "strip_authority s =
     (let scheme = takeWhile scheme_char s; rest = dropWhile scheme_char s in
      if s \<noteq> [] \<and> (is_upper (hd s) \<or> is_lower (hd s)) \<and> starts_with ''://'' rest
      then dropWhile (\<lambda>c. c \<noteq> CHR ''/'' \<and> c \<noteq> CHR ''?'') (drop 3 rest)
      else s)"

definition mount_from_target :: "string \<Rightarrow> string" where
  "mount_from_target target =
     before_first (CHR ''?'') (lstrip (\<lambda>c. c = CHR ''/'') (strip_authority target))"

definition header_lines :: "string list \<Rightarrow> (string \<times> string) list" where
  "header_lines lines =
     map (\<lambda>l. (lower (strip_str (before_first (CHR '':'') l)), strip_str (after_first (CHR '':'') l)))
       (filter (\<lambda>l. CHR '':'' \<in> set l) lines)"

definition parse_request :: "bytes \<Rightarrow> request" where
  "parse_request head =
     (let lines = split_crlf (decode_latin1 head);
          parts = split_at (CHR '' '') (hd lines);
          headers = header_lines (tl lines)
      in \<lparr>rq_method = upper (hd parts),
          rq_path = (if length parts > 1 then parts ! 1 else ''/''),
          rq_v2 = starts_with ''ntrip/2'' (lower (header_of ''ntrip-version'' headers)),
          rq_headers = headers\<rparr>)"

section \<open>Configuration and responses\<close>

record caster_config =
  cc_mountpoint :: string
  cc_username :: string
  cc_password :: string
  cc_country :: string
  cc_identifier :: string
  cc_format_details :: string
  cc_nav_system :: string
  cc_receiver :: string

definition anonymous :: "caster_config \<Rightarrow> bool" where
  "anonymous c \<longleftrightarrow> cc_password c = []"

abbreviation crlf_lines :: "string list \<Rightarrow> string" where
  "crlf_lines ls \<equiv> concat (map (\<lambda>l. l @ CRLF) ls)"

definition BAD_REQUEST :: bytes where
  "BAD_REQUEST = encode_latin1 (crlf_lines [''HTTP/1.0 400 Bad Request'', ''Connection: close'', []])"

definition NOT_SUPPORTED :: bytes where
  "NOT_SUPPORTED = encode_latin1 (crlf_lines [''ERROR - Not Supported''])"

definition NOT_FOUND :: bytes where
  "NOT_FOUND = encode_latin1 (crlf_lines
     [''HTTP/1.1 404 Not Found'', ''Server: '' @ SERVER_NAME, ''Connection: close'', []])"

definition TOO_MANY_V1 :: bytes where
  "TOO_MANY_V1 = encode_latin1 (crlf_lines [''ERROR - Too Many Clients''])"

definition TOO_MANY_V2 :: bytes where
  "TOO_MANY_V2 = encode_latin1 (crlf_lines
     [''HTTP/1.1 503 Service Unavailable'', ''Server: '' @ SERVER_NAME, ''Connection: close'', []])"

definition sourcetable_body :: "caster_config \<Rightarrow> (real \<times> real) option \<Rightarrow> real \<Rightarrow> bytes" where
  "sourcetable_body c pos bitrate =
     (let (lat, lon) = (case pos of Some p \<Rightarrow> p | None \<Rightarrow> (0, 0)) in
      encode_latin1
        (join '';'' [''STR'', cc_mountpoint c, cc_identifier c, ''RTCM 3.3'', cc_format_details c, ''2'',
           cc_nav_system c, ''mtrtk'', cc_country c, fixed 2 lat, fixed 2 lon, ''0'', ''0'',
           cc_receiver c, ''none'', if anonymous c then ''N'' else ''B'', ''N'', fixed 0 bitrate, []] @
         CRLF @ crlf_lines [''ENDSOURCETABLE'']))"

definition sourcetable_response :: "bytes \<Rightarrow> bool \<Rightarrow> bytes" where
  "sourcetable_response body v2 =
     encode_latin1
       (if v2 then crlf_lines
          [''HTTP/1.1 200 OK'', ''Ntrip-Version: Ntrip/2.0'', ''Server: '' @ SERVER_NAME,
           ''Content-Type: gnss/sourcetable'', ''Content-Length: '' @ dec (length body),
           ''Connection: close'', []]
        else crlf_lines
          [''SOURCETABLE 200 OK'', ''Server: '' @ SERVER_NAME, ''Content-Type: text/plain'',
           ''Content-Length: '' @ dec (length body), []]) @ body"

definition stream_response :: "bool \<Rightarrow> bytes" where
  "stream_response v2 =
     encode_latin1
       (if v2 then crlf_lines
          [''HTTP/1.1 200 OK'', ''Ntrip-Version: Ntrip/2.0'', ''Server: '' @ SERVER_NAME,
           ''Content-Type: gnss/data'', ''Transfer-Encoding: chunked'',
           ''Cache-Control: no-store, no-cache, max-age=0'', ''Pragma: no-cache'',
           ''Connection: close'', []]
        else crlf_lines [''ICY 200 OK'', []])"

definition unauthorized :: "bool \<Rightarrow> bytes" where
  "unauthorized v2 =
     encode_latin1 (crlf_lines
       [if v2 then ''HTTP/1.1 401 Unauthorized'' else ''HTTP/1.0 401 Unauthorized'',
        ''WWW-Authenticate: Basic realm='' @ [CHR 0x22] @ REALM @ [CHR 0x22],
        ''Server: '' @ SERVER_NAME, ''Connection: close'', []])"

text \<open>\<open>b64\<close> is base64 decoding followed by UTF-8 decoding, \<open>None\<close> where either fails.\<close>

definition authorized :: "(string \<Rightarrow> string option) \<Rightarrow> caster_config \<Rightarrow> request \<Rightarrow> bool \<times> string option" where
  "authorized b64 c req =
     (if anonymous c then (True, None)
      else
        (let header = header_of ''authorization'' (rq_headers req) in
         if \<not> starts_with ''basic '' (lower header) then (False, None)
         else (case b64 (strip_str (drop 6 header)) of
                 None \<Rightarrow> (False, None)
               | Some text \<Rightarrow>
                   (let user = before_first (CHR '':'') text; password = after_first (CHR '':'') text in
                    (user = cc_username c \<and> password = cc_password c, Some user)))))"

section \<open>One client\<close>

record client =
  c_id :: nat
  c_ip :: string
  c_port :: int
  c_mountpoint :: string
  c_user_agent :: string
  c_username :: "string option"
  c_v2 :: bool
  c_connected :: real
  c_bytes_sent :: nat
  c_dropped_frames :: nat
  c_gga :: "(real \<times> real) option"
  c_gga_utc :: "real option"
  c_log_id :: "nat option"
  c_queue :: "bytes list"
  c_dropped :: nat
  c_slow_since :: "real option"
  c_stop_reason :: "string option"
  c_out :: bytes
  c_ended :: "string option"

definition wire :: "bool \<Rightarrow> bytes \<Rightarrow> bytes" where
  "wire v2 raw =
     (if v2 then encode_latin1 (hex_upper (length raw) @ CRLF) @ raw @ encode_latin1 CRLF else raw)"

text \<open>\<open>_offer\<close> on the \<open>asyncio.Queue\<close> of the client, oldest first.\<close>

definition client_offer :: "bytes \<Rightarrow> client \<Rightarrow> client" where
  "client_offer raw c =
     (if length (c_queue c) < CLIENT_QUEUE_FRAMES then c\<lparr>c_queue := c_queue c @ [raw]\<rparr>
      else c\<lparr>c_queue := tl (c_queue c) @ [raw], c_dropped := c_dropped c + 1\<rparr>)"

definition client_end :: "string \<Rightarrow> client \<Rightarrow> client" where
  "client_end reason c =
     client_offer []
       (case c_stop_reason c of None \<Rightarrow> c\<lparr>c_stop_reason := Some reason\<rparr> | Some r \<Rightarrow> c)"

definition write_bytes :: "bytes \<Rightarrow> client \<Rightarrow> client" where
  "write_bytes bs c = c\<lparr>c_out := c_out c @ bs, c_bytes_sent := c_bytes_sent c + length bs\<rparr>"

text \<open>Python's \<open>reason or "caster stopped"\<close>.\<close>

definition reason_or :: "string option \<Rightarrow> string \<Rightarrow> string" where
  "reason_or r d = (case r of Some (c # cs) \<Rightarrow> c # cs | _ \<Rightarrow> d)"

definition finish_stream :: "client \<Rightarrow> client" where
  "finish_stream c =
     (write_bytes (wire (c_v2 c) []) (c\<lparr>c_queue := []\<rparr>))
       \<lparr>c_ended := Some (reason_or (c_stop_reason c) ''caster stopped'')\<rparr>"

text \<open>
  The write loop, cut at its two suspensions: it takes a frame off the queue and writes it, and
  after \<open>drain\<close> it looks at the unsent bytes.
\<close>

definition write_one :: "bool \<Rightarrow> client \<Rightarrow> client" where
  "write_one closing c =
     (case c_queue c of
        [] \<Rightarrow> c
      | raw # rest \<Rightarrow>
          if c_stop_reason c \<noteq> None then finish_stream (c\<lparr>c_queue := rest\<rparr>)
          else
            (let c' = (write_bytes (wire (c_v2 c) raw) (c\<lparr>c_queue := rest\<rparr>))
                        \<lparr>c_dropped_frames := c_dropped c\<rparr>
             in if closing then c'\<lparr>c_ended := Some ''client closed''\<rparr> else c'))"

definition slow_from :: "real option \<Rightarrow> real \<Rightarrow> real" where
  "slow_from since now = (case since of Some t \<Rightarrow> if t = 0 then now else t | None \<Rightarrow> now)"

definition after_drain :: "nat \<Rightarrow> real \<Rightarrow> client \<Rightarrow> client" where
  "after_drain unsent now c =
     (if unsent > SLOW_CLIENT_BYTES then
        (let since = slow_from (c_slow_since c) now; c' = c\<lparr>c_slow_since := Some since\<rparr> in
         if now - since > SLOW_CLIENT_GRACE_S
         then finish_stream (c'\<lparr>c_stop_reason := Some (reason_or (c_stop_reason c') ''slow client'')\<rparr>)
         else c')
      else c\<lparr>c_slow_since := None\<rparr>)"

definition on_gga :: "(real \<times> real) option \<Rightarrow> real \<Rightarrow> client \<Rightarrow> client" where
  "on_gga parsed now c =
     (case parsed of None \<Rightarrow> c | Some p \<Rightarrow> c\<lparr>c_gga := Some p, c_gga_utc := Some now\<rparr>)"

datatype client_event =
    Offered bytes
  | EndAsked string
  | WroteOne bool
  | DrainDone nat real
  | GgaLine "(real \<times> real) option" real
  | LogRow "nat option"

fun client_step :: "client_event \<Rightarrow> client \<Rightarrow> client" where
  "client_step (Offered raw) c = client_offer raw c"
| "client_step (EndAsked reason) c = client_end reason c"
| "client_step (WroteOne closing) c = (if c_ended c = None then write_one closing c else c)"
| "client_step (DrainDone unsent now) c = (if c_ended c = None then after_drain unsent now c else c)"
| "client_step (GgaLine parsed now) c = on_gga parsed now c"
| "client_step (LogRow r) c = c\<lparr>c_log_id := r\<rparr>"

section \<open>The caster\<close>

record caster =
  k_config :: caster_config
  k_max_clients :: nat
  k_rejected :: nat
  k_clients :: "(nat \<times> client) list"
  k_next_id :: nat
  k_last_1005 :: "bytes option"
  k_last_1230 :: "bytes option"
  k_stopping :: bool

definition caster_init :: "caster_config \<Rightarrow> nat \<Rightarrow> caster" where
  "caster_init c max_clients =
     \<lparr>k_config = c, k_max_clients = max_clients, k_rejected = 0, k_clients = [], k_next_id = 1,
      k_last_1005 = None, k_last_1230 = None, k_stopping = False\<rparr>"

definition on_clients :: "(client \<Rightarrow> client) \<Rightarrow> caster \<Rightarrow> caster" where
  "on_clients f k = k\<lparr>k_clients := map (\<lambda>(i, c). (i, f c)) (k_clients k)\<rparr>"

definition on_client :: "nat \<Rightarrow> (client \<Rightarrow> client) \<Rightarrow> caster \<Rightarrow> caster" where
  "on_client n f k = k\<lparr>k_clients := map (\<lambda>(i, c). (i, if i = n then f c else c)) (k_clients k)\<rparr>"

text \<open>\<open>_on_frame\<close>; the \<open>ValueError\<close> of \<open>rtcm_type\<close> loses the frame, as \<open>_feed\<close> only logs it.\<close>

definition on_frame :: "frame \<Rightarrow> caster \<Rightarrow> caster" where
  "on_frame f k =
     (case rtcm_type f of
        Inl e \<Rightarrow> k
      | Inr t \<Rightarrow>
          on_clients (client_offer (fr_raw f))
            (if t = 1005 then k\<lparr>k_last_1005 := Some (fr_raw f)\<rparr>
             else if t = 1230 then k\<lparr>k_last_1230 := Some (fr_raw f)\<rparr> else k))"

definition cached :: "caster \<Rightarrow> bytes list" where
  "cached k =
     (case k_last_1005 k of Some (b # bs) \<Rightarrow> [b # bs] | _ \<Rightarrow> []) @
     (case k_last_1230 k of Some (b # bs) \<Rightarrow> [b # bs] | _ \<Rightarrow> [])"

definition new_client :: "nat \<Rightarrow> request \<Rightarrow> string \<Rightarrow> int \<Rightarrow> string \<Rightarrow> string option \<Rightarrow> real \<Rightarrow> client" where
  "new_client n req ip port mount user now =
     \<lparr>c_id = n, c_ip = ip, c_port = port, c_mountpoint = mount,
      c_user_agent = header_of ''user-agent'' (rq_headers req), c_username = user,
      c_v2 = rq_v2 req, c_connected = now, c_bytes_sent = 0, c_dropped_frames = 0, c_gga = None,
      c_gga_utc = None, c_log_id = None, c_queue = [], c_dropped = 0, c_slow_since = None,
      c_stop_reason = None, c_out = stream_response (rq_v2 req), c_ended = None\<rparr>"

definition serve_stream ::
  "request \<Rightarrow> string \<Rightarrow> int \<Rightarrow> string \<Rightarrow> string option \<Rightarrow> real \<Rightarrow> caster \<Rightarrow> caster"
where
  "serve_stream req ip port mount user now k =
     (let n = k_next_id k;
          c = fold client_offer (cached k) (new_client n req ip port mount user now);
          c' = (if k_stopping k then client_end ''caster stopped'' c else c)
      in k\<lparr>k_next_id := n + 1, k_clients := k_clients k @ [(n, c')]\<rparr>)"

text \<open>
  What becomes of a connection: it is closed with a reply, or it is streamed to. \<open>head\<close> is \<open>None\<close>
  when \<open>readuntil\<close> failed or timed out.
\<close>

datatype reply = Close bytes | Stream

definition handle_conn ::
  "(string \<Rightarrow> string option) \<Rightarrow> bytes \<Rightarrow> bytes option \<Rightarrow> string \<Rightarrow> int \<Rightarrow> real \<Rightarrow> caster \<Rightarrow> reply \<times> caster"
where
  "handle_conn b64 table head ip port now k =
     (case head of
        None \<Rightarrow> (Close BAD_REQUEST, k)
      | Some h \<Rightarrow>
          if length h > HEADER_LIMIT then (Close BAD_REQUEST, k)
          else
            (let req = parse_request h; mount = mount_from_target (rq_path req);
                 (ok, user) = authorized b64 (k_config k) req in
             if rq_method req \<noteq> ''GET'' then (Close NOT_SUPPORTED, k)
             else if mount = [] then (Close (sourcetable_response table (rq_v2 req)), k)
             else if mount \<noteq> cc_mountpoint (k_config k) then
               (Close (if rq_v2 req then NOT_FOUND else sourcetable_response table False), k)
             else if \<not> ok then (Close (unauthorized (rq_v2 req)), k)
             else if length (k_clients k) \<ge> k_max_clients k then
               (Close (if rq_v2 req then TOO_MANY_V2 else TOO_MANY_V1),
                k\<lparr>k_rejected := k_rejected k + 1\<rparr>)
             else (Stream, serve_stream req ip port mount user now k)))"

definition teardown :: "nat \<Rightarrow> caster \<Rightarrow> caster" where
  "teardown n k = k\<lparr>k_clients := filter (\<lambda>(i, c). i \<noteq> n) (k_clients k)\<rparr>"

definition caster_stop :: "caster \<Rightarrow> caster" where
  "caster_stop k = on_clients (client_end ''caster stopped'') (k\<lparr>k_stopping := True\<rparr>)"

datatype caster_event =
    Connect bytes "bytes option" string int real
  | FrameOut frame
  | ClientEvent nat client_event
  | Teardown nat
  | StopAsked

fun caster_step :: "(string \<Rightarrow> string option) \<Rightarrow> caster_event \<Rightarrow> caster \<Rightarrow> caster" where
  "caster_step b64 (Connect table head ip port now) k = snd (handle_conn b64 table head ip port now k)"
| "caster_step b64 (FrameOut f) k = on_frame f k"
| "caster_step b64 (ClientEvent n e) k = on_client n (client_step e) k"
| "caster_step b64 (Teardown n) k = teardown n k"
| "caster_step b64 StopAsked k = caster_stop k"

section \<open>The client's queue drops its oldest frame\<close>

interpretation client_q: drop_oldest c_queue "\<lambda>c. CLIENT_QUEUE_FRAMES" c_dropped
  "\<lambda>c. length (c_queue c) \<le> CLIENT_QUEUE_FRAMES" client_offer
proof unfold_locales
  show "0 < CLIENT_QUEUE_FRAMES \<and> length (c_queue s) \<le> CLIENT_QUEUE_FRAMES"
    if "length (c_queue s) \<le> CLIENT_QUEUE_FRAMES" for s :: client
    using that by (simp add: CLIENT_QUEUE_FRAMES_def)
qed (auto simp: client_offer_def CLIENT_QUEUE_FRAMES_def)

lemma client_offer_frame [simp]:
  "c_stop_reason (client_offer r c) = c_stop_reason c" "c_ended (client_offer r c) = c_ended c"
  "c_out (client_offer r c) = c_out c" "c_bytes_sent (client_offer r c) = c_bytes_sent c"
  "c_v2 (client_offer r c) = c_v2 c" "c_id (client_offer r c) = c_id c"
  by (simp_all add: client_offer_def)

lemma client_end_frame [simp]:
  "c_stop_reason (client_end r c) \<noteq> None" "c_ended (client_end r c) = c_ended c"
  "c_out (client_end r c) = c_out c" "c_bytes_sent (client_end r c) = c_bytes_sent c"
  "c_v2 (client_end r c) = c_v2 c" "c_id (client_end r c) = c_id c"
  by (auto simp: client_end_def split: option.splits)

lemma client_offer_room: "length (c_queue c) \<le> CLIENT_QUEUE_FRAMES \<Longrightarrow>
    length (c_queue (client_offer r c)) \<le> CLIENT_QUEUE_FRAMES"
  using client_q.put_live by blast

lemma client_step_room: "length (c_queue c) \<le> CLIENT_QUEUE_FRAMES \<Longrightarrow>
    length (c_queue (client_step e c)) \<le> CLIENT_QUEUE_FRAMES"
  by (cases e)
    (auto simp: client_offer_room client_end_def write_one_def after_drain_def finish_stream_def write_bytes_def
      on_gga_def Let_def split: option.splits list.splits)

section \<open>What a client is sent\<close>

definition offers :: "client_event list \<Rightarrow> bytes list" where
  "offers es = concat (map (\<lambda>e. case e of Offered r \<Rightarrow> [r] | _ \<Rightarrow> []) es)"

text \<open>
  \<open>sent\<close> are the frames written so far, \<open>tail\<close> what was written after them; the offers counted from
  the queue \<open>q0\<close> on.
\<close>

definition stream_inv :: "client \<Rightarrow> client_event list \<Rightarrow> bytes list \<Rightarrow> bytes \<Rightarrow> client \<Rightarrow> bool" where
  "stream_inv c0 es sent tail c \<longleftrightarrow>
     c_v2 c = c_v2 c0 \<and> length (c_queue c) \<le> CLIENT_QUEUE_FRAMES \<and>
     c_out c = c_out c0 @ concat (map (wire (c_v2 c0)) sent) @ tail \<and>
     c_bytes_sent c + length (c_out c0) = c_bytes_sent c0 + length (c_out c) \<and>
     (tail = [] \<or> tail = wire (c_v2 c0) [] \<and> c_ended c \<noteq> None) \<and>
     subseq sent (c_queue c0 @ offers es) \<and>
     (c_stop_reason c = None \<and> c_ended c = None \<longrightarrow>
        subseq (sent @ c_queue c) (c_queue c0 @ offers es) \<and>
        length sent + length (c_queue c) + c_dropped c = length (c_queue c0 @ offers es) + c_dropped c0)"

lemma subseq_tl:
  assumes "subseq (xs @ ys) zs" shows "subseq (xs @ tl ys) zs"
proof -
  have "subseq (tl ys) ys" by (cases ys) auto
  then have "subseq (xs @ tl ys) (xs @ ys)" by (simp add: list_emb_append_mono)
  then show ?thesis using assms by (rule subseq_order.trans)
qed

lemma offers_snoc: "offers (es @ [e]) = offers es @ (case e of Offered r \<Rightarrow> [r] | _ \<Rightarrow> [])"
  by (simp add: offers_def)

lemma stream_inv_offer:
  assumes "stream_inv c0 es sent tail c"
  shows "stream_inv c0 (es @ [Offered r]) sent tail (client_offer r c)"
proof -
  let ?all = "c_queue c0 @ offers es"
  have "subseq (sent @ tl (c_queue c) @ [r]) (?all @ [r])" "subseq (sent @ c_queue c @ [r]) (?all @ [r])"
    if "subseq (sent @ c_queue c) ?all"
    using subseq_tl [OF that] that
    by (simp_all only: append_assoc [of sent, symmetric] subseq_append)
  moreover have "subseq sent (?all @ [r])" if "subseq sent ?all"
    using that by (rule subseq_order.trans) (rule list_emb_prefix, simp)
  ultimately show ?thesis
    using assms client_offer_room [of c r]
    by (auto simp: stream_inv_def offers_snoc client_offer_def CLIENT_QUEUE_FRAMES_def)
qed

lemma stream_inv_same_offers:
  assumes "\<And>r. e \<noteq> Offered r"
  shows "stream_inv c0 (es @ [e]) sent tail c \<longleftrightarrow> stream_inv c0 es sent tail c"
proof -
  have "offers (es @ [e]) = offers es"
  proof (cases e)
    case (Offered r)
    then show ?thesis using assms [of r] by blast
  qed (simp_all add: offers_snoc)
  then show ?thesis by (simp add: stream_inv_def)
qed

lemma stream_inv_finish:
  assumes "stream_inv c0 es sent tail c" "c_ended c = None" "c' = c\<lparr>c_queue := q, c_slow_since := s, c_stop_reason := r\<rparr>"
  shows "stream_inv c0 es sent (wire (c_v2 c0) []) (finish_stream c')"
  using assms by (auto simp: stream_inv_def finish_stream_def write_bytes_def CLIENT_QUEUE_FRAMES_def)

lemma stream_inv_write:
  assumes i: "stream_inv c0 es sent tail c" and e: "c_ended c = None"
  shows "\<exists>sent' tail'. stream_inv c0 es sent' tail' (write_one closing c)"
proof (cases "c_queue c")
  case Nil
  then show ?thesis using i by (auto simp: write_one_def)
next
  case (Cons raw rest)
  show ?thesis
  proof (cases "c_stop_reason c")
    case None
    have t: "tail = []" using i e by (auto simp: stream_inv_def)
    have s: "subseq (sent @ raw # rest) (c_queue c0 @ offers es)" using i e None Cons by (simp add: stream_inv_def)
    have "subseq (sent @ [raw]) (sent @ raw # rest)" by (intro list_emb_append_mono) auto
    then have "subseq (sent @ [raw]) (c_queue c0 @ offers es)" using s by (rule subseq_order.trans)
    then have "stream_inv c0 es (sent @ [raw]) [] (write_one closing c)"
      using i e None Cons t s
      by (auto simp: stream_inv_def write_one_def write_bytes_def Let_def)
    then show ?thesis by blast
  next
    case (Some r)
    have "c\<lparr>c_queue := rest\<rparr> = c\<lparr>c_queue := rest, c_slow_since := c_slow_since c, c_stop_reason := c_stop_reason c\<rparr>"
      by simp
    then have "stream_inv c0 es sent (wire (c_v2 c0) []) (finish_stream (c\<lparr>c_queue := rest\<rparr>))"
      by (rule stream_inv_finish [OF i e])
    then show ?thesis using Some Cons by (auto simp: write_one_def)
  qed
qed

lemma stream_inv_drain:
  assumes i: "stream_inv c0 es sent tail c" and e: "c_ended c = None"
  shows "\<exists>sent' tail'. stream_inv c0 es sent' tail' (after_drain unsent now c)"
proof -
  let ?since = "slow_from (c_slow_since c) now"
  have same: "stream_inv c0 es sent tail (c\<lparr>c_slow_since := x\<rparr>)" for x
    using i by (simp add: stream_inv_def)
  have "stream_inv c0 es sent (wire (c_v2 c0) [])
      (finish_stream (c\<lparr>c_slow_since := Some ?since, c_stop_reason := Some (reason_or (c_stop_reason c) ''slow client'')\<rparr>))"
    by (rule stream_inv_finish [OF i e, where q = "c_queue c"]) simp
  then show ?thesis using same by (auto simp: after_drain_def Let_def)
qed

lemma stream_inv_step:
  assumes "stream_inv c0 es sent tail c"
  shows "\<exists>sent' tail'. stream_inv c0 (es @ [e]) sent' tail' (client_step e c)"
proof (cases e)
  case (Offered r)
  then show ?thesis using stream_inv_offer [OF assms] by auto
next
  case (EndAsked r)
  have "length (c_queue (client_end r c)) \<le> CLIENT_QUEUE_FRAMES"
    using client_step_room [of c "EndAsked r"] assms by (simp add: stream_inv_def)
  then have "stream_inv c0 es sent tail (client_end r c)" using assms by (auto simp: stream_inv_def)
  then show ?thesis using EndAsked by (auto simp: stream_inv_same_offers)
next
  case (WroteOne b)
  then show ?thesis using stream_inv_write [OF assms, of b] assms
    by (auto simp: stream_inv_same_offers)
next
  case (DrainDone u n)
  then show ?thesis using stream_inv_drain [OF assms, of u n] assms
    by (auto simp: stream_inv_same_offers)
next
  case (GgaLine p n)
  have "stream_inv c0 es sent tail (on_gga p n c)" using assms by (simp add: stream_inv_def on_gga_def split: option.split)
  then show ?thesis using GgaLine by (auto simp: stream_inv_same_offers)
next
  case (LogRow r)
  have "stream_inv c0 es sent tail (c\<lparr>c_log_id := r\<rparr>)" using assms by (simp add: stream_inv_def)
  then show ?thesis using LogRow by (auto simp: stream_inv_same_offers)
qed

lemma stream_inv_run:
  assumes "length (c_queue c0) \<le> CLIENT_QUEUE_FRAMES" "c_dropped c0 = d"
  shows "\<exists>sent tail. stream_inv c0 es sent tail (fold client_step es c0)"
proof (induction es rule: rev_induct)
  case Nil
  have "stream_inv c0 [] [] [] c0" using assms by (simp add: stream_inv_def offers_def)
  then show ?case by auto
next
  case (snoc e es)
  then show ?case using stream_inv_step by fastforce
qed

section \<open>Reading chunks back\<close>

definition unhex :: "bytes \<Rightarrow> nat" where
  "unhex = foldl (\<lambda>a b. 16 * a + (case hex_digit b of Some d \<Rightarrow> nat d | None \<Rightarrow> 0)) 0"

text \<open>A reader of a chunked body, as HTTP defines it; the body ends with an empty chunk.\<close>

function dechunk :: "bytes \<Rightarrow> bytes list option" where
  "dechunk bs =
     (let hs = takeWhile (\<lambda>b. b \<noteq> 13) bs; rest = drop (length hs + 2) bs; n = unhex hs in
      if n = 0 then (if take 2 rest = [13, 10] then Some [] else None)
      else if length rest < n + 2 \<or> length bs \<le> length hs then None
      else map_option (Cons (take n rest)) (dechunk (drop (n + 2) rest)))"
  by pat_completeness auto

termination dechunk by (relation "measure length") (auto simp: Let_def)

declare dechunk.simps [simp del]

lemma unhex_append: "unhex (xs @ [b]) = 16 * unhex xs + (case hex_digit b of Some d \<Rightarrow> nat d | None \<Rightarrow> 0)"
  by (simp add: unhex_def)

lemma byte_of_hex_digit:
  "n < 16 \<Longrightarrow> byte_of_char (hex_digit_char n) = of_nat (if n < 10 then 48 + n else 55 + n)"
  by (simp add: byte_of_char_def hex_digit_char_def)

lemma hex_digit_values:
  "list_all (\<lambda>n. hex_digit (of_nat (if n < 10 then 48 + n else 55 + n)) = Some (int n) \<and>
     of_nat (if n < 10 then 48 + n else 55 + n) \<noteq> (13 :: byte)) [0..<16]"
  by code_simp

lemma hex_digit_of_char:
  assumes "n < 16"
  shows "hex_digit (byte_of_char (hex_digit_char n)) = Some (int n) \<and> byte_of_char (hex_digit_char n) \<noteq> 13"
proof -
  have "n \<in> set [0..<16]" using assms by simp
  then show ?thesis using hex_digit_values unfolding byte_of_hex_digit [OF assms] list_all_iff by blast
qed

lemma unhex_hex_upper:
  "unhex (encode_latin1 (hex_upper n)) = n \<and> list_all (\<lambda>b. b \<noteq> 13) (encode_latin1 (hex_upper n))"
proof (induction n rule: hex_upper.induct)
  case (1 n)
  show ?case
  proof (cases "n < 16")
    case True
    then show ?thesis using hex_digit_of_char [OF True]
      by (subst (1 2) hex_upper.simps) (simp add: encode_latin1_def unhex_def)
  next
    case False
    then show ?thesis using 1 hex_digit_of_char [of "n mod 16"]
      by (subst (1 2) hex_upper.simps) (simp add: encode_latin1_def unhex_append)
  qed
qed

lemma takeWhile_upto: "list_all P xs \<Longrightarrow> \<not> P y \<Longrightarrow> takeWhile P (xs @ y # ys) = xs"
  by (induction xs) auto

lemma crlf_bytes: "encode_latin1 CRLF = [13, 10]"
  by code_simp

lemma dechunk_wire:
  assumes "frame \<noteq> []"
  shows "dechunk (wire True frame @ after) = map_option (Cons frame) (dechunk after)"
proof -
  let ?h = "encode_latin1 (hex_upper (length frame))"
  have w: "wire True frame @ after = ?h @ 13 # 10 # frame @ [13, 10] @ after"
    using crlf_bytes by (simp add: wire_def encode_latin1_def)
  have h: "unhex ?h = length frame" "takeWhile (\<lambda>b. b \<noteq> 13) (?h @ 13 # 10 # frame @ [13, 10] @ after) = ?h"
    using unhex_hex_upper [of "length frame"] by (auto intro: takeWhile_upto)
  show ?thesis unfolding w using assms h by (subst dechunk.simps) (simp add: Let_def)
qed

lemma dechunk_end: "dechunk (wire True []) = Some []"
  by code_simp

lemma dechunk_stream:
  "list_all (\<lambda>f. f \<noteq> []) frames \<Longrightarrow> dechunk (concat (map (wire True) frames) @ wire True []) = Some frames"
  by (induction frames) (simp_all add: dechunk_wire dechunk_end)

section \<open>The caster's invariant\<close>

definition caster_ok :: "caster \<Rightarrow> bool" where
  "caster_ok k \<longleftrightarrow>
     length (k_clients k) \<le> k_max_clients k \<and> distinct (map fst (k_clients k)) \<and>
     (\<forall>(i, c) \<in> set (k_clients k). i < k_next_id k \<and> c_id c = i \<and>
        length (c_queue c) \<le> CLIENT_QUEUE_FRAMES \<and>
        c_bytes_sent c + length (stream_response (c_v2 c)) = length (c_out c) \<and>
        starts_with (stream_response (c_v2 c)) (c_out c))"

lemma starts_with_append:
  assumes "starts_with p xs" shows "starts_with p (xs @ ys)"
proof -
  have "xs = p @ drop (length p) xs"
    using assms append_take_drop_id [of "length p" xs] by (simp add: starts_with_def)
  then have "xs @ ys = p @ drop (length p) xs @ ys" by (metis append_assoc)
  then show ?thesis unfolding starts_with_def by (metis append_eq_conv_conj)
qed

definition client_ok :: "nat \<Rightarrow> client \<Rightarrow> bool" where
  "client_ok i c \<longleftrightarrow>
     c_id c = i \<and> length (c_queue c) \<le> CLIENT_QUEUE_FRAMES \<and>
     c_bytes_sent c + length (stream_response (c_v2 c)) = length (c_out c) \<and>
     starts_with (stream_response (c_v2 c)) (c_out c)"

lemma client_offer_ok [wf_intros]: "client_ok i c \<Longrightarrow> client_ok i (client_offer r c)"
  by (simp add: client_ok_def client_offer_room)

lemma client_end_ok [wf_intros]: "client_ok i c \<Longrightarrow> client_ok i (client_end r c)"
  using client_step_room [of c "EndAsked r"] by (simp add: client_ok_def)

lemma finish_ok: "client_ok i c \<Longrightarrow> client_ok i (finish_stream c)"
  by (auto simp: client_ok_def finish_stream_def write_bytes_def CLIENT_QUEUE_FRAMES_def intro: starts_with_append)

lemma client_step_ok [wf_intros]:
  assumes "client_ok i c" shows "client_ok i (client_step e c)"
proof (cases e)
  case (WroteOne b)
  have "client_ok i (c\<lparr>c_queue := rest\<rparr>)" if "c_queue c = raw # rest" for raw rest
    using assms that by (simp add: client_ok_def)
  then show ?thesis using assms WroteOne
    by (auto simp: write_one_def Let_def intro!: finish_ok split: list.splits)
      (auto simp: client_ok_def write_bytes_def intro: starts_with_append)
next
  case (DrainDone u n)
  have "client_ok i (c\<lparr>c_slow_since := x\<rparr>)" "client_ok i (c\<lparr>c_slow_since := x, c_stop_reason := y\<rparr>)" for x y
    using assms by (simp_all add: client_ok_def)
  then show ?thesis using assms DrainDone by (auto simp: after_drain_def Let_def intro!: finish_ok)
next
  case (GgaLine p n)
  then show ?thesis using assms by (auto simp: client_ok_def on_gga_def split: option.splits)
next
  case (LogRow r)
  then show ?thesis using assms by (simp add: client_ok_def)
qed (use assms in \<open>auto intro: wf_intros\<close>)

lemma caster_ok_alt:
  "caster_ok k \<longleftrightarrow> length (k_clients k) \<le> k_max_clients k \<and> distinct (map fst (k_clients k)) \<and>
     (\<forall>i c. (i, c) \<in> set (k_clients k) \<longrightarrow> i < k_next_id k \<and> client_ok i c)"
  by (auto simp: caster_ok_def client_ok_def)

lemma upd_clients_ok:
  assumes "caster_ok k" "\<And>i c. client_ok i c \<Longrightarrow> client_ok i (g i c)"
  shows "caster_ok (k\<lparr>k_clients := map (\<lambda>(i, c). (i, g i c)) (k_clients k)\<rparr>)"
proof -
  have "fst \<circ> (\<lambda>(i, c). (i, g i c)) = fst" by (simp add: fun_eq_iff)
  then have "map fst (map (\<lambda>(i, c). (i, g i c)) (k_clients k)) = map fst (k_clients k)"
    by (simp only: map_map)
  then have "distinct (map (fst \<circ> (\<lambda>(i, c). (i, g i c))) (k_clients k)) \<longleftrightarrow> distinct (map fst (k_clients k))"
    by (simp only: map_map)
  then show ?thesis using assms unfolding caster_ok_alt by auto
qed

lemma on_clients_ok:
  "caster_ok k \<Longrightarrow> (\<And>i c. client_ok i c \<Longrightarrow> client_ok i (f c)) \<Longrightarrow> caster_ok (on_clients f k)"
  unfolding on_clients_def by (rule upd_clients_ok)

lemma on_client_ok:
  "caster_ok k \<Longrightarrow> (\<And>i c. client_ok i c \<Longrightarrow> client_ok i (f c)) \<Longrightarrow> caster_ok (on_client n f k)"
  unfolding on_client_def by (rule upd_clients_ok) auto

lemma serve_stream_ok:
  assumes "caster_ok k" "length (k_clients k) < k_max_clients k"
  shows "caster_ok (serve_stream req ip port mount user now k)"
proof -
  let ?n = "k_next_id k"
  let ?c = "fold client_offer (cached k) (new_client ?n req ip port mount user now)"
  have "client_ok ?n (new_client ?n req ip port mount user now)"
    by (simp add: client_ok_def new_client_def starts_with_def)
  then have c: "client_ok ?n ?c" by (simp add: cached_def client_offer_ok split: option.split list.split)
  then have "client_ok ?n (if k_stopping k then client_end ''caster stopped'' ?c else ?c)"
    by (simp add: client_end_ok)
  moreover have lt: "\<forall>(i, c) \<in> set (k_clients k). i < ?n" using assms(1) by (auto simp: caster_ok_alt)
  moreover have "?n \<notin> fst ` set (k_clients k)" using lt by fastforce
  ultimately show ?thesis using assms
    by (auto simp: caster_ok_alt serve_stream_def Let_def intro: less_SucI)
qed

lemma handle_conn_ok:
  assumes "caster_ok k"
  shows "caster_ok (snd (handle_conn b64 table head ip port now k))"
proof -
  have "caster_ok (k\<lparr>k_rejected := n\<rparr>)" for n using assms by (simp add: caster_ok_def)
  then show ?thesis using assms serve_stream_ok [OF assms]
    by (auto simp: handle_conn_def Let_def split: option.split prod.split)
qed

lemma caster_step_ok:
  assumes "caster_ok k"
  shows "caster_ok (caster_step b64 e k)"
proof (cases e)
  case (Connect table head ip port now)
  then show ?thesis using handle_conn_ok [OF assms] by simp
next
  case (FrameOut f)
  have "caster_ok (k\<lparr>k_last_1005 := x\<rparr>)" "caster_ok (k\<lparr>k_last_1230 := x\<rparr>)" for x
    using assms by (simp_all add: caster_ok_def)
  then show ?thesis using assms FrameOut
    by (auto simp: on_frame_def split: sum.split intro!: on_clients_ok client_offer_ok)
next
  case (ClientEvent n e)
  then show ?thesis using assms by (auto intro!: on_client_ok client_step_ok)
next
  case (Teardown n)
  then show ?thesis using assms
    by (auto simp: caster_ok_def teardown_def distinct_map_filter intro: le_trans [OF length_filter_le])
next
  case StopAsked
  have "caster_ok (k\<lparr>k_stopping := True\<rparr>)" using assms by (simp add: caster_ok_def)
  then show ?thesis using StopAsked by (auto simp: caster_stop_def intro!: on_clients_ok client_end_ok)
qed

section \<open>Properties\<close>

text \<open>
  C14. What a rover receives is a stream: after its response head come the wire forms of frames it
  was offered, each at most once and in order, and nothing else but, at the end, one terminating
  chunk; while the stream runs, the frames written, those queued and those counted as dropped are
  exactly those offered. A chunked body that was terminated decodes to the frames written.
\<close>

theorem client_stream_ordered:
  fixes c0 es
  assumes "length (c_queue c0) \<le> CLIENT_QUEUE_FRAMES"
  defines "c \<equiv> fold client_step es c0" and "offered \<equiv> c_queue c0 @ offers es"
  shows "\<exists>sent tail. c_out c = c_out c0 @ concat (map (wire (c_v2 c0)) sent) @ tail \<and>
    (tail = [] \<or> tail = wire (c_v2 c0) [] \<and> c_ended c \<noteq> None) \<and> subseq sent offered \<and>
    (c_stop_reason c = None \<and> c_ended c = None \<longrightarrow>
      subseq (sent @ c_queue c) offered \<and>
      length sent + length (c_queue c) + c_dropped c = length offered + c_dropped c0) \<and>
    (c_v2 c0 \<and> tail \<noteq> [] \<and> [] \<notin> set offered \<longrightarrow>
      dechunk (drop (length (c_out c0)) (c_out c)) = Some sent)"
proof -
  obtain sent tail where i: "stream_inv c0 es sent tail c"
    using stream_inv_run [OF assms(1) refl] unfolding c_def by blast
  have "dechunk (drop (length (c_out c0)) (c_out c)) = Some sent"
    if v: "c_v2 c0" "tail \<noteq> []" "[] \<notin> set offered"
  proof -
    have "subseq sent offered" using i by (simp add: stream_inv_def offered_def)
    then have "set sent \<subseteq> set offered" by (auto dest: list_emb_set)
    then have "list_all (\<lambda>f. f \<noteq> []) sent" using v(3) by (auto simp: list_all_iff)
    moreover have "drop (length (c_out c0)) (c_out c) = concat (map (wire True) sent) @ wire True []"
      using i v by (auto simp: stream_inv_def)
    ultimately show ?thesis using dechunk_stream by simp
  qed
  then show ?thesis using i unfolding stream_inv_def offered_def by blast
qed

definition demo_client :: client where
  "demo_client = new_client 1 (parse_request []) ''10.0.0.2'' 5000 ''MTRK'' None 0"

theorem client_stream_witness:
  "let es = [Offered [1, 2], WroteOne False, Offered [3], EndAsked ''client closed'', WroteOne False];
       c = fold client_step es demo_client in
    \<exists>sent tail. c_out c = c_out demo_client @ concat (map (wire (c_v2 demo_client)) sent) @ tail \<and>
      subseq sent (c_queue demo_client @ offers es)"
proof -
  have "length (c_queue demo_client) \<le> CLIENT_QUEUE_FRAMES" by (simp add: demo_client_def new_client_def)
  from client_stream_ordered [OF this] show ?thesis unfolding Let_def by blast
qed

text \<open>
  C15. A connection is streamed to exactly when its head is complete and at most 8192 bytes long, it
  is a GET of the configured mountpoint, the credentials are the configured ones (or none are
  asked for) and there is room; then the rover's queue starts with the last 1005 and 1230 seen.
  Every other connection is closed with a reply and changes nothing but the count of refusals.
\<close>

theorem caster_admission:
  fixes b64 table head ip port now k
  defines "r \<equiv> handle_conn b64 table head ip port now k"
  shows "(fst r = Stream \<longleftrightarrow>
      (\<exists>h. head = Some h \<and> length h \<le> 8192 \<and>
        (let req = parse_request h in
           rq_method req = ''GET'' \<and> mount_from_target (rq_path req) \<noteq> [] \<and>
           mount_from_target (rq_path req) = cc_mountpoint (k_config k) \<and>
           (cc_password (k_config k) = [] \<or>
            (\<exists>text. b64 (strip_str (drop 6 (header_of ''authorization'' (rq_headers req)))) = Some text \<and>
               starts_with ''basic '' (lower (header_of ''authorization'' (rq_headers req))) \<and>
               before_first (CHR '':'') text = cc_username (k_config k) \<and>
               after_first (CHR '':'') text = cc_password (k_config k))) \<and>
           length (k_clients k) < k_max_clients k))) \<and>
    (if fst r = Stream
     then \<exists>c. k_clients (snd r) = k_clients k @ [(k_next_id k, c)] \<and> (k_stopping k \<or> c_queue c = cached k)
     else k_clients (snd r) = k_clients k \<and> snd r = k\<lparr>k_rejected := k_rejected (snd r)\<rparr>)"
proof -
  have q: "c_queue (fold client_offer (cached k) (new_client n req ip port mount user now)) = cached k"
    for n req mount user
    by (auto simp: cached_def new_client_def client_offer_def CLIENT_QUEUE_FRAMES_def split: option.split list.split)
  show ?thesis
  proof (cases "head = None \<or> (\<exists>h. head = Some h \<and> length h > HEADER_LIMIT)")
    case True
    then show ?thesis by (auto simp: r_def handle_conn_def HEADER_LIMIT_def)
  next
    case False
    then obtain h where h: "head = Some h" "length h \<le> HEADER_LIMIT" by (cases head) auto
    define req where "req = parse_request h"
    obtain ok user where a: "authorized b64 (k_config k) req = (ok, user)" by fastforce
    have ok: "ok \<longleftrightarrow> cc_password (k_config k) = [] \<or>
        (\<exists>text. b64 (strip_str (drop 6 (header_of ''authorization'' (rq_headers req)))) = Some text \<and>
           starts_with ''basic '' (lower (header_of ''authorization'' (rq_headers req))) \<and>
           before_first (CHR '':'') text = cc_username (k_config k) \<and>
           after_first (CHR '':'') text = cc_password (k_config k))"
      using a by (auto simp: authorized_def anonymous_def Let_def split: if_splits option.splits)
    have r: "r = (if rq_method req \<noteq> ''GET'' then (Close NOT_SUPPORTED, k)
        else if mount_from_target (rq_path req) = [] then (Close (sourcetable_response table (rq_v2 req)), k)
        else if mount_from_target (rq_path req) \<noteq> cc_mountpoint (k_config k) then
          (Close (if rq_v2 req then NOT_FOUND else sourcetable_response table False), k)
        else if \<not> ok then (Close (unauthorized (rq_v2 req)), k)
        else if length (k_clients k) \<ge> k_max_clients k then
          (Close (if rq_v2 req then TOO_MANY_V2 else TOO_MANY_V1), k\<lparr>k_rejected := k_rejected k + 1\<rparr>)
        else (Stream, serve_stream req ip port (mount_from_target (rq_path req)) user now k))"
      using h a by (simp add: r_def handle_conn_def req_def Let_def)
    have s: "\<exists>c. k_clients (serve_stream req ip port mount user now k) = k_clients k @ [(k_next_id k, c)] \<and>
        (k_stopping k \<or> c_queue c = cached k)" for mount
      using q by (auto simp: serve_stream_def Let_def)
    define g e m full where "g \<longleftrightarrow> rq_method req = ''GET''" and "e \<longleftrightarrow> mount_from_target (rq_path req) = []"
      and "m \<longleftrightarrow> mount_from_target (rq_path req) = cc_mountpoint (k_config k)"
      and "full \<longleftrightarrow> length (k_clients k) \<ge> k_max_clients k"
    have iff: "(\<exists>h. head = Some h \<and> length h \<le> 8192 \<and>
        (let req = parse_request h in
           rq_method req = ''GET'' \<and> mount_from_target (rq_path req) \<noteq> [] \<and>
           mount_from_target (rq_path req) = cc_mountpoint (k_config k) \<and>
           (cc_password (k_config k) = [] \<or>
            (\<exists>text. b64 (strip_str (drop 6 (header_of ''authorization'' (rq_headers req)))) = Some text \<and>
               starts_with ''basic '' (lower (header_of ''authorization'' (rq_headers req))) \<and>
               before_first (CHR '':'') text = cc_username (k_config k) \<and>
               after_first (CHR '':'') text = cc_password (k_config k))) \<and>
           length (k_clients k) < k_max_clients k)) \<longleftrightarrow> g \<and> \<not> e \<and> m \<and> ok \<and> \<not> full"
      using h(2) unfolding h(1) Let_def option.inject ex_simps simp_thms
      by (simp only: ok g_def e_def m_def full_def not_le HEADER_LIMIT_def req_def simp_thms)
    show ?thesis
      unfolding iff r g_def [symmetric] e_def [symmetric] m_def [symmetric] full_def [symmetric]
      using s [of "mount_from_target (rq_path req)"]
      by (cases g; cases e; cases m; cases ok; cases full) simp_all
  qed
qed

text \<open>
  C16. Through any interleaving of connections, frames, client steps, teardowns and a stop the caster
  never serves more clients than its limit, no two of them share an id, no queue exceeds 64 frames,
  and each client was sent its response head first and its byte count is what was written after it.
\<close>

theorem caster_invariant:
  "caster_ok (fold (caster_step b64) es (caster_init config max_clients))"
proof -
  have "caster_ok k \<Longrightarrow> caster_ok (fold (caster_step b64) es k)" for k
    by (induction es arbitrary: k) (simp_all add: caster_step_ok)
  moreover have "caster_ok (caster_init config max_clients)" by (simp add: caster_ok_def caster_init_def)
  ultimately show ?thesis by blast
qed

end
