(* ===== verification/Alerts.thy ===== *)
theory Alerts
  imports Text
begin

text \<open>
  The alert engine, \<open>src/mtrtk/alerts.py\<close>: conditions that are raised once and cleared once, one-shots
  with their deduplication, and the rule of every bus topic. A rule is a function from the engine to
  the engine it leaves and whether it ended normally; a failing events table ends it with an
  exception, which \<open>db\<close> decides for each attempt to add a row. The lock of the engine lets one rule
  run at a time, so a message is one step and the \<open>_raising\<close> set is empty between steps. The clock is
  read once per message. The webhook, which never raises, only has its outage log modelled; the
  \<open>meta\<close> of an event is left out.
\<close>

section \<open>Events and the engine\<close>

datatype level = Info | Warning | ErrorL

record event =
  ev_level :: level
  ev_kind :: string
  ev_message :: string

record outage =
  o_failing :: bool
  o_suppressed :: nat
  o_last_log :: real
  o_lines :: nat

record engine =
  a_min_free_gb :: real
  a_active :: "(string \<times> string) list"
  a_attempts :: nat
  a_log :: "event list"
  a_one_shot_last :: "string \<Rightarrow> real option"
  a_had_3d :: bool
  a_fix_bad_since :: "real option"
  a_jam_since :: "real option"
  a_temp_high_since :: "real option"
  a_survey_valid :: bool
  a_was_fixed :: bool
  a_rtk_bad_since :: "real option"
  a_ins_unaligned_since :: "real option"
  a_ins_gnss_had_fix :: bool
  a_ins_gnss_bad_since :: "real option"
  a_errors_behind :: "string list"
  a_handler :: outage

definition engine_init :: "real \<Rightarrow> engine" where
  "engine_init min_free_gb =
     \<lparr>a_min_free_gb = min_free_gb, a_active = [], a_attempts = 0, a_log = [],
      a_one_shot_last = (\<lambda>_. None), a_had_3d = False, a_fix_bad_since = None, a_jam_since = None,
      a_temp_high_since = None, a_survey_valid = False, a_was_fixed = False, a_rtk_bad_since = None,
      a_ins_unaligned_since = None, a_ins_gnss_had_fix = False, a_ins_gnss_bad_since = None,
      a_errors_behind = [],
      a_handler = \<lparr>o_failing = False, o_suppressed = 0, o_last_log = 0, o_lines = 0\<rparr>\<rparr>"

definition FIX_LOST_GRACE_S :: real where "FIX_LOST_GRACE_S = 10"
definition JAMMING_SUSTAIN_S :: real where "JAMMING_SUSTAIN_S = 30"
definition JAM_IND_THRESHOLD :: int where "JAM_IND_THRESHOLD = 200"
definition JAMMING_STATE_WARNING :: int where "JAMMING_STATE_WARNING = 2"
definition TEMP_HIGH_C :: real where "TEMP_HIGH_C = 80"
definition TEMP_CLEAR_C :: real where "TEMP_CLEAR_C = TEMP_HIGH_C - 5"
definition TEMP_SUSTAIN_S :: real where "TEMP_SUSTAIN_S = 60"
definition ONE_SHOT_DEDUP_S :: real where "ONE_SHOT_DEDUP_S = 300"
definition DISK_WARNING_FACTOR :: real where "DISK_WARNING_FACTOR = 3 / 2"
definition DISK_LOW_CLEAR_FACTOR :: real where "DISK_LOW_CLEAR_FACTOR = 11 / 10"
definition CORR_STALE_S :: real where "CORR_STALE_S = 10"
definition CORR_OK_S :: real where "CORR_OK_S = 5"
definition RTK_LOST_GRACE_S :: real where "RTK_LOST_GRACE_S = 10"
definition CARR_FIXED :: int where "CARR_FIXED = 2"
definition INS_ALIGN_GRACE_S :: real where "INS_ALIGN_GRACE_S = 60"
definition INS_GNSS_LOST_GRACE_S :: real where "INS_GNSS_LOST_GRACE_S = 10"
definition LOG_INTERVAL_S :: real where "LOG_INTERVAL_S = 60"

definition ANTENNA_FAULT_STATES :: "int \<Rightarrow> string option" where
  "ANTENNA_FAULT_STATES s = (if s = 3 then Some ''short'' else if s = 4 then Some ''open'' else None)"

definition INS_ALIGNED_MODE :: "string \<Rightarrow> int option" where
  "INS_ALIGNED_MODE v = (if v = ''sbg'' then Some 4 else if v = ''vectornav'' then Some 2 else None)"

definition GNSS_NO_FIX :: "string \<Rightarrow> int set" where
  "GNSS_NO_FIX v = (if v = ''vectornav'' then {0, 1} else {0})"

section \<open>Rules as actions\<close>

type_synonym act = "engine \<Rightarrow> bool \<times> engine"

definition skip :: act where "skip s = (True, s)"

definition update :: "(engine \<Rightarrow> engine) \<Rightarrow> act" where
  "update f s = (True, f s)"

fun do_all :: "act list \<Rightarrow> act" where
  "do_all [] s = (True, s)"
| "do_all (m # ms) s = (case m s of (ok, t) \<Rightarrow> if ok then do_all ms t else (False, t))"

declare do_all.simps [simp del]

definition emit :: "(nat \<Rightarrow> bool) \<Rightarrow> level \<Rightarrow> string \<Rightarrow> string \<Rightarrow> act" where
  "emit db level kind message s =
     (let t = s\<lparr>a_attempts := a_attempts s + 1\<rparr> in
      if db (a_attempts s)
      then (True, t\<lparr>a_log := a_log t @ [\<lparr>ev_level = level, ev_kind = kind, ev_message = message\<rparr>]\<rparr>)
      else (False, t))"

definition is_active :: "string \<Rightarrow> engine \<Rightarrow> bool" where
  "is_active kind s \<longleftrightarrow> kind \<in> fst ` set (a_active s)"

definition raise_alert :: "(nat \<Rightarrow> bool) \<Rightarrow> string \<Rightarrow> level \<Rightarrow> string \<Rightarrow> act" where
  "raise_alert db kind level message s =
     (if is_active kind s then skip s
      else do_all [emit db level kind message,
                   update (\<lambda>t. t\<lparr>a_active := a_active t @ [(kind, message)]\<rparr>)] s)"

definition clear :: "(nat \<Rightarrow> bool) \<Rightarrow> string \<Rightarrow> string \<Rightarrow> act" where
  "clear db kind message s =
     (if \<not> is_active kind s then skip s
      else do_all [update (\<lambda>t. t\<lparr>a_active := filter (\<lambda>e. fst e \<noteq> kind) (a_active t)\<rparr>),
                   emit db Info (kind @ ''_cleared'') message] s)"

definition one_shot :: "(nat \<Rightarrow> bool) \<Rightarrow> real \<Rightarrow> string \<Rightarrow> level \<Rightarrow> string \<Rightarrow> act" where
  "one_shot db now kind level message s =
     (case a_one_shot_last s kind of
        Some t \<Rightarrow> if now - t < ONE_SHOT_DEDUP_S then skip s
                   else do_all [update (\<lambda>e. e\<lparr>a_one_shot_last := (a_one_shot_last e)(kind := Some now)\<rparr>),
                                emit db level kind message] s
      | None \<Rightarrow> do_all [update (\<lambda>e. e\<lparr>a_one_shot_last := (a_one_shot_last e)(kind := Some now)\<rparr>),
                        emit db level kind message] s)"

text \<open>
  The recurring shape of the sustained conditions: the first bad sample starts the clock, a later
  one fires once the clock has run for the grace time.
\<close>

definition sustained :: "real option \<Rightarrow> real \<Rightarrow> real \<Rightarrow> (engine \<Rightarrow> engine) \<Rightarrow> act \<Rightarrow> act" where
  "sustained since now grace start fire =
     (case since of None \<Rightarrow> update start | Some t \<Rightarrow> if now - t \<ge> grace then fire else skip)"

section \<open>Messages\<close>

record fix_info = fx_type :: int  fx_name :: string

record hardware =
  hw_jam_ind :: int
  hw_jamming_state :: int
  hw_jamming_name :: string
  hw_ant_status :: int
  hw_ant_name :: string

record ntrip_status =
  nt_connected :: bool
  nt_host :: string
  nt_port :: int
  nt_mountpoint :: string
  nt_last_error :: "string option"

record ins_status =
  in_vendor :: string
  in_mode :: "int option"
  in_mode_name :: string
  in_gnss_fix :: "int option"
  in_gnss_name :: string
  in_imu_error :: "bool option"
  in_imu_power :: "bool option"

datatype message =
    ReceiverDisconnected string
  | ReceiverConnected string
  | ReceiverError string
  | ReceiverCapabilities
  | ReceiverRecovered "string option" "string option"
  | StateFix fix_info
  | StateHardware hardware
  | SystemStats real "real option"
  | RawlogBackpressure string
  | RawlogDrained string
  | RawlogPruned string
  | RawlogError string
  | SamplerError string
  | SamplerRecovered string
  | ConsumerFailed string string
  | StateSurveyIn bool "real option"
  | SiteMismatch string
  | SiteVerified string
  | NtripClientStatus ntrip_status
  | StateRtk "real option" int string
  | StateIns ins_status
  | InsConfig "string list"
  | OtherTopic

text \<open>\<open>_names_device\<close>: the device name, not inside a longer word, path or number.\<close>

definition is_word :: "char \<Rightarrow> bool" where
  "is_word c \<longleftrightarrow>
     (let n = of_char c :: nat in
      is_upper c \<or> is_lower c \<or> is_digit c \<or> c = CHR ''_'' \<or> n \<in> {170, 178, 179, 181, 185, 186, 188, 189, 190} \<or>
      192 \<le> n \<and> n \<noteq> 215 \<and> n \<noteq> 247)"

definition name_char :: "char \<Rightarrow> bool" where
  "name_char c \<longleftrightarrow> is_word c \<or> c \<in> {CHR ''/'', CHR ''.'', CHR ''-''}"

definition names_device :: "string \<Rightarrow> string \<Rightarrow> bool" where
  "names_device text source \<longleftrightarrow>
     list_ex (\<lambda>i. take (length source) (drop i text) = source \<and>
                  (i = 0 \<or> \<not> name_char (text ! (i - 1))) \<and>
                  (i + length source \<ge> length text \<or> \<not> name_char (text ! (i + length source))))
       [0..<length text + 1]"

section \<open>The rule of each topic\<close>

abbreviation (input) "quoted_or a b \<equiv> (if a = [] then b else a)"

definition SOURCE_ENDED :: string where "SOURCE_ENDED = ''source ended''"

definition on_receiver_disconnected :: "(nat \<Rightarrow> bool) \<Rightarrow> string \<Rightarrow> act" where
  "on_receiver_disconnected db reason =
     (if reason = SOURCE_ENDED then skip
      else raise_alert db ''receiver_disconnected'' ErrorL (''receiver disconnected: '' @ reason))"

definition on_receiver_connected :: "(nat \<Rightarrow> bool) \<Rightarrow> string \<Rightarrow> act" where
  "on_receiver_connected db source =
     do_all [update (\<lambda>s. s\<lparr>a_ins_unaligned_since := None\<rparr>),
             clear db ''receiver_disconnected'' (''receiver connected ('' @ source @ '')''),
             update (\<lambda>s. s\<lparr>a_errors_behind := []\<rparr>),
             clear db ''receiver_error'' (''receiver connected ('' @ source @ '')'')]"

definition push_behind :: "string \<Rightarrow> string list \<Rightarrow> string list" where
  "push_behind m behind =
     (let b = filter (\<lambda>x. x \<noteq> m) behind in drop (length b - 9) b @ [m])"

definition on_receiver_error :: "(nat \<Rightarrow> bool) \<Rightarrow> string \<Rightarrow> act" where
  "on_receiver_error db message =
     do_all [update (\<lambda>s. case map_of (a_active s) ''receiver_error'' of
                            Some m \<Rightarrow> if message \<noteq> m
                                       then s\<lparr>a_errors_behind := push_behind message (a_errors_behind s)\<rparr> else s
                          | None \<Rightarrow> s),
             raise_alert db ''receiver_error'' ErrorL message]"

definition on_receiver_capabilities :: "(nat \<Rightarrow> bool) \<Rightarrow> act" where
  "on_receiver_capabilities db =
     do_all [update (\<lambda>s. s\<lparr>a_errors_behind := []\<rparr>), clear db ''receiver_error'' ''receiver configured'']"

definition on_receiver_recovered :: "(nat \<Rightarrow> bool) \<Rightarrow> string option \<Rightarrow> string option \<Rightarrow> act" where
  "on_receiver_recovered db source message s =
     (case (source, map_of (a_active s) ''receiver_error'') of
        (Some (c # cs), Some active) \<Rightarrow>
          if \<not> names_device active (c # cs) then skip s
          else do_all
            [clear db ''receiver_error''
               (case message of Some (d # ds) \<Rightarrow> d # ds | _ \<Rightarrow> (c # cs) @ '' recovered''),
             (\<lambda>t. let behind = filter (\<lambda>m. \<not> names_device m (c # cs)) (a_errors_behind t) in
                  do_all [update (\<lambda>u. u\<lparr>a_errors_behind := []\<rparr>),
                          if behind \<noteq> [] then raise_alert db ''receiver_error'' ErrorL (last behind) else skip] t)] s
      | _ \<Rightarrow> skip s)"

definition on_state_fix :: "(nat \<Rightarrow> bool) \<Rightarrow> real \<Rightarrow> fix_info \<Rightarrow> act" where
  "on_state_fix db now fix s =
     (if fx_type fix \<ge> 3 then
        do_all [update (\<lambda>t. t\<lparr>a_had_3d := True, a_fix_bad_since := None\<rparr>),
                clear db ''fix_lost'' (''fix restored ('' @ fx_name fix @ '')'')] s
      else if \<not> a_had_3d s then skip s
      else sustained (a_fix_bad_since s) now FIX_LOST_GRACE_S (\<lambda>t. t\<lparr>a_fix_bad_since := Some now\<rparr>)
             (raise_alert db ''fix_lost'' Warning (''position fix lost ('' @ fx_name fix @ '')'')) s)"

definition on_state_hardware :: "(nat \<Rightarrow> bool) \<Rightarrow> real \<Rightarrow> hardware \<Rightarrow> act" where
  "on_state_hardware db now hw s =
     do_all
       [if hw_jam_ind hw \<ge> JAM_IND_THRESHOLD \<or> hw_jamming_state hw \<ge> JAMMING_STATE_WARNING
        then sustained (a_jam_since s) now JAMMING_SUSTAIN_S (\<lambda>t. t\<lparr>a_jam_since := Some now\<rparr>)
               (raise_alert db ''jamming'' Warning (''RF interference: jam_ind='' @ dec_int (hw_jam_ind hw) @
                  '' state='' @ hw_jamming_name hw))
        else do_all [update (\<lambda>t. t\<lparr>a_jam_since := None\<rparr>),
                     clear db ''jamming'' (''RF interference cleared (jam_ind='' @ dec_int (hw_jam_ind hw) @ '')'')],
        case ANTENNA_FAULT_STATES (hw_ant_status hw) of
          Some f \<Rightarrow> raise_alert db ''antenna_fault'' ErrorL (''antenna '' @ f @ '' detected'')
        | None \<Rightarrow> clear db ''antenna_fault'' (''antenna status '' @ hw_ant_name hw)] s"

definition temperature :: "(nat \<Rightarrow> bool) \<Rightarrow> real \<Rightarrow> real \<Rightarrow> act" where
  "temperature db now temp s =
     (if temp \<ge> TEMP_HIGH_C then
        sustained (a_temp_high_since s) now TEMP_SUSTAIN_S (\<lambda>t. t\<lparr>a_temp_high_since := Some now\<rparr>)
          (raise_alert db ''temperature_high'' Warning (''host temperature '' @ fixed 0 temp @ '' '' @ [CHR 0xB0] @ ''C'')) s
      else do_all
        [update (\<lambda>t. t\<lparr>a_temp_high_since := None\<rparr>),
         if temp < TEMP_CLEAR_C
         then clear db ''temperature_high'' (''host temperature '' @ fixed 0 temp @ '' '' @ [CHR 0xB0] @ ''C'')
         else skip] s)"

definition on_system_stats :: "(nat \<Rightarrow> bool) \<Rightarrow> real \<Rightarrow> real \<Rightarrow> real option \<Rightarrow> act" where
  "on_system_stats db now free temp s =
     (let text = ''disk free '' @ fixed 1 free @ '' GB''; floor_gb = a_min_free_gb s in
      do_all
        [if free < floor_gb then raise_alert db ''disk_low'' ErrorL (text @ '' below '' @ fixed 1 floor_gb @ '' GB: pruning logs'')
         else if free \<ge> floor_gb * DISK_LOW_CLEAR_FACTOR then clear db ''disk_low'' text else skip,
         if free < floor_gb * DISK_WARNING_FACTOR then raise_alert db ''disk_warning'' Warning text
         else clear db ''disk_warning'' text,
         case temp of Some x \<Rightarrow> temperature db now x | None \<Rightarrow> skip] s)"

definition on_state_survey_in :: "(nat \<Rightarrow> bool) \<Rightarrow> bool \<Rightarrow> real option \<Rightarrow> act" where
  "on_state_survey_in db valid acc s =
     do_all
       [if valid \<and> \<not> a_survey_valid s
        then emit db Info ''survey_in_valid'' (''survey-in complete: mean 3D accuracy '' @
               (case acc of Some a \<Rightarrow> fixed 2 a @ '' m'' | None \<Rightarrow> ''n/a''))
        else skip,
        update (\<lambda>t. t\<lparr>a_survey_valid := valid\<rparr>)] s"

definition on_site_verified :: "(nat \<Rightarrow> bool) \<Rightarrow> string \<Rightarrow> act" where
  "on_site_verified db site =
     do_all [clear db ''site_mismatch'' (''site '' @ site @ '' verified''),
             emit db Info ''site_verified'' (''fixed site '' @ site @ '' verified against RTCM 1005'')]"

definition on_ntrip_client_status :: "(nat \<Rightarrow> bool) \<Rightarrow> ntrip_status \<Rightarrow> act" where
  "on_ntrip_client_status db st =
     (if nt_connected st
      then clear db ''ntrip_disconnected'' (''NTRIP connected to '' @ nt_host st @ '':'' @ dec_int (nt_port st) @
             ''/'' @ nt_mountpoint st)
      else (case nt_last_error st of
              Some (c # cs) \<Rightarrow> raise_alert db ''ntrip_disconnected'' Warning (''NTRIP client disconnected: '' @ c # cs)
            | _ \<Rightarrow> skip))"

definition on_state_rtk :: "(nat \<Rightarrow> bool) \<Rightarrow> real \<Rightarrow> real option \<Rightarrow> int \<Rightarrow> string \<Rightarrow> act" where
  "on_state_rtk db now age carr name s =
     do_all
       [case age of
          Some a \<Rightarrow>
            if a > CORR_STALE_S
            then raise_alert db ''corrections_stale'' Warning (''corrections are '' @ fixed 0 a @ '' s old'')
            else if a < CORR_OK_S
            then clear db ''corrections_stale'' (''corrections are fresh again ('' @ fixed 0 a @ '' s)'')
            else skip
        | None \<Rightarrow> skip,
        if carr = CARR_FIXED
        then do_all [update (\<lambda>t. t\<lparr>a_was_fixed := True, a_rtk_bad_since := None\<rparr>),
                     clear db ''rtk_lost'' ''RTK fixed again'']
        else if \<not> a_was_fixed s then skip
        else sustained (a_rtk_bad_since s) now RTK_LOST_GRACE_S (\<lambda>t. t\<lparr>a_rtk_bad_since := Some now\<rparr>)
               (raise_alert db ''rtk_lost'' Warning (''RTK fixed lost ('' @ name @ '')''))] s"

definition ins_alignment :: "(nat \<Rightarrow> bool) \<Rightarrow> real \<Rightarrow> ins_status \<Rightarrow> act" where
  "ins_alignment db now ins s =
     (case (INS_ALIGNED_MODE (in_vendor ins), in_mode ins) of
        (Some from, Some mode) \<Rightarrow>
          if mode \<ge> from
          then do_all [update (\<lambda>t. t\<lparr>a_ins_unaligned_since := None\<rparr>),
                       clear db ''ins_not_aligned''
                         (''INS aligned ('' @ quoted_or (in_mode_name ins) (dec_int mode) @ '')'')] s
          else sustained (a_ins_unaligned_since s) now INS_ALIGN_GRACE_S
                 (\<lambda>t. t\<lparr>a_ins_unaligned_since := Some now\<rparr>)
                 (raise_alert db ''ins_not_aligned'' Warning
                    (''INS not aligned after 60 s ('' @ quoted_or (in_mode_name ins) (''mode '' @ dec_int mode) @
                     ''): it needs motion or a heading aid'')) s
      | _ \<Rightarrow> skip s)"

definition ins_gnss :: "(nat \<Rightarrow> bool) \<Rightarrow> real \<Rightarrow> ins_status \<Rightarrow> act" where
  "ins_gnss db now ins s =
     (case in_gnss_fix ins of
        None \<Rightarrow> skip s
      | Some g \<Rightarrow>
          if g \<notin> GNSS_NO_FIX (in_vendor ins)
          then do_all [update (\<lambda>t. t\<lparr>a_ins_gnss_had_fix := True, a_ins_gnss_bad_since := None\<rparr>),
                       clear db ''ins_gnss_lost''
                         (''INS GNSS fix back ('' @ quoted_or (in_gnss_name ins) (dec_int g) @ '')'')] s
          else if a_ins_gnss_had_fix s
          then sustained (a_ins_gnss_bad_since s) now INS_GNSS_LOST_GRACE_S
                 (\<lambda>t. t\<lparr>a_ins_gnss_bad_since := Some now\<rparr>)
                 (raise_alert db ''ins_gnss_lost'' ErrorL ''INS GNSS solution lost: the position is dead reckoning'') s
          else skip s)"

definition ins_imu :: "(nat \<Rightarrow> bool) \<Rightarrow> ins_status \<Rightarrow> act" where
  "ins_imu db ins =
     (if in_imu_error ins = Some True \<or> in_imu_power ins = Some False
      then raise_alert db ''imu_error'' ErrorL ''INS reports an IMU error''
      else if in_imu_error ins \<noteq> None \<or> in_imu_power ins \<noteq> None
      then clear db ''imu_error'' ''INS IMU OK'' else skip)"

definition on_state_ins :: "(nat \<Rightarrow> bool) \<Rightarrow> real \<Rightarrow> ins_status \<Rightarrow> act" where
  "on_state_ins db now ins = do_all [ins_alignment db now ins, ins_gnss db now ins, ins_imu db ins]"

definition on_ins_config :: "(nat \<Rightarrow> bool) \<Rightarrow> string list \<Rightarrow> act" where
  "on_ins_config db mismatched =
     (if mismatched \<noteq> []
      then raise_alert db ''ins_config_mismatch'' ErrorL
             (''INS configuration read back different: '' @ join '', '' mismatched)
      else clear db ''ins_config_mismatch'' ''INS configuration matches'')"

fun handle_alert :: "(nat \<Rightarrow> bool) \<Rightarrow> real \<Rightarrow> message \<Rightarrow> act" where
  "handle_alert db now (ReceiverDisconnected r) = on_receiver_disconnected db r"
| "handle_alert db now (ReceiverConnected src) = on_receiver_connected db src"
| "handle_alert db now (ReceiverError m) = on_receiver_error db m"
| "handle_alert db now ReceiverCapabilities = on_receiver_capabilities db"
| "handle_alert db now (ReceiverRecovered src m) = on_receiver_recovered db src m"
| "handle_alert db now (StateFix f) = on_state_fix db now f"
| "handle_alert db now (StateHardware h) = on_state_hardware db now h"
| "handle_alert db now (SystemStats free temp) = on_system_stats db now free temp"
| "handle_alert db now (RawlogBackpressure q) =
     raise_alert db ''logger_backpressure'' Warning (''raw logger falling behind: '' @ q @ '' frames queued'')"
| "handle_alert db now (RawlogDrained q) =
     clear db ''logger_backpressure'' (''raw logger caught up ('' @ q @ '' frames queued)'')"
| "handle_alert db now (RawlogPruned n) =
     one_shot db now ''log_pruned'' Info (''pruned old raw log '' @ n @ '' to free disk'')"
| "handle_alert db now (RawlogError m) = one_shot db now ''logger_error'' ErrorL (''raw log write failure: '' @ m)"
| "handle_alert db now (SamplerError m) =
     raise_alert db ''sampler_failing'' Warning (''history sampler failing: '' @ m)"
| "handle_alert db now (SamplerRecovered m) = clear db ''sampler_failing'' m"
| "handle_alert db now (ConsumerFailed n e) =
     one_shot db now (''consumer_failed_'' @ n) ErrorL (n @ '' crashed and was restarted: '' @ e)"
| "handle_alert db now (StateSurveyIn v acc) = on_state_survey_in db v acc"
| "handle_alert db now (SiteMismatch site) =
     raise_alert db ''site_mismatch'' ErrorL (''RTCM 1005 position does not match site '' @ site)"
| "handle_alert db now (SiteVerified site) = on_site_verified db site"
| "handle_alert db now (NtripClientStatus st) = on_ntrip_client_status db st"
| "handle_alert db now (StateRtk age carr name) = on_state_rtk db now age carr name"
| "handle_alert db now (StateIns ins) = on_state_ins db now ins"
| "handle_alert db now (InsConfig ms) = on_ins_config db ms"
| "handle_alert db now OtherTopic = skip"

section \<open>The loop and its failure log\<close>

text \<open>\<open>_handler_failed\<close> and \<open>_handler_ok\<close>; \<open>_webhook_failed\<close> and \<open>_webhook_ok\<close> are the same machine.\<close>

definition outage_failed :: "real \<Rightarrow> outage \<Rightarrow> outage" where
  "outage_failed now r =
     (if \<not> o_failing r
      then r\<lparr>o_failing := True, o_suppressed := 0, o_last_log := now, o_lines := o_lines r + 1\<rparr>
      else if now - o_last_log r \<ge> LOG_INTERVAL_S
      then r\<lparr>o_suppressed := 0, o_last_log := now, o_lines := o_lines r + 1\<rparr>
      else r\<lparr>o_suppressed := o_suppressed r + 1\<rparr>)"

definition outage_ok :: "outage \<Rightarrow> outage" where
  "outage_ok r = (if o_failing r then r\<lparr>o_failing := False, o_lines := o_lines r + 1\<rparr> else r)"

definition consume :: "(nat \<Rightarrow> bool) \<Rightarrow> real \<times> message \<Rightarrow> engine \<Rightarrow> engine" where
  "consume db = (\<lambda>(now, m) s.
     (let (ok, t) = handle_alert db now m s in
      t\<lparr>a_handler := (if ok then outage_ok (a_handler t) else outage_failed now (a_handler t))\<rparr>))"

definition alerts_run :: "(nat \<Rightarrow> bool) \<Rightarrow> (real \<times> message) list \<Rightarrow> engine \<Rightarrow> engine" where
  "alerts_run db = fold (consume db)"

section \<open>What every rule keeps\<close>

definition CONDITIONS :: "string list" where
  "CONDITIONS =
     [''receiver_disconnected'', ''receiver_error'', ''fix_lost'', ''jamming'', ''antenna_fault'',
      ''disk_low'', ''disk_warning'', ''temperature_high'', ''logger_backpressure'', ''sampler_failing'',
      ''site_mismatch'', ''ntrip_disconnected'', ''corrections_stale'', ''rtk_lost'', ''ins_not_aligned'',
      ''ins_gnss_lost'', ''imu_error'', ''ins_config_mismatch'']"

definition cleared :: "string \<Rightarrow> string" where
  "cleared kind = kind @ ''_cleared''"

definition rows :: "string \<Rightarrow> event list \<Rightarrow> string list" where
  "rows k es = filter (\<lambda>x. x = k \<or> x = cleared k) (map ev_kind es)"

text \<open>
  The rows of one condition: a \<open>cleared\<close> row directly follows a raise, the first row is a raise; with
  every row written they alternate.
\<close>

definition row_inv :: "bool \<Rightarrow> string \<Rightarrow> bool \<Rightarrow> string list \<Rightarrow> bool" where
  "row_inv always k active r \<longleftrightarrow>
     (active \<longrightarrow> r \<noteq> [] \<and> last r = k) \<and>
     (always \<and> \<not> active \<longrightarrow> r = [] \<or> last r = cleared k) \<and>
     (r \<noteq> [] \<longrightarrow> hd r = k) \<and>
     successively (\<lambda>a b. (b = cleared k \<longrightarrow> a = k) \<and> (always \<longrightarrow> a \<noteq> b)) r"

definition rows_ok :: "bool \<Rightarrow> string \<Rightarrow> engine \<Rightarrow> bool" where
  "rows_ok always k s \<longleftrightarrow> row_inv always k (is_active k s) (rows k (a_log s))"

lemma cleared_neq: "cleared k \<noteq> k"
  by (simp add: cleared_def)

lemma successively_snoc:
  "successively R (xs @ [x]) \<longleftrightarrow> successively R xs \<and> (xs \<noteq> [] \<longrightarrow> R (last xs) x)"
  by (auto simp: successively_append_iff)

lemma hd_snoc: "hd (xs @ [x]) = (if xs = [] then x else hd xs)"
  by (cases xs) simp_all

lemma row_inv_raise: "row_inv a k False r \<Longrightarrow> row_inv a k True (r @ [k])"
  using cleared_neq [of k] by (auto simp: row_inv_def successively_snoc hd_snoc)

lemma row_inv_clear: "row_inv a k True r \<Longrightarrow> row_inv a k False (r @ [cleared k])"
  using cleared_neq [of k] by (auto simp: row_inv_def successively_snoc hd_snoc)

lemma row_inv_lost: "row_inv a k True r \<Longrightarrow> \<not> a \<Longrightarrow> row_inv a k False r"
  by (simp add: row_inv_def)

definition engine_ok :: "(nat \<Rightarrow> bool) \<Rightarrow> engine \<Rightarrow> bool" where
  "engine_ok db s \<longleftrightarrow>
     distinct (map fst (a_active s)) \<and> fst ` set (a_active s) \<subseteq> set CONDITIONS \<and>
     list_all (\<lambda>k. rows_ok (\<forall>n. db n) k s) CONDITIONS"

definition keeps :: "(engine \<Rightarrow> bool) \<Rightarrow> act \<Rightarrow> bool" where
  "keeps P m \<longleftrightarrow> (\<forall>s. P s \<longrightarrow> P (snd (m s)))"

named_theorems keeps_intros

lemma keeps_do_all [keeps_intros]: "list_all (keeps P) ms \<Longrightarrow> keeps P (do_all ms)"
proof (induction ms)
  case (Cons m ms)
  then have m: "keeps P m" "keeps P (do_all ms)" by simp_all
  show ?case unfolding keeps_def
  proof (intro allI impI)
    fix s assume "P s"
    then have "P (snd (m s))" using m(1) by (simp add: keeps_def)
    then show "P (snd (do_all (m # ms) s))" using m(2) by (cases "m s") (simp add: keeps_def do_all.simps)
  qed
qed (simp add: keeps_def do_all.simps)

lemma keeps_skip [keeps_intros]: "keeps P skip"
  by (simp add: keeps_def skip_def)

lemma keeps_update: "(\<And>s. P s \<Longrightarrow> P (f s)) \<Longrightarrow> keeps P (update f)"
  by (simp add: keeps_def update_def)

text \<open>A rule that looks at the state first: the actions it ends in are applied to that state.\<close>

lemma keepsI: "(\<And>s. P s \<Longrightarrow> P (snd (m s))) \<Longrightarrow> keeps P m"
  by (simp add: keeps_def)

lemma do_all_at [keeps_intros]:
  "engine_ok db s \<Longrightarrow> list_all (keeps (engine_ok db)) ms \<Longrightarrow> engine_ok db (snd (do_all ms s))"
  using keeps_do_all [of "engine_ok db" ms] by (simp add: keeps_def)

lemma skip_at [keeps_intros]: "engine_ok db s \<Longrightarrow> engine_ok db (snd (skip s))"
  by (simp add: skip_def)

lemma keeps_if [keeps_intros]: "keeps P a \<Longrightarrow> keeps P b \<Longrightarrow> keeps P (if c then a else b)"
  by simp

lemma keeps_sustained [keeps_intros]:
  "(\<And>s. P s \<Longrightarrow> P (f s)) \<Longrightarrow> keeps P fire \<Longrightarrow> keeps P (sustained since now grace f fire)"
  by (auto simp: sustained_def keeps_skip intro: keeps_update split: option.split)

lemma sustained_at [keeps_intros]:
  "engine_ok db s \<Longrightarrow> (\<And>s. engine_ok db s \<Longrightarrow> engine_ok db (f s)) \<Longrightarrow> keeps (engine_ok db) fire \<Longrightarrow>
   engine_ok db (snd (sustained since now grace f fire s))"
  using keeps_sustained [of "engine_ok db" f fire since now grace] by (simp add: keeps_def)

text \<open>No name of a condition is the \<open>cleared\<close> name of another, and one-shots use other names.\<close>

lemma cleared_apart: "k \<in> set CONDITIONS \<Longrightarrow> j \<in> set CONDITIONS \<Longrightarrow> cleared k \<noteq> j"
proof -
  have "list_all (\<lambda>j. list_all (\<lambda>k. cleared k \<noteq> j) CONDITIONS) CONDITIONS" by code_simp
  then show "k \<in> set CONDITIONS \<Longrightarrow> j \<in> set CONDITIONS \<Longrightarrow> cleared k \<noteq> j" by (simp add: list_all_iff)
qed

definition neutral :: "string \<Rightarrow> bool" where
  "neutral x \<longleftrightarrow> list_all (\<lambda>k. x \<noteq> k \<and> x \<noteq> cleared k) CONDITIONS"

lemma neutral_names:
  "neutral ''log_pruned''" "neutral ''logger_error''" "neutral ''survey_in_valid''" "neutral ''site_verified''"
  by code_simp+

lemma neutral_consumer: "neutral (''consumer_failed_'' @ n)"
proof -
  have "list_all (\<lambda>k. take 4 k \<noteq> ''cons'' \<and> 4 \<le> length k) CONDITIONS" by code_simp
  then have "''consumer_failed_'' @ n \<noteq> k \<and> ''consumer_failed_'' @ n \<noteq> cleared k" if "k \<in> set CONDITIONS" for k
  proof -
    have k: "take 4 k \<noteq> ''cons''" "4 \<le> length k"
      using \<open>list_all _ CONDITIONS\<close> that by (simp_all add: list_all_iff)
    have "take 4 (''consumer_failed_'' @ n) = ''cons''" by simp
    moreover have "take 4 (cleared k) = take 4 k" using k(2) by (simp add: cleared_def)
    ultimately show ?thesis using k(1) by metis
  qed
  then show ?thesis by (simp add: neutral_def list_all_iff)
qed

lemma engine_ok_same:
  "engine_ok db s \<Longrightarrow> a_active t = a_active s \<Longrightarrow> a_log t = a_log s \<Longrightarrow> engine_ok db t"
  by (simp add: engine_ok_def rows_ok_def is_active_def)

lemma emit_neutral [keeps_intros]:
  assumes "neutral kind"
  shows "keeps (engine_ok db) (emit db level kind message)"
  unfolding keeps_def
proof (intro allI impI)
  fix s assume s: "engine_ok db s"
  let ?t = "snd (emit db level kind message s)"
  have t: "a_active ?t = a_active s" "a_log ?t = a_log s \<or> (\<exists>e. ev_kind e = kind \<and> a_log ?t = a_log s @ [e])"
    by (simp_all add: emit_def Let_def)
  have "rows_ok (\<forall>n. db n) k ?t" if "k \<in> set CONDITIONS" for k
  proof -
    have n: "kind \<noteq> k" "kind \<noteq> cleared k" using assms that by (simp_all add: neutral_def list_all_iff)
    have "rows k (a_log ?t) = rows k (a_log s)" using t(2) n by (auto simp: rows_def)
    moreover have "rows_ok (\<forall>n. db n) k s" using s that by (simp add: engine_ok_def list_all_iff)
    ultimately show ?thesis using t(1) by (simp add: rows_ok_def is_active_def)
  qed
  then show "engine_ok db ?t" using s t(1) by (simp add: engine_ok_def list_all_iff)
qed

lemma keeps_one_shot [keeps_intros]:
  assumes "neutral kind"
  shows "keeps (engine_ok db) (one_shot db now kind level message)"
proof -
  have "keeps (engine_ok db) (update (\<lambda>e. e\<lparr>a_one_shot_last := f e\<rparr>))" for f
    by (rule keeps_update) (erule engine_ok_same, simp_all)
  then show ?thesis
    by (intro keepsI) (auto simp: one_shot_def split: option.split intro!: keeps_intros assms)
qed

lemma rows_snoc:
  "rows k (es @ [e]) = rows k es @ (if ev_kind e = k \<or> ev_kind e = cleared k then [ev_kind e] else [])"
  by (simp add: rows_def)

lemma keeps_raise [keeps_intros]:
  assumes "kind \<in> set CONDITIONS"
  shows "keeps (engine_ok db) (raise_alert db kind level message)"
  unfolding keeps_def
proof (intro allI impI)
  fix s assume s: "engine_ok db s"
  show "engine_ok db (snd (raise_alert db kind level message s))"
  proof (cases "is_active kind s \<or> \<not> db (a_attempts s)")
    case True
    then show ?thesis using s
      by (auto simp: raise_alert_def do_all.simps skip_def emit_def Let_def intro: engine_ok_same)
  next
    case False
    let ?e = "\<lparr>ev_level = level, ev_kind = kind, ev_message = message\<rparr>"
    let ?t = "snd (raise_alert db kind level message s)"
    have t: "a_log ?t = a_log s @ [?e]" "a_active ?t = a_active s @ [(kind, message)]"
      using False by (simp_all add: raise_alert_def do_all.simps emit_def update_def Let_def)
    have "rows_ok (\<forall>n. db n) k ?t" if k: "k \<in> set CONDITIONS" for k
    proof -
      have r: "rows_ok (\<forall>n. db n) k s" using s k by (simp add: engine_ok_def list_all_iff)
      have c: "kind \<noteq> cleared k" using cleared_apart [OF k assms] by metis
      have a: "is_active k ?t \<longleftrightarrow> is_active k s \<or> k = kind" by (auto simp: is_active_def t(2))
      show ?thesis
      proof (cases "k = kind")
        case True
        then show ?thesis using r False a
          by (simp add: rows_ok_def t(1) rows_snoc row_inv_raise)
      next
        case neq: False
        then show ?thesis using r a c by (simp add: rows_ok_def t(1) rows_snoc)
      qed
    qed
    then show ?thesis using s False assms by (auto simp: engine_ok_def list_all_iff t(2) is_active_def)
  qed
qed

lemma keeps_clear [keeps_intros]:
  assumes "kind \<in> set CONDITIONS"
  shows "keeps (engine_ok db) (clear db kind message)"
  unfolding keeps_def
proof (intro allI impI)
  fix s assume s: "engine_ok db s"
  show "engine_ok db (snd (clear db kind message s))"
  proof (cases "is_active kind s")
    case False
    then show ?thesis using s by (simp add: clear_def skip_def)
  next
    case True
    let ?e = "\<lparr>ev_level = Info, ev_kind = cleared kind, ev_message = message\<rparr>"
    let ?t = "snd (clear db kind message s)"
    have t: "a_log ?t = a_log s @ (if db (a_attempts s) then [?e] else [])"
      "a_active ?t = filter (\<lambda>e. fst e \<noteq> kind) (a_active s)"
      using True by (simp_all add: clear_def do_all.simps emit_def update_def Let_def cleared_def)
    have "rows_ok (\<forall>n. db n) k ?t" if k: "k \<in> set CONDITIONS" for k
    proof -
      have r: "rows_ok (\<forall>n. db n) k s" using s k by (simp add: engine_ok_def list_all_iff)
      have a: "is_active k ?t \<longleftrightarrow> is_active k s \<and> k \<noteq> kind" by (auto simp: is_active_def t(2))
      show ?thesis
      proof (cases "k = kind")
        case eq: True
        have r': "row_inv (\<forall>n. db n) k True (rows k (a_log s))" using r \<open>is_active kind s\<close> eq
          by (simp add: rows_ok_def)
        show ?thesis
        proof (cases "db (a_attempts s)")
          case True
          then show ?thesis using row_inv_clear [OF r'] a eq by (simp add: rows_ok_def t(1) rows_snoc)
        next
          case False
          then have "\<not> (\<forall>n. db n)" by blast
          then show ?thesis using row_inv_lost [OF r'] a eq False
            by (simp only: rows_ok_def t(1) if_False append_Nil2 simp_thms)
        qed
      next
        case neq: False
        have "cleared kind \<noteq> k" "cleared kind \<noteq> cleared k"
          using cleared_apart [OF assms k] neq by (simp_all add: cleared_def)
        then have "rows k (a_log ?t) = rows k (a_log s)" by (simp add: t(1) rows_snoc)
        then show ?thesis using r a neq by (simp only: rows_ok_def simp_thms)
      qed
    qed
    moreover have "distinct (map fst (a_active ?t))" "fst ` set (a_active ?t) \<subseteq> set CONDITIONS"
      using s by (auto simp: engine_ok_def t(2) distinct_map_filter)
    ultimately show ?thesis by (simp add: engine_ok_def list_all_iff)
  qed
qed

lemma keeps_fields:
  "(\<And>s. a_active (f s) = a_active s \<and> a_log (f s) = a_log s) \<Longrightarrow> keeps (engine_ok db) (update f)"
  by (rule keeps_update) (auto intro: engine_ok_same)

lemma sustained_fields:
  "(\<And>s. a_active (f s) = a_active s \<and> a_log (f s) = a_log s) \<Longrightarrow> keeps (engine_ok db) fire \<Longrightarrow>
   keeps (engine_ok db) (sustained since now grace f fire)"
  "engine_ok db s \<Longrightarrow> (\<And>s. a_active (f s) = a_active s \<and> a_log (f s) = a_log s) \<Longrightarrow>
   keeps (engine_ok db) fire \<Longrightarrow> engine_ok db (snd (sustained since now grace f fire s))"
  by (rule keeps_sustained sustained_at; auto intro: engine_ok_same)+

lemmas keeps_goal = do_all_at skip_at emit_neutral keeps_one_shot keeps_raise keeps_clear
  keeps_do_all keeps_skip keeps_fields sustained_fields

lemma condition_names:
  "''receiver_disconnected'' \<in> set CONDITIONS" "''receiver_error'' \<in> set CONDITIONS"
  "''fix_lost'' \<in> set CONDITIONS" "''jamming'' \<in> set CONDITIONS" "''antenna_fault'' \<in> set CONDITIONS"
  "''disk_low'' \<in> set CONDITIONS" "''disk_warning'' \<in> set CONDITIONS" "''temperature_high'' \<in> set CONDITIONS"
  "''logger_backpressure'' \<in> set CONDITIONS" "''sampler_failing'' \<in> set CONDITIONS"
  "''site_mismatch'' \<in> set CONDITIONS" "''ntrip_disconnected'' \<in> set CONDITIONS"
  "''corrections_stale'' \<in> set CONDITIONS" "''rtk_lost'' \<in> set CONDITIONS"
  "''ins_not_aligned'' \<in> set CONDITIONS" "''ins_gnss_lost'' \<in> set CONDITIONS" "''imu_error'' \<in> set CONDITIONS"
  "''ins_config_mismatch'' \<in> set CONDITIONS"
  by (simp_all add: CONDITIONS_def)

lemma keeps_fix: "keeps (engine_ok db) (on_state_fix db now fix)"
  by (intro keepsI) (auto simp: on_state_fix_def condition_names intro!: keeps_goal)

lemma keeps_hardware: "keeps (engine_ok db) (on_state_hardware db now hw)"
  by (intro keepsI) (auto simp: on_state_hardware_def condition_names intro!: keeps_goal split: option.split)

lemma keeps_temperature: "keeps (engine_ok db) (temperature db now x)"
  by (intro keepsI) (auto simp: temperature_def condition_names intro!: keeps_goal)

lemma keeps_stats: "keeps (engine_ok db) (on_system_stats db now free temp)"
  by (intro keepsI) (auto simp: on_system_stats_def Let_def condition_names intro!: keeps_goal keeps_temperature
      split: option.split)

lemma keeps_survey: "keeps (engine_ok db) (on_state_survey_in db v acc)"
  by (intro keepsI) (auto simp: on_state_survey_in_def neutral_names intro!: keeps_goal)

lemma keeps_rtk: "keeps (engine_ok db) (on_state_rtk db now age carr name)"
  by (intro keepsI) (auto simp: on_state_rtk_def condition_names intro!: keeps_goal split: option.split)

lemma keeps_alignment: "keeps (engine_ok db) (ins_alignment db now ins)"
  by (intro keepsI) (auto simp: ins_alignment_def condition_names intro!: keeps_goal split: option.split)

lemma keeps_gnss: "keeps (engine_ok db) (ins_gnss db now ins)"
  by (intro keepsI) (auto simp: ins_gnss_def condition_names intro!: keeps_goal split: option.split)

lemma keeps_imu: "keeps (engine_ok db) (ins_imu db ins)"
  by (auto simp: ins_imu_def condition_names intro!: keeps_goal)

lemma keeps_recovered: "keeps (engine_ok db) (on_receiver_recovered db src m)"
proof -
  have "keeps (engine_ok db) (\<lambda>t. let behind = filter (\<lambda>m. \<not> names_device m d) (a_errors_behind t) in
      do_all [update (\<lambda>u. u\<lparr>a_errors_behind := []\<rparr>),
              if behind \<noteq> [] then raise_alert db ''receiver_error'' ErrorL (last behind) else skip] t)" for d
    by (intro keepsI) (auto simp: Let_def condition_names intro!: keeps_goal)
  then show ?thesis
    by (intro keepsI) (auto simp: on_receiver_recovered_def condition_names intro!: keeps_goal
        split: option.split list.split)
qed

lemma keeps_handle: "keeps (engine_ok db) (handle_alert db now m)"
  by (cases m)
    (auto simp: condition_names neutral_names neutral_consumer [simplified] on_receiver_disconnected_def
      on_receiver_connected_def on_receiver_error_def on_receiver_capabilities_def on_site_verified_def
      on_ntrip_client_status_def on_state_ins_def on_ins_config_def
      intro!: keeps_goal keeps_fix keeps_hardware keeps_stats keeps_survey keeps_rtk keeps_alignment keeps_gnss
        keeps_imu keeps_recovered split: option.split list.split)

lemma alerts_run_ok:
  assumes "engine_ok db s"
  shows "engine_ok db (alerts_run db ms s)"
  using assms unfolding alerts_run_def
proof (induction ms arbitrary: s)
  case (Cons m ms)
  obtain now msg where m: "m = (now, msg)" by fastforce
  obtain ok t where h: "handle_alert db now msg s = (ok, t)" by fastforce
  have "engine_ok db t" using keeps_handle [of db now msg] Cons.prems h by (auto simp: keeps_def dest!: spec [of _ s])
  then have "engine_ok db (t\<lparr>a_handler := x\<rparr>)" for x by (rule engine_ok_same) simp_all
  then have "engine_ok db (consume db m s)" by (simp add: m consume_def h)
  then show ?case using Cons.IH by simp
qed simp

section \<open>A lost fix\<close>

text \<open>The samples without a 3D fix at the end of a sequence.\<close>

definition bad_run :: "(real \<times> fix_info) list \<Rightarrow> (real \<times> fix_info) list" where
  "bad_run xs = rev (takeWhile (\<lambda>x. fx_type (snd x) < 3) (rev xs))"

definition had_fix :: "(real \<times> fix_info) list \<Rightarrow> bool" where
  "had_fix xs \<longleftrightarrow> list_ex (\<lambda>x. fx_type (snd x) \<ge> 3) xs"

definition fix_messages :: "(real \<times> fix_info) list \<Rightarrow> (real \<times> message) list" where
  "fix_messages = map (\<lambda>(t, f). (t, StateFix f))"

lemma bad_run_snoc:
  "bad_run (xs @ [x]) = (if fx_type (snd x) < 3 then bad_run xs @ [x] else [])"
  by (simp add: bad_run_def)

definition fix_inv :: "(real \<times> fix_info) list \<Rightarrow> engine \<Rightarrow> bool" where
  "fix_inv xs s \<longleftrightarrow>
     a_had_3d s = had_fix xs \<and>
     a_fix_bad_since s = (if had_fix xs \<and> bad_run xs \<noteq> [] then Some (fst (hd (bad_run xs))) else None) \<and>
     is_active ''fix_lost'' s =
       (had_fix xs \<and> list_ex (\<lambda>x. fst x - fst (hd (bad_run xs)) \<ge> FIX_LOST_GRACE_S) (bad_run xs))"

lemma is_active_simps:
  "is_active k (s\<lparr>a_active := a_active s @ [(k, m)]\<rparr>)"
  "\<not> is_active k (s\<lparr>a_active := filter (\<lambda>e. fst e \<noteq> k) (a_active s)\<rparr>)"
  by (auto simp: is_active_def)

lemma raise_effect:
  "snd (raise_alert (\<lambda>_. True) k lv m s) =
     (if is_active k s then s
      else s\<lparr>a_attempts := a_attempts s + 1, a_log := a_log s @ [\<lparr>ev_level = lv, ev_kind = k, ev_message = m\<rparr>],
             a_active := a_active s @ [(k, m)]\<rparr>)"
  by (simp add: raise_alert_def do_all.simps emit_def update_def skip_def Let_def)

lemma clear_effect:
  "snd (clear (\<lambda>_. True) k m s) =
     (if \<not> is_active k s then s
      else s\<lparr>a_active := filter (\<lambda>e. fst e \<noteq> k) (a_active s), a_attempts := a_attempts s + 1,
             a_log := a_log s @ [\<lparr>ev_level = Info, ev_kind = k @ ''_cleared'', ev_message = m\<rparr>]\<rparr>)"
  by (simp add: clear_def do_all.simps emit_def update_def skip_def Let_def)

lemma fix_step:
  assumes "fix_inv xs s"
  shows "fix_inv (xs @ [x]) (consume (\<lambda>_. True) (fst x, StateFix (snd x)) s)"
proof -
  obtain t f where x: "x = (t, f)" by fastforce
  define v where "v = snd (on_state_fix (\<lambda>_. True) t f s)"
  have c: "fix_inv ys (consume (\<lambda>_. True) (fst x, StateFix (snd x)) s) \<longleftrightarrow> fix_inv ys v" for ys
    by (simp add: x consume_def v_def fix_inv_def is_active_def Let_def split: prod.split)
  have g: "0 < FIX_LOST_GRACE_S" by (simp add: FIX_LOST_GRACE_S_def)
  show ?thesis
  proof (cases "fx_type f \<ge> 3")
    case True
    have "a_had_3d v \<and> a_fix_bad_since v = None \<and> \<not> is_active ''fix_lost'' v"
      using True by (auto simp: v_def on_state_fix_def do_all.simps update_def clear_effect split: prod.split)
        (auto simp: clear_def do_all.simps emit_def update_def skip_def Let_def is_active_def split: if_splits)
    then show ?thesis using True unfolding c by (simp add: fix_inv_def bad_run_snoc x had_fix_def)
  next
    case bad: False
    then have b: "bad_run (xs @ [x]) = bad_run xs @ [x]" "had_fix (xs @ [x]) = had_fix xs"
      by (simp_all add: bad_run_snoc x had_fix_def)
    show ?thesis
    proof (cases "had_fix xs")
      case False
      then have "v = s" using bad assms by (simp add: v_def on_state_fix_def fix_inv_def skip_def)
      then show ?thesis using assms False b unfolding c by (simp add: fix_inv_def)
    next
      case True
      show ?thesis
      proof (cases "bad_run xs")
        case Nil
        then have "v = s\<lparr>a_fix_bad_since := Some t\<rparr>"
          using bad True assms by (simp add: v_def on_state_fix_def sustained_def update_def fix_inv_def)
        then show ?thesis using assms True b Nil g unfolding c
          by (simp add: fix_inv_def is_active_def x)
      next
        case (Cons y ys)
        then have "v = (if t - fst y \<ge> FIX_LOST_GRACE_S
            then snd (raise_alert (\<lambda>_. True) ''fix_lost'' Warning (''position fix lost ('' @ fx_name f @ '')'') s) else s)"
          using bad True assms by (simp add: v_def on_state_fix_def sustained_def skip_def fix_inv_def)
        then show ?thesis using assms True b Cons unfolding c
          by (auto simp: fix_inv_def is_active_def x raise_effect)
      qed
    qed
  qed
qed

lemma fix_run: "fix_inv xs (alerts_run (\<lambda>_. True) (fix_messages xs) (engine_init g))"
proof (induction xs rule: rev_induct)
  case Nil
  show ?case by (simp add: fix_inv_def alerts_run_def fix_messages_def engine_init_def bad_run_def had_fix_def is_active_def)
next
  case (snoc x xs)
  then show ?case using fix_step [OF snoc] by (simp add: alerts_run_def fix_messages_def case_prod_beta)
qed

section \<open>Properties\<close>

text \<open>
  C17. However messages arrive and whichever rows the events table refuses, each condition is active
  at most once and only after its last row was a raise; in the log its first row is a raise, every
  \<open>cleared\<close> row directly follows a raise, and while every row can be written raises and \<open>cleared\<close>
  rows alternate and the last row says whether the condition is active.
\<close>

theorem alerts_alternate:
  "engine_ok db (alerts_run db ms (engine_init min_free_gb))"
proof -
  have "engine_ok db (engine_init min_free_gb)"
    by (simp add: engine_ok_def engine_init_def rows_ok_def row_inv_def rows_def is_active_def list_all_iff)
  then show ?thesis by (rule alerts_run_ok)
qed

text \<open>
  \<open>fix_lost\<close> is active exactly when there was a 3D fix before and one of the samples since the
  last one came at least ten seconds after the first of them: neither a receiver still acquiring nor
  a short dropout raises it, a lasting one always does, and the first good sample ends it.
\<close>

theorem fix_lost_exactly:
  "is_active ''fix_lost'' (alerts_run (\<lambda>_. True) (fix_messages xs) (engine_init min_free_gb)) \<longleftrightarrow>
     had_fix xs \<and> list_ex (\<lambda>x. fst x - fst (hd (bad_run xs)) \<ge> 10) (bad_run xs)"
  using fix_run [of xs min_free_gb] by (simp add: fix_inv_def FIX_LOST_GRACE_S_def)

end
