(* ===== verification/EnvFile.thy ===== *)
theory EnvFile
  imports Text "HOL-Library.Sublist"
begin

text \<open>
  The \<open>.env\<close> reader and writer, \<open>src/mtrtk/web/envfile.py\<close>, over Latin-1 text: the assignment line
  and its value in the three quoting forms, the encoding of a value, and the update of a file, whose
  text is \<open>None\<close> while it does not exist. The regular expressions are written as the scans they are.
  The atomic replacement of the file and its mode are left out.
\<close>

section \<open>Lines\<close>

definition is_break :: "char \<Rightarrow> bool" where
  "is_break c \<longleftrightarrow> (let n = of_char c :: nat in 10 \<le> n \<and> n \<le> 13 \<or> 28 \<le> n \<and> n \<le> 30 \<or> n = 133)"

text \<open>\<open>str.splitlines()\<close>, with the line read so far.\<close>

fun split_lines :: "string \<Rightarrow> string \<Rightarrow> string list" where
  "split_lines cur [] = (if cur = [] then [] else [cur])"
| "split_lines cur (c # s) =
     (if c = CHR 0x0D \<and> s \<noteq> [] \<and> hd s = CHR 0x0A then cur # split_lines [] (tl s)
      else if is_break c then cur # split_lines [] s
      else split_lines (cur @ [c]) s)"

definition splitlines :: "string \<Rightarrow> string list" where
  "splitlines = split_lines []"

section \<open>Parsing an assignment\<close>

record entry =
  e_key :: string
  e_value :: string
  e_comment :: string

definition is_hspace :: "char \<Rightarrow> bool" where
  "is_hspace c \<longleftrightarrow> is_white c \<and> c \<noteq> CHR 0x0D \<and> c \<noteq> CHR 0x0A"

definition key_start :: "char \<Rightarrow> bool" where
  "key_start c \<longleftrightarrow> is_upper c \<or> is_lower c \<or> c = CHR ''_''"

definition key_char :: "char \<Rightarrow> bool" where
  "key_char c \<longleftrightarrow> key_start c \<or> is_digit c"

definition key_and_rest :: "string \<Rightarrow> (string \<times> string) option" where
  "key_and_rest s =
     (let key = takeWhile key_char s; after = dropWhile is_hspace (dropWhile key_char s) in
      if key \<noteq> [] \<and> key_start (hd key) \<and> after \<noteq> [] \<and> hd after = CHR ''=''
      then Some (key, tl after) else None)"

text \<open>\<open>_ASSIGN_RE\<close>: with the optional \<open>export\<close> first, without it where that fails.\<close>

definition after_export :: "string \<Rightarrow> string option" where
  "after_export s =
     (if starts_with ''export'' s \<and> drop 6 s \<noteq> [] \<and> is_hspace (hd (drop 6 s))
      then Some (dropWhile is_hspace (drop 6 s)) else None)"

definition assign_match :: "string \<Rightarrow> (string \<times> string) option" where
  "assign_match raw =
     (let s = dropWhile is_hspace raw;
          m = (case after_export s of
                 Some t \<Rightarrow> (case key_and_rest t of Some r \<Rightarrow> Some r | None \<Rightarrow> key_and_rest s)
               | None \<Rightarrow> key_and_rest s)
      in case m of
           None \<Rightarrow> None
         | Some (key, rest) \<Rightarrow>
             (let line = takeWhile (\<lambda>c. c \<noteq> CHR 0x0A) rest; left = drop (length line) rest in
              if left = [] \<or> left = [CHR 0x0A] then Some (key, line) else None))"

text \<open>The body of a quoted value, still escaped, and what follows the closing quote.\<close>

fun quoted_body :: "char \<Rightarrow> string \<Rightarrow> (string \<times> string) option" where
  "quoted_body q [] = None"
| "quoted_body q (c # s) =
     (if c = q then Some ([], s)
      else if c = CHR 0x5C then
        (case s of
           [] \<Rightarrow> None
         | d # t \<Rightarrow> if d = CHR 0x0A then None else map_option (\<lambda>(b, r). (c # d # b, r)) (quoted_body q t))
      else map_option (\<lambda>(b, r). (c # b, r)) (quoted_body q s))"

definition quoted_match :: "char \<Rightarrow> string \<Rightarrow> (string \<times> string) option" where
  "quoted_match q rest = (if rest \<noteq> [] \<and> hd rest = q then quoted_body q (tl rest) else None)"

definition double_escape :: "char \<Rightarrow> char option" where
  "double_escape d =
     map_of [(CHR 0x5C, CHR 0x5C), (CHR 0x27, CHR 0x27), (CHR 0x22, CHR 0x22), (CHR ''a'', CHR 0x07),
             (CHR ''b'', CHR 0x08), (CHR ''f'', CHR 0x0C), (CHR ''n'', CHR 0x0A), (CHR ''r'', CHR 0x0D),
             (CHR ''t'', CHR 0x09), (CHR ''v'', CHR 0x0B)] d"

definition single_escape :: "char \<Rightarrow> char option" where
  "single_escape d = map_of [(CHR 0x5C, CHR 0x5C), (CHR 0x27, CHR 0x27)] d"

fun decode_escapes :: "(char \<Rightarrow> char option) \<Rightarrow> string \<Rightarrow> string" where
  "decode_escapes esc [] = []"
| "decode_escapes esc [c] = [c]"
| "decode_escapes esc (c # d # s) =
     (if c = CHR 0x5C then
        (case esc d of Some x \<Rightarrow> x # decode_escapes esc s | None \<Rightarrow> c # decode_escapes esc (d # s))
      else c # decode_escapes esc (d # s))"

text \<open>\<open>_COMMENT_RE.search\<close>: where the first run of white space before a \<open>#\<close> starts.\<close>

fun comment_at :: "string \<Rightarrow> nat option" where
  "comment_at [] = None"
| "comment_at (c # s) =
     (if is_white c \<and> dropWhile is_white s \<noteq> [] \<and> hd (dropWhile is_white s) = CHR ''#'' then Some 0
      else map_option Suc (comment_at s))"

definition parse_line :: "string \<Rightarrow> entry option" where
  "parse_line raw =
     (case assign_match raw of
        None \<Rightarrow> None
      | Some (key, rest0) \<Rightarrow>
          (let rest = dropWhile (\<lambda>c. c = CHR '' '' \<or> c = CHR 0x09) rest0 in
           case quoted_match (CHR 0x22) rest of
             Some (b, r) \<Rightarrow> Some \<lparr>e_key = key, e_value = decode_escapes double_escape b, e_comment = r\<rparr>
           | None \<Rightarrow>
               (case quoted_match (CHR 0x27) rest of
                  Some (b, r) \<Rightarrow> Some \<lparr>e_key = key, e_value = decode_escapes single_escape b, e_comment = r\<rparr>
                | None \<Rightarrow>
                    (case comment_at rest of
                       None \<Rightarrow> Some \<lparr>e_key = key, e_value = rstrip is_white rest, e_comment = []\<rparr>
                     | Some i \<Rightarrow> Some \<lparr>e_key = key, e_value = rstrip is_white (take i rest),
                                      e_comment = drop i rest\<rparr>))))"

definition bindings :: "string list \<Rightarrow> (string \<times> string) list" where
  "bindings lines = map (\<lambda>e. (e_key e, e_value e)) (List.map_filter parse_line lines)"

definition read_env :: "string option \<Rightarrow> string \<Rightarrow> string option" where
  "read_env file = (case file of None \<Rightarrow> (\<lambda>_. None) | Some text \<Rightarrow> py_dict (bindings (splitlines text)))"

section \<open>Encoding a value\<close>

definition writable :: "string \<Rightarrow> py_error + string" where
  "writable v =
     (if CHR 0x0D \<in> set v \<or> CHR 0x0A \<in> set v then Inl ValueError
      else if find_sub ''${'' v \<noteq> None then Inl ValueError
      else Inr v)"

definition needs_quotes :: "string \<Rightarrow> bool" where
  "needs_quotes v \<longleftrightarrow>
     v \<noteq> [] \<and>
     (v \<noteq> strip_str v \<or> comment_at v \<noteq> None \<or> hd v \<in> {CHR ''#'', CHR 0x22, CHR 0x27} \<or>
      list_ex (\<lambda>c. c \<in> {CHR 0x22, CHR 0x27, CHR 0x5C}) v)"

text \<open>\<open>v.replace("\\", "\\\\").replace('"', '\\"')\<close>\<close>

definition escape_value :: "string \<Rightarrow> string" where
  "escape_value v =
     concat (map (\<lambda>c. if c = CHR 0x22 then [CHR 0x5C, c] else [c])
       (concat (map (\<lambda>c. if c = CHR 0x5C then [c, c] else [c]) v)))"

definition encode_value :: "string \<Rightarrow> py_error + string" where
  "encode_value v =
     (case writable v of
        Inl e \<Rightarrow> Inl e
      | Inr w \<Rightarrow> Inr (if needs_quotes w then [CHR 0x22] @ escape_value w @ [CHR 0x22] else w))"

section \<open>Updating a file\<close>

fun encode_all :: "(string \<times> string) list \<Rightarrow> py_error + (string \<times> string) list" where
  "encode_all [] = Inr []"
| "encode_all ((k, v) # us) =
     (case encode_value v of
        Inl e \<Rightarrow> Inl e
      | Inr w \<Rightarrow> (case encode_all us of Inl e \<Rightarrow> Inl e | Inr ws \<Rightarrow> Inr ((k, w) # ws)))"

definition assignment :: "string \<Rightarrow> string \<Rightarrow> string \<Rightarrow> string" where
  "assignment key value comment = key @ ''='' @ value @ comment"

text \<open>
  One line of the file: kept, dropped when a later line binds the same updated key, or rewritten with
  its comment; an empty value puts the comment on a line of its own.
\<close>

definition update_line :: "(string \<times> string) list \<Rightarrow> string list \<Rightarrow> string \<Rightarrow> string list" where
  "update_line encoded later raw =
     (case parse_line raw of
        None \<Rightarrow> [raw]
      | Some e \<Rightarrow>
          (case map_of encoded (e_key e) of
             None \<Rightarrow> [raw]
           | Some value \<Rightarrow>
               if list_ex (\<lambda>l. map_option e_key (parse_line l) = Some (e_key e)) later then []
               else if value = [] \<and> starts_with ''#'' (strip_str (e_comment e))
               then [strip_str (e_comment e), e_key e @ ''='']
               else [assignment (e_key e) value (e_comment e)]))"

fun update_lines :: "(string \<times> string) list \<Rightarrow> string list \<Rightarrow> string list" where
  "update_lines encoded [] = []"
| "update_lines encoded (raw # later) = update_line encoded later raw @ update_lines encoded later"

definition bound_keys :: "string list \<Rightarrow> string list" where
  "bound_keys lines = map e_key (List.map_filter parse_line lines)"

definition update_env :: "string option \<Rightarrow> (string \<times> string) list \<Rightarrow> py_error + string" where
  "update_env file updates =
     (case encode_all updates of
        Inl e \<Rightarrow> Inl e
      | Inr encoded \<Rightarrow>
          (let lines = (case file of None \<Rightarrow> [] | Some text \<Rightarrow> splitlines text);
               out = update_lines encoded lines @
                 map (\<lambda>(k, v). assignment k v []) (filter (\<lambda>(k, v). k \<notin> set (bound_keys lines)) encoded)
           in Inr (if out = [] then [] else join [CHR 0x0A] out @ [CHR 0x0A])))"

section \<open>What is written reads back\<close>

lemma rstrip_snoc: "\<not> p x \<Longrightarrow> rstrip p (xs @ [x]) = xs @ [x]"
  by (simp add: rstrip_def)

lemma rstrip_white: "list_all p ys \<Longrightarrow> rstrip p (xs @ ys) = rstrip p xs"
proof -
  assume "list_all p ys"
  then have "dropWhile p (rev ys @ rev xs) = dropWhile p (rev xs)"
    by (subst dropWhile_append2) (auto simp: list_all_iff)
  then show ?thesis by (simp add: rstrip_def)
qed

lemma strip_fixed:
  "v = strip p v \<Longrightarrow> v = [] \<or> \<not> p (hd v) \<and> \<not> p (last v)"
proof (cases v rule: rev_cases)
  case (snoc xs x)
  assume v: "v = strip p v"
  have hd: "dropWhile p v = v"
  proof (rule ccontr)
    assume "dropWhile p v \<noteq> v"
    then have "length (dropWhile p v) < length v"
      by (metis append_Nil append_self_conv2 length_append less_add_same_cancel2 length_greater_0_conv
          takeWhile_dropWhile_id)
    moreover have "length (strip p v) \<le> length (dropWhile p v)"
      by (metis lstrip_def strip_def rstrip_def length_rev length_dropWhile_le)
    ultimately show False using v by simp
  qed
  have "dropWhile p (rev v) = rev v"
    using v unfolding strip_def lstrip_def rstrip_def hd by (metis rev_rev_ident)
  with hd snoc show ?thesis by (metis dropWhile_eq_self_iff hd_rev last_rev rev_is_Nil_conv rev_rev_ident)
qed simp

definition valid_key :: "string \<Rightarrow> bool" where
  "valid_key k \<longleftrightarrow> k \<noteq> [] \<and> key_start (hd k) \<and> list_all key_char k"

lemma key_char_not_hspace: "key_char c \<Longrightarrow> \<not> is_hspace c"
  by (auto simp: key_char_def key_start_def is_hspace_def is_white_def is_upper_def is_lower_def
      is_digit_def less_eq_char_def Let_def)

lemma key_char_facts: "key_start c \<Longrightarrow> key_char c" "\<not> key_char CHR ''=''" "\<not> is_hspace CHR ''=''"
  by (simp add: key_char_def) code_simp+

lemma takeWhile_key: "list_all key_char k \<Longrightarrow> takeWhile key_char (k @ CHR ''='' # w) = k"
  and dropWhile_key: "list_all key_char k \<Longrightarrow> dropWhile key_char (k @ CHR ''='' # w) = CHR ''='' # w"
  by (induction k) (simp_all add: key_char_facts)

lemma after_export_key: "list_all key_char k \<Longrightarrow> after_export (k @ CHR ''='' # w) = None"
proof -
  assume k: "list_all key_char k"
  show ?thesis
  proof (cases "length k \<le> 6")
    case True
    show ?thesis
    proof (cases "length k = 6")
      case False
      have "CHR ''='' \<notin> set ''export''" by simp
      moreover have "take 6 (k @ CHR ''='' # w) ! length k = CHR ''=''" using False True by (simp add: nth_append)
      moreover have "length k < length (take 6 (k @ CHR ''='' # w))" using False True by simp
      ultimately have "take 6 (k @ CHR ''='' # w) \<noteq> ''export''" by (metis nth_mem)
      moreover have "length ''export'' = 6" by simp
      ultimately have "\<not> starts_with ''export'' (k @ CHR ''='' # w)" by (simp only: starts_with_def simp_thms)
      then show ?thesis by (simp only: after_export_def simp_thms if_False)
    qed (simp add: after_export_def key_char_facts)
  next
    case False
    then have "drop 6 k \<noteq> []" by simp
    moreover have "hd (drop 6 k) \<in> set k"
      using calculation by (meson hd_in_set in_set_dropD)
    ultimately show ?thesis using k key_char_not_hspace by (auto simp: after_export_def list_all_iff)
  qed
qed

lemma assign_match_key:
  assumes "valid_key k" "CHR 0x0A \<notin> set w"
  shows "assign_match (k @ CHR ''='' # w) = Some (k, w)"
proof -
  have k: "k \<noteq> []" "list_all key_char k" "key_start (hd k)" using assms(1) by (auto simp: valid_key_def)
  then have "\<not> is_hspace (hd k)" by (simp add: key_char_facts key_char_not_hspace)
  then have 1: "dropWhile is_hspace (k @ CHR ''='' # w) = k @ CHR ''='' # w"
    using k(1) by (cases k) simp_all
  have 2: "key_and_rest (k @ CHR ''='' # w) = Some (k, w)"
    using k by (simp add: key_and_rest_def takeWhile_key dropWhile_key key_char_facts Let_def)
  have 3: "takeWhile (\<lambda>c. c \<noteq> CHR 0x0A) w = w" using assms(2) by (auto simp: takeWhile_eq_all_conv)
  show ?thesis
    by (simp add: assign_match_def 1 2 3 after_export_key [OF k(2)] Let_def)
qed

definition escape_char :: "char \<Rightarrow> string" where
  "escape_char c = (if c = CHR 0x22 \<or> c = CHR 0x5C then [CHR 0x5C, c] else [c])"

lemma escape_value_concat: "escape_value v = concat (map escape_char v)"
  by (induction v) (simp_all add: escape_value_def escape_char_def)

lemma quoted_body_escape: "quoted_body CHR 0x22 (escape_value v @ CHR 0x22 # r) = Some (escape_value v, r)"
  unfolding escape_value_concat
  by (induction v) (simp_all add: escape_char_def)

lemma decode_plain: "c \<noteq> CHR 0x5C \<Longrightarrow> decode_escapes esc (c # s) = c # decode_escapes esc s"
  by (cases s) simp_all

lemma double_escape_known: "double_escape CHR 0x22 = Some CHR 0x22" "double_escape CHR 0x5C = Some CHR 0x5C"
  by (simp_all add: double_escape_def)

lemma decode_escape: "decode_escapes double_escape (escape_value v) = v"
  unfolding escape_value_concat
proof (induction v)
  case (Cons c v)
  show ?case
  proof (cases "c = CHR 0x22 \<or> c = CHR 0x5C")
    case True
    then show ?thesis using Cons by (auto simp: escape_char_def double_escape_known)
  next
    case False
    then have "concat (map escape_char (c # v)) = c # concat (map escape_char v)" by (simp add: escape_char_def)
    moreover have "decode_escapes double_escape (c # concat (map escape_char v)) =
        c # decode_escapes double_escape (concat (map escape_char v))"
      by (rule decode_plain) (use False in simp)
    ultimately show ?thesis using Cons by simp
  qed
qed simp

lemma set_escape: "set (escape_value v) \<subseteq> insert CHR 0x5C (set v)"
  unfolding escape_value_concat by (auto simp: escape_char_def split: if_splits)

text \<open>What may follow a value so that it still reads as a comment or as nothing.\<close>

definition clean_comment :: "string \<Rightarrow> bool" where
  "clean_comment c \<longleftrightarrow>
     dropWhile is_white c = [] \<or> is_white (hd c) \<and> hd (dropWhile is_white c) = CHR ''#''"

lemma comment_at_clean:
  assumes "comment_at v = None" "v = [] \<or> \<not> is_white (last v)" "clean_comment c"
  shows "comment_at (v @ c) = (if dropWhile is_white c = [] then None else Some (length v))"
  using assms(1,2)
proof (induction v)
  case Nil
  show ?case
  proof (cases "dropWhile is_white c = []")
    case True
    then have "\<forall>x \<in> set c. is_white x" by (simp add: dropWhile_eq_Nil_conv)
    then have "comment_at c = None"
      by (induction c) (auto simp: dropWhile_eq_Nil_conv)
    then show ?thesis using True by simp
  next
    case False
    then have w: "is_white (hd c)" "hd (dropWhile is_white c) = CHR ''#''"
      using assms(3) by (auto simp: clean_comment_def)
    obtain x c' where c: "c = x # c'" using False by (cases c) auto
    show ?thesis using w False unfolding c by simp
  qed
next
  case (Cons x v)
  then have n: "comment_at v = None" "\<not> (is_white x \<and> dropWhile is_white v \<noteq> [] \<and> hd (dropWhile is_white v) = CHR ''#'')"
    by (auto split: if_splits)
  have l: "v = [] \<or> \<not> is_white (last v)" using Cons.prems(2) by (cases v) auto
  have "\<not> (is_white x \<and> dropWhile is_white (v @ c) \<noteq> [] \<and> hd (dropWhile is_white (v @ c)) = CHR ''#'')"
  proof (cases "v = []")
    case True
    then show ?thesis using Cons.prems(2) by simp
  next
    case False
    then have "\<exists>y \<in> set v. \<not> is_white y" using l by (metis last_in_set)
    then have "dropWhile is_white (v @ c) = dropWhile is_white v @ c" "dropWhile is_white v \<noteq> []"
      by (auto simp: dropWhile_append dropWhile_eq_Nil_conv)
    then show ?thesis using n(2) by simp
  qed
  then have "comment_at ((x # v) @ c) = map_option Suc (comment_at (v @ c))"
    by (simp only: append_Cons comment_at.simps if_not_P if_False)
  then show ?case using Cons.IH [OF n(1) l] by simp
qed

lemma encode_value_cases:
  "encode_value v = Inr w \<longleftrightarrow>
     CHR 0x0D \<notin> set v \<and> CHR 0x0A \<notin> set v \<and> find_sub ''${'' v = None \<and>
     w = (if needs_quotes v then [CHR 0x22] @ escape_value v @ [CHR 0x22] else v)"
  by (auto simp: encode_value_def writable_def)

lemma blank_dropWhile:
  "list_all is_white c \<Longrightarrow> list_all is_white (dropWhile q c)"
  by (induction c) auto

lemma white_not_quote: "is_white c \<Longrightarrow> c \<noteq> CHR 0x22 \<and> c \<noteq> CHR 0x27 \<and> c \<noteq> CHR ''#''"
  by (auto simp: is_white_def)

lemma parse_line_rewritten:
  assumes k: "valid_key k" and e: "encode_value v = Inr w" and n: "CHR 0x0A \<notin> set c"
    and c: "clean_comment c" and w: "v \<noteq> [] \<or> dropWhile is_white c = []"
  shows "\<exists>r. parse_line (assignment k w c) = Some \<lparr>e_key = k, e_value = v, e_comment = r\<rparr>"
proof -
  have v: "CHR 0x0A \<notin> set v" and w': "w = (if needs_quotes v then [CHR 0x22] @ escape_value v @ [CHR 0x22] else v)"
    using iffD1 [OF encode_value_cases e] by blast+
  have "CHR 0x0A \<notin> set (w @ c)" using v n set_escape [of v] by (auto simp: w')
  then have m: "assign_match (assignment k w c) = Some (k, w @ c)"
    using assign_match_key [OF k] by (simp add: assignment_def)
  let ?sp = "\<lambda>x. x = CHR '' '' \<or> x = CHR 0x09"
  have sp: "?sp x \<Longrightarrow> is_white x" for x by (auto simp: is_white_def)
  show ?thesis
  proof (cases "needs_quotes v")
    case True
    then have "dropWhile ?sp (w @ c) = CHR 0x22 # escape_value v @ CHR 0x22 # c" by (simp add: w')
    then show ?thesis
      unfolding parse_line_def m
      by (simp only: option.case prod.case Let_def quoted_match_def list.sel list.distinct simp_thms if_True
          not_Cons_self2 quoted_body_escape decode_escape) auto
  next
    case bare: False
    then have wv: "w = v" by (simp add: w')
    show ?thesis
    proof (cases "v = []")
      case True
      then have "list_all is_white c" using w by (simp add: list_all_iff dropWhile_eq_Nil_conv)
      then have rest: "list_all is_white (dropWhile ?sp c)" by (rule blank_dropWhile)
      have q: "quoted_match CHR 0x22 r = None" "quoted_match CHR 0x27 r = None" "comment_at r = None"
          "rstrip is_white r = []" if "list_all is_white r" for r
      proof -
        show "quoted_match CHR 0x22 r = None" "quoted_match CHR 0x27 r = None"
          using that white_not_quote by (cases r; auto simp: quoted_match_def)+
        show "comment_at r = None"
          using that by (induction r) (auto simp: list_all_iff dropWhile_eq_Nil_conv)
        show "rstrip is_white r = []" using rstrip_white [OF that, of "[]"] by (simp add: rstrip_def)
      qed
      have m': "assign_match (assignment k w c) = Some (k, c)" using m wv True by simp
      show ?thesis
        unfolding parse_line_def m' option.case prod.case Let_def q [OF rest] True by auto
    next
      case False
      then have s: "v = strip_str v" "comment_at v = None" "hd v \<noteq> CHR 0x22" "hd v \<noteq> CHR 0x27"
        using bare by (auto simp: needs_quotes_def)
      then have nw: "\<not> is_white (hd v)" "\<not> is_white (last v)" using strip_fixed False by blast+
      have rest: "dropWhile ?sp (v @ c) = v @ c" using nw(1) sp False by (cases v) auto
      have q: "quoted_match CHR 0x22 (v @ c) = None" "quoted_match CHR 0x27 (v @ c) = None"
        using s False by (simp_all add: quoted_match_def)
      have ca: "comment_at (v @ c) = (if dropWhile is_white c = [] then None else Some (length v))"
        using comment_at_clean [OF s(2) _ c] nw(2) by simp
      have rs: "rstrip is_white v = v" using rstrip_snoc [of is_white "last v" "butlast v"] nw(2) False by simp
      have rw: "dropWhile is_white c = [] \<Longrightarrow> rstrip is_white (v @ c) = v"
        using rstrip_white [of is_white c v] rs by (simp add: list_all_iff dropWhile_eq_Nil_conv)
      have m': "assign_match (assignment k w c) = Some (k, v @ c)" using m wv by simp
      show ?thesis
        unfolding parse_line_def m' option.case prod.case Let_def rest q ca
        by (cases "dropWhile is_white c = []") (simp_all add: rw rs)
    qed
  qed
qed

text \<open>
  C18. \<open>encode_value\<close> refuses exactly the values with a carriage return, a line feed or \<open>${\<close>; every other
  value, spaces, quotes, backslashes and comment signs included, reads back from the line
  \<open>update_env\<close> writes for it, unchanged and with nothing left over.
\<close>

theorem env_value_roundtrip:
  assumes "valid_key k"
  shows "case encode_value v of
           Inl e \<Rightarrow> e = ValueError \<and> (CHR 0x0D \<in> set v \<or> CHR 0x0A \<in> set v \<or> find_sub ''${'' v \<noteq> None)
         | Inr w \<Rightarrow> CHR 0x0D \<notin> set v \<and> CHR 0x0A \<notin> set v \<and> find_sub ''${'' v = None \<and>
             map_option (\<lambda>e. (e_key e, e_value e)) (parse_line (assignment k w [])) = Some (k, v)"
proof (cases "encode_value v")
  case (Inl e)
  then show ?thesis by (auto simp: encode_value_def writable_def split: if_splits)
next
  case (Inr w)
  obtain r where r: "parse_line (assignment k w []) = Some \<lparr>e_key = k, e_value = v, e_comment = r\<rparr>"
    using parse_line_rewritten [OF assms Inr, of "[]"] by (auto simp: clean_comment_def)
  have "CHR 0x0D \<notin> set v" "CHR 0x0A \<notin> set v" "find_sub ''${'' v = None"
    using iffD1 [OF encode_value_cases Inr] by blast+
  then show ?thesis by (simp add: Inr r)
qed

lemma env_value_roundtrip_witness:
  "valid_key ''PASS_1'' \<and> encode_value ''ab #c'' = Inr (CHR 0x22 # ''ab #c'' @ [CHR 0x22]) \<and>
   map_option (\<lambda>e. (e_key e, e_value e))
     (parse_line (assignment ''PASS_1'' (CHR 0x22 # ''ab #c'' @ [CHR 0x22]) [])) = Some (''PASS_1'', ''ab #c'')"
proof -
  have k: "valid_key ''PASS_1''" by code_simp
  moreover have e: "encode_value ''ab #c'' = Inr (CHR 0x22 # ''ab #c'' @ [CHR 0x22])" by code_simp
  ultimately show ?thesis using env_value_roundtrip [OF k, of "''ab #c''"] by simp
qed

section \<open>What an update does to a file\<close>

abbreviation no_break :: "string \<Rightarrow> bool" where
  "no_break \<equiv> list_all (\<lambda>c. \<not> is_break c)"

lemma is_break_LF: "is_break CHR 0x0A" "is_break CHR 0x0D"
  by code_simp+

lemma split_lines_line: "no_break l \<Longrightarrow> split_lines cur (l @ CHR 0x0A # s) = (cur @ l) # split_lines [] s"
proof (induction l arbitrary: cur)
  case (Cons c l)
  then have "c \<noteq> CHR 0x0D" "\<not> is_break c" by (auto simp: is_break_LF)
  then show ?case using Cons by simp
qed (simp add: is_break_LF)

lemma splitlines_join:
  "list_all no_break ls \<Longrightarrow> ls \<noteq> [] \<Longrightarrow> splitlines (join [CHR 0x0A] ls @ [CHR 0x0A]) = ls"
proof (induction "[CHR 0x0A]" ls rule: join.induct)
  case (2 w)
  then show ?case using split_lines_line [of w "[]" "[]"] by (simp add: splitlines_def)
next
  case (3 w v va)
  then have "splitlines (join [CHR 0x0A] (v # va) @ [CHR 0x0A]) = v # va" by simp
  moreover have "no_break w" using 3 by simp
  ultimately show ?case
    using split_lines_line [of w "[]" "join [CHR 0x0A] (v # va) @ [CHR 0x0A]"] by (simp add: splitlines_def)
qed (use splitlines_def in simp_all)

lemma split_lines_no_break: "no_break cur \<Longrightarrow> list_all no_break (split_lines cur s)"
  by (induction cur s rule: split_lines.induct) auto

lemma splitlines_no_break: "list_all no_break (splitlines s)"
  by (simp add: splitlines_def split_lines_no_break)

lemma quoted_body_set: "quoted_body q s = Some (b, r) \<Longrightarrow> set r \<subseteq> set s"
proof (induction q s arbitrary: b r rule: quoted_body.induct)
  case (2 q c s)
  then show ?case by (fastforce split: if_splits list.splits)
qed simp

lemma set_dropWhile_sub: "set (dropWhile P s) \<subseteq> set s"
  using set_dropWhileD by fast

lemma key_and_rest_set: "key_and_rest s = Some (k, r) \<Longrightarrow> set r \<subseteq> set s"
proof -
  assume a: "key_and_rest s = Some (k, r)"
  then have "r = tl (dropWhile is_hspace (dropWhile key_char s))"
    by (simp add: key_and_rest_def Let_def split: if_splits)
  then have "set r \<subseteq> set (dropWhile is_hspace (dropWhile key_char s))"
    by (metis list.set_sel(2) list.sel(2) subsetI)
  then show ?thesis
    using set_dropWhile_sub [of is_hspace "dropWhile key_char s"] set_dropWhile_sub [of key_char s] by blast
qed

lemma after_export_set: "after_export s = Some t \<Longrightarrow> set t \<subseteq> set s"
  by (auto simp: after_export_def split: if_splits dest!: set_dropWhileD in_set_dropD)

lemma assign_match_set: "assign_match s = Some (k, r) \<Longrightarrow> set r \<subseteq> set s"
proof -
  assume a: "assign_match s = Some (k, r)"
  let ?s = "dropWhile is_hspace s"
  obtain rest where rest: "set rest \<subseteq> set ?s" "r = takeWhile (\<lambda>c. c \<noteq> CHR 0x0A) rest"
  proof -
    from a obtain t rest where t: "key_and_rest t = Some (k, rest)" "t = ?s \<or> after_export ?s = Some t"
        "r = takeWhile (\<lambda>c. c \<noteq> CHR 0x0A) rest"
      unfolding assign_match_def Let_def by (auto split: option.splits if_splits)
    then have "set rest \<subseteq> set ?s" using key_and_rest_set [OF t(1)] after_export_set [of ?s t] by blast
    then show ?thesis using that t(3) by blast
  qed
  then show ?thesis using set_dropWhile_sub [of is_hspace s] set_takeWhileD by fast
qed

lemma parse_line_comment_set: "parse_line s = Some e \<Longrightarrow> set (e_comment e) \<subseteq> set s"
proof -
  assume a: "parse_line s = Some e"
  obtain k r where m: "assign_match s = Some (k, r)"
    using a by (auto simp: parse_line_def split: option.splits)
  let ?r = "dropWhile (\<lambda>c. c = CHR '' '' \<or> c = CHR 0x09) r"
  have q: "quoted_match q ?r = Some (b, t) \<Longrightarrow> set t \<subseteq> set ?r" for q b t
    using quoted_body_set [of q "tl ?r" b t] list.set_sel(2) [of ?r]
    unfolding quoted_match_def by (cases "?r = []") (force split: if_splits)+
  have "set (e_comment e) \<subseteq> set ?r"
    using a q [of "CHR 0x22"] q [of "CHR 0x27"]
    by (auto simp: parse_line_def m Let_def split: option.splits dest: in_set_dropD)
  then show ?thesis using set_dropWhile_sub [of _ r] assign_match_set [OF m] by fast
qed

lemma set_strip: "set (strip p s) \<subseteq> set s"
  unfolding strip_def lstrip_def rstrip_def
  using set_dropWhile_sub [of p "rev (dropWhile p s)"] set_dropWhile_sub [of p s] by auto

lemma parse_comment_line: "starts_with ''#'' s \<Longrightarrow> parse_line s = None"
proof -
  assume "starts_with ''#'' s"
  then obtain t where s: "s = CHR ''#'' # t" by (cases s) (auto simp: starts_with_def)
  have "\<not> is_hspace CHR ''#''" "\<not> key_char CHR ''#''" by code_simp+
  then have "assign_match s = None"
    by (simp add: s assign_match_def after_export_def starts_with_def key_and_rest_def Let_def)
  then show ?thesis by (simp add: parse_line_def)
qed

definition line_key :: "string \<Rightarrow> string option" where
  "line_key l = map_option e_key (parse_line l)"

definition pairs_of :: "string \<Rightarrow> string list \<Rightarrow> (string \<times> string) list" where
  "pairs_of k ls = filter (\<lambda>p. fst p = k) (bindings ls)"

lemma bindings_append: "bindings (xs @ ys) = bindings xs @ bindings ys"
  by (induction xs) (auto simp: bindings_def map_filter_simps split: option.split)

lemma pairs_of_simps [simp]:
  "pairs_of k [] = []"
  "pairs_of k (xs @ ys) = pairs_of k xs @ pairs_of k ys"
  by (simp_all add: pairs_of_def bindings_append) (simp add: bindings_def map_filter_simps)

lemma pairs_of_Cons: "pairs_of k (l # ls) = pairs_of k [l] @ pairs_of k ls"
  using pairs_of_simps(2) [of k "[l]" ls] by simp

lemma pairs_of_one:
  "pairs_of k [l] = (case parse_line l of None \<Rightarrow> [] | Some e \<Rightarrow> if e_key e = k then [(k, e_value e)] else [])"
  by (auto simp: pairs_of_def bindings_def map_filter_simps split: option.split)

lemma map_of_filter_key: "map_of (filter (\<lambda>p. fst p = k) ps) k = map_of ps k"
  by (induction ps) auto

lemma py_dict_pairs: "py_dict (bindings ls) k = py_dict (pairs_of k ls) k"
  by (simp only: py_dict_def pairs_of_def rev_filter map_of_filter_key)

lemma bound_keys_iff: "k \<in> set (bound_keys ls) \<longleftrightarrow> list_ex (\<lambda>l. line_key l = Some k) ls"
  by (induction ls) (auto simp: bound_keys_def line_key_def map_filter_simps split: option.split)

lemma pairs_of_unbound: "\<not> list_ex (\<lambda>l. line_key l = Some k) ls \<Longrightarrow> pairs_of k ls = []"
proof (induction ls)
  case (Cons l ls)
  then show ?case unfolding pairs_of_Cons [of k l ls] by (auto simp: pairs_of_one line_key_def split: option.split)
qed simp

lemma encode_all_shape:
  "encode_all us = Inr ws \<Longrightarrow>
     map fst ws = map fst us \<and> (\<forall>k w. map_of ws k = Some w \<longrightarrow> (\<exists>v. map_of us k = Some v \<and> encode_value v = Inr w)) \<and>
     (\<forall>k v. map_of us k = Some v \<longrightarrow> (\<exists>w. map_of ws k = Some w \<and> encode_value v = Inr w))"
  by (induction us arbitrary: ws) (auto split: sum.splits)

definition updatable :: "(string \<times> string) list \<Rightarrow> string \<Rightarrow> bool" where
  "updatable us l =
     (case parse_line l of
        None \<Rightarrow> True | Some e \<Rightarrow> map_of us (e_key e) = None \<or> clean_comment (e_comment e))"

definition fair_update :: "string \<times> string \<Rightarrow> bool" where
  "fair_update u \<longleftrightarrow> valid_key (fst u) \<and> no_break (snd u)"

lemma strip_starts_clean:
  "clean_comment c \<Longrightarrow> \<not> starts_with ''#'' (strip_str c) \<Longrightarrow> dropWhile is_white c = []"
proof (rule ccontr)
  assume c: "clean_comment c" "\<not> starts_with ''#'' (strip_str c)" and n: "dropWhile is_white c \<noteq> []"
  then have h: "hd (dropWhile is_white c) = CHR ''#''" by (auto simp only: clean_comment_def)
  then obtain t where t: "dropWhile is_white c = CHR ''#'' # t" using n by (cases "dropWhile is_white c") auto
  have "\<not> is_white CHR ''#''" by code_simp
  then have "strip_str c = CHR ''#'' # rstrip is_white t"
    by (simp add: strip_def lstrip_def t rstrip_def dropWhile_append dropWhile_eq_Nil_conv)
  then show False using c(2) by (simp add: starts_with_def)
qed

lemma updated_key: "list_all fair_update us \<Longrightarrow> map_of us k = Some v \<Longrightarrow> valid_key k \<and> no_break v"
  by (auto simp: list_all_iff fair_update_def dest!: map_of_SomeD)

lemma encode_value_nil: "encode_value v = Inr [] \<Longrightarrow> v = []"
  by (auto simp: encode_value_cases split: if_splits)

lemma pairs_of_entry: "parse_line l = Some \<lparr>e_key = k', e_value = v, e_comment = r\<rparr> \<Longrightarrow>
    pairs_of k [l] = (if k' = k then [(k, v)] else [])"
  by (simp add: pairs_of_one)

lemma update_line_pairs:
  assumes enc: "encode_all us = Inr ws" and fair: "list_all fair_update us"
    and u: "updatable us raw" and n: "no_break raw"
  shows "pairs_of k (update_line ws later raw) =
     (case map_of us k of
        None \<Rightarrow> pairs_of k [raw]
      | Some v \<Rightarrow> if line_key raw = Some k \<and> \<not> list_ex (\<lambda>l. line_key l = Some k) later then [(k, v)] else [])"
proof (cases "parse_line raw")
  case None
  then show ?thesis by (simp add: update_line_def line_key_def pairs_of_one split: option.split)
next
  case (Some e)
  note e = Some
  show ?thesis
  proof (cases "map_of ws (e_key e)")
    case None
    then have "map_of us (e_key e) = None" using encode_all_shape [OF enc] by (metis option.exhaust option.simps(3))
    then show ?thesis using None e by (auto simp: update_line_def line_key_def pairs_of_one split: option.split)
  next
    case (Some w)
    then obtain v where v: "map_of us (e_key e) = Some v" "encode_value v = Inr w"
      using encode_all_shape [OF enc] by blast
    have key: "valid_key (e_key e)" using updated_key [OF fair v(1)] by simp
    have later: "list_ex (\<lambda>l. map_option e_key (parse_line l) = Some (e_key e)) later =
        list_ex (\<lambda>l. line_key l = Some (e_key e)) later" by (simp add: line_key_def)
    have lk: "line_key raw = Some (e_key e)" by (simp add: line_key_def e)
    let ?dup = "list_ex (\<lambda>l. line_key l = Some (e_key e)) later"
    have "pairs_of k (update_line ws later raw) = (if ?dup then [] else if e_key e = k then [(k, v)] else [])"
    proof (cases ?dup)
      case True
      then have "update_line ws later raw = []"
        by (simp only: update_line_def e Some later option.case if_True)
      then show ?thesis using True by simp
    next
      case False
      have clean: "clean_comment (e_comment e)" using u by (simp add: updatable_def e v)
      show ?thesis
      proof (cases "w = [] \<and> starts_with ''#'' (strip_str (e_comment e))")
        case True
        then have "v = []" using v(2) encode_value_nil by blast
        have "clean_comment []" by (simp add: clean_comment_def)
        then obtain r where "parse_line (assignment (e_key e) w []) = Some \<lparr>e_key = e_key e, e_value = v, e_comment = r\<rparr>"
          using parse_line_rewritten [OF key v(2), of "[]"] by auto
        then have "parse_line (e_key e @ ''='') = Some \<lparr>e_key = e_key e, e_value = v, e_comment = r\<rparr>"
          using True by (simp add: assignment_def)
        note p = pairs_of_entry [OF this, of k]
        have q: "pairs_of k [strip_str (e_comment e)] = []"
          using True parse_comment_line by (simp add: pairs_of_one)
        have "update_line ws later raw = [strip_str (e_comment e)] @ [e_key e @ ''='']"
          using True False by (simp only: update_line_def e Some later option.case if_False if_True simp_thms)
            simp
        then show ?thesis using p q False by (simp only: pairs_of_simps(2)) simp
      next
        case no: False
        have nl: "CHR 0x0A \<notin> set (e_comment e)"
          using parse_line_comment_set [OF e] n is_break_LF(1) by (auto simp: list_all_iff)
        have "v \<noteq> [] \<or> dropWhile is_white (e_comment e) = []"
        proof (cases "v = []")
          case True
          then have "w = []" using v(2) by (auto simp: encode_value_cases needs_quotes_def)
          then show ?thesis using no strip_starts_clean [OF clean] by blast
        qed simp
        then obtain r where "parse_line (assignment (e_key e) w (e_comment e)) = Some \<lparr>e_key = e_key e, e_value = v, e_comment = r\<rparr>"
          using parse_line_rewritten [OF key v(2) nl clean] by blast
        note p = pairs_of_entry [OF this, of k]
        have "update_line ws later raw = [assignment (e_key e) w (e_comment e)]"
          unfolding update_line_def e option.case Some later using no False by simp
        then show ?thesis using p False by simp
      qed
    qed
    then show ?thesis using v(1) lk e by (auto simp: pairs_of_one split: option.split)
  qed
qed

lemma update_lines_pairs:
  assumes enc: "encode_all us = Inr ws" and fair: "list_all fair_update us"
    and "list_all (updatable us) ls" "list_all no_break ls"
  shows "pairs_of k (update_lines ws ls) =
     (case map_of us k of
        None \<Rightarrow> pairs_of k ls
      | Some v \<Rightarrow> if list_ex (\<lambda>l. line_key l = Some k) ls then [(k, v)] else [])"
  using assms(3,4)
proof (induction ls)
  case (Cons l ls)
  then have u: "updatable us l" "no_break l" by simp_all
  have "pairs_of k (update_lines ws (l # ls)) = pairs_of k (update_line ws ls l) @ pairs_of k (update_lines ws ls)"
    by simp
  moreover note pairs_of_Cons [of k l ls]
  ultimately show ?case
    unfolding update_line_pairs [OF enc fair u] using Cons by (auto split: option.split)
qed (simp split: option.split)

lemma is_break_eq: "\<not> is_break CHR ''=''" "\<not> is_break CHR 0x22" "\<not> is_break CHR 0x5C"
  by code_simp+

lemma key_no_break: "valid_key k \<Longrightarrow> no_break k"
proof -
  have "\<not> is_break c" if "key_char c" for c
    using that by (auto simp: key_char_def key_start_def is_break_def is_upper_def is_lower_def
        is_digit_def less_eq_char_def Let_def)
  then show "valid_key k \<Longrightarrow> no_break k" by (auto simp: valid_key_def list_all_iff)
qed

lemma encoded_no_break: "encode_value v = Inr w \<Longrightarrow> no_break v \<Longrightarrow> no_break w"
  using set_escape [of v] is_break_eq by (auto simp: encode_value_cases list_all_iff)

lemma update_line_no_break:
  assumes enc: "encode_all us = Inr ws" and fair: "list_all fair_update us" and n: "no_break raw"
  shows "list_all no_break (update_line ws later raw)"
proof (cases "parse_line raw")
  case (Some e)
  have c: "no_break (e_comment e)" "no_break (strip_str (e_comment e))"
    using n parse_line_comment_set [OF Some] set_strip [of is_white "e_comment e"]
    unfolding list_all_iff by blast+
  show ?thesis
  proof (cases "map_of ws (e_key e)")
    case (Some w)
    then obtain v where v: "map_of us (e_key e) = Some v" "encode_value v = Inr w"
      using encode_all_shape [OF enc] by blast
    then have "valid_key (e_key e)" "no_break v" using updated_key [OF fair] by blast+
    then show ?thesis
      using c Some \<open>parse_line raw = Some e\<close> encoded_no_break v(2) key_no_break
      by (auto simp: update_line_def assignment_def is_break_eq)
  qed (use n \<open>parse_line raw = Some e\<close> in \<open>simp add: update_line_def\<close>)
qed (use n in \<open>simp add: update_line_def\<close>)

lemma update_lines_no_break:
  "encode_all us = Inr ws \<Longrightarrow> list_all fair_update us \<Longrightarrow> list_all no_break ls \<Longrightarrow>
   list_all no_break (update_lines ws ls)"
  by (induction ls) (use update_line_no_break in auto)

lemma update_lines_keeps:
  "encode_all us = Inr ws \<Longrightarrow>
   subseq (filter (\<lambda>l. line_key l \<notin> Some ` fst ` set us) ls) (update_lines ws ls)"
proof (induction ls)
  case (Cons l ls)
  note sub = Cons.IH [OF Cons.prems]
  have ks: "fst ` set ws = fst ` set us" using encode_all_shape [OF Cons.prems] by (metis image_set)
  show ?case
  proof (cases "line_key l \<in> Some ` fst ` set us")
    case True
    then have "filter (\<lambda>l. line_key l \<notin> Some ` fst ` set us) (l # ls) = filter (\<lambda>l. line_key l \<notin> Some ` fst ` set us) ls"
      by simp
    then show ?thesis using sub list_emb_append2 [of "(=)"] by (simp only: update_lines.simps)
  next
    case False
    then have "parse_line l = Some e \<Longrightarrow> map_of ws (e_key e) = None" for e
      using ks by (auto simp: line_key_def map_of_eq_None_iff image_image)
    then have "update_line ws ls l = [l]"
      by (auto simp: update_line_def split: option.split)
    then show ?thesis using sub False by simp
  qed
qed simp

lemma pairs_of_assignments:
  assumes "encode_all us = Inr ws" "list_all fair_update us" "distinct (map fst us)"
  shows "pairs_of k (map (\<lambda>(k, v). assignment k v []) (filter (\<lambda>(k, v). k \<notin> B) ws)) =
    (case map_of us k of Some v \<Rightarrow> if k \<notin> B then [(k, v)] else [] | None \<Rightarrow> [])"
  using assms
proof (induction us arbitrary: ws)
  case (Cons u us)
  obtain k' v' where u: "u = (k', v')" by (cases u) auto
  obtain w ws' where w: "ws = (k', w) # ws'" "encode_value v' = Inr w" "encode_all us = Inr ws'"
    using Cons.prems(1) by (auto simp: u split: sum.splits)
  have f: "list_all fair_update us" "distinct (map fst us)" "valid_key k'" "k' \<notin> fst ` set us"
    using Cons.prems(2,3) by (simp_all add: u) (simp add: fair_update_def)
  obtain r where r: "parse_line (assignment k' w []) = Some \<lparr>e_key = k', e_value = v', e_comment = r\<rparr>"
    using parse_line_rewritten [OF f(3) w(2), of "[]"] by (auto simp: clean_comment_def)
  note one = pairs_of_entry [OF r, of k] and IH = Cons.IH [OF w(3) f(1,2)]
  have "pairs_of k (map (\<lambda>(k, v). assignment k v []) (filter (\<lambda>(k, v). k \<notin> B) ws)) =
      (if k' \<notin> B \<and> k' = k then [(k, v')] else []) @
      pairs_of k (map (\<lambda>(k, v). assignment k v []) (filter (\<lambda>(k, v). k \<notin> B) ws'))"
    using pairs_of_Cons [of k "assignment k' w []" "map (\<lambda>(k, v). assignment k v []) (filter (\<lambda>(k, v). k \<notin> B) ws')"]
    unfolding one by (cases "k' \<in> B") (simp_all only: w(1) filter.simps list.map prod.case if_True if_False simp_thms append_Nil)
  moreover have "map_of us k' = None" using f(4) by (simp add: map_of_eq_None_iff)
  ultimately show ?case unfolding IH by (auto simp: u split: option.split)
qed simp

lemma assignments_no_break:
  "encode_all us = Inr ws \<Longrightarrow> list_all fair_update us \<Longrightarrow>
   list_all no_break (map (\<lambda>(k, v). assignment k v []) (filter (\<lambda>(k, v). k \<notin> B) ws))"
  using key_no_break encoded_no_break
  by (induction us arbitrary: ws)
    (fastforce simp: fair_update_def assignment_def is_break_eq split: sum.splits)+

text \<open>
  Updating a file in which the trailing text of a rewritten line is a comment sets every updated key
  to exactly the value given, whatever its quoting needs, and changes what no other key reads as;
  every line that does not assign an updated key is kept, in order. Nothing is written when a
  value is refused.
\<close>

theorem env_update_correct:
  assumes "distinct (map fst us)" "list_all fair_update us"
    and "case file of None \<Rightarrow> True | Some s \<Rightarrow> list_all (updatable us) (splitlines s)"
  shows "case update_env file us of
      Inl e \<Rightarrow> e = ValueError \<and> list_ex (\<lambda>u. isl (encode_value (snd u))) us
    | Inr t \<Rightarrow>
        read_env (Some t) = (\<lambda>k. case map_of us k of Some v \<Rightarrow> Some v | None \<Rightarrow> read_env file k) \<and>
        subseq (filter (\<lambda>l. line_key l \<notin> Some ` fst ` set us)
            (case file of None \<Rightarrow> [] | Some s \<Rightarrow> splitlines s)) (splitlines t)"
proof (cases "encode_all us")
  case (Inl e)
  then have "e = ValueError \<and> list_ex (\<lambda>u. isl (encode_value (snd u))) us"
  proof (induction us)
    case (Cons u us)
    then show ?case
      by (cases u; cases "encode_value (snd u)"; cases "encode_all us")
        (auto simp: encode_value_def writable_def split: if_splits)
  qed simp
  then show ?thesis by (simp add: update_env_def Inl)
next
  case (Inr ws)
  define ls where "ls = (case file of None \<Rightarrow> [] | Some s \<Rightarrow> splitlines s)"
  define add where "add = map (\<lambda>(k, v). assignment k v []) (filter (\<lambda>(k, v). k \<notin> set (bound_keys ls)) ws)"
  define out where "out = update_lines ws ls @ add"
  have up: "list_all (updatable us) ls" "list_all no_break ls"
    using assms(3) splitlines_no_break by (auto simp: ls_def split: option.split)
  have nb: "list_all no_break out"
    unfolding out_def add_def
    using update_lines_no_break [OF Inr assms(2) up(2)] assignments_no_break [OF Inr assms(2)] by simp
  have t: "update_env file us = Inr (if out = [] then [] else join [CHR 0x0A] out @ [CHR 0x0A])"
    by (simp add: update_env_def Inr out_def add_def ls_def Let_def)
  have sl: "splitlines (if out = [] then [] else join [CHR 0x0A] out @ [CHR 0x0A]) = out"
    using splitlines_join [OF nb] by (simp add: splitlines_def)
  have rd: "read_env file k = py_dict (pairs_of k ls) k" for k
    by (auto simp: read_env_def ls_def py_dict_pairs split: option.split) (simp add: pairs_of_def py_dict_def bindings_def)
  have "py_dict (pairs_of k out) k = (case map_of us k of Some v \<Rightarrow> Some v | None \<Rightarrow> read_env file k)" for k
    unfolding out_def add_def pairs_of_simps(2) update_lines_pairs [OF Inr assms(2) up]
      pairs_of_assignments [OF Inr assms(2,1)] rd
    unfolding bound_keys_iff by (auto simp: py_dict_def split: option.split)
  then have "read_env (Some (if out = [] then [] else join [CHR 0x0A] out @ [CHR 0x0A])) =
      (\<lambda>k. case map_of us k of Some v \<Rightarrow> Some v | None \<Rightarrow> read_env file k)"
    by (intro ext) (simp only: read_env_def option.case sl py_dict_pairs [of out])
  moreover have "subseq (filter (\<lambda>l. line_key l \<notin> Some ` fst ` set us) ls) out"
    unfolding out_def using update_lines_keeps [OF Inr] by (rule list_emb_prefix)
  ultimately show ?thesis unfolding t ls_def [symmetric] by (simp add: sl)
qed

lemma env_update_witness:
  "updatable [(''A'', ''x #y''), (''C'', ''3'')] ''A=1 # one'' \<and>
   read_env (Some (''export B = 2'' @ [CHR 0x0A] @ ''A=1 # one'' @ [CHR 0x0A])) ''B'' = Some ''2'' \<and>
   (case update_env (Some (''export B = 2'' @ [CHR 0x0A] @ ''A=1 # one'' @ [CHR 0x0A]))
      [(''A'', ''x #y''), (''C'', ''3'')] of
      Inl e \<Rightarrow> False
    | Inr t \<Rightarrow> read_env (Some t) ''A'' = Some ''x #y'' \<and> read_env (Some t) ''B'' = Some ''2'' \<and>
        read_env (Some t) ''C'' = Some ''3'')"
proof -
  let ?us = "[(''A'', ''x #y''), (''C'', ''3'')]"
  let ?f = "''export B = 2'' @ [CHR 0x0A] @ ''A=1 # one'' @ [CHR 0x0A]"
  have 1: "distinct (map fst ?us)" by simp
  have 2: "list_all fair_update ?us" by code_simp
  have 3: "case Some ?f of None \<Rightarrow> True | Some s \<Rightarrow> list_all (updatable ?us) (splitlines s)" by code_simp
  have 4: "\<not> isl (update_env (Some ?f) ?us)" by code_simp
  have 5: "updatable ?us ''A=1 # one''" by code_simp
  have 6: "read_env (Some ?f) ''B'' = Some ''2''" by code_simp
  show ?thesis using env_update_correct [OF 1 2 3] 4 5 6 by (auto split: sum.splits)
qed

text \<open>
  The hypotheses are needed. A vertical tab is no newline to \<open>_writable\<close>, so it is written bare, and
  \<open>splitlines\<close> breaks the line there. Text that follows a quoted value without a space is kept as if
  it were a comment, and becomes a part of a bare value.
\<close>

lemma vertical_tab_is_lost:
  "case update_env None [(''K'', ''a'' @ [CHR 0x0B] @ ''b'')] of
     Inl e \<Rightarrow> False | Inr t \<Rightarrow> read_env (Some t) ''K'' = Some ''a''"
  by code_simp

lemma glued_comment_joins_value:
  "case update_env (Some (''K='' @ [CHR 0x22] @ ''old'' @ [CHR 0x22] @ ''#note'')) [(''K'', ''new'')] of
     Inl e \<Rightarrow> False | Inr t \<Rightarrow> read_env (Some t) ''K'' = Some ''new#note''"
  by code_simp

end
