(* ===== verification/Floats.thy ===== *)
theory Floats
  imports Prelude
begin

text \<open>
  Python's \<open>float\<close>, an IEEE 754 double: not a number, the infinities and the finite values as real
  numbers (the two zeros are one), the decoding of 32- and 64-bit patterns, and the operations the
  sources use, each the exact result rounded to the nearest double, halves to even.
\<close>

datatype flt = NaN | Inf bool | Fin real

section \<open>Rounding\<close>

text \<open>The exponent of a positive number: \<open>2 powi expo x \<le> x < 2 powi (expo x + 1)\<close>.\<close>

function expo :: "real \<Rightarrow> int" where
  "expo x =
     (if x \<le> 0 then 0 else if 2 \<le> x then expo (x / 2) + 1 else if x < 1 then expo (2 * x) - 1 else 0)"
  by auto
termination
proof (relation "measure (\<lambda>x. nat \<bar>\<lfloor>log 2 x\<rfloor>\<bar>)")
  fix x :: real
  assume x: "\<not> x \<le> 0" "2 \<le> x"
  then have "log 2 (x / 2) = log 2 x - 1" by (simp add: log_divide)
  moreover have "1 \<le> log 2 x" using x by (simp add: le_log_iff)
  ultimately show "(x / 2, x) \<in> measure (\<lambda>x. nat \<bar>\<lfloor>log 2 x\<rfloor>\<bar>)" by simp
next
  fix x :: real
  assume x: "\<not> x \<le> 0" "x < 1"
  then have "\<lfloor>log 2 (2 * x)\<rfloor> = \<lfloor>log 2 x\<rfloor> + 1" by (simp add: log_mult)
  moreover have "\<lfloor>log 2 x\<rfloor> < 0" using x by (simp add: floor_less_iff)
  then have "nat \<bar>\<lfloor>log 2 x\<rfloor> + 1\<bar> < nat \<bar>\<lfloor>log 2 x\<rfloor>\<bar>" by linarith
  ultimately show "(2 * x, x) \<in> measure (\<lambda>x. nat \<bar>\<lfloor>log 2 x\<rfloor>\<bar>)" by (simp only: in_measure)
qed simp

declare expo.simps [simp del]

text \<open>The double nearest to a real number; overflow gives an infinity.\<close>

definition rnd :: "real \<Rightarrow> flt" where
  "rnd x =
     (if x = 0 then Fin 0
      else
        let u = 2 powi (max (expo \<bar>x\<bar>) (- 1022) - 52); r = of_int (py_round (x / u)) * u in
        if 2 ^ 1024 \<le> \<bar>r\<bar> then Inf (x < 0) else Fin r)"

section \<open>Bit patterns\<close>

text \<open>A pattern of a sign, \<open>e\<close> exponent bits and \<open>m\<close> fraction bits.\<close>

definition ieee :: "nat \<Rightarrow> nat \<Rightarrow> int \<Rightarrow> flt" where
  "ieee e m w =
     (let s = w div 2 ^ (e + m) mod 2 = 1; x = w div 2 ^ m mod 2 ^ e; f = w mod 2 ^ m;
          bias = 2 ^ (e - 1) - 1;
          v = (if x = 0 then of_int f * 2 powi (1 - bias - int m)
               else of_int (2 ^ m + f) * 2 powi (x - bias - int m))
      in if x = 2 ^ e - 1 then (if f = 0 then Inf s else NaN) else Fin (if s then - v else v))"

definition float32 :: "int \<Rightarrow> flt" where "float32 = ieee 8 23"
definition float64 :: "int \<Rightarrow> flt" where "float64 = ieee 11 52"

section \<open>Operations\<close>

fun flt_add :: "flt \<Rightarrow> flt \<Rightarrow> flt" where
  "flt_add NaN b = NaN"
| "flt_add a NaN = NaN"
| "flt_add (Inf s) (Inf t) = (if s = t then Inf s else NaN)"
| "flt_add (Inf s) (Fin y) = Inf s"
| "flt_add (Fin x) (Inf t) = Inf t"
| "flt_add (Fin x) (Fin y) = rnd (x + y)"

text \<open>\<open>n / d\<close> of an integer of at most 53 bits and a positive constant.\<close>

definition int_div :: "int \<Rightarrow> real \<Rightarrow> flt" where
  "int_div n d = rnd (of_int n / d)"

text \<open>\<open>math.degrees(x)\<close>: a multiplication by the double \<open>180 / pi\<close>.\<close>

definition DEG :: real where "DEG = 8063664102031864 / 2 ^ 47"

fun degrees :: "flt \<Rightarrow> flt" where
  "degrees NaN = NaN"
| "degrees (Inf s) = Inf s"
| "degrees (Fin x) = rnd (x * DEG)"

text \<open>\<open>x % 360.0\<close>: the C remainder, which is exact, and one rounded addition when it is negative.\<close>

definition c_fmod :: "real \<Rightarrow> real \<Rightarrow> real" where
  "c_fmod x y = (if 0 \<le> x then x - y * of_int \<lfloor>x / y\<rfloor> else x - y * of_int \<lceil>x / y\<rceil>)"

fun mod_360 :: "flt \<Rightarrow> flt" where
  "mod_360 NaN = NaN"
| "mod_360 (Inf s) = NaN"
| "mod_360 (Fin x) = (let m = c_fmod x 360 in if m < 0 then rnd (m + 360) else Fin m)"

fun flt_ge :: "flt \<Rightarrow> real \<Rightarrow> bool" where
  "flt_ge NaN y = False"
| "flt_ge (Inf s) y = (\<not> s)"
| "flt_ge (Fin x) y = (y \<le> x)"

definition finite_flt :: "flt \<Rightarrow> bool" where
  "finite_flt a \<longleftrightarrow> (case a of Fin x \<Rightarrow> True | _ \<Rightarrow> False)"

section \<open>Lemmas\<close>

lemma expo_bounds: "0 < x \<Longrightarrow> 2 powi expo x \<le> x \<and> x < 2 * 2 powi expo x"
proof (induction x rule: expo.induct)
  case (1 x)
  consider "2 \<le> x" | "x < 1" | "1 \<le> x" "x < 2" by linarith
  then show ?case
  proof cases
    case 1
    then have "2 powi expo (x / 2) \<le> x / 2 \<and> x / 2 < 2 * 2 powi expo (x / 2)"
      using "1.IH"(1) by simp
    moreover have "expo x = expo (x / 2) + 1" using 1 by (subst expo.simps) simp
    ultimately show ?thesis by (simp add: power_int_add)
  next
    case 2
    then have "2 powi expo (2 * x) \<le> 2 * x \<and> 2 * x < 2 * 2 powi expo (2 * x)"
      using "1.IH"(2) "1.prems" by simp
    moreover have "expo x = expo (2 * x) - 1" using 2 "1.prems" by (subst expo.simps) simp
    ultimately show ?thesis by (simp add: power_int_diff)
  next
    case 3
    then have "expo x = 0" by (subst expo.simps) simp
    then show ?thesis using 3 by simp
  qed
qed

lemma expo_le: "0 < x \<Longrightarrow> x < 2 powi n \<Longrightarrow> expo x < n"
proof (rule ccontr)
  assume x: "0 < x" "x < 2 powi n" "\<not> expo x < n"
  then have "(2 :: real) powi n \<le> 2 powi expo x" by (intro power_int_increasing) auto
  then show False using x expo_bounds [of x] by linarith
qed

text \<open>The rounding error of a number below \<open>2 powi n\<close>, which overflows to nothing.\<close>

lemma rnd_error:
  assumes "\<bar>x\<bar> < 2 powi n" "- 1022 < n" "n \<le> 1023"
  shows "\<exists>r. rnd x = Fin r \<and> \<bar>r - x\<bar> \<le> 2 powi (n - 54)"
proof (cases "x = 0")
  case False
  define k where "k = max (expo \<bar>x\<bar>) (- 1022) - 52"
  define u :: real where "u = 2 powi k"
  define r where "r = of_int (py_round (x / u)) * u"
  have u: "0 < u" by (simp add: u_def)
  have "expo \<bar>x\<bar> < n" using expo_le [of "\<bar>x\<bar>" n] assms(1) False by simp
  then have k: "k \<le> n - 53" using assms(2) by (simp add: k_def)
  have ul: "u \<le> 2 powi (n - 53)" unfolding u_def using k by (intro power_int_increasing) auto
  have "\<bar>of_int (py_round (x / u)) - x / u\<bar> \<le> 1 / 2"
    by (auto simp: py_round_def Let_def abs_le_iff)
  then have "\<bar>of_int (py_round (x / u)) - x / u\<bar> * u \<le> 1 / 2 * u" using u by (intro mult_right_mono) auto
  moreover have "\<bar>of_int (py_round (x / u)) - x / u\<bar> * u = \<bar>r - x\<bar>"
    using u by (simp add: r_def abs_mult_pos' [symmetric] abs_mult_pos left_diff_distrib)
  moreover have "(2 :: real) powi (n - 53) = 2 * 2 powi (n - 54)"
    using power_int_add_1 [of "2 :: real" "n - 54"] by (simp add: mult.commute)
  ultimately have e: "\<bar>r - x\<bar> \<le> 2 powi (n - 54)" using ul by linarith
  have "(2 :: real) powi (n - 54) \<le> 2 powi 969" using assms(3) by (intro power_int_increasing) auto
  moreover have "(2 :: real) powi n \<le> 2 powi 1023" using assms(3) by (intro power_int_increasing) auto
  moreover have "(2 :: real) powi 969 + 2 powi 1023 < 2 ^ 1024" by simp
  ultimately have "\<bar>r\<bar> < 2 ^ 1024" using e assms(1) by linarith
  then have "rnd x = Fin r" using False by (simp add: rnd_def Let_def k_def u_def r_def)
  then show ?thesis using e by blast
qed (simp add: rnd_def)

lemma rnd_nonneg: "0 \<le> x \<Longrightarrow> rnd x = Fin r \<Longrightarrow> 0 \<le> r"
proof -
  assume x: "0 \<le> x" "rnd x = Fin r"
  define u :: real where "u = 2 powi (max (expo \<bar>x\<bar>) (- 1022) - 52)"
  have u: "0 < u" by (simp add: u_def)
  then have "0 \<le> x / u" using x(1) by simp
  then have "0 \<le> py_round (x / u)" by (simp add: py_round_def Let_def)
  then show ?thesis using x u by (auto simp: rnd_def Let_def u_def split: if_splits)
qed

lemma c_fmod_bounds:
  assumes "0 < y"
  shows "\<bar>c_fmod x y\<bar> < y" "\<exists>k. x = c_fmod x y + y * of_int k"
proof -
  have "y * (x / y) = x" using assms by simp
  moreover have "y * of_int \<lfloor>x / y\<rfloor> \<le> y * (x / y)" "y * (x / y) < y * (of_int \<lfloor>x / y\<rfloor> + 1)"
    "y * (of_int \<lceil>x / y\<rceil> - 1) < y * (x / y)" "y * (x / y) \<le> y * of_int \<lceil>x / y\<rceil>"
    using assms by (simp_all only: mult_le_cancel_left_pos mult_less_cancel_left_pos) linarith+
  ultimately have "y * of_int \<lfloor>x / y\<rfloor> \<le> x" "x < y * (of_int \<lfloor>x / y\<rfloor> + 1)"
    "y * (of_int \<lceil>x / y\<rceil> - 1) < x" "x \<le> y * of_int \<lceil>x / y\<rceil>" by simp_all
  then show "\<bar>c_fmod x y\<bar> < y" by (auto simp: c_fmod_def ring_distribs)
  show "\<exists>k. x = c_fmod x y + y * of_int k"
    by (cases "0 \<le> x") (auto simp: c_fmod_def intro: exI [of _ "\<lfloor>x / y\<rfloor>"] exI [of _ "\<lceil>x / y\<rceil>"])
qed

end
