(* ===== verification/Struct.thy ===== *)
theory Struct
  imports Floats Text "HOL-Library.Monad_Syntax"
begin

text \<open>
  Python's \<open>struct\<close> with little-endian formats: format strings, sizes and \<open>unpack_from\<close>; and a
  reader that walks a payload by formats, \<open>_Reader\<close> of \<open>src/mtrtk/rover/drivers/sbg/logs.py\<close>, whose
  \<open>_Short\<close> exception is the answer \<open>None\<close>.
\<close>

section \<open>Formats\<close>

datatype pyval = VInt int | VFlt flt | VBytes bytes

datatype item = Num char | Str nat

text \<open>The items of a format, with the repeat count read so far (0 for none; no format repeats 0 times).\<close>

fun fmt_items :: "nat \<Rightarrow> string \<Rightarrow> item list" where
  "fmt_items n [] = []"
| "fmt_items n (c # s) =
     (if is_digit c then fmt_items (10 * n + digit_value c) s
      else if c = CHR ''s'' then Str (max n 1) # fmt_items 0 s
      else replicate (max n 1) (Num c) @ fmt_items 0 s)"

fun item_size :: "item \<Rightarrow> nat" where
  "item_size (Num c) =
     (if c \<in> {CHR ''b'', CHR ''B''} then 1 else if c \<in> {CHR ''h'', CHR ''H''} then 2
      else if c \<in> {CHR ''i'', CHR ''I'', CHR ''f''} then 4 else 8)"
| "item_size (Str n) = n"

definition calcsize :: "string \<Rightarrow> nat" where
  "calcsize fmt = sum_list (map item_size (fmt_items 0 fmt))"

fun le :: "bytes \<Rightarrow> int" where
  "le [] = 0"
| "le (b # bs) = uint b + 256 * le bs"

definition to_signed :: "nat \<Rightarrow> int \<Rightarrow> int" where
  "to_signed w n = (if 2 ^ (w - 1) \<le> n then n - 2 ^ w else n)"

fun unpack_item :: "item \<Rightarrow> bytes \<Rightarrow> pyval" where
  "unpack_item (Num c) b =
     (if c = CHR ''f'' then VFlt (float32 (le b))
      else if c = CHR ''d'' then VFlt (float64 (le b))
      else if c \<in> {CHR ''b'', CHR ''h'', CHR ''i'', CHR ''q''} then VInt (to_signed (8 * length b) (le b))
      else VInt (le b))"
| "unpack_item (Str n) b = VBytes b"

fun unpack_items :: "item list \<Rightarrow> bytes \<Rightarrow> pyval list" where
  "unpack_items [] b = []"
| "unpack_items (i # is) b =
     unpack_item i (take (item_size i) b) # unpack_items is (drop (item_size i) b)"

text \<open>Reading a value whose format is known to be of the kind.\<close>

fun vint :: "pyval \<Rightarrow> int" where
  "vint (VInt n) = n"
| "vint _ = 0"

fun vflt :: "pyval \<Rightarrow> flt" where
  "vflt (VFlt x) = x"
| "vflt _ = NaN"

fun vbytes :: "pyval \<Rightarrow> bytes" where
  "vbytes (VBytes b) = b"
| "vbytes _ = []"

section \<open>The reader\<close>

record reader =
  rd_data :: bytes
  rd_off :: nat

definition reader_new :: "bytes \<Rightarrow> reader" where
  "reader_new d = \<lparr>rd_data = d, rd_off = 0\<rparr>"

definition rd_left :: "reader \<Rightarrow> nat" where
  "rd_left r = length (rd_data r) - rd_off r"

definition rd_take :: "string \<Rightarrow> reader \<Rightarrow> (pyval list \<times> reader) option" where
  "rd_take fmt r =
     (if rd_left r < calcsize fmt then None
      else Some (unpack_items (fmt_items 0 fmt) (drop (rd_off r) (rd_data r)),
                 r\<lparr>rd_off := rd_off r + calcsize fmt\<rparr>))"

definition rd_opt :: "string \<Rightarrow> reader \<Rightarrow> pyval list option \<times> reader" where
  "rd_opt fmt r =
     (if calcsize fmt \<le> rd_left r
      then (case rd_take fmt r of Some (v, r') \<Rightarrow> (Some v, r') | None \<Rightarrow> (None, r)) else (None, r))"

section \<open>Lemmas\<close>

lemma unpack_items_prefix:
  "sum_list (map item_size is) \<le> length b \<Longrightarrow> unpack_items is (b @ q) = unpack_items is b"
proof (induction "is" arbitrary: b)
  case (Cons i "is")
  then have "item_size i \<le> length b" "sum_list (map item_size is) \<le> length (drop (item_size i) b)" by simp_all
  then show ?case using Cons.IH [of "drop (item_size i) b"] by simp
qed simp

text \<open>The reader with more bytes behind it.\<close>

definition longer :: "bytes \<Rightarrow> reader \<Rightarrow> reader" where
  "longer q r = r\<lparr>rd_data := rd_data r @ q\<rparr>"

definition rd_ok :: "reader \<Rightarrow> bool" where
  "rd_ok r \<longleftrightarrow> rd_off r \<le> length (rd_data r)"

definition advance :: "nat \<Rightarrow> reader \<Rightarrow> reader" where
  "advance n r = r\<lparr>rd_off := rd_off r + n\<rparr>"

definition rd_vals :: "string \<Rightarrow> reader \<Rightarrow> pyval list" where
  "rd_vals fmt r = unpack_items (fmt_items 0 fmt) (drop (rd_off r) (rd_data r))"

lemma rd_take_eq:
  "rd_take fmt r = (if calcsize fmt \<le> rd_left r then Some (rd_vals fmt r, advance (calcsize fmt) r) else None)"
  by (simp add: rd_take_def rd_vals_def advance_def)

lemma rd_opt_eq:
  "rd_opt fmt r =
     (if calcsize fmt \<le> rd_left r then (Some (rd_vals fmt r), advance (calcsize fmt) r) else (None, r))"
  by (simp add: rd_opt_def rd_take_eq)

lemma rd_left_simps [simp]:
  "rd_left (advance n r) = rd_left r - n"
  "rd_left (reader_new p) = length p"
  "rd_ok r \<Longrightarrow> rd_left (longer q r) = rd_left r + length q"
  by (simp_all add: rd_left_def advance_def reader_new_def longer_def rd_ok_def)

lemma rd_ok_simps [simp]:
  "rd_ok (reader_new p)" "n \<le> rd_left r \<Longrightarrow> rd_ok r \<Longrightarrow> rd_ok (advance n r)"
  by (simp_all add: rd_ok_def reader_new_def advance_def rd_left_def)

lemma longer_simps [simp]:
  "longer q (advance n r) = advance n (longer q r)"
  "longer q (reader_new p) = reader_new (p @ q)"
  by (simp_all add: longer_def advance_def reader_new_def)

lemma rd_vals_longer: "rd_ok r \<Longrightarrow> calcsize fmt \<le> rd_left r \<Longrightarrow> rd_vals fmt (longer q r) = rd_vals fmt r"
  by (simp add: rd_vals_def longer_def rd_left_def rd_ok_def calcsize_def unpack_items_prefix)

lemma advance_advance [simp]: "advance m (advance n r) = advance (n + m) r"
  by (simp add: advance_def add.assoc)

lemma advance_data [simp]: "rd_data (advance n r) = rd_data r"
  by (simp add: advance_def)

lemma le_bounds: "0 \<le> le b" "le b < 2 ^ (8 * length b)"
proof (induction b)
  case (Cons x b)
  case 1
  show ?case using Cons by simp
  case 2
  have "uint x < 256" by simp
  moreover have "(2 :: int) ^ (8 * length (x # b)) = 256 * 2 ^ (8 * length b)" by (simp add: power_add)
  ultimately show ?case using Cons(2) by (simp only: le.simps)
qed simp_all

end
