(* ===== verification/SbgLogs.thy ===== *)
theory SbgLogs
  imports SbgFramer Struct Calendar
begin

text \<open>
  The sbgECom log and reply parsers, \<open>src/mtrtk/rover/drivers/sbg/logs.py\<close>: one record per message,
  one parser per layout, the dispatch tables and the properties of the records. An \<open>IntEnum\<close> or
  \<open>IntFlag\<close> member is an integer; the tables of flags are listed by name. The text of a device
  information reply is ASCII text with \<open>CHR 0xFF\<close> for each byte that is not.
\<close>

section \<open>Status bit fields\<close>

definition GeneralStatus :: "(string \<times> int) list" where
  "GeneralStatus =
     [(''MAIN_POWER_OK'', push_bit 0 1), (''IMU_POWER_OK'', push_bit 1 1), (''GPS_POWER_OK'', push_bit 2 1),
      (''SETTINGS_OK'', push_bit 3 1), (''TEMPERATURE_OK'', push_bit 4 1), (''DATALOGGER_OK'', push_bit 5 1),
      (''CPU_OK'', push_bit 6 1)]"

definition AidingStatus :: "(string \<times> int) list" where
  "AidingStatus =
     [(''GPS1_POS_RECV'', push_bit 0 1), (''GPS1_VEL_RECV'', push_bit 1 1), (''GPS1_HDT_RECV'', push_bit 2 1),
      (''GPS1_UTC_RECV'', push_bit 3 1), (''GPS2_POS_RECV'', push_bit 4 1), (''GPS2_VEL_RECV'', push_bit 5 1),
      (''GPS2_HDT_RECV'', push_bit 6 1), (''GPS2_UTC_RECV'', push_bit 7 1), (''MAG_RECV'', push_bit 8 1),
      (''ODO_RECV'', push_bit 9 1)]"

definition CLOCK_VALID :: int where "CLOCK_VALID = 3"
definition UTC_INITIALIZED :: int where "UTC_INITIALIZED = 2"

definition EkfFlags :: "(string \<times> int) list" where
  "EkfFlags =
     [(''ATTITUDE_VALID'', push_bit 4 1), (''HEADING_VALID'', push_bit 5 1), (''VELOCITY_VALID'', push_bit 6 1),
      (''POSITION_VALID'', push_bit 7 1), (''VERT_REF_USED'', push_bit 8 1), (''MAG_REF_USED'', push_bit 9 1),
      (''GPS1_VEL_USED'', push_bit 10 1), (''GPS1_POS_USED'', push_bit 11 1), (''GPS1_HDT_USED'', push_bit 13 1),
      (''GPS2_VEL_USED'', push_bit 14 1), (''GPS2_POS_USED'', push_bit 15 1), (''GPS2_HDT_USED'', push_bit 17 1),
      (''ZUPT_USED'', push_bit 26 1), (''ALIGN_VALID'', push_bit 27 1)]"

definition SOL_COMPUTED :: int where "SOL_COMPUTED = 0"
definition RTK_FLOAT :: int where "RTK_FLOAT = 6"
definition RTK_INT :: int where "RTK_INT = 7"

definition GnssSignals :: "(string \<times> int) list" where
  "GnssSignals =
     [(''GPS_L1'', push_bit 12 1), (''GPS_L2'', push_bit 13 1), (''GPS_L5'', push_bit 14 1),
      (''GLO_L1'', push_bit 15 1), (''GLO_L2'', push_bit 16 1), (''GLO_L3'', push_bit 17 1),
      (''GAL_E1'', push_bit 18 1), (''GAL_E5A'', push_bit 19 1), (''GAL_E5B'', push_bit 20 1),
      (''GAL_E5ALT'', push_bit 21 1), (''GAL_E6'', push_bit 22 1), (''BDS_B1'', push_bit 23 1),
      (''BDS_B2'', push_bit 24 1), (''BDS_B3'', push_bit 25 1), (''QZSS_L1'', push_bit 26 1),
      (''QZSS_L2'', push_bit 27 1), (''QZSS_L5'', push_bit 28 1), (''QZSS_L6'', push_bit 29 1)]"

definition TRACKING_USED :: int where "TRACKING_USED = 5"

definition IMU_GYROS_USE_HIGH_SCALE :: int where "IMU_GYROS_USE_HIGH_SCALE = push_bit 10 1"
definition HDT_BASELINE_VALID :: int where "HDT_BASELINE_VALID = push_bit 6 1"
definition SIGNAL_SNR_VALID :: int where "SIGNAL_SNR_VALID = push_bit 5 1"
definition EVENT_OVERFLOW :: int where "EVENT_OVERFLOW = push_bit 0 1"
definition SIGNALS_MASK :: int where "SIGNALS_MASK = 0x3FFFF000"
definition VERSION_SOFT_SCHEME :: int where "VERSION_SOFT_SCHEME = push_bit 31 1"
definition U8_NA :: int where "U8_NA = 0xFF"
definition U16_NA :: int where "U16_NA = 0xFFFF"

definition QUALIFIERS :: "string list" where
  "QUALIFIERS = [''dev'', ''alpha'', ''beta'', ''rc'', ''stable'', ''hotfix'']"

definition ekf_mode :: "int \<Rightarrow> int" where
  "ekf_mode status = status AND 0x0F"

definition gnss_sol_status :: "int \<Rightarrow> int" where
  "gnss_sol_status status = status AND 0x3F"

definition gnss_pos_type :: "int \<Rightarrow> int" where
  "gnss_pos_type status = drop_bit 6 status AND 0x3F"

definition decode_version :: "int \<Rightarrow> string" where
  "decode_version v =
     (if v AND VERSION_SOFT_SCHEME \<noteq> 0 then
        let q = drop_bit 28 v AND 0x07;
            qual = (if q < int (length QUALIFIERS) then QUALIFIERS ! nat q else ''q'' @ dec_int q)
        in dec_int (drop_bit 22 v AND 0x3F) @ ''.'' @ dec_int (drop_bit 16 v AND 0x3F) @ ''.'' @
           dec_int (v AND 0xFFFF) @ ''-'' @ qual
      else
        dec_int (drop_bit 24 v AND 0xFF) @ ''.'' @ dec_int (drop_bit 16 v AND 0xFF) @ ''.'' @
        dec_int (drop_bit 8 v AND 0xFF) @ ''.'' @ dec_int (v AND 0xFF))"

definition heading :: "flt \<Rightarrow> flt" where
  "heading rad = (let h = mod_360 (degrees rad) in if flt_ge h 360 then Fin 0 else h)"

definition deg3 :: "flt list \<Rightarrow> flt list" where
  "deg3 v = [degrees (v ! 0), degrees (v ! 1), degrees (v ! 2)]"

definition f3 :: "pyval list \<Rightarrow> flt list" where
  "f3 v = [vflt (v ! 0), vflt (v ! 1), vflt (v ! 2)]"

definition na :: "int \<Rightarrow> int \<Rightarrow> int option" where
  "na v sentinel = (if v = sentinel then None else Some v)"

section \<open>Messages\<close>

record sbg_status =
  st_time_stamp_us :: int
  general_status :: int
  com_status2 :: int
  com_status :: int
  aiding_status :: int
  st_uptime_s :: "int option"
  cpu_usage :: "int option"

definition st_general :: "sbg_status \<Rightarrow> int" where
  "st_general s = general_status s AND 0x7F"

definition st_aiding :: "sbg_status \<Rightarrow> int" where
  "st_aiding s = aiding_status s AND 0x3FF"

record sbg_utc_time =
  ut_time_stamp_us :: int
  ut_status :: int
  ut_year :: int
  ut_month :: int
  ut_day :: int
  ut_hour :: int
  ut_minute :: int
  ut_second :: int
  ut_nanosecond :: int
  gps_tow_ms :: int
  clk_bias_std :: "flt option"
  clk_sf_error_std :: "flt option"
  clk_residual_error :: "flt option"
  ut_utc :: "utc option"
  leap_second_event :: bool

definition clock_stable_input :: "sbg_utc_time \<Rightarrow> bool" where
  "clock_stable_input u \<longleftrightarrow> ut_status u AND 1 \<noteq> 0"

definition clock_state :: "sbg_utc_time \<Rightarrow> int" where
  "clock_state u = drop_bit 1 (ut_status u) AND 0x0F"

definition utc_sync :: "sbg_utc_time \<Rightarrow> bool" where
  "utc_sync u \<longleftrightarrow> ut_status u AND push_bit 5 1 \<noteq> 0"

definition utc_status :: "sbg_utc_time \<Rightarrow> int" where
  "utc_status u = drop_bit 6 (ut_status u) AND 0x0F"

definition utc_valid :: "sbg_utc_time \<Rightarrow> bool" where
  "utc_valid u \<longleftrightarrow> ut_utc u \<noteq> None \<and> utc_status u = UTC_INITIALIZED \<and> clock_state u = CLOCK_VALID"

record sbg_imu_short =
  is_time_stamp_us :: int
  is_status :: int
  is_accel_mps2 :: "flt list"
  is_gyro_radps :: "flt list"
  is_temperature_c :: flt

definition high_range :: "sbg_imu_short \<Rightarrow> bool" where
  "high_range m \<longleftrightarrow> is_status m AND IMU_GYROS_USE_HIGH_SCALE \<noteq> 0"

record sbg_imu_legacy =
  il_time_stamp_us :: int
  il_status :: int
  il_accel_mps2 :: "flt list"
  il_gyro_radps :: "flt list"
  il_temperature_c :: flt
  il_delta_vel :: "flt list"
  il_delta_angle :: "flt list"

text \<open>\<open>_EkfStatus\<close>, over the status word of an EKF message.\<close>

definition attitude_valid :: "int \<Rightarrow> bool" where
  "attitude_valid status \<longleftrightarrow> status AND push_bit 4 1 \<noteq> 0"

definition heading_valid :: "int \<Rightarrow> bool" where
  "heading_valid status \<longleftrightarrow> status AND push_bit 5 1 \<noteq> 0"

definition velocity_valid :: "int \<Rightarrow> bool" where
  "velocity_valid status \<longleftrightarrow> status AND push_bit 6 1 \<noteq> 0"

definition position_valid :: "int \<Rightarrow> bool" where
  "position_valid status \<longleftrightarrow> status AND push_bit 7 1 \<noteq> 0"

definition ekf_flags :: "int \<Rightarrow> int" where
  "ekf_flags status = status AND NOT 0x0F"

record sbg_ekf_euler =
  ee_time_stamp_us :: int
  ee_roll_deg :: flt
  ee_pitch_deg :: flt
  ee_heading_deg :: flt
  ee_euler_std_deg :: "flt list"
  ee_status :: int
  ee_mag_declination :: "flt option"
  ee_mag_inclination :: "flt option"

record sbg_ekf_quat =
  eq_time_stamp_us :: int
  eq_quat :: "flt list"
  eq_euler_std_deg :: "flt list"
  eq_status :: int
  eq_mag_declination :: "flt option"
  eq_mag_inclination :: "flt option"

record sbg_ekf_nav =
  en_time_stamp_us :: int
  en_vel_ned :: "flt list"
  en_vel_std_ned :: "flt list"
  en_lat :: flt
  en_lon :: flt
  en_altitude_msl :: flt
  en_undulation :: flt
  en_height_hae :: flt
  en_pos_std :: "flt list"
  en_status :: int

record sbg_gnss_pos =
  gp_gnss :: nat
  gp_time_stamp_us :: int
  gp_status :: int
  gp_tow_ms :: int
  gp_lat :: flt
  gp_lon :: flt
  gp_altitude_msl :: flt
  gp_undulation :: flt
  gp_height_hae :: flt
  gp_lat_acc :: flt
  gp_lon_acc :: flt
  gp_alt_acc :: flt
  gp_num_sv_used :: "int option"
  gp_base_station_id :: "int option"
  gp_diff_age_s :: "flt option"
  gp_num_sv_tracked :: "int option"
  gp_status_ext :: "int option"
  gp_nr_diag_reboots :: "int option"
  gp_uptime_s :: "int option"

definition gp_solution_computed :: "sbg_gnss_pos \<Rightarrow> bool" where
  "gp_solution_computed m \<longleftrightarrow> gnss_sol_status (gp_status m) = SOL_COMPUTED"

definition gp_pos_type :: "sbg_gnss_pos \<Rightarrow> int" where
  "gp_pos_type m = gnss_pos_type (gp_status m)"

definition rtk_fixed :: "sbg_gnss_pos \<Rightarrow> bool" where
  "rtk_fixed m \<longleftrightarrow> gp_pos_type m = RTK_INT"

definition rtk_float :: "sbg_gnss_pos \<Rightarrow> bool" where
  "rtk_float m \<longleftrightarrow> gp_pos_type m = RTK_FLOAT"

definition gp_signals :: "sbg_gnss_pos \<Rightarrow> int" where
  "gp_signals m = gp_status m AND SIGNALS_MASK"

record sbg_gnss_vel =
  gv_gnss :: nat
  gv_time_stamp_us :: int
  gv_status :: int
  gv_tow_ms :: int
  gv_vel_ned :: "flt list"
  gv_vel_acc :: "flt list"
  gv_course_deg :: flt
  gv_course_acc_deg :: flt

definition gv_solution_computed :: "sbg_gnss_vel \<Rightarrow> bool" where
  "gv_solution_computed m \<longleftrightarrow> gnss_sol_status (gv_status m) = SOL_COMPUTED"

definition gv_vel_type :: "sbg_gnss_vel \<Rightarrow> int" where
  "gv_vel_type m = drop_bit 6 (gv_status m) AND 0x3F"

record sbg_gnss_hdt =
  gh_gnss :: nat
  gh_time_stamp_us :: int
  gh_status :: int
  gh_tow_ms :: int
  gh_heading_deg :: flt
  gh_heading_acc_deg :: flt
  gh_pitch_deg :: flt
  gh_pitch_acc_deg :: flt
  gh_baseline_m :: "flt option"
  gh_num_sv_tracked :: "int option"
  gh_num_sv_used :: "int option"

definition gh_solution_computed :: "sbg_gnss_hdt \<Rightarrow> bool" where
  "gh_solution_computed m \<longleftrightarrow> gnss_sol_status (gh_status m) = SOL_COMPUTED"

definition baseline_valid :: "sbg_gnss_hdt \<Rightarrow> bool" where
  "baseline_valid m \<longleftrightarrow> gh_status m AND HDT_BASELINE_VALID \<noteq> 0"

record sbg_event =
  ev_channel :: string
  ev_timestamp_us :: int
  ev_status :: int
  ev_offsets_us :: "int list"

definition ev_overflow :: "sbg_event \<Rightarrow> bool" where
  "ev_overflow e \<longleftrightarrow> ev_status e AND EVENT_OVERFLOW \<noteq> 0"

record sbg_signal =
  sg_id :: int
  sg_tracking :: int
  sg_health :: int
  sg_snr :: "int option"
  sg_snr_valid :: bool

definition sg_used :: "sbg_signal \<Rightarrow> bool" where
  "sg_used s \<longleftrightarrow> sg_tracking s = TRACKING_USED"

record sbg_sat =
  sa_id :: int
  sa_constellation :: int
  sa_elevation :: int
  sa_azimuth :: int
  sa_tracking :: int
  sa_health :: int
  sa_elevation_status :: int
  sa_signals :: "sbg_signal list"

definition sa_used :: "sbg_sat \<Rightarrow> bool" where
  "sa_used s \<longleftrightarrow> sa_tracking s = TRACKING_USED"

record sbg_sat_list =
  sl_gnss :: nat
  sl_time_stamp_us :: int
  sl_sats :: "sbg_sat list"

record sbg_gnss_raw =
  gr_gnss :: nat
  gr_data :: bytes

definition has_ubx_sync :: "sbg_gnss_raw \<Rightarrow> bool" where
  "has_ubx_sync m \<longleftrightarrow> find_sub [0xB5, 0x62] (gr_data m) \<noteq> None"

record sbg_ack =
  ak_msg_id :: int
  ak_msg_class :: int
  ak_error_code :: int

definition ak_ok :: "sbg_ack \<Rightarrow> bool" where
  "ak_ok a \<longleftrightarrow> ak_error_code a = 0"

record sbg_info =
  if_product_code :: string
  if_serial_number :: int
  if_calibration_rev :: int
  if_calibration_date :: "(int \<times> int \<times> int) option"
  if_hardware_rev :: string
  if_firmware :: string
  if_firmware_raw :: int
  if_hardware_rev_raw :: int

datatype sbg_msg =
    MStatus sbg_status
  | MUtc sbg_utc_time
  | MImuShort sbg_imu_short
  | MImuLegacy sbg_imu_legacy
  | MEuler sbg_ekf_euler
  | MQuat sbg_ekf_quat
  | MNav sbg_ekf_nav
  | MPos sbg_gnss_pos
  | MVel sbg_gnss_vel
  | MHdt sbg_gnss_hdt
  | MEvent sbg_event
  | MSats sbg_sat_list
  | MRaw sbg_gnss_raw
  | MAck sbg_ack
  | MInfo sbg_info

section \<open>Parsers\<close>

definition p_status :: "reader \<Rightarrow> sbg_msg option" where
  "p_status r0 = do {
     (v, r1) \<leftarrow> rd_take ''IHHIIIH'' r0;
     let (uptime, r2) = rd_opt ''I'' r1;
     let (cpu, r3) = rd_opt ''B'' r2;
     Some (MStatus \<lparr>st_time_stamp_us = vint (v ! 0), general_status = vint (v ! 1), com_status2 = vint (v ! 2),
       com_status = vint (v ! 3), aiding_status = vint (v ! 4),
       st_uptime_s = map_option (\<lambda>u. vint (u ! 0)) uptime, cpu_usage = map_option (\<lambda>c. vint (c ! 0)) cpu\<rparr>)
   }"

text \<open>\<open>datetime(year, month, day, hour, minute, min(second, 59), max(ns, 0) // 1000, tzinfo=UTC)\<close>\<close>

definition utc_fields :: "int \<Rightarrow> int \<Rightarrow> int \<Rightarrow> int \<Rightarrow> int \<Rightarrow> int \<Rightarrow> int \<Rightarrow> utc option" where
  "utc_fields y mo d h mi s ns =
     (let us = max ns 0 div 1000 in
      if us \<le> 999999 then map_option (\<lambda>t. t + us) (mk_datetime y mo d h mi (min s 59)) else None)"

definition p_utc :: "reader \<Rightarrow> sbg_msg option" where
  "p_utc r0 = do {
     (v, r1) \<leftarrow> rd_take ''IHHbbbbbiI'' r0;
     let (clk, r2) = rd_opt ''fff'' r1;
     Some (MUtc \<lparr>ut_time_stamp_us = vint (v ! 0), ut_status = vint (v ! 1), ut_year = vint (v ! 2),
       ut_month = vint (v ! 3), ut_day = vint (v ! 4), ut_hour = vint (v ! 5), ut_minute = vint (v ! 6),
       ut_second = vint (v ! 7), ut_nanosecond = vint (v ! 8), gps_tow_ms = vint (v ! 9),
       clk_bias_std = map_option (\<lambda>c. vflt (c ! 0)) clk,
       clk_sf_error_std = map_option (\<lambda>c. vflt (c ! 1)) clk,
       clk_residual_error = map_option (\<lambda>c. vflt (c ! 2)) clk,
       ut_utc = utc_fields (vint (v ! 2)) (vint (v ! 3)) (vint (v ! 4)) (vint (v ! 5)) (vint (v ! 6))
         (vint (v ! 7)) (vint (v ! 8)),
       leap_second_event = (vint (v ! 7) = 60)\<rparr>)
   }"

definition ACCEL_LSB :: real where "ACCEL_LSB = 1048576"
definition GYRO_LSB_STD :: real where "GYRO_LSB_STD = 67108864"
definition GYRO_LSB_HIGH :: real where "GYRO_LSB_HIGH = 12304174"
definition TEMP_LSB :: real where "TEMP_LSB = 256"

definition p_imu_short :: "reader \<Rightarrow> sbg_msg option" where
  "p_imu_short r0 = do {
     (v, r1) \<leftarrow> rd_take ''IH3i3ih'' r0;
     let gyro_lsb = (if vint (v ! 1) AND IMU_GYROS_USE_HIGH_SCALE \<noteq> 0 then GYRO_LSB_HIGH else GYRO_LSB_STD);
     Some (MImuShort \<lparr>is_time_stamp_us = vint (v ! 0), is_status = vint (v ! 1),
       is_accel_mps2 = [int_div (vint (v ! 2)) ACCEL_LSB, int_div (vint (v ! 3)) ACCEL_LSB, int_div (vint (v ! 4)) ACCEL_LSB],
       is_gyro_radps = [int_div (vint (v ! 5)) gyro_lsb, int_div (vint (v ! 6)) gyro_lsb, int_div (vint (v ! 7)) gyro_lsb],
       is_temperature_c = int_div (vint (v ! 8)) TEMP_LSB\<rparr>)
   }"

definition p_imu_legacy :: "reader \<Rightarrow> sbg_msg option" where
  "p_imu_legacy r0 = do {
     (v, r1) \<leftarrow> rd_take ''IH3f3ff3f3f'' r0;
     Some (MImuLegacy \<lparr>il_time_stamp_us = vint (v ! 0), il_status = vint (v ! 1), il_accel_mps2 = f3 (drop 2 v),
       il_gyro_radps = f3 (drop 5 v), il_temperature_c = vflt (v ! 8), il_delta_vel = f3 (drop 9 v),
       il_delta_angle = f3 (drop 12 v)\<rparr>)
   }"

definition mag_tail :: "reader \<Rightarrow> flt option \<times> flt option" where
  "mag_tail r =
     (case rd_opt ''ff'' r of
        (Some tail, _) \<Rightarrow> (Some (degrees (vflt (tail ! 0))), Some (degrees (vflt (tail ! 1))))
      | (None, _) \<Rightarrow> (None, None))"

definition p_ekf_euler :: "reader \<Rightarrow> sbg_msg option" where
  "p_ekf_euler r0 = do {
     (v, r1) \<leftarrow> rd_take ''I3f3fI'' r0;
     let (decl, incl) = mag_tail r1;
     Some (MEuler \<lparr>ee_time_stamp_us = vint (v ! 0), ee_roll_deg = degrees (vflt (v ! 1)),
       ee_pitch_deg = degrees (vflt (v ! 2)), ee_heading_deg = heading (vflt (v ! 3)),
       ee_euler_std_deg = deg3 (f3 (drop 4 v)), ee_status = vint (v ! 7),
       ee_mag_declination = decl, ee_mag_inclination = incl\<rparr>)
   }"

definition p_ekf_quat :: "reader \<Rightarrow> sbg_msg option" where
  "p_ekf_quat r0 = do {
     (v, r1) \<leftarrow> rd_take ''I4f3fI'' r0;
     let (decl, incl) = mag_tail r1;
     Some (MQuat \<lparr>eq_time_stamp_us = vint (v ! 0),
       eq_quat = [vflt (v ! 1), vflt (v ! 2), vflt (v ! 3), vflt (v ! 4)],
       eq_euler_std_deg = deg3 (f3 (drop 5 v)), eq_status = vint (v ! 8),
       eq_mag_declination = decl, eq_mag_inclination = incl\<rparr>)
   }"

definition p_ekf_nav :: "reader \<Rightarrow> sbg_msg option" where
  "p_ekf_nav r0 = do {
     (v, r1) \<leftarrow> rd_take ''I3f3f3df3fI'' r0;
     let alt = vflt (v ! 9);
     let und = vflt (v ! 10);
     Some (MNav \<lparr>en_time_stamp_us = vint (v ! 0), en_vel_ned = f3 (drop 1 v), en_vel_std_ned = f3 (drop 4 v),
       en_lat = vflt (v ! 7), en_lon = vflt (v ! 8), en_altitude_msl = alt, en_undulation = und,
       en_height_hae = flt_add alt und, en_pos_std = f3 (drop 11 v), en_status = vint (v ! 14)\<rparr>)
   }"

text \<open>The three optional tails of a GNSS position, each read only after the one before it.\<close>

definition pos_tail3 :: "reader \<Rightarrow> int option \<times> int option" where
  "pos_tail3 r =
     (case rd_opt ''BI'' r of
        (Some v56, _) \<Rightarrow> (Some (vint (v56 ! 0)), Some (vint (v56 ! 1)))
      | (None, _) \<Rightarrow> (None, None))"

definition pos_tail2 :: "reader \<Rightarrow> int option \<times> int option \<times> int option \<times> int option" where
  "pos_tail2 r =
     (case rd_opt ''BI'' r of
        (Some v45, r') \<Rightarrow> (na (vint (v45 ! 0)) U8_NA, Some (vint (v45 ! 1)), pos_tail3 r')
      | (None, _) \<Rightarrow> (None, None, None, None))"

definition pos_tail1 ::
  "reader \<Rightarrow> int option \<times> int option \<times> flt option \<times> int option \<times> int option \<times> int option \<times> int option" where
  "pos_tail1 r =
     (case rd_opt ''BHH'' r of
        (Some v40, r') \<Rightarrow>
          (na (vint (v40 ! 0)) U8_NA, na (vint (v40 ! 1)) U16_NA,
           (if vint (v40 ! 2) = U16_NA then None else Some (int_div (vint (v40 ! 2)) 100)), pos_tail2 r')
      | (None, _) \<Rightarrow> (None, None, None, None, None, None, None))"

definition p_gnss_pos :: "nat \<Rightarrow> reader \<Rightarrow> sbg_msg option" where
  "p_gnss_pos gnss r0 = do {
     (v, r1) \<leftarrow> rd_take ''IIIdddffff'' r0;
     let (sv_used, base_id, age, sv_tracked, status_ext, reboots, uptime) = pos_tail1 r1;
     let alt = vflt (v ! 5);
     let und = vflt (v ! 6);
     Some (MPos \<lparr>gp_gnss = gnss, gp_time_stamp_us = vint (v ! 0), gp_status = vint (v ! 1), gp_tow_ms = vint (v ! 2),
       gp_lat = vflt (v ! 3), gp_lon = vflt (v ! 4), gp_altitude_msl = alt, gp_undulation = und,
       gp_height_hae = flt_add alt und, gp_lat_acc = vflt (v ! 7), gp_lon_acc = vflt (v ! 8), gp_alt_acc = vflt (v ! 9),
       gp_num_sv_used = sv_used, gp_base_station_id = base_id, gp_diff_age_s = age, gp_num_sv_tracked = sv_tracked,
       gp_status_ext = status_ext, gp_nr_diag_reboots = reboots, gp_uptime_s = uptime\<rparr>)
   }"

definition p_gnss_vel :: "nat \<Rightarrow> reader \<Rightarrow> sbg_msg option" where
  "p_gnss_vel gnss r0 = do {
     (v, r1) \<leftarrow> rd_take ''III3f3fff'' r0;
     Some (MVel \<lparr>gv_gnss = gnss, gv_time_stamp_us = vint (v ! 0), gv_status = vint (v ! 1), gv_tow_ms = vint (v ! 2),
       gv_vel_ned = f3 (drop 3 v), gv_vel_acc = f3 (drop 6 v), gv_course_deg = vflt (v ! 9),
       gv_course_acc_deg = vflt (v ! 10)\<rparr>)
   }"

definition p_gnss_hdt :: "nat \<Rightarrow> reader \<Rightarrow> sbg_msg option" where
  "p_gnss_hdt gnss r0 = do {
     (v, r1) \<leftarrow> rd_take ''IHIffff'' r0;
     let (baseline, r2) = rd_opt ''f'' r1;
     let (tracked, r3) = rd_opt ''B'' r2;
     let (used, r4) = rd_opt ''B'' r3;
     Some (MHdt \<lparr>gh_gnss = gnss, gh_time_stamp_us = vint (v ! 0), gh_status = vint (v ! 1), gh_tow_ms = vint (v ! 2),
       gh_heading_deg = vflt (v ! 3), gh_heading_acc_deg = vflt (v ! 4), gh_pitch_deg = vflt (v ! 5),
       gh_pitch_acc_deg = vflt (v ! 6), gh_baseline_m = map_option (\<lambda>b. vflt (b ! 0)) baseline,
       gh_num_sv_tracked = Option.bind tracked (\<lambda>t. na (vint (t ! 0)) U8_NA),
       gh_num_sv_used = Option.bind used (\<lambda>u. na (vint (u ! 0)) U8_NA)\<rparr>)
   }"

definition p_event :: "string \<Rightarrow> reader \<Rightarrow> sbg_msg option" where
  "p_event channel r0 = do {
     (v, r1) \<leftarrow> rd_take ''IHHHHH'' r0;
     let status = vint (v ! 1);
     let offsets = map vint (drop 2 v);
     let valid = map snd (filter (\<lambda>(i, off). status AND push_bit (i + 1) 1 \<noteq> 0) (enumerate 0 offsets));
     Some (MEvent \<lparr>ev_channel = channel, ev_timestamp_us = vint (v ! 0), ev_status = status, ev_offsets_us = valid\<rparr>)
   }"

fun rd_signals :: "nat \<Rightarrow> reader \<Rightarrow> (sbg_signal list \<times> reader) option" where
  "rd_signals 0 r = Some ([], r)"
| "rd_signals (Suc n) r = do {
     (v, r1) \<leftarrow> rd_take ''BBB'' r;
     let gflags = vint (v ! 1);
     let snr_valid = (gflags AND SIGNAL_SNR_VALID \<noteq> 0);
     (ss, r2) \<leftarrow> rd_signals n r1;
     Some (\<lparr>sg_id = vint (v ! 0), sg_tracking = gflags AND 0x07, sg_health = drop_bit 3 gflags AND 0x03,
       sg_snr = (if snr_valid then Some (vint (v ! 2)) else None), sg_snr_valid = snr_valid\<rparr> # ss, r2)
   }"

fun rd_sats :: "nat \<Rightarrow> reader \<Rightarrow> (sbg_sat list \<times> reader) option" where
  "rd_sats 0 r = Some ([], r)"
| "rd_sats (Suc n) r = do {
     (v, r1) \<leftarrow> rd_take ''BbHHB'' r;
     let flags = vint (v ! 3);
     (signals, r2) \<leftarrow> rd_signals (nat (vint (v ! 4))) r1;
     (ss, r3) \<leftarrow> rd_sats n r2;
     Some (\<lparr>sa_id = vint (v ! 0), sa_constellation = drop_bit 7 flags AND 0x0F, sa_elevation = vint (v ! 1),
       sa_azimuth = vint (v ! 2), sa_tracking = flags AND 0x07, sa_health = drop_bit 3 flags AND 0x03,
       sa_elevation_status = drop_bit 5 flags AND 0x03, sa_signals = signals\<rparr> # ss, r3)
   }"

definition p_sat_list :: "nat \<Rightarrow> reader \<Rightarrow> sbg_msg option" where
  "p_sat_list gnss r0 = do {
     (v, r1) \<leftarrow> rd_take ''IIB'' r0;
     (sats, r2) \<leftarrow> rd_sats (nat (vint (v ! 2))) r1;
     Some (MSats \<lparr>sl_gnss = gnss, sl_time_stamp_us = vint (v ! 0), sl_sats = sats\<rparr>)
   }"

definition p_raw :: "nat \<Rightarrow> reader \<Rightarrow> sbg_msg option" where
  "p_raw gnss r = Some (MRaw \<lparr>gr_gnss = gnss, gr_data = rd_data r\<rparr>)"

definition p_ack :: "reader \<Rightarrow> sbg_msg option" where
  "p_ack r0 = do {
     (v, r1) \<leftarrow> rd_take ''BBH'' r0;
     Some (MAck \<lparr>ak_msg_id = vint (v ! 0), ak_msg_class = vint (v ! 1), ak_error_code = vint (v ! 2)\<rparr>)
   }"

definition p_info :: "reader \<Rightarrow> sbg_msg option" where
  "p_info r0 = do {
     (code, r1) \<leftarrow> rd_take ''32s'' r0;
     (v, r2) \<leftarrow> rd_take ''IIHBBII'' r1;
     let (year, month, day) = (vint (v ! 2), vint (v ! 3), vint (v ! 4));
     Some (MInfo \<lparr>if_product_code = strip_str (decode_ascii_replace (before_first 0 (vbytes (code ! 0)))),
       if_serial_number = vint (v ! 0), if_calibration_rev = vint (v ! 1),
       if_calibration_date = (if valid_date year month day then Some (year, month, day) else None),
       if_hardware_rev = decode_version (vint (v ! 5)), if_firmware = decode_version (vint (v ! 6)),
       if_firmware_raw = vint (v ! 6), if_hardware_rev_raw = vint (v ! 5)\<rparr>)
   }"

section \<open>Dispatch\<close>

definition log_id :: "string \<Rightarrow> int" where
  "log_id name = the (py_dict SBG_LOG name)"

definition LOG_PARSERS :: "(int \<times> (reader \<Rightarrow> sbg_msg option)) list" where
  "LOG_PARSERS =
     [(log_id ''STATUS'', p_status), (log_id ''UTC_TIME'', p_utc), (log_id ''IMU_DATA'', p_imu_legacy),
      (log_id ''IMU_SHORT'', p_imu_short), (log_id ''EKF_EULER'', p_ekf_euler),
      (log_id ''EKF_QUAT'', p_ekf_quat), (log_id ''EKF_NAV'', p_ekf_nav),
      (log_id ''GPS1_POS'', p_gnss_pos 1), (log_id ''GPS2_POS'', p_gnss_pos 2),
      (log_id ''GPS1_VEL'', p_gnss_vel 1), (log_id ''GPS2_VEL'', p_gnss_vel 2),
      (log_id ''GPS1_HDT'', p_gnss_hdt 1), (log_id ''GPS2_HDT'', p_gnss_hdt 2),
      (log_id ''GPS1_SAT'', p_sat_list 1), (log_id ''GPS2_SAT'', p_sat_list 2),
      (log_id ''GPS1_RAW'', p_raw 1), (log_id ''GPS2_RAW'', p_raw 2)] @
     map (\<lambda>c. (log_id (''EVENT_'' @ [c]), p_event [c])) ''ABCDE'' @
     [(log_id ''EVENT_OUT_A'', p_event ''OUT_A''), (log_id ''EVENT_OUT_B'', p_event ''OUT_B'')]"

definition CMD_PARSERS :: "(int \<times> (reader \<Rightarrow> sbg_msg option)) list" where
  "CMD_PARSERS = [(the (py_dict SBG_CMD ''ACK''), p_ack), (the (py_dict SBG_CMD ''INFO''), p_info)]"

definition BY_CLASS :: "(int \<times> (int \<times> (reader \<Rightarrow> sbg_msg option)) list) list" where
  "BY_CLASS = [(the (sbg_class_of ''LOG_ECOM_0''), LOG_PARSERS), (the (sbg_class_of ''CMD_0''), CMD_PARSERS)]"

definition parse_payload :: "int \<Rightarrow> int \<Rightarrow> bytes \<Rightarrow> sbg_msg option" where
  "parse_payload msg_class msg_id pl =
     (case py_dict BY_CLASS msg_class of
        None \<Rightarrow> None
      | Some parsers \<Rightarrow>
          (case py_dict parsers msg_id of None \<Rightarrow> None | Some fn \<Rightarrow> fn (reader_new pl)))"

text \<open>\<open>parse\<close>, for a frame of at least four bytes.\<close>

definition parse_frame :: "frame \<Rightarrow> py_error + sbg_msg option" where
  "parse_frame f =
     (case (byte_at (fr_raw f) 3, byte_at (fr_raw f) 2, payload f) of
        (Inr c, Inr i, Inr pl) \<Rightarrow> Inr (parse_payload (uint c) (uint i) pl)
      | _ \<Rightarrow> Inl IndexError)"

end
