(* ===== verification/SbgLogLaws.thy ===== *)
theory SbgLogLaws
  imports SbgLogs
begin

text \<open>
  What the sbgECom parsers of \<open>SbgLogs\<close> guarantee: which payloads they accept, that the bytes a later
  firmware appends change nothing already read, that satellite lists are read back field by field,
  and that a heading is in range.
\<close>

section \<open>Which payloads parse\<close>

lemma sizes [simp]:
  "calcsize ''IHHIIIH'' = 22" "calcsize ''I'' = 4" "calcsize ''B'' = 1" "calcsize ''IHHbbbbbiI'' = 21"
  "calcsize ''fff'' = 12" "calcsize ''IH3i3ih'' = 32" "calcsize ''IH3f3ff3f3f'' = 58" "calcsize ''ff'' = 8"
  "calcsize ''I3f3fI'' = 32" "calcsize ''I4f3fI'' = 36" "calcsize ''I3f3f3df3fI'' = 72"
  "calcsize ''BI'' = 5" "calcsize ''BHH'' = 5" "calcsize ''IIIdddffff'' = 52" "calcsize ''III3f3fff'' = 44"
  "calcsize ''IHIffff'' = 26" "calcsize ''f'' = 4" "calcsize ''IHHHHH'' = 14" "calcsize ''BBB'' = 3"
  "calcsize ''BbHHB'' = 7" "calcsize ''IIB'' = 9" "calcsize ''BBH'' = 4" "calcsize ''32s'' = 32"
  "calcsize ''IIHBBII'' = 20"
  by code_simp+

lemma log_ids:
  "log_id ''STATUS'' = 1" "log_id ''UTC_TIME'' = 2" "log_id ''IMU_DATA'' = 3" "log_id ''IMU_SHORT'' = 44"
  "log_id ''EKF_EULER'' = 6" "log_id ''EKF_QUAT'' = 7" "log_id ''EKF_NAV'' = 8" "log_id ''GPS1_POS'' = 14"
  "log_id ''GPS2_POS'' = 17" "log_id ''GPS1_VEL'' = 13" "log_id ''GPS2_VEL'' = 16" "log_id ''GPS1_HDT'' = 15"
  "log_id ''GPS2_HDT'' = 18" "log_id ''GPS1_SAT'' = 50" "log_id ''GPS2_SAT'' = 51" "log_id ''GPS1_RAW'' = 31"
  "log_id ''GPS2_RAW'' = 38" "log_id ''EVENT_A'' = 24" "log_id ''EVENT_B'' = 25" "log_id ''EVENT_C'' = 26"
  "log_id ''EVENT_D'' = 27" "log_id ''EVENT_E'' = 28" "log_id ''EVENT_OUT_A'' = 45" "log_id ''EVENT_OUT_B'' = 46"
  by (simp_all add: log_id_def py_dict_def SBG_LOG_def)

lemma parse_payload_eq:
  "parse_payload c i pl =
     (case map_of (if c = 0 then rev LOG_PARSERS else if c = 16 then rev CMD_PARSERS else []) i of
        None \<Rightarrow> None | Some fn \<Rightarrow> fn (reader_new pl))"
  by (simp add: parse_payload_def BY_CLASS_def sbg_class_of_def SBG_CLASS_def py_dict_def)

lemma CMD_PARSERS_eq: "CMD_PARSERS = [(0, p_ack), (4, p_info)]"
  by (simp add: CMD_PARSERS_def SBG_CMD_def py_dict_def)

text \<open>The shortest payload of every message whose length is fixed but for its optional tail.\<close>

definition min_length :: "int \<Rightarrow> int \<Rightarrow> nat option" where
  "min_length c i =
     (if c = 0 then
        map_of [(1, 22), (2, 21), (3, 58), (44, 32), (6, 32), (7, 36), (8, 72), (14, 52), (17, 52), (13, 44), (16, 44),
          (15, 26), (18, 26), (31, 0), (38, 0), (24, 14), (25, 14), (26, 14), (27, 14), (28, 14), (45, 14), (46, 14)] i
      else if c = 16 then map_of [(0, 4), (4, 52)] i else None)"

lemma bind_if: "Option.bind (if b then Some x else None) f = (if b then f x else None)"
  by simp

lemmas parser_defs =
  p_status_def p_utc_def p_imu_legacy_def p_imu_short_def p_ekf_euler_def p_ekf_quat_def p_ekf_nav_def
  p_gnss_pos_def p_gnss_vel_def p_gnss_hdt_def p_event_def p_raw_def p_ack_def p_info_def

lemma parser_succeeds:
  "p_status r \<noteq> None \<longleftrightarrow> 22 \<le> rd_left r" "p_utc r \<noteq> None \<longleftrightarrow> 21 \<le> rd_left r"
  "p_imu_legacy r \<noteq> None \<longleftrightarrow> 58 \<le> rd_left r" "p_imu_short r \<noteq> None \<longleftrightarrow> 32 \<le> rd_left r"
  "p_ekf_euler r \<noteq> None \<longleftrightarrow> 32 \<le> rd_left r" "p_ekf_quat r \<noteq> None \<longleftrightarrow> 36 \<le> rd_left r"
  "p_ekf_nav r \<noteq> None \<longleftrightarrow> 72 \<le> rd_left r" "p_gnss_pos g r \<noteq> None \<longleftrightarrow> 52 \<le> rd_left r"
  "p_gnss_vel g r \<noteq> None \<longleftrightarrow> 44 \<le> rd_left r" "p_gnss_hdt g r \<noteq> None \<longleftrightarrow> 26 \<le> rd_left r"
  "p_event ch r \<noteq> None \<longleftrightarrow> 14 \<le> rd_left r" "p_raw g r \<noteq> None \<longleftrightarrow> 0 \<le> rd_left r"
  "p_ack r \<noteq> None \<longleftrightarrow> 4 \<le> rd_left r" "p_info r \<noteq> None \<longleftrightarrow> 52 \<le> rd_left r"
  by (auto simp: parser_defs rd_take_eq rd_opt_eq Let_def split: prod.split)

text \<open>Whether \<open>n\<close> satellite records fit in the bytes, each with its own number of signals.\<close>

fun sats_fit :: "nat \<Rightarrow> bytes \<Rightarrow> bool" where
  "sats_fit 0 b = True"
| "sats_fit (Suc n) b =
     (7 \<le> length b \<and> 7 + 3 * unat (b ! 6) \<le> length b \<and> sats_fit n (drop (7 + 3 * unat (b ! 6)) b))"

lemma nat_uint [simp]: "nat (uint (b :: byte)) = unat b"
  by simp

lemma u8_at: "k < length b \<Longrightarrow> le (take 1 (drop k b)) = uint (b ! k)"
  by (simp add: take_Suc hd_drop_conv_nth)

lemma nsig_val: "7 \<le> rd_left r \<Longrightarrow> vint (rd_vals ''BbHHB'' r ! 4) = uint (drop (rd_off r) (rd_data r) ! 6)"
  using u8_at [of 6 "drop (rd_off r) (rd_data r)"]
  by (simp add: rd_vals_def rd_left_def is_digit_def add.commute eval_nat_numeral)

lemma count_val: "9 \<le> rd_left r \<Longrightarrow> vint (rd_vals ''IIB'' r ! 2) = uint (drop (rd_off r) (rd_data r) ! 8)"
  using u8_at [of 8 "drop (rd_off r) (rd_data r)"]
  by (simp add: rd_vals_def rd_left_def is_digit_def add.commute)

lemma rd_signals_spec:
  "rd_ok r \<Longrightarrow> (\<exists>ss. rd_signals n r = Some (ss, advance (3 * n) r)) \<longleftrightarrow> 3 * n \<le> rd_left r"
  "rd_ok r \<Longrightarrow> rd_signals n r \<noteq> None \<longleftrightarrow> 3 * n \<le> rd_left r"
  "rd_ok r \<Longrightarrow> rd_signals n r = Some (ss, r') \<Longrightarrow> r' = advance (3 * n) r \<and> length ss = n"
proof (induction n arbitrary: r ss r')
  case 0
  {
    case 1
    show ?case by (simp add: advance_def)
  next
    case 2
    show ?case by simp
  next
    case 3
    then show ?case by (simp add: advance_def)
  }
next
  case (Suc n)
  {
    case 1
    note IH = Suc.IH [of "advance 3 r"]
    show ?case
    proof (cases "3 \<le> rd_left r")
      case True
      then have ok: "rd_ok (advance 3 r)" using 1 by simp
      have "3 * n \<le> rd_left r - 3 \<longleftrightarrow> 3 * Suc n \<le> rd_left r" using True by auto
      moreover have "rd_signals n (advance 3 r) = Some (a, b) \<Longrightarrow> b = advance (3 * Suc n) r" for a b
        using IH(3) [OF ok, of a b] by simp
      ultimately show ?thesis using IH(1) [OF ok] True
        by (auto simp: rd_take_eq Let_def split: bind_splits)
    qed (simp add: rd_take_eq)
  next
    case 2
    then show ?case using Suc.IH(2) [of "advance 3 r"]
      by (cases "3 \<le> rd_left r") (auto simp: rd_take_eq Let_def split: bind_splits)
  next
    case 3
    then show ?case using Suc.IH(3) [of "advance 3 r"]
      by (cases "3 \<le> rd_left r") (auto simp: rd_take_eq Let_def split: bind_splits)
  }
qed

lemma rd_sats_fit:
  "rd_ok r \<Longrightarrow> rd_sats n r \<noteq> None \<longleftrightarrow> sats_fit n (drop (rd_off r) (rd_data r))"
proof (induction n arbitrary: r)
  case (Suc n)
  let ?b = "drop (rd_off r) (rd_data r)"
  show ?case
  proof (cases "7 \<le> rd_left r")
    case True
    let ?k = "unat (?b ! 6)"
    have ok: "rd_ok (advance 7 r)" using True Suc.prems by simp
    note sp = rd_signals_spec [OF ok, of ?k]
    show ?thesis
    proof (cases "3 * ?k \<le> rd_left (advance 7 r)")
      case fit: True
      then obtain ss where ss: "rd_signals ?k (advance 7 r) = Some (ss, advance (7 + 3 * ?k) r)"
        using sp(1) by auto
      have "rd_ok (advance (7 + 3 * ?k) r)" using fit True Suc.prems by simp
      then have "rd_sats n (advance (7 + 3 * ?k) r) \<noteq> None \<longleftrightarrow>
          sats_fit n (drop (7 + 3 * ?k) ?b)"
        using Suc.IH by (simp add: advance_def add.commute)
      moreover have "rd_sats (Suc n) r \<noteq> None \<longleftrightarrow> rd_sats n (advance (7 + 3 * ?k) r) \<noteq> None"
        using True by (auto simp: rd_take_eq Let_def nsig_val ss split: bind_splits)
      moreover have "7 \<le> length ?b" "7 + 3 * ?k \<le> length ?b"
        using fit True by (auto simp: rd_left_def advance_def)
      ultimately show ?thesis unfolding sats_fit.simps by blast
    next
      case False
      then have "rd_signals ?k (advance 7 r) = None" using sp(2) by blast
      then have "rd_sats (Suc n) r = None" using True by (simp add: rd_take_eq Let_def nsig_val)
      moreover have "\<not> 7 + 3 * ?k \<le> length ?b" using False by (auto simp: rd_left_def advance_def)
      ultimately show ?thesis unfolding sats_fit.simps by blast
    qed
  qed (simp add: rd_take_eq rd_left_def)
qed simp

lemma sat_list_succeeds:
  "p_sat_list g (reader_new pl) \<noteq> None \<longleftrightarrow> 9 \<le> length pl \<and> sats_fit (unat (pl ! 8)) (drop 9 pl)"
proof (cases "9 \<le> length pl")
  case True
  have "rd_ok (advance 9 (reader_new pl))" using True by simp
  note f = rd_sats_fit [OF this, of "unat (pl ! 8)"]
  have c: "vint (rd_vals ''IIB'' (reader_new pl) ! 2) = uint (pl ! 8)"
    using True count_val [of "reader_new pl"] by simp (simp add: reader_new_def)
  have "p_sat_list g (reader_new pl) \<noteq> None \<longleftrightarrow> rd_sats (unat (pl ! 8)) (advance 9 (reader_new pl)) \<noteq> None"
    using True c by (auto simp: p_sat_list_def rd_take_eq split: bind_splits)
  then show ?thesis using f True by (simp add: reader_new_def advance_def)
qed (simp add: p_sat_list_def rd_take_eq)

text \<open>
  C19. A payload parses exactly when its class and id are handled and it holds the mandatory part of its
  layout, in a satellite list every announced record; nothing else makes a parser fail, and nothing
  raises.
\<close>

theorem sbg_parse_exact:
  "parse_payload c i pl \<noteq> None \<longleftrightarrow>
     (if c = 0 \<and> i \<in> {50, 51} then 9 \<le> length pl \<and> sats_fit (unat (pl ! 8)) (drop 9 pl)
      else case min_length c i of None \<Rightarrow> False | Some n \<Rightarrow> n \<le> length pl)"
proof -
  consider "c = 0" | "c = 16" | "c \<noteq> 0" "c \<noteq> 16" by blast
  then show ?thesis
  proof cases
    case 1
    then show ?thesis
      using parser_succeeds sat_list_succeeds [of _ pl]
      by (simp add: parse_payload_eq LOG_PARSERS_def log_ids min_length_def)
  next
    case 2
    then show ?thesis
      using parser_succeeds(13,14)
      by (simp add: parse_payload_eq CMD_PARSERS_eq min_length_def)
  next
    case 3
    then show ?thesis by (simp add: parse_payload_eq min_length_def)
  qed
qed

section \<open>Bytes that later firmware appends\<close>

definition le_opt :: "'a option \<Rightarrow> 'a option \<Rightarrow> bool" where
  "le_opt a b \<longleftrightarrow> a = None \<or> a = b"

text \<open>A message without its optional tail, and the tail.\<close>

fun forget :: "sbg_msg \<Rightarrow> sbg_msg" where
  "forget (MStatus s) = MStatus (s\<lparr>st_uptime_s := None, cpu_usage := None\<rparr>)"
| "forget (MUtc u) = MUtc (u\<lparr>clk_bias_std := None, clk_sf_error_std := None, clk_residual_error := None\<rparr>)"
| "forget (MEuler m) = MEuler (m\<lparr>ee_mag_declination := None, ee_mag_inclination := None\<rparr>)"
| "forget (MQuat m) = MQuat (m\<lparr>eq_mag_declination := None, eq_mag_inclination := None\<rparr>)"
| "forget (MPos m) = MPos (m\<lparr>gp_num_sv_used := None, gp_base_station_id := None, gp_diff_age_s := None,
     gp_num_sv_tracked := None, gp_status_ext := None, gp_nr_diag_reboots := None, gp_uptime_s := None\<rparr>)"
| "forget (MHdt m) = MHdt (m\<lparr>gh_baseline_m := None, gh_num_sv_tracked := None, gh_num_sv_used := None\<rparr>)"
| "forget m = m"

fun tail_of :: "sbg_msg \<Rightarrow> pyval option list" where
  "tail_of (MStatus s) = [map_option VInt (st_uptime_s s), map_option VInt (cpu_usage s)]"
| "tail_of (MUtc u) =
     [map_option VFlt (clk_bias_std u), map_option VFlt (clk_sf_error_std u), map_option VFlt (clk_residual_error u)]"
| "tail_of (MEuler m) = [map_option VFlt (ee_mag_declination m), map_option VFlt (ee_mag_inclination m)]"
| "tail_of (MQuat m) = [map_option VFlt (eq_mag_declination m), map_option VFlt (eq_mag_inclination m)]"
| "tail_of (MPos m) =
     [map_option VInt (gp_num_sv_used m), map_option VInt (gp_base_station_id m), map_option VFlt (gp_diff_age_s m),
      map_option VInt (gp_num_sv_tracked m), map_option VInt (gp_status_ext m), map_option VInt (gp_nr_diag_reboots m),
      map_option VInt (gp_uptime_s m)]"
| "tail_of (MHdt m) =
     [map_option VFlt (gh_baseline_m m), map_option VInt (gh_num_sv_tracked m), map_option VInt (gh_num_sv_used m)]"
| "tail_of m = []"

definition extended :: "sbg_msg \<Rightarrow> sbg_msg \<Rightarrow> bool" where
  "extended m m' \<longleftrightarrow> forget m' = forget m \<and> list_all2 le_opt (tail_of m) (tail_of m')"

definition survives :: "bytes \<Rightarrow> (reader \<Rightarrow> sbg_msg option) \<Rightarrow> reader \<Rightarrow> bool" where
  "survives q fn r \<longleftrightarrow> (\<forall>m. fn r = Some m \<longrightarrow> (\<exists>m'. fn (longer q r) = Some m' \<and> extended m m'))"

lemma le_opt_simps [simp]: "le_opt None b" "le_opt a a"
  by (simp_all add: le_opt_def)

lemmas survival = survives_def extended_def rd_take_eq rd_opt_eq Let_def rd_vals_longer

lemma fixed_survive:
  "rd_ok r \<Longrightarrow> survives q p_imu_legacy r" "rd_ok r \<Longrightarrow> survives q p_imu_short r" "rd_ok r \<Longrightarrow> survives q p_ekf_nav r"
  "rd_ok r \<Longrightarrow> survives q (p_gnss_vel g) r" "rd_ok r \<Longrightarrow> survives q (p_event ch) r"
  "rd_ok r \<Longrightarrow> survives q p_ack r"
  by (simp_all add: parser_defs survival)

lemma vals_longer_advance:
  "rd_ok r \<Longrightarrow> n + calcsize fmt \<le> rd_left r \<Longrightarrow>
   rd_vals fmt (advance n (longer q r)) = rd_vals fmt (advance n r)"
  using rd_vals_longer [of "advance n r" fmt q] by simp

lemma info_survives: "rd_ok r \<Longrightarrow> survives q p_info r"
  by (cases "52 \<le> rd_left r") (auto simp: parser_defs survival vals_longer_advance)

text \<open>An optional field that is present stays, and so does the place after it.\<close>

lemma rd_opt_present:
  "rd_ok r \<Longrightarrow> calcsize fmt \<le> rd_left r \<Longrightarrow>
   rd_opt fmt r = (Some (rd_vals fmt r), advance (calcsize fmt) r) \<and>
   rd_opt fmt (longer q r) = (Some (rd_vals fmt r), longer q (advance (calcsize fmt) r))"
  by (simp add: rd_opt_eq rd_vals_longer)

lemma rd_opt_absent: "\<not> calcsize fmt \<le> rd_left r \<Longrightarrow> rd_opt fmt r = (None, r)"
  by (simp add: rd_opt_eq)

lemma take_longer:
  "rd_ok r \<Longrightarrow> rd_take fmt r = Some (v, r') \<Longrightarrow>
   rd_take fmt (longer q r) = Some (v, longer q r') \<and> rd_ok r' \<and> r' = advance (calcsize fmt) r \<and> calcsize fmt \<le> rd_left r"
  by (auto simp: rd_take_eq rd_vals_longer split: if_splits)

text \<open>A parser that takes the mandatory part and goes on with the rest.\<close>

lemma survives_take:
  assumes "rd_ok r"
    and "\<And>v r'. rd_ok r' \<Longrightarrow> rd_left r' = rd_left r - calcsize fmt \<Longrightarrow> calcsize fmt \<le> rd_left r \<Longrightarrow>
           survives q (body v) r'"
  shows "survives q (\<lambda>r. Option.bind (rd_take fmt r) (\<lambda>(v, r'). body v r')) r"
  unfolding survives_def
proof (intro allI impI)
  fix m
  assume "Option.bind (rd_take fmt r) (\<lambda>(v, r'). body v r') = Some m"
  then obtain v r' where v: "rd_take fmt r = Some (v, r')" "body v r' = Some m" by (auto split: bind_splits)
  note t = take_longer [OF assms(1) v(1), of q]
  have "survives q (body v) r'" by (rule assms(2)) (use t assms(1) in simp_all)
  then show "\<exists>m'. Option.bind (rd_take fmt (longer q r)) (\<lambda>(v, r'). body v r') = Some m' \<and> extended m m'"
    using t v(2) by (simp add: survives_def)
qed

lemma survives_build:
  "extended (build r) (build (longer q r)) \<Longrightarrow> survives q (\<lambda>r. Some (build r)) r"
  by (simp add: survives_def)

lemma utc_survives: "rd_ok r \<Longrightarrow> survives q p_utc r"
  unfolding p_utc_def
proof (rule survives_take, assumption)
  fix v r'
  assume ok: "rd_ok r'"
  show "survives q (\<lambda>r1. let (clk, r2) = rd_opt ''fff'' r1 in
     Some (MUtc \<lparr>ut_time_stamp_us = vint (v ! 0), ut_status = vint (v ! 1), ut_year = vint (v ! 2),
       ut_month = vint (v ! 3), ut_day = vint (v ! 4), ut_hour = vint (v ! 5), ut_minute = vint (v ! 6),
       ut_second = vint (v ! 7), ut_nanosecond = vint (v ! 8), gps_tow_ms = vint (v ! 9),
       clk_bias_std = map_option (\<lambda>c. vflt (c ! 0)) clk,
       clk_sf_error_std = map_option (\<lambda>c. vflt (c ! 1)) clk,
       clk_residual_error = map_option (\<lambda>c. vflt (c ! 2)) clk,
       ut_utc = utc_fields (vint (v ! 2)) (vint (v ! 3)) (vint (v ! 4)) (vint (v ! 5)) (vint (v ! 6))
         (vint (v ! 7)) (vint (v ! 8)),
       leap_second_event = (vint (v ! 7) = 60)\<rparr>)) r'"
    using rd_opt_present [OF ok, of "''fff''" q] rd_opt_absent [of "''fff''" r']
    by (cases "12 \<le> rd_left r'") (auto simp: survives_def extended_def split: prod.split)
qed

lemma mag_tail_le:
  "rd_ok r \<Longrightarrow> le_opt (fst (mag_tail r)) (fst (mag_tail (longer q r))) \<and> le_opt (snd (mag_tail r)) (snd (mag_tail (longer q r)))"
  using rd_opt_present [of r "''ff''" q] rd_opt_absent [of "''ff''" r]
  by (cases "8 \<le> rd_left r") (auto simp: mag_tail_def)

lemma le_opt_map: "le_opt a b \<Longrightarrow> le_opt (map_option f a) (map_option f b)"
  by (auto simp: le_opt_def)

lemma mag_survives:
  "rd_ok r \<Longrightarrow> survives q (\<lambda>r1. let (decl, incl) = mag_tail r1 in Some (MEuler (m\<lparr>ee_mag_declination := decl, ee_mag_inclination := incl\<rparr>))) r"
  "rd_ok r \<Longrightarrow> survives q (\<lambda>r1. let (decl, incl) = mag_tail r1 in Some (MQuat (m'\<lparr>eq_mag_declination := decl, eq_mag_inclination := incl\<rparr>))) r"
  using mag_tail_le [of r q]
  by (auto simp: survives_def extended_def le_opt_map split: prod.splits)

lemma euler_survives: "rd_ok r \<Longrightarrow> survives q p_ekf_euler r"
  unfolding p_ekf_euler_def
proof (rule survives_take, assumption)
  fix v r'
  assume "rd_ok r'"
  from mag_survives(1) [OF this, of q "\<lparr>ee_time_stamp_us = vint (v ! 0), ee_roll_deg = degrees (vflt (v ! 1)),
       ee_pitch_deg = degrees (vflt (v ! 2)), ee_heading_deg = heading (vflt (v ! 3)),
       ee_euler_std_deg = deg3 (f3 (drop 4 v)), ee_status = vint (v ! 7),
       ee_mag_declination = None, ee_mag_inclination = None\<rparr>"]
  show "survives q (\<lambda>r1. let (decl, incl) = mag_tail r1 in
     Some (MEuler \<lparr>ee_time_stamp_us = vint (v ! 0), ee_roll_deg = degrees (vflt (v ! 1)),
       ee_pitch_deg = degrees (vflt (v ! 2)), ee_heading_deg = heading (vflt (v ! 3)),
       ee_euler_std_deg = deg3 (f3 (drop 4 v)), ee_status = vint (v ! 7),
       ee_mag_declination = decl, ee_mag_inclination = incl\<rparr>)) r'" by simp
qed

lemma quat_survives: "rd_ok r \<Longrightarrow> survives q p_ekf_quat r"
  unfolding p_ekf_quat_def
proof (rule survives_take, assumption)
  fix v r'
  assume "rd_ok r'"
  from mag_survives(2) [OF this, of q "\<lparr>eq_time_stamp_us = vint (v ! 0),
       eq_quat = [vflt (v ! 1), vflt (v ! 2), vflt (v ! 3), vflt (v ! 4)],
       eq_euler_std_deg = deg3 (f3 (drop 5 v)), eq_status = vint (v ! 8),
       eq_mag_declination = None, eq_mag_inclination = None\<rparr>"]
  show "survives q (\<lambda>r1. let (decl, incl) = mag_tail r1 in
     Some (MQuat \<lparr>eq_time_stamp_us = vint (v ! 0),
       eq_quat = [vflt (v ! 1), vflt (v ! 2), vflt (v ! 3), vflt (v ! 4)],
       eq_euler_std_deg = deg3 (f3 (drop 5 v)), eq_status = vint (v ! 8),
       eq_mag_declination = decl, eq_mag_inclination = incl\<rparr>)) r'" by simp
qed

text \<open>The tails of a position, from the last to the first.\<close>

lemma pos_tail3_le:
  "rd_ok r \<Longrightarrow> pos_tail3 r = (a, b) \<Longrightarrow> pos_tail3 (longer q r) = (a', b') \<Longrightarrow> le_opt a a' \<and> le_opt b b'"
  using rd_opt_present [of r "''BI''" q] rd_opt_absent [of "''BI''" r]
  by (cases "5 \<le> rd_left r") (auto simp: pos_tail3_def)

lemma pos_tail2_le:
  "rd_ok r \<Longrightarrow> pos_tail2 r = (a, b, c, d) \<Longrightarrow> pos_tail2 (longer q r) = (a', b', c', d') \<Longrightarrow>
   le_opt a a' \<and> le_opt b b' \<and> le_opt c c' \<and> le_opt d d'"
  using rd_opt_present [of r "''BI''" q] rd_opt_absent [of "''BI''" r] pos_tail3_le [of "advance 5 r" c d q c' d']
  by (cases "5 \<le> rd_left r") (auto simp: pos_tail2_def)

lemma pos_tail1_le:
  "rd_ok r \<Longrightarrow> pos_tail1 r = (a, b, c, d, e, f, g) \<Longrightarrow> pos_tail1 (longer q r) = (a', b', c', d', e', f', g') \<Longrightarrow>
   le_opt a a' \<and> le_opt b b' \<and> le_opt c c' \<and> le_opt d d' \<and> le_opt e e' \<and> le_opt f f' \<and> le_opt g g'"
  using rd_opt_present [of r "''BHH''" q] rd_opt_absent [of "''BHH''" r]
    pos_tail2_le [of "advance 5 r" d e f g q d' e' f' g']
  by (cases "5 \<le> rd_left r") (auto simp: pos_tail1_def)

lemma pos_survives: "rd_ok r \<Longrightarrow> survives q (p_gnss_pos gn) r"
proof -
  assume ok: "rd_ok r"
  show ?thesis
  proof (cases "52 \<le> rd_left r")
    case True
    let ?r = "advance 52 r"
    obtain a b c d e f g where t: "pos_tail1 ?r = (a, b, c, d, e, f, g)" by (rule prod_cases7)
    obtain a' b' c' d' e' f' g' where t': "pos_tail1 (advance 52 (longer q r)) = (a', b', c', d', e', f', g')"
      by (rule prod_cases7)
    then have "pos_tail1 (longer q ?r) = (a', b', c', d', e', f', g')" by simp
    from pos_tail1_le [OF _ t this] ok True
    have "le_opt a a' \<and> le_opt b b' \<and> le_opt c c' \<and> le_opt d d' \<and> le_opt e e' \<and> le_opt f f' \<and> le_opt g g'"
      by simp
    then show ?thesis using ok True
      by (simp add: p_gnss_pos_def survives_def extended_def rd_take_eq rd_vals_longer Let_def t t' le_opt_map)
  qed (simp add: p_gnss_pos_def survives_def rd_take_eq)
qed

lemma status_survives:
  assumes ok: "rd_ok r" and n: "rd_left r \<notin> {23, 24, 25}"
  shows "survives q p_status r"
proof (cases "22 \<le> rd_left r")
  case True
  consider "rd_left r = 22" | "26 \<le> rd_left r" using n True by fastforce
  then show ?thesis
  proof cases
    case 1
    then show ?thesis using ok
      by (auto simp: p_status_def survives_def extended_def rd_take_eq rd_vals_longer rd_opt_absent split: prod.split)
  next
    case 2
    note present = rd_opt_present [of "advance 22 r" "''I''" q]
    show ?thesis using 2 ok present rd_opt_present [of "advance 26 r" "''B''" q] rd_opt_absent [of "''B''" "advance 26 r"]
      by (cases "27 \<le> rd_left r")
        (auto simp: p_status_def survives_def extended_def rd_take_eq rd_vals_longer split: prod.split)
  qed
qed (simp add: p_status_def survives_def rd_take_eq)

lemma hdt_survives:
  assumes ok: "rd_ok r" and n: "rd_left r \<notin> {27, 28, 29}"
  shows "survives q (p_gnss_hdt g) r"
proof (cases "26 \<le> rd_left r")
  case True
  consider "rd_left r = 26" | "30 \<le> rd_left r" using n True by fastforce
  then show ?thesis
  proof cases
    case 1
    then show ?thesis using ok
      by (auto simp: p_gnss_hdt_def survives_def extended_def rd_take_eq rd_vals_longer rd_opt_absent split: prod.split)
  next
    case 2
    have ok': "rd_ok (advance 26 r)" "rd_ok (advance 30 r)" "31 \<le> rd_left r \<Longrightarrow> rd_ok (advance 31 r)"
      using ok 2 by simp_all
    have take: "rd_take ''IHIffff'' r = Some (rd_vals ''IHIffff'' r, advance 26 r)"
      "rd_take ''IHIffff'' (longer q r) = Some (rd_vals ''IHIffff'' r, longer q (advance 26 r))"
      using ok 2 by (simp_all add: rd_take_eq rd_vals_longer)
    have f: "rd_opt ''f'' (advance 26 r) = (Some (rd_vals ''f'' (advance 26 r)), advance 30 r)"
      "rd_opt ''f'' (longer q (advance 26 r)) = (Some (rd_vals ''f'' (advance 26 r)), longer q (advance 30 r))"
      using rd_opt_present [OF ok'(1), of "''f''" q] 2 by auto
    consider "rd_left r = 30" | "rd_left r = 31" | "32 \<le> rd_left r" using 2 by fastforce
    then show ?thesis
    proof cases
      case 1
      then have b: "rd_opt ''B'' (advance 30 r) = (None, advance 30 r)" by (simp add: rd_opt_absent)
      obtain t r3 where "rd_opt ''B'' (longer q (advance 30 r)) = (t, r3)" by fastforce
      moreover obtain u r4 where "rd_opt ''B'' r3 = (u, r4)" by fastforce
      ultimately show ?thesis
        unfolding survives_def p_gnss_hdt_def by (simp add: take f b extended_def del: longer_simps)
    next
      case 31: 2
      have b: "rd_opt ''B'' (advance 30 r) = (Some (rd_vals ''B'' (advance 30 r)), advance 31 r)"
        "rd_opt ''B'' (longer q (advance 30 r)) = (Some (rd_vals ''B'' (advance 30 r)), longer q (advance 31 r))"
        using rd_opt_present [OF ok'(2), of "''B''" q] 31 by auto
      have c: "rd_opt ''B'' (advance 31 r) = (None, advance 31 r)" using 31 by (simp add: rd_opt_absent)
      obtain u r4 where "rd_opt ''B'' (longer q (advance 31 r)) = (u, r4)" by fastforce
      then show ?thesis
        unfolding survives_def p_gnss_hdt_def by (simp add: take f b c extended_def del: longer_simps)
    next
      case 32: 3
      have b: "rd_opt ''B'' (advance 30 r) = (Some (rd_vals ''B'' (advance 30 r)), advance 31 r)"
        "rd_opt ''B'' (longer q (advance 30 r)) = (Some (rd_vals ''B'' (advance 30 r)), longer q (advance 31 r))"
        using rd_opt_present [OF ok'(2), of "''B''" q] 32 by auto
      have c: "rd_opt ''B'' (advance 31 r) = (Some (rd_vals ''B'' (advance 31 r)), advance 32 r)"
        "rd_opt ''B'' (longer q (advance 31 r)) = (Some (rd_vals ''B'' (advance 31 r)), longer q (advance 32 r))"
        using rd_opt_present [OF ok'(3), of "''B''" q] 32 by auto
      show ?thesis
        unfolding survives_def p_gnss_hdt_def by (simp add: take f b c extended_def del: longer_simps)
    qed
  qed
qed (simp add: p_gnss_hdt_def survives_def rd_take_eq)

lemma rd_signals_longer:
  "rd_ok r \<Longrightarrow> rd_signals n r = Some (ss, r') \<Longrightarrow> rd_signals n (longer q r) = Some (ss, longer q r') \<and> rd_ok r'"
proof (induction n arbitrary: r ss)
  case (Suc n)
  obtain v r1 where v: "rd_take ''BBB'' r = Some (v, r1)" using Suc.prems(2) by (auto split: bind_splits)
  note t = take_longer [OF Suc.prems(1) v, of q]
  then obtain ss' where s: "rd_signals n r1 = Some (ss', r')"
    using Suc.prems(2) v by (auto simp: Let_def split: bind_splits)
  have "rd_signals n (longer q r1) = Some (ss', longer q r') \<and> rd_ok r'" using Suc.IH [OF _ s] t by blast
  then show ?case using Suc.prems(2) v t s by (simp add: Let_def del: longer_simps)
qed simp

lemma rd_sats_longer:
  "rd_ok r \<Longrightarrow> rd_sats n r = Some (ss, r') \<Longrightarrow> rd_sats n (longer q r) = Some (ss, longer q r') \<and> rd_ok r'"
proof (induction n arbitrary: r ss)
  case (Suc n)
  obtain v r1 where v: "rd_take ''BbHHB'' r = Some (v, r1)" using Suc.prems(2) by (auto split: bind_splits)
  note t = take_longer [OF Suc.prems(1) v, of q]
  obtain sg r2 where g: "rd_signals (nat (vint (v ! 4))) r1 = Some (sg, r2)"
    using Suc.prems(2) v by (auto simp: Let_def split: bind_splits)
  then have g': "rd_signals (nat (vint (v ! 4))) (longer q r1) = Some (sg, longer q r2) \<and> rd_ok r2"
    using rd_signals_longer [OF _ g] t by blast
  obtain ss' where s: "rd_sats n r2 = Some (ss', r')"
    using Suc.prems(2) v g by (auto simp: Let_def split: bind_splits)
  have "rd_sats n (longer q r2) = Some (ss', longer q r') \<and> rd_ok r'" using Suc.IH [OF _ s] g' by blast
  then show ?case using Suc.prems(2) v t s g g' by (simp add: Let_def del: longer_simps)
qed simp

lemma sats_survive: "rd_ok r \<Longrightarrow> survives q (p_sat_list g) r"
  unfolding p_sat_list_def
proof (rule survives_take, assumption)
  fix v r'
  assume ok: "rd_ok r'"
  show "survives q (\<lambda>r1. rd_sats (nat (vint (v ! 2))) r1 \<bind> (\<lambda>(sats, r2).
      Some (MSats \<lparr>sl_gnss = g, sl_time_stamp_us = vint (v ! 0), sl_sats = sats\<rparr>))) r'"
    unfolding survives_def extended_def using rd_sats_longer [OF ok] by (fastforce split: bind_splits)
qed

text \<open>The lengths at which a tail of several fields ends within one of them.\<close>

definition torn :: "int \<Rightarrow> int \<Rightarrow> nat \<Rightarrow> bool" where
  "torn c i n \<longleftrightarrow> c = 0 \<and> (i = 1 \<and> n \<in> {23, 24, 25} \<or> i \<in> {15, 18} \<and> n \<in> {27, 28, 29})"

text \<open>
  Whatever later firmware appends to a payload, its message keeps every field it had: only absent
  trailing fields may appear. The raw logs, whose message is the whole payload, and payloads that end
  within a field of a status or heading tail are the exceptions.
\<close>

theorem sbg_parse_forward:
  assumes "parse_payload c i pl = Some m" "\<not> torn c i (length pl)" "\<not> (c = 0 \<and> i \<in> {31, 38})"
  shows "\<exists>m'. parse_payload c i (pl @ q) = Some m' \<and> extended m m'"
proof -
  let ?r = "reader_new pl"
  have ok: "rd_ok ?r" by simp
  have "\<exists>fn. parse_payload c i = (\<lambda>pl. fn (reader_new pl)) \<and> survives q fn ?r"
  proof -
    consider "c = 0" | "c = 16" using assms(1) by (fastforce simp: parse_payload_eq)
    then show ?thesis
    proof cases
      case 1
      have h: "i = 1 \<Longrightarrow> survives q p_status ?r" "i \<in> {15, 18} \<Longrightarrow> survives q (p_gnss_hdt g) ?r" for g
        using assms(2) 1 status_survives [OF ok, of q] hdt_survives [OF ok, of q] by (auto simp: torn_def)
      show ?thesis
        using assms(1,3) 1 h fixed_survive [OF ok, of q] utc_survives [OF ok, of q] euler_survives [OF ok, of q]
          quat_survives [OF ok, of q] pos_survives [OF ok, of q] sats_survive [OF ok, of q]
        unfolding parse_payload_eq
        by (auto simp: fun_eq_iff parse_payload_eq LOG_PARSERS_def log_ids split: if_splits)
    next
      case 2
      then show ?thesis
        using assms(1) fixed_survive(6) [OF ok, of q] info_survives [OF ok, of q]
        by (auto simp: fun_eq_iff parse_payload_eq CMD_PARSERS_eq split: if_splits)
    qed
  qed
  then obtain fn where fn: "parse_payload c i = (\<lambda>pl. fn (reader_new pl))" "survives q fn ?r" by blast
  then show ?thesis using assms(1) by (simp add: survives_def)
qed

lemma sbg_parse_forward_witness:
  "\<not> torn 0 1 22 \<and>
   (\<exists>m'. parse_payload 0 1 (replicate 22 0 @ [7, 0, 0, 0, 50]) = Some m' \<and>
      extended (the (parse_payload 0 1 (replicate 22 0))) m')"
proof -
  obtain m where m: "parse_payload 0 1 (replicate 22 0) = Some m"
    using sbg_parse_exact [of 0 1 "replicate 22 0"] by (auto simp: min_length_def)
  have "\<not> torn 0 1 (length (replicate 22 (0 :: byte)))" by (simp add: torn_def)
  moreover have "\<not> ((0 :: int) = 0 \<and> (1 :: int) \<in> {31, 38})" by simp
  ultimately show ?thesis using sbg_parse_forward [OF m, of "[7, 0, 0, 0, 50]"] m by simp
qed

text \<open>
  A payload torn within its uptime: the first byte of the uptime is read as the CPU usage, and is
  gone from it when the rest arrives.
\<close>

lemma torn_status_misread:
  "map_option (\<lambda>m. tail_of m) (parse_payload 0 1 (replicate 22 0 @ [7])) = Some [None, Some (VInt 7)]"
  "map_option (\<lambda>m. tail_of m) (parse_payload 0 1 (replicate 22 0 @ [7, 0, 0, 0])) = Some [Some (VInt 7), None]"
  by (simp_all add: parse_payload_eq LOG_PARSERS_def log_ids p_status_def rd_take_eq rd_opt_eq rd_vals_def
      reader_new_def advance_def rd_left_def is_digit_def)

section \<open>Satellite lists\<close>

fun pack_le :: "nat \<Rightarrow> int \<Rightarrow> bytes" where
  "pack_le 0 n = []"
| "pack_le (Suc k) n = word_of_int n # pack_le k (n div 256)"

lemma length_pack_le [simp]: "length (pack_le k n) = k"
  by (induction k arbitrary: n) simp_all

lemma le_pack: "le (pack_le k n) = n mod 256 ^ k"
proof (induction k arbitrary: n)
  case (Suc k)
  have "uint (word_of_int n :: byte) = n mod 256" by (simp add: uint_word_of_int)
  then have "le (pack_le (Suc k) n) = n mod 256 + 256 * (n div 256 mod 256 ^ k)"
    by (simp add: Suc)
  also have "\<dots> = n mod (256 * 256 ^ k)"
    using zmod_zmult2_eq [of "256 ^ k" n 256] by simp
  finally show ?case by simp
qed simp

declare pack_le.simps [simp del]

definition enc_signal :: "sbg_signal \<Rightarrow> bytes" where
  "enc_signal s =
     pack_le 1 (sg_id s) @ pack_le 1 (sg_tracking s + 8 * sg_health s + (if sg_snr_valid s then 32 else 0)) @
     pack_le 1 (case sg_snr s of Some x \<Rightarrow> x | None \<Rightarrow> 0)"

definition wf_signal :: "sbg_signal \<Rightarrow> bool" where
  "wf_signal s \<longleftrightarrow>
     0 \<le> sg_id s \<and> sg_id s < 256 \<and> 0 \<le> sg_tracking s \<and> sg_tracking s < 8 \<and> 0 \<le> sg_health s \<and> sg_health s < 4 \<and>
     sg_snr_valid s = (sg_snr s \<noteq> None) \<and> (case sg_snr s of None \<Rightarrow> True | Some x \<Rightarrow> 0 \<le> x \<and> x < 256)"

definition enc_sat :: "sbg_sat \<Rightarrow> bytes" where
  "enc_sat s =
     pack_le 1 (sa_id s) @ pack_le 1 (sa_elevation s) @ pack_le 2 (sa_azimuth s) @
     pack_le 2 (sa_tracking s + 8 * sa_health s + 32 * sa_elevation_status s + 128 * sa_constellation s) @
     pack_le 1 (int (length (sa_signals s))) @ concat (map enc_signal (sa_signals s))"

definition wf_sat :: "sbg_sat \<Rightarrow> bool" where
  "wf_sat s \<longleftrightarrow>
     0 \<le> sa_id s \<and> sa_id s < 256 \<and> - 128 \<le> sa_elevation s \<and> sa_elevation s < 128 \<and>
     0 \<le> sa_azimuth s \<and> sa_azimuth s < 65536 \<and> 0 \<le> sa_tracking s \<and> sa_tracking s < 8 \<and>
     0 \<le> sa_health s \<and> sa_health s < 4 \<and> 0 \<le> sa_elevation_status s \<and> sa_elevation_status s < 4 \<and>
     0 \<le> sa_constellation s \<and> sa_constellation s < 16 \<and> length (sa_signals s) < 256 \<and>
     list_all wf_signal (sa_signals s)"

definition enc_sat_list :: "int \<Rightarrow> sbg_sat list \<Rightarrow> bytes" where
  "enc_sat_list ts sats =
     pack_le 4 ts @ pack_le 4 0 @ pack_le 1 (int (length sats)) @ concat (map enc_sat sats)"

lemma and_low: "(x :: int) AND 7 = x mod 8" "(x :: int) AND 3 = x mod 4" "(x :: int) AND 15 = x mod 16"
  using take_bit_eq_mask [of 3 x] take_bit_eq_mask [of 2 x] take_bit_eq_mask [of 4 x]
  by (simp_all add: take_bit_eq_mod mask_eq_exp_minus_1)

lemma snr_flag: "(x :: int) AND SIGNAL_SNR_VALID \<noteq> 0 \<longleftrightarrow> odd (x div 32)"
  using and_exp_bit [of x 5] by (simp add: SIGNAL_SNR_VALID_def bit_iff_odd)

lemma length_enc_signal [simp]: "length (enc_signal s) = 3"
  by (simp add: enc_signal_def)

lemma mixed_radix: "0 \<le> a \<Longrightarrow> a < m \<Longrightarrow> (a + m * b) mod m = a \<and> (a + m * b) div m = (b :: int)"
  by simp

lemma div_32: "(x :: int) div 32 = x div 8 div 4"
  by (simp add: zdiv_zmult2_eq [symmetric])

lemma div_128: "(x :: int) div 128 = x div 8 div 4 div 4"
  by (simp add: zdiv_zmult2_eq [symmetric])

lemma rd_signals_enc:
  "rd_ok r \<Longrightarrow> drop (rd_off r) (rd_data r) = concat (map enc_signal ss) @ q \<Longrightarrow> list_all wf_signal ss \<Longrightarrow>
   rd_signals (length ss) r = Some (ss, advance (length (concat (map enc_signal ss))) r)"
proof (induction ss arbitrary: r)
  case Nil
  then show ?case by (simp add: advance_def)
next
  case (Cons s ss)
  have left: "3 \<le> rd_left r" using arg_cong [OF Cons.prems(2), of length] by (simp add: rd_left_def)
  have d: "drop (rd_off r) (rd_data r) = enc_signal s @ concat (map enc_signal ss) @ q" using Cons.prems(2) by simp
  have wf: "wf_signal s" using Cons.prems(3) by simp
  have vals: "rd_vals ''BBB'' r =
      [VInt (sg_id s), VInt (sg_tracking s + 8 * sg_health s + (if sg_snr_valid s then 32 else 0)),
       VInt (case sg_snr s of Some x \<Rightarrow> x | None \<Rightarrow> 0)]"
    using wf unfolding rd_vals_def d
    by (auto simp: enc_signal_def wf_signal_def le_pack is_digit_def split: option.splits)
  have rest: "drop (rd_off (advance 3 r)) (rd_data (advance 3 r)) = concat (map enc_signal ss) @ q"
    using arg_cong [OF d, of "drop 3"] by (simp add: advance_def add.commute)
  have ok: "rd_ok (advance 3 r)" using Cons.prems(1) left by simp
  have bits: "0 \<le> t \<Longrightarrow> t < 8 \<Longrightarrow> 0 \<le> h \<Longrightarrow> h < 4 \<Longrightarrow> (t + 8 * h + (if v then 32 else 0)) mod 8 = t \<and>
      (t + 8 * h + (if v then 32 else 0)) div 8 mod 4 = h \<and> odd ((t + 8 * h + (if v then 32 else 0)) div 32) = v"
    for t h :: int and v using mixed_radix [of t 8 "h + 4 * (if v then 1 else 0)"] mixed_radix [of h 4 "if v then 1 else 0"]
      div_32 [of "t + 8 * h + (if v then 32 else 0)"] by (cases v) (simp_all add: add.assoc)
  show ?case
    using Cons.IH [OF ok rest] Cons.prems(3) wf left bits
    by (cases s) (auto simp: rd_take_eq vals Let_def and_low snr_flag drop_bit_eq_div wf_signal_def split: option.splits)
qed

lemma rd_sats_enc:
  "rd_ok r \<Longrightarrow> drop (rd_off r) (rd_data r) = concat (map enc_sat ss) @ q \<Longrightarrow> list_all wf_sat ss \<Longrightarrow>
   rd_sats (length ss) r = Some (ss, advance (length (concat (map enc_sat ss))) r)"
proof (induction ss arbitrary: r)
  case Nil
  then show ?case by (simp add: advance_def)
next
  case (Cons s ss)
  let ?sig = "concat (map enc_signal (sa_signals s))"
  let ?fl = "sa_tracking s + 8 * sa_health s + 32 * sa_elevation_status s + 128 * sa_constellation s"
  have len: "length (enc_sat s) = 7 + length ?sig" by (simp add: enc_sat_def)
  have d: "drop (rd_off r) (rd_data r) = enc_sat s @ concat (map enc_sat ss) @ q" using Cons.prems(2) by simp
  have left: "7 + length ?sig \<le> rd_left r" using arg_cong [OF d, of length] len by (simp add: rd_left_def)
  have wf: "wf_sat s" using Cons.prems(3) by simp
  have elev: "- 128 \<le> e \<Longrightarrow> e < 128 \<Longrightarrow> to_signed 8 (e mod 256) = e" for e
    by (cases "0 \<le> e") (simp_all add: to_signed_def, presburger)
  have vals: "rd_vals ''BbHHB'' r =
      [VInt (sa_id s), VInt (sa_elevation s), VInt (sa_azimuth s), VInt ?fl, VInt (int (length (sa_signals s)))]"
    using wf elev unfolding rd_vals_def d
    by (simp add: enc_sat_def wf_sat_def le_pack is_digit_def)
  have d7: "drop (rd_off (advance 7 r)) (rd_data (advance 7 r)) = ?sig @ concat (map enc_sat ss) @ q"
    using arg_cong [OF d, of "drop 7"] by (simp add: advance_def add.commute enc_sat_def)
  have ok7: "rd_ok (advance 7 r)" "list_all wf_signal (sa_signals s)"
    using Cons.prems(1) left wf by (simp_all add: wf_sat_def)
  note sg = rd_signals_enc [OF ok7(1) d7 ok7(2)]
  let ?k = "7 + length ?sig"
  have okk: "rd_ok (advance ?k r)" using Cons.prems(1) left by simp
  have dk: "drop (rd_off (advance ?k r)) (rd_data (advance ?k r)) = concat (map enc_sat ss) @ q"
    using arg_cong [OF d, of "drop ?k"] by (simp add: advance_def add.commute enc_sat_def)
  have bits: "0 \<le> t \<Longrightarrow> t < 8 \<Longrightarrow> 0 \<le> h \<Longrightarrow> h < 4 \<Longrightarrow> 0 \<le> e \<Longrightarrow> e < 4 \<Longrightarrow> 0 \<le> c \<Longrightarrow> c < 16 \<Longrightarrow>
      (t + 8 * h + 32 * e + 128 * c) mod 8 = t \<and> (t + 8 * h + 32 * e + 128 * c) div 8 mod 4 = h \<and>
      (t + 8 * h + 32 * e + 128 * c) div 32 mod 4 = e \<and> (t + 8 * h + 32 * e + 128 * c) div 128 mod 16 = c"
    for t h e c :: int
    using mixed_radix [of t 8 "h + 4 * (e + 4 * c)"] mixed_radix [of h 4 "e + 4 * c"] mixed_radix [of e 4 c]
      div_32 [of "t + 8 * h + 32 * e + 128 * c"] div_128 [of "t + 8 * h + 32 * e + 128 * c"]
    by (simp add: algebra_simps)
  have "rd_sats (length ss) (advance ?k r) = Some (ss, advance (length (concat (map enc_sat ss))) (advance ?k r))"
    using Cons.IH [OF okk dk] Cons.prems(3) by simp
  then have "rd_sats (length (s # ss)) r =
      Some (\<lparr>sa_id = sa_id s, sa_constellation = drop_bit 7 ?fl AND 0x0F, sa_elevation = sa_elevation s,
        sa_azimuth = sa_azimuth s, sa_tracking = ?fl AND 0x07, sa_health = drop_bit 3 ?fl AND 0x03,
        sa_elevation_status = drop_bit 5 ?fl AND 0x03, sa_signals = sa_signals s\<rparr> # ss,
        advance (length (concat (map enc_sat (s # ss)))) r)"
    using left sg len by (simp add: rd_take_eq vals Let_def add.assoc)
  moreover have "\<lparr>sa_id = sa_id s, sa_constellation = drop_bit 7 ?fl AND 0x0F, sa_elevation = sa_elevation s,
        sa_azimuth = sa_azimuth s, sa_tracking = ?fl AND 0x07, sa_health = drop_bit 3 ?fl AND 0x03,
        sa_elevation_status = drop_bit 5 ?fl AND 0x03, sa_signals = sa_signals s\<rparr> = s"
    using bits [of "sa_tracking s" "sa_health s" "sa_elevation_status s" "sa_constellation s"] wf
    by (simp add: and_low drop_bit_eq_div wf_sat_def)
  ultimately show ?case by simp
qed

lemma sat_list_enc:
  fixes ts :: int and sats :: "sbg_sat list" and q :: bytes
  assumes "0 \<le> ts" "ts < 2 ^ 32" "length sats < 256" "list_all wf_sat sats"
  defines "p \<equiv> enc_sat_list ts sats @ q"
  shows "rd_take ''IIB'' (reader_new p) = Some ([VInt ts, VInt 0, VInt (int (length sats))], advance 9 (reader_new p))"
    and "rd_sats (length sats) (advance 9 (reader_new p)) = Some (sats, advance (length (enc_sat_list ts sats)) (reader_new p))"
proof -
  let ?r = "reader_new p"
  have "9 \<le> length p" by (simp add: p_def enc_sat_list_def)
  moreover have "rd_vals ''IIB'' ?r = [VInt ts, VInt 0, VInt (int (length sats))]"
    using assms(1-3) by (simp add: rd_vals_def p_def reader_new_def enc_sat_list_def le_pack is_digit_def)
  ultimately show "rd_take ''IIB'' ?r = Some ([VInt ts, VInt 0, VInt (int (length sats))], advance 9 ?r)"
    by (simp add: rd_take_eq)
  have ok: "rd_ok (advance 9 ?r)" using \<open>9 \<le> length p\<close> by simp
  have d: "drop (rd_off (advance 9 ?r)) (rd_data (advance 9 ?r)) = concat (map enc_sat sats) @ q"
    by (simp add: advance_def reader_new_def p_def enc_sat_list_def)
  show "rd_sats (length sats) (advance 9 ?r) = Some (sats, advance (length (enc_sat_list ts sats)) ?r)"
    using rd_sats_enc [OF ok d assms(4)] by (simp add: enc_sat_list_def)
qed

text \<open>
  A satellite list of up to 255 satellites, each with its own number of signals, reads back field by
  field whatever follows it, and a payload cut anywhere before its end is refused, never read as a
  shorter list.
\<close>

theorem sbg_sat_list_roundtrip:
  assumes "0 \<le> ts" "ts < 2 ^ 32" "length sats < 256" "list_all wf_sat sats" "g \<in> {1, 2}"
  shows "parse_payload 0 (49 + int g) (enc_sat_list ts sats @ q) =
           Some (MSats \<lparr>sl_gnss = g, sl_time_stamp_us = ts, sl_sats = sats\<rparr>) \<and>
         (\<forall>n < length (enc_sat_list ts sats). parse_payload 0 (49 + int g) (take n (enc_sat_list ts sats)) = None)"
proof -
  have dispatch: "parse_payload 0 (49 + int g) = (\<lambda>p. p_sat_list g (reader_new p))"
    using assms(5) by (auto simp: fun_eq_iff parse_payload_eq LOG_PARSERS_def log_ids)
  let ?e = "enc_sat_list ts sats"
  have "p_sat_list g (reader_new (?e @ q)) = Some (MSats \<lparr>sl_gnss = g, sl_time_stamp_us = ts, sl_sats = sats\<rparr>)"
    using sat_list_enc [OF assms(1-4), of q] by (simp add: p_sat_list_def)
  moreover have "p_sat_list g (reader_new (take n ?e)) = None" if n: "n < length ?e" for n
  proof (rule ccontr)
    assume "p_sat_list g (reader_new (take n ?e)) \<noteq> None"
    then obtain v r1 ss r2 where v: "rd_take ''IIB'' (reader_new (take n ?e)) = Some (v, r1)"
      and s: "rd_sats (nat (vint (v ! 2))) r1 = Some (ss, r2)"
      by (auto simp: p_sat_list_def split: bind_splits)
    have e: "longer (drop n ?e) (reader_new (take n ?e)) = reader_new ?e" by simp
    note t = take_longer [OF rd_ok_simps(1) v, of "drop n ?e", unfolded e]
    note full = sat_list_enc [OF assms(1-4), of "[]", unfolded append_Nil2]
    have v': "v = [VInt ts, VInt 0, VInt (int (length sats))]" "longer (drop n ?e) r1 = advance 9 (reader_new ?e)"
    proof -
      have "Some (v, longer (drop n ?e) r1) = Some ([VInt ts, VInt 0, VInt (int (length sats))], advance 9 (reader_new ?e))"
        using conjunct1 [OF t] full(1) by (simp only:)
      then show "v = [VInt ts, VInt 0, VInt (int (length sats))]" "longer (drop n ?e) r1 = advance 9 (reader_new ?e)"
        by (simp_all only: option.inject prod.inject)
    qed
    have l: "rd_sats (length sats) (advance 9 (reader_new ?e)) = Some (ss, longer (drop n ?e) r2)" "rd_ok r2"
      using rd_sats_longer [OF _ s, of "drop n ?e"] t v' by (auto simp del: longer_simps)
    then have "longer (drop n ?e) r2 = advance (length ?e) (reader_new ?e)" using full(2) by auto
    then have "rd_off r2 = length ?e" "rd_data r2 @ drop n ?e = ?e"
      by (cases r2, simp add: longer_def advance_def reader_new_def)+
    then have "length (rd_data r2) + (length ?e - n) = length ?e" by (metis length_append length_drop)
    then have "length (rd_data r2) = n" using n by linarith
    then show False using l(2) n \<open>rd_off r2 = length ?e\<close> by (simp add: rd_ok_def)
  qed
  ultimately show ?thesis by (simp add: dispatch)
qed

lemma sbg_sat_list_roundtrip_witness:
  "parse_payload 0 50 (enc_sat_list 7 [\<lparr>sa_id = 5, sa_constellation = 1, sa_elevation = - 3, sa_azimuth = 300,
       sa_tracking = 5, sa_health = 1, sa_elevation_status = 2,
       sa_signals = [\<lparr>sg_id = 1, sg_tracking = 5, sg_health = 1, sg_snr = Some 44, sg_snr_valid = True\<rparr>]\<rparr>] @ [9]) =
     Some (MSats \<lparr>sl_gnss = 1, sl_time_stamp_us = 7, sl_sats = [\<lparr>sa_id = 5, sa_constellation = 1, sa_elevation = - 3,
       sa_azimuth = 300, sa_tracking = 5, sa_health = 1, sa_elevation_status = 2,
       sa_signals = [\<lparr>sg_id = 1, sg_tracking = 5, sg_health = 1, sg_snr = Some 44, sg_snr_valid = True\<rparr>]\<rparr>]\<rparr>)"
proof -
  let ?s = "\<lparr>sa_id = 5, sa_constellation = 1, sa_elevation = - 3, sa_azimuth = 300,
       sa_tracking = 5, sa_health = 1, sa_elevation_status = 2,
       sa_signals = [\<lparr>sg_id = 1, sg_tracking = 5, sg_health = 1, sg_snr = Some 44, sg_snr_valid = True\<rparr>]\<rparr>"
  have "list_all wf_sat [?s]" by (simp add: wf_sat_def wf_signal_def)
  then show ?thesis using sbg_sat_list_roundtrip [of 7 "[?s]" 1 "[9]"] by simp
qed

section \<open>Headings\<close>

lemma float32_range: "0 \<le> w \<Longrightarrow> w < 2 ^ 32 \<Longrightarrow> float32 w = Fin x \<Longrightarrow> \<bar>x\<bar> < 2 powi 128"
proof -
  assume w: "0 \<le> w" "w < 2 ^ 32" and f: "float32 w = Fin x"
  define e where "e = w div 2 ^ 23 mod 2 ^ 8"
  define g where "g = w mod 2 ^ 23"
  have g: "0 \<le> g" "g < 2 ^ 23" by (simp_all add: g_def)
  have "e \<noteq> 255"
  proof
    assume "e = 255"
    then have "float32 w = Inf (w div 2 ^ 31 mod 2 = 1) \<or> float32 w = NaN"
      by (simp add: float32_def ieee_def Let_def e_def)
    then show False using f by simp
  qed
  moreover have "0 \<le> e" "e < 2 ^ 8" by (simp_all only: e_def pos_mod_sign pos_mod_bound zero_less_power zero_less_numeral)
  ultimately have e: "0 \<le> e" "e \<le> 254" by simp_all
  have x: "\<bar>x\<bar> = (if e = 0 then of_int g * 2 powi (- 149) else of_int (2 ^ 23 + g) * 2 powi (e - 150))"
    (is "_ = ?v")
  proof -
    define sg where "sg \<longleftrightarrow> w div 2 ^ (8 + 23) mod 2 = 1"
    have "float32 w = Fin (if sg then - ?v else ?v)"
      unfolding float32_def ieee_def Let_def e_def [symmetric] g_def [symmetric] sg_def [symmetric]
      using e by simp
    moreover have "0 \<le> ?v" using g by simp
    ultimately show ?thesis using f by (cases sg) (simp_all del: of_int_add)
  qed
  show ?thesis
  proof (cases "e = 0")
    case True
    have "(of_int g :: real) < of_int (2 ^ 23)" using g(2) by (simp only: of_int_less_iff)
    then have "of_int g * 2 powi (- 149) < (2 ^ 23 :: real) * 2 powi (- 149)"
      by (intro mult_strict_right_mono) simp_all
    also have "\<dots> < 2 powi 128" by simp
    finally show ?thesis using x True by simp
  next
    case False
    have "(of_int (2 ^ 23 + g) :: real) < of_int (2 ^ 24)" using g(2) by (simp only: of_int_less_iff) simp
    then have "of_int (2 ^ 23 + g) * 2 powi (e - 150) < (2 ^ 24 :: real) * 2 powi (e - 150)"
      by (intro mult_strict_right_mono) simp_all
    also have "(2 :: real) powi (e - 150) \<le> 2 powi 104" using e(2) by (intro power_int_increasing) auto
    then have "(2 ^ 24 :: real) * 2 powi (e - 150) \<le> 2 ^ 24 * 2 powi 104" by (rule mult_left_mono) simp
    also have "(2 ^ 24 :: real) * 2 powi 104 = 2 powi 128" by simp
    finally show ?thesis using x False by simp
  qed
qed

text \<open>How far \<open>h\<close> is from being \<open>d\<close> up to whole turns.\<close>

definition near_mod_360 :: "real \<Rightarrow> real \<Rightarrow> real \<Rightarrow> bool" where
  "near_mod_360 err h d \<longleftrightarrow> (\<exists>k :: int. \<bar>h - (d - 360 * of_int k)\<bar> \<le> err)"

lemma wrap_360:
  assumes "mod_360 (Fin d) = a" "h = (if flt_ge a 360 then Fin 0 else a)"
  shows "\<exists>y. h = Fin y \<and> 0 \<le> y \<and> y < 360 \<and> near_mod_360 (2 powi (- 45)) y d"
proof -
  define m where "m = c_fmod d 360"
  have m: "\<bar>m\<bar> < 360" using c_fmod_bounds(1) [of 360 d] by (simp add: m_def)
  obtain k where k: "d = m + 360 * of_int k" using c_fmod_bounds(2) [of 360 d] by (auto simp: m_def)
  show ?thesis
  proof (cases "m < 0")
    case False
    then have "a = Fin m" using assms(1) by (simp add: m_def [symmetric] Let_def)
    then have "h = Fin m" using assms(2) m by simp
    moreover have "near_mod_360 (2 powi (- 45)) m d"
      unfolding near_mod_360_def by (rule exI [of _ k]) (simp add: k)
    ultimately show ?thesis using False m by simp
  next
    case True
    have "\<bar>m + 360\<bar> < 2 powi 9" using m True by (simp add: abs_less_iff)
    from rnd_error [OF this] obtain r where r: "rnd (m + 360) = Fin r" "\<bar>r - (m + 360)\<bar> \<le> 2 powi (- 45)"
      by auto
    have r0: "0 \<le> r" using rnd_nonneg [OF _ r(1)] m by simp
    have a: "a = Fin r" using assms(1) True r(1) by (simp add: m_def [symmetric] Let_def)
    show ?thesis
    proof (cases "360 \<le> r")
      case True
      then have "h = Fin 0" using assms(2) a by simp
      moreover have "near_mod_360 (2 powi (- 45)) 0 d"
        unfolding near_mod_360_def by (rule exI [of _ k]) (use r(2) True \<open>m < 0\<close> k in \<open>simp add: abs_le_iff\<close>)
      ultimately show ?thesis by simp
    next
      case False
      then have "h = Fin r" using assms(2) a by simp
      moreover have "near_mod_360 (2 powi (- 45)) r d"
        unfolding near_mod_360_def by (rule exI [of _ "k - 1"]) (use r(2) k in \<open>simp add: abs_le_iff algebra_simps\<close>)
      ultimately show ?thesis using r0 False by simp
    qed
  qed
qed

text \<open>
  The heading of every yaw a unit can send as a finite 32-bit float is in [0, 360), and differs from
  the yaw in degrees (the product with 180/pi rounded to a double) only by whole turns and one rounding
  of at most 2^-45 degrees; the rounding that would give 360.0 for a tiny negative yaw gives 0. A yaw
  that is not finite has the heading NaN.
\<close>

theorem sbg_heading_range:
  assumes "0 \<le> w" "w < 2 ^ 32"
  shows "case float32 w of
      Fin x \<Rightarrow> (\<exists>y d. heading (Fin x) = Fin y \<and> 0 \<le> y \<and> y < 360 \<and> degrees (Fin x) = Fin d \<and>
                  near_mod_360 (2 powi (- 45)) y d)
    | a \<Rightarrow> heading a = NaN"
proof (cases "float32 w")
  case (Fin x)
  have "\<bar>x\<bar> < 2 powi 128" using float32_range [OF assms Fin] .
  moreover have "\<bar>DEG\<bar> < 2 powi 6" by (simp add: DEG_def)
  ultimately have "\<bar>x\<bar> * \<bar>DEG\<bar> < 2 powi 128 * 2 powi 6" by (rule mult_strict_mono') simp_all
  then have "\<bar>x * DEG\<bar> < 2 powi 134" by (simp add: abs_mult)
  from rnd_error [OF this] obtain d where d: "degrees (Fin x) = Fin d" by auto
  obtain y where "heading (Fin x) = Fin y \<and> 0 \<le> y \<and> y < 360 \<and> near_mod_360 (2 powi (- 45)) y d"
    using wrap_360 [OF refl, of "heading (Fin x)" d] unfolding heading_def Let_def d by blast
  then show ?thesis using d Fin by auto
qed (simp_all add: heading_def Let_def)

lemma sbg_heading_witness:
  "float32 0xC0000000 = Fin (- 2) \<and>
   (\<exists>y d. heading (Fin (- 2)) = Fin y \<and> 0 \<le> y \<and> y < 360 \<and> degrees (Fin (- 2)) = Fin d \<and>
      near_mod_360 (2 powi (- 45)) y d)"
proof -
  have f: "float32 0xC0000000 = Fin (- 2)" by (simp add: float32_def ieee_def Let_def)
  then show ?thesis using sbg_heading_range [of "0xC0000000"] by (simp del: degrees.simps)
qed

section \<open>Frames\<close>

text \<open>
  A frame the encoder builds parses as the payload it was given, under its class and id; on frames
  of at least four bytes the entry point never raises.
\<close>

theorem sbg_frame_parse:
  assumes "sbg_encode c i pl = Inr raw" "fr_proto f = SBG" "fr_raw f = raw"
  shows "parse_frame f = Inr (parse_payload c i pl)"
proof -
  have r: "raw = SBG_SYNC @ ([word_of_int i, word_of_int c] @ pack_u16 (int (length pl)) @ pl) @
      pack_u16 (crc16_kermit ([word_of_int i, word_of_int c] @ pack_u16 (int (length pl)) @ pl)) @ [SBG_ETX]"
    and b: "0 \<le> i" "i < 256" "0 \<le> c" "c < 256" "c AND 0x80 = 0"
    using assms(1) by (auto simp: sbg_encode_def Let_def split: if_splits)
  have u: "uint (word_of_int i :: byte) = i" "uint (word_of_int c :: byte) = c"
    using b by (simp_all add: uint_word_of_int)
  have b3: "byte_at raw 3 = Inr (word_of_int c)" and b2: "byte_at raw 2 = Inr (word_of_int i)"
    by (simp_all add: r byte_at_def SBG_SYNC_def numeral_eq_Suc)
  have "(word_of_int c :: byte) AND 0x80 = 0"
  proof -
    have "uint ((word_of_int c :: byte) AND 0x80) = c AND 0x80" by (simp add: uint_and u)
    then show ?thesis using b(5) by (simp add: word_uint_eq_iff)
  qed
  moreover have "py_slice 6 (length raw - 3) raw = pl"
    by (simp add: r py_slice_def SBG_SYNC_def pack_u16_def)
  ultimately have "payload f = Inr pl" by (simp add: payload_def assms(2,3) b3 Let_def)
  then show ?thesis by (simp add: parse_frame_def assms(3) b3 b2 u)
qed

lemma sbg_frame_parse_witness:
  "\<exists>raw. sbg_encode 16 0 [8, 16, 0, 0] = Inr raw \<and>
     parse_frame \<lparr>fr_proto = SBG, fr_raw = raw, fr_t_mono = 0, fr_t_host = 0\<rparr> =
       Inr (Some (MAck \<lparr>ak_msg_id = 8, ak_msg_class = 16, ak_error_code = 0\<rparr>))"
proof -
  obtain raw where raw: "sbg_encode 16 0 [8, 16, 0, 0] = Inr raw"
    by (simp add: sbg_encode_def SBG_MAX_PAYLOAD_def)
  have "parse_payload 16 0 [8, 16, 0, 0] = Some (MAck \<lparr>ak_msg_id = 8, ak_msg_class = 16, ak_error_code = 0\<rparr>)"
    by (simp add: parse_payload_eq CMD_PARSERS_eq p_ack_def rd_take_eq rd_vals_def reader_new_def rd_left_def is_digit_def)
  then show ?thesis
    using raw sbg_frame_parse [OF raw, of "\<lparr>fr_proto = SBG, fr_raw = raw, fr_t_mono = 0, fr_t_host = 0\<rparr>"] by simp
qed

end
