(* ===== verification/WebAuth.thy ===== *)
theory WebAuth
  imports Text
begin

text \<open>
  The password gate of the web interface, \<open>src/mtrtk/web/auth.py\<close>, and the defensive response headers
  of \<open>web/headers.py\<close>. Seconds are real numbers; the readings of the monotonic clock are arguments.
  The session token, an HMAC over SHA-256, is a function of the password that is a parameter. The delay
  before a wrong password is answered is no part of the model.
\<close>

section \<open>The throttle\<close>


definition LOGIN_BURST :: real where "LOGIN_BURST = 10"
definition LOGIN_REFILL_S :: real where "LOGIN_REFILL_S = 6"

record throttle =
  th_tokens :: real
  th_stamp :: real

definition throttle_new :: "real \<Rightarrow> throttle" where
  "throttle_new now = \<lparr>th_tokens = LOGIN_BURST, th_stamp = now\<rparr>"

definition refill :: "real \<Rightarrow> throttle \<Rightarrow> throttle" where
  "refill now t =
     t\<lparr>th_tokens := min LOGIN_BURST (th_tokens t + (now - th_stamp t) / LOGIN_REFILL_S), th_stamp := now\<rparr>"

definition retry_after :: "real \<Rightarrow> throttle \<Rightarrow> int option \<times> throttle" where
  "retry_after now t =
     (let t' = refill now t in
      (if 1 \<le> th_tokens t' then None else Some (max 1 \<lceil>(1 - th_tokens t') * LOGIN_REFILL_S\<rceil>), t'))"

definition failed :: "real \<Rightarrow> throttle \<Rightarrow> throttle" where
  "failed now t = (let t' = refill now t in t'\<lparr>th_tokens := max 0 (th_tokens t' - 1)\<rparr>)"

section \<open>Tokens\<close>

definition COOKIE_NAME :: string where "COOKIE_NAME = ''mtrtk_session''"

type_synonym headers = "(string \<times> string) list"

definition presented_token :: "(string \<Rightarrow> string option) \<Rightarrow> (string \<Rightarrow> string option) \<Rightarrow> string option" where
  "presented_token hs cookies =
     (let auth = (case hs ''authorization'' of Some a \<Rightarrow> a | None \<Rightarrow> []) in
      if starts_with ''bearer '' (lower auth) then Some (strip_str (drop 7 auth)) else cookies COOKIE_NAME)"

definition token_ok :: "(string \<Rightarrow> string) \<Rightarrow> string option \<Rightarrow> string option \<Rightarrow> bool" where
  "token_ok session_token password presented =
     (if \<not> str_opt_true password then True
      else if \<not> str_opt_true presented then False
      else presented = Some (session_token (the password)))"

definition lowered :: "headers \<Rightarrow> string \<Rightarrow> string option" where
  "lowered hs = py_dict (map (\<lambda>(k, v). (lower k, v)) hs)"

definition connection_authorized ::
  "(string \<Rightarrow> string) \<Rightarrow> string option \<Rightarrow> headers \<Rightarrow> (string \<Rightarrow> string option) \<Rightarrow> bool" where
  "connection_authorized session_token password hs cookies =
     token_ok session_token password (presented_token (lowered hs) cookies)"

text \<open>\<open>None\<close>, or the status of the refusal.\<close>

definition require_auth ::
  "(string \<Rightarrow> string) \<Rightarrow> string option \<Rightarrow> headers \<Rightarrow> (string \<Rightarrow> string option) \<Rightarrow> nat option" where
  "require_auth session_token password hs cookies =
     (if connection_authorized session_token password hs cookies then None else Some 401)"

definition websocket_authorized ::
  "(string \<Rightarrow> string) \<Rightarrow> string option \<Rightarrow> headers \<Rightarrow> (string \<Rightarrow> string option) \<Rightarrow>
   (string \<Rightarrow> string option) \<Rightarrow> bool" where
  "websocket_authorized session_token password hs cookies query =
     (let presented = (case presented_token (lowered hs) cookies of
                         None \<Rightarrow> query ''token'' | Some p \<Rightarrow> Some p)
      in token_ok session_token password presented)"

section \<open>Headers\<close>

definition HSTS :: string where "HSTS = ''max-age=31536000''"

definition DEFENSIVE_HEADERS :: headers where
  "DEFENSIVE_HEADERS =
     [(''x-content-type-options'', ''nosniff''),
      (''content-security-policy'', ''frame-ancestors '' @ [CHR 0x27] @ ''none'' @ [CHR 0x27]),
      (''x-frame-options'', ''DENY''),
      (''referrer-policy'', ''no-referrer'')]"

fun forwarded_https :: "headers \<Rightarrow> bool" where
  "forwarded_https [] = False"
| "forwarded_https ((name, v) # hs) =
     (if lower name = ''x-forwarded-proto''
      then lower (strip_str (before_first (CHR '','') v)) \<in> {''https'', ''wss''}
      else forwarded_https hs)"

definition is_https :: "string \<Rightarrow> headers \<Rightarrow> bool" where
  "is_https scheme hs \<longleftrightarrow> scheme \<in> {''https'', ''wss''} \<or> forwarded_https hs"

text \<open>The headers of a response to an HTTP request.\<close>

definition with_headers :: "bool \<Rightarrow> headers \<Rightarrow> headers" where
  "with_headers https hs =
     (let present = lower ` fst ` set hs;
          extra = DEFENSIVE_HEADERS @ (if https then [(''strict-transport-security'', HSTS)] else [])
      in hs @ filter (\<lambda>(n, v). n \<notin> present) extra)"

definition security_headers :: "string \<Rightarrow> string \<Rightarrow> headers \<Rightarrow> headers \<Rightarrow> headers" where
  "security_headers kind scheme request response =
     (if kind \<noteq> ''http'' then response else with_headers (is_https scheme request) response)"

section \<open>Logging in\<close>

datatype login_result =
    NoPassword
  | TooMany int
  | WrongPassword
  | Session string bool

record attempt =
  at_new :: real
  at_check :: real
  at_fail :: real
  at_password :: string
  at_secure :: bool

text \<open>
  \<open>login\<close>: the throttle of the application, made at the first attempt, and the answer. An attempt has
  the clock readings of the three places that take one.
\<close>

definition login ::
  "(string \<Rightarrow> string) \<Rightarrow> string option \<Rightarrow> attempt \<Rightarrow> throttle option \<Rightarrow> login_result \<times> throttle option" where
  "login session_token password a st =
     (if \<not> str_opt_true password then (NoPassword, st)
      else
        let t = (case st of Some t \<Rightarrow> t | None \<Rightarrow> throttle_new (at_new a));
            (wait, t1) = retry_after (at_check a) t
        in case wait of
             Some w \<Rightarrow> (TooMany w, Some t1)
           | None \<Rightarrow>
               if at_password a \<noteq> the password then (WrongPassword, Some (failed (at_fail a) t1))
               else (Session (session_token (the password)) (at_secure a), Some t1))"

fun login_run ::
  "(string \<Rightarrow> string) \<Rightarrow> string option \<Rightarrow> attempt list \<Rightarrow> throttle option \<Rightarrow> login_result list \<times> throttle option" where
  "login_run tok password [] st = ([], st)"
| "login_run tok password (a # as) st =
     (let (r, st1) = login tok password a st; (rs, st2) = login_run tok password as st1 in (r # rs, st2))"

section \<open>How often a password is looked at\<close>

text \<open>The clock readings of a run from \<open>t\<close> on never go back; the last one.\<close>

fun ordered_from :: "real \<Rightarrow> attempt list \<Rightarrow> bool" where
  "ordered_from t [] = True"
| "ordered_from t (a # as) =
     (t \<le> at_new a \<and> at_new a \<le> at_check a \<and> at_check a \<le> at_fail a \<and> ordered_from (at_fail a) as)"

fun last_reading :: "real \<Rightarrow> attempt list \<Rightarrow> real" where
  "last_reading t [] = t"
| "last_reading t (a # as) = last_reading (at_fail a) as"

definition guesses :: "login_result list \<Rightarrow> nat" where
  "guesses rs = length (filter (\<lambda>r. r = WrongPassword) rs)"

text \<open>The bucket after \<open>n\<close> failures since \<open>t0\<close>.\<close>

definition bucket_ok :: "real \<Rightarrow> nat \<Rightarrow> real \<Rightarrow> throttle option \<Rightarrow> bool" where
  "bucket_ok t0 n now st \<longleftrightarrow>
     (case st of
        None \<Rightarrow> n = 0
      | Some t \<Rightarrow> t0 \<le> th_stamp t \<and> th_stamp t \<le> now \<and> 0 \<le> th_tokens t \<and> th_tokens t \<le> 10 \<and>
          real n + th_tokens t \<le> 10 + (th_stamp t - t0) / 6)"

lemmas throttle_defs = throttle_new_def refill_def LOGIN_BURST_def LOGIN_REFILL_S_def

lemma refill_ok:
  "bucket_ok t0 n now (Some t) \<Longrightarrow> now \<le> now' \<Longrightarrow> bucket_ok t0 n now' (Some (refill now' t)) \<and> th_stamp (refill now' t) = now'"
  by (auto simp: bucket_ok_def throttle_defs min_def field_simps)

lemma failed_ok:
  assumes "bucket_ok t0 n now (Some t)" "now \<le> now'" "1 \<le> th_tokens t"
  shows "bucket_ok t0 (Suc n) now' (Some (failed now' t))"
proof -
  have "th_stamp t \<le> now'" using assms by (auto simp: bucket_ok_def)
  then have "0 \<le> (now' - th_stamp t) / 6" by simp
  then have "1 \<le> th_tokens t + (now' - th_stamp t) / 6" using assms(3) by linarith
  then have "1 \<le> th_tokens (refill now' t)" by (simp add: throttle_defs)
  then show ?thesis
    using refill_ok [OF assms(1,2)] by (auto simp: failed_def Let_def bucket_ok_def)
qed

lemma login_ok:
  assumes "bucket_ok t0 n now st" "t0 \<le> now" "now \<le> at_new a" "at_new a \<le> at_check a" "at_check a \<le> at_fail a"
  shows "case login tok password a st of (r, st') \<Rightarrow>
     bucket_ok t0 (if r = WrongPassword then Suc n else n) (at_fail a) st'"
proof (cases "str_opt_true password")
  case False
  then show ?thesis using assms by (auto simp: login_def bucket_ok_def split: option.splits)
next
  case True
  define t where "t = (case st of Some t \<Rightarrow> t | None \<Rightarrow> throttle_new (at_new a))"
  have t: "bucket_ok t0 n (at_new a) (Some t)"
    using assms by (cases st) (auto simp: t_def bucket_ok_def throttle_defs)
  define t1 where "t1 = refill (at_check a) t"
  have t1: "bucket_ok t0 n (at_check a) (Some t1)" using refill_ok [OF t assms(4)] by (simp add: t1_def)
  have r: "retry_after (at_check a) t =
      (if 1 \<le> th_tokens t1 then None else Some (max 1 \<lceil>(1 - th_tokens t1) * LOGIN_REFILL_S\<rceil>), t1)"
    by (simp add: retry_after_def Let_def t1_def)
  have "bucket_ok t0 n (at_fail a) (Some t1)" using t1 assms(5) by (auto simp: bucket_ok_def)
  then show ?thesis
    using True failed_ok [OF t1 assms(5)] unfolding login_def t_def [symmetric] by (simp add: r Let_def)
qed

lemma login_run_ok:
  "bucket_ok t0 n now st \<Longrightarrow> t0 \<le> now \<Longrightarrow> ordered_from now as \<Longrightarrow>
   (case login_run tok password as st of (rs, st') \<Rightarrow> bucket_ok t0 (n + guesses rs) (last_reading now as) st')"
proof (induction "as" arbitrary: n now st)
  case (Cons a "as")
  obtain r st1 where r: "login tok password a st = (r, st1)" by fastforce
  have "bucket_ok t0 (if r = WrongPassword then Suc n else n) (at_fail a) st1"
    using login_ok [of t0 n now st a tok password] Cons.prems by (simp add: r)
  from Cons.IH [OF this] Cons.prems show ?case
    by (auto simp: r guesses_def split: prod.splits)
qed (simp add: guesses_def)

lemma ordered_last: "ordered_from t as \<Longrightarrow> t \<le> last_reading t as"
  by (induction t "as" rule: last_reading.induct) auto

text \<open>
  C20. However many clients try, through any sequence of attempts the passwords that are looked at and
  found wrong number at most ten, and one more for every six seconds.
\<close>

theorem login_rate:
  assumes "ordered_from t0 as"
  shows "real (guesses (fst (login_run tok password as None))) \<le> 10 + (last_reading t0 as - t0) / 6"
proof -
  obtain rs st where r: "login_run tok password as None = (rs, st)" by fastforce
  have "bucket_ok t0 0 t0 None" by (simp add: bucket_ok_def)
  from login_run_ok [OF this _ assms, of tok password]
  have b: "bucket_ok t0 (guesses rs) (last_reading t0 as) st" by (simp add: r)
  show ?thesis
    using b ordered_last [OF assms] by (cases st) (auto simp: bucket_ok_def r field_simps)
qed

lemma login_rate_witness:
  "real (guesses (fst (login_run (\<lambda>p. p) (Some ''pw'') (replicate 3 \<lparr>at_new = 5, at_check = 5, at_fail = 5,
      at_password = ''x'', at_secure = False\<rparr>) None))) \<le> 10"
proof -
  let ?a = "\<lparr>at_new = 5, at_check = 5, at_fail = 5, at_password = ''x'', at_secure = False\<rparr>"
  have "ordered_from 5 (replicate 3 ?a)" "last_reading 5 (replicate 3 ?a) = 5" by (simp_all add: numeral_eq_Suc)
  then show ?thesis using login_rate [of 5 "replicate 3 ?a" "\<lambda>p. p" "Some ''pw''"] by simp
qed

text \<open>What the next attempt meets, by the bucket it finds.\<close>

definition open_bucket :: "attempt \<Rightarrow> throttle option \<Rightarrow> bool" where
  "open_bucket a st \<longleftrightarrow>
     (case st of None \<Rightarrow> at_new a \<le> at_check a \<or> 1 \<le> 10 + (at_check a - at_new a) / 6
      | Some t \<Rightarrow> 1 \<le> min 10 (th_tokens t + (at_check a - th_stamp t) / 6))"

text \<open>
  With a password set, a login is answered by the bucket alone while it holds less than one token,
  whatever the submitted password, with a wait after which the next attempt is looked at; otherwise
  exactly the configured password gives the session token. With none set no bucket is touched.
\<close>

theorem login_decision:
  "case login tok password a st of (r, st') \<Rightarrow>
     (if \<not> str_opt_true password then r = NoPassword \<and> st' = st
      else if open_bucket a st then
        (if Some (at_password a) = password then r = Session (tok (the password)) (at_secure a) else r = WrongPassword)
      else (\<exists>w. r = TooMany w \<and> 1 \<le> w \<and>
              login tok password (a\<lparr>at_password := q\<rparr>) st = (r, st') \<and>
              open_bucket (b\<lparr>at_check := at_check a + of_int w\<rparr>) st'))"
proof (cases "str_opt_true password")
  case True
  define t where "t = (case st of Some t \<Rightarrow> t | None \<Rightarrow> throttle_new (at_new a))"
  define t1 where "t1 = refill (at_check a) t"
  define w where "w = max 1 \<lceil>(1 - th_tokens t1) * LOGIN_REFILL_S\<rceil>"
  have r: "retry_after (at_check a) t = (if 1 \<le> th_tokens t1 then None else Some w, t1)"
    by (simp add: retry_after_def Let_def t1_def w_def)
  have o: "open_bucket a st \<longleftrightarrow> 1 \<le> th_tokens t1"
    by (cases st) (auto simp: open_bucket_def t_def t1_def throttle_defs field_simps)
  show ?thesis
  proof (cases "1 \<le> th_tokens t1")
    case False
    have "(1 - th_tokens t1) * 6 \<le> of_int \<lceil>(1 - th_tokens t1) * 6\<rceil>" by (rule le_of_int_ceiling)
    also have "\<dots> \<le> (of_int w :: real)" unfolding of_int_le_iff by (simp add: w_def LOGIN_REFILL_S_def)
    finally have "(1 - th_tokens t1) * 6 \<le> of_int w" .
    then have "open_bucket (b\<lparr>at_check := at_check a + of_int w\<rparr>) (Some t1)"
      by (simp add: open_bucket_def t1_def refill_def field_simps)
    moreover have "login tok password (a\<lparr>at_password := x\<rparr>) st = (TooMany w, Some t1)" for x
      using True False unfolding login_def
      by (simp add: t_def [symmetric] r Let_def cong: option.case_cong)
    moreover have "login tok password a st = (TooMany w, Some t1)"
      using calculation(2) [of "at_password a"] by simp
    ultimately show ?thesis using True False o by (simp add: w_def)
  next
    case open': True
    have p: "password \<noteq> None" using True by (auto simp: str_opt_true_def)
    have "login tok password a st = (if at_password a \<noteq> the password then (WrongPassword, Some (failed (at_fail a) t1))
        else (Session (tok (the password)) (at_secure a), Some t1))"
      using True open' unfolding login_def by (simp add: t_def [symmetric] r Let_def)
    then show ?thesis using True open' o p by auto
  qed
qed (simp add: login_def)

lemma lowered_none: "list_all (\<lambda>h. lower (fst h) \<noteq> k) hs \<Longrightarrow> lowered hs k = None"
  by (force simp: lowered_def py_dict_def map_of_eq_None_iff list_all_iff)

lemma lowered_last:
  "lower n = k \<Longrightarrow> list_all (\<lambda>h. lower (fst h) \<noteq> k) rest \<Longrightarrow> lowered (before @ (n, v) # rest) k = Some v"
  using lowered_none [of k rest] by (simp add: lowered_def py_dict_def map_add_Some_iff)

lemma forwarded_first:
  "list_all (\<lambda>h. lower (fst h) \<noteq> ''x-forwarded-proto'') before \<Longrightarrow>
   forwarded_https (before @ hs) = forwarded_https hs"
  by (induction before) auto

lemma filter_none: "list_all (\<lambda>h. lower (fst h) \<noteq> k) hs \<Longrightarrow> filter (\<lambda>h. lower (fst h) = k) hs = []"
  by (induction hs) auto

text \<open>The headers of this name, in any case.\<close>

definition named :: "string \<Rightarrow> headers \<Rightarrow> headers" where
  "named k hs = filter (\<lambda>h. lower (fst h) = k) hs"

lemma with_headers_named:
  "named k (with_headers https hs) =
     (if named k hs \<noteq> [] then named k hs
      else if k = ''x-content-type-options'' then [(k, ''nosniff'')]
      else if k = ''content-security-policy'' then [(k, ''frame-ancestors '' @ [CHR 0x27] @ ''none'' @ [CHR 0x27])]
      else if k = ''x-frame-options'' then [(k, ''DENY'')]
      else if k = ''referrer-policy'' then [(k, ''no-referrer'')]
      else if https \<and> k = ''strict-transport-security'' then [(k, ''max-age=31536000'')]
      else [])"
proof -
  define extra where "extra = DEFENSIVE_HEADERS @ (if https then [(''strict-transport-security'', HSTS)] else [])"
  have low: "lower ''x-content-type-options'' = ''x-content-type-options''"
    "lower ''content-security-policy'' = ''content-security-policy''" "lower ''x-frame-options'' = ''x-frame-options''"
    "lower ''referrer-policy'' = ''referrer-policy''"
    "lower ''strict-transport-security'' = ''strict-transport-security''" by code_simp+
  have n: "lower (fst h) = fst h" if "h \<in> set extra" for h
    using that low by (auto simp: extra_def DEFENSIVE_HEADERS_def split: if_splits)
  have e: "with_headers https hs = hs @ filter (\<lambda>(n, v). n \<notin> lower ` fst ` set hs) extra"
    by (simp add: with_headers_def extra_def Let_def)
  have p: "k \<in> lower ` fst ` set hs \<longleftrightarrow> named k hs \<noteq> []"
    by (auto simp: named_def filter_empty_conv)
  have c: "lower (fst h) = k \<and> (case h of (n, v) \<Rightarrow> n \<notin> lower ` fst ` set hs) \<longleftrightarrow> fst h = k \<and> named k hs = []"
    if "h \<in> set extra" for h
    using n [OF that] p by (cases h) (simp only: fst_conv prod.case, blast)
  have "filter (\<lambda>h. lower (fst h) = k \<and> (case h of (n, v) \<Rightarrow> n \<notin> lower ` fst ` set hs)) extra =
      filter (\<lambda>h. fst h = k \<and> named k hs = []) extra"
    using c by (rule filter_cong [OF refl])
  then have "named k (filter (\<lambda>(n, v). n \<notin> lower ` fst ` set hs) extra) =
      (if named k hs = [] then filter (\<lambda>h. fst h = k) extra else [])"
    unfolding named_def filter_filter by (simp add: conj_commute)
  then have "named k (with_headers https hs) = named k hs @ (if named k hs = [] then filter (\<lambda>h. fst h = k) extra else [])"
    unfolding e by (simp add: named_def)
  then show ?thesis by (auto simp: extra_def DEFENSIVE_HEADERS_def HSTS_def)
qed

text \<open>
  C21. With the password \<open>pw\<close> set and \<open>tok pw\<close> its session token, for header names in any case:
  a request whose last \<open>Authorization\<close> header is \<open>Bearer x\<close> passes exactly if \<open>x\<close>, stripped, is the
  token, whatever its cookies; one without that header, or with another scheme in it, passes exactly
  if the cookie \<open>mtrtk_session\<close> is the token; and what does not pass is answered 401. A WebSocket is
  held to the same, with the query parameter \<open>token\<close> where it has neither. Without a password, or
  with an empty one, all pass. The response to an HTTP request begins with the headers the
  application gave it, unchanged, and then has, once each and with these values, those of \<open>nosniff\<close>,
  \<open>frame-ancestors 'none'\<close>, \<open>DENY\<close> and \<open>no-referrer\<close> that the application did not set itself, and HSTS of
  a year exactly if the request came over HTTPS: by its scheme, or by the first entry of its first
  \<open>X-Forwarded-Proto\<close>. Other kinds of connection are left alone.
\<close>

theorem auth_gate:
  assumes "tok pw \<noteq> []" "pw \<noteq> []"
    and "lower n = ''authorization''" "list_all (\<lambda>h. lower (fst h) \<noteq> ''authorization'') rest"
    and "lower b = ''bearer ''" "lower (take 7 v) \<noteq> ''bearer ''"
    and "lower fwd = ''x-forwarded-proto''"
    and "list_all (\<lambda>h. lower (fst h) \<noteq> ''x-forwarded-proto'') plain"
  shows "(let gate = require_auth tok (Some pw);
      by_cookie = (if cookies ''mtrtk_session'' = Some (tok pw) then None else Some 401);
      ws = websocket_authorized tok (Some pw);
      ws_cookie = (case cookies ''mtrtk_session'' of Some c \<Rightarrow> c = tok pw | None \<Rightarrow> query ''token'' = Some (tok pw)) in
      gate (before @ (n, b @ x) # rest) cookies = (if strip_str x = tok pw then None else Some 401) \<and>
      gate (before @ (n, v) # rest) cookies = by_cookie \<and> gate rest cookies = by_cookie \<and>
      ws (before @ (n, b @ x) # rest) cookies query = (strip_str x = tok pw) \<and>
      ws (before @ (n, v) # rest) cookies query = ws_cookie \<and> ws rest cookies query = ws_cookie) \<and>
    require_auth tok None hs cookies = None \<and> require_auth tok (Some []) hs cookies = None \<and>
    websocket_authorized tok None hs cookies query \<and> websocket_authorized tok (Some []) hs cookies query \<and>
    (let answer = (\<lambda>https k.
       if named k rs \<noteq> [] then named k rs
       else if k = ''x-content-type-options'' then [(k, ''nosniff'')]
       else if k = ''content-security-policy'' then [(k, ''frame-ancestors '' @ [CHR 0x27] @ ''none'' @ [CHR 0x27])]
       else if k = ''x-frame-options'' then [(k, ''DENY'')]
       else if k = ''referrer-policy'' then [(k, ''no-referrer'')]
       else if https \<and> k = ''strict-transport-security'' then [(k, ''max-age=31536000'')]
       else []);
       tls = (\<lambda>s. s = ''https'' \<or> s = ''wss'') in
      named k (security_headers ''http'' scheme plain rs) = answer (tls scheme) k \<and>
      named k (security_headers ''http'' scheme (plain @ (fwd, f) # behind) rs) =
        answer (tls scheme \<or> tls (lower (strip_str (takeWhile (\<lambda>c. c \<noteq> CHR '','') f)))) k \<and>
      take (length rs) (security_headers ''http'' scheme hs rs) = rs \<and>
      security_headers ''websocket'' scheme hs rs = rs)"
proof -
  have token: "token_ok tok (Some pw) presented \<longleftrightarrow> presented = Some (tok pw)" for presented
    using assms(1,2) by (auto simp: token_ok_def str_opt_true_def)
  have open_gate: "token_ok tok None presented" "token_ok tok (Some []) presented" for presented
    by (simp_all add: token_ok_def str_opt_true_def)
  have len: "length b = 7"
    using arg_cong [where f = length, OF assms(5)] by (simp add: lower_def)
  have bearer: "presented_token (lowered (before @ (n, b @ x) # rest)) cookies = Some (strip_str x)"
    using lowered_last [OF assms(3,4)] assms(5) len
    by (simp add: presented_token_def starts_with_def lower_def)
  have cookie: "presented_token (lowered (before @ (n, v) # rest)) cookies = cookies ''mtrtk_session''"
  proof -
    have "\<not> starts_with ''bearer '' (lower v)"
      using assms(6) by (simp add: starts_with_def lower_def take_map eval_nat_numeral)
    then show ?thesis using lowered_last [OF assms(3,4)] by (simp add: presented_token_def COOKIE_NAME_def)
  qed
  have bare: "presented_token (lowered rest) cookies = cookies ''mtrtk_session''"
    using lowered_none [OF assms(4)] by (simp add: presented_token_def starts_with_def lower_def COOKIE_NAME_def)
  note gate = require_auth_def connection_authorized_def websocket_authorized_def Let_def token open_gate
  have fwd: "is_https scheme plain \<longleftrightarrow> scheme = ''https'' \<or> scheme = ''wss''"
    "is_https scheme (plain @ (fwd, f) # behind) \<longleftrightarrow> scheme = ''https'' \<or> scheme = ''wss'' \<or>
      lower (strip_str (takeWhile (\<lambda>c. c \<noteq> CHR '','') f)) \<in> {''https'', ''wss''}"
    using forwarded_first [OF assms(8), of "[]"] forwarded_first [OF assms(8), of "(fwd, f) # behind"] assms(7)
    by (simp_all add: is_https_def before_first_def)
  note sec = security_headers_def with_headers_named fwd
  show ?thesis
  proof (intro conjI)
    show "let gate = require_auth tok (Some pw);
      by_cookie = (if cookies ''mtrtk_session'' = Some (tok pw) then None else Some 401);
      ws = websocket_authorized tok (Some pw);
      ws_cookie = (case cookies ''mtrtk_session'' of Some c \<Rightarrow> c = tok pw | None \<Rightarrow> query ''token'' = Some (tok pw)) in
      gate (before @ (n, b @ x) # rest) cookies = (if strip_str x = tok pw then None else Some 401) \<and>
      gate (before @ (n, v) # rest) cookies = by_cookie \<and> gate rest cookies = by_cookie \<and>
      ws (before @ (n, b @ x) # rest) cookies query = (strip_str x = tok pw) \<and>
      ws (before @ (n, v) # rest) cookies query = ws_cookie \<and> ws rest cookies query = ws_cookie"
      by (simp add: gate bearer cookie bare split: option.split)
  qed (simp_all add: gate sec, simp add: with_headers_def Let_def)
qed

lemma auth_gate_witness:
  "require_auth (\<lambda>p. CHR ''t'' # p) (Some ''pw'') [(''Authorization'', ''Bearer tpw'')] (\<lambda>_. None) = None \<and>
   require_auth (\<lambda>p. CHR ''t'' # p) (Some ''pw'') [(''Authorization'', ''Bearer pw'')] (\<lambda>_. None) = Some 401 \<and>
   named ''x-frame-options'' (security_headers ''http'' ''http'' [] [(''X-Frame-Options'', ''SAMEORIGIN'')]) =
     [(''X-Frame-Options'', ''SAMEORIGIN'')]"
proof -
  have h: "(\<lambda>p. CHR ''t'' # p) ''pw'' \<noteq> []" "''pw'' \<noteq> []" "lower ''Authorization'' = ''authorization''"
    "list_all (\<lambda>h. lower (fst h) \<noteq> ''authorization'') []" "lower ''Bearer '' = ''bearer ''"
    "lower (take 7 ''Basic dXNlcg'') \<noteq> ''bearer ''" "lower ''X-Forwarded-Proto'' = ''x-forwarded-proto''"
    "list_all (\<lambda>h. lower (fst h) \<noteq> ''x-forwarded-proto'') []" by code_simp+
  note t = auth_gate [where tok = "\<lambda>p. CHR ''t'' # p", OF h, where before = "[]" and cookies = "\<lambda>_. None"
      and k = "''x-frame-options''" and rs = "[(''X-Frame-Options'', ''SAMEORIGIN'')]" and scheme = "''http''"]
  have s: "strip_str ''tpw'' = ''tpw''" "strip_str ''pw'' = ''pw''"
    "named ''x-frame-options'' [(''X-Frame-Options'', ''SAMEORIGIN'')] = [(''X-Frame-Options'', ''SAMEORIGIN'')]"
    by code_simp+
  show ?thesis using t [where x = "''tpw''"] t [where x = "''pw''"] s by (simp add: Let_def)
qed

end
