(* ===== verification/Numerals.thy ===== *)
theory Numerals
  imports Checksums Text
begin

text \<open>
  Python's reading of decimal texts, and the round trips of the numbers that the sources print: decimal with and
  without padding, upper-case hexadecimal.
\<close>

section \<open>Decimal integers\<close>

text \<open>\<open>int(text)\<close> of ASCII text, digits with single underscores between them.\<close>

fun dec_scan :: "int \<Rightarrow> bool \<Rightarrow> bytes \<Rightarrow> int option" where
  "dec_scan acc prev [] = (if prev then Some acc else None)"
| "dec_scan acc prev (x # xs) =
     (if x = 95 then (if prev then dec_scan acc False xs else None)
      else if 48 \<le> x \<and> x \<le> 57 then dec_scan (10 * acc + (uint x - 48)) True xs else None)"

definition py_int10 :: "bytes \<Rightarrow> int option" where
  "py_int10 text =
     (case strip is_space text of
        [] \<Rightarrow> None
      | s # xs \<Rightarrow>
          if s = 43 then dec_scan 0 False xs
          else if s = 45 then map_option uminus (dec_scan 0 False xs)
          else dec_scan 0 False (s # xs))"

section \<open>Numbers written and read back\<close>

lemma strip_id: "\<forall>x \<in> set xs. \<not> p x \<Longrightarrow> strip p xs = xs"
  using dropWhile_none [of xs p] dropWhile_none [of "rev xs" p] by (simp add: strip_def lstrip_def rstrip_def)

lemma hex_byte: "d < 16 \<Longrightarrow> byte_of_char (hex_digit_char d) = hex_char (int d)"
proof -
  assume "d < 16"
  then have "d \<in> {0, 1, 2, 3, 4, 5, 6, 7, 8, 9, 10, 11, 12, 13, 14, 15}" by simp presburger
  then show ?thesis
    by (elim insertE emptyE) (simp_all add: byte_of_char_def hex_digit_char_def hex_char_def)
qed

lemma hex_text:
  "encode_latin1 (hex_upper n) \<noteq> [] \<and>
   (\<forall>x \<in> set (encode_latin1 (hex_upper n)). \<exists>d. 0 \<le> d \<and> d < 16 \<and> x = hex_char d) \<and>
   foldl (\<lambda>a x. 16 * a + the (hex_digit x)) 0 (encode_latin1 (hex_upper n)) = int n"
proof (induction n rule: hex_upper.induct)
  case (1 n)
  have d: "0 \<le> int m \<and> int m < 16 \<and> the (hex_digit (hex_char (int m))) = int m" if "m < 16" for m
    using that hex_char_facts [of "int m"] by simp
  show ?case
  proof (cases "n < 16")
    case True
    then show ?thesis using d [OF True]
      by (auto simp: hex_upper.simps [of n] encode_latin1_def hex_byte intro!: exI [of _ "int n"])
  next
    case False
    have m: "n mod 16 < 16" by simp
    have "16 * (int n div 16) + int (n mod 16) = int n" by (simp add: zmod_int)
    then show ?thesis using 1 [OF False] d [OF m] False
      by (auto simp: hex_upper.simps [of n] encode_latin1_def hex_byte [OF m] zdiv_int intro!: exI [of _ "int (n mod 16)"])
  qed
qed

lemma py_int16_hex_upper: "py_int16 (encode_latin1 (hex_upper n)) = Some (int n)"
proof -
  let ?t = "encode_latin1 (hex_upper n)"
  have chars: "\<forall>x \<in> set ?t. hex_digit x \<noteq> None \<and> \<not> is_space x \<and> x \<notin> {43, 45, 88, 95, 120}"
    using hex_text [of n] hex_char_facts by fastforce
  have pre: "hex_prefix ?t = ?t" using chars by (cases ?t rule: hex_prefix.cases) auto
  have "strip is_space ?t = ?t" by (rule strip_id) (use chars in blast)
  moreover have "hex_unsigned ?t = Some (int n)"
    using chars hex_text [of n] by (simp add: hex_unsigned_def pre hex_scan_digits)
  ultimately show ?thesis
    using chars hex_text [of n] unfolding py_int16_def by (cases ?t) simp_all
qed

lemma dec_byte: "is_digit c \<Longrightarrow> 48 \<le> byte_of_char c \<and> byte_of_char c \<le> 57 \<and> uint (byte_of_char c) - 48 = int (digit_value c)"
proof -
  assume c: "is_digit c"
  have "unat (byte_of_char c) = of_char c"
    by (simp add: byte_of_char_def unat_of_nat)
  moreover from c have "48 \<le> (of_char c :: nat) \<and> (of_char c :: nat) \<le> 57" by (simp add: is_digit_of_char)
  ultimately show ?thesis
    by (simp add: word_le_nat_alt digit_value_def uint_nat of_nat_diff del: unat_of_nat)
qed

lemma dec_scan_digits:
  "list_all is_digit s \<Longrightarrow>
   dec_scan acc prev (encode_latin1 s) =
     (if s = [] \<and> \<not> prev then None else Some (foldl (\<lambda>a c. 10 * a + int (digit_value c)) acc s))"
proof (induction s arbitrary: acc prev)
  case (Cons c s)
  then have "byte_of_char c \<noteq> 95" "48 \<le> byte_of_char c \<and> byte_of_char c \<le> 57"
    using dec_byte [of c] by auto
  then show ?case using Cons dec_byte [of c] by (simp add: encode_latin1_def)
qed (simp add: encode_latin1_def)

lemma undec_int: "foldl (\<lambda>a c. 10 * a + int (digit_value c)) (int m) s = int (foldl (\<lambda>a c. 10 * a + digit_value c) m s)"
proof (induction s arbitrary: m)
  case (Cons c s)
  then show ?case using Cons [of "10 * m + digit_value c"] by simp
qed simp

lemma py_int10_digits:
  assumes "list_all is_digit s" "s \<noteq> []"
  shows "py_int10 (encode_latin1 s) = Some (int (undec s))"
    "py_int10 (encode_latin1 (CHR ''-'' # s)) = Some (- int (undec s))"
proof -
  have b: "x \<in> set (encode_latin1 s) \<Longrightarrow> 48 \<le> x \<and> x \<le> 57" for x
    using assms(1) dec_byte by (auto simp: encode_latin1_def list_all_iff)
  have sp: "\<not> is_space x" if "x \<in> set (encode_latin1 s)" for x
  proof -
    have "48 \<le> unat x" using b [OF that] by (simp add: word_le_nat_alt)
    then show ?thesis by (auto simp: is_space_def word_le_nat_alt)
  qed
  have m: "byte_of_char (CHR ''-'') = 45" "\<not> is_space (45 :: byte)"
    by (simp_all add: byte_of_char_def is_space_def)
  have sc: "dec_scan 0 False (encode_latin1 s) = Some (int (undec s))"
    using dec_scan_digits [OF assms(1), of 0 False] undec_int [of 0 s] assms(2) by (simp add: undec_def)
  obtain x xs where x: "encode_latin1 s = x # xs" using assms(2) by (cases s) (auto simp: encode_latin1_def)
  have "x \<noteq> 43" "x \<noteq> 45" using b [of x] x by auto
  then show "py_int10 (encode_latin1 s) = Some (int (undec s))"
    using sc strip_id [of "encode_latin1 s" is_space] sp x by (simp add: py_int10_def del: dec_scan.simps)
  have "encode_latin1 (CHR ''-'' # s) = 45 # encode_latin1 s" using m by (simp add: encode_latin1_def)
  moreover have "strip is_space (45 # encode_latin1 s) = 45 # encode_latin1 s"
    by (rule strip_id) (use sp m in auto)
  ultimately show "py_int10 (encode_latin1 (CHR ''-'' # s)) = Some (- int (undec s))"
    using sc by (simp add: py_int10_def)
qed

lemma dec_nonempty: "dec n \<noteq> []"
  by (subst dec.simps) simp

lemma dec_int_read: "py_int10 (encode_latin1 (dec_int n)) = Some n"
  using py_int10_digits [OF dec_all_digit dec_nonempty] by (simp add: dec_int_def)

lemma undec_zeros: "undec (replicate k CHR ''0'' @ s) = undec s"
  by (induction k) (simp_all add: undec_def digit_value_def)

lemma zpad_read: "py_int10 (encode_latin1 (zpad w n)) = Some (int n)"
proof -
  have "list_all is_digit (zpad w n)"
    using dec_all_digit [of n] by (auto simp: zpad_def list_all_iff is_digit_def)
  then show ?thesis using py_int10_digits(1) [of "zpad w n"] by (simp add: zpad_def dec_nonempty undec_zeros)
qed

end
