(* ===== verification/VnParse.thy ===== *)
theory VnParse
  imports VnFields Struct Calendar Frames Numerals
begin

text \<open>
  Decoding VectorNav frames, \<open>src/mtrtk/rover/drivers/vectornav/parse.py\<close>, with the name tables of
  \<open>vectornav/fields.py\<close>: a binary frame into one dict per group, from field names to values, and an
  ASCII line into its command, register, fields and error. A \<open>ValueError\<close>, \<open>struct.error\<close> or
  \<open>IndexError\<close> on the way is the answer \<open>None\<close>, as \<open>parse\<close> makes it.
\<close>

section \<open>Names and formats\<close>

definition GROUP_BITS :: "(string \<times> nat) list" where
  "GROUP_BITS =
     [(''common'', 0), (''time'', 1), (''imu'', 2), (''gps'', 3), (''attitude'', 4), (''ins'', 5), (''gps2'', 6)]"

definition GROUP_NAMES :: "nat \<Rightarrow> string option" where
  "GROUP_NAMES = py_dict (map (\<lambda>(name, b). (b, name)) GROUP_BITS)"

definition GPS_NAMES :: "string list" where
  "GPS_NAMES =
     [''utc'', ''tow'', ''week'', ''num_sats'', ''fix'', ''pos_lla'', ''pos_ecef'', ''vel_ned'', ''vel_ecef'',
      ''pos_u'', ''vel_u'', ''time_u'', ''time_info'', ''dop'', ''sat_info'']"

definition FIELD_NAMES :: "string list list" where
  "FIELD_NAMES =
     [[''time_startup'', ''time_gps'', ''time_sync_in'', ''ypr'', ''quaternion'', ''angular_rate'', ''position'',
       ''velocity'', ''accel'', ''imu'', ''mag_pres'', ''delta_theta'', ''ins_status'', ''sync_in_cnt'', ''time_gps_pps''],
      [''time_startup'', ''time_gps'', ''gps_tow'', ''gps_week'', ''time_sync_in'', ''time_gps_pps'', ''utc'',
       ''sync_in_cnt'', ''sync_out_cnt'', ''time_status''],
      [''imu_status'', ''uncomp_mag'', ''uncomp_accel'', ''uncomp_gyro'', ''temp'', ''pres'', ''delta_theta'',
       ''delta_vel'', ''mag'', ''accel'', ''angular_rate'', ''sens_sat''],
      GPS_NAMES,
      [''vpe_status'', ''ypr'', ''quaternion'', ''dcm'', ''mag_ned'', ''accel_ned'', ''linear_accel_body'',
       ''linear_accel_ned'', ''ypr_u''],
      [''ins_status'', ''pos_lla'', ''pos_ecef'', ''vel_body'', ''vel_ned'', ''vel_ecef'', ''mag_ecef'', ''accel_ecef'',
       ''linear_accel_ecef'', ''pos_u'', ''vel_u''],
      GPS_NAMES]"

definition GPS_FORMATS :: "(nat \<times> string) list" where
  "GPS_FORMATS =
     [(1, ''Q''), (2, ''H''), (3, ''B''), (4, ''B''), (5, ''3d''), (6, ''3d''), (7, ''3f''), (8, ''3f''), (9, ''3f''),
      (10, ''f''), (11, ''f''), (13, ''7f'')]"

definition FORMATS :: "(nat \<times> string) list list" where
  "FORMATS =
     [[(0, ''Q''), (1, ''Q''), (2, ''Q''), (3, ''3f''), (4, ''4f''), (5, ''3f''), (6, ''3d''), (7, ''3f''), (8, ''3f''),
       (9, ''6f''), (10, ''5f''), (11, ''7f''), (12, ''H''), (13, ''I''), (14, ''Q'')],
      [(0, ''Q''), (1, ''Q''), (2, ''Q''), (3, ''H''), (4, ''Q''), (5, ''Q''), (7, ''I''), (8, ''I'')],
      [(0, ''H''), (1, ''3f''), (2, ''3f''), (3, ''3f''), (4, ''f''), (5, ''f''), (6, ''4f''), (7, ''3f''), (8, ''3f''),
       (9, ''3f''), (10, ''3f''), (11, ''H'')],
      GPS_FORMATS,
      [(0, ''H''), (1, ''3f''), (2, ''4f''), (3, ''9f''), (4, ''3f''), (5, ''3f''), (6, ''3f''), (7, ''3f''), (8, ''3f'')],
      [(0, ''H''), (1, ''3d''), (2, ''3d''), (3, ''3f''), (4, ''3f''), (5, ''3f''), (6, ''3f''), (7, ''3f''), (8, ''3f''),
       (9, ''f''), (10, ''f'')],
      GPS_FORMATS]"

section \<open>Values\<close>

record vn_sat =
  vs_sys :: int
  vs_sv_id :: int
  vs_flags :: int
  vs_cno :: int
  vs_qi :: int
  vs_el :: int
  vs_az :: int

definition vs_healthy :: "vn_sat \<Rightarrow> bool" where "vs_healthy s \<longleftrightarrow> vs_flags s AND 0x01 \<noteq> 0"
definition vs_almanac :: "vn_sat \<Rightarrow> bool" where "vs_almanac s \<longleftrightarrow> vs_flags s AND 0x02 \<noteq> 0"
definition vs_ephemeris :: "vn_sat \<Rightarrow> bool" where "vs_ephemeris s \<longleftrightarrow> vs_flags s AND 0x04 \<noteq> 0"
definition vs_diff_corr :: "vn_sat \<Rightarrow> bool" where "vs_diff_corr s \<longleftrightarrow> vs_flags s AND 0x08 \<noteq> 0"
definition vs_used :: "vn_sat \<Rightarrow> bool" where "vs_used s \<longleftrightarrow> vs_flags s AND 0x10 \<noteq> 0"
definition vs_az_el_valid :: "vn_sat \<Rightarrow> bool" where "vs_az_el_valid s \<longleftrightarrow> vs_flags s AND 0x20 \<noteq> 0"
definition vs_used_rtk :: "vn_sat \<Rightarrow> bool" where "vs_used_rtk s \<longleftrightarrow> vs_flags s AND 0x40 \<noteq> 0"

text \<open>\<open>VnInsStatus\<close>, over its raw word.\<close>

definition is_mode :: "int \<Rightarrow> int" where "is_mode raw = raw AND 0x3"
definition is_gps_fix :: "int \<Rightarrow> bool" where "is_gps_fix raw \<longleftrightarrow> raw AND 0x0004 \<noteq> 0"
definition is_time_error :: "int \<Rightarrow> bool" where "is_time_error raw \<longleftrightarrow> raw AND 0x0008 \<noteq> 0"
definition is_imu_error :: "int \<Rightarrow> bool" where "is_imu_error raw \<longleftrightarrow> raw AND 0x0010 \<noteq> 0"
definition is_mag_pres_error :: "int \<Rightarrow> bool" where "is_mag_pres_error raw \<longleftrightarrow> raw AND 0x0020 \<noteq> 0"
definition is_gps_error :: "int \<Rightarrow> bool" where "is_gps_error raw \<longleftrightarrow> raw AND 0x0040 \<noteq> 0"
definition is_gps_heading_ins :: "int \<Rightarrow> bool" where "is_gps_heading_ins raw \<longleftrightarrow> raw AND 0x0100 \<noteq> 0"
definition is_gps_compass :: "int \<Rightarrow> bool" where "is_gps_compass raw \<longleftrightarrow> raw AND 0x0200 \<noteq> 0"

datatype vn_value =
    VScalar pyval
  | VTuple "pyval list"
  | VInsStatus int
  | VSeconds flt
  | VUtc "utc option"
  | VTimeStatus bool bool bool
  | VTimeInfo int int
  | VSats "vn_sat list"
  | VChunk bytes

type_synonym vn_dicts = "string \<Rightarrow> (string \<Rightarrow> vn_value option) option"

record vn_ascii =
  va_cmd :: string
  va_register :: "int option"
  va_fields :: "string list"
  va_error :: "int option"

datatype vn_parsed = VnBinary vn_dicts | VnAscii vn_ascii

section \<open>Binary frames\<close>

text \<open>\<open>struct.unpack\<close>, which wants exactly the size, and \<open>unpack_from\<close> at an offset.\<close>

definition unpack_exact :: "string \<Rightarrow> bytes \<Rightarrow> pyval list option" where
  "unpack_exact fmt b = (if length b = calcsize fmt then Some (unpack_items (fmt_items 0 fmt) b) else None)"

definition unpack_from :: "string \<Rightarrow> bytes \<Rightarrow> nat \<Rightarrow> pyval list option" where
  "unpack_from fmt b off =
     (if off + calcsize fmt \<le> length b then Some (unpack_items (fmt_items 0 fmt) (drop off b)) else None)"

definition first_byte :: "bytes \<Rightarrow> byte option" where
  "first_byte b = (case b of [] \<Rightarrow> None | x # _ \<Rightarrow> Some x)"

text \<open>\<open>value / 1e9\<close>, of an integer that need not be a double.\<close>

definition nanoseconds :: "int \<Rightarrow> flt" where
  "nanoseconds n = (case rnd (of_int n) of Fin x \<Rightarrow> rnd (x / 10 ^ 9) | a \<Rightarrow> a)"

definition vn_utc :: "bytes \<Rightarrow> utc option option" where
  "vn_utc chunk = do {
     v \<leftarrow> unpack_exact ''bBBBBBH'' chunk;
     let us = vint (v ! 6) * 1000;
     Some (if us \<le> 999999
           then map_option (\<lambda>t. t + us)
             (mk_datetime (2000 + vint (v ! 0)) (vint (v ! 1)) (vint (v ! 2)) (vint (v ! 3)) (vint (v ! 4)) (vint (v ! 5)))
           else None)
   }"

fun sat_records :: "bytes \<Rightarrow> nat list \<Rightarrow> vn_sat list option" where
  "sat_records chunk [] = Some []"
| "sat_records chunk (i # is) = do {
     v \<leftarrow> unpack_from ''bBBBBbh'' chunk (SATINFO_HEADER + SATINFO_RECORD * i);
     ss \<leftarrow> sat_records chunk is;
     Some (\<lparr>vs_sys = vint (v ! 0), vs_sv_id = vint (v ! 1), vs_flags = vint (v ! 2), vs_cno = vint (v ! 3),
       vs_qi = vint (v ! 4), vs_el = vint (v ! 5), vs_az = vint (v ! 6)\<rparr> # ss)
   }"

definition sat_info :: "bytes \<Rightarrow> vn_sat list option" where
  "sat_info chunk = do { n \<leftarrow> first_byte chunk; sat_records chunk [0..<unat n] }"

definition field_name :: "nat \<Rightarrow> nat \<Rightarrow> string" where
  "field_name g b =
     (let names = FIELD_NAMES ! g in if b < length names then names ! b else ''bit'' @ dec b)"

text \<open>The entries one field makes in the dict of its group.\<close>

definition field_entries :: "nat \<Rightarrow> nat \<Rightarrow> bytes \<Rightarrow> (string \<times> vn_value) list option" where
  "field_entries g b chunk =
     (if b = RAWMEAS_BIT then do {
        v \<leftarrow> unpack_from ''dHB'' chunk 0;
        Some [(''raw_meas'', VChunk chunk), (''raw_meas_count'', VScalar (v ! 2)),
              (''raw_meas_tow'', VScalar (v ! 0)), (''raw_meas_week'', VScalar (v ! 1))]
      } else
        let name = field_name g b in
        case map_of (FORMATS ! g) b of
          Some fmt \<Rightarrow> do {
            values \<leftarrow> unpack_exact fmt chunk;
            let v = (if length values = 1 then VScalar (values ! 0) else VTuple values);
            Some (if name = ''ins_status'' then [(name, VInsStatus (vint (values ! 0)))]
                  else if name = ''gps_tow'' \<or> g \<in> set GPS_GROUPS \<and> name = ''tow''
                  then [(name, v), (name @ ''_s'', VSeconds (nanoseconds (vint (values ! 0))))]
                  else [(name, v)])
          }
        | None \<Rightarrow>
          if name = ''utc'' then map_option (\<lambda>u. [(name, VUtc u)]) (vn_utc chunk)
          else if name = ''time_status'' then
            map_option (\<lambda>b. [(name, VTimeStatus (uint b AND 0x01 \<noteq> 0) (uint b AND 0x02 \<noteq> 0) (uint b AND 0x04 \<noteq> 0))])
              (first_byte chunk)
          else if name = ''time_info'' then
            map_option (\<lambda>v. [(name, VTimeInfo (vint (v ! 0)) (vint (v ! 1)))]) (unpack_exact ''Bb'' chunk)
          else if name = ''sat_info'' then map_option (\<lambda>s. [(name, VSats s)]) (sat_info chunk)
          else Some [(name, VChunk chunk)])"

definition put_entries :: "(string \<times> vn_value) list \<Rightarrow> (string \<Rightarrow> vn_value option) \<Rightarrow> string \<Rightarrow> vn_value option" where
  "put_entries es d = foldl (\<lambda>d (k, v). d(k \<mapsto> v)) d es"

fun parse_fields :: "bytes \<Rightarrow> layout \<Rightarrow> vn_dicts \<Rightarrow> vn_dicts option" where
  "parse_fields raw [] groups = Some groups"
| "parse_fields raw ((g, b, off, sz) # l) groups = do {
     gname \<leftarrow> GROUP_NAMES g;
     let out = (case groups gname of Some d \<Rightarrow> d | None \<Rightarrow> (\<lambda>_. None));
     es \<leftarrow> field_entries g b (py_slice off (off + sz) raw);
     parse_fields raw l (groups(gname \<mapsto> put_entries es out))
   }"

definition parse_binary :: "bytes \<Rightarrow> vn_dicts option" where
  "parse_binary raw =
     (case field_layout raw of Inl e \<Rightarrow> None | Inr l \<Rightarrow> parse_fields raw l (\<lambda>_. None))"

section \<open>ASCII lines\<close>

definition parse_ascii :: "bytes \<Rightarrow> vn_ascii option" where
  "parse_ascii raw =
     (let line = rstrip (\<lambda>b. b = 13 \<or> b = 10) raw in
      if list_ex (\<lambda>b. 128 \<le> b) line then None
      else
        let body = (case rfind1 42 line of Some star \<Rightarrow> py_slice 1 star line | None \<Rightarrow> drop 1 line);
            parts = split_at 44 body;
            cmd = decode_latin1 (drop 2 (hd parts)); rest = tl parts
        in if cmd \<in> {''RRG'', ''WRG''} then
             (case rest of
                [] \<Rightarrow> None
              | r # rs \<Rightarrow> map_option (\<lambda>n. \<lparr>va_cmd = cmd, va_register = Some n, va_fields = map decode_latin1 rs,
                                            va_error = None\<rparr>) (py_int10 r))
           else if cmd = ''ERR'' then
             (case rest of
                [] \<Rightarrow> None
              | r # rs \<Rightarrow> map_option (\<lambda>n. \<lparr>va_cmd = cmd, va_register = None, va_fields = map decode_latin1 rest,
                                            va_error = Some n\<rparr>) (py_int16 r))
           else Some \<lparr>va_cmd = cmd, va_register = None, va_fields = map decode_latin1 rest, va_error = None\<rparr>)"

definition vn_parse :: "frame \<Rightarrow> vn_parsed option" where
  "vn_parse f =
     (let raw = fr_raw f in
      if take 1 raw = [0xFA] then map_option VnBinary (parse_binary raw)
      else if take 3 raw = [36, 86, 78] then map_option VnAscii (parse_ascii raw)
      else None)"

section \<open>Complete frames\<close>

text \<open>The formats, the special layouts and the size table agree.\<close>

definition sized :: "nat \<Rightarrow> nat \<Rightarrow> bool" where
  "sized g b \<longleftrightarrow>
     (case map_of (FORMATS ! g) b of
        Some fmt \<Rightarrow> calcsize fmt = FIELD_SIZES ! g ! b
      | None \<Rightarrow>
          (if field_name g b = ''utc'' then FIELD_SIZES ! g ! b = calcsize ''bBBBBBH''
           else if field_name g b = ''time_status'' then FIELD_SIZES ! g ! b = 1
           else if field_name g b = ''time_info'' then FIELD_SIZES ! g ! b = calcsize ''Bb''
           else field_name g b = ''sat_info'' \<longrightarrow> g \<in> set GPS_GROUPS \<and> b = SATINFO_BIT))"

lemma tables_agree: "list_all (\<lambda>g. list_all (\<lambda>b. FIELD_SIZES ! g ! b = 0 \<or> sized g b) [0..<15]) [0..<7]"
  by code_simp

text \<open>What the walk puts into a layout.\<close>

definition laid_out :: "bytes \<Rightarrow> nat \<times> nat \<times> nat \<times> nat \<Rightarrow> bool" where
  "laid_out buf = (\<lambda>(g, b, off, sz).
     b = RAWMEAS_BIT \<and> 12 \<le> sz \<or>
     b < 15 \<and> FIELD_SIZES ! g ! b \<noteq> 0 \<and>
     (if g \<in> set GPS_GROUPS \<and> b = SATINFO_BIT then off < length buf \<and> sz = 2 + 8 * unat (buf ! off)
      else sz = FIELD_SIZES ! g ! b))"

lemma vn_bits_laid_out:
  "vn_bits buf g fw bs pos = Inr (Some (l, q)) \<Longrightarrow> set bs \<subseteq> {..<15} \<Longrightarrow> list_all (laid_out buf) l"
proof (induction bs arbitrary: pos l)
  case (Cons b bs)
  show ?case
  proof (cases "fw AND push_bit b 1 = 0")
    case True
    then show ?thesis using Cons by simp
  next
    case False
    then obtain n l' where w: "vn_size buf g b pos = Inr (Some n)"
      "vn_bits buf g fw bs (pos + n) = Inr (Some (l', q))" "l = (g, b, pos, n) # l'"
      using Cons.prems(1) by (auto simp: scan_bind_Some)
    have "laid_out buf (g, b, pos, n)"
      using w(1) Cons.prems(2)
      by (auto simp: vn_size_def laid_out_def Let_def SATINFO_HEADER_def SATINFO_RECORD_def split: if_splits)
    then show ?thesis using Cons.IH [OF w(2)] Cons.prems(2) w(3) by simp
  qed
qed simp

lemma vn_groups_laid_out:
  "vn_groups buf hs pos = Inr (Some (l, q)) \<Longrightarrow> list_all (laid_out buf) l"
proof (induction buf hs pos arbitrary: l rule: vn_groups.induct)
  case (2 buf g fw ext hs pos)
  from 2(2) obtain l1 p1 l2 p2 l3 where w: "vn_bits buf g fw [0..<15] pos = Inr (Some (l1, p1))"
    "vn_raw buf g ext p1 = Inr (Some (l2, p2))" "vn_groups buf hs p2 = Inr (Some (l3, q))"
    "l = l1 @ l2 @ l3"
    by (auto simp: scan_bind_Some)
  have "list_all (laid_out buf) l1" by (rule vn_bits_laid_out [OF w(1)]) (simp add: atLeast0LessThan)
  moreover have "list_all (laid_out buf) l2"
    using w(2) by (auto simp: vn_raw_def laid_out_def Let_def RAWMEAS_HEADER_def split: if_splits)
  moreover have "list_all (laid_out buf) l3" using 2(1) w by auto
  ultimately show ?case using w(4) by simp
qed simp

lemma tiles_bounds: "tiles l a z \<Longrightarrow> (g, b, off, sz) \<in> set l \<Longrightarrow> off + sz \<le> z"
proof (induction l a z rule: tiles.induct)
  case (2 g' b' pos n l a z)
  have "tiles l a' z \<Longrightarrow> a' \<le> z" for a' l by (induction l a' z rule: tiles.induct) auto
  then show ?case using 2 by auto
qed simp

lemma layout_entries:
  assumes "field_layout raw = Inr l" "binary_length raw = Inr (Some n)"
  shows "list_all (\<lambda>(g, b, off, sz). g < 7 \<and> laid_out raw (g, b, off, sz) \<and> off + sz \<le> n) l \<and> sorted_wrt field_before l"
proof -
  obtain n' where w: "vn_walk raw = Inr (Some (l, n'))"
    using assms(1) by (auto simp: field_layout_def split: sum.splits option.splits)
  then have n: "n' = n" using assms(2) by (simp add: binary_length_def scan_bind_def)
  obtain hs pos q where h: "vn_headers raw (uint (raw ! 1)) [0..<7] 2 = Inr (Some (hs, pos))"
    "vn_groups raw hs pos = Inr (Some (l, q))" "n' = q + 2"
    using w by (auto simp: vn_walk_def Let_def scan_bind_Some split: if_splits prod.splits)
  note s = vn_headers_Some [OF h(1)]
  have "sorted_wrt (<) (map fst hs)" using s sorted_wrt_subseq [of "map fst hs" "[0..<7]"] by simp
  note t = vn_groups_layout [OF h(2) this]
  have "set (map fst hs) \<subseteq> set [0..<7]" using s by (blast elim: list_emb_set)
  then have "set (map fst hs) \<subseteq> {..<7}" by (simp add: atLeast0LessThan)
  moreover have "(g, b, off, sz) \<in> set l \<Longrightarrow> off + sz \<le> n" for g b off sz
    using tiles_bounds t h(3) n by (metis trans_le_add1)
  ultimately show ?thesis
    using t vn_groups_laid_out [OF h(2)] by (fastforce simp: list_all_iff)
qed

section \<open>Every field of a complete frame decodes\<close>

lemma sat_records_some:
  "list_all (\<lambda>i. 2 + 8 * i + 8 \<le> length chunk) is \<Longrightarrow> sat_records chunk is \<noteq> None"
proof (induction "is")
  case (Cons i "is")
  have "calcsize ''bBBBBbh'' = 8" by code_simp
  then show ?case using Cons by (auto simp: unpack_from_def SATINFO_HEADER_def SATINFO_RECORD_def)
qed simp

lemma gps_groups: "g \<in> set GPS_GROUPS \<longleftrightarrow> g = 3 \<or> g = 6"
  by (auto simp: GPS_GROUPS_def)

lemma sat_info_field:
  "g \<in> set GPS_GROUPS \<Longrightarrow> map_of (FORMATS ! g) 14 = None \<and> field_name g 14 = ''sat_info''"
  unfolding gps_groups by (elim disjE) (simp_all add: FORMATS_def GPS_FORMATS_def field_name_def FIELD_NAMES_def GPS_NAMES_def)

lemma field_entries_some:
  assumes "g < 7" "laid_out raw (g, b, off, sz)" "off + sz \<le> length raw"
  shows "field_entries g b (py_slice off (off + sz) raw) \<noteq> None"
proof -
  let ?c = "py_slice off (off + sz) raw"
  have len: "length ?c = sz" using assms(3) by simp
  consider "b = RAWMEAS_BIT" "12 \<le> sz"
    | "g \<in> set GPS_GROUPS" "b = 14" "off < length raw" "sz = 2 + 8 * unat (raw ! off)"
    | "b < 15" "FIELD_SIZES ! g ! b \<noteq> 0" "sz = FIELD_SIZES ! g ! b" "\<not> (g \<in> set GPS_GROUPS \<and> b = 14)"
    using assms(2) by (auto simp: laid_out_def SATINFO_BIT_def split: if_splits)
  then show ?thesis
  proof cases
    case 1
    have "calcsize ''dHB'' = 11" by code_simp
    then show ?thesis using 1 len by (simp add: field_entries_def unpack_from_def)
  next
    case 2
    have c: "?c = raw ! off # take (1 + 8 * unat (raw ! off)) (drop (Suc off) raw)"
      using 2(3,4) by (simp add: py_slice_def Cons_nth_drop_Suc [symmetric])
    have "sat_records ?c [0..<unat (raw ! off)] \<noteq> None"
      by (rule sat_records_some) (use len 2(4) in \<open>auto simp: list_all_iff\<close>)
    then have "sat_info ?c \<noteq> None" unfolding sat_info_def by (simp add: first_byte_def c)
    then show ?thesis using sat_info_field [OF 2(1)] 2(2) by (simp add: field_entries_def RAWMEAS_BIT_def)
  next
    case 3
    have "FIELD_SIZES ! g ! b = 0 \<or> sized g b"
    proof -
      have "g \<in> set [0..<7]" "b \<in> set [0..<15]" using assms(1) 3(1) by simp_all
      then show ?thesis using tables_agree unfolding list_all_iff by blast
    qed
    then have "sized g b" using 3(2) by blast
    then have s: "map_of (FORMATS ! g) b = Some fmt \<Longrightarrow> calcsize fmt = sz"
      "map_of (FORMATS ! g) b = None \<Longrightarrow> field_name g b = ''utc'' \<Longrightarrow> sz = calcsize ''bBBBBBH''"
      "map_of (FORMATS ! g) b = None \<Longrightarrow> field_name g b = ''time_status'' \<Longrightarrow> sz = 1"
      "map_of (FORMATS ! g) b = None \<Longrightarrow> field_name g b = ''time_info'' \<Longrightarrow> sz = calcsize ''Bb''"
      "map_of (FORMATS ! g) b = None \<Longrightarrow> field_name g b \<noteq> ''sat_info''" for fmt
      using 3(3,4) by (auto simp: sized_def SATINFO_BIT_def split: option.splits if_splits)
    have one: "sz = 1 \<Longrightarrow> first_byte ?c \<noteq> None"
    proof -
      assume "sz = 1"
      then have "?c \<noteq> []" using len by (metis list.size(3) zero_neq_one)
      then show ?thesis by (simp add: first_byte_def split: list.split)
    qed
    show ?thesis
    proof (cases "map_of (FORMATS ! g) b")
      case (Some fmt)
      then show ?thesis using s(1) len 3(1) by (simp add: field_entries_def unpack_exact_def RAWMEAS_BIT_def Let_def)
    next
      case None
      then show ?thesis
        using s(2-5) one len 3(1)
        by (auto simp: field_entries_def unpack_exact_def RAWMEAS_BIT_def Let_def vn_utc_def)
    qed
  qed
qed

text \<open>The names under which a field is filed, whatever its bytes.\<close>

definition entry_keys :: "nat \<Rightarrow> nat \<Rightarrow> string list" where
  "entry_keys g b =
     (if b = RAWMEAS_BIT then [''raw_meas'', ''raw_meas_count'', ''raw_meas_tow'', ''raw_meas_week'']
      else let name = field_name g b in
        if map_of (FORMATS ! g) b \<noteq> None \<and> name \<noteq> ''ins_status'' \<and>
          (name = ''gps_tow'' \<or> g \<in> set GPS_GROUPS \<and> name = ''tow'')
        then [name, name @ ''_s''] else [name])"

lemma field_entries_keys: "field_entries g b chunk = Some es \<Longrightarrow> map fst es = entry_keys g b"
  by (auto simp: field_entries_def entry_keys_def Let_def split: if_splits option.splits bind_splits)

lemma keys_distinct: "list_all (\<lambda>g. distinct (concat (map (entry_keys g) ([0..<15] @ [16])))) [0..<7]"
  by code_simp

lemma groups_named: "list_all (\<lambda>g. GROUP_NAMES g \<noteq> None) [0..<7]" "distinct (map GROUP_NAMES [0..<7])"
  by code_simp+

lemma parse_field_facts:
  assumes "g < 7"
  shows "\<exists>gn. GROUP_NAMES g = Some gn" "distinct (concat (map (entry_keys g) ([0..<15] @ [16])))"
    "g' < 7 \<Longrightarrow> GROUP_NAMES g = GROUP_NAMES g' \<Longrightarrow> g = g'"
proof -
  have m: "g \<in> set [0..<7]" using assms by simp
  show "\<exists>gn. GROUP_NAMES g = Some gn" using groups_named(1) m unfolding list_all_iff by blast
  show "distinct (concat (map (entry_keys g) ([0..<15] @ [16])))"
    using keys_distinct m unfolding list_all_iff by blast
  show "g = g'" if "g' < 7" "GROUP_NAMES g = GROUP_NAMES g'"
    using groups_named(2) m that unfolding distinct_map inj_on_def by simp
qed

lemma distinct_concat_apart:
  "distinct (concat (map f bs)) \<Longrightarrow> x \<in> set bs \<Longrightarrow> y \<in> set bs \<Longrightarrow> x \<noteq> y \<Longrightarrow> set (f x) \<inter> set (f y) = {}"
  by (induction bs) auto

text \<open>The entry of a dict of dicts, and what the fields of a layout put there.\<close>

definition entry_at :: "vn_dicts \<Rightarrow> string \<times> string \<Rightarrow> vn_value option" where
  "entry_at gs = (\<lambda>(gn, k). case gs gn of None \<Rightarrow> None | Some d \<Rightarrow> d k)"

definition decoded :: "bytes \<Rightarrow> nat \<times> nat \<times> nat \<times> nat \<Rightarrow> ((string \<times> string) \<times> vn_value) list" where
  "decoded raw = (\<lambda>(g, b, off, sz).
     map (\<lambda>(k, v). ((the (GROUP_NAMES g), k), v)) (the (field_entries g b (py_slice off (off + sz) raw))))"

lemma put_entries_map: "put_entries es d = d ++ map_of (rev es)"
proof (induction es arbitrary: d)
  case (Cons e es)
  have "put_entries (e # es) d = put_entries es (d(fst e \<mapsto> snd e))" by (cases e) (simp add: put_entries_def)
  then show ?case using Cons by (cases e) (simp add: map_add_def fun_eq_iff split: option.split)
qed (simp add: put_entries_def)

lemma map_of_pair_key: "map_of (map (\<lambda>(k, v). ((gn, k), v)) es) (gn', k') = (if gn = gn' then map_of es k' else None)"
  by (induction es) auto

lemma parse_fields_spec:
  assumes "list_all (\<lambda>(g, b, off, sz). g < 7 \<and> field_entries g b (py_slice off (off + sz) raw) \<noteq> None) l"
  shows "\<exists>gs'. parse_fields raw l gs = Some gs' \<and>
    (\<forall>p. entry_at gs' p = (case map_of (rev (concat (map (decoded raw) l))) p of Some v \<Rightarrow> Some v | None \<Rightarrow> entry_at gs p)) \<and>
    dom gs' = dom gs \<union> (\<lambda>e. the (GROUP_NAMES (fst e))) ` set l"
  using assms
proof (induction l arbitrary: gs)
  case (Cons e l)
  obtain g b off sz where e: "e = (g, b, off, sz)" by (cases e) auto
  have g: "g < 7" "field_entries g b (py_slice off (off + sz) raw) \<noteq> None" using Cons.prems by (simp_all add: e)
  obtain gn where gn: "GROUP_NAMES g = Some gn" using parse_field_facts(1) [OF g(1)] by blast
  obtain es where es: "field_entries g b (py_slice off (off + sz) raw) = Some es" using g(2) by blast
  define out where "out = (case gs gn of Some d \<Rightarrow> d | None \<Rightarrow> (\<lambda>_. None))"
  define gs1 where "gs1 = gs(gn \<mapsto> put_entries es out)"
  have step: "parse_fields raw (e # l) gs = parse_fields raw l gs1"
    by (simp add: e gn es gs1_def out_def Let_def)
  have d: "decoded raw e = map (\<lambda>(k, v). ((gn, k), v)) es" by (simp add: decoded_def e gn es)
  have one: "entry_at gs1 p = (case map_of (rev (decoded raw e)) p of Some v \<Rightarrow> Some v | None \<Rightarrow> entry_at gs p)" for p
    by (cases p) (auto simp: d rev_map map_of_pair_key entry_at_def gs1_def put_entries_map out_def map_add_def split: option.splits)
  obtain gs' where gs': "parse_fields raw l gs1 = Some gs'"
    "\<And>p. entry_at gs' p = (case map_of (rev (concat (map (decoded raw) l))) p of Some v \<Rightarrow> Some v | None \<Rightarrow> entry_at gs1 p)"
    "dom gs' = dom gs1 \<union> (\<lambda>e. the (GROUP_NAMES (fst e))) ` set l"
    using Cons.IH [of gs1] Cons.prems by auto
  have "entry_at gs' p = (case map_of (rev (concat (map (decoded raw) (e # l)))) p of Some v \<Rightarrow> Some v | None \<Rightarrow> entry_at gs p)" for p
    by (simp add: gs'(2) one map_add_def split: option.split)
  moreover have "dom gs1 = insert gn (dom gs)" by (simp add: gs1_def)
  ultimately show ?case using gs'(1,3) step by (auto simp: e gn)
qed (simp add: entry_at_def)

lemma decoded_distinct:
  assumes "list_all (\<lambda>(g, b, off, sz). g < 7 \<and> laid_out raw (g, b, off, sz) \<and> off + sz \<le> length raw) l"
    and "sorted_wrt field_before l"
  shows "distinct (map fst (concat (map (decoded raw) l)))"
  using assms
proof (induction l)
  case (Cons e l)
  obtain g b off sz where e: "e = (g, b, off, sz)" by (cases e) auto
  have g: "g < 7" "laid_out raw e" "off + sz \<le> length raw" using Cons.prems(1) by (simp_all add: e)
  have keys: "map fst (decoded raw x) = map (Pair (the (GROUP_NAMES (fst x)))) (entry_keys (fst x) (fst (snd x)))"
    if "x \<in> set (e # l)" for x
  proof -
    obtain g b off sz where x: "x = (g, b, off, sz)" by (cases x) auto
    have "field_entries g b (py_slice off (off + sz) raw) \<noteq> None"
      using that Cons.prems(1) field_entries_some [of g raw b off sz] by (auto simp: x list_all_iff)
    then obtain es where es: "field_entries g b (py_slice off (off + sz) raw) = Some es" by blast
    have "map fst (map (\<lambda>(k, v). ((gn, k), v)) es) = map (Pair gn) (map fst es)" for gn :: string
      by (induction es) auto
    then show ?thesis by (simp add: x decoded_def es field_entries_keys [OF es])
  qed
  have bit: "fst (snd x) \<in> set ([0..<15] @ [16])" if "x \<in> set (e # l)" for x
    using that Cons.prems(1) by (cases x) (auto simp: list_all_iff laid_out_def RAWMEAS_BIT_def e)
  have "distinct (entry_keys g b)"
    using parse_field_facts(2) [OF g(1)] bit [of e] by (auto simp: e distinct_concat_iff)
  then have head: "distinct (map fst (decoded raw e))"
    by (simp add: keys e distinct_map inj_on_def)
  have apart: "set (map fst (decoded raw e)) \<inter> set (map fst (decoded raw x)) = {}" if x: "x \<in> set l" for x
  proof -
    have "field_before e x" using Cons.prems(2) x by simp
    then consider "fst e \<noteq> fst x" | "fst e = fst x" "fst (snd e) \<noteq> fst (snd x)" by (auto simp: field_before_def)
    then show ?thesis
    proof cases
      case 1
      have "fst x < 7" using Cons.prems(1) x by (cases x) (auto simp: list_all_iff)
      then have "GROUP_NAMES g \<noteq> GROUP_NAMES (fst x)" using parse_field_facts(3) [OF g(1)] 1 by (auto simp: e)
      then have "the (GROUP_NAMES (fst e)) \<noteq> the (GROUP_NAMES (fst x))"
        using parse_field_facts(1) [OF g(1)] parse_field_facts(1) [OF \<open>fst x < 7\<close>] by (auto simp: e)
      then show ?thesis using keys [of x] keys [of e] x by auto
    next
      case 2
      have "set (entry_keys g b) \<inter> set (entry_keys g (fst (snd x))) = {}"
        using distinct_concat_apart [OF parse_field_facts(2) [OF g(1)], of b "fst (snd x)"] bit [of e] bit [of x] x 2
        by (simp add: e)
      then show ?thesis using keys [of x] keys [of e] x 2 by (auto simp: e)
    qed
  qed
  have "distinct (map fst (concat (map (decoded raw) l)))" using Cons by auto
  moreover have "set (map fst (decoded raw e)) \<inter> set (map fst (concat (map (decoded raw) l))) = {}"
  proof -
    have "set (map fst (concat (map (decoded raw) l))) = (\<Union>x\<in>set l. set (map fst (decoded raw x)))"
      by (simp add: image_UN)
    then show ?thesis using apart by blast
  qed
  ultimately show ?case using head by simp
qed simp

text \<open>
  C22. A complete binary frame always parses: its dicts are those of its groups, and hold exactly what
  each field of the layout decodes to from its own bytes, none of it overwritten by another field.
\<close>

theorem vn_binary_parses:
  assumes "field_layout raw = Inr l" "binary_length raw = Inr (Some n)" "n \<le> length raw" "take 1 raw = [0xFA]"
    and "fr_raw f = raw"
  shows "\<exists>gs. vn_parse f = Some (VnBinary gs) \<and>
    dom gs = (\<lambda>e. the (GROUP_NAMES (fst e))) ` set l \<and>
    list_all (\<lambda>(g, b, off, sz). \<exists>es. field_entries g b (py_slice off (off + sz) raw) = Some es \<and>
      list_all (\<lambda>(k, v). entry_at gs (the (GROUP_NAMES g), k) = Some v) es) l \<and>
    (\<forall>p. entry_at gs p \<noteq> None \<longleftrightarrow> p \<in> fst ` set (concat (map (decoded raw) l)))"
proof -
  have l: "list_all (\<lambda>(g, b, off, sz). g < 7 \<and> laid_out raw (g, b, off, sz) \<and> off + sz \<le> length raw) l"
    and s: "sorted_wrt field_before l"
    using layout_entries [OF assms(1,2)] assms(3) by (auto simp: list_all_iff)
  have some: "list_all (\<lambda>(g, b, off, sz). g < 7 \<and> field_entries g b (py_slice off (off + sz) raw) \<noteq> None) l"
    using l field_entries_some by (fastforce simp: list_all_iff)
  have none: "entry_at (\<lambda>_. None) p = None" for p by (cases p) (simp add: entry_at_def)
  obtain gs where g: "parse_fields raw l (\<lambda>_. None) = Some gs"
    "\<forall>p. entry_at gs p = (case map_of (rev (concat (map (decoded raw) l))) p of Some v \<Rightarrow> Some v | None \<Rightarrow> entry_at (\<lambda>_. None) p)"
    "dom gs = dom (\<lambda>_. None :: (string \<Rightarrow> vn_value option) option) \<union> (\<lambda>e. the (GROUP_NAMES (fst e))) ` set l"
    using parse_fields_spec [OF some, of "\<lambda>_. None"] by blast
  have gs: "parse_fields raw l (\<lambda>_. None) = Some gs"
    "\<And>p. entry_at gs p = map_of (rev (concat (map (decoded raw) l))) p"
    "dom gs = (\<lambda>e. the (GROUP_NAMES (fst e))) ` set l"
  proof -
    show "entry_at gs p = map_of (rev (concat (map (decoded raw) l))) p" for p
      using spec [OF g(2), of p] none by (cases "map_of (rev (concat (map (decoded raw) l))) p") simp_all
  qed (use g in simp_all)
  have d: "distinct (map fst (rev (concat (map (decoded raw) l))))"
    using decoded_distinct [OF l s] by (simp add: rev_map [symmetric] del: map_concat)
  have "list_all (\<lambda>(g, b, off, sz). \<exists>es. field_entries g b (py_slice off (off + sz) raw) = Some es \<and>
      list_all (\<lambda>(k, v). entry_at gs (the (GROUP_NAMES g), k) = Some v) es) l"
    unfolding list_all_iff
  proof clarify
    fix g b off sz
    assume e: "(g, b, off, sz) \<in> set l"
    then obtain es where es: "field_entries g b (py_slice off (off + sz) raw) = Some es"
      using some by (fastforce simp: list_all_iff)
    have "entry_at gs (the (GROUP_NAMES g), k) = Some v" if "(k, v) \<in> set es" for k v
    proof -
      have "((the (GROUP_NAMES g), k), v) \<in> set (decoded raw (g, b, off, sz))"
        using that es by (force simp: decoded_def)
      then have "((the (GROUP_NAMES g), k), v) \<in> set (rev (concat (map (decoded raw) l)))" using e by auto
      then show ?thesis unfolding gs(2) using map_of_is_SomeI [OF d] by blast
    qed
    then show "\<exists>es. field_entries g b (py_slice off (off + sz) raw) = Some es \<and>
        (\<forall>x\<in>set es. case x of (k, v) \<Rightarrow> entry_at gs (the (GROUP_NAMES g), k) = Some v)"
      using es by auto
  qed
  moreover have "entry_at gs p \<noteq> None \<longleftrightarrow> p \<in> fst ` set (concat (map (decoded raw) l))" for p
    unfolding gs(2) by (simp add: map_of_eq_None_iff del: set_concat)
  moreover have "vn_parse f = Some (VnBinary gs)"
    using assms(1,4,5) gs(1) by (simp add: vn_parse_def parse_binary_def Let_def)
  ultimately show ?thesis using gs(3) by blast
qed

lemma vn_binary_parses_witness:
  "\<exists>gs. vn_parse \<lparr>fr_proto = VN, fr_raw = [0xFA, 1, 0, 0x20, 7, 0, 0, 0, 0, 0], fr_t_mono = 0, fr_t_host = 0\<rparr> =
       Some (VnBinary gs) \<and> dom gs = {''common''}"
proof -
  let ?raw = "[0xFA, 1, 0, 0x20, 7, 0, 0, 0, 0, 0] :: bytes"
  have l: "field_layout ?raw = Inr [(0, 13, 4, 4)]" by code_simp
  have n: "binary_length ?raw = Inr (Some 10)" by code_simp
  have g: "GROUP_NAMES 0 = Some ''common''" by code_simp
  show ?thesis
    using vn_binary_parses [OF l n, of "\<lparr>fr_proto = VN, fr_raw = ?raw, fr_t_mono = 0, fr_t_host = 0\<rparr>"] g by auto
qed

end
