(* ===== verification/VnRegisters.thy ===== *)
theory VnRegisters
  imports VnParse VnFramer
begin

text \<open>
  Register access over the VectorNav ASCII protocol, \<open>src/mtrtk/rover/drivers/vectornav/registers.py\<close>:
  matching a reply to its request, the retries of \<open>_exchange\<close>, reads, writes and commands, and the text
  of the binary output registers. What the unit sends while one attempt waits is an argument: the
  frames routed in that time and whether the link drops then, which is what \<open>InsController.request\<close>
  (\<open>ins_common.py\<close>) makes an answer of. Values to write are texts already formatted.
\<close>

section \<open>Registers and errors\<close>

definition REG_MODEL :: nat where "REG_MODEL = 1"
definition REG_HW_REV :: nat where "REG_HW_REV = 2"
definition REG_SERIAL :: nat where "REG_SERIAL = 3"
definition REG_FIRMWARE :: nat where "REG_FIRMWARE = 4"
definition REG_ASYNC_TYPE :: nat where "REG_ASYNC_TYPE = 6"
definition REG_BINARY_OUTPUT :: "(nat \<times> nat) list" where "REG_BINARY_OUTPUT = [(1, 75), (2, 76), (3, 77)]"
definition COMMANDS :: "string list" where "COMMANDS = [''WNV'', ''RST'', ''RFS'']"

definition ERROR_NAMES :: "(int \<times> string) list" where
  "ERROR_NAMES =
     [(1, ''HardFault''), (2, ''SerialBufferOverflow''), (3, ''InvalidChecksum''), (4, ''InvalidCommand''),
      (5, ''NotEnoughParameters''), (6, ''TooManyParameters''), (7, ''InvalidParameter''), (8, ''InvalidRegister''),
      (9, ''UnauthorizedAccess''), (10, ''WatchdogReset''), (11, ''OutputBufferOverflow''),
      (12, ''InsufficientBaudRate''), (255, ''ErrorBufferOverflow'')]"

definition error_name :: "int \<Rightarrow> string" where
  "error_name code = (case py_dict ERROR_NAMES code of Some n \<Rightarrow> n | None \<Rightarrow> ''Unknown'')"

definition TRANSPORT_ERRORS :: "int list" where "TRANSPORT_ERRORS = [2, 3, 4, 11, 255]"

datatype vn_exn = VnError int | TimeoutError | ConnectionError | BadCommand | BadReply

section \<open>One request\<close>

definition is_reply :: "frame \<Rightarrow> vn_ascii option" where
  "is_reply f =
     (if fr_proto f \<noteq> VN \<or> take 1 (fr_raw f) \<noteq> [36] then None
      else case vn_parse f of Some (VnAscii a) \<Rightarrow> Some a | _ \<Rightarrow> None)"

definition reply_matches :: "string \<Rightarrow> int option \<Rightarrow> frame \<Rightarrow> bool" where
  "reply_matches match_cmd reg f =
     (case is_reply f of
        None \<Rightarrow> False
      | Some reply \<Rightarrow> va_error reply \<noteq> None \<or> va_cmd reply = match_cmd \<and> va_register reply = reg)"

text \<open>What happens while one attempt waits.\<close>

record window =
  w_frames :: "frame list"
  w_down :: bool

datatype response = Reply frame | NoReply | LinkDown

definition vn_request :: "(frame \<Rightarrow> bool) \<Rightarrow> window \<Rightarrow> response" where
  "vn_request match w =
     (case find match (w_frames w) of
        Some f \<Rightarrow> Reply f | None \<Rightarrow> if w_down w then LinkDown else NoReply)"

text \<open>The attempts of \<open>_exchange\<close>: the answer, and how many lines were given to the controller to send, whose write
  may itself fail. \<open>prior\<close> is the last transport error.\<close>

fun attempts :: "(frame \<Rightarrow> bool) \<Rightarrow> int option \<Rightarrow> window list \<Rightarrow> (vn_exn + vn_ascii) \<times> nat" where
  "attempts match prior [] = (Inl (case prior of Some e \<Rightarrow> VnError e | None \<Rightarrow> TimeoutError), 0)"
| "attempts match prior (w # ws) =
     (case vn_request match w of
        NoReply \<Rightarrow> (let (r, n) = attempts match None ws in (r, Suc n))
      | LinkDown \<Rightarrow> (Inl ConnectionError, 1)
      | Reply f \<Rightarrow>
          (case is_reply f of
             None \<Rightarrow> (Inl BadReply, 1)
           | Some reply \<Rightarrow>
               (case va_error reply of
                  Some e \<Rightarrow>
                    (if e \<in> set TRANSPORT_ERRORS then
                       (let (r, n) = attempts match (Some e) ws in (r, Suc n))
                     else (Inl (VnError e), 1))
                | None \<Rightarrow> (Inr reply, 1))))"

definition exchange ::
  "string \<Rightarrow> string \<Rightarrow> int option \<Rightarrow> int \<Rightarrow> (nat \<Rightarrow> window) \<Rightarrow> (vn_exn + vn_ascii) \<times> bytes list" where
  "exchange body match_cmd reg retries wire =
     (let line = finalize_ascii (encode_latin1 body) False;
          (r, n) = attempts (reply_matches match_cmd reg) None (map wire [0..<nat (max 1 retries)])
      in (r, replicate n line))"

definition map_reply :: "('a \<Rightarrow> 'b) \<Rightarrow> 'e + 'a \<Rightarrow> 'e + 'b" where
  "map_reply f r = (case r of Inl e \<Rightarrow> Inl e | Inr x \<Rightarrow> Inr (f x))"

definition vn_read :: "nat \<Rightarrow> int \<Rightarrow> (nat \<Rightarrow> window) \<Rightarrow> (vn_exn + string list) \<times> bytes list" where
  "vn_read reg retries wire =
     (case exchange (''VNRRG,'' @ zpad 2 reg) ''RRG'' (Some (int reg)) retries wire of
        (r, sent) \<Rightarrow> (map_reply va_fields r, sent))"

definition vn_write ::
  "nat \<Rightarrow> string list \<Rightarrow> int \<Rightarrow> (nat \<Rightarrow> window) \<Rightarrow> (vn_exn + string list) \<times> bytes list" where
  "vn_write reg vals retries wire =
     (case exchange (join '','' ((''VNWRG,'' @ zpad 2 reg) # vals)) ''WRG'' (Some (int reg)) retries wire of
        (r, sent) \<Rightarrow> (map_reply va_fields r, sent))"

definition vn_command :: "string \<Rightarrow> int \<Rightarrow> (nat \<Rightarrow> window) \<Rightarrow> (vn_exn + unit) \<times> bytes list" where
  "vn_command name retries wire =
     (if name \<notin> set COMMANDS then (Inl BadCommand, [])
      else case exchange (''VN'' @ name) name None retries wire of
             (r, sent) \<Rightarrow> (map_reply (\<lambda>_. ()) r, sent))"

definition await_binary :: "window \<Rightarrow> vn_exn + bool" where
  "await_binary w =
     (case vn_request (\<lambda>f. fr_proto f = VN \<and> take 1 (fr_raw f) = [0xFA]) w of
        Reply f \<Rightarrow> Inr True | NoReply \<Rightarrow> Inr False | LinkDown \<Rightarrow> Inl ConnectionError)"

definition vn_model :: "int \<Rightarrow> (nat \<Rightarrow> window) \<Rightarrow> vn_exn + string" where
  "vn_model retries wire = map_reply (join '','') (fst (vn_read REG_MODEL retries wire))"

section \<open>The binary output registers\<close>

record binary_output =
  bo_async_mode :: int
  bo_divisor :: int
  bo_fields :: "(string \<times> int) list"
  bo_gps_ext :: "int option"

definition group_bit :: "string \<Rightarrow> nat option" where
  "group_bit = py_dict GROUP_BITS"

text \<open>\<open>f"{n:X}"\<close>\<close>

definition hexX :: "int \<Rightarrow> string" where
  "hexX n = (if n < 0 then CHR ''-'' # hex_upper (nat (- n)) else hex_upper (nat n))"

definition group_words :: "int option \<Rightarrow> string \<Rightarrow> int \<Rightarrow> string list" where
  "group_words gps_ext name value =
     (let m = value AND NOT EXT_FLAG in
      if group_bit name = group_bit ''gps'' \<and> gps_ext \<noteq> None \<and> gps_ext \<noteq> Some 0
      then [hexX (m OR EXT_FLAG), hexX (the gps_ext)] else [hexX m])"

text \<open>The dict is a list of its items, without a repeated key.\<close>

definition encode_binary_output :: "binary_output \<Rightarrow> py_error + string list" where
  "encode_binary_output c =
     (if list_ex (\<lambda>(k, v). group_bit k = None) (bo_fields c) then Inl KeyError
      else
        let items = sort_key (\<lambda>(k, v). the (group_bit k)) (bo_fields c);
            groups = foldl (\<lambda>acc (k, v). acc OR push_bit (the (group_bit k)) 1) 0 items
        in Inr ([dec_int (bo_async_mode c), dec_int (bo_divisor c), hexX groups] @
                concat (map (\<lambda>(k, v). group_words (bo_gps_ext c) k v) items)))"

fun decode_groups ::
  "int \<Rightarrow> nat list \<Rightarrow> int list \<Rightarrow> int option \<Rightarrow> py_error + (string \<times> int) list \<times> int option" where
  "decode_groups groups [] ws ext = Inr ([], ext)"
| "decode_groups groups (g # gs) ws ext =
     (if groups AND push_bit g 1 = 0 then decode_groups groups gs ws ext
      else case ws of
        [] \<Rightarrow> Inl IndexError
      | m # ws1 \<Rightarrow>
          (let go = (\<lambda>ws2 ext2.
                 case decode_groups groups gs ws2 ext2 of
                   Inl e \<Rightarrow> Inl e
                 | Inr (fs, x) \<Rightarrow> Inr ((the (GROUP_NAMES g), m AND NOT EXT_FLAG) # fs, x))
           in if m AND EXT_FLAG \<noteq> 0 \<and> g \<in> set GPS_GROUPS then
                (case ws1 of
                   [] \<Rightarrow> Inl IndexError
                 | e # ws2 \<Rightarrow> go ws2 (if Some g = group_bit ''gps'' then Some e else ext))
              else go ws1 ext))"

fun all_ints :: "(bytes \<Rightarrow> int option) \<Rightarrow> string list \<Rightarrow> int list option" where
  "all_ints conv [] = Some []"
| "all_ints conv (v # vs) =
     (case (conv (encode_latin1 v), all_ints conv vs) of (Some x, Some xs) \<Rightarrow> Some (x # xs) | _ \<Rightarrow> None)"

definition decode_binary_output :: "string list \<Rightarrow> py_error + binary_output" where
  "decode_binary_output values =
     (case values of
        a # d # g # rest \<Rightarrow>
          (case (py_int10 (encode_latin1 a), py_int10 (encode_latin1 d), py_int16 (encode_latin1 g), all_ints py_int16 rest) of
             (Some am, Some dv, Some gr, Some ws) \<Rightarrow>
               (case decode_groups gr [0..<7] ws None of
                  Inl e \<Rightarrow> Inl e
                | Inr (fs, x) \<Rightarrow> Inr \<lparr>bo_async_mode = am, bo_divisor = dv, bo_fields = fs, bo_gps_ext = x\<rparr>)
           | _ \<Rightarrow> Inl ValueError)
      | [a, d] \<Rightarrow>
          (case (py_int10 (encode_latin1 a), py_int10 (encode_latin1 d)) of
             (Some am, Some dv) \<Rightarrow> Inl IndexError | _ \<Rightarrow> Inl ValueError)
      | [a] \<Rightarrow> (case py_int10 (encode_latin1 a) of Some am \<Rightarrow> Inl IndexError | None \<Rightarrow> Inl ValueError)
      | [] \<Rightarrow> Inl IndexError)"

definition write_binary_output ::
  "nat \<Rightarrow> binary_output \<Rightarrow> int \<Rightarrow> (nat \<Rightarrow> window) \<Rightarrow> py_error + (vn_exn + string list) \<times> bytes list" where
  "write_binary_output n c retries wire =
     (case encode_binary_output c of
        Inl e \<Rightarrow> Inl e
      | Inr out \<Rightarrow> (case map_of REG_BINARY_OUTPUT n of
                      None \<Rightarrow> Inl KeyError | Some reg \<Rightarrow> Inr (vn_write reg out retries wire)))"

definition read_binary_output ::
  "nat \<Rightarrow> int \<Rightarrow> (nat \<Rightarrow> window) \<Rightarrow> py_error + (vn_exn + (py_error + binary_output)) \<times> bytes list" where
  "read_binary_output n retries wire =
     (case map_of REG_BINARY_OUTPUT n of
        None \<Rightarrow> Inl KeyError
      | Some reg \<Rightarrow> (case vn_read reg retries wire of (r, sent) \<Rightarrow> Inr (map_reply decode_binary_output r, sent)))"

section \<open>The retries\<close>

text \<open>An attempt that is sent again: no answer in time, or an error of the link.\<close>

definition transport_error :: "(frame \<Rightarrow> bool) \<Rightarrow> window \<Rightarrow> int option" where
  "transport_error match w =
     (case vn_request match w of
        Reply f \<Rightarrow> (case is_reply f of
                      Some a \<Rightarrow> (case va_error a of
                                   Some e \<Rightarrow> if e \<in> set TRANSPORT_ERRORS then Some e else None
                                 | None \<Rightarrow> None)
                    | None \<Rightarrow> None)
      | _ \<Rightarrow> None)"

definition soft :: "(frame \<Rightarrow> bool) \<Rightarrow> window \<Rightarrow> bool" where
  "soft match w \<longleftrightarrow> vn_request match w = NoReply \<or> transport_error match w \<noteq> None"

text \<open>What the first attempt that is not sent again makes of the exchange.\<close>

definition verdict_of :: "(frame \<Rightarrow> bool) \<Rightarrow> window \<Rightarrow> vn_exn + vn_ascii" where
  "verdict_of match w =
     (case vn_request match w of
        NoReply \<Rightarrow> Inl TimeoutError
      | LinkDown \<Rightarrow> Inl ConnectionError
      | Reply f \<Rightarrow> (case is_reply f of
                      None \<Rightarrow> Inl BadReply
                    | Some a \<Rightarrow> (case va_error a of Some e \<Rightarrow> Inl (VnError e) | None \<Rightarrow> Inr a)))"

lemma attempts_soft:
  "soft match w \<Longrightarrow>
   attempts match prior (w # ws) = apsnd Suc (attempts match (transport_error match w) ws)"
  by (auto simp: soft_def transport_error_def split: response.splits option.splits if_splits prod.splits)

lemma attempts_hard: "\<not> soft match w \<Longrightarrow> attempts match prior (w # ws) = (verdict_of match w, 1)"
  by (auto simp: soft_def transport_error_def verdict_of_def split: response.splits option.splits)

lemma attempts_result:
  "attempts match prior ws =
    (let k = length (takeWhile (soft match) ws) in
     (if k < length ws then verdict_of match (ws ! k)
      else Inl (case (if ws = [] then prior else transport_error match (last ws)) of
                  Some e \<Rightarrow> VnError e | None \<Rightarrow> TimeoutError),
      min (length ws) (Suc k)))"
proof (induction ws arbitrary: prior)
  case (Cons w ws)
  show ?case
  proof (cases "soft match w")
    case True
    then show ?thesis using Cons.IH [of "transport_error match w"]
      by (simp add: attempts_soft Let_def del: attempts.simps)
  qed (simp add: attempts_hard del: attempts.simps)
qed simp

lemma request_reply: "vn_request match w = Reply f \<Longrightarrow> f \<in> set (w_frames w) \<and> match f"
  by (auto simp: vn_request_def find_Some_iff split: option.splits if_splits)

lemma reply_matchesD:
  "reply_matches c reg f \<Longrightarrow> \<exists>a. vn_parse f = Some (VnAscii a) \<and> is_reply f = Some a \<and> fr_proto f = VN \<and>
     (va_error a \<noteq> None \<or> va_cmd a = c \<and> va_register a = reg)"
  by (auto simp: reply_matches_def is_reply_def split: option.splits if_splits vn_parsed.splits)

text \<open>The answer of one attempt, as the callers see it.\<close>

definition answered :: "string \<Rightarrow> int option \<Rightarrow> window \<Rightarrow> vn_ascii \<Rightarrow> bool" where
  "answered c reg w a =
     list_ex (\<lambda>f. vn_request (reply_matches c reg) w = Reply f \<and> vn_parse f = Some (VnAscii a)) (w_frames w)"

lemma answered_iff:
  "answered c reg w a \<longleftrightarrow>
     (\<exists>f. vn_request (reply_matches c reg) w = Reply f \<and> vn_parse f = Some (VnAscii a))"
  by (auto simp: answered_def list_ex_iff dest: request_reply)

lemma verdict_of_reply:
  assumes "verdict_of (reply_matches c reg) w = r"
  shows "case r of
      Inr a \<Rightarrow> answered c reg w a \<and> va_error a = None \<and> va_cmd a = c \<and> va_register a = reg
    | Inl (VnError e) \<Rightarrow> \<exists>a. answered c reg w a \<and> va_error a = Some e
    | Inl ConnectionError \<Rightarrow> vn_request (reply_matches c reg) w = LinkDown
    | Inl TimeoutError \<Rightarrow> vn_request (reply_matches c reg) w = NoReply
    | Inl _ \<Rightarrow> False"
proof (cases "vn_request (reply_matches c reg) w")
  case (Reply f)
  obtain a where "vn_parse f = Some (VnAscii a)" "is_reply f = Some a"
    "va_error a \<noteq> None \<or> va_cmd a = c \<and> va_register a = reg"
    using reply_matchesD request_reply [OF Reply] by blast
  then show ?thesis using assms Reply by (auto simp: verdict_of_def answered_iff split: option.splits)
qed (use assms in \<open>auto simp: verdict_of_def\<close>)

lemma transport_answered:
  "transport_error (reply_matches c reg) w = Some e \<Longrightarrow>
     e \<in> set TRANSPORT_ERRORS \<and> (\<exists>a. answered c reg w a \<and> va_error a = Some e)"
  by (auto simp: transport_error_def answered_iff dest!: request_reply reply_matchesD
    split: response.splits option.splits if_splits) 

text \<open>How many attempts are sent again.\<close>

definition retried :: "string \<Rightarrow> int option \<Rightarrow> nat \<Rightarrow> (nat \<Rightarrow> window) \<Rightarrow> nat" where
  "retried c reg n wire = length (takeWhile (\<lambda>i. soft (reply_matches c reg) (wire i)) [0..<n])"

lemma retried_le: "retried c reg n wire \<le> n"
  using length_takeWhile_le [of "\<lambda>i. soft (reply_matches c reg) (wire i)" "[0..<n]"] by (simp add: retried_def)

lemma exchange_result:
  assumes "n = nat (max 1 retries)"
  shows "exchange body c reg retries wire =
    (let k = retried c reg n wire in
     (if k < n then verdict_of (reply_matches c reg) (wire k)
      else Inl (case transport_error (reply_matches c reg) (wire (n - 1)) of
                  Some e \<Rightarrow> VnError e | None \<Rightarrow> TimeoutError),
      replicate (min n (Suc k)) (finalize_ascii (encode_latin1 body) False)))"
proof -
  have n: "0 < n" using assms by simp
  have "length (takeWhile (soft m) (map wire [0..<n])) = length (takeWhile (\<lambda>i. soft m (wire i)) [0..<n])" for m
    by (simp add: takeWhile_map comp_def)
  moreover have "last (map wire [0..<n]) = wire (n - 1)" using n by (simp add: last_map)
  ultimately show ?thesis
    using n assms by (simp add: exchange_def attempts_result Let_def retried_def split del: if_split cong: if_cong)
qed

lemma exhausted:
  assumes "retried c reg n wire = n" "0 < n"
  shows "soft (reply_matches c reg) (wire (n - 1))"
proof -
  have "takeWhile (\<lambda>i. soft (reply_matches c reg) (wire i)) [0..<n] = [0..<n]"
    using assms(1) by (metis length_upt minus_nat.diff_0 retried_def takeWhile_eq_take take_all_iff order_refl)
  then have "\<forall>i \<in> set [0..<n]. soft (reply_matches c reg) (wire i)" by (metis takeWhile_eq_all_conv)
  then show ?thesis using assms(2) by simp
qed

text \<open>
  C23. A VectorNav request is written once for every attempt that timed out or met a link error and
  once more for the attempt that decides, at most \<open>max(1, retries)\<close> times in all, and every time the
  same line. A returned reply was routed while the deciding attempt waited, carries no error, and is for the
  command and register asked for. \<open>TimeoutError\<close> is raised only when the last attempt got no
  answer; \<open>VnError\<close> for a refusal at once, and for a link error only when it ended the
  last attempt.
\<close>

theorem exchange_correct:
  "let n = nat (max 1 retries); k = retried c reg n wire; (r, sent) = exchange body c reg retries wire in
     sent = replicate (min n (Suc k)) (finalize_ascii (encode_latin1 body) False) \<and>
     (case r of
        Inr a \<Rightarrow> k < n \<and> answered c reg (wire k) a \<and> va_error a = None \<and> va_cmd a = c \<and> va_register a = reg
      | Inl (VnError e) \<Rightarrow>
          (let i = min k (n - 1) in
             (\<exists>a. answered c reg (wire i) a \<and> va_error a = Some e) \<and> (e \<in> set TRANSPORT_ERRORS) = (k = n))
      | Inl TimeoutError \<Rightarrow> k = n \<and> vn_request (reply_matches c reg) (wire (n - 1)) = NoReply
      | Inl ConnectionError \<Rightarrow> k < n \<and> vn_request (reply_matches c reg) (wire k) = LinkDown
      | Inl _ \<Rightarrow> False)"
proof -
  define n where "n = nat (max 1 retries)"
  define k where "k = retried c reg n wire"
  have n: "0 < n" by (simp add: n_def)
  note ex = exchange_result [OF n_def, of body c reg wire, folded k_def, unfolded Let_def]
  show ?thesis
  proof (cases "k < n")
    case True
    have "\<not> soft (reply_matches c reg) (wire k)"
      using True nth_length_takeWhile [of "\<lambda>i. soft (reply_matches c reg) (wire i)" "[0..<n]"]
      by (simp add: k_def retried_def)
    then show ?thesis
      using True verdict_of_reply [OF refl, of c reg "wire k"] ex
      by (auto simp: n_def [symmetric] k_def [symmetric] soft_def transport_error_def verdict_of_def Let_def answered_iff
          split: response.splits option.splits if_splits)
  next
    case False
    then have kn: "k = n" using retried_le [of c reg n wire] by (simp add: k_def)
    have "soft (reply_matches c reg) (wire (n - 1))" using exhausted kn n by (simp add: k_def)
    then show ?thesis
      using kn n ex transport_answered [of c reg "wire (n - 1)"]
      by (auto simp: n_def [symmetric] k_def [symmetric] soft_def Let_def split: option.splits)
  qed
qed

lemma hexX_read: "0 \<le> n \<Longrightarrow> py_int16 (encode_latin1 (hexX n)) = Some n"
  by (simp add: hexX_def py_int16_hex_upper)

section \<open>Reply lines\<close>

text \<open>A register's value as a unit sends it: printable, without the separator.\<close>

definition value_text :: "string \<Rightarrow> bool" where
  "value_text s = list_all (\<lambda>c. printable (byte_of_char c) \<and> c \<noteq> CHR '','') s"

definition register_body :: "string \<Rightarrow> nat \<Rightarrow> string list \<Rightarrow> string" where
  "register_body c reg vals = join '','' ((''VN'' @ c @ '','' @ zpad 2 reg) # vals)"

definition register_line :: "string \<Rightarrow> nat \<Rightarrow> string list \<Rightarrow> bytes" where
  "register_line c reg vals = finalize_ascii (encode_latin1 (register_body c reg vals)) False"

lemma join_cons: "join sep ((a @ sep @ b) # ws) = join sep (a # b # ws)"
  by (cases ws) simp_all

lemma value_no_comma:
  assumes "value_text s"
  shows "44 \<notin> set (encode_latin1 s)"
proof
  assume "44 \<in> set (encode_latin1 s)"
  then obtain c where c: "c \<in> set s" "byte_of_char c = byte_of_char (CHR '','')"
    by (auto simp: encode_latin1_def byte_of_char_def [of "CHR '',''"])
  then show False using assms byte_of_char_inject by (auto simp: value_text_def list_all_iff)
qed

lemma split_at_sep:
  "y \<notin> set w \<Longrightarrow> split_at y (w @ y # xs) = w # split_at y xs" "y \<notin> set w \<Longrightarrow> split_at y w = [w]"
  by (induction w) auto

lemma split_join:
  assumes "ws \<noteq> []" "\<forall>w \<in> set ws. value_text w"
  shows "split_at 44 (encode_latin1 (join '','' ws)) = map encode_latin1 ws"
  using assms
proof (induction ws rule: induct_list012)
  case (2 w)
  then have "44 \<notin> set (encode_latin1 w)" by (intro value_no_comma) simp
  then show ?case by (simp add: split_at_sep)
next
  case (3 v w ws)
  then have "44 \<notin> set (encode_latin1 v)" by (intro value_no_comma) simp
  moreover have "encode_latin1 (join '','' (v # w # ws)) = encode_latin1 v @ 44 # encode_latin1 (join '','' (w # ws))"
    by (simp add: encode_latin1_def byte_of_char_def)
  ultimately show ?case using 3 by (simp add: split_at_sep)
qed simp

lemma digit_text: "is_digit c \<Longrightarrow> printable (byte_of_char c) \<and> c \<noteq> CHR '',''"
proof
  assume c: "is_digit c"
  then have "48 \<le> unat (byte_of_char c) \<and> unat (byte_of_char c) \<le> 57"
    using dec_byte [OF c] by (simp only: word_le_nat_alt) simp
  then show "printable (byte_of_char c)" unfolding printable_def word_le_nat_alt by simp
  show "c \<noteq> CHR '',''" using c by (auto simp: is_digit_def)
qed

lemma zpad_text: "value_text (zpad w n)"
proof -
  have "list_all is_digit (zpad w n)" using dec_all_digit [of n] by (auto simp: zpad_def list_all_iff is_digit_def)
  then show ?thesis using digit_text by (auto simp: value_text_def list_all_iff)
qed

lemma value_printable: "value_text w \<Longrightarrow> list_all printable (encode_latin1 w)"
  by (auto simp: encode_latin1_def value_text_def list_all_iff)

lemma join_printable:
  assumes "\<forall>w \<in> set ws. value_text w"
  shows "list_all printable (encode_latin1 (join '','' ws))"
  using assms
proof (induction ws rule: induct_list012)
  case (3 v w ws)
  have c: "printable (byte_of_char (CHR '',''))" by (simp add: byte_of_char_def printable_def)
  have "list_all printable (encode_latin1 (v @ '','' @ join '','' (w # ws)))"
    using 3 value_printable [of v] c by (simp add: encode_latin1_def del: join.simps)
  then show ?case by simp
qed (simp_all add: value_printable, simp add: encode_latin1_def)

lemma register_pieces:
  assumes "c \<in> {''RRG'', ''WRG''}" "list_all value_text vals"
  shows "\<forall>w \<in> set ((''VN'' @ c) # zpad 2 reg # vals). value_text w"
    "register_body c reg vals = join '','' ((''VN'' @ c) # zpad 2 reg # vals)"
proof -
  have "value_text ''VNRRG''" "value_text ''VNWRG''"
    by (simp_all add: value_text_def byte_of_char_def printable_def)
  then show "\<forall>w \<in> set ((''VN'' @ c) # zpad 2 reg # vals). value_text w"
    using assms zpad_text [of 2 reg] by (auto simp: list_all_iff)
  show "register_body c reg vals = join '','' ((''VN'' @ c) # zpad 2 reg # vals)"
    using join_cons [of "'',''" "''VN'' @ c" "zpad 2 reg" vals] by (simp add: register_body_def)
qed

lemma register_line_parsed:
  assumes "c \<in> {''RRG'', ''WRG''}" "list_all value_text vals"
  shows "parse_ascii (register_line c reg vals) =
    Some \<lparr>va_cmd = c, va_register = Some (int reg), va_fields = vals, va_error = None\<rparr>"
proof -
  let ?b = "encode_latin1 (register_body c reg vals)" and ?ws = "(''VN'' @ c) # zpad 2 reg # vals"
  let ?cs = "hex_fixed 2 (xor8 ?b)" and ?l = "36 # encode_latin1 (register_body c reg vals) @ 42 # hex_fixed 2 (xor8 (encode_latin1 (register_body c reg vals)))"
  have pr: "list_all printable ?b"
    using join_printable [OF register_pieces(1) [OF assms]] register_pieces(2) [OF assms] by simp
  have ascii: "printable x \<Longrightarrow> \<not> 128 \<le> x \<and> x \<noteq> 13 \<and> x \<noteq> 10" for x
    by (auto simp: printable_def word_le_nat_alt)
  have all: "\<forall>x \<in> set ?l. printable x"
    using pr hex_fixed_printable by (auto simp: list_all_iff) (simp_all add: printable_def)
  have "dropWhile (\<lambda>b. b = 13 \<or> b = 10) (rev ?l) = rev ?l"
    by (rule dropWhile_none) (use all ascii in \<open>metis set_rev\<close>)
  then have strip: "rstrip (\<lambda>b. b = 13 \<or> b = 10) (register_line c reg vals) = ?l"
    by (simp add: register_line_def finalize_ascii_def rstrip_def)
  have nostar: "42 \<notin> set ?cs" using hex_fixed_set hex_char_facts by fastforce
  have star: "rfind1 42 ?l = Some (Suc (length ?b))"
    using rfind1_append_last [of 42 ?cs "36 # ?b"] nostar by simp
  have body: "py_slice 1 (Suc (length ?b)) ?l = ?b" by (simp add: py_slice_def)
  have low: "\<not> list_ex (\<lambda>b. 128 \<le> b) ?l" using all ascii unfolding list_ex_iff by blast
  have parts: "split_at 44 ?b = map encode_latin1 ?ws"
    using split_join [OF _ register_pieces(1) [OF assms]] register_pieces(2) [OF assms] by simp
  have cmd: "decode_latin1 (drop 2 (encode_latin1 (''VN'' @ c))) = c"
    using decode_encode_latin1 [of c] by (simp add: encode_latin1_def)
  have dec: "map decode_latin1 (map encode_latin1 vs) = vs" for vs by (simp add: comp_def)
  show ?thesis
    using assms(1) cmd dec [of vals] zpad_read [of 2 reg]
    by (simp only: parse_ascii_def Let_def strip star parts body low option.case if_False) (auto simp del: map_map)
qed

text \<open>The unit's line arrives, framed, while attempt \<open>k\<close> waits; the attempts before get nothing.\<close>

definition answers :: "real \<times> real \<Rightarrow> (nat \<Rightarrow> window) \<Rightarrow> nat \<Rightarrow> bytes \<Rightarrow> bool" where
  "answers clk wire k line \<longleftrightarrow>
     list_all (\<lambda>i. w_frames (wire i) = [] \<and> \<not> w_down (wire i)) [0..<k] \<and>
     w_frames (wire k) = snd (vn_feed clk vn_init line)"

lemma register_line_framed:
  assumes "c \<in> {''RRG'', ''WRG''}" "list_all value_text vals" "length (register_line c reg vals) \<le> 515"
  shows "\<exists>f. snd (vn_feed clk vn_init (register_line c reg vals)) = [f] \<and>
    fr_proto f = VN \<and> fr_raw f = register_line c reg vals"
proof -
  let ?l = "register_line c reg vals" and ?b = "encode_latin1 (register_body c reg vals)"
  have pr: "list_all printable ?b"
    using join_printable [OF register_pieces(1) [OF assms(1, 2)]] register_pieces(2) [OF assms(1, 2)] by simp
  have "\<exists>t. register_body c reg vals = ''VN'' @ t"
    by (cases vals) (auto simp: register_body_def)
  then have two: "take 2 ?b = [0x56, 0x4E]" by (auto simp: encode_latin1_def byte_of_char_def)
  have "length ?l = length ?b + 6" by (simp add: register_line_def finalize_ascii_def)
  then have "valid_line ?l"
    using finalize_ascii_line [OF two pr, of False] assms(3) by (simp add: register_line_def)
  then obtain t fs where t: "vn_feed clk vn_init ?l = (t, fs)" "map frame_view fs = [(VN, ?l)]"
    using vn.feed_stream [of "[(VN, ?l)]" vn_init clk] assms(3)
    by (auto simp: vn_ok_def vn_init_def valid_vn_def MAX_BUFFER_def)
  then show ?thesis by (auto simp: frame_view_def)
qed

lemma register_answer:
  assumes "c \<in> {''RRG'', ''WRG''}" "list_all value_text vals" "length (register_line c reg vals) \<le> 515"
    and "k < nat (max 1 retries)" "answers clk wire k (register_line c reg vals)"
  shows "exchange body c (Some (int reg)) retries wire =
    (Inr \<lparr>va_cmd = c, va_register = Some (int reg), va_fields = vals, va_error = None\<rparr>,
     replicate (Suc k) (finalize_ascii (encode_latin1 body) False))"
proof -
  let ?m = "reply_matches c (Some (int reg))" and ?n = "nat (max 1 retries)" and ?l = "register_line c reg vals"
  obtain f where f: "w_frames (wire k) = [f]" "fr_proto f = VN" "fr_raw f = ?l"
    using register_line_framed [OF assms(1-3), of clk] assms(5) by (auto simp: answers_def)
  have "\<exists>t. ?l = 36 # 86 # 78 # t"
    by (cases vals) (auto simp: register_line_def finalize_ascii_def register_body_def encode_latin1_def byte_of_char_def)
  then have p: "is_reply f = Some \<lparr>va_cmd = c, va_register = Some (int reg), va_fields = vals, va_error = None\<rparr>"
    using f(2, 3) register_line_parsed [OF assms(1, 2), of reg] by (auto simp: is_reply_def vn_parse_def)
  then have req: "vn_request ?m (wire k) = Reply f" using f(1) by (simp add: vn_request_def reply_matches_def)
  have quiet: "soft ?m (wire i)" if "i < k" for i
    using assms(5) that by (auto simp: answers_def list_all_iff soft_def vn_request_def)
  have hard: "\<not> soft ?m (wire k)" using req p by (simp add: soft_def transport_error_def)
  have "takeWhile (\<lambda>i. soft ?m (wire i)) [0..<?n] = [0..<k]"
  proof -
    have s: "[0..<?n] = [0..<k] @ k # [Suc k..<?n]" using assms(4) by (metis upt_add_eq_append le0 less_imp_le_nat upt_conv_Cons le_add_diff_inverse)
    show ?thesis unfolding s by (subst takeWhile_append2) (use quiet hard in auto)
  qed
  then have "retried c (Some (int reg)) ?n wire = k" by (simp add: retried_def)
  then show ?thesis
    using exchange_result [OF refl, of body c "Some (int reg)" retries wire] assms(4) req p
    by (simp add: verdict_of_def Let_def)
qed

text \<open>
  C24. When a unit answers a register request with the contents of the register, in a line of at
  most the documented 512 bytes, and the line goes through the VectorNav framer while attempt \<open>k\<close> waits
  (earlier attempts time out), a read returns exactly the values in the line and a write
  returns the values it wrote, after \<open>k + 1\<close> copies of the request.
\<close>

theorem register_access_correct:
  assumes "list_all value_text vals" "length (register_line ''RRG'' reg vals) \<le> ASCII_MAX_LEN" "k < nat (max 1 retries)"
    and "answers clk rwire k (register_line ''RRG'' reg vals)" "answers clk wwire k (register_line ''WRG'' reg vals)"
  shows "vn_read reg retries rwire = (Inr vals, replicate (Suc k) (register_line ''RRG'' reg [])) \<and>
    vn_write reg vals retries wwire = (Inr vals, replicate (Suc k) (register_line ''WRG'' reg vals))"
proof -
  have "length (register_line c reg vals) = length (register_body c reg vals) + 6" for c
    by (simp add: register_line_def finalize_ascii_def encode_latin1_def)
  moreover have "length (register_body ''WRG'' reg vals) = length (register_body ''RRG'' reg vals)"
    by (cases vals) (simp_all add: register_body_def)
  moreover have r: "length (register_line ''RRG'' reg vals) \<le> 515" using assms(2) by (simp add: ASCII_MAX_LEN_def)
  ultimately have "length (register_line ''WRG'' reg vals) \<le> 515" by simp
  then show ?thesis
    using register_answer [OF _ assms(1) r assms(3, 4)] register_answer [OF _ assms(1) _ assms(3, 5)]
    by (simp add: vn_read_def vn_write_def map_reply_def register_line_def register_body_def)
qed

lemma register_access_correct_witness:
  "\<exists>rwire wwire.
    vn_read 1 3 rwire = (Inr [''VN-200''], replicate 2 (register_line ''RRG'' 1 [])) \<and>
    vn_write 1 [''VN-200''] 3 wwire = (Inr [''VN-200''], replicate 2 (register_line ''WRG'' 1 [''VN-200'']))"
proof -
  define wire where "wire c i = \<lparr>w_frames = (if i = 1 then snd (vn_feed (0, 0) vn_init (register_line c 1 [''VN-200''])) else []),
    w_down = False\<rparr>" for c and i :: nat
  have "length (register_line ''RRG'' 1 [''VN-200'']) \<le> ASCII_MAX_LEN"
    by (simp add: ASCII_MAX_LEN_def register_line_def register_body_def finalize_ascii_def encode_latin1_def zpad_def dec.simps)
  moreover have "list_all value_text [''VN-200'']"
    by (simp add: value_text_def byte_of_char_def printable_def)
  moreover have "answers (0, 0) (wire c) 1 (register_line c 1 [''VN-200''])" for c
    by (simp add: answers_def wire_def)
  ultimately have "vn_read 1 3 (wire ''RRG'') = (Inr [''VN-200''], replicate (Suc 1) (register_line ''RRG'' 1 [])) \<and>
    vn_write 1 [''VN-200''] 3 (wire ''WRG'') = (Inr [''VN-200''], replicate (Suc 1) (register_line ''WRG'' 1 [''VN-200'']))"
    by (intro register_access_correct) simp_all
  then show ?thesis unfolding Suc_1 by blast
qed

section \<open>Binary output registers\<close>

lemma group_bit_names:
  "group_bit k = Some g \<Longrightarrow> g < 7 \<and> GROUP_NAMES g = Some k"
  by (auto simp: group_bit_def GROUP_BITS_def GROUP_NAMES_def py_dict_def split: if_splits)

text \<open>A configuration the register can hold: known groups, each once, masks and extension not negative.\<close>

definition conf_ok :: "binary_output \<Rightarrow> bool" where
  "conf_ok c \<longleftrightarrow>
     distinct (map fst (bo_fields c)) \<and>
     list_all (\<lambda>(k, v). group_bit k \<noteq> None \<and> 0 \<le> v) (bo_fields c) \<and>
     (case bo_gps_ext c of Some e \<Rightarrow> 0 \<le> e | None \<Rightarrow> True)"

text \<open>The configuration in the order of the register, without bit 15.\<close>

definition conf_normal :: "binary_output \<Rightarrow> binary_output" where
  "conf_normal c = c
     \<lparr>bo_fields := map (\<lambda>(k, v). (k, v AND NOT EXT_FLAG)) (sort_key (\<lambda>(k, v). the (group_bit k)) (bo_fields c)),
      bo_gps_ext := (case bo_gps_ext c of
                       Some e \<Rightarrow> if e \<noteq> 0 \<and> ''gps'' \<in> set (map fst (bo_fields c)) then Some e else None
                     | None \<Rightarrow> None)\<rparr>"

lemma ext_bits:
  fixes v :: int
  shows "(v AND NOT EXT_FLAG) AND EXT_FLAG = 0" "(v AND NOT EXT_FLAG OR EXT_FLAG) AND EXT_FLAG \<noteq> 0"
    "(v AND NOT EXT_FLAG OR EXT_FLAG) AND NOT EXT_FLAG = v AND NOT EXT_FLAG"
    "(v AND NOT EXT_FLAG) AND NOT EXT_FLAG = v AND NOT EXT_FLAG"
proof -
  have "(v AND NOT EXT_FLAG OR EXT_FLAG) AND EXT_FLAG = EXT_FLAG"
    by (rule bit_eqI) (auto simp: bit_simps)
  then show "(v AND NOT EXT_FLAG OR EXT_FLAG) AND EXT_FLAG \<noteq> 0" by (simp add: EXT_FLAG_def)
qed (rule bit_eqI, auto simp: bit_simps)+

definition word_list :: "int option \<Rightarrow> (string \<times> int) list \<Rightarrow> int list" where
  "word_list ext items =
     concat (map (\<lambda>(k, v). let m = v AND NOT EXT_FLAG in
        if group_bit k = group_bit ''gps'' \<and> ext \<noteq> None \<and> ext \<noteq> Some 0 then [m OR EXT_FLAG, the ext] else [m]) items)"

lemma words_text:
  "concat (map (\<lambda>(k, v). group_words ext k v) items) = map hexX (word_list ext items)"
  by (induction items) (auto simp: group_words_def word_list_def Let_def)

lemma words_nonneg:
  assumes "list_all (\<lambda>(k, v). group_bit k \<noteq> None \<and> 0 \<le> v) items" "case ext of Some e \<Rightarrow> 0 \<le> e | None \<Rightarrow> True"
  shows "list_all (\<lambda>w. 0 \<le> w) (word_list ext items)"
  using assms by (induction items) (auto simp: word_list_def Let_def EXT_FLAG_def split: option.splits)

lemma all_ints_hex: "list_all (\<lambda>w. 0 \<le> w) ws \<Longrightarrow> all_ints py_int16 (map hexX ws) = Some ws"
  by (induction ws) (simp_all add: hexX_read)

lemma decode_walk:
  assumes "sorted_wrt (<) (map (\<lambda>(k, v). the (group_bit k)) items)"
    and "list_all (\<lambda>(k, v). group_bit k \<noteq> None \<and> n \<le> the (group_bit k)) items" "n \<le> 7"
    and "\<And>g. n \<le> g \<Longrightarrow> g < 7 \<Longrightarrow> (groups AND push_bit g 1 \<noteq> 0) = (g \<in> (\<lambda>(k, v). the (group_bit k)) ` set items)"
  shows "decode_groups groups [n..<7] (word_list ext items) old =
    Inr (map (\<lambda>(k, v). (k, v AND NOT EXT_FLAG)) items,
         if ext \<noteq> None \<and> ext \<noteq> Some 0 \<and> ''gps'' \<in> set (map fst items) then ext else old)"
  using assms
proof (induction "7 - n" arbitrary: n items old)
  case 0
  then have "items = []" using group_bit_names by (cases items) (force simp: list_all_iff)+
  then show ?case using 0 by (simp add: word_list_def)
next
  case (Suc d)
  then have n: "n < 7" "d = 7 - Suc n" "[n..<7] = n # [Suc n..<7]" by (simp_all add: upt_conv_Cons)
  show ?case
  proof (cases "n \<in> (\<lambda>(k, v). the (group_bit k)) ` set items")
    case False
    have "list_all (\<lambda>(k, v). group_bit k \<noteq> None \<and> Suc n \<le> the (group_bit k)) items"
      using Suc.prems(2) False by (fastforce simp: list_all_iff image_iff Suc_le_eq le_less)
    then show ?thesis
      using Suc.hyps(1) [OF n(2) Suc.prems(1), of old] Suc.prems(4) n False Suc.prems(4) [of n] by simp
  next
    case True
    obtain k v rest where items: "items = (k, v) # rest" using True by (cases items) auto
    have kn: "group_bit k = Some n"
    proof -
      from True items obtain k' v' where k': "(k', v') \<in> set items" "the (group_bit k') = n" by auto
      have "group_bit k \<noteq> None" "n \<le> the (group_bit k)" using Suc.prems(2) items by auto
      moreover have "the (group_bit k) \<le> n" using k' items Suc.prems(1) by (force simp: less_imp_le)
      ultimately show ?thesis by auto
    qed
    have rest: "list_all (\<lambda>(k, v). group_bit k \<noteq> None \<and> Suc n \<le> the (group_bit k)) rest"
      "sorted_wrt (<) (map (\<lambda>(k, v). the (group_bit k)) rest)"
      using Suc.prems(1, 2) items kn by (auto simp: list_all_iff)
    have grp: "(groups AND push_bit g 1 \<noteq> 0) = (g \<in> (\<lambda>(k, v). the (group_bit k)) ` set rest)"
      if "Suc n \<le> g" "g < 7" for g using Suc.prems(4) [of g] that items kn by auto
    note IH = Suc.hyps(1) [OF n(2) rest(2) rest(1) _ grp, simplified]
    have bit: "groups AND push_bit n 1 \<noteq> 0" using Suc.prems(4) [of n] n True by simp
    have name: "the (GROUP_NAMES n) = k" using group_bit_names [OF kn] by simp
    have g3: "group_bit ''gps'' = Some 3" by (simp add: group_bit_def GROUP_BITS_def py_dict_def)
    have names: "(k = ''gps'') = (n = 3)"
      using kn g3 group_bit_names [OF kn] group_bit_names [OF g3] by auto
    have norest: "''gps'' \<notin> set (map fst rest)" if "n = 3"
    proof
      assume "''gps'' \<in> set (map fst rest)"
      then show False using rest(1) g3 that by (auto simp: list_all_iff)
    qed
    have gps3: "(3 :: nat) \<in> set GPS_GROUPS" by (simp add: GPS_GROUPS_def)
    show ?thesis
    proof (cases "n = 3 \<and> ext \<noteq> None \<and> ext \<noteq> Some 0")
      case True
      then obtain e where e: "ext = Some e" "e \<noteq> 0" by auto
      have wl: "word_list ext items = (v AND NOT EXT_FLAG OR EXT_FLAG) # e # word_list ext rest"
        using True items kn g3 e by (simp add: word_list_def Let_def)
      show ?thesis
        unfolding wl n(3) using bit True IH n name e names norest items g3 gps3
        by (simp add: ext_bits Let_def)
    next
      case False
      then have wl: "word_list ext items = (v AND NOT EXT_FLAG) # word_list ext rest"
        using items kn g3 by (auto simp: word_list_def Let_def)
      show ?thesis
        unfolding wl n(3) using bit False IH n name names items
        by (auto simp add: ext_bits Let_def)
    qed
  qed
qed

lemma fold_groups:
  "bit (foldl (\<lambda>acc (k, v). acc OR push_bit (the (group_bit k)) 1) acc items) g =
     (bit (acc :: int) g \<or> g \<in> (\<lambda>(k, v). the (group_bit k)) ` set items)"
proof (induction items arbitrary: acc)
  case (Cons p items)
  obtain k v where p: "p = (k, v)" by fastforce
  have "bit (push_bit (the (group_bit k)) (1 :: int)) g = (g = the (group_bit k))"
    by (auto simp: push_bit_eq_mult bit_exp_iff)
  then show ?case using Cons [of "acc OR push_bit (the (group_bit k)) 1"] p by (auto simp: bit_or_iff)
qed simp

lemma groups_bit:
  fixes a :: int
  shows "(a AND push_bit g 1 \<noteq> 0) = bit a g"
  using and_exp_bit [of a g] by (simp add: push_bit_eq_mult)

lemma groups_nonneg: "0 \<le> (acc :: int) \<Longrightarrow> 0 \<le> foldl (\<lambda>acc (k, v). acc OR push_bit (the (group_bit k)) 1) acc items"
proof (induction items arbitrary: acc)
  case (Cons p items)
  obtain k v where p: "p = (k, v)" by fastforce
  have "0 \<le> acc OR push_bit (the (group_bit k)) 1" using Cons.prems by (simp add: or_nonnegative_int_iff)
  then show ?case using Cons.IH p by simp
qed simp

lemma conf_keys_distinct:
  assumes "conf_ok c"
  shows "distinct (map (\<lambda>(k, v :: int). the (group_bit k)) (bo_fields c))"
proof -
  let ?key = "\<lambda>(k, v :: int). the (group_bit k)"
  have "inj_on ?key (set (bo_fields c))"
  proof (rule inj_onI, clarify)
    fix k v k' v'
    assume a: "(k, v) \<in> set (bo_fields c)" "(k', v') \<in> set (bo_fields c)" "the (group_bit k) = the (group_bit k')"
    then obtain g where "group_bit k = Some g" "group_bit k' = Some g"
      using assms by (fastforce simp: conf_ok_def list_all_iff)
    then have "k = k'" using group_bit_names [of k g] group_bit_names [of k' g] by simp
    then show "k = k' \<and> v = v'" using a assms by (auto simp: conf_ok_def dest: eq_key_imp_eq_value)
  qed
  then show ?thesis using assms by (simp add: conf_ok_def distinct_map)
qed

lemma value_text_hexX:
  assumes "0 \<le> n"
  shows "value_text (hexX n)"
proof -
  have hex: "printable x \<and> x \<noteq> 44" if "x \<in> set (encode_latin1 (hex_upper m))" for x m
  proof -
    have "\<exists>d. 0 \<le> d \<and> d < 16 \<and> x = hex_char d"
      using hex_text [THEN conjunct2, THEN conjunct1, rule_format, OF that] .
    then obtain d where d: "0 \<le> d" "d < 16" "x = hex_char d" by blast
    have "hex_char d \<in> set (hex_fixed (Suc 0) d)" using d(1, 2) by simp
    moreover have "hex_digit (44 :: byte) = None" by (simp add: hex_digit_def)
    ultimately show ?thesis using hex_fixed_printable [of x "Suc 0" d] d(3) hex_char_facts [OF d(1, 2)] by auto
  qed
  have c: "byte_of_char (CHR '','') = 44" by (simp add: byte_of_char_def)
  have "printable (byte_of_char ch) \<and> ch \<noteq> CHR '',''" if "ch \<in> set (hex_upper m)" for ch m
  proof -
    have "byte_of_char ch \<in> set (encode_latin1 (hex_upper m))" using that by (simp add: encode_latin1_def)
    from hex [OF this] show ?thesis using c by blast
  qed
  then show ?thesis using assms by (simp add: hexX_def value_text_def list_all_iff)
qed

text \<open>
  A binary output configuration written to its register and read back is the
  same configuration: the groups in the order of their bits, masks without bit 15, and the GPS extension
  word when the GPS group is there and the word is not zero.
\<close>

theorem binary_output_roundtrip:
  assumes "conf_ok c"
  shows "\<exists>out. encode_binary_output c = Inr out \<and> list_all value_text out \<and>
    decode_binary_output out = Inr (conf_normal c)"
proof -
  let ?key = "\<lambda>(k, v :: int). the (group_bit k)"
  define items where "items = sort_key ?key (bo_fields c)"
  define groups where "groups = foldl (\<lambda>acc (k, v). acc OR push_bit (the (group_bit k)) 1) (0 :: int) items"
  have known: "\<not> list_ex (\<lambda>(k, v). group_bit k = None) (bo_fields c)"
    using assms by (auto simp: conf_ok_def list_all_iff list_ex_iff)
  have its: "list_all (\<lambda>(k, v). group_bit k \<noteq> None \<and> 0 \<le> v) items"
    using assms by (auto simp: conf_ok_def list_all_iff items_def)
  have "distinct (map ?key (bo_fields c))" by (rule conf_keys_distinct [OF assms])
  then have "distinct (map ?key items)"
    by (simp add: items_def distinct_map)
  moreover have "sorted (map ?key items)" by (simp add: items_def)
  ultimately have sorted: "sorted_wrt (<) (map ?key items)" by (simp add: strict_sorted_iff)
  have bits: "(groups AND push_bit g 1 \<noteq> 0) = (g \<in> ?key ` set items)" for g
    unfolding groups_bit groups_def fold_groups by simp
  define out where "out = [dec_int (bo_async_mode c), dec_int (bo_divisor c), hexX groups] @
    map hexX (word_list (bo_gps_ext c) items)"
  have enc: "encode_binary_output c = Inr out"
    using known words_text [of "bo_gps_ext c" items]
    by (simp add: encode_binary_output_def out_def Let_def items_def [symmetric] groups_def)
  have g0: "0 \<le> groups" unfolding groups_def by (rule groups_nonneg) simp
  have nn: "list_all (\<lambda>w. 0 \<le> w) (word_list (bo_gps_ext c) items)"
    by (rule words_nonneg [OF its]) (use assms in \<open>simp add: conf_ok_def\<close>)
  have gps: "''gps'' \<in> fst ` set items \<longleftrightarrow> ''gps'' \<in> fst ` set (bo_fields c)" by (simp add: items_def)
  have "list_all (\<lambda>(k, v). group_bit k \<noteq> None \<and> 0 \<le> the (group_bit k)) items"
    using its by (auto simp: list_all_iff)
  from decode_walk [OF sorted this _ bits]
  have "decode_groups groups [0..<7] (word_list (bo_gps_ext c) items) None =
    Inr (map (\<lambda>(k, v). (k, v AND NOT EXT_FLAG)) items,
      if bo_gps_ext c \<noteq> None \<and> bo_gps_ext c \<noteq> Some 0 \<and> ''gps'' \<in> set (map fst items) then bo_gps_ext c else None)"
    by simp
  then have dec: "decode_binary_output out = Inr (conf_normal c)"
    using gps by (auto simp: decode_binary_output_def out_def dec_int_read hexX_read [OF g0] all_ints_hex [OF nn]
        conf_normal_def items_def [symmetric] split: option.splits)
  have "value_text (dec_int n)" for n
    using digit_text dec_all_digit by (auto simp: dec_int_def value_text_def list_all_iff printable_def byte_of_char_def)
  then have "list_all value_text out" using value_text_hexX g0 nn by (auto simp: out_def list_all_iff)
  then show ?thesis using enc dec by blast
qed

lemma binary_output_roundtrip_witness:
  "\<exists>out. encode_binary_output \<lparr>bo_async_mode = 1, bo_divisor = 40,
      bo_fields = [(''gps'', 10), (''common'', 5)], bo_gps_ext = Some 2\<rparr> = Inr out \<and>
    decode_binary_output out = Inr \<lparr>bo_async_mode = 1, bo_divisor = 40,
      bo_fields = [(''common'', 5), (''gps'', 10)], bo_gps_ext = Some 2\<rparr>"
proof -
  let ?c = "\<lparr>bo_async_mode = 1, bo_divisor = 40, bo_fields = [(''gps'', 10), (''common'', 5)], bo_gps_ext = Some 2\<rparr>"
  have b: "group_bit ''gps'' = Some 3" "group_bit ''common'' = Some 0"
    by (simp_all add: group_bit_def GROUP_BITS_def py_dict_def)
  have "conf_ok ?c" by (simp add: conf_ok_def b)
  from binary_output_roundtrip [OF this] show ?thesis by (auto simp: conf_normal_def b EXT_FLAG_def)
qed

end
