(* ===== verification/UbxLink.thy ===== *)
theory UbxLink
  imports Frames Text
begin

text \<open>
  The request/answer correlation of \<open>src/mtrtk/core/link.py\<close>: waiters queued per key, an answer handed
  to the head of its queue, and the credits that make the link discard the answer of a request that gave
  up. Futures are objects of a store, named by numbers in the order they are made; deadlines are
  the event loop's clock. Writing to the port and the bus subscription are left out: \<open>deliver\<close> is called with
  every frame routed, \<open>register\<close> and \<open>finish\<close> are the two halves of \<open>_request\<close> around its wait.
\<close>

section \<open>State\<close>

definition CFG_VALSET :: "byte \<times> byte" where "CFG_VALSET = (0x06, 0x8A)"
definition CFG_VALGET :: "byte \<times> byte" where "CFG_VALGET = (0x06, 0x8B)"
definition ACK_KEY_PREFIX :: string where "ACK_KEY_PREFIX = ''ack:''"

definition ack_key :: "byte \<times> byte \<Rightarrow> string" where
  "ack_key = (\<lambda>(c, m). ACK_KEY_PREFIX @ lower (hex2 c) @ lower (hex2 m))"

datatype future = Waiting | Answered frame | Stopped | Cancelled

record link =
  lk_queues :: "string \<Rightarrow> nat list"
  lk_future :: "nat \<Rightarrow> future"
  lk_robbed :: "nat \<Rightarrow> bool"
  lk_stale :: "string \<Rightarrow> real list option"
  lk_next :: nat

definition link_new :: link where
  "link_new = \<lparr>lk_queues = \<lambda>_. [], lk_future = \<lambda>_. Waiting, lk_robbed = \<lambda>_. False, lk_stale = \<lambda>_. None, lk_next = 0\<rparr>"

definition set_stale :: "string \<Rightarrow> real list \<Rightarrow> link \<Rightarrow> link" where
  "set_stale key ds s = s\<lparr>lk_stale := (lk_stale s)(key := if ds = [] then None else Some ds)\<rparr>"

section \<open>Answers\<close>

definition purge :: "string \<Rightarrow> real \<Rightarrow> link \<Rightarrow> link \<times> real list option" where
  "purge key now s =
     (case lk_stale s key of
        None \<Rightarrow> (s, None)
      | Some ds \<Rightarrow> (let live = dropWhile (\<lambda>d. d \<le> now) ds
                    in (set_stale key live s, if live = [] then None else Some live)))"

definition spend_stale :: "string \<Rightarrow> real \<Rightarrow> link \<Rightarrow> link \<times> bool" where
  "spend_stale key now s =
     (case purge key now s of
        (t, None) \<Rightarrow> (t, False)
      | (t, Some ds) \<Rightarrow> (set_stale key (tl ds) t, True))"

definition keys_for :: "(bytes \<Rightarrow> string option) \<Rightarrow> frame \<Rightarrow> py_error + string list" where
  "keys_for names f =
     (case identity names None f of
        Inl e \<Rightarrow> Inl e
      | Inr ident \<Rightarrow>
          (case payload f of
             Inl e \<Rightarrow> Inl e
           | Inr (a # b # p) \<Rightarrow>
               Inr [if ident \<in> {''ACK-ACK'', ''ACK-NAK''} then ack_key (a, b) else ident]
           | Inr p \<Rightarrow> Inr [ident]))"

fun deliver_keys :: "real \<Rightarrow> frame \<Rightarrow> string list \<Rightarrow> link \<Rightarrow> link" where
  "deliver_keys now f [] s = s"
| "deliver_keys now f (key # ks) s =
     (case spend_stale key now s of
        (t, True) \<Rightarrow>
          (case lk_queues s key of [] \<Rightarrow> t | w # ws \<Rightarrow> t\<lparr>lk_robbed := (lk_robbed t)(w := True)\<rparr>)
      | (t, False) \<Rightarrow>
          (case lk_queues s key of
             [] \<Rightarrow> deliver_keys now f ks t
           | w # ws \<Rightarrow>
               t\<lparr>lk_queues := (lk_queues t)(key := ws),
                 lk_future := (lk_future t)(w := if lk_future t w = Waiting then Answered f else lk_future t w)\<rparr>))"

text \<open>The dispatcher drops a frame that it cannot read.\<close>

definition deliver :: "(bytes \<Rightarrow> string option) \<Rightarrow> real \<Rightarrow> frame \<Rightarrow> link \<Rightarrow> link" where
  "deliver names now f s = (case keys_for names f of Inl e \<Rightarrow> s | Inr ks \<Rightarrow> deliver_keys now f ks s)"

section \<open>Requests\<close>

fun register :: "string list \<Rightarrow> link \<Rightarrow> link \<times> nat list" where
  "register [] s = (s, [])"
| "register (key # ks) s =
     (let w = lk_next s;
          (t, ws) = register ks (s\<lparr>lk_next := w + 1, lk_future := (lk_future s)(w := Waiting),
            lk_robbed := (lk_robbed s)(w := False), lk_queues := (lk_queues s)(key := lk_queues s key @ [w])\<rparr>)
      in (t, w # ws))"

definition is_answer :: "future \<Rightarrow> bool" where
  "is_answer x = (case x of Answered _ \<Rightarrow> True | _ \<Rightarrow> False)"

fun retire_each :: "bool \<Rightarrow> real \<Rightarrow> real \<Rightarrow> (string \<times> nat) list \<Rightarrow> link \<Rightarrow> link" where
  "retire_each unanswered timeout now [] s = s"
| "retire_each unanswered timeout now ((key, w) # rest) s =
     retire_each unanswered timeout now rest
       (if lk_future s w \<noteq> Waiting then s
        else
          let t = s\<lparr>lk_future := (lk_future s)(w := Cancelled),
                    lk_queues := (lk_queues s)(key := remove1 w (lk_queues s key))\<rparr>
          in if unanswered \<and> \<not> lk_robbed t w \<and> starts_with ACK_KEY_PREFIX key then
               (case purge key now t of
                  (u, ds) \<Rightarrow> set_stale key ((case ds of Some l \<Rightarrow> l | None \<Rightarrow> []) @ [now + timeout]) u)
             else t)"

definition retire :: "string list \<Rightarrow> nat list \<Rightarrow> real \<Rightarrow> real \<Rightarrow> link \<Rightarrow> link" where
  "retire keys ws timeout now s =
     retire_each (\<not> list_ex (\<lambda>w. is_answer (lk_future s w)) ws) timeout now (zip keys ws) s"

text \<open>
  When the wait ends: the result of the first waiter, in the order of the keys, that is done
  (\<open>None\<close> is \<open>LinkTimeout\<close>), and the retired waiters.
\<close>

definition finish :: "string list \<Rightarrow> nat list \<Rightarrow> real \<Rightarrow> real \<Rightarrow> link \<Rightarrow> frame option \<times> link" where
  "finish keys ws timeout now s =
     (case find (\<lambda>w. lk_future s w \<noteq> Waiting) ws of
        Some w \<Rightarrow> (case lk_future s w of Answered f \<Rightarrow> Some f | _ \<Rightarrow> None)
      | None \<Rightarrow> None,
      retire keys ws timeout now s)"

definition link_stop :: "link \<Rightarrow> link" where
  "link_stop s =
     s\<lparr>lk_future := (\<lambda>w. if lk_future s w = Waiting \<and> w < lk_next s then Stopped else lk_future s w),
       lk_queues := (\<lambda>_. []), lk_stale := (\<lambda>_. None)\<rparr>"

text \<open>\<open>poll\<close> and \<open>valget\<close> wait for the data frame or the acknowledgement, \<open>valset\<close> for the acknowledgement alone.\<close>

definition poll_keys :: "string \<Rightarrow> byte \<times> byte \<Rightarrow> string list" where
  "poll_keys msg_id cid = [msg_id, ack_key cid]"

definition valset_keys :: "string list" where "valset_keys = [ack_key CFG_VALSET]"
definition valget_keys :: "string list" where "valget_keys = [''CFG-VALGET'', ack_key CFG_VALGET]"

text \<open>The attempts of \<open>valset\<close>: the frames the requests gave, and how many were made. \<open>None\<close> is \<open>LinkTimeout\<close>.\<close>

fun valset :: "(bytes \<Rightarrow> string option) \<Rightarrow> nat \<Rightarrow> frame option list \<Rightarrow> bool option \<times> nat" where
  "valset names 0 rs = (None, 0)"
| "valset names (Suc n) [] = (None, 0)"
| "valset names (Suc n) (r # rs) =
     (case r of
        Some f \<Rightarrow> (Some (identity names None f = Inr ''ACK-ACK''), 1)
      | None \<Rightarrow> apsnd Suc (valset names n rs))"

datatype valget_result = Values frame | ValgetNoData | ValgetNak | ValgetTimeout

definition valget :: "(bytes \<Rightarrow> string option) \<Rightarrow> frame option \<Rightarrow> valget_result" where
  "valget names r =
     (case r of
        None \<Rightarrow> ValgetTimeout
      | Some f \<Rightarrow>
          (if identity names None f = Inr ''ACK-ACK'' then ValgetNoData
           else if identity names None f \<noteq> Inr ''CFG-VALGET'' then ValgetNak else Values f))"

section \<open>What an operation does to one key\<close>

definition credits :: "link \<Rightarrow> string \<Rightarrow> real list" where
  "credits s key = (case lk_stale s key of Some ds \<Rightarrow> ds | None \<Rightarrow> [])"

lemma set_stale_simps [simp]:
  "lk_queues (set_stale key ds s) = lk_queues s" "lk_future (set_stale key ds s) = lk_future s"
  "lk_robbed (set_stale key ds s) = lk_robbed s" "lk_next (set_stale key ds s) = lk_next s"
  "credits (set_stale key ds s) key' = (if key' = key then ds else credits s key')"
  by (auto simp: set_stale_def credits_def)

lemma credits_upd [simp]:
  "credits (s\<lparr>lk_queues := q\<rparr>) key = credits s key" "credits (s\<lparr>lk_future := f\<rparr>) key = credits s key"
  "credits (s\<lparr>lk_robbed := r\<rparr>) key = credits s key" "credits (s\<lparr>lk_next := n\<rparr>) key = credits s key"
  by (simp_all add: credits_def)

lemma purge_credits:
  "purge key now s = (t, ds) \<Longrightarrow>
     t = (case lk_stale s key of None \<Rightarrow> s | Some l \<Rightarrow> set_stale key (dropWhile (\<lambda>d. d \<le> now) l) s) \<and>
     (case ds of Some l \<Rightarrow> l | None \<Rightarrow> []) = dropWhile (\<lambda>d. d \<le> now) (credits s key) \<and>
     (ds = None \<longleftrightarrow> dropWhile (\<lambda>d. d \<le> now) (credits s key) = []) \<and>
     credits t key = dropWhile (\<lambda>d. d \<le> now) (credits s key)"
  by (cases "lk_stale s key") (auto simp: purge_def credits_def Let_def set_stale_def split: if_splits
    simp del: dropWhile_eq_Nil_conv)

text \<open>The part of the link that belongs to one key, given the waiters of that key.\<close>

definition same_key :: "string \<Rightarrow> nat set \<Rightarrow> link \<Rightarrow> link \<Rightarrow> bool" where
  "same_key key ws s t \<longleftrightarrow>
     lk_queues t key = lk_queues s key \<and> credits t key = credits s key \<and> lk_next s \<le> lk_next t \<and>
     (\<forall>w \<in> ws. lk_future t w = lk_future s w \<and> lk_robbed t w = lk_robbed s w)"

lemma spend_stale_key:
  assumes "spend_stale key now s = (t, spent)"
  shows "lk_queues t = lk_queues s" "lk_future t = lk_future s" "lk_robbed t = lk_robbed s" "lk_next t = lk_next s"
    "key' \<noteq> key \<Longrightarrow> credits t key' = credits s key'"
    "spent \<longleftrightarrow> dropWhile (\<lambda>d. d \<le> now) (credits s key) \<noteq> []"
    "credits t key = tl (dropWhile (\<lambda>d. d \<le> now) (credits s key))"
proof -
  obtain u ds where u: "purge key now s = (u, ds)" by fastforce
  note p = purge_credits [OF u]
  have "lk_queues u = lk_queues s \<and> lk_future u = lk_future s \<and> lk_robbed u = lk_robbed s \<and> lk_next u = lk_next s \<and>
      (key' \<noteq> key \<longrightarrow> credits u key' = credits s key')" for key'
    using p by (auto split: option.splits)
  then show "lk_queues t = lk_queues s" "lk_future t = lk_future s" "lk_robbed t = lk_robbed s" "lk_next t = lk_next s"
    "key' \<noteq> key \<Longrightarrow> credits t key' = credits s key'"
    "spent \<longleftrightarrow> dropWhile (\<lambda>d. d \<le> now) (credits s key) \<noteq> []"
    "credits t key = tl (dropWhile (\<lambda>d. d \<le> now) (credits s key))"
    using assms p u by (auto simp: spend_stale_def split: option.splits)
qed

lemma deliver_other_key:
  assumes "key \<notin> set ks" "\<And>k w. k \<noteq> key \<Longrightarrow> w \<in> set (lk_queues s k) \<Longrightarrow> w \<notin> ws"
  shows "same_key key ws s (deliver_keys now f ks s)"
  using assms
proof (induction now f ks s rule: deliver_keys.induct)
  case (2 now f k ks s)
  obtain t spent where sp: "spend_stale k now s = (t, spent)" by fastforce
  note e = spend_stale_key [OF sp]
  have k: "k \<noteq> key" using 2(2) by auto
  show ?case
  proof (cases spent)
    case True
    then show ?thesis using e k 2(3) [OF k] sp by (auto simp: same_key_def split: list.splits)
  next
    case False
    show ?thesis
    proof (cases "lk_queues s k")
      case Nil
      have "same_key key ws t (deliver_keys now f ks t)"
        using 2(1) [OF sp [symmetric]] False Nil 2(2, 3) e(1) by auto
      then show ?thesis using e k False Nil sp by (simp add: same_key_def)
    qed (use e k 2(3) [OF k] sp False in \<open>auto simp: same_key_def\<close>)
  qed
qed (simp add: same_key_def)

lemma register_other_key:
  assumes "key \<notin> set ks" "\<forall>w \<in> ws. w < lk_next s" "register ks s = (t, ws')"
  shows "same_key key ws s t"
  using assms
proof (induction ks arbitrary: s t ws')
  case (Cons k ks)
  let ?u = "s\<lparr>lk_next := lk_next s + 1, lk_future := (lk_future s)(lk_next s := Waiting),
    lk_robbed := (lk_robbed s)(lk_next s := False), lk_queues := (lk_queues s)(k := lk_queues s k @ [lk_next s])\<rparr>"
  obtain ws2 where r: "register ks ?u = (t, ws2)" using Cons.prems(3) by (auto simp: Let_def split: prod.splits)
  have "same_key key ws ?u t" by (rule Cons.IH [OF _ _ r]) (use Cons.prems in auto)
  then show ?case using Cons.prems(1, 2) by (auto simp: same_key_def)
qed (simp add: same_key_def)

lemma retire_other_key:
  assumes "key \<notin> fst ` set l" "snd ` set l \<inter> ws = {}"
  shows "same_key key ws s (retire_each un T now l s)"
  using assms
proof (induction un T now l s rule: retire_each.induct)
  case (2 un T now k w rest s)
  define t where "t = s\<lparr>lk_future := (lk_future s)(w := Cancelled), lk_queues := (lk_queues s)(k := remove1 w (lk_queues s k))\<rparr>"
  define u where "u = (if lk_future s w \<noteq> Waiting then s
      else if un \<and> \<not> lk_robbed t w \<and> starts_with ACK_KEY_PREFIX k
        then (case purge k now t of (u, ds) \<Rightarrow> set_stale k ((case ds of Some l \<Rightarrow> l | None \<Rightarrow> []) @ [now + T]) u) else t)"
  have "same_key key ws s t" using 2(2, 3) by (auto simp: same_key_def t_def)
  moreover have "same_key key ws t (case purge k now t of (u, ds) \<Rightarrow> set_stale k l u)" for l
  proof -
    obtain u ds where "purge k now t = (u, ds)" by fastforce
    from purge_credits [OF this] this show ?thesis using 2(2) by (auto simp: same_key_def split: option.splits)
  qed
  moreover have "k \<noteq> key" using 2(2) by auto
  ultimately have "same_key key ws s u" by (auto simp: u_def same_key_def split: prod.splits)
  moreover have "same_key key ws u (retire_each un T now rest u)"
    using 2(1) 2(2, 3) by (auto simp: u_def t_def Let_def)
  moreover have "retire_each un T now ((k, w) # rest) s = retire_each un T now rest u"
    by (simp add: u_def t_def Let_def)
  ultimately show ?case by (auto simp: same_key_def)
qed (simp add: same_key_def)

section \<open>One receiver, one request at a time\<close>

text \<open>
  The life of the CFG-VALSET acknowledgements: requests are numbered, \<open>verdict k\<close> is the receiver's
  answer to request \<open>k\<close>. The receiver answers in order or loses an answer. \<open>T\<close> is the timeout.
  A late answer comes within \<open>T\<close> of its request's giving up, and no two answers in a row are
  late. Requests for other keys and frames with other keys are free.
\<close>

record world =
  wl_link :: link
  wl_now :: real
  wl_cur :: "(nat \<times> nat \<times> real) option"
  wl_count :: nat
  wl_owed :: "nat list"
  wl_until :: "nat \<Rightarrow> real"
  wl_late :: "nat set"
  wl_lost :: "nat set"
  wl_eaten :: "nat set"
  wl_out :: "(nat \<times> frame option) list"

definition world_new :: world where
  "world_new = \<lparr>wl_link = link_new, wl_now = 0, wl_cur = None, wl_count = 0, wl_owed = [], wl_until = \<lambda>_. 0,
     wl_late = {}, wl_lost = {}, wl_eaten = {}, wl_out = []\<rparr>"

abbreviation VK :: string where "VK \<equiv> ack_key CFG_VALSET"

definition cur_waiter :: "world \<Rightarrow> nat set" where
  "cur_waiter s = (case wl_cur s of Some (c, w, d) \<Rightarrow> {w} | None \<Rightarrow> {})"

inductive link_step :: "(bytes \<Rightarrow> string option) \<Rightarrow> (nat \<Rightarrow> frame) \<Rightarrow> real \<Rightarrow> world \<Rightarrow> world \<Rightarrow> bool"
  for names verdict T
where
  tick: "wl_now s \<le> t \<Longrightarrow> link_step names verdict T s (s\<lparr>wl_now := t\<rparr>)"
| send: "\<lbrakk>wl_cur s = None; register valset_keys (wl_link s) = (l, [w]); wl_now s + T \<le> d\<rbrakk> \<Longrightarrow>
    link_step names verdict T s
      (s\<lparr>wl_link := l, wl_cur := Some (wl_count s, w, d), wl_count := wl_count s + 1, wl_owed := wl_owed s @ [wl_count s]\<rparr>)"
| lose: "\<lbrakk>k \<in> set (wl_owed s)\<rbrakk> \<Longrightarrow>
    link_step names verdict T s (s\<lparr>wl_owed := removeAll k (wl_owed s), wl_lost := insert k (wl_lost s)\<rparr>)"
| in_time: "\<lbrakk>wl_owed s = k # ks; wl_cur s = Some (k, w, d); l = deliver names (wl_now s) (verdict k) (wl_link s)\<rbrakk> \<Longrightarrow>
    link_step names verdict T s
      (s\<lparr>wl_link := l, wl_owed := ks,
         wl_eaten := (if lk_future l w = Answered (verdict k) then wl_eaten s else insert k (wl_eaten s))\<rparr>)"
| late: "\<lbrakk>wl_owed s = k # ks; \<forall>w d. wl_cur s \<noteq> Some (k, w, d); wl_now s < wl_until s k;
     k = 0 \<or> k - 1 \<notin> wl_late s\<rbrakk> \<Longrightarrow>
    link_step names verdict T s
      (s\<lparr>wl_link := deliver names (wl_now s) (verdict k) (wl_link s), wl_owed := ks, wl_late := insert k (wl_late s)\<rparr>)"
| answered: "\<lbrakk>wl_cur s = Some (k, w, d); lk_future (wl_link s) w \<noteq> Waiting;
     finish valset_keys [w] T (wl_now s) (wl_link s) = (r, l)\<rbrakk> \<Longrightarrow>
    link_step names verdict T s (s\<lparr>wl_link := l, wl_cur := None, wl_out := wl_out s @ [(k, r)]\<rparr>)"
| gave_up: "\<lbrakk>wl_cur s = Some (k, w, d); lk_future (wl_link s) w = Waiting; d \<le> wl_now s;
     finish valset_keys [w] T (wl_now s) (wl_link s) = (r, l)\<rbrakk> \<Longrightarrow>
    link_step names verdict T s
      (s\<lparr>wl_link := l, wl_cur := None, wl_out := wl_out s @ [(k, r)], wl_until := (wl_until s)(k := wl_now s + T)\<rparr>)"
| other: "\<lbrakk>same_key VK (cur_waiter s) (wl_link s) l\<rbrakk> \<Longrightarrow> link_step names verdict T s (s\<lparr>wl_link := l\<rparr>)"

abbreviation link_steps :: "(bytes \<Rightarrow> string option) \<Rightarrow> (nat \<Rightarrow> frame) \<Rightarrow> real \<Rightarrow> world \<Rightarrow> world \<Rightarrow> bool" where
  "link_steps names verdict T \<equiv> (link_step names verdict T)\<^sup>*\<^sup>*"

text \<open>The number of the request that is waiting, or of the next one.\<close>

definition at_request :: "world \<Rightarrow> nat" where
  "at_request s = (case wl_cur s of Some (c, _, _) \<Rightarrow> c | None \<Rightarrow> wl_count s)"

text \<open>What holds of the queue, the credit and the answers still to come.\<close>

definition waiting_ok :: "(nat \<Rightarrow> frame) \<Rightarrow> world \<Rightarrow> bool" where
  "waiting_ok verdict s \<longleftrightarrow>
     (case wl_cur s of
        None \<Rightarrow> lk_queues (wl_link s) VK = []
      | Some (c, w, d) \<Rightarrow>
          wl_count s = Suc c \<and> w < lk_next (wl_link s) \<and>
          (case lk_future (wl_link s) w of
             Waiting \<Rightarrow> lk_queues (wl_link s) VK = [w] \<and> (c \<in> set (wl_owed s) \<union> wl_lost s \<or> lk_robbed (wl_link s) w \<and> c \<in> wl_eaten s)
           | Answered f \<Rightarrow>
               lk_queues (wl_link s) VK = [] \<and> f = verdict c \<and> wl_owed s = [] \<and> credits (wl_link s) VK = []
           | _ \<Rightarrow> False) \<and>
          (lk_robbed (wl_link s) w \<longrightarrow> c \<in> set (wl_owed s) \<union> wl_lost s \<longrightarrow> 0 < c \<and> c - 1 \<in> wl_late s))"

definition times_ok :: "real \<Rightarrow> world \<Rightarrow> bool" where
  "times_ok T s \<longleftrightarrow>
     0 \<le> wl_now s \<and> (\<forall>k \<ge> at_request s. wl_until s k = 0) \<and>
     (\<forall>k < at_request s. wl_until s k \<le> wl_now s + T \<and>
        (case wl_cur s of Some (c, w, d) \<Rightarrow> wl_until s k \<le> d | None \<Rightarrow> True)) \<and>
     (\<forall>k \<in> set (wl_owed s). Suc k < at_request s \<longrightarrow> wl_until s k \<le> wl_now s)"

definition credit_ok :: "world \<Rightarrow> bool" where
  "credit_ok s \<longleftrightarrow>
     (case credits (wl_link s) VK of
        [] \<Rightarrow> True
      | [u] \<Rightarrow> u \<le> wl_now s \<or> (\<exists>b. at_request s = Suc b \<and> u = wl_until s b \<and> b \<in> set (wl_owed s) \<union> wl_lost s)
      | _ \<Rightarrow> False) \<and>
     (\<forall>k \<in> set (wl_owed s). k < at_request s \<longrightarrow>
        wl_until s k \<le> wl_now s \<or> (0 < k \<and> k - 1 \<in> wl_late s) \<or> credits (wl_link s) VK = [wl_until s k])"

definition ghosts_ok :: "world \<Rightarrow> bool" where
  "ghosts_ok s \<longleftrightarrow>
     sorted_wrt (<) (wl_owed s) \<and> (\<forall>k \<in> set (wl_owed s). k < wl_count s) \<and> set (wl_owed s) \<inter> wl_lost s = {} \<and>
     (\<forall>k \<in> wl_lost s. k < wl_count s) \<and>
     (\<forall>k \<in> wl_eaten s. k < wl_count s \<and> k \<notin> set (wl_owed s) \<union> wl_lost s \<and> 0 < k \<and> k - 1 \<in> wl_lost s)"

definition outcomes_ok :: "(nat \<Rightarrow> frame) \<Rightarrow> world \<Rightarrow> bool" where
  "outcomes_ok verdict s \<longleftrightarrow>
     (\<forall>k r. (k, r) \<in> set (wl_out s) \<longrightarrow> k < at_request s) \<and>
     (\<forall>k f. (k, Some f) \<in> set (wl_out s) \<longrightarrow> f = verdict k) \<and>
     (\<forall>k. (k, None) \<in> set (wl_out s) \<longrightarrow> k \<in> set (wl_owed s) \<union> wl_lost s \<union> wl_late s \<union> wl_eaten s)"

definition world_ok :: "(nat \<Rightarrow> frame) \<Rightarrow> real \<Rightarrow> world \<Rightarrow> bool" where
  "world_ok verdict T s \<longleftrightarrow> waiting_ok verdict s \<and> times_ok T s \<and> credit_ok s \<and> ghosts_ok s \<and> outcomes_ok verdict s"

lemma VK_prefix: "starts_with ACK_KEY_PREFIX VK"
  by (simp add: starts_with_def ack_key_def CFG_VALSET_def ACK_KEY_PREFIX_def)

text \<open>The steps on the key of the acknowledgements, in terms of its queue, credits and waiter.\<close>

lemma register_key:
  assumes "register valset_keys l = (l', ws)"
  shows "ws = [lk_next l]" "lk_queues l' VK = lk_queues l VK @ [lk_next l]" "credits l' VK = credits l VK"
    "lk_future l' (lk_next l) = Waiting" "\<not> lk_robbed l' (lk_next l)" "lk_next l' = Suc (lk_next l)"
  using assms by (auto simp: valset_keys_def Let_def)

lemma deliver_key:
  assumes "keys_for names f = Inr [VK]"
  shows "credits (deliver names now f l) VK = tl (dropWhile (\<lambda>d. d \<le> now) (credits l VK))"
    and "lk_next (deliver names now f l) = lk_next l"
    and "dropWhile (\<lambda>d. d \<le> now) (credits l VK) \<noteq> [] \<Longrightarrow>
      lk_queues (deliver names now f l) VK = lk_queues l VK \<and> lk_future (deliver names now f l) = lk_future l \<and>
      lk_robbed (deliver names now f l) =
        (case lk_queues l VK of [] \<Rightarrow> lk_robbed l | w # _ \<Rightarrow> (lk_robbed l)(w := True))"
    and "dropWhile (\<lambda>d. d \<le> now) (credits l VK) = [] \<Longrightarrow>
      lk_queues (deliver names now f l) VK = tl (lk_queues l VK) \<and>
      lk_future (deliver names now f l) =
        (case lk_queues l VK of [] \<Rightarrow> lk_future l
         | w # _ \<Rightarrow> (lk_future l)(w := if lk_future l w = Waiting then Answered f else lk_future l w)) \<and>
      lk_robbed (deliver names now f l) = lk_robbed l"
proof -
  obtain t spent where sp: "spend_stale VK now l = (t, spent)" by fastforce
  note e = spend_stale_key [OF sp]
  have d: "deliver names now f l = deliver_keys now f [VK] l" using assms by (simp add: deliver_def)
  show "credits (deliver names now f l) VK = tl (dropWhile (\<lambda>d. d \<le> now) (credits l VK))"
    "lk_next (deliver names now f l) = lk_next l"
    unfolding d using e sp by (auto split: list.splits bool.splits)
  show "dropWhile (\<lambda>d. d \<le> now) (credits l VK) \<noteq> [] \<Longrightarrow>
      lk_queues (deliver names now f l) VK = lk_queues l VK \<and> lk_future (deliver names now f l) = lk_future l \<and>
      lk_robbed (deliver names now f l) =
        (case lk_queues l VK of [] \<Rightarrow> lk_robbed l | w # _ \<Rightarrow> (lk_robbed l)(w := True))"
    unfolding d using e sp by (auto split: list.splits)
  show "dropWhile (\<lambda>d. d \<le> now) (credits l VK) = [] \<Longrightarrow>
      lk_queues (deliver names now f l) VK = tl (lk_queues l VK) \<and>
      lk_future (deliver names now f l) =
        (case lk_queues l VK of [] \<Rightarrow> lk_future l
         | w # _ \<Rightarrow> (lk_future l)(w := if lk_future l w = Waiting then Answered f else lk_future l w)) \<and>
      lk_robbed (deliver names now f l) = lk_robbed l"
    unfolding d using e sp by (auto simp del: dropWhile_eq_Nil_conv split: list.splits)
qed

lemma finish_answered:
  assumes "finish valset_keys [w] T now l = (r, l')" "lk_future l w = Answered f"
  shows "r = Some f \<and> l' = l"
  using assms by (auto simp: finish_def retire_def valset_keys_def)

lemma finish_gave_up:
  assumes "finish valset_keys [w] T now l = (r, l')" "lk_future l w = Waiting"
  shows "r = None" "lk_queues l' VK = remove1 w (lk_queues l VK)" "lk_next l' = lk_next l"
    "credits l' VK = (if lk_robbed l w then credits l VK else dropWhile (\<lambda>d. d \<le> now) (credits l VK) @ [now + T])"
proof -
  define t where "t = l\<lparr>lk_future := (lk_future l)(w := Cancelled), lk_queues := (lk_queues l)(VK := remove1 w (lk_queues l VK))\<rparr>"
  obtain u ds where u: "purge VK now t = (u, ds)" by fastforce
  note p = purge_credits [OF u]
  have l': "l' = (if lk_robbed l w then t else set_stale VK ((case ds of Some l \<Rightarrow> l | None \<Rightarrow> []) @ [now + T]) u)"
    using assms u VK_prefix by (auto simp: finish_def retire_def valset_keys_def t_def is_answer_def Let_def)
  have t: "lk_queues t VK = remove1 w (lk_queues l VK)" "lk_next t = lk_next l" "credits t VK = credits l VK"
    by (simp_all add: t_def)
  have "lk_queues u = lk_queues t \<and> lk_next u = lk_next t" using p by (auto split: option.splits)
  then show "lk_queues l' VK = remove1 w (lk_queues l VK)" "lk_next l' = lk_next l"
    "credits l' VK = (if lk_robbed l w then credits l VK else dropWhile (\<lambda>d. d \<le> now) (credits l VK) @ [now + T])"
    using l' t p by (simp_all del: dropWhile_eq_Nil_conv)
  show "r = None" using assms by (simp add: finish_def)
qed

lemma at_request_le: "waiting_ok verdict s \<Longrightarrow> at_request s \<le> wl_count s \<and> wl_count s \<le> Suc (at_request s)"
  by (auto simp: waiting_ok_def at_request_def split: option.splits)

lemma world_new_ok: "0 \<le> T \<Longrightarrow> world_ok verdict T world_new"
  by (simp add: world_ok_def waiting_ok_def times_ok_def credit_ok_def ghosts_ok_def outcomes_ok_def world_new_def link_new_def
    at_request_def credits_def)

lemma link_tick_ok:
  assumes "world_ok verdict T s" "wl_now s \<le> t"
  shows "world_ok verdict T (s\<lparr>wl_now := t\<rparr>)"
proof -
  have a: "at_request (s\<lparr>wl_now := t\<rparr>) = at_request s" by (simp add: at_request_def split: option.splits)
  have "waiting_ok verdict (s\<lparr>wl_now := t\<rparr>)" "ghosts_ok (s\<lparr>wl_now := t\<rparr>)" "outcomes_ok verdict (s\<lparr>wl_now := t\<rparr>)"
    using assms by (simp_all add: world_ok_def waiting_ok_def ghosts_ok_def outcomes_ok_def a cong: option.case_cong future.case_cong prod.case_cong)
  moreover have "times_ok T (s\<lparr>wl_now := t\<rparr>)"
    using assms unfolding world_ok_def times_ok_def a by (fastforce split: option.splits)
  moreover have "credit_ok (s\<lparr>wl_now := t\<rparr>)"
    using assms unfolding world_ok_def credit_ok_def a by (fastforce split: list.splits)
  ultimately show ?thesis by (simp add: world_ok_def)
qed

lemma send_ok:
  assumes ok: "world_ok verdict T s" and "0 \<le> T" "wl_cur s = None"
    and reg: "register valset_keys (wl_link s) = (l, [w])" and "wl_now s + T \<le> d"
  shows "world_ok verdict T
    (s\<lparr>wl_link := l, wl_cur := Some (wl_count s, w, d), wl_count := wl_count s + 1, wl_owed := wl_owed s @ [wl_count s]\<rparr>)"
    (is "world_ok verdict T ?t")
proof -
  note r = register_key [OF reg]
  have c: "at_request s = wl_count s" "at_request ?t = wl_count s" using assms(3) by (simp_all add: at_request_def)
  have w: "lk_queues l VK = [w]" "lk_future l w = Waiting" "\<not> lk_robbed l w" "w < lk_next l"
    "credits l VK = credits (wl_link s) VK"
    using r ok assms(3) by (auto simp: world_ok_def waiting_ok_def)
  have "waiting_ok verdict ?t" using w by (simp add: waiting_ok_def)
  moreover have "times_ok T ?t"
    using ok assms(5) c by (fastforce simp: world_ok_def times_ok_def assms(3))
  moreover have "credit_ok ?t"
    using ok w(5) c by (auto simp: world_ok_def credit_ok_def split: list.splits)
  moreover have "ghosts_ok ?t"
    using ok by (fastforce simp: world_ok_def ghosts_ok_def sorted_wrt_append)
  moreover have "outcomes_ok verdict ?t" using ok c by (auto simp: world_ok_def outcomes_ok_def)
  ultimately show ?thesis by (simp add: world_ok_def)
qed

lemma lose_ok:
  assumes ok: "world_ok verdict T s" and "k \<in> set (wl_owed s)"
  shows "world_ok verdict T (s\<lparr>wl_owed := removeAll k (wl_owed s), wl_lost := insert k (wl_lost s)\<rparr>)"
    (is "world_ok verdict T ?t")
proof -
  have c: "at_request ?t = at_request s" by (simp add: at_request_def split: option.splits)
  have "waiting_ok verdict ?t"
    using ok assms(2) by (auto simp: world_ok_def waiting_ok_def split: option.splits future.splits)
  moreover have "times_ok T ?t" using ok unfolding world_ok_def times_ok_def c by (auto split: option.splits)
  moreover have "credit_ok ?t" using ok unfolding world_ok_def credit_ok_def c by (auto split: list.splits)
  moreover have "ghosts_ok ?t"
    using ok assms(2) by (auto simp: world_ok_def ghosts_ok_def sorted_wrt_filter removeAll_filter_not_eq)
  moreover have "outcomes_ok verdict ?t" using ok unfolding world_ok_def outcomes_ok_def c by auto
  ultimately show ?thesis by (simp add: world_ok_def)
qed

lemma other_ok:
  assumes ok: "world_ok verdict T s" and "same_key VK (cur_waiter s) (wl_link s) l"
  shows "world_ok verdict T (s\<lparr>wl_link := l\<rparr>)" (is "world_ok verdict T ?t")
proof -
  have c: "at_request ?t = at_request s" by (simp add: at_request_def split: option.splits)
  have "waiting_ok verdict ?t"
    using ok assms(2) by (fastforce simp: world_ok_def waiting_ok_def same_key_def cur_waiter_def split: option.splits future.splits)
  moreover have "times_ok T ?t" using ok unfolding world_ok_def times_ok_def c by (auto split: option.splits)
  moreover have "credit_ok ?t" using ok assms(2) unfolding world_ok_def credit_ok_def c
    by (auto simp: same_key_def split: list.splits)
  moreover have "ghosts_ok ?t" using ok by (simp add: world_ok_def ghosts_ok_def)
  moreover have "outcomes_ok verdict ?t" using ok unfolding world_ok_def outcomes_ok_def c by auto
  ultimately show ?thesis by (simp add: world_ok_def)
qed

lemma credit_cases:
  assumes "credit_ok s" "dropWhile (\<lambda>d. d \<le> wl_now s) (credits (wl_link s) VK) \<noteq> []"
  shows "\<exists>b. credits (wl_link s) VK = [wl_until s b] \<and> wl_now s < wl_until s b \<and> at_request s = Suc b \<and>
    b \<in> set (wl_owed s) \<union> wl_lost s"
  using assms by (auto simp: credit_ok_def split: list.splits)

lemma in_time_ok:
  assumes ok: "world_ok verdict T s" and owed: "wl_owed s = c # ks" and cur: "wl_cur s = Some (c, w, d)"
    and l: "l = deliver names (wl_now s) (verdict c) (wl_link s)" and keys: "keys_for names (verdict c) = Inr [VK]"
  shows "world_ok verdict T
    (s\<lparr>wl_link := l, wl_owed := ks,
       wl_eaten := (if lk_future l w = Answered (verdict c) then wl_eaten s else insert c (wl_eaten s))\<rparr>)"
    (is "world_ok verdict T ?t")
proof -
  have c: "at_request s = c" "at_request ?t = c" using cur by (simp_all add: at_request_def)
  have cnt: "wl_count s = Suc c" using ok cur by (simp add: world_ok_def waiting_ok_def)
  have ks: "ks = []" using ok owed cnt by (cases ks) (auto simp: world_ok_def ghosts_ok_def)
  have wait: "lk_future (wl_link s) w = Waiting" "lk_queues (wl_link s) VK = [w]" "w < lk_next (wl_link s)"
    using ok cur owed by (auto simp: world_ok_def waiting_ok_def split: future.splits)
  have notlost: "c \<notin> wl_lost s" using ok owed by (simp add: world_ok_def ghosts_ok_def)
  note dk = deliver_key [OF keys, of "wl_now s" "wl_link s", folded l]
  have times: "times_ok T ?t" using ok ks c cur by (auto simp: world_ok_def times_ok_def)
  have outs: "outcomes_ok verdict ?t" 
  proof -
    have "outcomes_ok verdict s" using ok by (simp add: world_ok_def)
    then have "k < c" "k \<noteq> c \<longrightarrow> k \<in> set ks \<union> wl_lost s \<union> wl_late s \<union> wl_eaten s" if "(k, None) \<in> set (wl_out s)" for k
      using that owed c by (auto simp: outcomes_ok_def)
    then show ?thesis using \<open>outcomes_ok verdict s\<close> unfolding outcomes_ok_def c by auto
  qed
  show ?thesis
  proof (cases "dropWhile (\<lambda>d. d \<le> wl_now s) (credits (wl_link s) VK) = []")
    case True
    then have f: "lk_future l w = Answered (verdict c)" "lk_queues l VK = []" "lk_robbed l = lk_robbed (wl_link s)"
      "credits l VK = []" "lk_next l = lk_next (wl_link s)"
      using dk(2) dk(4) [OF True] wait dk(1) [unfolded True] by auto
    have "waiting_ok verdict ?t" using f cur cnt ks wait ok notlost
      by (simp add: waiting_ok_def world_ok_def)
    moreover have "credit_ok ?t" using f ks by (simp add: credit_ok_def)
    moreover have "ghosts_ok ?t" using ok f ks by (auto simp: world_ok_def ghosts_ok_def)
    ultimately show ?thesis using times outs by (simp add: world_ok_def)
  next
    case False
    obtain b where b: "credits (wl_link s) VK = [wl_until s b]" "wl_now s < wl_until s b" "c = Suc b"
      "b \<in> set (wl_owed s) \<union> wl_lost s"
      using credit_cases [OF _ False] ok c by (auto simp: world_ok_def)
    then have bl: "b \<in> wl_lost s" using owed ks by auto
    have f: "lk_future l w = Waiting" "lk_queues l VK = [w]" "lk_robbed l w" "credits l VK = []" "lk_next l = lk_next (wl_link s)"
      using dk(1, 2) dk(3) [OF False] wait b by auto
    have "waiting_ok verdict ?t" using f cur cnt ks wait notlost by (simp add: waiting_ok_def)
    moreover have "credit_ok ?t" using f ks by (simp add: credit_ok_def)
    moreover have "ghosts_ok ?t" using ok f ks b bl cnt notlost owed by (auto simp: world_ok_def ghosts_ok_def)
    ultimately show ?thesis using times outs by (simp add: world_ok_def)
  qed
qed

lemma late_ok:
  assumes ok: "world_ok verdict T s" and owed: "wl_owed s = k # ks" and cur: "\<forall>w d. wl_cur s \<noteq> Some (k, w, d)"
    and now: "wl_now s < wl_until s k" and seq: "k = 0 \<or> k - 1 \<notin> wl_late s"
    and l: "l = deliver names (wl_now s) (verdict k) (wl_link s)" and keys: "keys_for names (verdict k) = Inr [VK]"
  shows "world_ok verdict T (s\<lparr>wl_link := l, wl_owed := ks, wl_late := insert k (wl_late s)\<rparr>)"
    (is "world_ok verdict T ?t")
proof -
  have a: "at_request ?t = at_request s" by (simp add: at_request_def split: option.splits)
  have "k < wl_count s" using ok owed by (simp add: world_ok_def ghosts_ok_def)
  then have k: "k < at_request s"
    using cur ok by (auto simp: at_request_def world_ok_def waiting_ok_def less_Suc_eq split: option.splits)
  then have sk: "at_request s = Suc k" using ok owed now by (fastforce simp: world_ok_def times_ok_def)
  have cr: "credits (wl_link s) VK = [wl_until s k]"
    using ok owed k now seq by (auto simp: world_ok_def credit_ok_def)
  then have live: "dropWhile (\<lambda>d. d \<le> wl_now s) (credits (wl_link s) VK) \<noteq> []" using now by simp
  note dk = deliver_key [OF keys, of "wl_now s" "wl_link s", folded l]
  have f: "credits l VK = []" "lk_next l = lk_next (wl_link s)" "lk_future l = lk_future (wl_link s)"
    "lk_queues l VK = lk_queues (wl_link s) VK"
    "lk_robbed l = (case lk_queues (wl_link s) VK of [] \<Rightarrow> lk_robbed (wl_link s) | w # _ \<Rightarrow> (lk_robbed (wl_link s))(w := True))"
    using dk(1, 2) dk(3) [OF live] cr by simp_all
  have mono: "sorted_wrt (<) (k # ks)" using ok owed by (simp add: world_ok_def ghosts_ok_def)
  have "waiting_ok verdict ?t"
  proof (cases "wl_cur s")
    case (Some x)
    obtain c w d where x: "x = (c, w, d)" by (cases x)
    have ck: "c = Suc k" using sk Some x by (simp add: at_request_def)
    have "lk_future (wl_link s) w = Waiting \<and> lk_queues (wl_link s) VK = [w]"
      using ok owed Some x by (auto simp: world_ok_def waiting_ok_def split: future.splits)
    then show ?thesis
      using ok owed Some x f ck by (auto simp: world_ok_def waiting_ok_def)
  qed (use ok f in \<open>simp add: world_ok_def waiting_ok_def\<close>)
  moreover have "times_ok T ?t" using ok owed unfolding world_ok_def times_ok_def a by (auto split: option.splits)
  moreover have "credit_ok ?t" using mono sk f(1) unfolding credit_ok_def a by auto
  moreover have "ghosts_ok ?t" using ok owed by (auto simp: world_ok_def ghosts_ok_def)
  moreover have "outcomes_ok verdict ?t" using ok owed unfolding world_ok_def outcomes_ok_def a by auto
  ultimately show ?thesis by (simp add: world_ok_def)
qed

lemma answered_ok:
  assumes ok: "world_ok verdict T s" and "0 \<le> T" and cur: "wl_cur s = Some (c, w, d)" and "lk_future (wl_link s) w \<noteq> Waiting"
    and fin: "finish valset_keys [w] T (wl_now s) (wl_link s) = (r, l)"
  shows "world_ok verdict T (s\<lparr>wl_link := l, wl_cur := None, wl_out := wl_out s @ [(c, r)]\<rparr>)" (is "world_ok verdict T ?t")
proof -
  have w: "lk_future (wl_link s) w = Answered (verdict c)" "lk_queues (wl_link s) VK = []" "wl_owed s = []"
    "credits (wl_link s) VK = []" "wl_count s = Suc c"
    using ok cur assms(4) by (auto simp: world_ok_def waiting_ok_def split: future.splits)
  have f: "r = Some (verdict c)" "l = wl_link s" using finish_answered [OF fin w(1)] by simp_all
  have a: "at_request s = c" "at_request ?t = Suc c" using cur w by (simp_all add: at_request_def)
  have "waiting_ok verdict ?t" using w f by (simp add: waiting_ok_def)
  moreover have "times_ok T ?t" using ok a w(3) assms(2) by (auto simp: world_ok_def times_ok_def less_Suc_eq)
  moreover have "credit_ok ?t" using w f by (simp add: credit_ok_def)
  moreover have "ghosts_ok ?t" using ok f w(5) by (auto simp: world_ok_def ghosts_ok_def)
  moreover have "outcomes_ok verdict ?t" using ok f a by (auto simp: world_ok_def outcomes_ok_def)
  ultimately show ?thesis by (simp add: world_ok_def)
qed

lemma gave_up_ok:
  assumes ok: "world_ok verdict T s" and "0 \<le> T" and cur: "wl_cur s = Some (c, w, d)"
    and wait: "lk_future (wl_link s) w = Waiting" and now: "d \<le> wl_now s"
    and fin: "finish valset_keys [w] T (wl_now s) (wl_link s) = (r, l)"
  shows "world_ok verdict T
    (s\<lparr>wl_link := l, wl_cur := None, wl_out := wl_out s @ [(c, r)], wl_until := (wl_until s)(c := wl_now s + T)\<rparr>)"
    (is "world_ok verdict T ?t")
proof -
  have w: "lk_queues (wl_link s) VK = [w]" "wl_count s = Suc c"
    "c \<in> set (wl_owed s) \<union> wl_lost s \<or> lk_robbed (wl_link s) w \<and> c \<in> wl_eaten s"
    "lk_robbed (wl_link s) w \<Longrightarrow> c \<in> set (wl_owed s) \<union> wl_lost s \<Longrightarrow> 0 < c \<and> c - 1 \<in> wl_late s"
    using ok cur wait by (auto simp: world_ok_def waiting_ok_def)
  note f = finish_gave_up [OF fin wait]
  have a: "at_request s = c" "at_request ?t = Suc c" using cur w by (simp_all add: at_request_def)
  have old: "wl_until s k \<le> wl_now s" if "k < c" for k
    using ok cur a that now by (fastforce simp: world_ok_def times_ok_def)
  have dead: "dropWhile (\<lambda>d. d \<le> wl_now s) (credits (wl_link s) VK) = []"
  proof (rule ccontr)
    assume "dropWhile (\<lambda>d. d \<le> wl_now s) (credits (wl_link s) VK) \<noteq> []"
    from credit_cases [OF _ this] ok a old show False by (fastforce simp: world_ok_def)
  qed
  have cr: "credits l VK = (if lk_robbed (wl_link s) w then credits (wl_link s) VK else [wl_now s + T])"
    using f(4) dead by simp
  have "waiting_ok verdict ?t" using f(2) w(1) by (simp add: waiting_ok_def)
  moreover have "times_ok T ?t"
    using ok a old assms(2) by (auto simp: world_ok_def times_ok_def less_Suc_eq)
  moreover have "credit_ok ?t"
  proof (cases "lk_robbed (wl_link s) w")
    case True
    then show ?thesis using ok a w(4) cr dead old unfolding world_ok_def credit_ok_def
      by (auto simp: less_Suc_eq split: list.splits)
  next
    case False
    then show ?thesis using a w(3) cr old by (auto simp: credit_ok_def less_Suc_eq)
  qed
  moreover have "ghosts_ok ?t" using ok f(1) w(2) by (auto simp: world_ok_def ghosts_ok_def)
  moreover have "outcomes_ok verdict ?t" using ok f(1) a w(3) by (auto simp: world_ok_def outcomes_ok_def less_Suc_eq)
  ultimately show ?thesis by (simp add: world_ok_def)
qed

lemma link_step_ok:
  assumes "link_step names verdict T s t" "world_ok verdict T s" "0 \<le> T" "\<And>k. keys_for names (verdict k) = Inr [VK]"
  shows "world_ok verdict T t"
  using assms(1)
proof (cases rule: link_step.cases)
  case (tick t)
  then show ?thesis using link_tick_ok assms(2) by blast
next
  case (send l w d)
  then show ?thesis using send_ok [OF assms(2, 3)] by blast
next
  case (lose k)
  then show ?thesis using lose_ok assms(2) by blast
next
  case (in_time k ks w d l)
  then show ?thesis using in_time_ok [OF assms(2)] assms(4) by blast
next
  case (late k ks)
  then show ?thesis using late_ok [OF assms(2) _ _ _ _ refl] assms(4) by blast
next
  case (answered k w d r l)
  then show ?thesis using answered_ok [OF assms(2, 3)] by blast
next
  case (gave_up k w d r l)
  then show ?thesis using gave_up_ok [OF assms(2, 3)] by blast
next
  case (other l)
  then show ?thesis using other_ok assms(2) by blast
qed

lemma link_steps_ok:
  assumes "link_steps names verdict T s t" "world_ok verdict T s" "0 \<le> T" "\<And>k. keys_for names (verdict k) = Inr [VK]"
  shows "world_ok verdict T t"
  using assms(1, 2) by (induction rule: rtranclp_induct) (auto intro: link_step_ok assms(3, 4))

section \<open>Properties\<close>

text \<open>The acknowledgement of a CFG-VALSET, as the receiver sends it.\<close>

definition ack_frame :: "bool \<Rightarrow> frame" where
  "ack_frame ok =
     (let body = [0x05, if ok then 0x01 else 0x00, 0x02, 0x00, 0x06, 0x8A]
      in \<lparr>fr_proto = UBX, fr_raw = [0xB5, 0x62] @ body @ ubx_checksum body, fr_t_mono = 0, fr_t_host = 0\<rparr>)"

lemma ack_frame_keys:
  assumes "names [0x05, 0x01] = Some ''ACK-ACK''" "names [0x05, 0x00] = Some ''ACK-NAK''"
  shows "keys_for names (ack_frame ok) = Inr [VK]" "(identity names None (ack_frame ok) = Inr ''ACK-ACK'') = ok"
  using assms length_ubx_checksum [of "[0x05, if ok then 0x01 else 0x00, 0x02, 0x00, 0x06, 0x8A]"]
  by (auto simp: keys_for_def identity_def payload_def ack_frame_def Let_def py_slice_def CFG_VALSET_def numeral_eq_Suc
    length_Suc_conv)

text \<open>
  C25. CFG-VALSETs sent one at a time, to a receiver that acknowledges in order or not at all, with no two late
  acknowledgements in a row and none later than one more timeout: whatever is lost, late or
  interleaved with other traffic, a request that returns got the verdict on that very request; it times
  out only when its own acknowledgement was lost, is late, or was discarded for one lost just before; a
  discarded one is never followed by another, so a loss costs one extra timeout; and at
  most one credit is ever kept.
\<close>

theorem link_correlates:
  assumes "link_steps names verdict T world_new s" "0 \<le> T" "\<And>k. keys_for names (verdict k) = Inr [ack_key CFG_VALSET]"
  shows "list_all (\<lambda>(k, r). case r of
        Some f \<Rightarrow> f = verdict k
      | None \<Rightarrow> k \<in> set (wl_owed s) \<union> wl_lost s \<union> wl_late s \<union> wl_eaten s) (wl_out s) \<and>
    wl_eaten s \<subseteq> Suc ` wl_lost s \<and> wl_eaten s \<inter> Suc ` wl_eaten s = {} \<and>
    length (credits (wl_link s) (ack_key CFG_VALSET)) \<le> 1"
proof -
  have ok: "world_ok verdict T s" using link_steps_ok [OF assms(1) world_new_ok] assms(2, 3) by blast
  have e: "0 < k \<and> k - 1 \<in> wl_lost s \<and> k \<notin> wl_lost s" if "k \<in> wl_eaten s" for k
    using ok that by (simp add: world_ok_def ghosts_ok_def)
  have sub: "wl_eaten s \<subseteq> Suc ` wl_lost s"
  proof
    fix k
    assume "k \<in> wl_eaten s"
    from e [OF this] have "k = Suc (k - 1)" "k - 1 \<in> wl_lost s" by simp_all
    then show "k \<in> Suc ` wl_lost s" by (rule image_eqI)
  qed
  moreover have "wl_eaten s \<inter> Suc ` wl_eaten s = {}"
  proof (rule equals0I)
    fix k
    assume "k \<in> wl_eaten s \<inter> Suc ` wl_eaten s"
    then obtain j where "k = Suc j" "k \<in> wl_eaten s" "j \<in> wl_eaten s" by auto
    then show False using e [of k] e [of j] by simp
  qed
  moreover have "length (credits (wl_link s) VK) \<le> 1"
    using ok by (auto simp: world_ok_def credit_ok_def split: list.splits)
  moreover have "list_all (\<lambda>(k, r). case r of Some f \<Rightarrow> f = verdict k
      | None \<Rightarrow> k \<in> set (wl_owed s) \<union> wl_lost s \<union> wl_late s \<union> wl_eaten s) (wl_out s)"
    using ok by (auto simp: world_ok_def outcomes_ok_def list_all_iff split: option.splits)
  ultimately show ?thesis by blast
qed

text \<open>A CFG-VALSET that is sent and accepted.\<close>

lemma link_correlates_witness:
  "\<exists>s :: world. wl_out s = [(0, Some (ack_frame True))] \<and>
    list_all (\<lambda>(k, r). case r of
        Some f \<Rightarrow> f = ack_frame True
      | None \<Rightarrow> k \<in> set (wl_owed s) \<union> wl_lost s \<union> wl_late s \<union> wl_eaten s) (wl_out s) \<and>
    length (credits (wl_link s) (ack_key CFG_VALSET)) \<le> 1"
proof -
  define names where "names = [[0x05 :: byte, 0x01] \<mapsto> ''ACK-ACK'', [0x05, 0x00] \<mapsto> ''ACK-NAK'']"
  define v where "v = (\<lambda>k :: nat. ack_frame True)"
  have keys: "keys_for names (v k) = Inr [VK]" for k
    unfolding v_def by (rule ack_frame_keys) (simp_all add: names_def)
  define l1 where "l1 = fst (register valset_keys link_new)"
  have r: "register valset_keys link_new = (l1, [0])" by (simp add: l1_def valset_keys_def link_new_def)
  define s1 where "s1 = world_new\<lparr>wl_link := l1, wl_cur := Some (wl_count world_new, 0, 2),
    wl_count := wl_count world_new + 1, wl_owed := wl_owed world_new @ [wl_count world_new]\<rparr>"
  have 1: "link_step names v 2 world_new s1"
    unfolding s1_def by (rule send) (simp_all add: world_new_def r)
  define l2 where "l2 = deliver names (wl_now s1) (v 0) (wl_link s1)"
  have l1: "lk_queues l1 VK = [0]" "lk_future l1 0 = Waiting" "credits l1 VK = []"
    using register_key [OF r] by (simp_all add: link_new_def credits_def)
  have s1: "wl_link s1 = l1" "wl_owed s1 = [0]" "wl_cur s1 = Some (0, 0, 2)" "wl_out s1 = []"
    by (simp_all add: s1_def world_new_def)
  have l2: "lk_future l2 0 = Answered (v 0)"
    using deliver_key(4) [OF keys, of "wl_now s1" "wl_link s1" 0] s1 l1 by (simp add: l2_def)
  define s2 where "s2 = s1\<lparr>wl_link := l2, wl_owed := [],
    wl_eaten := (if lk_future l2 0 = Answered (v 0) then wl_eaten s1 else insert 0 (wl_eaten s1))\<rparr>"
  have 2: "link_step names v 2 s1 s2"
    unfolding s2_def by (rule in_time) (use s1 in \<open>simp_all add: l2_def\<close>)
  obtain r3 l3 where f: "finish valset_keys [0] 2 (wl_now s2) (wl_link s2) = (r3, l3)" by fastforce
  have r3: "r3 = Some (v 0)" using finish_answered [OF f] l2 by (simp add: s2_def)
  define s3 where "s3 = s2\<lparr>wl_link := l3, wl_cur := None, wl_out := wl_out s2 @ [(0, r3)]\<rparr>"
  have 3: "link_step names v 2 s2 s3"
    unfolding s3_def by (rule answered [OF _ _ f]) (use s1 l2 in \<open>simp_all add: s2_def\<close>)
  have "link_steps names v 2 world_new s1" using 1 by (rule r_into_rtranclp)
  then have "link_steps names v 2 world_new s2" using 2 by (rule rtranclp.rtrancl_into_rtrancl)
  then have "link_steps names v 2 world_new s3" using 3 by (rule rtranclp.rtrancl_into_rtrancl)
  note lc = link_correlates [OF this zero_le_numeral keys]
  have out: "wl_out s3 = [(0, Some (ack_frame True))]" using r3 s1 by (simp add: s3_def s2_def v_def)
  show ?thesis
  proof (intro exI [of _ s3] conjI)
    show "length (credits (wl_link s3) VK) \<le> 1" using lc by (elim conjE)
    show "list_all (\<lambda>(k, r). case r of
        Some f \<Rightarrow> f = ack_frame True
      | None \<Rightarrow> k \<in> set (wl_owed s3) \<union> wl_lost s3 \<union> wl_late s3 \<union> wl_eaten s3) (wl_out s3)"
      by (rule lc [THEN conjunct1, unfolded v_def])
  qed (rule out)
qed

text \<open>
  Two late acknowledgements in a row do confuse the link: the credit for the first is spent on the first,
  which robs the second request of its own credit, and a third request then gets the verdict on the second.
\<close>

definition three_valsets :: "(bytes \<Rightarrow> string option) \<Rightarrow> frame option" where
  "three_valsets names =
     (let (s1, ws1) = register valset_keys link_new;
          (_, s2) = finish valset_keys ws1 2 2 s1;
          (s3, ws3) = register valset_keys s2;
          s4 = deliver names 3 (ack_frame True) s3;
          (_, s5) = finish valset_keys ws3 2 4 s4;
          (s6, ws6) = register valset_keys s5;
          s7 = deliver names 5 (ack_frame False) s6
      in fst (finish valset_keys ws6 2 5 s7))"

lemma two_late_acknowledgements:
  assumes "names [0x05, 0x01] = Some ''ACK-ACK''" "names [0x05, 0x00] = Some ''ACK-NAK''"
  shows "three_valsets names = Some (ack_frame False)"
proof -
  obtain s1 ws1 where 1: "register valset_keys link_new = (s1, ws1)" by fastforce
  obtain r2 s2 where 2: "finish valset_keys ws1 2 2 s1 = (r2, s2)" by fastforce
  obtain s3 ws3 where 3: "register valset_keys s2 = (s3, ws3)" by fastforce
  define s4 where "s4 = deliver names 3 (ack_frame True) s3"
  obtain r5 s5 where 5: "finish valset_keys ws3 2 4 s4 = (r5, s5)" by fastforce
  obtain s6 ws6 where 6: "register valset_keys s5 = (s6, ws6)" by fastforce
  define s7 where "s7 = deliver names 5 (ack_frame False) s6"
  obtain r8 s8 where 8: "finish valset_keys ws6 2 5 s7 = (r8, s8)" by fastforce
  note kT = ack_frame_keys(1) [OF assms, of True] and kF = ack_frame_keys(1) [OF assms, of False]
  have k1: "ws1 = [0]" "lk_queues s1 VK = [0]" "credits s1 VK = []" "lk_future s1 0 = Waiting" "\<not> lk_robbed s1 0" "lk_next s1 = 1"
    using register_key [OF 1] by (simp_all add: link_new_def credits_def)
  have k2: "lk_queues s2 VK = []" "credits s2 VK = [4]" "lk_next s2 = 1"
    using finish_gave_up [OF 2 [unfolded k1(1)] k1(4)] k1 by simp_all
  have k3: "ws3 = [1]" "lk_queues s3 VK = [1]" "credits s3 VK = [4]" "lk_future s3 1 = Waiting" "lk_next s3 = 2"
    using register_key [OF 3] k2 by simp_all
  have k4: "lk_queues s4 VK = [1]" "credits s4 VK = []" "lk_future s4 1 = Waiting" "lk_robbed s4 1" "lk_next s4 = 2"
    using deliver_key(1-3) [OF kT, of 3 s3] k3 by (simp_all add: s4_def)
  have k5: "lk_queues s5 VK = []" "credits s5 VK = []" "lk_next s5 = 2"
    using finish_gave_up [OF 5 [unfolded k3(1)] k4(3)] k4 by simp_all
  have k6: "ws6 = [2]" "lk_queues s6 VK = [2]" "credits s6 VK = []" "lk_future s6 2 = Waiting"
    using register_key [OF 6] k5 by simp_all
  have k7: "lk_future s7 2 = Answered (ack_frame False)"
    using deliver_key(4) [OF kF, of 5 s6] k6 by (simp add: s7_def)
  have "r8 = Some (ack_frame False)" using finish_answered [OF 8 [unfolded k6(1)] k7] by simp
  then show ?thesis
    by (simp add: three_valsets_def 1 2 3 5 6 8 s4_def [symmetric] s7_def [symmetric] del: register.simps)
qed

end
