(* ===== verification/BaseMode.thy ===== *)
theory BaseMode
  imports Floats Frames
begin

text \<open>
  The base's TMODE, \<open>src/mtrtk/base/basemode.py\<close>, over the sites table of \<open>src/mtrtk/store/repos.py\<close>: what is
  written to the receiver, the verification of a fixed site against the broadcast RTCM 1005, and the poll that
  picks up activations. A write waits for the receiver: an operation is a first half up
  to its write, with what to do next as a value, and a second half that takes the answer; \<open>on_1005\<close> and
  \<open>on_fix\<close> may run between the two. The database reads of one operation happen at one instant. pyubx2's \<open>val2sphp\<close> and
  pyrtcm's reading of a frame are parameters.
\<close>

section \<open>Sites\<close>

record site =
  st_id :: nat
  st_name :: string
  st_pos :: "real \<times> real \<times> real"
  st_sigma :: "real option \<times> real option \<times> real option"
  st_frame :: string
  st_source :: string
  st_notes :: "string option"
  st_active :: bool

definition sigma_3d :: "site \<Rightarrow> flt option" where
  "sigma_3d s =
     (case st_sigma s of
        (Some a, Some b, Some c) \<Rightarrow> Some (rnd (sqrt (a ^ 2 + b ^ 2 + c ^ 2))) | _ \<Rightarrow> None)"

text \<open>The sites table, in the order of its keys, which are never used twice.\<close>

record sites =
  tb_rows :: "site list"
  tb_next :: nat

definition sites_get :: "string \<Rightarrow> sites \<Rightarrow> site option" where
  "sites_get name t = find (\<lambda>r. st_name r = name) (tb_rows t)"

definition sites_active :: "sites \<Rightarrow> site option" where
  "sites_active t = find st_active (tb_rows t)"

definition sites_insert :: "site \<Rightarrow> sites \<Rightarrow> sites" where
  "sites_insert s t =
     t\<lparr>tb_rows := tb_rows t @ [s\<lparr>st_id := tb_next t, st_active := False\<rparr>], tb_next := tb_next t + 1\<rparr>"

definition sites_add :: "site \<Rightarrow> sites \<Rightarrow> py_error + site \<times> sites" where
  "sites_add s t =
     (if sites_get (st_name s) t \<noteq> None then Inl ValueError
      else let t1 = sites_insert s t in Inr (the (sites_get (st_name s) t1), t1))"

definition sites_delete :: "string \<Rightarrow> sites \<Rightarrow> py_error + sites" where
  "sites_delete name t =
     (case sites_get name t of
        Some r \<Rightarrow> if st_active r then Inl ValueError
                   else Inr (t\<lparr>tb_rows := filter (\<lambda>r. st_name r \<noteq> name) (tb_rows t)\<rparr>)
      | None \<Rightarrow> Inr t)"

definition sites_activate :: "string \<Rightarrow> sites \<Rightarrow> py_error + site \<times> sites" where
  "sites_activate name t =
     (if sites_get name t = None then Inl KeyError
      else
        let off = map (\<lambda>r. if st_active r then r\<lparr>st_active := False\<rparr> else r) (tb_rows t);
            t1 = t\<lparr>tb_rows := map (\<lambda>r. if st_name r = name then r\<lparr>st_active := True\<rparr> else r) off\<rparr>
        in Inr (the (sites_get name t1), t1))"

text \<open>A position and one sigma for every axis.\<close>

definition from_ecef ::
  "string \<Rightarrow> real \<times> real \<times> real \<Rightarrow> real option \<Rightarrow> string \<Rightarrow> string \<Rightarrow> string option \<Rightarrow> site" where
  "from_ecef name p sigma src fr notes =
     \<lparr>st_id = 0, st_name = name, st_pos = p, st_sigma = (sigma, sigma, sigma), st_frame = fr, st_source = src,
      st_notes = notes, st_active = False\<rparr>"

section \<open>Receiver settings\<close>

type_synonym cfg_items = "(string \<times> int) list"

text \<open>\<open>int(round(v * 10_000))\<close>; an infinity raises.\<close>

definition tenths :: "flt \<Rightarrow> py_error + int" where
  "tenths v = (case v of Fin x \<Rightarrow> (case rnd (x * 10000) of Fin r \<Rightarrow> Inr (py_round r) | _ \<Rightarrow> Inl OverflowError)
               | _ \<Rightarrow> Inl OverflowError)"

definition tmode_off :: cfg_items where "tmode_off = [(''CFG_TMODE_MODE'', 0)]"

definition tmode_survey_in :: "int \<Rightarrow> flt \<Rightarrow> py_error + cfg_items" where
  "tmode_survey_in min_dur acc =
     map_sum id (\<lambda>a. [(''CFG_TMODE_MODE'', 1), (''CFG_TMODE_SVIN_MIN_DUR'', min_dur), (''CFG_TMODE_SVIN_ACC_LIMIT'', a)])
       (tenths acc)"

definition tmode_fixed_ecef ::
  "(real \<Rightarrow> int \<times> int) \<Rightarrow> real \<times> real \<times> real \<Rightarrow> flt \<Rightarrow> py_error + cfg_items" where
  "tmode_fixed_ecef sphp = (\<lambda>(x, y, z) acc.
     map_sum id (\<lambda>a. [(''CFG_TMODE_MODE'', 2), (''CFG_TMODE_POS_TYPE'', 0),
         (''CFG_TMODE_ECEF_X'', fst (sphp x)), (''CFG_TMODE_ECEF_X_HP'', snd (sphp x)),
         (''CFG_TMODE_ECEF_Y'', fst (sphp y)), (''CFG_TMODE_ECEF_Y_HP'', snd (sphp y)),
         (''CFG_TMODE_ECEF_Z'', fst (sphp z)), (''CFG_TMODE_ECEF_Z_HP'', snd (sphp z)),
         (''CFG_TMODE_FIXED_POS_ACC'', a)])
       (tenths acc))"

section \<open>The broadcast position\<close>

record ecef_1005 =
  ec_station :: int
  ec_pos :: "real \<times> real \<times> real"
  ec_gps :: bool
  ec_glonass :: bool
  ec_galileo :: bool

text \<open>\<open>parsed\<close> is pyrtcm's reading of the frame, \<open>None\<close> when it or a conversion raises.\<close>

definition decode_1005 :: "(frame \<Rightarrow> ecef_1005 option) \<Rightarrow> frame \<Rightarrow> ecef_1005 option" where
  "decode_1005 parsed f = (if fr_proto f \<noteq> RTCM3 \<or> rtcm_type f \<noteq> Inr 1005 then None else parsed f)"

section \<open>The manager\<close>

text \<open>The double nearest to 0.0005, and the one nearest to 0.01.\<close>

definition SITE_TOLERANCE_M :: real where "SITE_TOLERANCE_M = 1152921504606847 / 2 ^ 61"
definition VERIFY_DEADLINE_S :: real where "VERIFY_DEADLINE_S = 30"
definition DEFAULT_FIXED_ACC_M :: real where "DEFAULT_FIXED_ACC_M = 5764607523034235 / 2 ^ 59"
definition FIX_TYPE_TIME_ONLY :: int where "FIX_TYPE_TIME_ONLY = 5"

datatype base_mode = SURVEY_IN | FIXED | OFF
datatype verify = Verified | Mismatched
datatype restart_result = RESTART_OK | STOP_REFUSED | SURVEY_REFUSED

datatype reason = NO_SITE_REASON | NAK_REASON | TIMEOUT_REASON | RESTART_STOP_REASON | RESTART_SURVEY_REASON

datatype base_msg =
    ModeMsg base_mode "string option" "reason option"
  | VerifiedMsg string "flt \<times> flt \<times> flt"
  | MismatchMsg string "flt \<times> flt \<times> flt"
  | NotEffectiveMsg string int

text \<open>The receiver's answer to a write: \<open>LinkTimeout\<close> is \<open>NoAnswer\<close>, any other exception \<open>Raised\<close>.\<close>

datatype answer = Accepted | Refused | NoAnswer | Raised

type_synonym ident = "string \<times> nat \<times> real \<times> real \<times> real"

definition site_ident :: "site \<Rightarrow> ident" where
  "site_ident s = (st_name s, st_id s, st_pos s)"

record base =
  bm_mode :: base_mode
  bm_dur :: int
  bm_acc :: flt
  bm_site_name :: "string option"
  bm_applied :: "site option"
  bm_last :: "ecef_1005 option"
  bm_verify :: "verify option"
  bm_deadline :: "real option"
  bm_nak :: "ident option"
  bm_baseline :: "ident option"
  bm_sites :: sites
  bm_bus :: "base_msg list"
  bm_writes :: "(cfg_items \<times> answer) list"

definition base_new :: "base_mode \<Rightarrow> int \<Rightarrow> flt \<Rightarrow> string option \<Rightarrow> sites \<Rightarrow> base" where
  "base_new m dur acc name t =
     \<lparr>bm_mode = m, bm_dur = dur, bm_acc = acc, bm_site_name = name, bm_applied = None, bm_last = None, bm_verify = None,
      bm_deadline = None, bm_nak = None, bm_baseline = None, bm_sites = t, bm_bus = [], bm_writes = []\<rparr>"

definition publish_base :: "base_msg \<Rightarrow> base \<Rightarrow> base" where
  "publish_base m s = s\<lparr>bm_bus := bm_bus s @ [m]\<rparr>"

definition announce :: "string option \<Rightarrow> reason option \<Rightarrow> base \<Rightarrow> base" where
  "announce name why s = publish_base (ModeMsg (bm_mode s) name why) s"

definition clear_verification :: "base \<Rightarrow> base" where
  "clear_verification s = s\<lparr>bm_applied := None, bm_verify := None, bm_deadline := None\<rparr>"

text \<open>What a write waits for: the rest of \<open>_apply_tmode\<close> and of its caller, or of \<open>_apply_fixed\<close>.\<close>

datatype caller = Alone | RestartStop | RestartSurvey

datatype waiting = WaitTmode caller cfg_items "reason option" | WaitFixed site cfg_items

text \<open>The first half of an operation: a state, and a write to wait for, nothing more to do, or an exception.\<close>

datatype began = Wait waiting | Nothing | Fails py_error

definition begin_tmode :: "caller \<Rightarrow> py_error + cfg_items \<Rightarrow> reason option \<Rightarrow> base \<Rightarrow> base \<times> began" where
  "begin_tmode k items why s =
     (case items of Inl e \<Rightarrow> (s, Fails e) | Inr i \<Rightarrow> (clear_verification s, Wait (WaitTmode k i why)))"

definition svin_items :: "base \<Rightarrow> py_error + cfg_items" where
  "svin_items s = tmode_survey_in (bm_dur s) (bm_acc s)"

definition fixed_acc :: "site \<Rightarrow> flt" where
  "fixed_acc p = (case sigma_3d p of None \<Rightarrow> Fin DEFAULT_FIXED_ACC_M
                  | Some a \<Rightarrow> if a = Fin 0 then Fin DEFAULT_FIXED_ACC_M else a)"

definition begin_fixed :: "(real \<Rightarrow> int \<times> int) \<Rightarrow> site \<Rightarrow> base \<Rightarrow> base \<times> began" where
  "begin_fixed sphp p s =
     (case tmode_fixed_ecef sphp (st_pos p) (fixed_acc p) of
        Inl e \<Rightarrow> (s, Fails e) | Inr i \<Rightarrow> (s, Wait (WaitFixed p i)))"

definition resolve_site :: "base \<Rightarrow> base \<times> site option" where
  "resolve_site s =
     (case bm_site_name s of
        Some (c # cs) \<Rightarrow>
          (case sites_get (c # cs) (bm_sites s) of
             Some named \<Rightarrow>
               (if st_active named then (s, Some named)
                else case sites_activate (st_name named) (bm_sites s) of
                       Inr (r, t) \<Rightarrow> (s\<lparr>bm_sites := t\<rparr>, Some r) | Inl _ \<Rightarrow> (s, None))
           | None \<Rightarrow> (s, sites_active (bm_sites s)))
      | _ \<Rightarrow> (s, sites_active (bm_sites s)))"

definition begin_apply :: "(real \<Rightarrow> int \<times> int) \<Rightarrow> base \<Rightarrow> base \<times> began" where
  "begin_apply sphp s0 =
     (let s = s0\<lparr>bm_nak := None\<rparr> in
      if bm_mode s = FIXED then
        (case resolve_site s of
           (s1, Some p) \<Rightarrow> begin_fixed sphp p (s1\<lparr>bm_baseline := Some (site_ident p)\<rparr>)
         | (s1, None) \<Rightarrow>
             let s2 = s1\<lparr>bm_baseline := None, bm_mode := SURVEY_IN\<rparr>
             in begin_tmode Alone (svin_items s2) (Some NO_SITE_REASON) s2)
      else
        let s1 = s\<lparr>bm_baseline := map_option site_ident (sites_active (bm_sites s))\<rparr> in
        if bm_mode s1 = OFF then begin_tmode Alone (Inr tmode_off) None s1
        else begin_tmode Alone (svin_items s1) None s1)"

definition begin_restart :: "base \<Rightarrow> base \<times> began" where
  "begin_restart s = begin_tmode RestartStop (Inr tmode_off) None (s\<lparr>bm_mode := OFF\<rparr>)"

definition begin_activate :: "(real \<Rightarrow> int \<times> int) \<Rightarrow> string \<Rightarrow> base \<Rightarrow> base \<times> began" where
  "begin_activate sphp name s =
     (case sites_activate name (bm_sites s) of
        Inl e \<Rightarrow> (s, Fails e) | Inr (p, t) \<Rightarrow> begin_fixed sphp p (s\<lparr>bm_sites := t\<rparr>))"

definition begin_poll :: "(real \<Rightarrow> int \<times> int) \<Rightarrow> base \<Rightarrow> base \<times> began" where
  "begin_poll sphp s =
     (case sites_active (bm_sites s) of
        None \<Rightarrow> (s, Nothing)
      | Some p \<Rightarrow>
          let i = site_ident p in
          if bm_nak s = Some i then (s, Nothing)
          else if bm_mode s = FIXED then
            (if map_option site_ident (bm_applied s) = Some i then (s, Nothing) else begin_fixed sphp p s)
          else if bm_baseline s = Some i then (s, Nothing) else begin_fixed sphp p s)"

text \<open>The second half: the new state, a further write to wait for, and the result of a restart.\<close>

datatype ended = Again waiting | Done | Result restart_result | Escapes py_error | Propagates

definition end_tmode :: "answer \<Rightarrow> reason option \<Rightarrow> base \<Rightarrow> base \<times> bool" where
  "end_tmode a why s =
     (case a of
        Accepted \<Rightarrow> (announce None why s, True)
      | Refused \<Rightarrow> (announce None (Some NAK_REASON) s, False)
      | _ \<Rightarrow> (announce None (Some TIMEOUT_REASON) s, False))"

definition end_fixed :: "answer \<Rightarrow> real \<Rightarrow> site \<Rightarrow> base \<Rightarrow> base" where
  "end_fixed a now p s =
     (case a of
        Accepted \<Rightarrow>
          announce (Some (st_name p)) None
            ((clear_verification s)\<lparr>bm_mode := FIXED, bm_applied := Some p, bm_deadline := Some (now + VERIFY_DEADLINE_S),
              bm_nak := None\<rparr>)
      | Refused \<Rightarrow> announce (Some (st_name p)) (Some NAK_REASON) (s\<lparr>bm_nak := Some (site_ident p)\<rparr>)
      | _ \<Rightarrow> announce (Some (st_name p)) (Some TIMEOUT_REASON) s)"

definition log_cfg :: "cfg_items \<Rightarrow> answer \<Rightarrow> base \<Rightarrow> base" where
  "log_cfg i a s = s\<lparr>bm_writes := bm_writes s @ [(i, a)]\<rparr>"

definition end_write :: "answer \<Rightarrow> real \<Rightarrow> waiting \<Rightarrow> base \<Rightarrow> base \<times> ended" where
  "end_write a now w s0 =
     (case w of
        WaitFixed p i \<Rightarrow>
          (let s = log_cfg i a s0 in if a = Raised then (s, Propagates) else (end_fixed a now p s, Done))
      | WaitTmode k i why \<Rightarrow>
          (let s = log_cfg i a s0 in
           if a = Raised then (s, Propagates)
           else
             let (s1, applied) = end_tmode a why s in
             case k of
               Alone \<Rightarrow> (s1, Done)
             | RestartStop \<Rightarrow>
                 (if \<not> applied then
                    (announce None (Some RESTART_STOP_REASON) (s1\<lparr>bm_mode := SURVEY_IN\<rparr>), Result STOP_REFUSED)
                  else
                    let s2 = s1\<lparr>bm_mode := SURVEY_IN\<rparr> in
                    case begin_tmode RestartSurvey (svin_items s2) None s2 of
                      (s3, Wait w') \<Rightarrow> (s3, Again w') | (s3, Fails e) \<Rightarrow> (s3, Escapes e) | (s3, Nothing) \<Rightarrow> (s3, Done))
             | RestartSurvey \<Rightarrow>
                 (if \<not> applied then
                    (announce None (Some RESTART_SURVEY_REASON) (s1\<lparr>bm_mode := OFF\<rparr>), Result SURVEY_REFUSED)
                  else (s1, Result RESTART_OK))))"

section \<open>Verification\<close>

definition flt_abs :: "flt \<Rightarrow> flt" where
  "flt_abs a = (case a of NaN \<Rightarrow> NaN | Inf _ \<Rightarrow> Inf False | Fin x \<Rightarrow> Fin \<bar>x\<bar>)"

definition deviation :: "ecef_1005 \<Rightarrow> site \<Rightarrow> flt \<times> flt \<times> flt" where
  "deviation e p =
     (case (ec_pos e, st_pos p) of ((a, b, c), (x, y, z)) \<Rightarrow> (rnd (a - x), rnd (b - y), rnd (c - z)))"

text \<open>The largest of three absolute values is at most the tolerance when all are (differences are never NaN).\<close>

definition within_tolerance :: "flt \<times> flt \<times> flt \<Rightarrow> bool" where
  "within_tolerance = (\<lambda>(a, b, c). list_all (\<lambda>d. case flt_abs d of Fin x \<Rightarrow> x \<le> SITE_TOLERANCE_M | _ \<Rightarrow> False) [a, b, c])"

definition on_1005 :: "(frame \<Rightarrow> ecef_1005 option) \<Rightarrow> frame \<Rightarrow> base \<Rightarrow> base" where
  "on_1005 parsed f s0 =
     (case decode_1005 parsed f of
        None \<Rightarrow> s0
      | Some e \<Rightarrow>
          let s = s0\<lparr>bm_last := Some e\<rparr> in
          case bm_applied s of
            None \<Rightarrow> s
          | Some p \<Rightarrow>
              if bm_mode s \<noteq> FIXED then s
              else if within_tolerance (deviation e p) then
                (if bm_verify s = Some Verified then s
                 else publish_base (VerifiedMsg (st_name p) (deviation e p)) (s\<lparr>bm_verify := Some Verified\<rparr>))
              else if bm_verify s = Some Mismatched then s
              else publish_base (MismatchMsg (st_name p) (deviation e p)) (s\<lparr>bm_verify := Some Mismatched\<rparr>))"

definition on_fix :: "int \<Rightarrow> real \<Rightarrow> base \<Rightarrow> base" where
  "on_fix fix_type now s =
     (case bm_applied s of
        None \<Rightarrow> s
      | Some p \<Rightarrow>
          if bm_mode s \<noteq> FIXED then s
          else if fix_type = FIX_TYPE_TIME_ONLY \<or> bm_verify s \<noteq> None then s
          else case bm_deadline s of
                 None \<Rightarrow> s
               | Some d \<Rightarrow>
                   if now \<le> d then s
                   else publish_base (NotEffectiveMsg (st_name p) fix_type) (s\<lparr>bm_verify := Some Mismatched\<rparr>))"

section \<open>Survey-in\<close>

record survey_in =
  sv_valid :: bool
  sv_dur :: int
  sv_obs :: int
  sv_mean :: "real option \<times> real option \<times> real option"
  sv_acc :: "real option"

definition freeze_survey_in :: "survey_in \<Rightarrow> string \<Rightarrow> base \<Rightarrow> py_error + site \<times> base" where
  "freeze_survey_in sv name s =
     (case sv_mean sv of
        (Some x, Some y, Some z) \<Rightarrow>
          (if \<not> sv_valid sv then Inl ValueError
           else
             case sites_add (from_ecef name (x, y, z) (sv_acc sv) ''survey-in'' ''WGS84 (receiver)''
                (Some (''survey-in '' @ dec_int (sv_dur sv) @ ''s, '' @ dec_int (sv_obs sv) @ '' observations''))) (bm_sites s) of
               Inl e \<Rightarrow> Inl e | Inr (p, t) \<Rightarrow> Inr (p, s\<lparr>bm_sites := t\<rparr>))
      | _ \<Rightarrow> Inl ValueError)"

section \<open>Runs\<close>

text \<open>
  The operations take turns behind \<open>_apply_lock\<close>; messages, other users of the table and a change of the settings
  (\<open>_apply_live\<close> in \<open>web/api/config.py\<close>, which takes no lock) come at any time.
\<close>

datatype op = ApplyMode | Restart | Activate string | Poll
datatype db_op = DbAdd site | DbDelete string | DbActivate string

datatype base_event =
    Begin op
  | Answer answer real
  | Rtcm frame
  | Fix int real
  | Freeze survey_in string
  | Outside db_op
  | Configure base_mode int flt "string option"

definition begin_op :: "(real \<Rightarrow> int \<times> int) \<Rightarrow> op \<Rightarrow> base \<Rightarrow> base \<times> began" where
  "begin_op sphp x s =
     (case x of ApplyMode \<Rightarrow> begin_apply sphp s | Restart \<Rightarrow> begin_restart s
      | Activate name \<Rightarrow> begin_activate sphp name s | Poll \<Rightarrow> begin_poll sphp s)"

definition db_do :: "db_op \<Rightarrow> sites \<Rightarrow> sites" where
  "db_do x t =
     (case x of
        DbAdd p \<Rightarrow> (case sites_add p t of Inr (_, t') \<Rightarrow> t' | Inl _ \<Rightarrow> t)
      | DbDelete n \<Rightarrow> (case sites_delete n t of Inr t' \<Rightarrow> t' | Inl _ \<Rightarrow> t)
      | DbActivate n \<Rightarrow> (case sites_activate n t of Inr (_, t') \<Rightarrow> t' | Inl _ \<Rightarrow> t))"

definition base_do ::
  "(real \<Rightarrow> int \<times> int) \<Rightarrow> (frame \<Rightarrow> ecef_1005 option) \<Rightarrow> base_event \<Rightarrow> base \<times> waiting option \<Rightarrow> base \<times> waiting option" where
  "base_do sphp parsed ev = (\<lambda>(s, w).
     (case ev of
        Begin x \<Rightarrow>
          (if w \<noteq> None then (s, w)
           else case begin_op sphp x s of (t, Wait w') \<Rightarrow> (t, Some w') | (t, _) \<Rightarrow> (t, None))
      | Answer a now \<Rightarrow>
          (case w of
             None \<Rightarrow> (s, w)
           | Some v \<Rightarrow> (case end_write a now v s of (t, Again w') \<Rightarrow> (t, Some w') | (t, _) \<Rightarrow> (t, None)))
      | Rtcm f \<Rightarrow> (on_1005 parsed f s, w)
      | Fix n now \<Rightarrow> (on_fix n now s, w)
      | Freeze sv name \<Rightarrow> (case freeze_survey_in sv name s of Inr (_, t) \<Rightarrow> (t, w) | Inl _ \<Rightarrow> (s, w))
      | Outside x \<Rightarrow> (s\<lparr>bm_sites := db_do x (bm_sites s)\<rparr>, w)
      | Configure m dur acc name \<Rightarrow> (s\<lparr>bm_mode := m, bm_dur := dur, bm_acc := acc, bm_site_name := name\<rparr>, w)))"

definition base_run ::
  "(real \<Rightarrow> int \<times> int) \<Rightarrow> (frame \<Rightarrow> ecef_1005 option) \<Rightarrow> base_event list \<Rightarrow> base \<times> waiting option \<Rightarrow> base \<times> waiting option" where
  "base_run sphp parsed evs = fold (base_do sphp parsed) evs"

section \<open>The sites table\<close>

definition sites_ok :: "sites \<Rightarrow> bool" where
  "sites_ok t \<longleftrightarrow>
     distinct (map st_name (tb_rows t)) \<and> distinct (map st_id (tb_rows t)) \<and>
     list_all (\<lambda>r. st_id r < tb_next t) (tb_rows t) \<and> length (filter st_active (tb_rows t)) \<le> 1"

lemma sites_get_Some: "sites_get n t = Some r \<Longrightarrow> r \<in> set (tb_rows t) \<and> st_name r = n"
  by (auto simp: sites_get_def find_Some_iff)

lemma sites_get_None: "sites_get n t = None \<longleftrightarrow> n \<notin> st_name ` set (tb_rows t)"
  by (auto simp: sites_get_def find_None_iff)

lemma sites_add_ok: "sites_ok t \<Longrightarrow> sites_add p t = Inr (r, t') \<Longrightarrow> sites_ok t'"
  by (fastforce simp: sites_add_def sites_insert_def sites_ok_def sites_get_None Let_def list_all_iff split: if_splits)

lemma sites_delete_ok:
  assumes "sites_ok t" "sites_delete n t = Inr t'"
  shows "sites_ok t'"
proof -
  have "length (filter st_active (filter p xs)) \<le> length (filter st_active xs)" for p xs
    by (induction xs) auto
  then have "length (filter st_active (filter p (tb_rows t))) \<le> 1" for p
    using assms(1) unfolding sites_ok_def by (meson order_trans)
  then have "sites_ok (t\<lparr>tb_rows := filter p (tb_rows t)\<rparr>)" for p
    using assms(1) by (auto simp: sites_ok_def list_all_iff distinct_map_filter)
  then show ?thesis using assms by (auto simp: sites_delete_def split: option.splits if_splits)
qed

text \<open>Afterwards the named row is the one active row.\<close>

lemma sites_activate_rows:
  assumes "sites_activate n t = Inr (r, t')"
  shows "n \<in> st_name ` set (tb_rows t)" "tb_next t' = tb_next t"
    "tb_rows t' = map (\<lambda>q. q\<lparr>st_active := (st_name q = n)\<rparr>) (tb_rows t)" "r = the (sites_get n t')"
  using assms by (auto simp: sites_activate_def sites_get_None Let_def split: if_splits)

lemma sites_activate_ok:
  assumes "sites_ok t" "sites_activate n t = Inr (r, t')"
  shows "sites_ok t'" "sites_active t' = Some r" "st_name r = n" "st_active r" "r \<in> set (tb_rows t')"
proof -
  note a = sites_activate_rows [OF assms(2)]
  have names: "map st_name (tb_rows t') = map st_name (tb_rows t)" "map st_id (tb_rows t') = map st_id (tb_rows t)"
    by (simp_all add: a(3) comp_def)
  have act: "st_active q \<longleftrightarrow> st_name q = n" if "q \<in> set (tb_rows t')" for q using that a(3) by auto
  have d: "distinct (map st_name (tb_rows t'))" using assms(1) names by (simp add: sites_ok_def)
  have one: "length (filter (\<lambda>q. st_name q = n) xs) \<le> 1" if "distinct (map st_name xs)" for xs
    using that
  proof (induction xs)
    case (Cons q xs)
    then have "st_name q = n \<Longrightarrow> filter (\<lambda>q. st_name q = n) xs = []"
      unfolding filter_empty_conv by (metis distinct.simps(2) image_eqI list.map(2) set_map)
    then show ?case using Cons by auto
  qed simp
  have "filter st_active (tb_rows t') = filter (\<lambda>q. st_name q = n) (tb_rows t')"
    by (rule filter_cong) (simp_all add: act)
  then have "length (filter st_active (tb_rows t')) \<le> 1" using one [OF d] by simp
  moreover have "list_all (\<lambda>r. st_id r < tb_next t') (tb_rows t')"
    using assms(1) a(2, 3) by (auto simp: sites_ok_def list_all_iff)
  ultimately show "sites_ok t'" using assms(1) unfolding sites_ok_def names by simp
  have "n \<in> st_name ` set (tb_rows t')" using a(1) names by (metis set_map)
  then obtain q where q: "sites_get n t' = Some q" using sites_get_None [of n t'] by (cases "sites_get n t'") auto
  then have r: "r = q" using a(4) by simp
  then show "st_name r = n" "r \<in> set (tb_rows t')" "st_active r" using sites_get_Some [OF q] act by auto
  have "sites_active t' = find (\<lambda>q. st_name q = n) (tb_rows t')"
    unfolding sites_active_def by (rule find_cong) (simp_all add: act)
  then show "sites_active t' = Some r" using q r by (simp add: sites_get_def)
qed

lemma db_do_ok: "sites_ok t \<Longrightarrow> sites_ok (db_do x t)"
  by (auto simp: db_do_def split: db_op.splits sum.splits prod.splits
    intro: sites_add_ok sites_delete_ok sites_activate_ok)

lemma freeze_ok: "sites_ok (bm_sites s) \<Longrightarrow> freeze_survey_in sv n s = Inr (p, t) \<Longrightarrow>
    sites_ok (bm_sites t) \<and> (\<exists>tb. t = s\<lparr>bm_sites := tb\<rparr>)"
  by (auto simp: freeze_survey_in_def split: prod.splits option.splits if_splits sum.splits dest: sites_add_ok)

lemma resolve_site_ok:
  assumes "resolve_site s = (t, r)" "sites_ok (bm_sites s)"
  shows "sites_ok (bm_sites t) \<and> t = s\<lparr>bm_sites := bm_sites t\<rparr>"
  using assms
  by (auto simp: resolve_site_def split: option.splits list.splits if_splits sum.splits prod.splits
    dest: sites_activate_ok(1))

section \<open>What holds in every run\<close>

text \<open>The last write that the receiver accepted.\<close>

definition last_accepted :: "base \<Rightarrow> cfg_items option" where
  "last_accepted s = (case rev (filter (\<lambda>(i, a). a = Accepted) (bm_writes s)) of [] \<Rightarrow> None | (i, a) # ws \<Rightarrow> Some i)"

text \<open>
  The verification messages since the last time the receiver took a position or left one: two of a kind never
  follow each other. \<open>None\<close> is a pair that breaks the rule.
\<close>

fun edges :: "verify option \<Rightarrow> base_msg list \<Rightarrow> verify option option" where
  "edges v [] = Some v"
| "edges v (ModeMsg m (Some n) (Some why) # ms) = edges v ms"
| "edges v (ModeMsg m _ _ # ms) = edges None ms"
| "edges v (VerifiedMsg _ _ # ms) = (if v = Some Verified then None else edges (Some Verified) ms)"
| "edges v (MismatchMsg _ _ # ms) = (if v = Some Mismatched then None else edges (Some Mismatched) ms)"
| "edges v (NotEffectiveMsg _ _ # ms) = (if v \<noteq> None then None else edges (Some Mismatched) ms)"

lemma edges_append: "edges v (xs @ ys) = (case edges v xs of None \<Rightarrow> None | Some v' \<Rightarrow> edges v' ys)"
  by (induction v xs rule: edges.induct) auto

definition base_ok :: "(real \<Rightarrow> int \<times> int) \<Rightarrow> base \<times> waiting option \<Rightarrow> bool" where
  "base_ok sphp = (\<lambda>(s, w).
     sites_ok (bm_sites s) \<and> edges None (bm_bus s) \<noteq> None \<and>
     (case bm_applied s of
        None \<Rightarrow> bm_verify s = None \<and> bm_deadline s = None
      | Some p \<Rightarrow>
          edges None (bm_bus s) = Some (bm_verify s) \<and> bm_deadline s \<noteq> None \<and>
          (\<exists>i. tmode_fixed_ecef sphp (st_pos p) (fixed_acc p) = Inr i \<and> last_accepted s = Some i)) \<and>
     (case w of
        Some (WaitTmode k i why) \<Rightarrow> bm_applied s = None
      | Some (WaitFixed p i) \<Rightarrow> tmode_fixed_ecef sphp (st_pos p) (fixed_acc p) = Inr i
      | None \<Rightarrow> True))"

lemma base_okI:
  assumes "sites_ok (bm_sites s)" "edges None (bm_bus s) \<noteq> None"
    and "bm_applied s = None \<Longrightarrow> bm_verify s = None \<and> bm_deadline s = None"
    and "\<And>p. bm_applied s = Some p \<Longrightarrow> edges None (bm_bus s) = Some (bm_verify s) \<and> bm_deadline s \<noteq> None \<and>
      (\<exists>i. tmode_fixed_ecef sphp (st_pos p) (fixed_acc p) = Inr i \<and> last_accepted s = Some i)"
    and "\<And>k i why. w = Some (WaitTmode k i why) \<Longrightarrow> bm_applied s = None"
    and "\<And>p i. w = Some (WaitFixed p i) \<Longrightarrow> tmode_fixed_ecef sphp (st_pos p) (fixed_acc p) = Inr i"
  shows "base_ok sphp (s, w)"
  using assms unfolding base_ok_def by (auto split: option.splits waiting.splits)

lemma base_okD:
  assumes "base_ok sphp (s, w)"
  shows "sites_ok (bm_sites s)" "edges None (bm_bus s) \<noteq> None"
    "bm_applied s = None \<Longrightarrow> bm_verify s = None \<and> bm_deadline s = None"
    "bm_applied s = Some p \<Longrightarrow> edges None (bm_bus s) = Some (bm_verify s) \<and> bm_deadline s \<noteq> None \<and>
      (\<exists>i. tmode_fixed_ecef sphp (st_pos p) (fixed_acc p) = Inr i \<and> last_accepted s = Some i)"
    "w = Some (WaitTmode k i why) \<Longrightarrow> bm_applied s = None"
    "w = Some (WaitFixed q i) \<Longrightarrow> tmode_fixed_ecef sphp (st_pos q) (fixed_acc q) = Inr i"
  using assms unfolding base_ok_def by (auto split: option.splits waiting.splits)

lemma last_accepted_simps [simp]:
  "last_accepted (s\<lparr>bm_sites := t\<rparr>) = last_accepted s" "last_accepted (s\<lparr>bm_mode := m\<rparr>) = last_accepted s"
  "last_accepted (s\<lparr>bm_bus := b\<rparr>) = last_accepted s" "last_accepted (s\<lparr>bm_nak := n\<rparr>) = last_accepted s"
  "last_accepted (s\<lparr>bm_baseline := n\<rparr>) = last_accepted s" "last_accepted (s\<lparr>bm_verify := v\<rparr>) = last_accepted s"
  "last_accepted (s\<lparr>bm_last := l\<rparr>) = last_accepted s" "last_accepted (s\<lparr>bm_applied := ap\<rparr>) = last_accepted s"
  "last_accepted (s\<lparr>bm_deadline := d\<rparr>) = last_accepted s"
  "last_accepted (s\<lparr>bm_dur := du\<rparr>) = last_accepted s" "last_accepted (s\<lparr>bm_acc := ac\<rparr>) = last_accepted s"
  "last_accepted (s\<lparr>bm_site_name := nm\<rparr>) = last_accepted s"
  "last_accepted (log_cfg i a s) = (if a = Accepted then Some i else last_accepted s)"
  by (auto simp: last_accepted_def log_cfg_def split: list.splits)

text \<open>A step that keeps the verification, the bus and the writes keeps what matters.\<close>

definition same_base :: "base \<Rightarrow> base \<Rightarrow> bool" where
  "same_base s t \<longleftrightarrow>
     bm_applied t = bm_applied s \<and> bm_verify t = bm_verify s \<and> bm_deadline t = bm_deadline s \<and>
     bm_bus t = bm_bus s \<and> last_accepted t = last_accepted s"

lemma same_base_ok:
  assumes "base_ok sphp (s, w)" "same_base s t" "sites_ok (bm_sites t)"
    and "\<And>k i why. w' = Some (WaitTmode k i why) \<Longrightarrow> bm_applied s = None"
    and "\<And>p i. w' = Some (WaitFixed p i) \<Longrightarrow> tmode_fixed_ecef sphp (st_pos p) (fixed_acc p) = Inr i"
  shows "base_ok sphp (t, w')"
proof (rule base_okI)
  show "sites_ok (bm_sites t)" by (rule assms(3))
  show "edges None (bm_bus t) \<noteq> None" using base_okD(2) [OF assms(1)] assms(2) by (simp add: same_base_def)
  show "bm_applied t = None \<Longrightarrow> bm_verify t = None \<and> bm_deadline t = None"
    using base_okD(3) [OF assms(1)] assms(2) by (simp add: same_base_def)
  show "edges None (bm_bus t) = Some (bm_verify t) \<and> bm_deadline t \<noteq> None \<and>
      (\<exists>i. tmode_fixed_ecef sphp (st_pos p) (fixed_acc p) = Inr i \<and> last_accepted t = Some i)" if "bm_applied t = Some p" for p
    using base_okD(4) [OF assms(1), of p] assms(2) that by (simp add: same_base_def)
  show "bm_applied t = None" if "w' = Some (WaitTmode k i why)" for k i why
    using assms(4) [OF that] assms(2) by (simp add: same_base_def)
qed (rule assms(5))

lemma begin_fixed_ok:
  assumes "base_ok sphp (s, w)" "same_base s t" "sites_ok (bm_sites t)" "begin_fixed sphp p t = (u, b)"
  shows "base_ok sphp (u, case b of Wait w' \<Rightarrow> Some w' | _ \<Rightarrow> None)"
proof (cases "tmode_fixed_ecef sphp (st_pos p) (fixed_acc p)")
  case (Inl e)
  then have "u = t" "b = Fails e" using assms(4) by (auto simp: begin_fixed_def)
  then show ?thesis using same_base_ok [OF assms(1-3), of None] by simp
next
  case (Inr i)
  then have "u = t" "b = Wait (WaitFixed p i)" using assms(4) by (auto simp: begin_fixed_def)
  then show ?thesis using same_base_ok [OF assms(1-3), of "Some (WaitFixed p i)"] Inr by simp
qed

lemma begin_tmode_ok:
  assumes "base_ok sphp (s, w)" "same_base s t" "sites_ok (bm_sites t)" "begin_tmode k items why t = (u, b)"
  shows "base_ok sphp (u, case b of Wait w' \<Rightarrow> Some w' | _ \<Rightarrow> None)"
proof (cases items)
  case (Inl e)
  then have "u = t" "b = Fails e" using assms(4) by (auto simp: begin_tmode_def)
  then show ?thesis using same_base_ok [OF assms(1-3), of None] by simp
next
  case (Inr i)
  then have u: "u = clear_verification t" "b = Wait (WaitTmode k i why)" using assms(4) by (auto simp: begin_tmode_def)
  have "edges None (bm_bus t) \<noteq> None" using base_okD(2) [OF assms(1)] assms(2) by (simp add: same_base_def)
  then show ?thesis using assms(3) unfolding u by (intro base_okI) (simp_all add: clear_verification_def)
qed

lemma same_base_upd [simp]:
  "same_base s s" "same_base s (s\<lparr>bm_sites := t\<rparr>)" "same_base s (s\<lparr>bm_nak := n, bm_baseline := b\<rparr>)"
  "same_base s (s\<lparr>bm_nak := n\<rparr>)" "same_base s (s\<lparr>bm_mode := m\<rparr>)"
  "same_base s (s\<lparr>bm_nak := n, bm_sites := t, bm_baseline := b\<rparr>)"
  "same_base s (s\<lparr>bm_nak := n, bm_sites := t, bm_baseline := b, bm_mode := m\<rparr>)"
  by (simp_all add: same_base_def)

lemma begin_op_ok:
  assumes ok: "base_ok sphp (s, w)" and "begin_op sphp x s = (u, b)"
  shows "base_ok sphp (u, case b of Wait w' \<Rightarrow> Some w' | _ \<Rightarrow> None)"
proof (cases x)
  case ApplyMode
  note S = base_okD(1) [OF ok]
  let ?s = "s\<lparr>bm_nak := None\<rparr>"
  show ?thesis
  proof (cases "bm_mode s = FIXED")
    case True
    obtain s1 r where r: "resolve_site ?s = (s1, r)" by fastforce
    have t: "sites_ok (bm_sites s1)" "s1 = s\<lparr>bm_nak := None, bm_sites := bm_sites s1\<rparr>"
      using resolve_site_ok [OF r] S by simp_all
    have sb: "same_base s (s1\<lparr>bm_baseline := i\<rparr>)" "same_base s (s1\<lparr>bm_baseline := i, bm_mode := m\<rparr>)" for i m
      by (subst t(2), simp)+
    show ?thesis
    proof (cases r)
      case None
      then show ?thesis
        using assms(2) ApplyMode True r begin_tmode_ok [OF ok sb(2)] t(1)
        by (simp add: begin_op_def begin_apply_def Let_def)
    next
      case (Some p)
      then show ?thesis
        using assms(2) ApplyMode True r begin_fixed_ok [OF ok sb(1)] t(1)
        by (simp add: begin_op_def begin_apply_def Let_def)
    qed
  next
    case False
    then show ?thesis
      using assms(2) ApplyMode S begin_tmode_ok [OF ok same_base_upd(3)]
      by (auto simp: begin_op_def begin_apply_def Let_def split: if_splits)
  qed
next
  case Restart
  then show ?thesis
    using assms(2) base_okD(1) [OF ok] begin_tmode_ok [OF ok same_base_upd(5)]
    by (auto simp: begin_op_def begin_restart_def)
next
  case (Activate n)
  show ?thesis
  proof (cases "sites_activate n (bm_sites s)")
    case (Inl e)
    then have "u = s" "b = Fails e" using assms(2) Activate by (auto simp: begin_op_def begin_activate_def)
    then show ?thesis using same_base_ok [OF ok, of s None] base_okD(1) [OF ok] by simp
  next
    case (Inr y)
    obtain r t where y: "y = (r, t)" by fastforce
    have "begin_fixed sphp r (s\<lparr>bm_sites := t\<rparr>) = (u, b)"
      using assms(2) Activate Inr y by (simp add: begin_op_def begin_activate_def)
    from begin_fixed_ok [OF ok same_base_upd(2) _ this] show ?thesis
      using sites_activate_ok(1) [OF base_okD(1) [OF ok] Inr [unfolded y]] by simp
  qed
next
  case Poll
  then show ?thesis
    using assms(2) base_okD(1) [OF ok] begin_fixed_ok [OF ok same_base_upd(1)]
    by (auto simp: begin_op_def begin_poll_def Let_def split: option.splits if_splits intro!: same_base_ok [OF ok])
qed

lemma announce_fields [simp]:
  "bm_applied (announce n why s) = bm_applied s" "bm_verify (announce n why s) = bm_verify s"
  "bm_deadline (announce n why s) = bm_deadline s" "bm_sites (announce n why s) = bm_sites s"
  "bm_bus (announce n why s) = bm_bus s @ [ModeMsg (bm_mode s) n why]" "last_accepted (announce n why s) = last_accepted s"
  "bm_mode (announce n why s) = bm_mode s" "bm_writes (announce n why s) = bm_writes s" "bm_nak (announce n why s) = bm_nak s"
  "bm_baseline (announce n why s) = bm_baseline s"
  by (simp_all add: announce_def publish_base_def)

lemma log_cfg_fields [simp]:
  "bm_applied (log_cfg i a s) = bm_applied s" "bm_verify (log_cfg i a s) = bm_verify s"
  "bm_deadline (log_cfg i a s) = bm_deadline s" "bm_sites (log_cfg i a s) = bm_sites s"
  "bm_bus (log_cfg i a s) = bm_bus s" "bm_mode (log_cfg i a s) = bm_mode s" "bm_nak (log_cfg i a s) = bm_nak s"
  "bm_baseline (log_cfg i a s) = bm_baseline s" "bm_writes (log_cfg i a s) = bm_writes s @ [(i, a)]"
  by (simp_all add: log_cfg_def)

text \<open>Nothing is applied, and announcements only are added to the bus.\<close>

lemma unapplied_ok:
  assumes "base_ok sphp (s, w)" "bm_applied t = None" "bm_verify t = None" "bm_deadline t = None"
    and "bm_sites t = bm_sites s" "edges None (bm_bus t) \<noteq> None"
    and "\<And>p i. w' \<noteq> Some (WaitFixed p i)"
  shows "base_ok sphp (t, w')"
  by (rule base_okI) (use base_okD(1) [OF assms(1)] assms(2-7) in auto)

lemma edges_mode: "edges None ms \<noteq> None \<Longrightarrow> edges None (ms @ [ModeMsg m n why]) \<noteq> None"
  by (cases n; cases why) (auto simp: edges_append)

lemma edges_fresh: "edges None ms \<noteq> None \<Longrightarrow> edges None (ms @ [ModeMsg m n None]) = Some None"
  by (cases n) (auto simp: edges_append)

lemma edges_keep: "edges None ms = Some v \<Longrightarrow> edges None (ms @ [ModeMsg m (Some n) (Some why)]) = Some v"
  by (simp add: edges_append)

lemma end_write_ok:
  assumes ok: "base_ok sphp (s, Some w)" and e: "end_write a now w s = (t, e)"
  shows "base_ok sphp (t, case e of Again w' \<Rightarrow> Some w' | _ \<Rightarrow> None)"
proof (cases w)
  case (WaitFixed p i)
  have cfg: "tmode_fixed_ecef sphp (st_pos p) (fixed_acc p) = Inr i" using base_okD(6) [OF ok] WaitFixed by simp
  have S: "sites_ok (bm_sites s)" "edges None (bm_bus s) \<noteq> None" using base_okD(1, 2) [OF ok] .
  have keep: "base_ok sphp (u, None)" if "a \<noteq> Accepted" "bm_applied u = bm_applied s" "bm_verify u = bm_verify s"
    "bm_deadline u = bm_deadline s" "bm_sites u = bm_sites s" "last_accepted u = last_accepted s"
    "bm_bus u = bm_bus s \<or> (\<exists>m n why. bm_bus u = bm_bus s @ [ModeMsg m (Some n) (Some why)])" for u
  proof (rule base_okI)
    show "edges None (bm_bus u) \<noteq> None" using that(7) S(2) edges_mode by auto
    show "bm_applied u = None \<Longrightarrow> bm_verify u = None \<and> bm_deadline u = None" using base_okD(3) [OF ok] that by simp
    show "edges None (bm_bus u) = Some (bm_verify u) \<and> bm_deadline u \<noteq> None \<and>
        (\<exists>i. tmode_fixed_ecef sphp (st_pos q) (fixed_acc q) = Inr i \<and> last_accepted u = Some i)" if "bm_applied u = Some q" for q
      using base_okD(4) [OF ok, of q] that \<open>bm_applied u = bm_applied s\<close> \<open>bm_verify u = bm_verify s\<close>
        \<open>bm_deadline u = bm_deadline s\<close> \<open>last_accepted u = last_accepted s\<close> \<open>bm_bus u = _ \<or> _\<close> edges_keep by auto
  qed (use S that in auto)
  show ?thesis
  proof (cases "a = Accepted")
    case True
    have t: "t = end_fixed Accepted now p (log_cfg i Accepted s)" "e = Done"
      using e WaitFixed True by (simp_all add: end_write_def)
    show ?thesis unfolding t
      by (rule base_okI)
        (use S cfg edges_fresh [OF S(2)] in \<open>auto simp: end_fixed_def clear_verification_def\<close>)
  next
    case False
    then have "t = log_cfg i a s \<or> t = end_fixed a now p (log_cfg i a s)" "e = Propagates \<or> e = Done"
      using e WaitFixed by (auto simp: end_write_def Let_def split: if_splits)
    then show ?thesis using keep [OF False, of t] False by (cases a) (auto simp: end_fixed_def)
  qed
next
  case (WaitTmode k i why)
  have none: "bm_applied s = None" "bm_verify s = None" "bm_deadline s = None"
    using base_okD(5) [OF ok] base_okD(3) [OF ok] WaitTmode by simp_all
  let ?s = "log_cfg i a s"
  obtain s1 app where s1: "end_tmode a why ?s = (s1, app)" by fastforce
  have f: "bm_applied s1 = None" "bm_verify s1 = None" "bm_deadline s1 = None" "bm_sites s1 = bm_sites s"
    "edges None (bm_bus s1) \<noteq> None"
    using s1 none edges_mode base_okD(2) [OF ok] by (auto simp: end_tmode_def split: answer.splits)
  have go: "base_ok sphp (u, None)" if "bm_applied u = None" "bm_verify u = None" "bm_deadline u = None"
    "bm_sites u = bm_sites s" "edges None (bm_bus u) \<noteq> None" for u
    by (rule unapplied_ok [OF ok that]) simp
  show ?thesis
  proof (cases "a = Raised")
    case True
    then show ?thesis using e WaitTmode none base_okD(2) [OF ok] go by (auto simp: end_write_def)
  next
    case False
    note E = e [unfolded end_write_def WaitTmode waiting.case Let_def s1 if_not_P [OF False] prod.case]
    show ?thesis
    proof (cases k)
      case Alone
      then show ?thesis using E f go by auto
    next
      case RestartStop
      show ?thesis
      proof (cases app)
        case True
        have b1: "base_ok sphp (s1, None)" using f go by simp
        let ?s2 = "s1\<lparr>bm_mode := SURVEY_IN\<rparr>"
        obtain u b where u: "begin_tmode RestartSurvey (svin_items ?s2) None ?s2 = (u, b)" by fastforce
        have "base_ok sphp (u, case b of Wait w' \<Rightarrow> Some w' | _ \<Rightarrow> None)"
          using begin_tmode_ok [OF b1 same_base_upd(5) _ u] base_okD(1) [OF b1] by simp
        then show ?thesis using E RestartStop True u by (auto split: began.splits)
      next
        case False
        then show ?thesis using E RestartStop f go edges_mode by (auto split: if_splits)
      qed
    next
      case RestartSurvey
      then show ?thesis using E f go edges_mode by (auto split: if_splits)
    qed
  qed
qed

lemma on_1005_ok:
  assumes "base_ok sphp (s, w)"
  shows "base_ok sphp (on_1005 parsed f s, w)"
proof -
  have pub: "base_ok sphp (publish_base m (u\<lparr>bm_verify := Some v\<rparr>), w)"
    if "u = s\<lparr>bm_last := l\<rparr>" "bm_applied s = Some p" "edges (bm_verify s) [m] = Some (Some v)" for m v u l p
  proof (rule base_okI)
    note e = base_okD(4) [OF assms that(2)]
    have "edges None (bm_bus s @ [m]) = Some (Some v)" using e that(3) by (simp add: edges_append)
    then show "edges None (bm_bus (publish_base m (u\<lparr>bm_verify := Some v\<rparr>))) \<noteq> None"
      by (simp add: publish_base_def that(1))
    show "edges None (bm_bus (publish_base m (u\<lparr>bm_verify := Some v\<rparr>))) =
        Some (bm_verify (publish_base m (u\<lparr>bm_verify := Some v\<rparr>))) \<and>
        bm_deadline (publish_base m (u\<lparr>bm_verify := Some v\<rparr>)) \<noteq> None \<and>
        (\<exists>i. tmode_fixed_ecef sphp (st_pos q) (fixed_acc q) = Inr i \<and>
           last_accepted (publish_base m (u\<lparr>bm_verify := Some v\<rparr>)) = Some i)"
      if "bm_applied (publish_base m (u\<lparr>bm_verify := Some v\<rparr>)) = Some q" for q
      using that e \<open>edges None (bm_bus s @ [m]) = Some (Some v)\<close> \<open>u = _\<close> \<open>bm_applied s = Some p\<close>
      by (auto simp: publish_base_def)
  qed (use base_okD [OF assms] that in \<open>auto simp: publish_base_def\<close>)
  have last: "base_ok sphp (s\<lparr>bm_last := l\<rparr>, w)" for l
    by (rule same_base_ok [OF assms]) (use base_okD [OF assms] in \<open>auto simp: same_base_def\<close>)
  show ?thesis
  proof (cases "decode_1005 parsed f")
    case (Some d)
    note u = refl [of "s\<lparr>bm_last := Some d\<rparr>"]
    show ?thesis
    proof (cases "bm_applied s")
      case (Some p)
      have "edges (bm_verify s) [VerifiedMsg n x] = Some (Some Verified)" if "bm_verify s \<noteq> Some Verified" for n x
        using that by simp
      moreover have "edges (bm_verify s) [MismatchMsg n x] = Some (Some Mismatched)" if "bm_verify s \<noteq> Some Mismatched" for n x
        using that by simp
      ultimately show ?thesis
        using \<open>decode_1005 parsed f = Some d\<close> Some last pub [OF u Some] by (auto simp: on_1005_def Let_def)
    qed (use Some last in \<open>simp add: on_1005_def\<close>)
  qed (use assms in \<open>simp add: on_1005_def\<close>)
qed

lemma on_fix_ok:
  assumes "base_ok sphp (s, w)"
  shows "base_ok sphp (on_fix n now s, w)"
proof (cases "on_fix n now s = s")
  case False
  then obtain p where p: "bm_applied s = Some p" "bm_verify s = None"
    "on_fix n now s = publish_base (NotEffectiveMsg (st_name p) n) (s\<lparr>bm_verify := Some Mismatched\<rparr>)"
    by (auto simp: on_fix_def split: option.splits if_splits)
  note e = base_okD(4) [OF assms p(1)]
  have "edges None (bm_bus s @ [NotEffectiveMsg (st_name p) n]) = Some (Some Mismatched)"
    using e p(2) by (simp add: edges_append)
  then show ?thesis unfolding p(3)
    by (intro base_okI) (use base_okD [OF assms] e p(1) in \<open>auto simp: publish_base_def\<close>)
qed (use assms in simp)

lemma base_do_ok: "base_ok sphp (s, w) \<Longrightarrow> base_ok sphp (base_do sphp parsed ev (s, w))"
proof (cases ev)
  case (Begin x)
  assume ok: "base_ok sphp (s, w)"
  obtain u b where u: "begin_op sphp x s = (u, b)" by fastforce
  show ?thesis using begin_op_ok [OF ok u] ok Begin u by (auto simp: base_do_def split: began.splits)
next
  case (Answer a now)
  assume ok: "base_ok sphp (s, w)"
  show ?thesis
  proof (cases w)
    case (Some v)
    obtain t e where t: "end_write a now v s = (t, e)" by fastforce
    show ?thesis using end_write_ok [OF ok [unfolded Some] t] Answer Some t by (auto simp: base_do_def split: ended.splits)
  qed (use ok Answer in \<open>simp add: base_do_def\<close>)
next
  case (Freeze sv n)
  assume ok: "base_ok sphp (s, w)"
  have "base_ok sphp (s\<lparr>bm_sites := tb\<rparr>, w)" if "sites_ok tb" for tb
    by (rule same_base_ok [OF ok]) (use base_okD [OF ok] that in auto)
  then show ?thesis using ok Freeze freeze_ok [OF base_okD(1) [OF ok]]
    by (fastforce simp: base_do_def split: sum.splits prod.splits)
next
  case (Outside x)
  assume ok: "base_ok sphp (s, w)"
  have "base_ok sphp (s\<lparr>bm_sites := db_do x (bm_sites s)\<rparr>, w)"
    by (rule same_base_ok [OF ok]) (use base_okD [OF ok] db_do_ok in auto)
  then show ?thesis using Outside by (simp add: base_do_def)
next
  case (Configure m dur acc name)
  assume ok: "base_ok sphp (s, w)"
  have "base_ok sphp (s\<lparr>bm_mode := m, bm_dur := dur, bm_acc := acc, bm_site_name := name\<rparr>, w)"
    by (rule same_base_ok [OF ok]) (use base_okD [OF ok] in \<open>auto simp: same_base_def\<close>)
  then show ?thesis using Configure by (simp add: base_do_def)
qed (simp_all add: base_do_def on_1005_ok on_fix_ok)

lemma base_run_ok: "base_ok sphp sw \<Longrightarrow> base_ok sphp (base_run sphp parsed evs sw)"
proof (induction evs arbitrary: sw)
  case (Cons ev evs)
  then show ?case using base_do_ok [of sphp "fst sw" "snd sw" parsed ev] by (simp add: base_run_def)
qed (simp add: base_run_def)

lemma base_new_ok: "sites_ok t \<Longrightarrow> base_ok sphp (base_new m dur acc name t, None)"
  by (simp add: base_ok_def base_new_def)

section \<open>Whole operations\<close>

text \<open>\<open>restart_survey_in\<close> from its first write on, with the receiver's answers; no result is an exception.\<close>

definition restart_survey_in :: "base \<Rightarrow> answer \<Rightarrow> answer \<Rightarrow> base \<times> restart_result option" where
  "restart_survey_in s a1 a2 =
     (case begin_restart s of
        (s1, Wait w1) \<Rightarrow>
          (case end_write a1 0 w1 s1 of
             (s2, Again w2) \<Rightarrow> (case end_write a2 0 w2 s2 of (s3, Result r) \<Rightarrow> (s3, Some r) | (s3, _) \<Rightarrow> (s3, None))
           | (s2, Result r) \<Rightarrow> (s2, Some r)
           | (s2, _) \<Rightarrow> (s2, None))
      | (s1, _) \<Rightarrow> (s1, None))"

lemma poll_silent:
  assumes "bm_nak s = Some i \<or> bm_mode s = FIXED \<and> map_option site_ident (bm_applied s) = Some i \<or>
      bm_mode s \<noteq> FIXED \<and> bm_baseline s = Some i"
    "map_option site_ident (sites_active (bm_sites s)) = Some i"
  shows "begin_poll sphp s = (s, Nothing)"
  using assms by (auto simp: begin_poll_def Let_def)

lemma fixed_settles:
  assumes "begin_fixed sphp p s = (t, Wait w)" "end_write a now w t = (u, e)" "a = Accepted \<or> a = Refused"
    and "sites_active (bm_sites s) = Some p"
  shows "begin_poll sphp u = (u, Nothing)"
proof -
  obtain i where w: "w = WaitFixed p i" "t = s" using assms(1) by (auto simp: begin_fixed_def split: sum.splits)
  have u: "u = end_fixed a now p (log_cfg i a s)" using assms(2, 3) w by (auto simp: end_write_def)
  show ?thesis
    by (rule poll_silent [of _ "site_ident p"])
      (use assms(3, 4) u in \<open>auto simp: end_fixed_def clear_verification_def\<close>)
qed

lemma tmode_settles:
  assumes "begin_tmode Alone items why s = (t, Wait w)" "end_write a now w t = (u, e)"
    and "bm_mode s \<noteq> FIXED" "bm_baseline s = map_option site_ident (sites_active (bm_sites s))"
  shows "begin_poll sphp u = (u, Nothing)"
proof -
  obtain i where w: "w = WaitTmode Alone i why" "t = clear_verification s"
    using assms(1) by (auto simp: begin_tmode_def split: sum.splits)
  have u: "bm_mode u = bm_mode s" "bm_baseline u = bm_baseline s" "bm_sites u = bm_sites s"
    using assms(2) w by (auto simp: end_write_def end_tmode_def clear_verification_def Let_def split: answer.splits if_splits)
  show ?thesis
  proof (cases "sites_active (bm_sites s)")
    case None
    then show ?thesis using u by (simp add: begin_poll_def)
  next
    case (Some p)
    then show ?thesis using u assms(3, 4) by (intro poll_silent [of _ "site_ident p"]) simp_all
  qed
qed

lemma resolve_site_active:
  assumes "resolve_site s = (t, r)" "sites_ok (bm_sites s)"
  shows "sites_active (bm_sites t) = r" "bm_mode t = bm_mode s"
proof -
  have one: "sites_active (bm_sites s) = Some p" if p: "sites_get n (bm_sites s) = Some p" "st_active p" for n p
  proof -
    obtain q where q: "sites_active (bm_sites s) = Some q"
      using sites_get_Some [OF p(1)] p(2) by (cases "sites_active (bm_sites s)") (auto simp: sites_active_def find_None_iff)
    then have "q \<in> set (filter st_active (tb_rows (bm_sites s)))" "p \<in> set (filter st_active (tb_rows (bm_sites s)))"
      using sites_get_Some [OF p(1)] p(2) by (auto simp: sites_active_def find_Some_iff)
    moreover have "length (filter st_active (tb_rows (bm_sites s))) \<le> 1" using assms(2) by (simp add: sites_ok_def)
    ultimately have "p = q" by (cases "filter st_active (tb_rows (bm_sites s))") auto
    then show ?thesis using q by simp
  qed
  have act: "sites_active t' = Some r'" if "sites_activate n (bm_sites s) = Inr (r', t')" for n r' t'
    using sites_activate_ok(2) [OF assms(2) that] .
  have never: False if "sites_get n (bm_sites s) = Some p" "sites_activate (st_name p) (bm_sites s) = Inl e" for n p e
    using that sites_get_Some [OF that(1)] by (auto simp: sites_activate_def Let_def split: if_splits)
  show "sites_active (bm_sites t) = r" "bm_mode t = bm_mode s"
    using assms(1) one act never
    by (auto simp: resolve_site_def split: option.splits list.splits if_splits sum.splits prod.splits) (metis+)
qed

definition verdict_msg :: "base_msg \<Rightarrow> verify option" where
  "verdict_msg m = (case m of VerifiedMsg _ _ \<Rightarrow> Some Verified | MismatchMsg _ _ \<Rightarrow> Some Mismatched | _ \<Rightarrow> None)"

definition arp_verdict :: "site \<Rightarrow> ecef_1005 \<Rightarrow> verify option" where
  "arp_verdict p e = Some (if within_tolerance (deviation e p) then Verified else Mismatched)"

lemma on_1005_step:
  assumes "bm_applied s = Some p" "bm_mode s = FIXED"
  shows "\<exists>ms. on_1005 parsed f s =
      (case decode_1005 parsed f of
         None \<Rightarrow> s
       | Some e \<Rightarrow> s\<lparr>bm_last := Some e, bm_verify := arp_verdict p e, bm_bus := bm_bus s @ ms\<rparr>) \<and>
    map verdict_msg ms = (case decode_1005 parsed f of
         None \<Rightarrow> [] | Some e \<Rightarrow> if bm_verify s = arp_verdict p e then [] else [arp_verdict p e])"
  using assms
  by (auto simp: on_1005_def arp_verdict_def verdict_msg_def publish_base_def split: option.splits)

section \<open>Properties\<close>

text \<open>
  C26. In every run of the base manager - mode changes, restarts, activations, polls, settings changed without the lock,
  broadcasts and fixes while a write is under way, other users of the sites table, any answers of the receiver
  - \<open>applied_site\<close> is a site whose position is the last configuration that the receiver accepted;
  no site means no verdict; between two changes of position the published verdicts alternate and the last is the
  one kept; and the table keeps unique names and keys and at most one active row.
\<close>

theorem applied_site_true:
  assumes "base_run sphp parsed evs (base_new m dur acc name t, None) = (s, w)" "sites_ok t"
  shows "sites_ok (bm_sites s) \<and> edges None (bm_bus s) \<noteq> None \<and>
    (case bm_applied s of
       None \<Rightarrow> bm_verify s = None \<and> bm_deadline s = None
     | Some p \<Rightarrow>
         edges None (bm_bus s) = Some (bm_verify s) \<and> bm_deadline s \<noteq> None \<and>
         (\<exists>i. tmode_fixed_ecef sphp (st_pos p) (fixed_acc p) = Inr i \<and> last_accepted s = Some i))"
  using base_run_ok [OF base_new_ok [OF assms(2)], of sphp parsed evs m dur acc name] assms(1)
  by (simp add: base_ok_def)

lemma applied_site_true_witness:
  "\<exists>s w. base_run (\<lambda>_. (0, 0)) (\<lambda>_. None) [Begin ApplyMode, Answer Accepted 0]
      (base_new OFF 300 (Fin 2) None \<lparr>tb_rows = [], tb_next = 1\<rparr>, None) = (s, w) \<and>
    bm_writes s = [(tmode_off, Accepted)] \<and> sites_ok (bm_sites s) \<and> edges None (bm_bus s) \<noteq> None"
proof -
  let ?t = "\<lparr>tb_rows = [], tb_next = 1\<rparr>"
  obtain s w where sw: "base_run (\<lambda>_. (0, 0)) (\<lambda>_. None) [Begin ApplyMode, Answer Accepted 0]
      (base_new OFF 300 (Fin 2) None ?t, None) = (s, w)" by fastforce
  have "sites_ok ?t" by (simp add: sites_ok_def)
  from applied_site_true [OF sw this] have "sites_ok (bm_sites s) \<and> edges None (bm_bus s) \<noteq> None" by blast
  moreover have "bm_writes s = [(tmode_off, Accepted)]"
    using sw by (simp add: base_run_def base_do_def begin_op_def begin_apply_def base_new_def begin_tmode_def
      sites_active_def end_write_def end_tmode_def clear_verification_def Let_def) (auto simp: log_cfg_def)
  ultimately show ?thesis using sw by blast
qed

text \<open>
  C27. While the base sits on a site, the verdict is that of the last readable RTCM 1005, whatever other frames come,
  and one message is published for every change of it: the messages are the verdicts without repetitions.
\<close>

theorem site_verdict:
  assumes "bm_applied s = Some p" "bm_mode s = FIXED"
  shows "let vs = map (arp_verdict p) (List.map_filter (decode_1005 parsed) fs); t = fold (on_1005 parsed) fs s in
    bm_verify t = (if vs = [] then bm_verify s else last vs) \<and>
    (\<exists>ms. bm_bus t = bm_bus s @ ms \<and> map verdict_msg ms = tl (remdups_adj (bm_verify s # vs))) \<and>
    bm_applied t = Some p \<and> bm_mode t = FIXED \<and> bm_writes t = bm_writes s \<and> bm_sites t = bm_sites s"
  using assms
proof (induction fs arbitrary: s)
  case (Cons f fs)
  obtain ms where s1: "on_1005 parsed f s =
      (case decode_1005 parsed f of None \<Rightarrow> s
       | Some e \<Rightarrow> s\<lparr>bm_last := Some e, bm_verify := arp_verdict p e, bm_bus := bm_bus s @ ms\<rparr>)"
    "map verdict_msg ms = (case decode_1005 parsed f of
         None \<Rightarrow> [] | Some e \<Rightarrow> if bm_verify s = arp_verdict p e then [] else [arp_verdict p e])"
    using on_1005_step [OF Cons.prems] by blast
  show ?case
  proof (cases "decode_1005 parsed f")
    case None
    then show ?thesis using Cons.IH [OF Cons.prems] s1(1) by (simp add: List.map_filter_simps)
  next
    case (Some e)
    let ?s = "s\<lparr>bm_last := Some e, bm_verify := arp_verdict p e, bm_bus := bm_bus s @ ms\<rparr>"
    note IH = Cons.IH [of ?s, unfolded Let_def, simplified, OF Cons.prems]
    then obtain ns where ns: "bm_bus (fold (on_1005 parsed) fs ?s) = (bm_bus s @ ms) @ ns"
      "map verdict_msg ns = tl (remdups_adj (arp_verdict p e # map (arp_verdict p) (List.map_filter (decode_1005 parsed) fs)))"
      by auto
    have "map verdict_msg (ms @ ns) =
        tl (remdups_adj (bm_verify s # arp_verdict p e # map (arp_verdict p) (List.map_filter (decode_1005 parsed) fs)))"
      using s1(2) Some ns(2) by (simp add: remdups_adj_Cons' split: list.splits)
    then have "\<exists>ms'. bm_bus (fold (on_1005 parsed) fs ?s) = bm_bus s @ ms' \<and> map verdict_msg ms' =
        tl (remdups_adj (bm_verify s # arp_verdict p e # map (arp_verdict p) (List.map_filter (decode_1005 parsed) fs)))"
      using ns(1) by (intro exI [of _ "ms @ ns"]) simp
    then show ?thesis using IH Some s1(1) by (simp add: List.map_filter_simps Let_def)
  qed
qed (simp add: List.map_filter_simps)

lemma site_verdict_witness:
  "\<exists>(s :: base) parsed fs t ms. t = fold (on_1005 parsed) fs s \<and> bm_bus s = [] \<and> bm_verify t = Some Verified \<and> bm_bus t = ms \<and>
    map verdict_msg ms = [Some Mismatched, Some Verified]"
proof -
  let ?p = "\<lparr>st_id = 1, st_name = ''roof'', st_pos = (0, 0, 0), st_sigma = (None, None, None), st_frame = [],
    st_source = [], st_notes = None, st_active = True\<rparr>"
  let ?s = "(base_new FIXED 300 (Fin 2) None \<lparr>tb_rows = [?p], tb_next = 2\<rparr>)\<lparr>bm_applied := Some ?p\<rparr>"
  let ?f = "\<lambda>raw. \<lparr>fr_proto = RTCM3, fr_raw = raw, fr_t_mono = 0, fr_t_host = 0\<rparr>"
  let ?a = "[0xD3, 0, 8, 0x3E, 0xD0, 1]" and ?b = "[0xD3, 0, 8, 0x3E, 0xD0, 2]"
  define parsed where "parsed f = Some \<lparr>ec_station = 0, ec_pos = (if fr_raw f = ?a then 1 else 0, 0, 0), ec_gps = True,
    ec_glonass = True, ec_galileo = True\<rparr>" for f :: frame
  have d: "decode_1005 parsed (?f ?a) = parsed (?f ?a)" "decode_1005 parsed (?f ?b) = parsed (?f ?b)"
    by (simp_all add: decode_1005_def rtcm_type_def byte_at_def)
  have e: "expo 1 = 0" by (subst expo.simps) simp
  have one: "rnd 1 = Fin 1"
  proof -
    have "(1 :: real) / 2 powi (- 52) = of_int (2 ^ 52)" by (simp add: power_int_minus)
    then show ?thesis by (simp add: rnd_def e py_round_def Let_def power_int_minus)
  qed
  have v: "map (arp_verdict ?p) (List.map_filter (decode_1005 parsed) [?f ?a, ?f ?b]) = [Some Mismatched, Some Verified]"
    by (simp add: List.map_filter_simps d parsed_def arp_verdict_def deviation_def within_tolerance_def one rnd_def [of 0]
      flt_abs_def SITE_TOLERANCE_M_def)
  have "bm_applied ?s = Some ?p" "bm_mode ?s = FIXED" by (simp_all add: base_new_def)
  from site_verdict [OF this, of parsed "[?f ?a, ?f ?b]", unfolded Let_def v] obtain ms where
    "bm_verify (fold (on_1005 parsed) [?f ?a, ?f ?b] ?s) = Some Verified"
    "bm_bus (fold (on_1005 parsed) [?f ?a, ?f ?b] ?s) = ms" "map verdict_msg ms = [Some Mismatched, Some Verified]"
    by (auto simp: base_new_def)
  moreover have "bm_bus ?s = []" by (simp add: base_new_def)
  ultimately show ?thesis
    by (intro exI [of _ ?s] exI [of _ parsed] exI [of _ "[?f ?a, ?f ?b]"]
      exI [of _ "fold (on_1005 parsed) [?f ?a, ?f ?b] ?s"] exI [of _ ms] conjI refl)
qed

text \<open>
  C28. Restarting the survey-in, for any answers: without an accepted stop nothing but the stop is written; the
  survey-in follows only an accepted stop; the three results tell these cases apart; and where the receiver answered
  or timed out, the mode kept and announced last is survey-in or off as the result says. An
  exception leaves the mode of the write it broke off: off when the stop never reached the receiver, survey-in
  when the survey did not follow an accepted stop.
\<close>

theorem restart_correct:
  assumes "svin_items s = Inr svin" "restart_survey_in s a1 a2 = (t, r)"
  shows "bm_writes t = bm_writes s @ (tmode_off, a1) # (if a1 = Accepted then [(svin, a2)] else []) \<and>
    bm_applied t = None \<and>
    (bm_mode t, r) =
      (if a1 = Raised then (OFF, None)
       else if a1 \<noteq> Accepted then (SURVEY_IN, Some STOP_REFUSED)
       else if a2 = Raised then (SURVEY_IN, None)
       else if a2 \<noteq> Accepted then (OFF, Some SURVEY_REFUSED)
       else (SURVEY_IN, Some RESTART_OK)) \<and>
    (r \<noteq> None \<longrightarrow> bm_bus t \<noteq> [] \<and> last (bm_bus t) = ModeMsg (bm_mode t) None
       (case the r of RESTART_OK \<Rightarrow> None | STOP_REFUSED \<Rightarrow> Some RESTART_STOP_REASON
        | SURVEY_REFUSED \<Rightarrow> Some RESTART_SURVEY_REASON))"
proof -
  have sv: "svin_items (u\<lparr>bm_mode := m\<rparr>) = svin_items u" "svin_items (announce n w u) = svin_items u"
    "svin_items (log_cfg i a u) = svin_items u" "svin_items (clear_verification u) = svin_items u" for u m n w i a
    by (simp_all add: svin_items_def announce_def publish_base_def log_cfg_def clear_verification_def)
  have b: "begin_restart s = (clear_verification (s\<lparr>bm_mode := OFF\<rparr>), Wait (WaitTmode RestartStop tmode_off None))"
    by (simp add: begin_restart_def begin_tmode_def)
  let ?s1 = "clear_verification (s\<lparr>bm_mode := OFF\<rparr>)" and ?w1 = "WaitTmode RestartStop tmode_off None"
  show ?thesis
  proof (cases "a1 = Accepted")
    case True
    define s2 where "s2 = clear_verification ((announce None None (log_cfg tmode_off Accepted ?s1))\<lparr>bm_mode := SURVEY_IN\<rparr>)"
    have e1: "end_write Accepted 0 ?w1 ?s1 = (s2, Again (WaitTmode RestartSurvey svin None))"
      using assms(1) by (simp add: end_write_def end_tmode_def begin_tmode_def sv Let_def s2_def)
    have s2: "bm_writes s2 = bm_writes s @ [(tmode_off, Accepted)]" "bm_applied s2 = None" "bm_mode s2 = SURVEY_IN"
      by (simp_all add: s2_def clear_verification_def)
    have r: "(t, r) = (case end_write a2 0 (WaitTmode RestartSurvey svin None) s2 of
        (s3, Result r) \<Rightarrow> (s3, Some r) | (s3, _) \<Rightarrow> (s3, None))"
      using assms(2) True e1 by (simp add: restart_survey_in_def b)
    show ?thesis using r s2 True
      by (cases a2) (simp_all add: end_write_def end_tmode_def Let_def split_beta)
  next
    case False
    have r: "(t, r) = (case end_write a1 0 ?w1 ?s1 of (s2, Result r) \<Rightarrow> (s2, Some r) | (s2, _) \<Rightarrow> (s2, None))"
      using assms(2) False by (cases a1) (simp_all add: restart_survey_in_def b end_write_def end_tmode_def Let_def)
    show ?thesis using r False
      by (cases a1) (simp_all add: end_write_def end_tmode_def Let_def clear_verification_def)
  qed
qed

lemma restart_correct_witness:
  "\<exists>svin s t. svin_items s = Inr svin \<and> restart_survey_in s Accepted Refused = (t, Some SURVEY_REFUSED) \<and> bm_mode t = OFF \<and>
    bm_writes t = [(tmode_off, Accepted), (svin, Refused)]"
proof -
  let ?s = "base_new SURVEY_IN 300 (Fin 0) None \<lparr>tb_rows = [], tb_next = 1\<rparr>"
  have i: "svin_items ?s = Inr [(''CFG_TMODE_MODE'', 1), (''CFG_TMODE_SVIN_MIN_DUR'', 300), (''CFG_TMODE_SVIN_ACC_LIMIT'', 0)]"
    by (simp add: svin_items_def base_new_def tmode_survey_in_def tenths_def rnd_def py_round_def Let_def)
  obtain t r where t: "restart_survey_in ?s Accepted Refused = (t, r)" by fastforce
  from restart_correct [OF i t] have "r = Some SURVEY_REFUSED" "bm_mode t = OFF"
    "bm_writes t = [(tmode_off, Accepted), ([(''CFG_TMODE_MODE'', 1), (''CFG_TMODE_SVIN_MIN_DUR'', 300), (''CFG_TMODE_SVIN_ACC_LIMIT'', 0)], Refused)]"
    by (simp_all add: base_new_def)
  with i t show ?thesis by blast
qed

text \<open>
  C29. The poll settles: once a mode change, an activation or a poll has been answered by the receiver, accepted or
  refused, further polls write nothing as long as the active row stays the same; so a site is written
  once, a refused one is not offered again, and a survey-in is not interrupted by the site that was active when it started.
\<close>

theorem poll_settles:
  assumes "begin_op sphp x s = (t, Wait w)" "x \<noteq> Restart" "sites_ok (bm_sites s)"
    and "end_write a now w t = (u, e)" "a = Accepted \<or> a = Refused"
  shows "begin_poll sphp u = (u, Nothing) \<and> e = Done \<and> (\<exists>i. bm_writes u = bm_writes s @ [(i, a)])"
proof -
  have fixed: ?thesis if "begin_fixed sphp p v = (t, Wait w)" "sites_active (bm_sites v) = Some p" "bm_writes v = bm_writes s" for p v
    using fixed_settles [OF that(1) assms(4, 5) that(2)] that assms(4, 5)
    by (auto simp: begin_fixed_def end_write_def end_fixed_def clear_verification_def split: sum.splits)
  have tmode: ?thesis if "begin_tmode Alone items why v = (t, Wait w)" "bm_mode v \<noteq> FIXED"
    "bm_baseline v = map_option site_ident (sites_active (bm_sites v))" "bm_writes v = bm_writes s" for items why v
    using tmode_settles [OF that(1) assms(4) that(2, 3)] that assms(4, 5)
    by (auto simp: begin_tmode_def end_write_def end_tmode_def clear_verification_def Let_def split: sum.splits)
  show ?thesis
  proof (cases x)
    case ApplyMode
    let ?s = "s\<lparr>bm_nak := None\<rparr>"
    show ?thesis
    proof (cases "bm_mode s = FIXED")
      case True
      obtain s1 r where r: "resolve_site ?s = (s1, r)" by fastforce
      have act: "sites_active (bm_sites s1) = r" using resolve_site_active(1) [OF r] assms(3) by simp
      have "s1 = ?s\<lparr>bm_sites := bm_sites s1\<rparr>" using resolve_site_ok [OF r] assms(3) by simp
      then have wr: "bm_writes s1 = bm_writes s" by (metis base.select_convs(13) base.surjective base.update_convs(9) base.update_convs(11))
      show ?thesis
      proof (cases r)
        case None
        let ?v = "s1\<lparr>bm_baseline := None, bm_mode := SURVEY_IN\<rparr>"
        have "begin_tmode Alone (svin_items ?v) (Some NO_SITE_REASON) ?v = (t, Wait w)"
          using assms(1) ApplyMode True r None by (simp add: begin_op_def begin_apply_def Let_def)
        from tmode [OF this] show ?thesis using act None wr by simp
      next
        case (Some p)
        have "begin_fixed sphp p (s1\<lparr>bm_baseline := Some (site_ident p)\<rparr>) = (t, Wait w)"
          using assms(1) ApplyMode True r Some by (simp add: begin_op_def begin_apply_def Let_def)
        from fixed [OF this] show ?thesis using act Some wr by simp
      qed
    next
      case False
      let ?v = "s\<lparr>bm_nak := None, bm_baseline := map_option site_ident (sites_active (bm_sites s))\<rparr>"
      obtain items where "begin_tmode Alone items None ?v = (t, Wait w)"
        using assms(1) ApplyMode False by (auto simp: begin_op_def begin_apply_def Let_def split: if_splits)
      from tmode [OF this] show ?thesis using False by simp
    qed
  next
    case (Activate n)
    then obtain p tb where p: "sites_activate n (bm_sites s) = Inr (p, tb)" "begin_fixed sphp p (s\<lparr>bm_sites := tb\<rparr>) = (t, Wait w)"
      using assms(1) by (auto simp: begin_op_def begin_activate_def split: sum.splits)
    from fixed [OF p(2)] show ?thesis using sites_activate_ok(2) [OF assms(3) p(1)] by simp
  next
    case Poll
    then obtain p where "sites_active (bm_sites s) = Some p" "begin_fixed sphp p s = (t, Wait w)"
      using assms(1) by (auto simp: begin_op_def begin_poll_def Let_def split: option.splits if_splits)
    from fixed [OF this(2, 1)] show ?thesis by simp
  qed (use assms(2) in simp)
qed

lemma poll_settles_witness:
  "\<exists>s t w u e. begin_op (\<lambda>_. (0, 0)) ApplyMode s = (t, Wait w) \<and> end_write Refused 0 w t = (u, e) \<and>
    begin_poll (\<lambda>_. (0, 0)) u = (u, Nothing) \<and> e = Done"
proof -
  let ?s = "base_new OFF 300 (Fin 2) None \<lparr>tb_rows = [], tb_next = 1\<rparr>"
  obtain t w where t: "begin_op (\<lambda>_. (0, 0)) ApplyMode ?s = (t, Wait w)"
    by (simp add: begin_op_def begin_apply_def base_new_def begin_tmode_def Let_def)
  obtain u e where u: "end_write Refused 0 w t = (u, e)" by fastforce
  have "sites_ok (bm_sites ?s)" by (simp add: base_new_def sites_ok_def)
  from poll_settles [OF t _ this u] t u show ?thesis by blast
qed

text \<open>
  A change of the settings while a position is being written is lost: the write's end puts the mode back to fixed, and the
  queued mode change then writes the site again instead of the survey-in that was asked for.
\<close>

lemma configure_overwritten:
  assumes "sites_activate n (bm_sites s) = Inr (p, tb)" "tmode_fixed_ecef sphp (st_pos p) (fixed_acc p) = Inr i"
    and "bm_site_name s = None" "sites_ok (bm_sites s)"
  shows "\<exists>t. base_run sphp parsed [Begin (Activate n), Configure SURVEY_IN 300 (Fin 2) None, Answer Accepted now,
      Begin ApplyMode, Answer Accepted now'] (s, None) = (t, None) \<and>
    bm_mode t = FIXED \<and> bm_writes t = bm_writes s @ [(i, Accepted), (i, Accepted)]"
  using assms sites_activate_ok(2) [OF assms(4, 1)]
  by (auto simp: base_run_def base_do_def begin_op_def begin_activate_def begin_fixed_def end_write_def end_fixed_def
    begin_apply_def resolve_site_def clear_verification_def announce_def publish_base_def log_cfg_def Let_def)

end
