(* ===== verification/FrameStream.thy ===== *)
theory FrameStream
  imports Frames
begin

text \<open>
  Streams longer than the framer's buffer: between two calls of \<open>Framer.feed\<close> at most one partial frame is kept, so that
  chunks of moderate size are never cut down to the buffer, and a stream of any length is framed as if it
  came in one piece. A stream of whole frames comes out frame by frame, however it is cut, if no NMEA sentence in it is longer than
  the framer waits for.
\<close>

section \<open>What is kept between two calls\<close>

lemma rtcm_len_le:
  fixes x y :: byte
  shows "nat (push_bit 8 (uint x AND 3) OR uint y) \<le> 1023"
proof -
  have "0 \<le> uint x AND 3 \<and> uint x AND 3 \<le> 3" by (simp add: AND_upper2)
  moreover have "push_bit 8 (uint x AND 3) OR uint y = uint y + 256 * (uint x AND 3)"
    by (subst or.commute) (rule or_push_8, simp_all)
  ultimately show ?thesis using uint_byte_bounds(2) [of y] by linarith
qed

lemma try_front_Wait:
  assumes "sync_byte x" "try_front (front_proto x) b = Wait" shows "length b \<le> 8199"
  using assms rtcm_len_le [of "b ! 1" "b ! 2"]
  by (auto simp: try_front_def front_proto_def sync_byte_def try_ubx_def try_rtcm_def try_nmea_def Let_def
        UBX_MAX_PAYLOAD_def NMEA_MAX_LEN_def split: if_splits option.splits)

interpretation kept: bounded_scanner f_buf f_push framer_step framer_loop framer_feed frame_view snd valid_frame framer_ok 8199
proof unfold_locales
  show "length (f_buf s') \<le> 8199" if "f_buf s \<noteq> []" "framer_step c s = (s', fs, False)" for c s s' fs
    using that(2,1)
  proof (cases rule: framer_step_cases)
    case Waits
    then show ?thesis using try_front_Wait by simp
  qed simp_all
qed

section \<open>Feeding without a bound\<close>

definition free_feed :: "real \<times> real \<Rightarrow> framer \<Rightarrow> bytes \<Rightarrow> framer \<times> frame list" where
  "free_feed clk s d = framer_loop clk (f_push s d)"

interpretation free: scanner f_buf f_push framer_step framer_loop free_feed frame_view snd valid_frame
  "\<lambda>s d. lines_ok (f_buf s @ d)"
proof (unfold_locales, goal_cases)
  case 1
  show ?case by (rule ubx.loop_eq)
next
  case (2 c s s' fs go c')
  then show ?case by (rule ubx.step_clock)
next
  case 3
  then show ?case by (rule ubx.step_progress)
next
  case 4
  then show ?case by (rule ubx.step_cuts)
next
  case 5
  then show ?case by (rule ubx.step_wf)
next
  case 6
  then show ?case by (rule ubx.step_complete)
next
  case 7
  then show ?case by (rule ubx.wf_nonempty)
next
  case 8
  show ?case by (rule ubx.buf_push)
next
  case 9
  show ?case by (rule ubx.push_push)
next
  case 10
  then show ?case by (simp add: free_feed_def)
next
  case (11 c s d)
  have "f_buf s @ d = [] @ f_buf (f_push s d)" by simp
  then show ?case unfolding free_feed_def by blast
next
  case (12 s a b)
  then show ?case using lines_ok_prefix [of "f_buf s @ a" b] by simp
next
  case (13 s a b)
  then show ?case by simp
next
  case (14 s d c s' fs go)
  obtain n where n: "f_buf s' = drop n (f_buf s)" using framer_step_suffix [OF 14(2,3)] by blast
  have "f_buf s' @ d = drop (min n (length (f_buf s))) (f_buf s @ d)" by (simp add: n min_def)
  then show ?case using lines_ok_drop 14(1) by metis
next
  case (15 s d c s' fs)
  then show ?case using framer_resume [of s d c s' fs] by (simp split: prod.splits)
next
  case (16 s d c s' fs)
  from 16(3,2) show ?case by (cases rule: framer_step_cases) simp_all
qed

lemma framer_loop_max: "framer_loop clk s = (t, fs) \<Longrightarrow> f_max t = f_max s"
proof (induction s arbitrary: t fs rule: free.loop_induct [where c = clk])
  case (Stop s s' fs0)
  then show ?case using framer_step_max by auto
next
  case (Go s s' fs0)
  then show ?case using framer_step_max [of clk s s' fs0 True] by (auto split: prod.splits)
qed simp

lemma feed_untrimmed: "length (f_buf s @ d) \<le> f_max s \<Longrightarrow> framer_feed clk s d = free_feed clk s d"
  by (simp add: framer_feed_def free_feed_def Let_def f_push_def)

lemma feed_chunks_untrimmed:
  assumes "length cs = length ds" "length (f_buf s) \<le> 8199" "list_all (\<lambda>d. length d + 8199 \<le> f_max s) ds"
  shows "feed_chunks framer_feed view cs s ds = feed_chunks free_feed view cs s ds"
  using assms
proof (induction cs ds arbitrary: s rule: list_induct2)
  case (Cons c cs d ds)
  obtain t fs where t: "free_feed c s d = (t, fs)" by (cases "free_feed c s d")
  have f: "framer_feed c s d = (t, fs)" using feed_untrimmed [of s d c] t Cons.prems by simp
  have "length (f_buf t) \<le> 8199" "f_max t = f_max s"
    using kept.loop_cap framer_loop_max t by (auto simp: free_feed_def f_push_def)
  then show ?case using Cons.IH [of t] Cons.prems t f by simp
qed simp

lemma feed_chunks_whole:
  assumes "length cs = length ds" "ds \<noteq> []" "length (f_buf s) \<le> 8199" "list_all (\<lambda>d. length d + 8199 \<le> f_max s) ds"
    "lines_ok (f_buf s @ concat ds)"
  shows "feed_chunks framer_feed frame_view cs s ds = apsnd (map frame_view) (framer_loop c (f_push s (concat ds)))"
  using feed_chunks_untrimmed [OF assms(1,3,4), of frame_view] free.feed_all_concat [OF assms(1,2,5), of c]
  by (simp add: free_feed_def)

lemma framer_step_any_max:
  "framer_step c s = (s', fs, go) \<Longrightarrow> framer_step c (s\<lparr>f_max := m\<rparr>) = (s'\<lparr>f_max := m\<rparr>, fs, go)"
  by (auto simp: framer_step_def f_emit_def f_drop_def f_bad_sum_def split: list.splits verdict.splits if_splits)

lemma framer_loop_any_max:
  "framer_loop c s = (t, fs) \<Longrightarrow> framer_loop c (s\<lparr>f_max := m\<rparr>) = (t\<lparr>f_max := m\<rparr>, fs)"
proof (induction s arbitrary: t fs rule: free.loop_induct [where c = c])
  case (Empty s)
  then show ?case by (subst framer_loop.simps) simp
next
  case (Stop s s' fs0)
  then show ?case using framer_step_any_max [OF Stop(2), of m] by (subst framer_loop.simps) simp
next
  case (Go s s' fs0)
  then show ?case using framer_step_any_max [OF Go(2), of m]
    by (subst framer_loop.simps) (auto split: prod.splits)
qed

section \<open>Streams of whole frames\<close>

text \<open>
  A frame that is framed alike however it is cut: the framer gives a line up once \<open>NMEA_MAX_LEN\<close> bytes of it
  have come without its end, so a valid line of 257 or 258 bytes is lost when a read ends in its last bytes.
\<close>

definition cuttable :: "proto \<times> bytes \<Rightarrow> bool" where
  "cuttable v \<longleftrightarrow> valid_frame v \<and> (fst v = NMEA \<longrightarrow> length (snd v) \<le> NMEA_MAX_LEN)"

lemma cuttable_valid [simp]: "list_all cuttable vs \<Longrightarrow> list_all valid_frame vs"
  by (auto simp: list_all_iff cuttable_def)

lemma try_front_partial:
  assumes "cuttable (p, b @ e)" "b \<noteq> []" "e \<noteq> []"
  shows "sync_byte (hd b) \<and> front_proto (hd b) = p \<and> try_front p b = Wait"
proof -
  have v: "try_front p (b @ e) = Accept (length (b @ e))" "sync_byte (hd b)" "front_proto (hd b) = p"
    using try_front_valid [of p "b @ e" "[]"] assms(1,2) by (cases b; auto simp: cuttable_def)+
  have full: "try_front p (b @ e) \<noteq> try_front p b" if w: "try_front p b \<noteq> Wait"
  proof
    assume "try_front p (b @ e) = try_front p b"
    then have "try_front (front_proto (hd b)) b = Accept (length (b @ e))" using v by simp
    then have "length (b @ e) \<le> length b" using hd_try_front [OF v(2) assms(2)] by blast
    then show False using assms(3) by simp
  qed
  show ?thesis
  proof (cases p)
    case UBX
    then show ?thesis using full try_ubx_append [of b e] v(2,3) by (auto simp: try_front_def)
  next
    case RTCM3
    then show ?thesis using full try_rtcm_append [of b e] v(2,3) by (auto simp: try_front_def)
  next
    case NMEA
    then have n: "valid_nmea (b @ e)" "length (b @ e) \<le> 256"
      using assms(1) by (simp_all add: cuttable_def valid_frame_def NMEA_MAX_LEN_def)
    then have l: "length b < 256" using assms(3) by (cases e) auto
    have "find_sub [13, 10] b = None"
    proof (rule ccontr)
      assume "find_sub [13, 10] b \<noteq> None"
      then obtain i where i: "find_sub [13, 10] b = Some i" by blast
      then have "find_sub [13, 10] (b @ e) = Some i" by (rule find_sub_append_Some)
      then have "i = length (b @ e) - 2" using n(1) by (simp add: valid_nmea_def)
      moreover have "i + 2 \<le> length b" using find_sub_Some_bound [OF i] by simp
      moreover have "6 \<le> length (b @ e)" using n(1) by (simp add: valid_nmea_def)
      moreover have "length (b @ e) = length b + length e" "0 < length e" using assms(3) by simp_all
      ultimately show False by linarith
    qed
    then have "try_nmea b = Wait" using l by (simp add: try_nmea_def NMEA_MAX_LEN_def)
    then show ?thesis using NMEA v(2,3) by (simp add: try_front_def)
  qed (use assms(1) in \<open>simp_all add: cuttable_def valid_frame_def\<close>)
qed

lemma framer_step_whole:
  assumes "valid_frame v" "f_buf s = snd v @ d"
  shows "\<exists>s' f. framer_step c s = (s', [f], True) \<and> frame_view f = v \<and> f_buf s' = d \<and>
    fs_checksum_errors (f_stats s') = fs_checksum_errors (f_stats s)"
proof -
  obtain s' f where st: "framer_step c s = (s', [f], True)" "frame_view f = v" "f_buf s' = d"
    using ubx.step_complete [OF assms, of c] by blast
  have "f_buf s \<noteq> []" using assms ubx.wf_nonempty by auto
  with st(1) have "fs_checksum_errors (f_stats s') = fs_checksum_errors (f_stats s)"
    by (cases rule: framer_step_cases) (auto simp: f_emit_def)
  then show ?thesis using st by blast
qed

lemma framer_loop_frames:
  "list_all cuttable ws \<Longrightarrow> f_buf s @ d = concat (map snd ws) \<Longrightarrow> framer_loop c s = (t, fs) \<Longrightarrow>
   \<exists>ws2. ws = map frame_view fs @ ws2 \<and> f_buf t @ d = concat (map snd ws2) \<and> (d = [] \<longrightarrow> ws2 = []) \<and>
     fs_checksum_errors (f_stats t) = fs_checksum_errors (f_stats s)"
proof (induction ws arbitrary: s fs)
  case Nil
  then show ?case by (subst (asm) framer_loop.simps) simp
next
  case (Cons v ws)
  show ?case
  proof (cases "f_buf s = []")
    case True
    then have "t = s" "fs = []" using Cons.prems(3) by (simp_all add: framer_loop.simps [of c s])
    moreover have "d \<noteq> []" using True Cons.prems(1,2) ubx.wf_nonempty [of v] by (auto simp: cuttable_def)
    ultimately show ?thesis using Cons.prems(2) by auto
  next
    case ne: False
    have cat: "f_buf s @ d = snd v @ concat (map snd ws)" using Cons.prems(2) by simp
    show ?thesis
    proof (cases "length (snd v) \<le> length (f_buf s)")
      case True
      define b where "b = drop (length (snd v)) (f_buf s)"
      have "take (length (snd v)) (f_buf s) = snd v" using arg_cong [where f = "take (length (snd v))", OF cat] True by simp
      then have b: "f_buf s = snd v @ b" unfolding b_def by (metis append_take_drop_id)
      then have bd: "b @ d = concat (map snd ws)" using cat by simp
      obtain s' f where st: "framer_step c s = (s', [f], True)" "frame_view f = v" "f_buf s' = b"
        "fs_checksum_errors (f_stats s') = fs_checksum_errors (f_stats s)"
        using framer_step_whole [OF _ b, of c] Cons.prems(1) by (auto simp: cuttable_def)
      obtain gs where gs: "framer_loop c s' = (t, gs)" "fs = f # gs"
        using Cons.prems(3) st(1) ne by (auto simp: framer_loop.simps [of c s] split: prod.splits)
      show ?thesis using Cons.IH [OF _ _ gs(1)] Cons.prems(1) bd st gs(2) by fastforce
    next
      case False
      define e where "e = drop (length (f_buf s)) (snd v)"
      have "take (length (f_buf s)) (snd v) = f_buf s" using arg_cong [where f = "take (length (f_buf s))", OF cat] False by simp
      then have v: "snd v = f_buf s @ e" unfolding e_def by (metis append_take_drop_id)
      have "f_buf s @ d = f_buf s @ e @ concat (map snd ws)" using cat unfolding v by simp
      then have d: "d = e @ concat (map snd ws)" by (simp only: same_append_eq)
      have "e \<noteq> []" unfolding e_def using False by simp
      note e = v this d
      have "cuttable (fst v, f_buf s @ e)" using Cons.prems(1) unfolding e(1) [symmetric] by simp
      from try_front_partial [OF this ne e(2)]
      have w: "sync_byte (hd (f_buf s))" "try_front (front_proto (hd (f_buf s))) (f_buf s) = Wait" by auto
      then have "framer_step c s = (s, [], False)" using ne by (cases "f_buf s") (simp_all add: framer_step_def)
      then have "t = s" "fs = []" using Cons.prems(3) ne by (simp_all add: framer_loop.simps [of c s])
      then show ?thesis using Cons.prems(2) e(2,3) by (intro exI [of _ "v # ws"]) simp
    qed
  qed
qed

text \<open>The same after bytes between frames.\<close>

abbreviation no_sync :: "bytes \<Rightarrow> bool" where
  "no_sync g \<equiv> list_all (\<lambda>x. \<not> sync_byte x) g"

lemma framer_loop_after:
  assumes "f_buf s = g @ b" "no_sync g" "b = [] \<or> sync_byte (hd b)"
  shows "framer_loop c s = framer_loop c (f_drop (length g) s)"
proof -
  have "takeWhile (\<lambda>x. \<not> sync_byte x) (g @ b) = g"
    using assms(2,3) by (cases b) (auto simp: list_all_iff takeWhile_append2 takeWhile_eq_all_conv)
  then show ?thesis using framer_loop_skip [of c s] assms(1) by (simp add: skip_garbage_def)
qed

lemma framer_loop_stream:
  assumes "list_all cuttable ws" "f_buf s @ d = g @ concat (map snd ws)" "no_sync g" "framer_loop c s = (t, fs)"
  shows "\<exists>h us. ws = map frame_view fs @ us \<and> f_buf t @ d = h @ concat (map snd us) \<and> no_sync h \<and>
    (d = [] \<longrightarrow> us = []) \<and> fs_checksum_errors (f_stats t) = fs_checksum_errors (f_stats s)"
proof (cases "length (f_buf s) \<le> length g")
  case True
  define h where "h = drop (length (f_buf s)) g"
  have "take (length (f_buf s)) g = f_buf s" using arg_cong [where f = "take (length (f_buf s))", OF assms(2)] True by simp
  then have g: "g = f_buf s @ h" unfolding h_def by (metis append_take_drop_id)
  then have d: "d = h @ concat (map snd ws)" using assms(2) by simp
  have "no_sync (f_buf s)" "no_sync h" using assms(3) unfolding g by simp_all
  then have "framer_loop c s = (f_drop (length (f_buf s)) s, [])"
    using framer_loop_after [of s "f_buf s" "[]" c] by (simp add: framer_loop.simps)
  then have "t = f_drop (length (f_buf s)) s" "fs = []" using assms(4) by simp_all
  moreover have "ws = []" if "d = []"
  proof -
    have "list_all valid_frame ws" "concat (map snd ws) = []" using assms(1) d that by simp_all
    then show ?thesis using ubx.wf_nonempty by (cases ws) auto
  qed
  ultimately show ?thesis using d \<open>no_sync h\<close> by (auto simp: f_drop_def)
next
  case False
  define b where "b = drop (length g) (f_buf s)"
  have "take (length g) (f_buf s) = g" using arg_cong [where f = "take (length g)", OF assms(2)] False by simp
  then have s: "f_buf s = g @ b" unfolding b_def by (metis append_take_drop_id)
  then have bd: "b @ d = concat (map snd ws)" using assms(2) by simp
  have "b \<noteq> []" unfolding b_def using False by simp
  moreover obtain v vs where w: "ws = v # vs" using bd \<open>b \<noteq> []\<close> by (cases ws) auto
  moreover obtain x xs where "snd v = x # xs" "sync_byte x"
    using try_front_valid [of "fst v" "snd v" "[]"] assms(1) w by (auto simp: cuttable_def)
  ultimately have "sync_byte (hd b)" using bd by (cases b) auto
  then have loop: "framer_loop c (f_drop (length g) s) = (t, fs)"
    using framer_loop_after [OF s assms(3), of c] assms(4) by simp
  have e: "fs_checksum_errors (f_stats (f_drop (length g) s)) = fs_checksum_errors (f_stats s)"
    by (simp add: f_drop_def)
  have bd: "f_buf (f_drop (length g) s) @ d = concat (map snd ws)" using s bd by simp
  obtain us where "ws = map frame_view fs @ us" "f_buf t @ d = concat (map snd us)" "d = [] \<longrightarrow> us = []"
    "fs_checksum_errors (f_stats t) = fs_checksum_errors (f_stats s)"
    using framer_loop_frames [OF assms(1) bd loop] unfolding e by blast
  then show ?thesis by (intro exI [of _ "[]"] exI [of _ us]) simp
qed

section \<open>Properties\<close>

text \<open>
  C34. Feeding a stream of any length to the framer, in chunks that leave room for one partial frame of at most 8,199 bytes in
  its buffer, gives the same frames, the same bytes left over and the same counters as feeding it whole to a framer with
  a buffer that holds it all, if no NMEA line in it has 257 or 258 bytes.
\<close>

theorem framer_any_length:
  assumes "length cs = length ds" "ds \<noteq> []" "list_all (\<lambda>d. length d + 8199 \<le> m) ds" "lines_ok (concat ds)"
    and "length (concat ds) \<le> M"
  shows "\<exists>t u fs. feed_chunks framer_feed frame_view cs (framer_init m) ds = (t, map frame_view fs) \<and>
    framer_feed c (framer_init M) (concat ds) = (u, fs) \<and> f_buf t = f_buf u \<and> f_stats t = f_stats u"
proof -
  obtain u fs where u: "framer_feed c (framer_init M) (concat ds) = (u, fs)" by fastforce
  then have "framer_loop c (f_push (framer_init M) (concat ds)) = (u, fs)"
    using feed_untrimmed [of "framer_init M" "concat ds" c] assms(5) by (simp add: framer_init_def free_feed_def)
  moreover have "f_push (framer_init m) (concat ds) = (f_push (framer_init M) (concat ds))\<lparr>f_max := m\<rparr>"
    by (simp add: framer_init_def f_push_def)
  ultimately have "framer_loop c (f_push (framer_init m) (concat ds)) = (u\<lparr>f_max := m\<rparr>, fs)"
    using framer_loop_any_max by metis
  then have "feed_chunks framer_feed frame_view cs (framer_init m) ds = (u\<lparr>f_max := m\<rparr>, map frame_view fs)"
    using feed_chunks_whole [OF assms(1,2), of "framer_init m" c] assms(3,4) by (simp add: framer_init_def)
  then show ?thesis using u by auto
qed

theorem framer_any_length_witness:
  "\<exists>t u fs. feed_chunks framer_feed frame_view [(0, 0), (1, 1)] (framer_init 9000) [[0xB5, 0x62, 1, 7, 0], [0, 8, 25, 36]] =
      (t, map frame_view fs) \<and>
    framer_feed (2, 2) (framer_init 20000) (concat [[0xB5, 0x62, 1, 7, 0], [0, 8, 25, 36]]) = (u, fs) \<and>
    f_buf t = f_buf u \<and> f_stats t = f_stats u"
  by (rule framer_any_length) (simp_all del: lines_ok.simps find_sub.simps, code_simp)

end
