(* ===== verification/NtripClient.thy ===== *)
theory NtripClient
  imports Caster Numerals FrameStream
begin

text \<open>
  The rover's NTRIP client, \<open>src/mtrtk/rover/ntrip_client.py\<close>: the request, the reader of the caster's answer and of
  chunked bodies, the stream through the framer into the receiver, and the retries of \<open>_run\<close>. A reader is a function of
  the bytes that the connection still gives before it ends. Texts are ASCII.
\<close>

section \<open>The request\<close>

definition AUTH_BACKOFF_S :: real where "AUTH_BACKOFF_S = 60"
definition MOUNT_BACKOFF_S :: real where "MOUNT_BACKOFF_S = 60"
definition BACKOFF_MIN_S :: real where "BACKOFF_MIN_S = 1"
definition BACKOFF_MAX_S :: real where "BACKOFF_MAX_S = 60"
definition STABLE_S :: real where "STABLE_S = 30"







section \<open>Reading the answer\<close>

datatype response_kind = AuthKind | MountKind | OtherKind

text \<open>What ends a session: \<open>_Response\<close>, or one of the errors of \<open>_NETWORK_ERRORS\<close>.\<close>

datatype ntrip_error = Response response_kind | Network












section \<open>The stream\<close>







section \<open>The retries\<close>

text \<open>How a session ended, whether it got as far as a 200, and for how long it had been connected.\<close>

datatype session_end = Stopped | Failed ntrip_error | Crashed

record session =
  se_end :: session_end
  se_streamed :: bool
  se_connected_for :: "real option"
  se_jitter :: real

record ntrip_client =
  cl_force_v1 :: bool
  cl_sticky_v1 :: bool
  cl_v1_retry :: bool
  cl_backoff :: real
  cl_reconnects :: nat

definition client_new :: "bool \<Rightarrow> ntrip_client" where
  "client_new force = \<lparr>cl_force_v1 = force, cl_sticky_v1 = False, cl_v1_retry = False, cl_backoff = BACKOFF_MIN_S, cl_reconnects = 0\<rparr>"

datatype next_move = Return | AtOnce | After real

definition speaks_v2 :: "ntrip_client \<Rightarrow> bool" where
  "speaks_v2 c \<longleftrightarrow> \<not> (cl_force_v1 c \<or> cl_sticky_v1 c \<or> cl_v1_retry c)"

text \<open>\<open>_jittered\<close>; the jitter is the factor that \<open>random.uniform(0.8, 1.2)\<close> gave.\<close>

definition jittered :: "real \<Rightarrow> real \<Rightarrow> real \<times> real" where
  "jittered u backoff = (backoff * u, min (backoff * 2) BACKOFF_MAX_S)"

definition after_session :: "session \<Rightarrow> ntrip_client \<Rightarrow> ntrip_client \<times> next_move" where
  "after_session x c =
     (case se_end x of
        Stopped \<Rightarrow> (c, Return)
      | e \<Rightarrow>
          if e = Failed (Response OtherKind) \<and> speaks_v2 c then (c\<lparr>cl_v1_retry := True\<rparr>, AtOnce)
          else
            let b = (if e = Failed Network \<and> (case se_connected_for x of Some t \<Rightarrow> STABLE_S \<le> t | None \<Rightarrow> False)
                     then BACKOFF_MIN_S else cl_backoff c);
                (delay, backoff) =
                  (if e = Failed (Response AuthKind) then (AUTH_BACKOFF_S, cl_backoff c)
                   else if e = Failed (Response MountKind) then (MOUNT_BACKOFF_S, cl_backoff c)
                   else jittered (se_jitter x) b)
            in (c\<lparr>cl_sticky_v1 := cl_sticky_v1 c \<or> cl_v1_retry c \<and> se_streamed x, cl_v1_retry := False,
                  cl_backoff := backoff, cl_reconnects := cl_reconnects c + 1\<rparr>, After delay))"

text \<open>The sessions of a run: whether each spoke version 2, and what followed it.\<close>

fun client_run :: "session list \<Rightarrow> ntrip_client \<Rightarrow> (bool \<times> next_move) list \<times> ntrip_client" where
  "client_run [] c = ([], c)"
| "client_run (x # xs) c =
     (let (c', m) = after_session x c in
      if m = Return then ([(speaks_v2 c, m)], c')
      else let (ms, c'') = client_run xs c' in ((speaks_v2 c, m) # ms, c''))"

section \<open>Reading what the caster wrote\<close>



definition line_ok :: "string \<Rightarrow> bool" where
  "line_ok l \<longleftrightarrow> list_all (\<lambda>c. c \<noteq> CHR 0x0D \<and> c \<noteq> CHR 0x0A) l"

















section \<open>Frames out of the stream\<close>







section \<open>The request read back\<close>

lemma line_ok_simps [simp]:
  "line_ok []" "line_ok (c # s) \<longleftrightarrow> c \<noteq> CHR 0x0D \<and> c \<noteq> CHR 0x0A \<and> line_ok s" "line_ok (s @ t) \<longleftrightarrow> line_ok s \<and> line_ok t"
  by (auto simp: line_ok_def)

























section \<open>Properties\<close>





section \<open>Runs of sessions\<close>

text \<open>
  What a run does from client \<open>c\<close> on. The version: a session speaks version 1 exactly when it is forced to, retries a
  refused version 2, or such a retry has streamed before.
\<close>

definition pinned :: "session list \<Rightarrow> (bool \<times> next_move) list \<Rightarrow> nat \<Rightarrow> bool" where
  "pinned xs ms j \<longleftrightarrow> (\<exists>i. Suc i < j \<and> snd (ms ! i) = AtOnce \<and> se_streamed (xs ! Suc i))"

lemma after_session_cases:
  obtains (Return) "se_end x = Stopped" "after_session x c = (c, Return)"
  | (AtOnce) "se_end x = Failed (Response OtherKind)" "speaks_v2 c" "after_session x c = (c\<lparr>cl_v1_retry := True\<rparr>, AtOnce)"
  | (After) d b where "se_end x \<noteq> Stopped"
      "after_session x c = (c\<lparr>cl_sticky_v1 := cl_sticky_v1 c \<or> cl_v1_retry c \<and> se_streamed x, cl_v1_retry := False,
         cl_backoff := b, cl_reconnects := cl_reconnects c + 1\<rparr>, After d)"
      "(d = 60 \<and> b = cl_backoff c) \<or> (\<exists>b0 \<in> {1, cl_backoff c}. d = b0 * se_jitter x \<and> b = min (b0 * 2) 60)"
proof -
  note defs = after_session_def jittered_def Let_def AUTH_BACKOFF_S_def MOUNT_BACKOFF_S_def BACKOFF_MIN_S_def BACKOFF_MAX_S_def
  consider "se_end x = Stopped" | "se_end x = Failed (Response OtherKind) \<and> speaks_v2 c"
    | "se_end x \<in> {Failed (Response AuthKind), Failed (Response MountKind)}" | "se_end x = Failed Network"
    | "se_end x = Crashed \<or> se_end x = Failed (Response OtherKind) \<and> \<not> speaks_v2 c"
  proof (cases "se_end x")
    case (Failed e)
    then show ?thesis using that by (cases e) (auto intro: response_kind.exhaust)
  qed (use that in auto)
  then show ?thesis
  proof cases
    case 1
    then show ?thesis using Return by (simp add: defs)
  next
    case 2
    then show ?thesis using AtOnce by (simp add: defs)
  next
    case 3
    then show ?thesis by (intro After [where d = 60 and b = "cl_backoff c"]) (auto simp: defs)
  next
    case 4
    define b0 where "b0 = (if case se_connected_for x of Some t \<Rightarrow> STABLE_S \<le> t | None \<Rightarrow> False then 1 else cl_backoff c)"
    then show ?thesis using 4 by (intro After [where d = "b0 * se_jitter x" and b = "min (b0 * 2) 60"]) (simp_all add: defs)
  next
    case 5
    then show ?thesis by (intro After [where d = "cl_backoff c * se_jitter x" and b = "min (cl_backoff c * 2) 60"]) (auto simp: defs)
  qed
qed

definition delay_ok :: "next_move \<Rightarrow> bool" where
  "delay_ok m \<longleftrightarrow> (case m of After d \<Rightarrow> 0.8 \<le> d \<and> d \<le> 72 | _ \<Rightarrow> True)"

lemma client_run_moves:
  assumes "1 \<le> cl_backoff c" "cl_backoff c \<le> 60" "list_all (\<lambda>x. 0.8 \<le> se_jitter x \<and> se_jitter x \<le> 1.2) xs"
  shows "list_all (\<lambda>m. delay_ok (snd m)) (fst (client_run xs c)) \<and> 1 \<le> cl_backoff (snd (client_run xs c)) \<and>
    cl_backoff (snd (client_run xs c)) \<le> 60"
  using assms
proof (induction xs arbitrary: c)
  case (Cons x xs)
  have j: "0.8 \<le> se_jitter x" "se_jitter x \<le> 1.2" "list_all (\<lambda>x. 0.8 \<le> se_jitter x \<and> se_jitter x \<le> 1.2) xs"
    using Cons.prems(3) by simp_all
  show ?case
  proof (cases rule: after_session_cases [of x c])
    case (After d b)
    have d: "0.8 \<le> b0 * se_jitter x \<and> b0 * se_jitter x \<le> 72 \<and> 1 \<le> min (b0 * 2) 60 \<and> min (b0 * 2) 60 \<le> 60"
      if "1 \<le> b0" "b0 \<le> 60" for b0 :: real
    proof -
      have "1 * 0.8 \<le> b0 * se_jitter x" "b0 * se_jitter x \<le> 60 * 1.2" using that j by (intro mult_mono; simp)+
      then show ?thesis using that by simp
    qed
    have b: "1 \<le> b" "b \<le> 60" "delay_ok (After d)"
      using After(3) d [of 1] d [of "cl_backoff c"] Cons.prems(1,2) by (auto simp: delay_ok_def)
    show ?thesis using Cons.IH [OF _ _ j(3), of "fst (after_session x c)"] b After(2) by (simp add: case_prod_beta)
  next
    case AtOnce
    then show ?thesis using Cons.IH [OF _ _ j(3), of "c\<lparr>cl_v1_retry := True\<rparr>"] Cons.prems
      by (simp add: delay_ok_def case_prod_beta)
  qed (use Cons.prems in \<open>simp add: delay_ok_def\<close>)
qed simp

lemma client_run_length: "client_run xs c = (ms, c') \<Longrightarrow> length ms \<le> length xs"
  by (induction xs arbitrary: c ms c') (auto split: prod.splits if_splits)

lemma client_run_reconnects:
  "client_run xs c = (ms, c') \<Longrightarrow>
   cl_reconnects c' = cl_reconnects c + length (filter (\<lambda>m. \<exists>d. snd m = After d) ms)"
proof (induction xs arbitrary: c ms)
  case (Cons x xs)
  show ?case
    by (cases rule: after_session_cases [of x c]) (use Cons in \<open>auto split: prod.splits\<close>)
qed simp

lemma ex_nat_split: "(\<exists>i. P i) \<longleftrightarrow> P 0 \<or> (\<exists>i. P (Suc i))"
  by (metis not0_implies_Suc)

lemma pinned_0 [simp]: "\<not> pinned xs ms 0"
  by (simp add: pinned_def)

lemma pinned_Suc [simp]:
  "pinned (x # xs) (vm # ms) (Suc j) \<longleftrightarrow> 0 < j \<and> snd vm = AtOnce \<and> se_streamed (xs ! 0) \<or> pinned xs ms j"
  unfolding pinned_def by (subst ex_nat_split) simp

lemma client_run_step:
  assumes "after_session x c = (c1, m)" "m \<noteq> Return" "client_run xs c1 = (ms, c')"
  shows "client_run (x # xs) c = ((speaks_v2 c, m) # ms, c')"
  using assms by simp

lemma client_run_versions:
  assumes "client_run xs c = (ms, c')" "j < length ms"
  shows "fst (ms ! j) \<longleftrightarrow>
      \<not> cl_force_v1 c \<and> \<not> cl_sticky_v1 c \<and> \<not> (cl_v1_retry c \<and> (j = 0 \<or> se_streamed (xs ! 0))) \<and>
      \<not> (0 < j \<and> snd (ms ! (j - 1)) = AtOnce) \<and> \<not> pinned xs ms j"
  using assms
proof (induction xs arbitrary: c ms j)
  case (Cons x xs)
  show ?case
  proof (cases rule: after_session_cases [of x c])
    case Return
    then show ?thesis using Cons.prems by (auto simp: speaks_v2_def)
  next
    case AtOnce
    obtain ms1 where r: "client_run xs (c\<lparr>cl_v1_retry := True\<rparr>) = (ms1, c')" and ms: "ms = (speaks_v2 c, NtripClient.AtOnce) # ms1"
      using Cons.prems AtOnce by (auto split: prod.splits)
    show ?thesis
    proof (cases j)
      case (Suc i)
      then show ?thesis using Cons.IH [OF r, of i] Cons.prems ms AtOnce by (cases i) (auto simp: speaks_v2_def)
    qed (use ms in \<open>auto simp: speaks_v2_def\<close>)
  next
    case (After d b)
    obtain ms1 where r: "client_run xs (fst (after_session x c)) = (ms1, c')" and ms: "ms = (speaks_v2 c, NtripClient.After d) # ms1"
      using Cons.prems After by (auto split: prod.splits)
    show ?thesis
    proof (cases j)
      case (Suc i)
      then show ?thesis using Cons.IH [OF r, of i] Cons.prems ms After by (cases i) (auto simp: speaks_v2_def)
    qed (use ms in \<open>auto simp: speaks_v2_def\<close>)
  qed
qed simp

lemma client_run_ends:
  assumes "client_run xs c = (ms, c')" "j < length ms"
  shows "(snd (ms ! j) = AtOnce \<longrightarrow> fst (ms ! j)) \<and> (snd (ms ! j) = Return \<longrightarrow> j = length ms - 1) \<and>
    (snd (ms ! j) = Return \<longleftrightarrow> se_end (xs ! j) = Stopped)"
  using assms
proof (induction xs arbitrary: c ms j)
  case (Cons x xs)
  show ?case
  proof (cases rule: after_session_cases [of x c])
    case Return
    then show ?thesis using Cons.prems by auto
  next
    case AtOnce
    obtain ms1 where r: "client_run xs (c\<lparr>cl_v1_retry := True\<rparr>) = (ms1, c')" and ms: "ms = (speaks_v2 c, NtripClient.AtOnce) # ms1"
      using Cons.prems AtOnce by (auto split: prod.splits)
    then show ?thesis using Cons.IH [OF r, of "j - 1"] Cons.prems AtOnce by (cases j) auto
  next
    case (After d b)
    obtain ms1 where r: "client_run xs (fst (after_session x c)) = (ms1, c')" and ms: "ms = (speaks_v2 c, NtripClient.After d) # ms1"
      using Cons.prems After by (auto split: prod.splits)
    then show ?thesis using Cons.IH [OF r, of "j - 1"] Cons.prems After by (cases j) auto
  qed
qed simp

lemma client_run_backoff:
  assumes "list_all (\<lambda>x. se_end x = Failed Network \<and> se_connected_for x = None) xs" "cl_backoff c = min (2 ^ n) 60"
  shows "map snd (fst (client_run xs c)) = map (\<lambda>i. After (min (2 ^ (n + i)) 60 * se_jitter (xs ! i))) [0..<length xs]"
  using assms
proof (induction xs arbitrary: c n)
  case (Cons x xs)
  have m: "min (min (2 ^ n) 60 * 2) 60 = (min (2 ^ Suc n) 60 :: real)" by (simp add: min_def)
  have "after_session x c = (c\<lparr>cl_sticky_v1 := cl_sticky_v1 c \<or> cl_v1_retry c \<and> se_streamed x, cl_v1_retry := False,
      cl_backoff := min (2 ^ Suc n) 60, cl_reconnects := cl_reconnects c + 1\<rparr>, After (min (2 ^ n) 60 * se_jitter x))"
    using Cons.prems m by (simp add: after_session_def jittered_def BACKOFF_MAX_S_def del: power_Suc)
  then show ?case
    using Cons.IH [of "fst (after_session x c)" "Suc n"] Cons.prems(1)
    by (simp add: case_prod_beta upt_conv_Cons map_Suc_upt [symmetric] comp_def del: upt_Suc power_Suc map_Suc_upt)
qed simp

text \<open>
  C31. The retries of the client: every wait is between 0.8 and 72 s and the backoff stays between 1 and 60 s; a session
  speaks version 1 exactly when that is forced, when it is the one immediate retry of a refused version 2, or when such a
  retry has streamed before; only a version 2 session is retried at once; the run ends exactly with a session that was
  stopped; and a caster that cannot be reached is tried again after 1, 2, 4, 8, 16, 32 and then every 60 s, up to jitter.
\<close>

theorem retry_policy:
  assumes "list_all (\<lambda>x. 0.8 \<le> se_jitter x \<and> se_jitter x \<le> 1.2) xs" "client_run xs (client_new force) = (ms, c)"
  shows "1 \<le> cl_backoff c \<and> cl_backoff c \<le> 60 \<and>
    cl_reconnects c = length (filter (\<lambda>m. \<exists>d. snd m = After d) ms) \<and>
    (\<forall>j < length ms.
      (case snd (ms ! j) of After d \<Rightarrow> 0.8 \<le> d \<and> d \<le> 72
       | AtOnce \<Rightarrow> fst (ms ! j) | Return \<Rightarrow> j = length ms - 1) \<and>
      (snd (ms ! j) = Return \<longleftrightarrow> se_end (xs ! j) = Stopped) \<and>
      (fst (ms ! j) \<longleftrightarrow> \<not> force \<and> \<not> (0 < j \<and> snd (ms ! (j - 1)) = AtOnce) \<and>
        \<not> (\<exists>i. i + 1 < j \<and> snd (ms ! i) = AtOnce \<and> se_streamed (xs ! (i + 1))))) \<and>
    (list_all (\<lambda>x. se_end x = Failed Network \<and> se_connected_for x = None) xs \<longrightarrow>
      map snd ms = map (\<lambda>i. After (min (2 ^ i) 60 * se_jitter (xs ! i))) [0..<length xs])"
proof -
  have r: "fst (client_run xs (client_new force)) = ms" "snd (client_run xs (client_new force)) = c"
    using assms(2) by simp_all
  have d: "list_all (\<lambda>m. delay_ok (snd m)) ms" "1 \<le> cl_backoff c" "cl_backoff c \<le> 60"
    using client_run_moves [OF _ _ assms(1), of "client_new force"] r by (simp_all add: client_new_def BACKOFF_MIN_S_def)
  have n: "cl_reconnects c = length (filter (\<lambda>m. \<exists>d. snd m = After d) ms)"
    using client_run_reconnects [OF assms(2)] by (simp add: client_new_def)
  have m: "(case snd (ms ! j) of After d \<Rightarrow> 0.8 \<le> d \<and> d \<le> 72 | AtOnce \<Rightarrow> fst (ms ! j) | Return \<Rightarrow> j = length ms - 1) \<and>
      (snd (ms ! j) = Return \<longleftrightarrow> se_end (xs ! j) = Stopped)" if "j < length ms" for j
  proof -
    have "delay_ok (snd (ms ! j))" using d(1) that by (simp add: list_all_length)
    then show ?thesis using client_run_ends [OF assms(2) that]
      by (auto simp: delay_ok_def split: next_move.split)
  qed
  have v: "fst (ms ! j) \<longleftrightarrow> \<not> force \<and> \<not> (0 < j \<and> snd (ms ! (j - 1)) = AtOnce) \<and>
        \<not> (\<exists>i. i + 1 < j \<and> snd (ms ! i) = AtOnce \<and> se_streamed (xs ! (i + 1)))" if "j < length ms" for j
    using client_run_versions [OF assms(2) that] by (simp add: client_new_def pinned_def)
  have "map snd ms = map (\<lambda>i. After (min (2 ^ i) 60 * se_jitter (xs ! i))) [0..<length xs]"
    if "list_all (\<lambda>x. se_end x = Failed Network \<and> se_connected_for x = None) xs"
    using client_run_backoff [OF that, of "client_new force" 0] r by (simp add: client_new_def BACKOFF_MIN_S_def)
  then show ?thesis using d n m v by blast
qed

definition demo_session :: "session_end \<Rightarrow> bool \<Rightarrow> session" where
  "demo_session e streamed = \<lparr>se_end = e, se_streamed = streamed, se_connected_for = None, se_jitter = 1\<rparr>"

theorem retry_policy_witness:
  "let (ms, c) = client_run [demo_session (Failed (Response OtherKind)) False, demo_session (Failed Network) True,
       demo_session (Failed Network) True, demo_session Stopped False] (client_new False)
   in ms = [(True, AtOnce), (False, After 1), (False, After 2), (False, Return)] \<and> cl_reconnects c = 2 \<and> cl_backoff c \<le> 60"
proof -
  let ?xs = "[demo_session (Failed (Response OtherKind)) False, demo_session (Failed Network) True,
       demo_session (Failed Network) True, demo_session Stopped False]"
  obtain ms c where r: "client_run ?xs (client_new False) = (ms, c)" by fastforce
  have "list_all (\<lambda>x. 0.8 \<le> se_jitter x \<and> se_jitter x \<le> 1.2) ?xs" by (simp add: demo_session_def)
  from retry_policy [OF this r] have b: "cl_backoff c \<le> 60" by blast
  have "client_run ?xs (client_new False) = ([(True, AtOnce), (False, After 1), (False, After 2), (False, Return)],
      \<lparr>cl_force_v1 = False, cl_sticky_v1 = True, cl_v1_retry = False, cl_backoff = 4, cl_reconnects = 2\<rparr>)"
    by (simp add: client_new_def demo_session_def after_session_def speaks_v2_def jittered_def BACKOFF_MIN_S_def BACKOFF_MAX_S_def)
  then have "ms = [(True, AtOnce), (False, After 1), (False, After 2), (False, Return)]" "cl_reconnects c = 2"
    using r by (auto simp del: client_run.simps)
  then show ?thesis using r b by (simp del: client_run.simps)
qed

end
