(* ===== verification/Jobs.thy ===== *)
theory Jobs
  imports Text
begin

text \<open>
  The job runner, \<open>src/mtrtk/jobs.py\<close>: the rows of the \<open>jobs\<close> table, the result directories, the tasks that run the
  jobs, and any number of \<open>submit\<close> and \<open>delete\<close> calls in flight. A step is what runs between two suspensions of a
  coroutine, and a run is any sequence of steps. A statement and what follows it up to the next suspension are one step,
  as \<open>Database\<close> keeps its lock until the caller is resumed. A cancellation is delivered when its task is resumed
  next; the statement that a cancelled task waits for may still run. Job functions let a cancellation through, the ids that
  \<open>uuid4\<close> gives are new, and the times of a row are left out.
\<close>

section \<open>Rows and paths\<close>

definition INTERRUPTED :: string where "INTERRUPTED = ''interrupted by restart''"
definition SHUTDOWN_REASON :: string where "SHUTDOWN_REASON = ''shutdown''"
definition CANCELLED_REASON :: string where "CANCELLED_REASON = ''cancelled''"

datatype job_status = Queued | Running | Done | Unsuccessful

text \<open>Params and results are the JSON texts of the columns.\<close>

record job_row =
  jr_kind :: string
  jr_status :: job_status
  jr_progress :: real
  jr_message :: "string option"
  jr_params :: string
  jr_result :: "string option"
  jr_error :: "string option"

type_synonym job_table = "string \<Rightarrow> job_row option"

definition live :: "job_row \<Rightarrow> bool" where
  "live r \<longleftrightarrow> jr_status r = Queued \<or> jr_status r = Running"

text \<open>
  \<open>_component\<close>: without a separator \<open>Path(value).name\<close> is the value itself.
\<close>

definition component_ok :: "string \<Rightarrow> bool" where
  "component_ok v \<longleftrightarrow>
     v \<noteq> [] \<and> v \<noteq> ''.'' \<and> v \<noteq> ''..'' \<and> CHR 0x00 \<notin> set v \<and> CHR ''/'' \<notin> set v \<and> CHR 0x5C \<notin> set v"

text \<open>The columns that each \<open>_update\<close> writes.\<close>

datatype job_write = Start | Report real "string option" | Finish string | Fail string | Cancelled string

fun write_row :: "job_write \<Rightarrow> job_row \<Rightarrow> job_row" where
  "write_row Start r = r\<lparr>jr_status := Running, jr_message := Some ''started''\<rparr>"
| "write_row (Report p m) r = r\<lparr>jr_progress := p, jr_message := m\<rparr>"
| "write_row (Finish res) r =
     r\<lparr>jr_status := Done, jr_progress := 1, jr_message := Some ''finished'', jr_result := Some res\<rparr>"
| "write_row (Fail e) r = r\<lparr>jr_status := Unsuccessful, jr_error := Some e\<rparr>"
| "write_row (Cancelled e) r = r\<lparr>jr_status := Unsuccessful, jr_error := Some e\<rparr>"

definition queued_row :: "string \<Rightarrow> string \<Rightarrow> job_row" where
  "queued_row kind params =
     \<lparr>jr_kind = kind, jr_status = Queued, jr_progress = 0, jr_message = None, jr_params = params, jr_result = None,
      jr_error = None\<rparr>"

section \<open>The runner\<close>

text \<open>
  Where a task is: not started, waiting for a slot, making its directory, before and after the statement of an \<open>_update\<close>
  (what follows it is the commit, the reading back and the publishing), in the job function, or over.
\<close>

datatype job_pc = Created | Waiting | Making | Writing job_write | Written job_write | Working | Over

text \<open>A cancellation on its way; the flag says whether a statement in flight may still run.\<close>

datatype cancelling = NotCancelled | Cancelling bool

record job_task =
  tk_pc :: job_pc
  tk_cancel :: cancelling

text \<open>Where a call of \<open>submit\<close> or \<open>delete\<close> is, each with the job's id, or how it ended.\<close>

datatype job_call =
    Inserting string string string
  | Inserted string
  | Looking string
  | Checking string
  | Gathering string
  | Removing string
  | Dropping string
  | Announcing string bool
  | Submitted string
  | Deleted
  | Busy
  | BadId
  | ShutDown
  | Raised

datatype job_message = Update string job_row | Gone string

record runner =
  jn_rows :: job_table
  jn_dirs :: "string set"
  jn_free :: nat
  jn_jobs :: "string \<Rightarrow> job_task option"
  jn_tasks :: "string set"
  jn_kinds :: "string \<Rightarrow> string option"
  jn_reasons :: "string \<Rightarrow> string option option"
  jn_closing :: bool
  jn_calls :: "nat \<Rightarrow> job_call option"
  jn_out :: "job_message list"

text \<open>\<open>restore\<close>; \<open>ids\<close> is the order of the rows.\<close>

definition restored :: "job_row \<Rightarrow> job_row" where
  "restored r = (if live r then r\<lparr>jr_status := Unsuccessful, jr_error := Some INTERRUPTED\<rparr> else r)"

definition restore :: "string list \<Rightarrow> job_table \<Rightarrow> job_table \<times> job_message list" where
  "restore ids rows =
     ((\<lambda>i. map_option restored (rows i)),
      concat (map (\<lambda>i. case rows i of Some r \<Rightarrow> if live r then [Update i (restored r)] else [] | None \<Rightarrow> []) ids))"

definition runner_start :: "nat \<Rightarrow> string list \<Rightarrow> job_table \<Rightarrow> runner" where
  "runner_start max_concurrent ids rows =
     (let (rows', out) = restore ids rows in
      \<lparr>jn_rows = rows', jn_dirs = {}, jn_free = max_concurrent, jn_jobs = (\<lambda>_. None), jn_tasks = {},
       jn_kinds = (\<lambda>_. None), jn_reasons = (\<lambda>_. None), jn_closing = False, jn_calls = (\<lambda>_. None), jn_out = out\<rparr>)"

section \<open>The tasks\<close>

definition set_pc :: "string \<Rightarrow> job_pc \<Rightarrow> cancelling \<Rightarrow> runner \<Rightarrow> runner" where
  "set_pc i pc c s = s\<lparr>jn_jobs := (jn_jobs s)(i \<mapsto> \<lparr>tk_pc = pc, tk_cancel = c\<rparr>)\<rparr>"

text \<open>Whether a task is inside \<open>async with self._sem\<close>.\<close>

fun holds_slot :: "job_pc \<Rightarrow> bool" where
  "holds_slot Making = True"
| "holds_slot Working = True"
| "holds_slot (Writing (Cancelled e)) = False"
| "holds_slot (Writing w) = True"
| "holds_slot (Written (Cancelled e)) = False"
| "holds_slot (Written w) = True"
| "holds_slot _ = False"

definition release :: "job_pc \<Rightarrow> runner \<Rightarrow> runner" where
  "release pc s = (if holds_slot pc then s\<lparr>jn_free := jn_free s + 1\<rparr> else s)"

text \<open>The end of \<open>_run\<close>.\<close>

definition run_ends :: "string \<Rightarrow> runner \<Rightarrow> runner" where
  "run_ends i s =
     (set_pc i Over NotCancelled s)
       \<lparr>jn_tasks := jn_tasks s - {i}, jn_kinds := (jn_kinds s)(i := None), jn_reasons := (jn_reasons s)(i := None)\<rparr>"

definition mark_cancelled :: "string \<Rightarrow> runner \<Rightarrow> runner" where
  "mark_cancelled i s =
     (case jn_reasons s i of
        None \<Rightarrow> set_pc i (Writing (Cancelled CANCELLED_REASON)) NotCancelled s
      | Some (Some reason) \<Rightarrow> set_pc i (Writing (Cancelled reason)) NotCancelled s
      | Some None \<Rightarrow> run_ends i s)"

text \<open>The \<open>CancelledError\<close> at a suspension: a task that has not started never enters \<open>_run\<close>.\<close>

definition deliver_cancel :: "string \<Rightarrow> job_pc \<Rightarrow> runner \<Rightarrow> runner" where
  "deliver_cancel i pc s =
     (case pc of
        Created \<Rightarrow> set_pc i Over NotCancelled s
      | Writing (Cancelled e) \<Rightarrow> run_ends i s
      | Written (Cancelled e) \<Rightarrow> run_ends i s
      | Over \<Rightarrow> s
      | _ \<Rightarrow> mark_cancelled i (release pc s))"

text \<open>After an \<open>_update\<close>.\<close>

definition after_update :: "string \<Rightarrow> job_write \<Rightarrow> runner \<Rightarrow> runner" where
  "after_update i w s =
     (case w of
        Start \<Rightarrow> set_pc i Working NotCancelled s
      | Report p m \<Rightarrow> set_pc i Working NotCancelled s
      | _ \<Rightarrow> run_ends i (release (Written w) s))"

definition resume :: "string \<Rightarrow> job_pc \<Rightarrow> runner \<Rightarrow> runner" where
  "resume i pc s =
     (case pc of
        Created \<Rightarrow>
          if 0 < jn_free s then set_pc i Making NotCancelled (s\<lparr>jn_free := jn_free s - 1\<rparr>)
          else set_pc i Waiting NotCancelled s
      | Waiting \<Rightarrow>
          if 0 < jn_free s then set_pc i Making NotCancelled (s\<lparr>jn_free := jn_free s - 1\<rparr>) else s
      | Making \<Rightarrow> set_pc i (Writing Start) NotCancelled (s\<lparr>jn_dirs := insert i (jn_dirs s)\<rparr>)
      | Written w \<Rightarrow>
          after_update i w
            (case jn_rows s i of None \<Rightarrow> s | Some r \<Rightarrow> s\<lparr>jn_out := jn_out s @ [Update i r]\<rparr>)
      | _ \<Rightarrow> s)"

text \<open>An \<open>OSError\<close> of \<open>mkdir\<close>, and a database error during an \<open>_update\<close>: of a report it is raised in the job function.\<close>

definition task_raises :: "string \<Rightarrow> job_pc \<Rightarrow> runner \<Rightarrow> runner" where
  "task_raises i pc s =
     (case pc of
        Making \<Rightarrow> run_ends i (release pc s)
      | Writing (Report p m) \<Rightarrow> set_pc i Working NotCancelled s
      | Written (Report p m) \<Rightarrow> set_pc i Working NotCancelled s
      | Writing w \<Rightarrow> run_ends i (release pc s)
      | Written w \<Rightarrow> run_ends i (release pc s)
      | _ \<Rightarrow> s)"

section \<open>The calls\<close>

definition set_call :: "nat \<Rightarrow> job_call \<Rightarrow> runner \<Rightarrow> runner" where
  "set_call n c s = s\<lparr>jn_calls := (jn_calls s)(n \<mapsto> c)\<rparr>"

definition submit_call :: "nat \<Rightarrow> string \<Rightarrow> string \<Rightarrow> string \<Rightarrow> runner \<Rightarrow> runner" where
  "submit_call n i kind params s =
     (if jn_closing s then set_call n ShutDown s
      else set_call n (Inserting i kind params) (s\<lparr>jn_kinds := (jn_kinds s)(i \<mapsto> kind)\<rparr>))"

text \<open>The directory is looked up, and the id checked, only when it is about to be removed.\<close>

definition remove_dir :: "nat \<Rightarrow> string \<Rightarrow> runner \<Rightarrow> runner" where
  "remove_dir n i s = set_call n (if component_ok i then Removing i else BadId) s"

definition is_running :: "string \<Rightarrow> runner \<Rightarrow> bool" where
  "is_running i s \<longleftrightarrow> (case jn_rows s i of Some r \<Rightarrow> jr_status r = Running | None \<Rightarrow> False)"

definition cancel_task :: "bool \<Rightarrow> string \<Rightarrow> runner \<Rightarrow> runner" where
  "cancel_task late i s =
     (case jn_jobs s i of
        Some t \<Rightarrow> if tk_pc t = Over then s else set_pc i (tk_pc t) (Cancelling late) s
      | None \<Rightarrow> s)"

definition task_over :: "string \<Rightarrow> runner \<Rightarrow> bool" where
  "task_over i s \<longleftrightarrow> (case jn_jobs s i of Some t \<Rightarrow> tk_pc t = Over | None \<Rightarrow> True)"

fun call_step :: "nat \<Rightarrow> job_call \<Rightarrow> runner \<Rightarrow> runner" where
  "call_step n (Inserting i kind params) s =
     (if jn_rows s i \<noteq> None then set_call n Raised (s\<lparr>jn_kinds := (jn_kinds s)(i := None)\<rparr>)
      else set_call n (Inserted i) (s\<lparr>jn_rows := (jn_rows s)(i \<mapsto> queued_row kind params)\<rparr>))"
| "call_step n (Inserted i) s =
     (case jn_rows s i of
        None \<Rightarrow> set_call n Raised s
      | Some r \<Rightarrow>
          set_call n (Submitted i)
            (set_pc i Created NotCancelled (s\<lparr>jn_out := jn_out s @ [Update i r], jn_tasks := insert i (jn_tasks s)\<rparr>)))"
| "call_step n (Looking i) s =
     (if is_running i s then set_call n Busy s
      else if i \<in> jn_tasks s then set_call n (Checking i) (s\<lparr>jn_tasks := jn_tasks s - {i}\<rparr>)
      else remove_dir n i s)"
| "call_step n (Checking i) s =
     (if is_running i s then set_call n Busy (s\<lparr>jn_tasks := insert i (jn_tasks s)\<rparr>)
      else set_call n (Gathering i) (cancel_task False i (s\<lparr>jn_reasons := (jn_reasons s)(i \<mapsto> None)\<rparr>)))"
| "call_step n (Gathering i) s = (if task_over i s then remove_dir n i s else s)"
| "call_step n (Removing i) s = set_call n (Dropping i) (s\<lparr>jn_dirs := jn_dirs s - {i}\<rparr>)"
| "call_step n (Dropping i) s =
     set_call n (Announcing i (jn_rows s i \<noteq> None)) (s\<lparr>jn_rows := (jn_rows s)(i := None)\<rparr>)"
| "call_step n (Announcing i removed) s =
     set_call n Deleted (if removed then s\<lparr>jn_out := jn_out s @ [Gone i]\<rparr> else s)"
| "call_step n _ s = s"

text \<open>A database error in a call.\<close>

definition call_raises :: "nat \<Rightarrow> job_call \<Rightarrow> runner \<Rightarrow> runner" where
  "call_raises n c s =
     (case c of
        Inserting i kind params \<Rightarrow> set_call n Raised (s\<lparr>jn_kinds := (jn_kinds s)(i := None)\<rparr>)
      | Inserted i \<Rightarrow> set_call n Raised (s\<lparr>jn_kinds := (jn_kinds s)(i := None)\<rparr>)
      | Looking i \<Rightarrow> set_call n Raised s
      | Checking i \<Rightarrow> set_call n Raised s
      | Dropping i \<Rightarrow> set_call n Raised s
      | Announcing i removed \<Rightarrow> set_call n Raised s
      | _ \<Rightarrow> s)"

definition shutdown :: "runner \<Rightarrow> runner" where
  "shutdown s =
     s\<lparr>jn_closing := True,
       jn_reasons := (\<lambda>i. if i \<in> jn_tasks s \<and> jn_reasons s i = None then Some (Some SHUTDOWN_REASON) else jn_reasons s i),
       jn_jobs := (\<lambda>i. case jn_jobs s i of
          Some t \<Rightarrow> if i \<in> jn_tasks s \<and> tk_pc t \<noteq> Over then Some (t\<lparr>tk_cancel := Cancelling True\<rparr>) else Some t
        | None \<Rightarrow> None)\<rparr>"

section \<open>Runs\<close>

datatype job_event =
    CallSubmit nat string string string
  | CallDelete nat string
  | CallStep nat
  | CallRaises nat
  | Resume string
  | Statement string
  | TaskRaises string
  | Reports string real "string option"
  | Returns string "string + string"
  | Shutdown

text \<open>
  A step of a task that is there. The statement of a cancelled task runs only where it was in flight; a job function reports
  and ends, with an error text or a JSON result, only while it runs; \<open>max(0.0, min(1.0, fraction))\<close> is the progress.
\<close>

definition task_event :: "job_event \<Rightarrow> string \<Rightarrow> job_task \<Rightarrow> runner \<Rightarrow> runner" where
  "task_event e i t s =
     (case e of
        Resume _ \<Rightarrow> if tk_cancel t = NotCancelled then resume i (tk_pc t) s else deliver_cancel i (tk_pc t) s
      | Statement _ \<Rightarrow>
          (case tk_pc t of
             Writing w \<Rightarrow>
               if tk_cancel t = Cancelling False then s
               else set_pc i (Written w) (tk_cancel t) (s\<lparr>jn_rows := (jn_rows s)(i := map_option (write_row w) (jn_rows s i))\<rparr>)
           | _ \<Rightarrow> s)
      | TaskRaises _ \<Rightarrow> if tk_cancel t = NotCancelled then task_raises i (tk_pc t) s else s
      | Reports _ p m \<Rightarrow>
          if tk_pc t = Working \<and> tk_cancel t = NotCancelled
          then set_pc i (Writing (Report (max 0 (min 1 p)) m)) NotCancelled s else s
      | Returns _ res \<Rightarrow>
          if tk_pc t = Working \<and> tk_cancel t = NotCancelled
          then set_pc i (Writing (case res of Inl e \<Rightarrow> Fail e | Inr r \<Rightarrow> Finish r)) NotCancelled s else s
      | _ \<Rightarrow> s)"

definition on_task :: "job_event \<Rightarrow> string \<Rightarrow> runner \<Rightarrow> runner" where
  "on_task e i s = (case jn_jobs s i of Some t \<Rightarrow> task_event e i t s | None \<Rightarrow> s)"

fun job_step :: "job_event \<Rightarrow> runner \<Rightarrow> runner" where
  "job_step (CallSubmit n i kind params) s = submit_call n i kind params s"
| "job_step (CallDelete n i) s = set_call n (Looking i) s"
| "job_step (CallStep n) s = (case jn_calls s n of Some c \<Rightarrow> call_step n c s | None \<Rightarrow> s)"
| "job_step (CallRaises n) s = (case jn_calls s n of Some c \<Rightarrow> call_raises n c s | None \<Rightarrow> s)"
| "job_step (Resume i) s = on_task (Resume i) i s"
| "job_step (Statement i) s = on_task (Statement i) i s"
| "job_step (TaskRaises i) s = on_task (TaskRaises i) i s"
| "job_step (Reports i p m) s = on_task (Reports i p m) i s"
| "job_step (Returns i res) s = on_task (Returns i res) i s"
| "job_step Shutdown s = shutdown s"

definition active :: "string \<Rightarrow> runner \<Rightarrow> bool" where
  "active kind s \<longleftrightarrow> Some kind \<in> range (jn_kinds s)"

text \<open>\<open>prune_exports\<close>: the export jobs it deletes; \<open>window_end\<close> is the end of the window in the params, if that can be read.\<close>

definition prune_exports :: "(string \<Rightarrow> real option) \<Rightarrow> real \<Rightarrow> string list \<Rightarrow> job_table \<Rightarrow> string list" where
  "prune_exports window_end ended_by ids rows =
     filter (\<lambda>i. case rows i of
         Some r \<Rightarrow> jr_kind r = ''export'' \<and> jr_status r \<in> {Done, Unsuccessful} \<and>
           (case window_end (jr_params r) of Some t \<Rightarrow> t \<le> ended_by | None \<Rightarrow> False)
       | None \<Rightarrow> False) ids"

section \<open>Orderly runs\<close>

text \<open>The job a call in flight is about.\<close>

fun call_job :: "job_call \<Rightarrow> string option" where
  "call_job (Inserting i kind params) = Some i"
| "call_job (Inserted i) = Some i"
| "call_job (Looking i) = Some i"
| "call_job (Checking i) = Some i"
| "call_job (Gathering i) = Some i"
| "call_job (Removing i) = Some i"
| "call_job (Dropping i) = Some i"
| "call_job (Announcing i removed) = Some i"
| "call_job _ = None"

definition calls_on :: "string \<Rightarrow> runner \<Rightarrow> job_call set" where
  "calls_on i s = {c. \<exists>n. jn_calls s n = Some c \<and> call_job c = Some i}"

text \<open>
  What the callers see to: calls are told apart, an id is new, no two calls on one job are in flight together, \<open>shutdown\<close>
  comes once, and the database does not fail in a call.
\<close>

definition orderly :: "job_event \<Rightarrow> runner \<Rightarrow> bool" where
  "orderly e s \<longleftrightarrow>
     (case e of
        CallSubmit n i kind params \<Rightarrow>
          jn_calls s n = None \<and> calls_on i s = {} \<and> jn_rows s i = None \<and> jn_jobs s i = None \<and> component_ok i
      | CallDelete n i \<Rightarrow> jn_calls s n = None \<and> calls_on i s = {}
      | CallRaises n \<Rightarrow> False
      | Shutdown \<Rightarrow> \<not> jn_closing s
      | _ \<Rightarrow> True)"

fun orderly_run :: "job_event list \<Rightarrow> runner \<Rightarrow> bool" where
  "orderly_run [] s \<longleftrightarrow> True"
| "orderly_run (e # es) s \<longleftrightarrow> orderly e s \<and> orderly_run es (job_step e s)"

section \<open>The invariant\<close>

definition status_of :: "job_row option \<Rightarrow> job_status option" where
  "status_of = map_option jr_status"

text \<open>What the row says while its task is at a point, and what a call in flight relies on.\<close>

fun phase_ok :: "job_pc \<Rightarrow> job_row option \<Rightarrow> bool \<Rightarrow> bool" where
  "phase_ok (Writing (Cancelled e)) r closing \<longleftrightarrow> r \<noteq> None \<and> closing"
| "phase_ok (Written (Cancelled e)) r closing \<longleftrightarrow> status_of r = Some Unsuccessful \<and> closing"
| "phase_ok (Written (Finish x)) r closing \<longleftrightarrow> status_of r = Some Done"
| "phase_ok (Written (Fail x)) r closing \<longleftrightarrow> status_of r = Some Unsuccessful"
| "phase_ok (Written w) r closing \<longleftrightarrow> status_of r = Some Running"
| "phase_ok (Writing Start) r closing \<longleftrightarrow> status_of r = Some Queued"
| "phase_ok (Writing w) r closing \<longleftrightarrow> status_of r = Some Running"
| "phase_ok Working r closing \<longleftrightarrow> status_of r = Some Running"
| "phase_ok Over r closing \<longleftrightarrow> True"
| "phase_ok _ r closing \<longleftrightarrow> status_of r = Some Queued"

definition job_over :: "job_task option \<Rightarrow> bool" where
  "job_over t \<longleftrightarrow> (case t of Some t \<Rightarrow> tk_pc t = Over | None \<Rightarrow> True)"

fun call_ok :: "job_call \<Rightarrow> job_row option \<Rightarrow> job_task option \<Rightarrow> bool \<Rightarrow> string option option \<Rightarrow> bool" where
  "call_ok (Inserting i k p) r t reg why \<longleftrightarrow> r = None \<and> t = None \<and> \<not> reg \<and> component_ok i"
| "call_ok (Inserted i) r t reg why \<longleftrightarrow> status_of r = Some Queued \<and> t = None \<and> \<not> reg \<and> component_ok i"
| "call_ok (Checking i) r t reg why \<longleftrightarrow> t \<noteq> None \<and> \<not> reg"
| "call_ok (Gathering i) r t reg why \<longleftrightarrow>
     t \<noteq> None \<and> \<not> reg \<and> status_of r \<noteq> Some Running \<and> (job_over t \<or> why = Some None \<and> map_option tk_cancel t = Some (Cancelling False))"
| "call_ok (Removing i) r t reg why \<longleftrightarrow> \<not> reg \<and> status_of r \<noteq> Some Running \<and> job_over t"
| "call_ok (Dropping i) r t reg why \<longleftrightarrow> \<not> reg \<and> status_of r \<noteq> Some Running \<and> job_over t"
| "call_ok (Announcing i b) r t reg why \<longleftrightarrow> \<not> reg \<and> r = None \<and> job_over t"
| "call_ok _ r t reg why \<longleftrightarrow> True"

definition task_ok :: "job_task \<Rightarrow> job_row option \<Rightarrow> bool \<Rightarrow> string option option \<Rightarrow> bool \<Rightarrow> job_call set \<Rightarrow> bool" where
  "task_ok t r reg why closing cs \<longleftrightarrow>
     (tk_pc t = Over \<and> tk_cancel t = NotCancelled \<or>
      tk_pc t \<noteq> Over \<and> phase_ok (tk_pc t) r closing \<and> (reg \<or> (\<exists>i. Checking i \<in> cs \<or> Gathering i \<in> cs)) \<and>
      (tk_cancel t = Cancelling True \<longrightarrow> closing \<and> (\<forall>e. tk_pc t \<notin> {Writing (Cancelled e), Written (Cancelled e)})) \<and>
      (tk_cancel t = Cancelling False \<longrightarrow> why = Some None) \<and> (why = Some None \<longrightarrow> (\<exists>i. Gathering i \<in> cs)))"

definition id_ok :: "string \<Rightarrow> runner \<Rightarrow> bool" where
  "id_ok i s \<longleftrightarrow>
     (jn_jobs s i = None \<longrightarrow> i \<notin> jn_tasks s \<and> jn_reasons s i = None) \<and>
     (\<forall>c \<in> calls_on i s. call_ok c (jn_rows s i) (jn_jobs s i) (i \<in> jn_tasks s) (jn_reasons s i)) \<and>
     (\<forall>t. jn_jobs s i = Some t \<longrightarrow>
        component_ok i \<and> task_ok t (jn_rows s i) (i \<in> jn_tasks s) (jn_reasons s i) (jn_closing s) (calls_on i s))"

definition calls_distinct :: "runner \<Rightarrow> bool" where
  "calls_distinct s \<longleftrightarrow>
     (\<forall>m n c d. jn_calls s m = Some c \<longrightarrow> jn_calls s n = Some d \<longrightarrow> call_job c \<noteq> None \<longrightarrow> call_job c = call_job d \<longrightarrow> m = n)"

definition holders :: "runner \<Rightarrow> string set" where
  "holders s = {i. \<exists>t. jn_jobs s i = Some t \<and> holds_slot (tk_pc t)}"

definition slots_ok :: "nat \<Rightarrow> runner \<Rightarrow> bool" where
  "slots_ok m s \<longleftrightarrow> finite (holders s) \<and> jn_free s + card (holders s) = m"

definition runner_ok :: "nat \<Rightarrow> runner \<Rightarrow> bool" where
  "runner_ok m s \<longleftrightarrow> slots_ok m s \<and> calls_distinct s \<and> (\<forall>i. id_ok i s)"

section \<open>Steps touch one job\<close>

lemmas runner_defs = set_pc_def release_def run_ends_def mark_cancelled_def deliver_cancel_def after_update_def resume_def
  task_raises_def set_call_def submit_call_def remove_dir_def cancel_task_def

lemma calls_on_cong: "jn_calls s = jn_calls s' \<Longrightarrow> calls_on i s = calls_on i s'"
  by (simp add: calls_on_def)

lemma calls_distinct_cong: "jn_calls s = jn_calls s' \<Longrightarrow> calls_distinct s = calls_distinct s'"
  by (simp add: calls_distinct_def)

text \<open>All that \<open>id_ok\<close> looks at.\<close>

definition same_job :: "string \<Rightarrow> runner \<Rightarrow> runner \<Rightarrow> bool" where
  "same_job i s s' \<longleftrightarrow>
     jn_rows s' i = jn_rows s i \<and> jn_jobs s' i = jn_jobs s i \<and> (i \<in> jn_tasks s' \<longleftrightarrow> i \<in> jn_tasks s) \<and>
     jn_reasons s' i = jn_reasons s i \<and> jn_closing s' = jn_closing s \<and> calls_on i s' = calls_on i s"

lemma same_job_ok: "same_job i s s' \<Longrightarrow> id_ok i s \<Longrightarrow> id_ok i s'"
  by (simp add: same_job_def id_ok_def)

lemma calls_on_set_call:
  assumes "calls_distinct s" "jn_calls s n = Some c" "call_job c = Some i" "call_job c' = Some i \<or> call_job c' = None"
    "jn_calls s' = (jn_calls s)(n \<mapsto> c')"
  shows "calls_on j s' = (if j \<noteq> i then calls_on j s else if call_job c' = None then {} else {c'})" "calls_distinct s'"
    "calls_on i s = {c}"
proof -
  have u: "m = n" if "jn_calls s m = Some d" "call_job d = Some i" for m d
    using assms(1) [unfolded calls_distinct_def, rule_format, of m d n c] assms(2,3) that by simp
  have nu: "call_job d \<noteq> Some i" if "jn_calls s m = Some d" "m \<noteq> n" for m d
    using u that by blast
  have mem: "x \<in> calls_on k s' \<longleftrightarrow> call_job x = Some k \<and> (c' = x \<or> (\<exists>m. m \<noteq> n \<and> jn_calls s m = Some x))" for x k
    by (auto simp: calls_on_def assms(5) split: if_splits)
  have old: "x \<in> calls_on k s \<longleftrightarrow> call_job x = Some k \<and> (c = x \<or> (\<exists>m. m \<noteq> n \<and> jn_calls s m = Some x))" for x k
    using assms(2) by (auto simp: calls_on_def) (metis option.inject)
  show "calls_on j s' = (if j \<noteq> i then calls_on j s else if call_job c' = None then {} else {c'})"
  proof (cases "j = i")
    case True
    then show ?thesis using mem nu assms(4) by auto
  next
    case False
    then show ?thesis using mem old assms(3,4) by auto
  qed
  show "calls_on i s = {c}" using old nu assms(3) by auto
  show "calls_distinct s'"
    unfolding calls_distinct_def
  proof (intro allI impI)
    fix a b d e
    assume h: "jn_calls s' a = Some d" "jn_calls s' b = Some e" "call_job d \<noteq> None" "call_job d = call_job e"
    show "a = b"
      using h assms u [of a d] u [of b e] unfolding calls_distinct_def by (auto split: if_splits)
  qed
qed

lemma calls_on_new_call:
  assumes "calls_distinct s" "jn_calls s n = None" "call_job c' = Some i \<and> calls_on i s = {} \<or> call_job c' = None"
    "jn_calls s' = (jn_calls s)(n \<mapsto> c')"
  shows "calls_on j s' = (if call_job c' = Some j then {c'} else calls_on j s)" "calls_distinct s'"
proof -
  show "calls_on j s' = (if call_job c' = Some j then {c'} else calls_on j s)"
    using assms(2-4) by (auto simp: calls_on_def split: if_splits) (metis option.distinct(1))+
  show "calls_distinct s'"
    unfolding calls_distinct_def
  proof (intro allI impI)
    fix a b d e
    assume h: "jn_calls s' a = Some d" "jn_calls s' b = Some e" "call_job d \<noteq> None" "call_job d = call_job e"
    have "call_job x \<noteq> Some i" if "jn_calls s k = Some x" "call_job c' = Some i" for k x
      using assms(3) that by (auto simp: calls_on_def)
    then show "a = b" using h assms unfolding calls_distinct_def by (auto split: if_splits)
  qed
qed

section \<open>The steps of a task\<close>

lemma task_event_frame:
  "jn_calls (task_event e i t s) = jn_calls s" "jn_closing (task_event e i t s) = jn_closing s"
  "j \<noteq> i \<Longrightarrow> jn_rows (task_event e i t s) j = jn_rows s j" "j \<noteq> i \<Longrightarrow> jn_jobs (task_event e i t s) j = jn_jobs s j"
  "j \<noteq> i \<Longrightarrow> (j \<in> jn_tasks (task_event e i t s) \<longleftrightarrow> j \<in> jn_tasks s)"
  "j \<noteq> i \<Longrightarrow> jn_reasons (task_event e i t s) j = jn_reasons s j"
  by (simp_all add: task_event_def runner_defs split: job_event.split job_pc.split job_write.split option.split)

lemma task_event_same_job: "j \<noteq> i \<Longrightarrow> same_job j s (task_event e i t s)"
  by (simp add: same_job_def task_event_frame calls_on_cong [OF task_event_frame(1)])

lemma slots_update:
  assumes "slots_ok m s" "jn_jobs s' = (jn_jobs s)(i \<mapsto> t')"
    "jn_free s' + (if holds_slot (tk_pc t') then 1 else 0) = jn_free s + (if i \<in> holders s then 1 else 0)"
  shows "slots_ok m s'"
proof -
  have h: "holders s' = (if holds_slot (tk_pc t') then insert i (holders s) else holders s - {i})"
    using assms(2) by (auto simp: holders_def)
  have f: "finite (holders s)" using assms(1) by (simp add: slots_ok_def)
  have "card (insert i (holders s)) = card (holders s) + (if i \<in> holders s then 0 else 1)"
    using f by (simp add: insert_absorb)
  moreover have "card (holders s - {i}) + (if i \<in> holders s then 1 else 0) = card (holders s)"
    using f card_gt_0_iff [of "holders s"] by (auto simp: card_Diff_singleton_if)
  ultimately show ?thesis using assms(1,3) f by (auto simp: slots_ok_def h split: if_splits)
qed

definition balance :: "string \<Rightarrow> runner \<Rightarrow> nat" where
  "balance i s = jn_free s + (case jn_jobs s i of Some t \<Rightarrow> if holds_slot (tk_pc t) then 1 else 0 | None \<Rightarrow> 0)"

lemma balance_simps:
  "balance i (set_pc i pc c s) = jn_free s + (if holds_slot pc then 1 else 0)"
  "balance i (run_ends i s) = jn_free s" "balance i (mark_cancelled i s) = jn_free s"
  "jn_free (release pc s) = jn_free s + (if holds_slot pc then 1 else 0)"
  "balance i (s\<lparr>jn_out := x\<rparr>) = balance i s" "jn_free (s\<lparr>jn_out := x\<rparr>) = jn_free s"
  by (auto simp: balance_def runner_defs split: option.split)

lemma task_event_balance:
  assumes "jn_jobs s i = Some t" shows "balance i (task_event e i t s) = balance i s"
proof -
  have b: "balance i s = jn_free s + (if holds_slot (tk_pc t) then 1 else 0)" using assms by (simp add: balance_def)
  have w: "holds_slot (Written w) = holds_slot (Writing w)" for w by (cases w) simp_all
  have "balance i (resume i (tk_pc t) s) = balance i s"
    using b by (simp add: resume_def after_update_def balance_simps split: job_pc.split job_write.split option.split)
  moreover have "balance i (deliver_cancel i (tk_pc t) s) = balance i s"
    using b by (simp add: deliver_cancel_def balance_simps split: job_pc.split job_write.split)
  moreover have "balance i (task_raises i (tk_pc t) s) = balance i s"
    using b by (simp add: task_raises_def balance_simps split: job_pc.split job_write.split)
  ultimately show ?thesis
    using b w by (simp add: task_event_def balance_simps split: job_event.split job_pc.split sum.split)
qed

lemma task_event_jobs:
  assumes "jn_jobs s i = Some t"
  shows "\<exists>t'. jn_jobs (task_event e i t s) = (jn_jobs s)(i \<mapsto> t')"
proof -
  have "jn_jobs (task_event e i t s) i \<noteq> None"
    using assms by (simp add: task_event_def runner_defs split: job_event.split job_pc.split job_write.split option.split)
  then obtain t' where t': "jn_jobs (task_event e i t s) i = Some t'" by blast
  have "jn_jobs (task_event e i t s) = (jn_jobs s)(i \<mapsto> t')"
    using t' task_event_frame(4) by (auto simp: fun_eq_iff)
  then show ?thesis ..
qed

lemma task_event_slots:
  assumes "jn_jobs s i = Some t" "slots_ok m s"
  shows "slots_ok m (task_event e i t s)"
proof -
  obtain t' where t': "jn_jobs (task_event e i t s) = (jn_jobs s)(i \<mapsto> t')" using task_event_jobs [OF assms(1)] by blast
  have "i \<in> holders s \<longleftrightarrow> holds_slot (tk_pc t)" using assms(1) by (simp add: holders_def)
  then show ?thesis using slots_update [OF assms(2) t'] task_event_balance [OF assms(1), of e] t' assms(1)
    by (simp add: balance_def)
qed

lemma call_ok_task:
  assumes "call_ok c r (Some t) reg why"
    "tk_pc t = Over \<Longrightarrow> t' = t \<and> r' = r \<and> reg' = reg \<and> why' = why" "reg' \<Longrightarrow> reg"
    "status_of r' = Some Running \<Longrightarrow> status_of r = Some Running \<or> tk_cancel t \<noteq> Cancelling False"
    "tk_cancel t = Cancelling False \<Longrightarrow> why = Some None \<Longrightarrow>
       tk_pc t' = Over \<or> why' = Some None \<and> tk_cancel t' = Cancelling False"
  shows "call_ok c r' (Some t') reg' why'"
  using assms by (cases c) (auto simp: job_over_def)

lemma task_over_stays:
  assumes "tk_pc t = Over" "tk_cancel t = NotCancelled" shows "task_event e i t s = s"
  using assms by (simp add: task_event_def runner_defs split: job_event.split)

lemma task_ok_over: "task_ok t r reg why closing cs \<Longrightarrow> tk_pc t = Over \<Longrightarrow> tk_cancel t = NotCancelled"
  by (auto simp: task_ok_def)

text \<open>What one step does to the row, the task and the entries of its job.\<close>

lemma task_event_registered: "i \<in> jn_tasks (task_event e i t s) \<Longrightarrow> i \<in> jn_tasks s"
  by (auto simp: task_event_def runner_defs split: job_event.splits job_pc.splits job_write.splits option.splits if_splits sum.splits)

lemma task_event_row:
  "jn_rows (task_event e i t s) i =
     (case e of
        Statement _ \<Rightarrow>
          (case tk_pc t of
             Writing w \<Rightarrow> if tk_cancel t = Cancelling False then jn_rows s i else map_option (write_row w) (jn_rows s i)
           | _ \<Rightarrow> jn_rows s i)
      | _ \<Rightarrow> jn_rows s i)"
  by (simp add: task_event_def runner_defs split: job_event.split job_pc.split job_write.split option.split)

lemma task_event_cancelled:
  assumes "tk_cancel t = Cancelling False" "jn_reasons s i = Some None" "jn_jobs s i = Some t" "tk_pc t \<noteq> Over"
  shows "task_event e i t s = s \<or> (\<exists>t'. jn_jobs (task_event e i t s) i = Some t' \<and> tk_pc t' = Over)"
  using assms by (simp add: task_event_def runner_defs split: job_event.split job_pc.split job_write.split option.split)

lemma phase_write: "phase_ok (Writing w) r closing \<Longrightarrow> phase_ok (Written w) (map_option (write_row w) r) closing"
  by (cases w) (auto simp: status_of_def)

definition tok :: "string \<Rightarrow> job_call set \<Rightarrow> runner \<Rightarrow> bool" where
  "tok i cs s \<longleftrightarrow>
     (case jn_jobs s i of
        Some t \<Rightarrow> task_ok t (jn_rows s i) (i \<in> jn_tasks s) (jn_reasons s i) (jn_closing s) cs | None \<Rightarrow> True)"

lemma release_simps [simp]:
  "jn_rows (release pc s) = jn_rows s" "jn_tasks (release pc s) = jn_tasks s" "jn_reasons (release pc s) = jn_reasons s"
  "jn_closing (release pc s) = jn_closing s" "jn_jobs (release pc s) = jn_jobs s"
  by (simp_all add: release_def)

lemma tok_simps:
  "tok i cs (run_ends i s)" "tok i cs (release pc s) = tok i cs s" "tok i cs (s\<lparr>jn_out := x\<rparr>) = tok i cs s"
  "tok i cs (set_pc i pc c s) \<longleftrightarrow>
     task_ok \<lparr>tk_pc = pc, tk_cancel = c\<rparr> (jn_rows s i) (i \<in> jn_tasks s) (jn_reasons s i) (jn_closing s) cs"
  by (simp_all add: tok_def run_ends_def set_pc_def task_ok_def split: option.split)

lemma tok_mark_cancelled:
  "jn_reasons s i = Some None \<or> jn_closing s \<and> jn_rows s i \<noteq> None \<and> (i \<in> jn_tasks s \<or> (\<exists>j. Checking j \<in> cs \<or> Gathering j \<in> cs)) \<Longrightarrow>
   tok i cs (mark_cancelled i s)"
  by (auto simp: mark_cancelled_def tok_simps task_ok_def split: option.split)

lemma tok_resume:
  assumes "tok i cs s" "jn_jobs s i = Some t" "tk_cancel t = NotCancelled" "tk_pc t = pc"
  shows "tok i cs (resume i pc s)"
proof -
  have ok: "task_ok t (jn_rows s i) (i \<in> jn_tasks s) (jn_reasons s i) (jn_closing s) cs"
    using assms(1,2) by (simp add: tok_def)
  show ?thesis
  proof (cases pc)
    case (Written w)
    then show ?thesis using ok assms(3,4)
      by (cases w) (auto simp: resume_def after_update_def tok_simps task_ok_def split: option.split)
  qed (use ok assms in \<open>auto simp: resume_def tok_simps task_ok_def\<close>)
qed

lemma tok_deliver_cancel:
  assumes "tok i cs s" "jn_jobs s i = Some t" "tk_cancel t \<noteq> NotCancelled" "tk_pc t = pc"
  shows "tok i cs (deliver_cancel i pc s)"
proof -
  have ok: "task_ok t (jn_rows s i) (i \<in> jn_tasks s) (jn_reasons s i) (jn_closing s) cs"
    using assms(1,2) by (simp add: tok_def)
  have n: "pc \<noteq> Over" using ok assms(3,4) by (auto simp: task_ok_def)
  have row: "jn_rows s i \<noteq> None"
    using ok n assms(4) by (cases "(pc, jn_rows s i, jn_closing s)" rule: phase_ok.cases) (auto simp: task_ok_def status_of_def)
  have "jn_reasons s i = Some None \<or> jn_closing s"
    using ok n assms(3,4) by (cases "tk_cancel t") (auto simp: task_ok_def)
  then have "tok i cs (mark_cancelled i (release pc s))"
    using row ok n assms(4) by (intro tok_mark_cancelled) (auto simp: task_ok_def)
  then show ?thesis
    by (auto simp: deliver_cancel_def tok_simps task_ok_def assms(1) split: job_pc.split job_write.split)
qed

lemma tok_raises:
  assumes "tok i cs s" "jn_jobs s i = Some t" "tk_cancel t = NotCancelled" "tk_pc t = pc"
  shows "tok i cs (task_raises i pc s)"
proof -
  have ok: "task_ok t (jn_rows s i) (i \<in> jn_tasks s) (jn_reasons s i) (jn_closing s) cs"
    using assms(1,2) by (simp add: tok_def)
  have report: "tok i cs (set_pc i Working NotCancelled s)" if "pc = Writing (Report p m) \<or> pc = Written (Report p m)" for p m
    using that ok assms(4) by (auto simp: tok_simps task_ok_def)
  show ?thesis
    using report assms(1) by (auto simp: task_raises_def tok_simps split: job_pc.split job_write.split)
qed

lemma tok_event:
  assumes "tok i cs s" "jn_jobs s i = Some t"
  shows "tok i cs (task_event e i t s)"
proof -
  have ok: "task_ok t (jn_rows s i) (i \<in> jn_tasks s) (jn_reasons s i) (jn_closing s) cs"
    using assms(1,2) by (simp add: tok_def)
  show ?thesis
  proof (cases e)
    case (Resume j)
    then show ?thesis using tok_resume [OF assms _ refl] tok_deliver_cancel [OF assms _ refl] by (simp add: task_event_def)
  next
    case (Statement j)
    show ?thesis
    proof (cases "tk_pc t")
      case (Writing w)
      then have "phase_ok (Written w) (map_option (write_row w) (jn_rows s i)) (jn_closing s)"
        using ok by (intro phase_write) (auto simp: task_ok_def)
      then show ?thesis using Statement Writing ok assms(1) by (auto simp: task_event_def tok_simps task_ok_def)
    qed (use assms Statement in \<open>simp_all add: task_event_def\<close>)
  next
    case (TaskRaises j)
    then show ?thesis using tok_raises [OF assms _ refl] assms(1) by (simp add: task_event_def)
  qed (use ok assms(1) in \<open>auto simp: task_event_def tok_simps task_ok_def split: sum.split\<close>)
qed

lemma task_event_ok:
  assumes "id_ok i s" "jn_jobs s i = Some t" "s' = task_event e i t s"
  shows "id_ok i s'"
proof -
  let ?cs = "calls_on i s"
  have cs: "calls_on i s' = ?cs" using calls_on_cong [of s' s] task_event_frame(1) assms(3) by simp
  have ok: "task_ok t (jn_rows s i) (i \<in> jn_tasks s) (jn_reasons s i) (jn_closing s) ?cs" and c: "component_ok i"
    using assms(1,2) by (simp_all add: id_ok_def)
  obtain t' where t': "jn_jobs s' i = Some t'" using task_event_jobs [OF assms(2), of e] assms(3) by auto
  have "tok i ?cs s'" using tok_event [of i ?cs s t e] ok assms(2,3) by (simp add: tok_def)
  then have t: "task_ok t' (jn_rows s' i) (i \<in> jn_tasks s') (jn_reasons s' i) (jn_closing s') ?cs"
    using t' by (simp add: tok_def)
  have "call_ok d (jn_rows s' i) (Some t') (i \<in> jn_tasks s') (jn_reasons s' i)" if "d \<in> ?cs" for d
  proof (rule call_ok_task [where t = t])
    show "call_ok d (jn_rows s i) (Some t) (i \<in> jn_tasks s) (jn_reasons s i)"
      using assms(1,2) that by (simp add: id_ok_def)
    show "t' = t \<and> jn_rows s' i = jn_rows s i \<and> (i \<in> jn_tasks s') = (i \<in> jn_tasks s) \<and> jn_reasons s' i = jn_reasons s i"
      if "tk_pc t = Over"
      using task_over_stays [OF that task_ok_over [OF ok that]] assms(2,3) t' by auto
    show "i \<in> jn_tasks s" if "i \<in> jn_tasks s'" using that task_event_registered assms(3) by simp
    show "status_of (jn_rows s i) = Some Running \<or> tk_cancel t \<noteq> Cancelling False" if "status_of (jn_rows s' i) = Some Running"
      using that task_event_row [of e i t s] assms(3) by (auto split: job_event.splits job_pc.splits)
    show "tk_pc t' = Over \<or> jn_reasons s' i = Some None \<and> tk_cancel t' = Cancelling False"
      if "tk_cancel t = Cancelling False" "jn_reasons s i = Some None"
    proof (cases "tk_pc t = Over")
      case True
      then show ?thesis using task_ok_over [OF ok] that by simp
    next
      case False
      then show ?thesis using task_event_cancelled [OF that assms(2) False, of e] t' assms(2,3) that by auto
    qed
  qed
  then show ?thesis using t t' c cs by (simp add: id_ok_def)
qed

section \<open>The steps of a call\<close>

lemma call_step_frame:
  assumes "call_job c = Some i" "jn_calls s n = Some c"
  shows "\<exists>c'. jn_calls (call_step n c s) = (jn_calls s)(n \<mapsto> c') \<and> (call_job c' = Some i \<or> call_job c' = None)"
    "jn_closing (call_step n c s) = jn_closing s"
    "j \<noteq> i \<Longrightarrow> jn_rows (call_step n c s) j = jn_rows s j" "j \<noteq> i \<Longrightarrow> jn_jobs (call_step n c s) j = jn_jobs s j"
    "j \<noteq> i \<Longrightarrow> (j \<in> jn_tasks (call_step n c s) \<longleftrightarrow> j \<in> jn_tasks s)"
    "j \<noteq> i \<Longrightarrow> jn_reasons (call_step n c s) j = jn_reasons s j"
proof -
  have "(jn_calls s)(n \<mapsto> c) = jn_calls s" using assms(2) by (simp add: fun_upd_idem)
  then show "\<exists>c'. jn_calls (call_step n c s) = (jn_calls s)(n \<mapsto> c') \<and> (call_job c' = Some i \<or> call_job c' = None)"
    using assms(1)
    by (cases c) (auto simp: runner_defs split: option.split intro: exI [of _ "Gathering i"] exI [of _ "Removing i"])
qed (use assms(1) in \<open>cases c; simp add: runner_defs split: option.split\<close>)+

lemma call_step_same_job:
  assumes "call_job c = Some i" "jn_calls s n = Some c" "calls_distinct s" "j \<noteq> i"
  shows "same_job j s (call_step n c s)"
proof -
  obtain c' where c': "jn_calls (call_step n c s) = (jn_calls s)(n \<mapsto> c')" "call_job c' = Some i \<or> call_job c' = None"
    using call_step_frame(1) [OF assms(1,2)] by blast
  show ?thesis using calls_on_set_call(1) [OF assms(3,2,1) c'(2,1), of j] call_step_frame(2-) [OF assms(1,2)] assms(4)
    by (simp add: same_job_def)
qed

lemma call_step_holders:
  assumes "id_ok i s" "call_job c = Some i" "jn_calls s n = Some c"
  shows "holders (call_step n c s) = holders s \<and> jn_free (call_step n c s) = jn_free s"
proof -
  have "c \<in> calls_on i s" using assms(2,3) by (auto simp: calls_on_def)
  then have "call_ok c (jn_rows s i) (jn_jobs s i) (i \<in> jn_tasks s) (jn_reasons s i)" using assms(1) by (simp add: id_ok_def)
  then show ?thesis using assms(2)
    by (cases c) (auto simp: holders_def runner_defs split: option.splits if_splits)
qed

lemma call_step_id_ok:
  assumes ok: "id_ok i s" and c: "call_job c = Some i" "jn_calls s n = Some c" "calls_distinct s"
  shows "id_ok i (call_step n c s)"
proof -
  let ?s = "call_step n c s"
  obtain c' where c': "jn_calls ?s = (jn_calls s)(n \<mapsto> c')" "call_job c' = Some i \<or> call_job c' = None"
    using call_step_frame(1) [OF c(1,2)] by blast
  note on = calls_on_set_call(1) [OF c(3,2,1) c'(2,1), of i] calls_on_set_call(3) [OF c(3,2,1) c'(2,1)]
  have n: "jn_calls ?s n = Some c'" using c'(1) by simp
  have co: "call_ok c (jn_rows s i) (jn_jobs s i) (i \<in> jn_tasks s) (jn_reasons s i)"
    and reg: "jn_jobs s i = None \<Longrightarrow> i \<notin> jn_tasks s \<and> jn_reasons s i = None"
    and tt: "\<And>t. jn_jobs s i = Some t \<Longrightarrow>
      component_ok i \<and> task_ok t (jn_rows s i) (i \<in> jn_tasks s) (jn_reasons s i) (jn_closing s) {c}"
    using ok on(2) by (simp_all add: id_ok_def)
  have intro: "id_ok i ?s"
    if "jn_jobs ?s i = None \<Longrightarrow> i \<notin> jn_tasks ?s \<and> jn_reasons ?s i = None"
      "call_job c' \<noteq> None \<Longrightarrow> call_ok c' (jn_rows ?s i) (jn_jobs ?s i) (i \<in> jn_tasks ?s) (jn_reasons ?s i)"
      "\<And>t. jn_jobs ?s i = Some t \<Longrightarrow> component_ok i \<and>
        task_ok t (jn_rows ?s i) (i \<in> jn_tasks ?s) (jn_reasons ?s i) (jn_closing ?s) (if call_job c' = None then {} else {c'})"
    using that on(1) by (auto simp: id_ok_def)
  have over: "task_ok t r reg' why closing cs" if "jn_jobs s i = Some t" "job_over (jn_jobs s i)" for t r reg' why closing cs
    using tt [OF that(1)] that by (auto simp: task_ok_def job_over_def)
  have removes: "id_ok i ?s" if "?s = remove_dir n i s" "job_over (jn_jobs s i)" "i \<notin> jn_tasks s" "\<not> is_running i s"
  proof -
    have c'': "c' = (if component_ok i then Removing i else BadId)" using n that(1) by (simp add: runner_defs)
    have "status_of (jn_rows s i) \<noteq> Some Running" using that(4) by (auto simp: is_running_def status_of_def)
    then show ?thesis
      using that c'' over tt reg by (intro intro) (auto simp: runner_defs split: if_splits)
  qed
  show ?thesis
  proof (cases c)
    case (Inserting j kind params)
    then have "j = i" using c(1) by simp
    then show ?thesis using co n on reg Inserting by (auto simp: id_ok_def runner_defs queued_row_def status_of_def)
  next
    case (Inserted j)
    then have "j = i" using c(1) by simp
    then show ?thesis using co n on reg Inserted
      by (auto simp: id_ok_def runner_defs task_ok_def status_of_def split: option.splits)
  next
    case (Looking j)
    then have j: "j = i" using c(1) by simp
    consider "is_running i s" | "\<not> is_running i s" "i \<in> jn_tasks s" | "\<not> is_running i s" "i \<notin> jn_tasks s" by blast
    then show ?thesis
    proof cases
      case 1
      then have "?s = set_call n Busy s" using Looking j by simp
      then show ?thesis using n reg tt Looking by (intro intro) (auto simp: set_call_def task_ok_def)
    next
      case 2
      then have "?s = set_call n (Checking i) (s\<lparr>jn_tasks := jn_tasks s - {i}\<rparr>)" using Looking j by simp
      moreover have "jn_jobs s i \<noteq> None" using reg 2(2) by blast
      ultimately show ?thesis using n tt 2 Looking by (intro intro) (auto simp: set_call_def task_ok_def)
    next
      case 3
      have "job_over (jn_jobs s i)"
        using tt 3(2) Looking by (auto simp: job_over_def task_ok_def split: option.split)
      then show ?thesis using 3 Looking j by (intro removes) simp_all
    qed
  next
    case (Checking j)
    then have j: "j = i" using c(1) by simp
    have cc: "jn_jobs s i \<noteq> None" "i \<notin> jn_tasks s" using co Checking by simp_all
    show ?thesis
    proof (cases "is_running i s")
      case True
      then have "?s = set_call n Busy (s\<lparr>jn_tasks := insert i (jn_tasks s)\<rparr>)" using Checking j by simp
      then show ?thesis using n cc tt Checking by (intro intro) (auto simp: set_call_def task_ok_def)
    next
      case False
      obtain t where t: "jn_jobs s i = Some t" using cc by blast
      have st: "status_of (jn_rows s i) \<noteq> Some Running" using False by (auto simp: is_running_def status_of_def)
      have "?s = set_call n (Gathering i) (cancel_task False i (s\<lparr>jn_reasons := (jn_reasons s)(i \<mapsto> None)\<rparr>))"
        using False Checking j by simp
      then show ?thesis using n cc tt [OF t] t st
        by (intro intro) (auto simp: set_call_def cancel_task_def set_pc_def task_ok_def job_over_def split: if_splits)
    qed
  next
    case (Gathering j)
    then have j: "j = i" using c(1) by simp
    show ?thesis
    proof (cases "task_over i s")
      case True
      then have o: "job_over (jn_jobs s i)" by (simp add: task_over_def job_over_def)
      have "\<not> is_running i s" using co Gathering by (auto simp: is_running_def status_of_def split: option.splits)
      then show ?thesis using o True Gathering j co by (intro removes) simp_all
    next
      case False
      then show ?thesis using ok Gathering j by simp
    qed
  next
    case (Removing j)
    then have j: "j = i" using c(1) by simp
    have s': "?s = set_call n (Dropping i) (s\<lparr>jn_dirs := jn_dirs s - {i}\<rparr>)" using Removing j by simp
    then have c'': "c' = Dropping i" using n by (simp add: set_call_def)
    show ?thesis using co reg over tt Removing unfolding s' c''
      by (intro intro [unfolded s' c'']) (simp_all add: set_call_def)
  next
    case (Dropping j)
    then have j: "j = i" using c(1) by simp
    have s': "?s = set_call n (Announcing i (jn_rows s i \<noteq> None)) (s\<lparr>jn_rows := (jn_rows s)(i := None)\<rparr>)"
      using Dropping j by simp
    then have c'': "c' = Announcing i (jn_rows s i \<noteq> None)" using n by (simp add: set_call_def)
    show ?thesis using co reg over tt Dropping unfolding s' c''
      by (intro intro [unfolded s' c'']) (simp_all add: set_call_def)
  next
    case (Announcing j b)
    then have j: "j = i" using c(1) by simp
    have s': "?s = set_call n Deleted (if b then s\<lparr>jn_out := jn_out s @ [Gone i]\<rparr> else s)" using Announcing j by simp
    then have c'': "c' = Deleted" using n by (simp add: set_call_def)
    show ?thesis using co reg over tt Announcing unfolding s' c''
      by (intro intro [unfolded s' c'']) (cases b; simp add: set_call_def)+
  qed (use c(1) in simp_all)
qed

section \<open>The invariant holds\<close>

lemma shutdown_id_ok:
  assumes "id_ok i s" "\<not> jn_closing s" shows "id_ok i (shutdown s)"
proof -
  have cs: "calls_on i (shutdown s) = calls_on i s" by (rule calls_on_cong) (simp add: shutdown_def)
  let ?t' = "\<lambda>t. if i \<in> jn_tasks s \<and> tk_pc t \<noteq> Over then t\<lparr>tk_cancel := Cancelling True\<rparr> else t"
  have parts: "jn_rows (shutdown s) = jn_rows s" "jn_tasks (shutdown s) = jn_tasks s" "jn_closing (shutdown s)"
    "jn_jobs (shutdown s) i = map_option ?t' (jn_jobs s i)"
    "jn_reasons (shutdown s) i = jn_reasons s i \<or> i \<in> jn_tasks s \<and> jn_reasons s i = None"
    "jn_reasons (shutdown s) i = Some None \<longleftrightarrow> jn_reasons s i = Some None"
    by (auto simp: shutdown_def split: option.split)
  have over: "job_over (map_option ?t' x) = job_over x" for x by (auto simp: job_over_def split: option.split)
  have "call_ok c (jn_rows s i) (map_option ?t' (jn_jobs s i)) (i \<in> jn_tasks s) (jn_reasons (shutdown s) i)"
    if "c \<in> calls_on i s" for c
  proof -
    have "call_ok c (jn_rows s i) (jn_jobs s i) (i \<in> jn_tasks s) (jn_reasons s i)" using assms that by (simp add: id_ok_def)
    then show ?thesis using over parts(5) by (cases c) (auto split: if_splits)
  qed
  moreover have "task_ok (?t' t) (jn_rows s i) (i \<in> jn_tasks s) (jn_reasons (shutdown s) i) True (calls_on i s)"
    if t: "jn_jobs s i = Some t" for t
  proof -
    have ok: "task_ok t (jn_rows s i) (i \<in> jn_tasks s) (jn_reasons s i) (jn_closing s) (calls_on i s)"
      using assms t by (simp add: id_ok_def)
    have "phase_ok (tk_pc t) (jn_rows s i) (jn_closing s) \<Longrightarrow>
        phase_ok (tk_pc t) (jn_rows s i) True \<and> (\<forall>e. tk_pc t \<notin> {Writing (Cancelled e), Written (Cancelled e)})"
      using assms(2) by (cases "(tk_pc t, jn_rows s i, jn_closing s)" rule: phase_ok.cases) auto
    then show ?thesis using ok parts(5,6) by (auto simp: task_ok_def)
  qed
  ultimately show ?thesis using assms parts by (auto simp: id_ok_def cs)
qed

lemma shutdown_ok:
  assumes ok: "runner_ok m s" and "\<not> jn_closing s" shows "runner_ok m (shutdown s)"
proof -
  have "holders (shutdown s) = holders s" by (auto simp: holders_def shutdown_def split: option.splits if_splits)
  moreover have "jn_free (shutdown s) = jn_free s" "jn_calls (shutdown s) = jn_calls s" by (simp_all add: shutdown_def)
  ultimately show ?thesis using ok shutdown_id_ok [OF _ assms(2)] calls_distinct_cong [of "shutdown s" s]
    by (simp add: runner_ok_def slots_ok_def)
qed

lemma new_call_ok:
  assumes ok: "runner_ok m s" and n: "jn_calls s n = None" and s': "s' = set_call n c (s\<lparr>jn_kinds := ks\<rparr>)"
    and c: "call_job c = None \<or> (\<exists>i. call_job c = Some i \<and> calls_on i s = {} \<and>
      call_ok c (jn_rows s i) (jn_jobs s i) (i \<in> jn_tasks s) (jn_reasons s i) \<and>
      (\<forall>j. c \<noteq> Checking j \<and> c \<noteq> Gathering j))"
  shows "runner_ok m s'"
proof -
  have cs: "jn_calls s' = (jn_calls s)(n \<mapsto> c)" by (simp add: s' set_call_def)
  have d: "calls_distinct s" using ok by (simp add: runner_ok_def)
  obtain i where i: "call_job c = Some i \<and> calls_on i s = {} \<or> call_job c = None" using c by blast
  note on = calls_on_new_call [OF d n i cs]
  have "id_ok j s'" for j
  proof -
    have o: "id_ok j s" using ok by (simp add: runner_ok_def)
    have p: "jn_rows s' = jn_rows s" "jn_jobs s' = jn_jobs s" "jn_tasks s' = jn_tasks s" "jn_reasons s' = jn_reasons s"
      "jn_closing s' = jn_closing s"
      by (simp_all add: s' set_call_def)
    show ?thesis
    proof (cases "call_job c = Some j")
      case True
      then have e: "calls_on j s = {}" "call_ok c (jn_rows s j) (jn_jobs s j) (j \<in> jn_tasks s) (jn_reasons s j)"
        using c by auto
      have "task_ok t r reg why closing {} \<Longrightarrow> task_ok t r reg why closing {c}" for t r reg why closing
        by (auto simp: task_ok_def)
      then show ?thesis using o e on(1) [of j] True by (auto simp: id_ok_def p)
    qed (use o on(1) [of j] in \<open>simp add: id_ok_def p\<close>)
  qed
  moreover have "holders s' = holders s" "jn_free s' = jn_free s" by (simp_all add: s' set_call_def holders_def)
  ultimately show ?thesis using ok on(2) by (simp add: runner_ok_def slots_ok_def)
qed

lemma on_task_ok:
  assumes "runner_ok m s" shows "runner_ok m (on_task e i s)"
proof (cases "jn_jobs s i")
  case (Some t)
  have "id_ok j (task_event e i t s)" for j
    using task_event_ok [OF _ Some refl] same_job_ok [OF task_event_same_job] assms
    by (cases "j = i") (auto simp: runner_ok_def)
  then show ?thesis
    using assms task_event_slots [OF Some] Some calls_distinct_cong [OF task_event_frame(1) [of e i t s]]
    by (simp add: runner_ok_def on_task_def)
qed (use assms in \<open>simp add: on_task_def\<close>)

lemma call_step_ok:
  assumes "runner_ok m s" "jn_calls s n = Some c" shows "runner_ok m (call_step n c s)"
proof (cases "call_job c")
  case (Some i)
  have d: "calls_distinct s" using assms(1) by (simp add: runner_ok_def)
  obtain c' where c': "jn_calls (call_step n c s) = (jn_calls s)(n \<mapsto> c')" "call_job c' = Some i \<or> call_job c' = None"
    using call_step_frame(1) [OF Some assms(2)] by blast
  have "calls_distinct (call_step n c s)" by (rule calls_on_set_call(2) [OF d assms(2) Some c'(2,1)])
  moreover have "id_ok j (call_step n c s)" for j
    using call_step_id_ok [OF _ Some assms(2) d] same_job_ok [OF call_step_same_job [OF Some assms(2) d]] assms(1)
    by (cases "j = i") (auto simp: runner_ok_def)
  moreover have "slots_ok m (call_step n c s)"
    using call_step_holders [OF _ Some assms(2)] assms(1) by (simp add: runner_ok_def slots_ok_def)
  ultimately show ?thesis by (simp add: runner_ok_def)
next
  case None
  then show ?thesis using assms by (cases c) simp_all
qed

lemma job_step_ok:
  assumes "runner_ok m s" "orderly e s" shows "runner_ok m (job_step e s)"
proof (cases e)
  case (CallSubmit n i kind params)
  have n: "jn_calls s n = None" "calls_on i s = {}" "jn_rows s i = None" "jn_jobs s i = None" "component_ok i"
    using assms(2) CallSubmit by (simp_all add: orderly_def)
  have "i \<notin> jn_tasks s" using assms(1) n(4) by (auto simp: runner_ok_def id_ok_def)
  then show ?thesis using CallSubmit n
      new_call_ok [OF assms(1) n(1) refl, where c = ShutDown and ks = "jn_kinds s"]
      new_call_ok [OF assms(1) n(1) refl, where c = "Inserting i kind params" and ks = "(jn_kinds s)(i \<mapsto> kind)"]
    by (simp add: submit_call_def set_call_def)
next
  case (CallDelete n i)
  then show ?thesis using assms new_call_ok [OF assms(1) _ refl, where n = n and c = "Looking i" and ks = "jn_kinds s"]
    by (simp add: orderly_def set_call_def)
next
  case (CallStep n)
  then show ?thesis using assms(1) call_step_ok by (simp split: option.split)
next
  case Shutdown
  then show ?thesis using assms shutdown_ok by (simp add: orderly_def)
qed (use assms on_task_ok in \<open>simp_all add: orderly_def\<close>)

lemma runner_start_ok: "runner_ok m (runner_start m ids rows)"
  by (simp add: runner_ok_def slots_ok_def holders_def calls_distinct_def id_ok_def calls_on_def runner_start_def
    restore_def)

lemma orderly_run_ok: "runner_ok m s \<Longrightarrow> orderly_run es s \<Longrightarrow> runner_ok m (fold job_step es s)"
  by (induction es arbitrary: s) (simp_all add: job_step_ok)

section \<open>The life of a row\<close>

definition lifecycle :: "bool \<Rightarrow> job_status option \<Rightarrow> job_status option \<Rightarrow> bool" where
  "lifecycle closing a b \<longleftrightarrow>
     a = b \<or>
     (a, b) \<in> {(None, Some Queued), (Some Queued, Some Running), (Some Running, Some Done), (Some Running, Some Unsuccessful),
       (Some Queued, None), (Some Done, None), (Some Unsuccessful, None)} \<or>
     closing \<and> b = Some Unsuccessful \<and> a \<in> {Some Queued, Some Done}"

lemma lifecycle_write:
  assumes "phase_ok (Writing w) r closing"
  shows "lifecycle closing (status_of r) (status_of (map_option (write_row w) r))"
proof (cases r)
  case (Some x)
  then show ?thesis using assms by (cases w; cases "jr_status x") (auto simp: lifecycle_def status_of_def)
qed (simp add: lifecycle_def)

lemma step_lifecycle:
  assumes "runner_ok m s" "orderly e s"
  shows "lifecycle (jn_closing s) (status_of (jn_rows s i)) (status_of (jn_rows (job_step e s) i)) \<and>
    (i \<in> jn_dirs s - jn_dirs (job_step e s) \<or> jn_rows s i \<noteq> None \<and> jn_rows (job_step e s) i = None \<longrightarrow> task_over i s)"
proof -
  let ?life = "\<lambda>s'. lifecycle (jn_closing s) (status_of (jn_rows s i)) (status_of (jn_rows s' i)) \<and>
    (i \<in> jn_dirs s - jn_dirs s' \<or> jn_rows s i \<noteq> None \<and> jn_rows s' i = None \<longrightarrow> task_over i s)"
  have task: "?life (on_task e j s)" for j
  proof (cases "jn_jobs s j")
    case (Some t)
    let ?s = "task_event e j t s"
    have dirs: "jn_dirs s \<subseteq> jn_dirs ?s"
      by (auto simp: task_event_def runner_defs split: job_event.split job_pc.split job_write.split option.split)
    have ok: "task_ok t (jn_rows s j) (j \<in> jn_tasks s) (jn_reasons s j) (jn_closing s) (calls_on j s)"
      using assms(1) Some by (auto simp: runner_ok_def id_ok_def)
    show ?thesis
    proof (cases "i = j \<and> jn_rows ?s i \<noteq> jn_rows s i")
      case True
      then obtain w where w: "tk_pc t = Writing w" "jn_rows ?s i = map_option (write_row w) (jn_rows s i)"
        using task_event_row [of e j t s] by (auto split: job_event.splits job_pc.splits if_splits)
      then have "phase_ok (Writing w) (jn_rows s i) (jn_closing s)" using ok True by (auto simp: task_ok_def)
      then show ?thesis using lifecycle_write w dirs Some by (auto simp: on_task_def)
    next
      case False
      then have "jn_rows ?s i = jn_rows s i" using task_event_frame(3) by blast
      then show ?thesis using dirs Some by (auto simp: on_task_def lifecycle_def)
    qed
  qed (auto simp: on_task_def lifecycle_def)
  show ?thesis
  proof (cases e)
    case (CallStep n)
    show ?thesis
    proof (cases "jn_calls s n")
      case (Some c)
      have co: "call_ok c (jn_rows s j) (jn_jobs s j) (j \<in> jn_tasks s) (jn_reasons s j)" if "call_job c = Some j" for j
      proof -
        have "c \<in> calls_on j s" using Some that by (auto simp: calls_on_def)
        then show ?thesis using assms(1) by (auto simp: runner_ok_def id_ok_def)
      qed
      have over: "task_over j s = job_over (jn_jobs s j)" for j by (simp add: task_over_def job_over_def)
      have st: "lifecycle b x None" if "x \<noteq> Some Running" for b x
        using that by (cases x; cases "the x") (auto simp: lifecycle_def)
      show ?thesis
      proof (cases c)
        case (Removing j)
        then have "call_ok (Removing j) (jn_rows s j) (jn_jobs s j) (j \<in> jn_tasks s) (jn_reasons s j)"
          using co [of j] by simp
        then have "task_over j s" unfolding over by simp
        moreover have "jn_rows (job_step e s) = jn_rows s" "jn_dirs (job_step e s) = jn_dirs s - {j}"
          using Some CallStep Removing by (simp_all add: set_call_def)
        ultimately show ?thesis by (cases "i = j"; cases "jn_rows s i") (simp_all add: lifecycle_def)
      next
        case (Dropping j)
        then have "call_ok (Dropping j) (jn_rows s j) (jn_jobs s j) (j \<in> jn_tasks s) (jn_reasons s j)"
          using co [of j] by simp
        then have "task_over j s" "lifecycle (jn_closing s) (status_of (jn_rows s j)) None" unfolding over using st by simp_all
        moreover have "jn_rows (job_step e s) = (jn_rows s)(j := None)" "jn_dirs (job_step e s) = jn_dirs s"
          using Some CallStep Dropping by (simp_all add: set_call_def)
        ultimately show ?thesis by (cases "i = j"; cases "jn_rows s i") (simp_all add: lifecycle_def status_of_def)
      next
        case (Inserting j k p)
        then show ?thesis using co [of j] Some CallStep
          by (auto simp: set_call_def lifecycle_def status_of_def queued_row_def)
      qed (use Some CallStep in \<open>auto simp: runner_defs lifecycle_def split: option.split\<close>)
    qed (use CallStep in \<open>auto simp: lifecycle_def\<close>)
  next
    case (CallSubmit n j kind params)
    then show ?thesis by (auto simp: submit_call_def set_call_def lifecycle_def)
  next
    case (CallDelete n j)
    then show ?thesis by (auto simp: set_call_def lifecycle_def)
  next
    case (CallRaises n)
    then show ?thesis using assms(2) by (simp add: orderly_def)
  next
    case Shutdown
    then show ?thesis by (auto simp: shutdown_def lifecycle_def)
  qed (simp only: job_step.simps, use task in blast)+
qed

section \<open>What the subscribers see\<close>

text \<open>A client's copy of the table, kept by the messages.\<close>

fun apply_message :: "job_message \<Rightarrow> job_table \<Rightarrow> job_table" where
  "apply_message (Update i r) v = v(i \<mapsto> r)"
| "apply_message (Gone i) v = v(i := None)"

definition view :: "job_table \<Rightarrow> runner \<Rightarrow> job_table" where
  "view rows s = fold apply_message (jn_out s) rows"

text \<open>Where a row may be ahead of what was published.\<close>

fun pc_ahead :: "job_pc \<Rightarrow> bool" where
  "pc_ahead (Written w) = True"
| "pc_ahead (Writing (Cancelled e)) = True"
| "pc_ahead _ = False"

fun call_ahead :: "job_call \<Rightarrow> job_row option \<Rightarrow> bool" where
  "call_ahead (Inserted j) r = True"
| "call_ahead (Announcing j b) r = b"
| "call_ahead (Gathering j) r = (r \<noteq> None)"
| "call_ahead (Removing j) r = (r \<noteq> None)"
| "call_ahead (Dropping j) r = (r \<noteq> None)"
| "call_ahead _ r = False"

definition unpublished :: "string \<Rightarrow> runner \<Rightarrow> bool" where
  "unpublished i s \<longleftrightarrow>
     (\<exists>t. jn_jobs s i = Some t \<and> pc_ahead (tk_pc t)) \<or> (\<exists>c \<in> calls_on i s. call_ahead c (jn_rows s i))"

definition published :: "job_table \<Rightarrow> string \<Rightarrow> runner \<Rightarrow> bool" where
  "published rows i s \<longleftrightarrow> view rows s i = jn_rows s i \<or> unpublished i s"

definition no_failure :: "job_event \<Rightarrow> bool" where
  "no_failure e \<longleftrightarrow> (\<forall>i. e \<noteq> TaskRaises i)"

lemma view_append: "view rows (s\<lparr>jn_out := jn_out s @ ms\<rparr>) = fold apply_message ms (view rows s)"
  by (simp add: view_def)

lemma view_cong: "jn_out s' = jn_out s \<Longrightarrow> view rows s' = view rows s"
  by (simp add: view_def)

lemma published_same_job: "same_job i s s' \<Longrightarrow> view rows s' i = view rows s i \<Longrightarrow> published rows i s \<Longrightarrow> published rows i s'"
  by (simp add: published_def unpublished_def same_job_def)

lemma task_event_out:
  "jn_out (task_event e i t s) =
     jn_out s @ (case (e, tk_pc t, jn_rows s i) of
       (Resume _, Written w, Some r) \<Rightarrow> if tk_cancel t = NotCancelled then [Update i r] else [] | _ \<Rightarrow> [])"
  by (simp add: task_event_def runner_defs split: job_event.split job_pc.split job_write.split option.split)

lemma task_view_other: "j \<noteq> i \<Longrightarrow> view rows (task_event e i t s) j = view rows s j"
  by (simp add: view_def task_event_out split: job_event.split job_pc.split option.split)

lemma published_task:
  assumes "id_ok i s" "jn_jobs s i = Some t" "published rows i s" "no_failure e"
  shows "published rows i (task_event e i t s)"
proof -
  let ?s = "task_event e i t s"
  have cs: "calls_on i ?s = calls_on i s" by (rule calls_on_cong) (rule task_event_frame)
  have ok: "task_ok t (jn_rows s i) (i \<in> jn_tasks s) (jn_reasons s i) (jn_closing s) (calls_on i s)"
    using assms(1,2) by (simp add: id_ok_def)
  show ?thesis
  proof (cases "tk_pc t = Over")
    case True
    then show ?thesis using task_over_stays [OF True task_ok_over [OF ok True], of e i s] assms(3) by simp
  next
    case False
    have row: "jn_rows s i \<noteq> None"
      using ok False by (cases "(tk_pc t, jn_rows s i, jn_closing s)" rule: phase_ok.cases) (auto simp: task_ok_def status_of_def)
    have gathers: "\<exists>c \<in> calls_on i s. call_ahead c (jn_rows s i)" if "jn_reasons s i = Some None"
    proof -
      obtain j where "Gathering j \<in> calls_on i s" using ok False \<open>jn_reasons s i = Some None\<close> by (auto simp: task_ok_def)
      then show ?thesis using row by (intro bexI [of _ "Gathering j"]) simp_all
    qed
    obtain t' where t': "jn_jobs ?s i = Some t'" using task_event_jobs [OF assms(2), of e] by auto
    have keeps: "published rows i ?s"
      if "jn_out ?s = jn_out s" "jn_rows ?s i = jn_rows s i" "pc_ahead (tk_pc t) \<Longrightarrow> pc_ahead (tk_pc t') \<or> jn_reasons s i = Some None"
      using that assms(2,3) t' gathers view_cong [OF that(1), of rows] by (auto simp: published_def unpublished_def cs)
    show ?thesis
    proof (cases e)
      case (Resume j)
      show ?thesis
      proof (cases "tk_cancel t = NotCancelled")
        case True
        show ?thesis
        proof (cases "tk_pc t")
          case (Written w)
          then have "view rows ?s i = jn_rows s i" using row Resume True by (auto simp: view_def task_event_out)
          then show ?thesis using task_event_row [of e i t s] Resume by (simp add: published_def)
        qed (use Resume True t' assms(2) in \<open>intro keeps; auto simp: task_event_def runner_defs split: if_splits\<close>)+
      next
        case cancelled: False
        have r: "jn_reasons s i = Some None" if "tk_pc t = Writing (Cancelled x) \<or> tk_pc t = Written (Cancelled x)" for x
          using ok cancelled False that by (cases "tk_cancel t") (auto simp: task_ok_def)
        show ?thesis
        proof (rule keeps)
          show "jn_out ?s = jn_out s" using cancelled Resume by (simp add: task_event_out split: job_pc.split option.split)
          show "jn_rows ?s i = jn_rows s i" using task_event_row [of e i t s] Resume by simp
          show "pc_ahead (tk_pc t') \<or> jn_reasons s i = Some None" if "pc_ahead (tk_pc t)"
          proof (cases "tk_pc t" rule: pc_ahead.cases)
            case (1 w)
            then show ?thesis using r t' cancelled Resume
              by (cases w) (auto simp: task_event_def runner_defs split: option.splits)
          qed (use that r in auto)
        qed
      qed
    next
      case (Statement j)
      show ?thesis
      proof (cases "(\<exists>w. tk_pc t = Writing w) \<and> tk_cancel t \<noteq> Cancelling False")
        case True
        then have "pc_ahead (tk_pc t')" using t' Statement by (auto simp: task_event_def set_pc_def)
        then show ?thesis using t' by (simp add: published_def unpublished_def)
      next
        case False
        then have "?s = s" using Statement by (auto simp: task_event_def split: job_pc.split)
        then show ?thesis using assms(3) by simp
      qed
    next
      case (Reports j p m)
      then show ?thesis using t' assms(2) by (intro keeps) (auto simp: task_event_def set_pc_def split: if_splits)
    next
      case (Returns j res)
      then show ?thesis using t' assms(2) by (intro keeps) (auto simp: task_event_def set_pc_def split: if_splits sum.splits)
    qed (use assms in \<open>simp_all add: task_event_def no_failure_def\<close>)
  qed
qed

lemma call_step_view_other:
  "call_job c = Some i \<Longrightarrow> j \<noteq> i \<Longrightarrow> view rows (call_step n c s) j = view rows s j"
  by (cases c) (simp_all add: view_def runner_defs split: option.split)

lemma published_call:
  assumes ok: "id_ok i s" and c: "call_job c = Some i" "jn_calls s n = Some c" "calls_distinct s" and p: "published rows i s"
  shows "published rows i (call_step n c s)"
proof -
  let ?s = "call_step n c s"
  obtain c' where c': "jn_calls ?s = (jn_calls s)(n \<mapsto> c')" "call_job c' = Some i \<or> call_job c' = None"
    using call_step_frame(1) [OF c(1,2)] by blast
  have new: "calls_on i ?s = (if call_job c' = None then {} else {c'})"
    using calls_on_set_call(1) [OF c(3,2,1) c'(2,1), of i] by simp
  have old: "calls_on i s = {c}" by (rule calls_on_set_call(3) [OF c(3,2,1) c'(2,1)])
  have n: "jn_calls ?s n = Some c'" using c'(1) by simp
  have co: "call_ok c (jn_rows s i) (jn_jobs s i) (i \<in> jn_tasks s) (jn_reasons s i)"
    and comp: "jn_jobs s i \<noteq> None \<Longrightarrow> component_ok i"
    using ok old by (auto simp: id_ok_def)
  have p': "view rows s i = jn_rows s i \<or> (\<exists>t. jn_jobs s i = Some t \<and> pc_ahead (tk_pc t)) \<or> call_ahead c (jn_rows s i)"
    using p old by (simp add: published_def unpublished_def)
  have over: "\<not> pc_ahead (tk_pc t)" if "jn_jobs s i = Some t" "job_over (jn_jobs s i)" for t
    using that by (simp add: job_over_def)
  have ahead: "published rows i ?s" if "call_job c' \<noteq> None" "call_ahead c' (jn_rows ?s i)"
    using that new by (auto simp: published_def unpublished_def)
  have same: "published rows i ?s"
    if "jn_out ?s = jn_out s" "jn_rows ?s i = jn_rows s i" "jn_jobs ?s i = jn_jobs s i" "\<not> call_ahead c (jn_rows s i)"
    using that p' view_cong [OF that(1), of rows] by (auto simp: published_def unpublished_def)
  show ?thesis
  proof (cases c)
    case (Inserting j kind params)
    then have "j = i" "jn_rows s i = None" using c(1) co by simp_all
    then have "c' = Inserted i" using n Inserting by (simp add: set_call_def)
    then show ?thesis by (intro ahead) simp_all
  next
    case (Inserted j)
    then have j: "j = i" using c(1) by simp
    obtain r where r: "jn_rows s i = Some r" using co Inserted by (auto simp: status_of_def)
    then have "view rows ?s i = jn_rows ?s i" using Inserted j by (simp add: view_def runner_defs)
    then show ?thesis by (simp add: published_def)
  next
    case (Looking j)
    then have j: "j = i" using c(1) by simp
    show ?thesis using Looking j by (intro same) (simp_all add: runner_defs)
  next
    case (Checking j)
    then have j: "j = i" using c(1) by simp
    show ?thesis
    proof (cases "is_running i s")
      case True
      then show ?thesis using Checking j by (intro same) (simp_all add: runner_defs)
    next
      case False
      then have g: "c' = Gathering i" "jn_rows ?s i = jn_rows s i" "jn_out ?s = jn_out s"
        using n Checking j by (simp_all add: runner_defs split: option.splits if_splits)
      show ?thesis
      proof (cases "jn_rows s i")
        case None
        have "\<not> pc_ahead (tk_pc t)" if "jn_jobs s i = Some t" for t
        proof -
          have "task_ok t (jn_rows s i) (i \<in> jn_tasks s) (jn_reasons s i) (jn_closing s) (calls_on i s)"
            using ok that by (simp add: id_ok_def)
          then show ?thesis
            using None by (cases "(tk_pc t, jn_rows s i, jn_closing s)" rule: phase_ok.cases) (auto simp: task_ok_def status_of_def)
        qed
        then have "view rows s i = jn_rows s i" using p' Checking by auto
        then show ?thesis using g view_cong [OF g(3), of rows] by (simp add: published_def)
      next
        case (Some r)
        then show ?thesis using g by (intro ahead) simp_all
      qed
    qed
  next
    case (Gathering j)
    then have j: "j = i" using c(1) by simp
    show ?thesis
    proof (cases "task_over i s")
      case True
      then have "job_over (jn_jobs s i)" by (simp add: task_over_def job_over_def)
      then have v: "view rows s i = jn_rows s i \<or> jn_rows s i \<noteq> None" using p' over Gathering by auto
      have "component_ok i" using comp co Gathering by simp
      then have g: "c' = Removing i" "jn_rows ?s i = jn_rows s i" "jn_out ?s = jn_out s"
        using n Gathering j True by (simp_all add: runner_defs)
      show ?thesis
      proof (cases "jn_rows s i = None")
        case True
        then show ?thesis using v g view_cong [OF g(3), of rows] by (simp add: published_def)
      qed (use g in \<open>intro ahead; simp\<close>)
    next
      case False
      then show ?thesis using p Gathering j by simp
    qed
  next
    case (Removing j)
    then have j: "j = i" using c(1) by simp
    have g: "c' = Dropping i" "jn_rows ?s i = jn_rows s i" "jn_out ?s = jn_out s" using n Removing j by (simp_all add: set_call_def)
    have v: "view rows s i = jn_rows s i \<or> jn_rows s i \<noteq> None" using p' over co Removing by auto
    show ?thesis
    proof (cases "jn_rows s i = None")
      case True
      then show ?thesis using v g view_cong [OF g(3), of rows] by (simp add: published_def)
    qed (use g in \<open>intro ahead; simp\<close>)
  next
    case (Dropping j)
    then have j: "j = i" using c(1) by simp
    have g: "c' = Announcing i (jn_rows s i \<noteq> None)" "jn_rows ?s i = None" "jn_out ?s = jn_out s"
      using n Dropping j by (simp_all add: set_call_def)
    have v: "view rows s i = jn_rows s i \<or> jn_rows s i \<noteq> None" using p' over co Dropping by auto
    show ?thesis
    proof (cases "jn_rows s i = None")
      case True
      then show ?thesis using v g view_cong [OF g(3), of rows] by (simp add: published_def)
    qed (use g in \<open>intro ahead; simp\<close>)
  next
    case (Announcing j b)
    then have j: "j = i" using c(1) by simp
    have r: "jn_rows ?s i = None" using Announcing j co by (simp add: set_call_def)
    show ?thesis
    proof (cases b)
      case True
      then have "view rows ?s i = None" using Announcing j by (simp add: view_def set_call_def)
      then show ?thesis using r by (simp add: published_def)
    next
      case False
      then have "view rows s i = jn_rows s i" "view rows ?s i = view rows s i"
        using p' over co Announcing j by (auto simp: view_def set_call_def)
      then show ?thesis using r co Announcing by (simp add: published_def)
    qed
  qed (use c(1) in simp_all)
qed

lemma published_step:
  assumes "runner_ok m s" "orderly e s" "no_failure e" "\<And>i. published rows i s"
  shows "published rows i (job_step e s)"
proof -
  have ok: "id_ok i s" for i using assms(1) by (simp add: runner_ok_def)
  have d: "calls_distinct s" using assms(1) by (simp add: runner_ok_def)
  have task: "published rows i (on_task e j s)" for j
  proof (cases "jn_jobs s j")
    case (Some t)
    show ?thesis
    proof (cases "i = j")
      case True
      then show ?thesis using published_task [OF ok Some assms(4,3)] Some by (simp add: on_task_def)
    next
      case False
      then show ?thesis
        using published_same_job [OF task_event_same_job [OF False] task_view_other [OF False] assms(4)] Some
        by (simp add: on_task_def)
    qed
  qed (use assms(4) in \<open>simp add: on_task_def\<close>)
  have new: "published rows i s'"
    if "jn_calls s n = None" "s' = set_call n c (s\<lparr>jn_kinds := ks\<rparr>)" "call_job c = Some k \<and> calls_on k s = {} \<or> call_job c = None"
    for n s' c ks k
  proof -
    have "calls_on i s' = (if call_job c = Some i then {c} else calls_on i s)"
      using calls_on_new_call(1) [OF d that(1,3), of s' i] that(2) by (simp add: set_call_def)
    moreover have "jn_rows s' = jn_rows s" "jn_jobs s' = jn_jobs s" "view rows s' = view rows s"
      using that(2) by (simp_all add: set_call_def view_def)
    ultimately show ?thesis using assms(4) [of i] that(3) by (auto simp: published_def unpublished_def split: if_splits)
  qed
  show ?thesis
  proof (cases e)
    case (CallSubmit n k kind params)
    then have "jn_calls s n = None" "calls_on k s = {}" using assms(2) by (simp_all add: orderly_def)
    then show ?thesis using CallSubmit new [of n _ ShutDown "jn_kinds s"]
        new [of n _ "Inserting k kind params" "(jn_kinds s)(k \<mapsto> kind)" k]
      by (simp add: submit_call_def)
  next
    case (CallDelete n k)
    then show ?thesis using assms(2) new [of n _ "Looking k" "jn_kinds s" k] by (simp add: orderly_def)
  next
    case (CallStep n)
    show ?thesis
    proof (cases "jn_calls s n")
      case (Some c)
      show ?thesis
      proof (cases "call_job c")
        case None
        then show ?thesis using assms(4) CallStep Some by (cases c) simp_all
      next
        case j: (Some j)
        have "published rows i (call_step n c s)"
        proof (cases "i = j")
          case True
          then show ?thesis using published_call [OF ok j Some d assms(4)] by simp
        next
          case False
          then show ?thesis
            using published_same_job [OF call_step_same_job [OF j Some d False] call_step_view_other [OF j False] assms(4)] by simp
        qed
        then show ?thesis using CallStep Some by simp
      qed
    qed (use CallStep assms(4) in simp)
  next
    case (CallRaises n)
    then show ?thesis using assms(2) by (simp add: orderly_def)
  next
    case Shutdown
    have "calls_on i (shutdown s) = calls_on i s" by (rule calls_on_cong) (simp add: shutdown_def)
    then show ?thesis using assms(4) [of i] Shutdown
      by (auto simp: published_def unpublished_def shutdown_def view_def split: option.splits)
  qed (simp only: job_step.simps, use task in blast)+
qed

lemma not_live_restored: "\<not> live (restored r)"
  by (simp add: restored_def live_def)

lemma restore_view:
  "fold apply_message (snd (restore ids rows)) v i =
     (case rows i of Some r \<Rightarrow> if live r \<and> i \<in> set ids then Some (restored r) else v i | None \<Rightarrow> v i)"
  by (induction ids arbitrary: v) (auto simp: restore_def split: option.split)

lemma published_start:
  assumes "\<And>i r. rows i = Some r \<Longrightarrow> live r \<Longrightarrow> i \<in> set ids"
  shows "published rows i (runner_start m ids rows)"
proof -
  have "view rows (runner_start m ids rows) = fold apply_message (snd (restore ids rows)) rows"
    by (simp add: view_def runner_start_def case_prod_beta)
  moreover have "jn_rows (runner_start m ids rows) i = map_option restored (rows i)"
    by (simp add: runner_start_def restore_def)
  ultimately have "view rows (runner_start m ids rows) i = jn_rows (runner_start m ids rows) i"
    using assms by (auto simp: restore_view restored_def split: option.split)
  then show ?thesis by (simp add: published_def)
qed

lemma published_run:
  "runner_ok m s \<Longrightarrow> orderly_run es s \<Longrightarrow> list_all no_failure es \<Longrightarrow> (\<And>i. published rows i s) \<Longrightarrow>
   published rows i (fold job_step es s)"
proof (induction es arbitrary: s)
  case (Cons e es)
  then show ?case using published_step [of m s e rows] job_step_ok [of m s e] by simp
qed simp

lemma orderly_run_append: "orderly_run (es @ [e]) s \<longleftrightarrow> orderly_run es s \<and> orderly e (fold job_step es s)"
  by (induction es arbitrary: s) simp_all

section \<open>Races\<close>

definition demo_runner :: runner where
  "demo_runner = runner_start 1 [] (\<lambda>_. None)"

definition demo_submit :: "job_event list" where
  "demo_submit = [CallSubmit 1 ''a'' ''export'' ''{}'', CallStep 1, CallStep 1, Resume ''a'']"

lemmas runner_eval = demo_runner_def demo_submit_def runner_start_def restore_def runner_defs on_task_def task_event_def
  is_running_def queued_row_def task_over_def shutdown_def component_ok_def

text \<open>
  Two \<open>delete\<close> calls for one job: while the first has the task in hand, the second sees none, and removes the directory
  and the row of a job that has started in between, which the first then refuses to delete.
\<close>

lemma two_deletes:
  "let s = fold job_step (demo_submit @
       [Resume ''a'', CallDelete 2 ''a'', CallStep 2, CallDelete 3 ''a'', CallStep 3, Statement ''a'', Resume ''a'', CallStep 2,
        CallStep 3, CallStep 3]) demo_runner
   in map_option tk_pc (jn_jobs s ''a'') = Some Working \<and> jn_calls s 2 = Some Busy \<and> jn_rows s ''a'' = None \<and>
     ''a'' \<notin> jn_dirs s"
  by (simp add: runner_eval)

text \<open>A \<open>submit\<close> that is writing its row when \<open>shutdown\<close> comes starts its job all the same.\<close>

lemma submit_after_shutdown:
  "let s = fold job_step [CallSubmit 1 ''a'' ''export'' ''{}'', CallStep 1, Shutdown, CallStep 1, Resume ''a'', Resume ''a'',
       Statement ''a'', Resume ''a''] demo_runner
   in jn_closing s \<and> map_option tk_pc (jn_jobs s ''a'') = Some Working \<and>
     map_option tk_cancel (jn_jobs s ''a'') = Some NotCancelled"
  by (simp add: runner_eval)

text \<open>A job that is cancelled between the commit of its result and the end of its task ends as failed, its result in place.\<close>

lemma done_then_failed:
  "let s = fold job_step (demo_submit @ [Resume ''a'', Statement ''a'', Resume ''a'', Returns ''a'' (Inr ''{}''),
       Statement ''a'', Shutdown, Resume ''a'', Statement ''a'', Resume ''a'']) demo_runner
   in map_option (\<lambda>r. (jr_status r, jr_result r, jr_error r)) (jn_rows s ''a'') =
     Some (Unsuccessful, Some ''{}'', Some SHUTDOWN_REASON)"
  by (simp add: runner_eval)

text \<open>A job whose directory cannot be made stays queued, without a task.\<close>

lemma stays_queued:
  "let s = fold job_step (demo_submit @ [TaskRaises ''a'']) demo_runner
   in map_option jr_status (jn_rows s ''a'') = Some Queued \<and> task_over ''a'' s \<and> jn_tasks s = {}"
  by (simp add: runner_eval)

section \<open>Properties\<close>

text \<open>
  C32. In every orderly run of the job runner, with any interleaving of calls, tasks, failures and a shutdown: the tasks that
  are past the semaphore and its free slots add up to \<open>max_concurrent\<close>; a row goes from queued to running to done or failed, and
  only a shutdown makes a queued or a done one fail; a row that says running is never deleted, and no directory or row is
  removed while the job's task is not over.
\<close>

theorem job_lifecycle:
  assumes "orderly_run (es @ [e]) (runner_start m ids rows)"
  defines "s \<equiv> fold job_step es (runner_start m ids rows)"
  shows "jn_free s + card {i. \<exists>t. jn_jobs s i = Some t \<and> holds_slot (tk_pc t)} = m \<and>
    (let a = status_of (jn_rows s i); b = status_of (jn_rows (job_step e s) i) in
       a = b \<or>
       (a, b) \<in> {(None, Some Queued), (Some Queued, Some Running), (Some Running, Some Done), (Some Running, Some Unsuccessful),
         (Some Queued, None), (Some Done, None), (Some Unsuccessful, None)} \<or>
       jn_closing s \<and> b = Some Unsuccessful \<and> a \<in> {Some Queued, Some Done}) \<and>
    (i \<in> jn_dirs s - jn_dirs (job_step e s) \<or> jn_rows s i \<noteq> None \<and> jn_rows (job_step e s) i = None \<longrightarrow> task_over i s)"
proof -
  have o: "orderly_run es (runner_start m ids rows)" "orderly e s" using assms(1) by (simp_all add: orderly_run_append s_def)
  have ok: "runner_ok m s" using orderly_run_ok [OF runner_start_ok o(1)] by (simp add: s_def)
  then have "jn_free s + card (holders s) = m" by (simp add: runner_ok_def slots_ok_def)
  then show ?thesis using step_lifecycle [OF ok o(2), of i] by (simp add: holders_def lifecycle_def Let_def)
qed

theorem job_lifecycle_witness:
  "let s = fold job_step (demo_submit @ [Resume ''a'', Shutdown]) demo_runner
   in jn_free s + card {i. \<exists>t. jn_jobs s i = Some t \<and> holds_slot (tk_pc t)} = 1 \<and>
     status_of (jn_rows s ''a'') = Some Queued \<and> status_of (jn_rows (job_step (Statement ''a'') s) ''a'') = Some Running"
proof -
  let ?es = "demo_submit @ [Resume ''a'', Shutdown]"
  have o: "orderly_run (?es @ [Statement ''a'']) (runner_start 1 [] (\<lambda>_. None))"
    by (simp add: runner_eval orderly_def calls_on_def)
  have "status_of (jn_rows (fold job_step ?es demo_runner) ''a'') = Some Queued \<and>
      status_of (jn_rows (job_step (Statement ''a'') (fold job_step ?es demo_runner)) ''a'') = Some Running"
    by (simp add: runner_eval status_of_def)
  then show ?thesis using job_lifecycle [OF o, where i = "''a''"] unfolding demo_runner_def Let_def by blast
qed

text \<open>
  C33. What the runner publishes is enough to follow the table, in every orderly run: one in which a job is submitted under a new
  id, \<open>submit\<close> and \<open>delete\<close> are called on a job only while no other call on that job is in flight, \<open>shutdown\<close> comes at most
  once, and neither a database statement nor \<open>mkdir\<close> fails; tasks, calls on different jobs, cancellations and the shutdown
  interleave freely. Two deletes of one job that overlap are outside of it (\<open>two_deletes\<close> shows what they can do).
  Then \<open>restore\<close> leaves no row queued or running, and a client that read the table before it and applied every message since
  has the row that the database has, of each job with no call in flight and a task, if any, that is over.
\<close>

theorem job_views_converge:
  assumes "orderly_run es (runner_start m ids rows)" "list_all no_failure es"
    and "\<And>i r. rows i = Some r \<Longrightarrow> live r \<Longrightarrow> i \<in> set ids"
  defines "s \<equiv> fold job_step es (runner_start m ids rows)"
  shows "(calls_on i s = {} \<longrightarrow> task_over i s \<longrightarrow> view rows s i = jn_rows s i) \<and>
    (\<forall>i r. jn_rows (runner_start m ids rows) i = Some r \<longrightarrow> \<not> live r)"
proof
  have "published rows i s"
    unfolding s_def by (rule published_run [OF runner_start_ok assms(1,2) published_start [OF assms(3)]])
  then show "calls_on i s = {} \<longrightarrow> task_over i s \<longrightarrow> view rows s i = jn_rows s i"
    by (auto simp: published_def unpublished_def task_over_def)
  show "\<forall>i r. jn_rows (runner_start m ids rows) i = Some r \<longrightarrow> \<not> live r"
    using not_live_restored by (auto simp: runner_start_def restore_def)
qed

definition demo_rows :: job_table where
  "demo_rows = [''old'' \<mapsto> (queued_row ''ppk'' ''{}'')\<lparr>jr_status := Running\<rparr>]"

theorem job_views_converge_witness:
  "let es = [CallDelete 1 ''old'', CallStep 1, CallStep 1, CallStep 1, CallStep 1];
       s = fold job_step es (runner_start 1 [''old''] demo_rows)
   in view demo_rows s ''old'' = jn_rows s ''old'' \<and> jn_out s \<noteq> [] \<and> jn_rows s ''old'' = None"
proof -
  let ?es = "[CallDelete 1 ''old'', CallStep 1, CallStep 1, CallStep 1, CallStep 1]"
  let ?s = "fold job_step ?es (runner_start 1 [''old''] demo_rows)"
  have o: "orderly_run ?es (runner_start 1 [''old''] demo_rows)"
    by (simp add: runner_eval demo_rows_def orderly_def calls_on_def live_def restored_def)
  have f: "list_all no_failure ?es" by (simp add: no_failure_def)
  have i: "i \<in> set [''old'']" if "demo_rows i = Some r" "live r" for i r
    using that by (auto simp: demo_rows_def split: if_splits)
  have e: "calls_on ''old'' ?s = {} \<and> task_over ''old'' ?s \<and> jn_out ?s \<noteq> [] \<and> jn_rows ?s ''old'' = None"
    by (auto simp: runner_eval demo_rows_def calls_on_def live_def restored_def)
  have "view demo_rows ?s ''old'' = jn_rows ?s ''old''"
    by (rule job_views_converge [OF o f i, THEN conjunct1, THEN mp, THEN mp]) (use e in \<open>blast | assumption\<close>)+
  then show ?thesis using e unfolding Let_def by (intro conjI) (assumption | elim conjE)+
qed

end
