(* ===== verification/Replay.thy ===== *)
theory Replay
  imports FrameStream
begin

text \<open>
  The replay of a recorded file, \<open>FileReplaySource\<close> of \<open>src/mtrtk/core/source.py\<close>: the streaming of the file through the
  framer, the cut into one chunk per receiver epoch, the pacing and the rewinding, and the byte-paced variant. The file's bytes
  do not change while it is open. What is slept is a value of the state, in order.
\<close>

section \<open>The source\<close>

definition NAV_PVT :: "byte \<times> byte" where "NAV_PVT = (0x01, 0x07)"
definition NAV_EOE :: "byte \<times> byte" where "NAV_EOE = (0x01, 0x61)"
definition HOST_CHUNK :: nat where "HOST_CHUNK = 1024"
definition REPLAY_READ :: nat where "REPLAY_READ = 65536"
definition MAX_REPLAY_CHUNK :: nat where "MAX_REPLAY_CHUNK = 262144"
definition FRAMELESS_READS_PER_YIELD :: nat where "FRAMELESS_READS_PER_YIELD = 16"
definition REPLAY_HEAD_SCAN :: nat where "REPLAY_HEAD_SCAN = 65536"
definition FRAMER_BUFFER :: nat where "FRAMER_BUFFER = 1048576"

record replay =
  rp_data :: bytes
  rp_speed :: real
  rp_loop :: bool
  rp_baud :: real
  rp_open :: bool
  rp_pos :: nat
  rp_framer :: framer
  rp_pending :: "frame list"
  rp_eof :: bool
  rp_marker :: "byte \<times> byte"
  rp_eoe_since_pvt :: bool
  rp_last_itow :: "nat option"
  rp_frames :: nat
  rp_slept :: "real list"

definition EOE_HEAD :: bytes where "EOE_HEAD = [0xB5, 0x62, 0x01, 0x61, 4, 0]"

text \<open>\<open>_has_nav_eoe\<close>: the search for a header from \<open>start\<close> on, and the loop over the pieces of the head.\<close>

function eoe_from :: "bytes \<Rightarrow> nat \<Rightarrow> bool" where
  "eoe_from window start =
     (case find_sub EOE_HEAD (drop start window) of
        None \<Rightarrow> False
      | Some k \<Rightarrow>
          (let a = start + k in
           if a + 12 \<le> length window then
             (let frame = py_slice a (a + 12) window in
              if drop 10 frame = ubx_checksum (py_slice 2 10 frame) then True else eoe_from window (a + 1))
           else False))"
  by pat_completeness auto
termination by (relation "measure (\<lambda>(w, n). length w - n)") auto

declare eoe_from.simps [simp del]

function eoe_in :: "bytes \<Rightarrow> nat \<Rightarrow> bytes \<Rightarrow> bool" where
  "eoe_in kept left file =
     (let data = take (min REPLAY_READ left) file in
      if left = 0 \<or> data = [] then False
      else
        (let window = kept @ data in
         if eoe_from window 0 then True
         else eoe_in (drop (length window - 11) window) (left - length data) (drop (length data) file)))"
  by pat_completeness auto
termination by (relation "measure (\<lambda>(t, l, f). l)") (auto simp: min_def split: if_splits)

declare eoe_in.simps [simp del]

definition has_nav_eoe :: "bytes \<Rightarrow> bool" where
  "has_nav_eoe file = eoe_in [] REPLAY_HEAD_SCAN file"

text \<open>\<open>_rewind\<close> and \<open>open\<close>.\<close>

definition rewind :: "replay \<Rightarrow> replay" where
  "rewind s =
     s\<lparr>rp_pos := 0, rp_framer := framer_init FRAMER_BUFFER, rp_pending := [], rp_eof := False,
       rp_eoe_since_pvt := (rp_marker s = NAV_EOE), rp_last_itow := None, rp_frames := 0\<rparr>"

definition replay_open :: "bytes \<Rightarrow> real \<Rightarrow> bool \<Rightarrow> real \<Rightarrow> replay" where
  "replay_open file speed repeat baud =
     rewind \<lparr>rp_data = file, rp_speed = speed, rp_loop = repeat, rp_baud = baud, rp_open = True, rp_pos = 0,
       rp_framer = framer_init FRAMER_BUFFER, rp_pending = [], rp_eof = False,
       rp_marker = (if has_nav_eoe file then NAV_EOE else NAV_PVT), rp_eoe_since_pvt = False, rp_last_itow = None,
       rp_frames = 0, rp_slept = []\<rparr>"

definition host_open :: "bytes \<Rightarrow> real \<Rightarrow> bool \<Rightarrow> real \<Rightarrow> replay" where
  "host_open file speed repeat baud =
     \<lparr>rp_data = file, rp_speed = speed, rp_loop = repeat, rp_baud = baud, rp_open = True, rp_pos = 0,
       rp_framer = framer_init FRAMER_BUFFER, rp_pending = [], rp_eof = False, rp_marker = NAV_PVT, rp_eoe_since_pvt = False,
       rp_last_itow = None, rp_frames = 0, rp_slept = []\<rparr>"

definition replay_close :: "replay \<Rightarrow> replay" where
  "replay_close s = s\<lparr>rp_open := False, rp_pending := [], rp_framer := framer_init FRAMER_BUFFER\<rparr>"

definition sleep :: "real \<Rightarrow> replay \<Rightarrow> replay" where
  "sleep t s = s\<lparr>rp_slept := rp_slept s @ [t]\<rparr>"

text \<open>\<open>_next_frame\<close>; frames carry the reading \<open>clk\<close> of the clocks.\<close>

function next_frame :: "real \<times> real \<Rightarrow> nat \<Rightarrow> replay \<Rightarrow> frame option \<times> replay" where
  "next_frame clk frameless s =
     (case rp_pending s of
        f # fs \<Rightarrow> (Some f, s\<lparr>rp_pending := fs, rp_frames := rp_frames s + 1\<rparr>)
      | [] \<Rightarrow>
          if rp_eof s \<or> \<not> rp_open s then (None, s)
          else
            (let data = take REPLAY_READ (drop (rp_pos s) (rp_data s)) in
             if data = [] then (None, s\<lparr>rp_eof := True\<rparr>)
             else
               (let (fr, fs) = framer_feed clk (rp_framer s) data;
                    s' = s\<lparr>rp_pos := rp_pos s + length data, rp_framer := fr, rp_pending := fs\<rparr>
                in if fs = [] \<and> frameless + 1 \<ge> FRAMELESS_READS_PER_YIELD then next_frame clk 0 (sleep 0 s')
                   else next_frame clk (frameless + 1) s')))"
  by pat_completeness auto
termination
  by (relation "measure (\<lambda>(clk, n, s). length (rp_data s) - rp_pos s)") (auto simp: sleep_def REPLAY_READ_def split: prod.splits)

declare next_frame.simps [simp del]

text \<open>\<open>_itow\<close> and \<open>_pace\<close>.\<close>

definition itow_of :: "bytes \<Rightarrow> nat" where
  "itow_of raw = (let p = py_slice 6 10 raw in foldr (\<lambda>x a. unat x + 256 * a) p 0)"

definition pace :: "nat \<Rightarrow> replay \<Rightarrow> replay" where
  "pace itow s =
     (let s1 = (case rp_last_itow s of
                  None \<Rightarrow> s
                | Some l \<Rightarrow>
                    (let delta = (real itow - real l) / 1000 in
                     if rp_speed s > 0 \<and> 0 < delta \<and> delta < 60 then sleep (delta / rp_speed s) s else s))
      in s1\<lparr>rp_last_itow := Some itow\<rparr>)"

definition is_ubx :: "frame \<Rightarrow> byte \<times> byte \<Rightarrow> bool" where
  "is_ubx f cid \<longleftrightarrow> fr_proto f = UBX \<and> (fr_raw f ! 2, fr_raw f ! 3) = cid"

text \<open>What a pass still has to give: every frame taken makes it less.\<close>

definition replay_left :: "replay \<Rightarrow> nat" where
  "replay_left s =
     2 * (length (rp_data s) - rp_pos s + length (f_buf (rp_framer s))) + sum_list (map (\<lambda>f. length (fr_raw f) + 1) (rp_pending s))"

lemma feed_weight:
  assumes "framer_feed clk fr d = (fr', fs)"
  shows "2 * length (f_buf fr') + sum_list (map (\<lambda>f. length (fr_raw f) + 1) fs) \<le> 2 * (length (f_buf fr) + length d)"
proof -
  have "cuts (f_buf fr @ d) (map (\<lambda>f. snd (frame_view f)) fs) (f_buf fr')" by (rule ubx.feed_in_order [OF assms])
  then have l: "length (f_buf fr') + sum_list (map (\<lambda>f. length (fr_raw f)) fs) \<le> length (f_buf fr) + length d"
    using cuts_length by (fastforce simp: frame_view_def comp_def)
  have "1 \<le> length (fr_raw f)" if "f \<in> set fs" for f
    using ubx.wf_nonempty [OF ubx.feed_wf [OF assms that]] by (simp add: frame_view_def Suc_le_eq)
  then have "sum_list (map (\<lambda>f. length (fr_raw f) + 1) fs) \<le> sum_list (map (\<lambda>f. 2 * length (fr_raw f)) fs)"
    by (intro sum_list_mono) force
  also have "\<dots> = 2 * sum_list (map (\<lambda>f. length (fr_raw f)) fs)" by (simp add: sum_list_const_mult)
  finally have "sum_list (map (\<lambda>f. length (fr_raw f) + 1) fs) \<le> 2 * sum_list (map (\<lambda>f. length (fr_raw f)) fs)" .
  moreover have "2 * length (f_buf fr') + 2 * sum_list (map (\<lambda>f. length (fr_raw f)) fs) \<le> 2 * (length (f_buf fr) + length d)"
    using mult_le_mono2 [OF l, of 2] by (simp only: distrib_left)
  ultimately show ?thesis by simp
qed

lemma next_frame_left:
  "next_frame clk n s = (r, s') \<Longrightarrow> (case r of Some f \<Rightarrow> replay_left s' < replay_left s | None \<Rightarrow> replay_left s' \<le> replay_left s)"
proof (induction clk n s arbitrary: r s' rule: next_frame.induct)
  case (1 clk n s)
  show ?case
  proof (cases "rp_pending s")
    case (Cons f fs)
    then show ?thesis using 1(3) by (subst (asm) next_frame.simps) (auto simp: replay_left_def)
  next
    case Nil
    define data where "data = take REPLAY_READ (drop (rp_pos s) (rp_data s))"
    show ?thesis
    proof (cases "rp_eof s \<or> \<not> rp_open s \<or> data = []")
      case True
      then show ?thesis using 1(3) Nil
        by (subst (asm) next_frame.simps) (auto simp: replay_left_def data_def Let_def split: if_splits)
    next
      case False
      obtain fr fs where f: "framer_feed clk (rp_framer s) data = (fr, fs)" by fastforce
      let ?s = "s\<lparr>rp_pos := rp_pos s + length data, rp_framer := fr, rp_pending := fs\<rparr>"
      have d: "length (rp_data s) - (rp_pos s + length data) + length data = length (rp_data s) - rp_pos s"
        by (simp add: data_def)
      have l: "replay_left ?s \<le> replay_left s" "replay_left (sleep t x) = replay_left x" for t x
        using feed_weight [OF f] d Nil by (simp_all add: replay_left_def sleep_def)
      have "next_frame clk n s =
          (if fs = [] \<and> n + 1 \<ge> FRAMELESS_READS_PER_YIELD then next_frame clk 0 (sleep 0 ?s) else next_frame clk (n + 1) ?s)"
        using False Nil f unfolding data_def by (subst next_frame.simps) (simp add: Let_def)
      then show ?thesis
        using 1(1) [OF Nil, of data "(fr, fs)" fr fs ?s r s'] 1(2) [OF Nil, of data "(fr, fs)" fr fs ?s r s'] 1(3) l False f
        by (auto simp: data_def split: option.splits if_splits)
    qed
  qed
qed

lemma replay_left_pace [simp]: "replay_left (pace t s) = replay_left s" "replay_left (s\<lparr>rp_eoe_since_pvt := b\<rparr>) = replay_left s"
  by (simp_all add: pace_def sleep_def replay_left_def Let_def split: option.split)

text \<open>The loop of \<open>read\<close>; the second component says whether the chunk ends on its epoch's marker.\<close>

function read_loop :: "real \<times> real \<Rightarrow> bytes \<Rightarrow> bool \<Rightarrow> replay \<Rightarrow> bytes \<times> bool \<times> replay" where
  "read_loop clk chunk rewound s =
     (case next_frame clk 0 s of
        (None, s1) \<Rightarrow>
          if chunk \<noteq> [] \<or> \<not> rp_loop s1 \<or> rewound \<or> \<not> rp_open s1 then (chunk, False, s1)
          else read_loop clk chunk True (rewind s1)
      | (Some f, s1) \<Rightarrow>
          if chunk \<noteq> [] \<and> length chunk + length (fr_raw f) > MAX_REPLAY_CHUNK then
            (chunk, False, s1\<lparr>rp_pending := f # rp_pending s1, rp_frames := rp_frames s1 - 1\<rparr>)
          else
            (let chunk' = chunk @ fr_raw f in
             if is_ubx f NAV_EOE then (chunk', True, pace (itow_of (fr_raw f)) (s1\<lparr>rp_eoe_since_pvt := True\<rparr>))
             else if is_ubx f NAV_PVT then
               (let s2 = (pace (itow_of (fr_raw f)) s1)\<lparr>rp_eoe_since_pvt := False\<rparr> in
                if \<not> rp_eoe_since_pvt s1 then (chunk', True, s2) else read_loop clk chunk' rewound s2)
             else read_loop clk chunk' rewound s1))"
  by pat_completeness auto

termination
  by (relation "measures [\<lambda>(clk, chunk, rewound, s). if rewound then 0 else 1, \<lambda>(clk, chunk, rewound, s). replay_left s]")
    (auto dest: next_frame_left [OF sym] simp del: replay_left_def)

declare read_loop.simps [simp del]

definition replay_read :: "real \<times> real \<Rightarrow> replay \<Rightarrow> bytes \<times> replay" where
  "replay_read clk s =
     (let (chunk, marked, s') = read_loop clk [] False s in
      (chunk, if chunk \<noteq> [] \<and> (rp_speed s' \<le> 0 \<or> \<not> marked) then sleep 0 s' else s'))"

text \<open>\<open>_read_host\<close>.\<close>

definition read_host :: "replay \<Rightarrow> bytes \<times> replay" where
  "read_host s =
     (if \<not> rp_open s then ([], s)
      else
        (let chunk = take HOST_CHUNK (drop (rp_pos s) (rp_data s));
             wait = (\<lambda>c s. (c, sleep (if rp_speed s > 0 then real (length c) * 10 / rp_baud s / rp_speed s else 0)
                (s\<lparr>rp_pos := rp_pos s + length c\<rparr>)))
         in if chunk \<noteq> [] then wait chunk s
            else if \<not> rp_loop s then ([], s)
            else
              (let s1 = s\<lparr>rp_pos := 0\<rparr>; chunk1 = take HOST_CHUNK (rp_data s) in
               if chunk1 = [] then ([], s1) else wait chunk1 s1)))"

section \<open>Frames out of pieces of a file\<close>

text \<open>The frames \<open>vs\<close> are still to come in this pass.\<close>

definition ahead :: "(proto \<times> bytes) list \<Rightarrow> replay \<Rightarrow> bool" where
  "ahead vs s \<longleftrightarrow>
     rp_open s \<and> list_all cuttable vs \<and> length (f_buf (rp_framer s)) \<le> 8199 \<and> f_max (rp_framer s) = FRAMER_BUFFER \<and>
     (\<exists>ws. vs = map frame_view (rp_pending s) @ ws \<and>
        f_buf (rp_framer s) @ drop (rp_pos s) (rp_data s) = concat (map snd ws) \<and>
        (rp_eof s \<or> drop (rp_pos s) (rp_data s) = [] \<longrightarrow> ws = []))"

lemma valid_nonempty: "valid_frame v \<Longrightarrow> snd v \<noteq> []"
  using ubx.wf_nonempty by blast

lemma ahead_feed:
  assumes a: "ahead vs s" and p: "rp_pending s = []" and d: "data = take REPLAY_READ (drop (rp_pos s) (rp_data s))" "data \<noteq> []"
    and f: "framer_feed clk (rp_framer s) data = (fr, fs)"
  shows "ahead vs (s\<lparr>rp_pos := rp_pos s + length data, rp_framer := fr, rp_pending := fs\<rparr>)"
proof -
  let ?rest = "drop (length data) (drop (rp_pos s) (rp_data s))"
  obtain ws where w: "vs = ws" "list_all cuttable ws" "f_buf (rp_framer s) @ data @ ?rest = concat (map snd ws)"
    "rp_open s" "length (f_buf (rp_framer s)) \<le> 8199"
    "f_max (rp_framer s) = FRAMER_BUFFER" "\<not> rp_eof s"
  proof -
    have "take n xs @ drop (length (take n xs)) xs = xs" for n and xs :: bytes by (cases "n \<le> length xs") simp_all
    then have "data @ ?rest = drop (rp_pos s) (rp_data s)" unfolding d(1) by blast
    moreover have "concat (map snd ws) \<noteq> [] \<Longrightarrow> ws \<noteq> []" for ws :: "(proto \<times> bytes) list" by auto
    ultimately show ?thesis using a p d(2) that unfolding ahead_def by force
  qed
  have "length data \<le> REPLAY_READ" using d(1) by simp
  then have loop: "framer_loop clk (f_push (rp_framer s) data) = (fr, fs)"
    using feed_untrimmed [of "rp_framer s" data clk] w(5,6) f
    by (simp add: free_feed_def REPLAY_READ_def FRAMER_BUFFER_def)
  have "f_buf (f_push (rp_framer s) data) @ ?rest = concat (map snd ws)" using w(3) by simp
  from framer_loop_frames [OF w(2) this loop]
  obtain ws2 where s: "ws = map frame_view fs @ ws2" "f_buf fr @ ?rest = concat (map snd ws2)" "?rest = [] \<longrightarrow> ws2 = []"
    by blast
  have fr: "length (f_buf fr) \<le> 8199" "f_max fr = FRAMER_BUFFER"
    using kept.loop_cap [OF loop] framer_loop_max [OF loop] w(6) by (simp_all add: f_push_def)
  have "drop (rp_pos s + length data) (rp_data s) = ?rest" by (simp add: add.commute)
  then show ?thesis using w s fr unfolding ahead_def by auto
qed

text \<open>What the reads leave alone.\<close>

definition same_source :: "replay \<Rightarrow> replay \<Rightarrow> bool" where
  "same_source s t \<longleftrightarrow>
     rp_data t = rp_data s \<and> rp_speed t = rp_speed s \<and> rp_loop t = rp_loop s \<and> rp_open t = rp_open s \<and> rp_marker t = rp_marker s"

definition same_clock :: "replay \<Rightarrow> replay \<Rightarrow> bool" where
  "same_clock s t \<longleftrightarrow>
     rp_eoe_since_pvt t = rp_eoe_since_pvt s \<and> rp_last_itow t = rp_last_itow s \<and> sum_list (rp_slept t) = sum_list (rp_slept s)"

lemma same_refl [simp]: "same_source s s" "same_clock s s"
  by (simp_all add: same_source_def same_clock_def)

lemma same_source_trans [trans]: "same_source s t \<Longrightarrow> same_source t u \<Longrightarrow> same_source s u"
  by (simp add: same_source_def)

lemma ahead_sleep [simp]: "ahead vs (sleep t s) = ahead vs s"
  by (simp add: ahead_def sleep_def)

lemma ahead_taken:
  assumes "ahead vs s" "rp_pending s = f # fs"
  shows "\<exists>us. vs = frame_view f # us \<and> ahead us (s\<lparr>rp_pending := fs, rp_frames := n\<rparr>)"
  using assms unfolding ahead_def by auto

lemma ahead_done:
  assumes "ahead vs s" "rp_pending s = []" "rp_eof s \<or> drop (rp_pos s) (rp_data s) = []"
  shows "vs = [] \<and> ahead [] (s\<lparr>rp_eof := b\<rparr>)"
  using assms unfolding ahead_def by auto

lemma next_frame_ahead:
  "next_frame clk n s = (r, t) \<Longrightarrow> ahead vs s \<Longrightarrow>
     same_source s t \<and> same_clock s t \<and>
     (case vs of [] \<Rightarrow> r = None \<and> ahead [] t | v # us \<Rightarrow> \<exists>f. r = Some f \<and> frame_view f = v \<and> ahead us t)"
proof (induction clk n s arbitrary: r t rule: next_frame.induct)
  case (1 clk n s)
  show ?case
  proof (cases "rp_pending s")
    case (Cons f fs)
    then have "r = Some f" "t = s\<lparr>rp_pending := fs, rp_frames := rp_frames s + 1\<rparr>"
      using 1(3) by (auto simp: next_frame.simps)
    moreover obtain us where "vs = frame_view f # us" "ahead us (s\<lparr>rp_pending := fs, rp_frames := rp_frames s + 1\<rparr>)"
      using ahead_taken [OF 1(4) Cons] by blast
    ultimately show ?thesis by (simp add: same_source_def same_clock_def)
  next
    case Nil
    define data where "data = take REPLAY_READ (drop (rp_pos s) (rp_data s))"
    have op: "rp_open s" using 1(4) by (simp add: ahead_def)
    show ?thesis
    proof (cases "rp_eof s \<or> data = []")
      case True
      have "next_frame clk n s = (None, s\<lparr>rp_eof := True\<rparr>)"
      proof (cases "rp_eof s")
        case e: True
        then show ?thesis using Nil by (subst next_frame.simps) (cases s, simp)
      next
        case False
        then show ?thesis using Nil op True unfolding data_def by (subst next_frame.simps) (simp add: Let_def)
      qed
      then have t: "r = None" "t = s\<lparr>rp_eof := True\<rparr>" using 1(3) by simp_all
      have "rp_eof s \<or> drop (rp_pos s) (rp_data s) = []" using True by (auto simp: data_def REPLAY_READ_def)
      from ahead_done [OF 1(4) Nil this, of True] show ?thesis using t by (simp add: same_source_def same_clock_def)
    next
      case False
      obtain fr fs where f: "framer_feed clk (rp_framer s) data = (fr, fs)" by fastforce
      let ?s = "s\<lparr>rp_pos := rp_pos s + length data, rp_framer := fr, rp_pending := fs\<rparr>"
      have a: "ahead vs ?s" using False by (intro ahead_feed [OF 1(4) Nil data_def _ f]) simp
      have s: "same_source s u = same_source ?s u" "same_clock s u = same_clock ?s u"
        "same_source (sleep 0 ?s) u = same_source ?s u" "same_clock (sleep 0 ?s) u = same_clock ?s u" for u
        by (simp_all add: same_source_def same_clock_def sleep_def)
      have "next_frame clk n s =
          (if fs = [] \<and> n + 1 \<ge> FRAMELESS_READS_PER_YIELD then next_frame clk 0 (sleep 0 ?s) else next_frame clk (n + 1) ?s)"
        using False Nil f op unfolding data_def by (subst next_frame.simps) (simp add: Let_def)
      then consider "fs = [] \<and> n + 1 \<ge> FRAMELESS_READS_PER_YIELD" "next_frame clk 0 (sleep 0 ?s) = (r, t)"
        | "\<not> (fs = [] \<and> n + 1 \<ge> FRAMELESS_READS_PER_YIELD)" "next_frame clk (n + 1) ?s = (r, t)"
        using 1(3) by (auto split: if_splits)
      then show ?thesis
      proof cases
        case 1
        show ?thesis unfolding s(1,2) unfolding s(3,4) [symmetric]
          by (rule "1.IH"(1) [OF Nil _ data_def _ f [symmetric] refl _ 1(1) 1(2)]) (use False op a in auto)
      next
        case 2
        show ?thesis unfolding s(1,2)
          by (rule "1.IH"(2) [OF Nil _ data_def _ f [symmetric] refl _ 2(1) 2(2)]) (use False op a in auto)
      qed
    qed
  qed
qed

section \<open>A file is read as its epochs\<close>

text \<open>
The contract of a read over the frames to come: a chunk is closed by NAV-EOE, by NAV-PVT in an
epoch that has shown no NAV-EOE since the last one, or because the next frame would not fit.
\<open>eoe\<close> says that NAV-EOE has been seen since the last NAV-PVT.
\<close>

definition view_is :: "proto \<times> bytes \<Rightarrow> byte \<times> byte \<Rightarrow> bool" where
  "view_is v cid \<longleftrightarrow> fst v = UBX \<and> (snd v ! 2, snd v ! 3) = cid"

fun take_epoch :: "bytes \<Rightarrow> bool \<Rightarrow> (proto \<times> bytes) list \<Rightarrow> bytes \<times> bool \<times> bool \<times> (proto \<times> bytes) list" where
  "take_epoch chunk eoe [] = (chunk, False, eoe, [])"
| "take_epoch chunk eoe (v # vs) =
     (if chunk \<noteq> [] \<and> length chunk + length (snd v) > MAX_REPLAY_CHUNK then (chunk, False, eoe, v # vs)
      else if view_is v NAV_EOE then (chunk @ snd v, True, True, vs)
      else if view_is v NAV_PVT then
        (if \<not> eoe then (chunk @ snd v, True, False, vs) else take_epoch (chunk @ snd v) False vs)
      else take_epoch (chunk @ snd v) eoe vs)"

definition wait_after :: "real \<Rightarrow> nat option \<Rightarrow> nat \<Rightarrow> real" where
  "wait_after speed before itow =
     (case before of
        None \<Rightarrow> 0
      | Some l \<Rightarrow> (let delta = (real itow - real l) / 1000 in if speed > 0 \<and> 0 < delta \<and> delta < 60 then delta / speed else 0))"

definition is_mark :: "proto \<times> bytes \<Rightarrow> bool" where
  "is_mark v \<longleftrightarrow> view_is v NAV_EOE \<or> view_is v NAV_PVT"

fun play_time :: "real \<Rightarrow> nat option \<Rightarrow> (proto \<times> bytes) list \<Rightarrow> real" where
  "play_time speed before [] = 0"
| "play_time speed before (v # vs) =
     (if is_mark v then wait_after speed before (itow_of (snd v)) + play_time speed (Some (itow_of (snd v))) vs
      else play_time speed before vs)"

lemma pace_fields [simp]:
  "rp_speed (pace t s) = rp_speed s" "rp_open (pace t s) = rp_open s" "rp_loop (pace t s) = rp_loop s"
  "rp_data (pace t s) = rp_data s" "rp_marker (pace t s) = rp_marker s" "rp_last_itow (pace t s) = Some t"
  "rp_eoe_since_pvt (pace t s) = rp_eoe_since_pvt s"
  "sum_list (rp_slept (pace t s)) = sum_list (rp_slept s) + wait_after (rp_speed s) (rp_last_itow s) t"
  by (simp_all add: pace_def sleep_def Let_def wait_after_def split: option.split)

lemma ahead_pace [simp]: "ahead vs (pace t s) = ahead vs s" "ahead vs (s\<lparr>rp_eoe_since_pvt := b\<rparr>) = ahead vs s"
  by (simp_all add: pace_def sleep_def Let_def ahead_def split: option.split)

lemma ahead_untake:
  assumes "ahead vs s" "cuttable (frame_view f)"
  shows "ahead (frame_view f # vs) (s\<lparr>rp_pending := f # rp_pending s, rp_frames := n\<rparr>)"
  using assms unfolding ahead_def by auto

lemma is_ubx_view: "is_ubx f cid = view_is (frame_view f) cid"
  by (simp add: is_ubx_def view_is_def frame_view_def)

text \<open>The state after a read: what is to come, the flag, and the time still to wait.\<close>

definition reads_on :: "replay \<Rightarrow> (proto \<times> bytes) list \<Rightarrow> bool \<Rightarrow> real \<Rightarrow> replay \<Rightarrow> bool" where
  "reads_on s vs eoe t0 t \<longleftrightarrow>
     same_source s t \<and> ahead vs t \<and> rp_eoe_since_pvt t = eoe \<and>
     sum_list (rp_slept t) + play_time (rp_speed t) (rp_last_itow t) vs = t0"

lemma reads_onD:
  assumes "reads_on s vs eoe t0 t"
  shows "same_source s t" "ahead vs t" "rp_eoe_since_pvt t = eoe"
    "sum_list (rp_slept t) + play_time (rp_speed t) (rp_last_itow t) vs = t0" "list_all cuttable vs" "rp_open t"
  using assms by (auto simp: reads_on_def ahead_def)

lemma read_loop_epoch:
  "reads_on s0 vs eoe t0 s \<Longrightarrow> chunk \<noteq> [] \<or> vs \<noteq> [] \<or> rewound \<or> \<not> rp_loop s \<Longrightarrow>
   take_epoch chunk eoe vs = (c, m, e, us) \<Longrightarrow>
   \<exists>t. read_loop clk chunk rewound s = (c, m, t) \<and> reads_on s0 us e t0 t"
proof (induction vs arbitrary: chunk eoe s)
  case Nil
  obtain r t where n: "next_frame clk 0 s = (r, t)" by fastforce
  have a: "same_source s t" "same_clock s t" "r = None" "ahead [] t"
    using next_frame_ahead [OF n reads_onD(2) [OF Nil(1)]] by simp_all
  then have "read_loop clk chunk rewound s = (chunk, False, t)"
    using n Nil(2) by (subst read_loop.simps) (auto simp: same_source_def)
  moreover have "reads_on s0 [] eoe t0 t"
    using a Nil(1) by (auto simp: reads_on_def same_source_def same_clock_def)
  ultimately show ?case using Nil(3) by auto
next
  case (Cons v vs)
  obtain r t where n: "next_frame clk 0 s = (r, t)" by fastforce
  obtain f where a: "same_source s t" "same_clock s t" "r = Some f" "frame_view f = v" "ahead vs t"
    using next_frame_ahead [OF n reads_onD(2) [OF Cons(2)]] by auto
  have raw: "fr_raw f = snd v" and cut: "cuttable v"
    using a(4) reads_onD(5) [OF Cons(2)] by (auto simp: frame_view_def)
  then have val: "valid_frame v" by (simp add: cuttable_def)
  have src: "same_source s0 t" "rp_eoe_since_pvt t = eoe" "rp_speed t = rp_speed s" "rp_loop t = rp_loop s"
    "sum_list (rp_slept t) + play_time (rp_speed t) (rp_last_itow t) (v # vs) = t0"
    using a(1,2) Cons(2) by (auto simp: reads_on_def same_source_def same_clock_def)
  have ne: "chunk @ snd v \<noteq> []" using valid_nonempty [OF val] by simp
  note loop = read_loop.simps [of clk chunk rewound s, unfolded n a(3) prod.case option.case, unfolded raw is_ubx_view a(4) Let_def]
  let ?t = "pace (itow_of (snd v)) t"
  show ?case
  proof (cases "chunk \<noteq> [] \<and> length chunk + length (snd v) > MAX_REPLAY_CHUNK")
    case True
    have "reads_on s0 (v # vs) eoe t0 (t\<lparr>rp_pending := f # rp_pending t, rp_frames := rp_frames t - 1\<rparr>)"
      using src cut ahead_untake [OF a(5), of f] a(4) by (simp add: reads_on_def same_source_def)
    then show ?thesis using True Cons(4) loop by simp
  next
    case fits: False
    note loop = loop [unfolded if_not_P [OF fits]]
      and te = Cons(4) [unfolded take_epoch.simps if_not_P [OF fits]]
    have marked: "reads_on s0 vs b t0 (?t\<lparr>rp_eoe_since_pvt := b\<rparr>)" if "is_mark v" for b
      using src a(5) that by (simp add: reads_on_def same_source_def)
    have mp: "pace i (t\<lparr>rp_eoe_since_pvt := b\<rparr>) = (pace i t)\<lparr>rp_eoe_since_pvt := b\<rparr>" for i b
      by (simp add: pace_def sleep_def Let_def split: option.split)
    consider "view_is v NAV_EOE" | "\<not> view_is v NAV_EOE" "view_is v NAV_PVT" | "\<not> is_mark v" by (auto simp: is_mark_def)
    then show ?thesis
    proof cases
      case 1
      then show ?thesis using te loop marked [of True] by (simp add: is_mark_def mp)
    next
      case 2
      show ?thesis
      proof (cases eoe)
        case True
        then have "read_loop clk chunk rewound s = read_loop clk (chunk @ snd v) rewound (?t\<lparr>rp_eoe_since_pvt := False\<rparr>)"
          "take_epoch (chunk @ snd v) False vs = (c, m, e, us)"
          using te loop 2 src(2) by simp_all
        then show ?thesis using Cons(1) [OF marked [of False], of "chunk @ snd v"] 2 ne by (simp add: is_mark_def)
      next
        case False
        then show ?thesis using te loop marked [of False] 2 src(2) by (simp add: is_mark_def)
      qed
    next
      case 3
      then have "read_loop clk chunk rewound s = read_loop clk (chunk @ snd v) rewound t"
        "take_epoch (chunk @ snd v) eoe vs = (c, m, e, us)"
        using te loop by (simp_all add: is_mark_def)
      moreover have "reads_on s0 vs eoe t0 t" using src a(5) 3 by (simp add: reads_on_def)
      ultimately show ?thesis using Cons(1) [of eoe t "chunk @ snd v"] ne by simp
    qed
  qed
qed

text \<open>Cutting frames into epochs.\<close>

lemma take_epoch_cases:
  "take_epoch chunk eoe (v # vs) = (chunk, False, eoe, v # vs) \<and> chunk \<noteq> [] \<or>
   (\<exists>b d. take_epoch chunk eoe (v # vs) = (chunk @ snd v, b, d, vs)) \<or>
   (\<exists>d. take_epoch chunk eoe (v # vs) = take_epoch (chunk @ snd v) d vs)"
proof (cases "chunk \<noteq> [] \<and> length chunk + length (snd v) > MAX_REPLAY_CHUNK")
  case False
  note te = take_epoch.simps(2) [of chunk eoe v vs, unfolded if_not_P [OF False]]
  show ?thesis unfolding te by (cases "view_is v NAV_EOE"; cases "view_is v NAV_PVT"; cases eoe; simp; blast)
qed simp

lemma take_epoch_split:
  "take_epoch chunk eoe vs = (c, m, e, us) \<Longrightarrow> \<exists>ps. vs = ps @ us \<and> c = chunk @ concat (map snd ps) \<and> (chunk = [] \<and> vs \<noteq> [] \<longrightarrow> ps \<noteq> [])"
proof (induction vs arbitrary: chunk eoe)
  case (Cons v vs)
  consider "take_epoch chunk eoe (v # vs) = (chunk, False, eoe, v # vs)" "chunk \<noteq> []"
    | b d where "take_epoch chunk eoe (v # vs) = (chunk @ snd v, b, d, vs)"
    | d where "take_epoch chunk eoe (v # vs) = take_epoch (chunk @ snd v) d vs"
    using take_epoch_cases by blast
  then show ?case
  proof cases
    case 1
    then show ?thesis using Cons(2) by auto
  next
    case 2
    then show ?thesis using Cons(2) by (intro exI [of _ "[v]"]) simp
  next
    case 3
    then obtain ps where "vs = ps @ us" "c = (chunk @ snd v) @ concat (map snd ps)" using Cons(1) [of "chunk @ snd v" d] Cons(2) by auto
    then show ?thesis by (intro exI [of _ "v # ps"]) simp
  qed
qed simp

lemma take_epoch_shorter: "take_epoch [] eoe vs = (c, m, e, us) \<Longrightarrow> vs \<noteq> [] \<Longrightarrow> length us < length vs"
  by (drule take_epoch_split) auto

lemma take_epoch_fits:
  "take_epoch chunk eoe vs = (c, m, e, us) \<Longrightarrow> length chunk \<le> MAX_REPLAY_CHUNK \<Longrightarrow>
   list_all (\<lambda>v. length (snd v) \<le> MAX_REPLAY_CHUNK) vs \<Longrightarrow> length c \<le> MAX_REPLAY_CHUNK"
proof (induction vs arbitrary: chunk eoe)
  case (Cons v vs)
  then show ?case by (cases "chunk = []") (auto split: if_splits)
qed simp

function epochs :: "bool \<Rightarrow> (proto \<times> bytes) list \<Rightarrow> bytes list" where
  "epochs eoe vs = (if vs = [] then [] else (let (c, m, e, us) = take_epoch [] eoe vs in c # epochs e us))"
  by pat_completeness auto
termination
  by (relation "measure (\<lambda>(e, vs). length vs)") (auto dest: take_epoch_shorter [OF sym])

declare epochs.simps [simp del]

lemma epochs_Nil [simp]: "epochs eoe [] = []"
  by (simp add: epochs.simps)

lemma epochs_step: "vs \<noteq> [] \<Longrightarrow> take_epoch [] eoe vs = (c, m, e, us) \<Longrightarrow> epochs eoe vs = c # epochs e us"
  by (subst epochs.simps) simp

lemma epochs_laws:
  "list_all valid_frame vs \<Longrightarrow>
   concat (epochs eoe vs) = concat (map snd vs) \<and> list_all (\<lambda>c. 0 < length c) (epochs eoe vs) \<and>
   (list_all (\<lambda>v. length (snd v) \<le> MAX_REPLAY_CHUNK) vs \<longrightarrow> list_all (\<lambda>c. length c \<le> MAX_REPLAY_CHUNK) (epochs eoe vs))"
proof (induction eoe vs rule: epochs.induct)
  case (1 eoe vs)
  show ?case
  proof (cases "vs = []")
    case False
    obtain c m e us where t: "take_epoch [] eoe vs = (c, m, e, us)" by (metis prod_cases4)
    obtain ps where p: "vs = ps @ us" "c = concat (map snd ps)" "ps \<noteq> []" using take_epoch_split [OF t] False by auto
    have "c \<noteq> []" using p 1(2) valid_nonempty by (cases ps) auto
    moreover have "list_all (\<lambda>v. length (snd v) \<le> MAX_REPLAY_CHUNK) vs \<longrightarrow> length c \<le> MAX_REPLAY_CHUNK"
      using take_epoch_fits [OF t] by simp
    ultimately show ?thesis
      using 1(1) [OF False t [symmetric] refl refl refl] 1(2) p epochs_step [OF False t] by auto
  qed simp
qed

section \<open>Reading a file to its end\<close>

fun replay_reads :: "(real \<times> real) list \<Rightarrow> replay \<Rightarrow> bytes list \<times> replay" where
  "replay_reads [] s = ([], s)"
| "replay_reads (clk # clks) s =
     (let (c, s1) = replay_read clk s; (cs, s2) = replay_reads clks s1 in (c # cs, s2))"

lemma reads_on_sleep [simp]: "reads_on s0 vs e t0 (sleep 0 s) = reads_on s0 vs e t0 s"
  by (simp add: reads_on_def same_source_def sleep_def ahead_def)

lemma reads_on_loop: "reads_on s0 vs e t0 s \<Longrightarrow> rp_loop s = rp_loop s0"
  by (simp add: reads_on_def same_source_def)

lemma read_epoch:
  assumes "reads_on s0 vs eoe t0 s" "vs \<noteq> []" "take_epoch [] eoe vs = (c, m, e, us)"
  shows "\<exists>t. replay_read clk s = (c, t) \<and> reads_on s0 us e t0 t"
proof -
  obtain t where "read_loop clk [] False s = (c, m, t)" "reads_on s0 us e t0 t"
    using read_loop_epoch [OF assms(1) _ assms(3), of False clk] assms(2) by blast
  then show ?thesis by (auto simp: replay_read_def)
qed

lemma read_end:
  assumes "reads_on s0 [] eoe t0 s" "\<not> rp_loop s0"
  shows "\<exists>t. replay_read clk s = ([], t) \<and> reads_on s0 [] eoe t0 t"
proof -
  obtain t where "read_loop clk [] False s = ([], False, t)" "reads_on s0 [] eoe t0 t"
    using read_loop_epoch [OF assms(1), of "[]" False "[]" False eoe "[]" clk] assms(2) reads_on_loop [OF assms(1)] by auto
  then show ?thesis by (auto simp: replay_read_def)
qed

lemma reads_epochs:
  "reads_on s0 vs eoe t0 s \<Longrightarrow> \<not> rp_loop s0 \<Longrightarrow> length clks = length (epochs eoe vs) + k \<Longrightarrow>
   \<exists>t e. replay_reads clks s = (epochs eoe vs @ replicate k [], t) \<and> reads_on s0 [] e t0 t"
proof (induction clks arbitrary: vs eoe s k)
  case Nil
  then show ?case by (cases "vs = []") (auto simp: epochs.simps [of eoe vs] split: prod.splits)
next
  case (Cons clk clks)
  show ?case
  proof (cases "vs = []")
    case True
    then obtain j where k: "k = Suc j" using Cons(4) by (cases k) auto
    obtain t where t: "replay_read clk s = ([], t)" "reads_on s0 [] eoe t0 t" using read_end Cons(2,3) True by blast
    then show ?thesis using Cons(1) [OF t(2) Cons(3), of j] Cons(4) True k by (auto split: prod.splits)
  next
    case False
    obtain c m e us where ep: "take_epoch [] eoe vs = (c, m, e, us)" by (metis prod_cases4)
    obtain t where t: "replay_read clk s = (c, t)" "reads_on s0 us e t0 t" using read_epoch [OF Cons(2) False ep] by blast
    then show ?thesis using Cons(1) [OF t(2) Cons(3), of k] Cons(4) epochs_step [OF False ep] by (auto split: prod.splits)
  qed
qed

lemma open_ahead:
  assumes "list_all cuttable vs" "rp_data s = concat (map snd vs)" "rp_open s"
  shows "reads_on s vs (rp_marker s = NAV_EOE) (sum_list (rp_slept s) + play_time (rp_speed s) None vs) (rewind s)"
proof -
  have "concat (map snd vs) = [] \<Longrightarrow> vs = []" using valid_nonempty cuttable_valid [OF assms(1)] by (cases vs) auto
  then show ?thesis using assms by (simp add: reads_on_def ahead_def same_source_def rewind_def framer_init_def)
qed

lemma replay_open_ahead:
  assumes "list_all cuttable vs"
  shows "\<exists>s0. rp_loop s0 = repeat \<and> rp_data s0 = concat (map snd vs) \<and> rp_open s0 \<and>
    (rp_marker s0 = NAV_EOE) = has_nav_eoe (concat (map snd vs)) \<and>
    reads_on s0 vs (has_nav_eoe (concat (map snd vs))) (play_time speed None vs)
      (replay_open (concat (map snd vs)) speed repeat baud)"
proof -
  let ?file = "concat (map snd vs)"
  let ?s = "\<lparr>rp_data = ?file, rp_speed = speed, rp_loop = repeat, rp_baud = baud, rp_open = True, rp_pos = 0,
       rp_framer = framer_init FRAMER_BUFFER, rp_pending = [], rp_eof = False,
       rp_marker = (if has_nav_eoe ?file then NAV_EOE else NAV_PVT), rp_eoe_since_pvt = False, rp_last_itow = None,
       rp_frames = 0, rp_slept = []\<rparr>"
  have m: "(rp_marker ?s = NAV_EOE) = has_nav_eoe ?file" by (simp add: NAV_EOE_def NAV_PVT_def)
  show ?thesis
    using open_ahead [of vs ?s] assms m by (intro exI [of _ ?s]) (simp add: replay_open_def)
qed

lemma valid_size:
  assumes "valid_frame v"
  shows "length (snd v) \<le> MAX_REPLAY_CHUNK"
proof -
  have "length (snd v) \<le> 8200"
  proof (cases "fst v")
    case RTCM3
    then have "length (snd v) = 6 + nat (push_bit 8 (uint (snd v ! 1) AND 0x03) OR uint (snd v ! 2))"
      using assms by (simp add: valid_frame_def valid_rtcm_def del: push_bit_and)
    also have "\<dots> \<le> 6 + 1023" using rtcm_len_le by (rule add_left_mono)
    finally show ?thesis by simp
  qed (use assms in \<open>simp_all add: valid_frame_def valid_ubx_def valid_nmea_def UBX_MAX_PAYLOAD_def NMEA_MAX_LEN_def\<close>)
  then show ?thesis by (simp add: MAX_REPLAY_CHUNK_def)
qed

lemma epochs_cut:
  assumes "list_all valid_frame vs"
  shows "concat (epochs eoe vs) = concat (map snd vs)" "list_all (\<lambda>c. 0 < length c \<and> length c \<le> MAX_REPLAY_CHUNK) (epochs eoe vs)"
  using epochs_laws [OF assms, of eoe] valid_size assms by (auto simp: list_all_iff)

text \<open>A file that repeats: the state somewhere in a pass.\<close>

lemma read_again:
  assumes s: "reads_on s0 [] e t0 s" and l: "rp_loop s0" and vs: "list_all cuttable vs" "vs \<noteq> []"
    "rp_data s0 = concat (map snd vs)"
    and ep: "take_epoch [] (rp_marker s0 = NAV_EOE) vs = (c, m, e', us)"
  shows "\<exists>t t1. replay_read clk s = (c, t) \<and> reads_on s0 us e' t1 t"
proof -
  obtain r t where n: "next_frame clk 0 s = (r, t)" by fastforce
  have a: "same_source s t" "r = None" "ahead [] t"
    using next_frame_ahead [OF n reads_onD(2) [OF s]] by simp_all
  have src: "same_source s0 t" using same_source_trans [OF reads_onD(1) [OF s] a(1)] .
  have "rp_open t" using a(3) by (simp add: ahead_def)
  then have "reads_on t vs (rp_marker t = NAV_EOE) (sum_list (rp_slept t) + play_time (rp_speed t) None vs) (rewind t)"
    using open_ahead [OF vs(1), of t] vs(3) src by (simp add: same_source_def)
  then have r: "reads_on s0 vs (rp_marker s0 = NAV_EOE) (sum_list (rp_slept t) + play_time (rp_speed t) None vs) (rewind t)"
    using src unfolding reads_on_def same_source_def by auto
  have "read_loop clk [] False s = read_loop clk [] True (rewind t)"
    using n a(2) l src \<open>rp_open t\<close> by (subst read_loop.simps) (simp add: same_source_def)
  moreover obtain u where "read_loop clk [] True (rewind t) = (c, m, u)"
    "reads_on s0 us e' (sum_list (rp_slept t) + play_time (rp_speed t) None vs) u"
    using read_loop_epoch [OF r _ ep, of True clk] by blast
  ultimately show ?thesis by (auto simp: replay_read_def)
qed

lemma epochs_Nil_iff [simp]: "epochs e us = [] \<longleftrightarrow> us = []"
  by (auto simp: epochs.simps [of e us] split: prod.splits)

lemma reads_again:
  assumes l: "rp_loop s0" and vs: "list_all cuttable vs" "vs \<noteq> []"
    "rp_data s0 = concat (map snd vs)"
    and E: "E = epochs (rp_marker s0 = NAV_EOE) vs"
  shows "reads_on s0 us e t0 s \<Longrightarrow> epochs e us = drop j E \<Longrightarrow> j \<le> length E \<Longrightarrow>
    fst (replay_reads clks s) = map (\<lambda>i. E ! ((i + j) mod length E)) [0..<length clks]"
proof (induction clks arbitrary: us e t0 s j)
  case (Cons clk clks)
  have ne: "0 < length E" using E vs(2) by simp
  have up: "[0..<length (clk # clks)] = 0 # map Suc [0..<length clks]" by (simp add: map_Suc_upt upt_conv_Cons del: upt_Suc)
  have last: "\<exists>k e' us' t t1. k < length E \<and> k = j mod length E \<and> replay_read clk s = (E ! k, t) \<and>
      reads_on s0 us' e' t1 t \<and> epochs e' us' = drop (Suc k) E"
  proof (cases "us = []")
    case True
    then have j: "j = length E" using Cons(3,4) by simp
    obtain c m e' us' where ep: "take_epoch [] (rp_marker s0 = NAV_EOE) vs = (c, m, e', us')" by (metis prod_cases4)
    have "E = c # epochs e' us'" using E epochs_step [OF vs(2) ep] by simp
    moreover obtain t t1 where "replay_read clk s = (c, t)" "reads_on s0 us' e' t1 t"
      using read_again [OF Cons(2) [unfolded True] l vs ep] by blast
    ultimately show ?thesis
      using j by (intro exI [of _ 0] exI [of _ e'] exI [of _ us'] exI [of _ t] exI [of _ t1]) simp
  next
    case False
    obtain c m e' us' where ep: "take_epoch [] e us = (c, m, e', us')" by (metis prod_cases4)
    have d: "drop j E = c # epochs e' us'" using Cons(3) epochs_step [OF False ep] by simp
    then have j: "j < length E" by (cases "j < length E") simp_all
    note jd = Cons_nth_drop_Suc [OF j, unfolded d]
    obtain t where "replay_read clk s = (c, t)" "reads_on s0 us' e' t0 t" using read_epoch [OF Cons(2) False ep] by blast
    moreover have "E ! j = c" "drop (Suc j) E = epochs e' us'" using jd by simp_all
    ultimately show ?thesis
      using j by (intro exI [of _ j] exI [of _ e'] exI [of _ us'] exI [of _ t] exI [of _ t0]) simp
  qed
  then obtain k e' us' t t1 where k: "k < length E" "k = j mod length E" "replay_read clk s = (E ! k, t)"
    "reads_on s0 us' e' t1 t" "epochs e' us' = drop (Suc k) E" by blast
  have c: "fst (replay_reads clks t) = map (\<lambda>i. E ! ((i + Suc k) mod length E)) [0..<length clks]"
    using Cons(1) [OF k(4,5)] k(1) by simp
  have m: "(i + Suc k) mod length E = (Suc i + j) mod length E" for i
    using k(2) by (metis add_Suc_shift mod_add_right_eq)
  have "fst (replay_reads (clk # clks) s) = E ! k # fst (replay_reads clks t)"
    using k(3) by (simp split: prod.splits)
  then show ?case unfolding up c m by (simp add: comp_def k(2))
qed simp

section \<open>The first marker\<close>

definition eoe_at :: "bytes \<Rightarrow> nat \<Rightarrow> bool" where
  "eoe_at w k \<longleftrightarrow> k + 12 \<le> length w \<and> take 6 (drop k w) = EOE_HEAD \<and>
     drop 10 (py_slice k (k + 12) w) = ubx_checksum (py_slice 2 10 (py_slice k (k + 12) w))"

lemma eoe_from_iff: "eoe_from w s \<longleftrightarrow> (\<exists>k\<ge>s. eoe_at w k)"
proof (induction w s rule: eoe_from.induct)
  case (1 w s)
  have len: "length EOE_HEAD = 6" by (simp add: EOE_HEAD_def)
  show ?case
  proof (cases "find_sub EOE_HEAD (drop s w)")
    case None
    have "\<not> eoe_at w k" if "s \<le> k" for k
      using None that unfolding find_sub_None len
      by (auto simp: eoe_at_def dest: spec [of _ "k - s"])
    then show ?thesis using None by (subst eoe_from.simps) auto
  next
    case (Some j)
    have h: "take 6 (drop (s + j) w) = EOE_HEAD"
      using find_sub_Some_take [OF Some] by (simp add: len add.commute)
    have first: "\<not> eoe_at w k" if "s \<le> k" "k < s + j" for k
      using find_sub_first [OF Some, of "k - s"] that by (auto simp: len eoe_at_def)
    have step: "(\<exists>k\<ge>s. eoe_at w k) \<longleftrightarrow> eoe_at w (s + j) \<or> (\<exists>k\<ge>s + j + 1. eoe_at w k)"
    proof
      assume "\<exists>k\<ge>s. eoe_at w k"
      then obtain k where k: "s \<le> k" "eoe_at w k" by blast
      then have "s + j \<le> k" using first by (meson not_le)
      then show "eoe_at w (s + j) \<or> (\<exists>k\<ge>s + j + 1. eoe_at w k)"
        using k(2) by (cases "k = s + j") (auto intro!: exI [of _ k])
    next
      assume "eoe_at w (s + j) \<or> (\<exists>k\<ge>s + j + 1. eoe_at w k)"
      then consider "eoe_at w (s + j)" | k where "s + j + 1 \<le> k" "eoe_at w k" by blast
      then show "\<exists>k\<ge>s. eoe_at w k"
      proof cases
        case 1
        then show ?thesis by (intro exI [of _ "s + j"]) simp
      next
        case (2 k)
        then show ?thesis by (intro exI [of _ k]) simp
      qed
    qed
    show ?thesis
    proof (cases "s + j + 12 \<le> length w")
      case True
      have e: "eoe_from w s = (eoe_at w (s + j) \<or> eoe_from w (s + j + 1))"
        using Some True h by (subst eoe_from.simps) (simp add: Let_def eoe_at_def)
      show ?thesis
      proof (cases "eoe_at w (s + j)")
        case False
        then show ?thesis using 1 [OF Some refl True refl] True h e step by (simp add: eoe_at_def)
      qed (use e step in simp)
    next
      case False
      then have "\<not> eoe_at w k" if "s + j \<le> k" for k using that by (simp add: eoe_at_def)
      then have "\<not> (\<exists>k\<ge>s. eoe_at w k)" unfolding step by simp
      moreover have "\<not> eoe_from w s" using Some False by (subst eoe_from.simps) (simp add: Let_def)
      ultimately show ?thesis by blast
    qed
  qed
qed

lemma eoe_at_iff:
  "eoe_at w k \<longleftrightarrow> k + 12 \<le> length w \<and> valid_frame (UBX, py_slice k (k + 12) w) \<and> view_is (UBX, py_slice k (k + 12) w) NAV_EOE"
proof (cases "k + 12 \<le> length w")
  case True
  define r where "r = py_slice k (k + 12) w"
  have l: "length r = 12" using True by (simp add: r_def)
  then obtain a b c d e f g where r: "r = a # b # c # d # e # f # g" "length g = 6"
    by (auto simp: numeral_eq_Suc length_Suc_conv)
  have "take 6 (drop k w) = take 6 r" by (simp add: r_def py_slice_def)
  then have h: "take 6 (drop k w) = EOE_HEAD \<longleftrightarrow> a = 0xB5 \<and> b = 0x62 \<and> c = 1 \<and> d = 0x61 \<and> e = 4 \<and> f = 0"
    by (simp add: r EOE_HEAD_def)
  have "uint e OR push_bit 8 (uint f) = uint e + 256 * uint f" by (rule or_push_8) simp_all
  moreover have "e = 4 \<longleftrightarrow> uint e = 4" "f = 0 \<longleftrightarrow> uint f = 0" by (simp_all add: word_uint_eq_iff)
  ultimately have "12 = 8 + nat (uint e OR push_bit 8 (uint f)) \<longleftrightarrow> e = 4 \<and> f = 0"
    using uint_byte_bounds [of e] uint_byte_bounds [of f] by linarith
  then show ?thesis using True l h
    unfolding eoe_at_def valid_frame_def view_is_def valid_ubx_def r_def [symmetric] NAV_EOE_def
    by (auto simp: r UBX_MAX_PAYLOAD_def)
qed (simp add: eoe_at_def)

lemma has_nav_eoe_head: "has_nav_eoe file = eoe_from (take 65536 file) 0"
proof (cases "file = []")
  case True
  then show ?thesis unfolding has_nav_eoe_def by (subst eoe_in.simps) (simp add: REPLAY_HEAD_SCAN_def eoe_from_iff eoe_at_def)
next
  case False
  have stop: "\<not> eoe_in t (65536 - min (length file) 65536) (drop (min (length file) 65536) file)" for t
    by (cases "length file \<le> 65536"; subst eoe_in.simps) simp_all
  show ?thesis
    unfolding has_nav_eoe_def using stop False by (subst eoe_in.simps) (simp add: REPLAY_HEAD_SCAN_def REPLAY_READ_def Let_def)
qed

text \<open>
  The search that picks the first marker says yes exactly when the first 65,536 bytes of the file hold a whole valid NAV-EOE
  frame, anywhere.
\<close>

lemma first_marker_found:
  "has_nav_eoe file \<longleftrightarrow>
   (\<exists>k. k + 12 \<le> min 65536 (length file) \<and> valid_frame (UBX, py_slice k (k + 12) file) \<and>
      view_is (UBX, py_slice k (k + 12) file) NAV_EOE)"
proof -
  have "py_slice k (k + 12) (take 65536 file) = py_slice k (k + 12) file" if "k + 12 \<le> 65536" for k
    using that by (simp add: py_slice_def drop_take)
  then show ?thesis
    unfolding has_nav_eoe_head eoe_from_iff eoe_at_iff by (auto simp: min_def split: if_splits)
qed

section \<open>Host pace\<close>

fun host_reads :: "nat \<Rightarrow> replay \<Rightarrow> bytes list \<times> replay" where
  "host_reads 0 s = ([], s)"
| "host_reads (Suc n) s = (let (c, s1) = read_host s; (cs, s2) = host_reads n s1 in (c # cs, s2))"

text \<open>The file comes out as it is, each byte after the ten bits it takes on the line.\<close>

lemma host_replay:
  "rp_open s \<Longrightarrow> \<not> rp_loop s \<Longrightarrow> 0 < rp_speed s \<Longrightarrow> length (rp_data s) \<le> rp_pos s + n * HOST_CHUNK \<Longrightarrow> host_reads n s = (cs, t) \<Longrightarrow>
   concat cs = drop (rp_pos s) (rp_data s) \<and> list_all (\<lambda>c. length c \<le> HOST_CHUNK) cs \<and>
   sum_list (rp_slept t) = sum_list (rp_slept s) + real (length (rp_data s) - rp_pos s) * 10 / rp_baud s / rp_speed s"
proof (induction n arbitrary: s cs t)
  case (Suc n)
  define c where "c = take HOST_CHUNK (drop (rp_pos s) (rp_data s))"
  define s1 where "s1 = (if c = [] then s else sleep (real (length c) * 10 / rp_baud s / rp_speed s) (s\<lparr>rp_pos := rp_pos s + length c\<rparr>))"
  have r: "read_host s = (c, s1)"
    using Suc.prems(1-3) by (simp add: read_host_def s1_def c_def Let_def)
  have f: "rp_open s1 = rp_open s" "rp_loop s1 = rp_loop s" "rp_speed s1 = rp_speed s" "rp_data s1 = rp_data s"
    "rp_baud s1 = rp_baud s" "rp_pos s1 = rp_pos s + length c"
    "sum_list (rp_slept s1) = sum_list (rp_slept s) + real (length c) * 10 / rp_baud s / rp_speed s"
    by (auto simp: s1_def sleep_def)
  have "length (rp_data s) \<le> rp_pos s + length c + n * HOST_CHUNK"
    using Suc.prems(4) by (auto simp: c_def)
  moreover obtain ds where ds: "host_reads n s1 = (ds, t)" "cs = c # ds" using Suc.prems(5) r by (auto split: prod.splits)
  ultimately have ih: "concat ds = drop (rp_pos s + length c) (rp_data s)" "list_all (\<lambda>c. length c \<le> HOST_CHUNK) ds"
    "sum_list (rp_slept t) = sum_list (rp_slept s) + real (length c) * 10 / rp_baud s / rp_speed s +
      real (length (rp_data s) - (rp_pos s + length c)) * 10 / rp_baud s / rp_speed s"
    using Suc.IH [of s1 ds t] Suc.prems(1-3) f by simp_all
  have "c @ drop (length c) (drop (rp_pos s) (rp_data s)) = drop (rp_pos s) (rp_data s)"
    unfolding c_def by (metis append_take_drop_id length_take min_def take_all linorder_le_cases drop_all append_Nil2)
  moreover have "real (length c) + real (length (rp_data s) - (rp_pos s + length c)) = real (length (rp_data s) - rp_pos s)"
    by (simp add: c_def of_nat_diff)
  ultimately show ?case
    using ih ds(2) by (simp add: add.commute c_def add_divide_distrib [symmetric] distrib_right [symmetric] add.assoc)
qed simp

section \<open>The time between markers\<close>

definition marks :: "(proto \<times> bytes) list \<Rightarrow> nat list" where
  "marks vs = map (\<lambda>v. itow_of (snd v)) (filter is_mark vs)"

text \<open>Markers in order, each less than a minute after the one before.\<close>

fun steady :: "nat list \<Rightarrow> bool" where
  "steady (x # y # ts) \<longleftrightarrow> x \<le> y \<and> y < x + 60000 \<and> steady (y # ts)"
| "steady _ \<longleftrightarrow> True"

lemma play_time_steady:
  "0 < speed \<Longrightarrow> steady (l # marks vs) \<Longrightarrow>
   play_time speed (Some l) vs = (real (last (l # marks vs)) - real l) / 1000 / speed"
proof (induction vs arbitrary: l)
  case (Cons v vs)
  show ?case
  proof (cases "is_mark v")
    case True
    define k where "k = itow_of (snd v)"
    have m: "marks (v # vs) = k # marks vs" using True by (simp add: marks_def k_def)
    have k: "l \<le> k" "k < l + 60000" "steady (k # marks vs)" using Cons(3) unfolding m by simp_all
    then have d: "real l \<le> real k" "real k - real l < 60000" by linarith+
    have "wait_after speed (Some l) k = (real k - real l) / 1000 / speed"
      using d Cons(2) by (simp add: wait_after_def Let_def)
    then have "play_time speed (Some l) (v # vs) =
        (real k - real l) / 1000 / speed + (real (last (k # marks vs)) - real k) / 1000 / speed"
      using True Cons(1) [OF Cons(2) k(3)] by (simp add: k_def)
    also have "\<dots> = (real (last (k # marks vs)) - real l) / 1000 / speed"
      by (simp add: add_divide_distrib [symmetric])
    finally show ?thesis by (simp add: m)
  next
    case False
    then have "marks (v # vs) = marks vs" by (simp add: marks_def)
    then show ?thesis using Cons False by simp
  qed
qed (simp add: marks_def)

lemma play_time_first:
  "0 < speed \<Longrightarrow> steady (marks vs) \<Longrightarrow> marks vs \<noteq> [] \<Longrightarrow>
   play_time speed None vs = (real (last (marks vs)) - real (hd (marks vs))) / 1000 / speed"
proof (induction vs)
  case (Cons v vs)
  show ?case
  proof (cases "is_mark v")
    case True
    then have "marks (v # vs) = itow_of (snd v) # marks vs" by (simp add: marks_def)
    then show ?thesis using Cons True play_time_steady [of speed "itow_of (snd v)" vs] by (simp add: wait_after_def)
  next
    case False
    then have "marks (v # vs) = marks vs" by (simp add: marks_def)
    then show ?thesis using Cons False by simp
  qed
qed (simp add: marks_def)

section \<open>Properties\<close>

text \<open>
  C35. Replaying a file that is a run of valid frames, of any length, in which no NMEA sentence is longer than the framer's
  \<open>NMEA_MAX_LEN\<close> of 256 bytes (a valid sentence of 257 or 258 bytes is lost when a read of the file ends in its last bytes),
  gives one chunk per read, each an epoch closed by its own marker, then the empty chunk for ever, and over and over again when
  the replay repeats: the read number \<open>i\<close> then gives the epoch \<open>i\<close> modulo their number. The chunks of a pass put together are
  the file, and none of them is empty or longer than the cap.
\<close>

theorem replay_gives_epochs:
  assumes "list_all cuttable vs" "vs \<noteq> []"
    and "cs = epochs (has_nav_eoe (concat (map snd vs))) vs" "length clks = length cs + k"
  shows "fst (replay_reads clks (replay_open (concat (map snd vs)) speed False baud)) = cs @ replicate k [] \<and>
    fst (replay_reads ticks (replay_open (concat (map snd vs)) speed True baud)) =
      map (\<lambda>i. cs ! (i mod length cs)) [0..<length ticks] \<and>
    concat cs = concat (map snd vs) \<and> list_all (\<lambda>c. 0 < length c \<and> length c \<le> MAX_REPLAY_CHUNK) cs"
proof -
  obtain s0 where s0: "\<not> rp_loop s0" "reads_on s0 vs (has_nav_eoe (concat (map snd vs))) (play_time speed None vs)
      (replay_open (concat (map snd vs)) speed False baud)"
    using replay_open_ahead [OF assms(1), of False speed baud] by blast
  have once: "\<exists>t. replay_reads clks (replay_open (concat (map snd vs)) speed False baud) = (cs @ replicate k [], t)"
    using reads_epochs [OF s0(2,1), of clks k] assms(3,4) by blast
  obtain s1 where s1: "rp_loop s1" "rp_data s1 = concat (map snd vs)" "(rp_marker s1 = NAV_EOE) = has_nav_eoe (concat (map snd vs))"
    "reads_on s1 vs (has_nav_eoe (concat (map snd vs))) (play_time speed None vs) (replay_open (concat (map snd vs)) speed True baud)"
    using replay_open_ahead [OF assms(1), of True speed baud] by blast
  have E: "cs = epochs (rp_marker s1 = NAV_EOE) vs" using s1(3) assms(3) by simp
  have again: "fst (replay_reads ticks (replay_open (concat (map snd vs)) speed True baud)) =
      map (\<lambda>i. cs ! (i mod length cs)) [0..<length ticks]"
    using reads_again [OF s1(1) assms(1,2) s1(2) E s1(4), of 0 ticks] assms(3) by simp
  show ?thesis using once again epochs_cut [OF cuttable_valid [OF assms(1)]] unfolding assms(3) by auto
qed

text \<open>
  C36. The replay keeps the recorded time: over a file that is a run of valid frames, no NMEA sentence in it longer than 256 bytes,
  replayed once, without repetition, at a speed above 0, with at least one marker and the times of its markers in order and each
  less than a minute after the one before, the time slept once there have been as many reads as epochs is the receiver time
  from the first marker to the last, divided by the speed.
\<close>

theorem replay_keeps_time:
  assumes "list_all cuttable vs" "0 < speed" "steady (marks vs)" "marks vs \<noteq> []"
    and "length (epochs (has_nav_eoe (concat (map snd vs))) vs) \<le> length clks"
  shows "sum_list (rp_slept (snd (replay_reads clks (replay_open (concat (map snd vs)) speed False baud)))) =
    (real (last (marks vs)) - real (hd (marks vs))) / 1000 / speed"
proof -
  obtain s0 where s0: "\<not> rp_loop s0" "reads_on s0 vs (has_nav_eoe (concat (map snd vs))) (play_time speed None vs)
      (replay_open (concat (map snd vs)) speed False baud)"
    using replay_open_ahead [OF assms(1), of False speed baud] by blast
  obtain k where "length clks = length (epochs (has_nav_eoe (concat (map snd vs))) vs) + k"
    using assms(5) le_iff_add by blast
  then obtain cs t e where "replay_reads clks (replay_open (concat (map snd vs)) speed False baud) = (cs, t)"
    "reads_on s0 [] e (play_time speed None vs) t"
    using reads_epochs [OF s0(2,1)] by blast
  then show ?thesis using reads_onD(4) [of s0 "[]" e _ t] play_time_first [OF assms(2,3,4)] by simp
qed

section \<open>Witnesses\<close>

definition eoe_1s :: bytes where "eoe_1s = [0xB5, 0x62, 0x01, 0x61, 4, 0, 0xE8, 3, 0, 0, 81, 112]"
definition eoe_2s :: bytes where "eoe_2s = [0xB5, 0x62, 0x01, 0x61, 4, 0, 0xD0, 7, 0, 0, 61, 28]"
definition two_seconds :: "(proto \<times> bytes) list" where "two_seconds = [(UBX, eoe_1s), (UBX, eoe_2s)]"

lemma two_seconds_valid:
  "list_all cuttable two_seconds" "two_seconds \<noteq> []"
  by (code_simp | simp add: two_seconds_def)+

lemma two_seconds_epochs: "epochs (has_nav_eoe (concat (map snd two_seconds))) two_seconds = [eoe_1s, eoe_2s]"
proof -
  have "eoe_at (concat (map snd two_seconds)) 0"
    by code_simp
  then have "has_nav_eoe (concat (map snd two_seconds))"
    unfolding has_nav_eoe_head eoe_from_iff by (auto simp: two_seconds_def eoe_1s_def eoe_2s_def)
  moreover have t: "epochs True ((UBX, r) # vs) = r # epochs True vs" if "r ! 2 = 1" "r ! 3 = 0x61" for r vs
    by (rule epochs_step [where m = True]) (simp_all add: view_is_def NAV_EOE_def that)
  have "epochs True two_seconds = [eoe_1s, eoe_2s]"
    unfolding two_seconds_def by (subst t, code_simp, code_simp, subst t, code_simp, code_simp) simp
  ultimately show ?thesis by simp
qed

lemma two_seconds_marks: "marks two_seconds = [1000, 2000]"
  by (simp add: marks_def two_seconds_def is_mark_def view_is_def NAV_EOE_def itow_of_def py_slice_def eoe_1s_def eoe_2s_def)

theorem replay_gives_epochs_witness:
  "fst (replay_reads [(0, 0), (1, 1), (2, 2), (3, 3)] (replay_open (concat (map snd two_seconds)) 1 False 115200)) =
    [eoe_1s, eoe_2s, [], []] \<and>
   fst (replay_reads [(0, 0), (1, 1), (2, 2), (3, 3), (4, 4)] (replay_open (concat (map snd two_seconds)) 1 True 115200)) =
    [eoe_1s, eoe_2s, eoe_1s, eoe_2s, eoe_1s]"
proof -
  have i: "[0..<length [(0 :: real, 0 :: real), (1, 1), (2, 2), (3, 3), (4, 4)]] = [0, 1, 2, 3, 4]" by (simp add: upt_conv_Cons)
  have n: "length [(0 :: real, 0 :: real), (1, 1), (2, 2), (3, 3)] =
      length (epochs (has_nav_eoe (concat (map snd two_seconds))) two_seconds) + 2"
    by (simp add: two_seconds_epochs)
  from replay_gives_epochs [OF two_seconds_valid refl n, of 1 115200 "[(0, 0), (1, 1), (2, 2), (3, 3), (4, 4)]"]
  show ?thesis unfolding two_seconds_epochs i
    by (simp del: upt_Suc replay_reads.simps add: numeral_2_eq_2 [symmetric]) (simp add: numeral_2_eq_2)
qed

theorem replay_keeps_time_witness:
  "sum_list (rp_slept (snd (replay_reads [(0, 0), (1, 1), (2, 2)] (replay_open (concat (map snd two_seconds)) 2 False 115200)))) = 1 / 2"
  using replay_keeps_time [OF two_seconds_valid(1), of 2 "[(0, 0), (1, 1), (2, 2)]" 115200]
  by (simp add: two_seconds_epochs two_seconds_marks)

end
