(* ===== verification/InsCapture.thy ===== *)
theory InsCapture
  imports Calendar
begin

text \<open>
  The hourly capture of an INS unit's raw stream, \<open>RawCapture\<close> of \<open>src/mtrtk/rover/drivers/ins_common.py\<close>: bytes buffered until the unit
  knows the time, one file and one sidecar per hour, rotation on the unit's clock projected between readings, the
  hold on a clock that steps back, and the resumption of an hour after a restart.

  A capture names its files by the hour alone, so that the file tree is two maps by hour. What a handle has written
  is the content of its file; \<open>rc_unflushed\<close> counts the bytes at its end that a crash may lose. A sidecar
  that is not one of the capture's own texts is \<open>Garbled\<close> (\<open>ValueError\<close> when it is loaded). One reading of the monotonic clock and one of
  the host's serve a whole step. An \<open>OSError\<close> of the file system is not modelled.
\<close>

section \<open>The state\<close>

definition CAPTURE_CAP_BYTES :: nat where "CAPTURE_CAP_BYTES = 8 * 1024 * 1024"
definition BACKSTEP_HOLD :: int where "BACKSTEP_HOLD = 5 * SECOND"
definition SIDECAR_EVERY_S :: real where "SIDECAR_EVERY_S = 10"
definition MIN_VALID_YEAR :: int where "MIN_VALID_YEAR = 2020"

record cap_side =
  cs_vendor :: string
  cs_station :: string
  cs_hour :: utc
  cs_start :: "utc option"
  cs_end :: "utc option"
  cs_source :: string
  cs_bytes :: nat
  cs_frames :: nat

datatype cap_json = Parsed cap_side | Garbled

record cap_disk =
  k_data :: "utc \<Rightarrow> bytes option"
  k_side :: "utc \<Rightarrow> cap_json option"

definition held :: "cap_disk \<Rightarrow> utc \<Rightarrow> bytes" where
  "held d h = (case k_data d h of Some bs \<Rightarrow> bs | None \<Rightarrow> [])"

record capture =
  rc_station :: string
  rc_vendor :: string
  rc_utc :: "utc option"
  rc_utc_mono :: "real option"
  rc_back_since :: "utc option"
  rc_warned :: bool
  rc_dumped :: real
  rc_open :: bool
  rc_hour :: utc
  rc_source :: string
  rc_pending :: bytes
  rc_pending_frames :: nat
  rc_side :: cap_side
  rc_unflushed :: nat
  rc_disk :: cap_disk
  rc_rotated :: "utc list"

text \<open>Before the first rotation neither the hour nor the sidecar is looked at.\<close>

definition capture_new :: "string \<Rightarrow> string \<Rightarrow> cap_disk \<Rightarrow> capture" where
  "capture_new station vendor d =
     \<lparr>rc_station = station, rc_vendor = vendor, rc_utc = None, rc_utc_mono = None, rc_back_since = None, rc_warned = False,
      rc_dumped = 0, rc_open = False, rc_hour = 0, rc_source = ''receiver'', rc_pending = [], rc_pending_frames = 0,
      rc_side = \<lparr>cs_vendor = vendor, cs_station = station, cs_hour = 0, cs_start = None, cs_end = None,
        cs_source = [], cs_bytes = 0, cs_frames = 0\<rparr>,
      rc_unflushed = 0, rc_disk = d, rc_rotated = []\<rparr>"

section \<open>Files\<close>

definition dump_sidecar :: "real \<Rightarrow> capture \<Rightarrow> capture" where
  "dump_sidecar mt s =
     s\<lparr>rc_disk := (rc_disk s)\<lparr>k_side := (k_side (rc_disk s))(rc_hour s \<mapsto> Parsed (rc_side s))\<rparr>, rc_dumped := mt\<rparr>"

definition cap_flush :: "real \<Rightarrow> capture \<Rightarrow> capture" where
  "cap_flush mt s = (if rc_open s then dump_sidecar mt (s\<lparr>rc_unflushed := 0\<rparr>) else s)"

definition cap_close :: "real \<Rightarrow> capture \<Rightarrow> capture" where
  "cap_close mt s =
     (if \<not> rc_open s then s
      else dump_sidecar mt (s\<lparr>rc_unflushed := 0, rc_open := False, rc_side := (rc_side s)\<lparr>cs_end := rc_utc s\<rparr>\<rparr>))"

text \<open>A write to the open file, of \<open>n\<close> frames.\<close>

definition put_bytes :: "bytes \<Rightarrow> nat \<Rightarrow> capture \<Rightarrow> capture" where
  "put_bytes bs n s =
     s\<lparr>rc_disk := (rc_disk s)\<lparr>k_data := (k_data (rc_disk s))(rc_hour s \<mapsto> held (rc_disk s) (rc_hour s) @ bs)\<rparr>,
       rc_unflushed := rc_unflushed s + length bs,
       rc_side := (rc_side s)\<lparr>cs_bytes := cs_bytes (rc_side s) + length bs, cs_frames := cs_frames (rc_side s) + n\<rparr>\<rparr>"

definition fresh_side :: "utc \<Rightarrow> capture \<Rightarrow> cap_side" where
  "fresh_side h s =
     \<lparr>cs_vendor = rc_vendor s, cs_station = rc_station s, cs_hour = h, cs_start = rc_utc s, cs_end = None,
      cs_source = rc_source s, cs_bytes = 0, cs_frames = 0\<rparr>"

definition resume_side :: "cap_disk \<Rightarrow> utc \<Rightarrow> cap_side \<Rightarrow> cap_side" where
  "resume_side d h side =
     (let side' =
        (if k_data d h \<noteq> None then
           (case k_side d h of
              Some (Parsed p) \<Rightarrow>
                side\<lparr>cs_start := (case cs_start p of Some t \<Rightarrow> Some t | None \<Rightarrow> cs_start side), cs_frames := cs_frames p\<rparr>
            | _ \<Rightarrow> side)
         else side)
      in side'\<lparr>cs_bytes := length (held d h)\<rparr>)"

definition cap_rotate :: "real \<Rightarrow> utc \<Rightarrow> capture \<Rightarrow> capture" where
  "cap_rotate mt h s0 =
     (let s = cap_close mt s0;
          d = rc_disk s;
          s1 = dump_sidecar mt
                 (s\<lparr>rc_disk := d\<lparr>k_data := (k_data d)(h \<mapsto> held d h)\<rparr>, rc_open := True, rc_hour := h, rc_unflushed := 0,
                    rc_side := resume_side d h (fresh_side h s)\<rparr>);
          s2 = (if rc_pending s1 \<noteq> [] then
                  put_bytes (rc_pending s1) (rc_pending_frames s1) (s1\<lparr>rc_pending := [], rc_pending_frames := 0\<rparr>)
                else s1)
      in s2\<lparr>rc_rotated := rc_rotated s2 @ [h]\<rparr>)"

section \<open>The clock and the stream\<close>

definition cap_note :: "real \<Rightarrow> utc \<Rightarrow> capture \<Rightarrow> capture" where
  "cap_note mt t s =
     (if fst (date_of t) < MIN_VALID_YEAR then s\<lparr>rc_warned := True\<rparr>
      else
        (let h = hour_floor t;
             back = (rc_open s \<and> h < rc_hour s);
             since = (case rc_back_since s of Some b \<Rightarrow> b | None \<Rightarrow> t)
         in if back \<and> t - since < BACKSTEP_HOLD then s\<lparr>rc_back_since := Some since\<rparr>
            else
              (let s1 = s\<lparr>rc_back_since := None, rc_utc := Some t, rc_utc_mono := Some mt, rc_source := ''receiver''\<rparr> in
               if \<not> rc_open s1 \<or> rc_hour s1 \<noteq> h then cap_rotate mt h s1 else s1)))"

text \<open>The clock that \<open>_advance_hour\<close> goes by.\<close>

definition cap_clock :: "real \<Rightarrow> utc \<Rightarrow> capture \<Rightarrow> utc option" where
  "cap_clock mt host s =
     (if rc_source s = ''host'' then Some host
      else (case (rc_utc s, rc_utc_mono s) of
              (Some t, Some m) \<Rightarrow> Some (t + timedelta_s (mt - m))
            | _ \<Rightarrow> None))"

definition advance_hour :: "real \<Rightarrow> utc \<Rightarrow> capture \<Rightarrow> capture" where
  "advance_hour mt host s =
     (case cap_clock mt host s of
        None \<Rightarrow> s
      | Some t \<Rightarrow>
          if hour_floor t > rc_hour s then cap_rotate mt (hour_floor t) (s\<lparr>rc_utc := Some t, rc_utc_mono := Some mt\<rparr>) else s)"

definition cap_write :: "real \<Rightarrow> utc \<Rightarrow> bytes \<Rightarrow> capture \<Rightarrow> capture" where
  "cap_write mt host bs s0 =
     (if \<not> rc_open s0 then
        (let s = s0\<lparr>rc_pending := rc_pending s0 @ bs, rc_pending_frames := rc_pending_frames s0 + 1\<rparr> in
         if length (rc_pending s) > CAPTURE_CAP_BYTES then
           cap_rotate mt (hour_floor host) (s\<lparr>rc_utc := Some host, rc_utc_mono := Some mt, rc_source := ''host''\<rparr>)
         else s)
      else
        (let s = put_bytes bs 1 (advance_hour mt host s0) in
         if mt - rc_dumped s \<ge> SIDECAR_EVERY_S then cap_flush mt s else s))"

text \<open>A crash: some of the bytes not flushed are gone, and a new capture starts on what is there.\<close>

definition cap_crash :: "nat \<Rightarrow> capture \<Rightarrow> capture" where
  "cap_crash n s =
     (let d = rc_disk s; h = rc_hour s; bs = held d h in
      capture_new (rc_station s) (rc_vendor s)
        (if rc_open s then d\<lparr>k_data := (k_data d)(h \<mapsto> take (length bs - min n (rc_unflushed s)) bs)\<rparr> else d))"

datatype cap_event =
    CapWrite real utc bytes
  | CapNote real utc
  | CapFlush real
  | CapClose real

fun cap_event_step :: "cap_event \<Rightarrow> capture \<Rightarrow> capture" where
  "cap_event_step (CapWrite mt host bs) s = cap_write mt host bs s"
| "cap_event_step (CapNote mt t) s = cap_note mt t s"
| "cap_event_step (CapFlush mt) s = cap_flush mt s"
| "cap_event_step (CapClose mt) s = cap_close mt s"

definition cap_run :: "cap_event list \<Rightarrow> capture \<Rightarrow> capture" where
  "cap_run es s = fold cap_event_step es s"

section \<open>The books of a capture\<close>

text \<open>
  \<open>j\<close> is the journal: the writes that went to each hour's file, in order. \<open>rest\<close> are the writes still buffered.
\<close>

type_synonym cap_journal = "(utc \<times> bytes list) list"

definition filed :: "cap_journal \<Rightarrow> utc \<Rightarrow> bytes list" where
  "filed j h = concat (map snd (filter (\<lambda>e. fst e = h) j))"

lemma filed_append [simp]: "filed (j @ k) h = filed j h @ filed k h"
  by (simp add: filed_def)

lemma filed_simps [simp]: "filed [] h = []" "filed [(g, ws)] h = (if g = h then ws else [])"
  by (simp_all add: filed_def)

definition carried :: "cap_disk \<Rightarrow> utc \<Rightarrow> nat" where
  "carried d h = (case (k_data d h, k_side d h) of (Some _, Some (Parsed p)) \<Rightarrow> cs_frames p | _ \<Rightarrow> 0)"

text \<open>A sidecar that tells the truth about its hour, but for the last \<open>u\<close> bytes.\<close>

definition true_side :: "cap_disk \<Rightarrow> cap_journal \<Rightarrow> cap_disk \<Rightarrow> utc \<Rightarrow> nat \<Rightarrow> cap_side \<Rightarrow> bool" where
  "true_side d0 j d h u sd \<longleftrightarrow>
     cs_hour sd = h \<and> cs_bytes sd + u = length (held d h) \<and>
     (if u = 0 then cs_frames sd = carried d0 h + length (filed j h) else cs_frames sd \<le> carried d0 h + length (filed j h))"

text \<open>The bytes at the end of an hour's file that its sidecar does not tell of.\<close>

definition loose :: "capture \<Rightarrow> utc \<Rightarrow> nat" where
  "loose s h = (if rc_open s \<and> h = rc_hour s then rc_unflushed s else 0)"

definition books :: "cap_disk \<Rightarrow> bytes list \<Rightarrow> cap_journal \<Rightarrow> bytes list \<Rightarrow> capture \<Rightarrow> bool" where
  "books d0 ws j rest s \<longleftrightarrow>
     concat (map snd j) @ rest = ws \<and> rc_pending s = concat rest \<and> rc_pending_frames s = length rest \<and>
     held (rc_disk s) = (\<lambda>h. held d0 h @ concat (filed j h)) \<and>
     (\<forall>h. h \<notin> set (rc_rotated s) \<longrightarrow> k_data (rc_disk s) h = k_data d0 h \<and> k_side (rc_disk s) h = k_side d0 h \<and> filed j h = []) \<and>
     (\<forall>h\<in>set (rc_rotated s). k_data (rc_disk s) h \<noteq> None \<and>
        (\<exists>sd. k_side (rc_disk s) h = Some (Parsed sd) \<and>
           true_side d0 j (rc_disk s) h (loose s h) sd)) \<and>
     (rc_open s \<longrightarrow> rest = [] \<and> rc_hour s \<in> set (rc_rotated s) \<and> true_side d0 j (rc_disk s) (rc_hour s) 0 (rc_side s))"

lemma books_new: "books d [] [] [] (capture_new st v d)"
  by (simp add: books_def capture_new_def)

lemma books_clock:
  assumes "books d0 ws j rest s"
  shows "books d0 ws j rest (s\<lparr>rc_utc := a, rc_utc_mono := b, rc_source := c\<rparr>)"
    "books d0 ws j rest (s\<lparr>rc_utc := a, rc_utc_mono := b\<rparr>)"
    "books d0 ws j rest (s\<lparr>rc_back_since := e, rc_utc := a, rc_utc_mono := b, rc_source := c\<rparr>)"
    "books d0 ws j rest (s\<lparr>rc_back_since := e\<rparr>)" "books d0 ws j rest (s\<lparr>rc_warned := w\<rparr>)"
  using assms by (simp_all add: books_def loose_def cong: if_cong)

lemma held_dump [simp]: "held (rc_disk (dump_sidecar mt s)) = held (rc_disk s)"
  by (rule ext) (simp add: held_def dump_sidecar_def)

lemma true_side_dump [simp]: "true_side d0 j (rc_disk (dump_sidecar mt s)) h u sd = true_side d0 j (rc_disk s) h u sd"
  by (simp add: true_side_def)

lemma dump_fields [simp]:
  "rc_pending (dump_sidecar mt s) = rc_pending s" "rc_pending_frames (dump_sidecar mt s) = rc_pending_frames s"
  "rc_rotated (dump_sidecar mt s) = rc_rotated s" "rc_open (dump_sidecar mt s) = rc_open s" "rc_hour (dump_sidecar mt s) = rc_hour s"
  "rc_unflushed (dump_sidecar mt s) = rc_unflushed s" "rc_side (dump_sidecar mt s) = rc_side s"
  "k_data (rc_disk (dump_sidecar mt s)) = k_data (rc_disk s)"
  "k_side (rc_disk (dump_sidecar mt s)) = (k_side (rc_disk s))(rc_hour s \<mapsto> Parsed (rc_side s))"
  by (simp_all add: dump_sidecar_def)

lemma books_flush:
  assumes b: "books d0 ws j rest s"
  shows "books d0 ws j rest (cap_flush mt s)"
proof (cases "rc_open s")
  case True
  then show ?thesis using b by (auto simp: cap_flush_def books_def loose_def)
qed (use b in \<open>simp add: cap_flush_def\<close>)

lemma books_close:
  assumes b: "books d0 ws j rest s"
  shows "books d0 ws j rest (cap_close mt s)"
proof (cases "rc_open s")
  case True
  then show ?thesis using b by (auto simp: cap_close_def books_def true_side_def loose_def)
qed (use b in \<open>simp add: cap_close_def\<close>)

lemma held_put [simp]:
  "held (rc_disk (put_bytes bs n s)) = (held (rc_disk s))(rc_hour s := held (rc_disk s) (rc_hour s) @ bs)"
  by (rule ext) (simp add: put_bytes_def held_def)

lemma books_put:
  assumes b: "books d0 ws j [] s" and o: "rc_open s" and ne: "concat us \<noteq> []"
  shows "books d0 (ws @ us) (j @ [(rc_hour s, us)]) [] (put_bytes (concat us) (length us) s)"
proof -
  let ?t = "put_bytes (concat us) (length us) s" and ?k = "j @ [(rc_hour s, us)]" and ?h = "rc_hour s"
  have f: "rc_pending ?t = rc_pending s" "rc_pending_frames ?t = rc_pending_frames s" "rc_rotated ?t = rc_rotated s" "rc_open ?t"
    "rc_hour ?t = ?h" "rc_unflushed ?t = rc_unflushed s + length (concat us)" "k_side (rc_disk ?t) = k_side (rc_disk s)"
    "rc_side ?t = (rc_side s)\<lparr>cs_bytes := cs_bytes (rc_side s) + length (concat us), cs_frames := cs_frames (rc_side s) + length us\<rparr>"
    "k_data (rc_disk ?t) = (k_data (rc_disk s))(?h \<mapsto> held (rc_disk s) ?h @ concat us)"
    using o by (simp_all add: put_bytes_def)
  have r: "?h \<in> set (rc_rotated s)" using b o by (simp add: books_def)
  have sides: "\<exists>sd. k_side (rc_disk ?t) h = Some (Parsed sd) \<and>
      true_side d0 ?k (rc_disk ?t) h (loose ?t h) sd"
    if h: "h \<in> set (rc_rotated s)" for h
  proof -
    obtain sd where sd: "k_side (rc_disk s) h = Some (Parsed sd)"
      "true_side d0 j (rc_disk s) h (if h = ?h then rc_unflushed s else 0) sd"
      using b o h by (auto simp: books_def loose_def)
    show ?thesis
    proof (cases "h = ?h")
      case True
      then show ?thesis using sd ne f(4-7) unfolding loose_def by (auto simp: true_side_def split: if_splits)
    next
      case False
      then show ?thesis using sd f(4-7) unfolding loose_def by (auto simp: true_side_def)
    qed
  qed
  show ?thesis
    using b o r sides f by (auto simp: books_def true_side_def fun_eq_iff)
qed

lemma resume_true:
  assumes b: "books d0 ws j rest s" and c: "\<not> rc_open s"
  shows "true_side d0 j (rc_disk s) h 0 (resume_side (rc_disk s) h (fresh_side h s))"
proof -
  have f: "cs_frames (resume_side (rc_disk s) h (fresh_side h s)) = carried (rc_disk s) h"
    by (auto simp: resume_side_def fresh_side_def carried_def Let_def split: option.split cap_json.split)
  have "carried (rc_disk s) h = carried d0 h + length (filed j h)"
  proof (cases "h \<in> set (rc_rotated s)")
    case True
    then obtain sd where "k_data (rc_disk s) h \<noteq> None" "k_side (rc_disk s) h = Some (Parsed sd)" "true_side d0 j (rc_disk s) h 0 sd"
      using b c by (auto simp: books_def loose_def)
    then show ?thesis by (auto simp: carried_def true_side_def)
  next
    case False
    then show ?thesis using b by (simp add: books_def carried_def)
  qed
  then show ?thesis
    using f by (auto simp: true_side_def resume_side_def fresh_side_def Let_def split: option.split cap_json.split)
qed

definition reopened :: "real \<Rightarrow> utc \<Rightarrow> capture \<Rightarrow> capture" where
  "reopened mt h s =
     dump_sidecar mt
       (s\<lparr>rc_disk := (rc_disk s)\<lparr>k_data := (k_data (rc_disk s))(h \<mapsto> held (rc_disk s) h)\<rparr>, rc_open := True, rc_hour := h,
          rc_unflushed := 0, rc_side := resume_side (rc_disk s) h (fresh_side h s),
          rc_pending := [], rc_pending_frames := 0, rc_rotated := rc_rotated s @ [h]\<rparr>)"

lemma books_reopened:
  assumes b: "books d0 ws j rest s" and c: "\<not> rc_open s"
  shows "books d0 (concat (map snd j)) j [] (reopened mt h s)"
proof -
  let ?t = "reopened mt h s"
  have t: "rc_open ?t" "rc_hour ?t = h" "rc_unflushed ?t = 0" "rc_side ?t = resume_side (rc_disk s) h (fresh_side h s)"
    "rc_pending ?t = []" "rc_pending_frames ?t = 0" "rc_rotated ?t = rc_rotated s @ [h]"
    "k_side (rc_disk ?t) = (k_side (rc_disk s))(h \<mapsto> Parsed (resume_side (rc_disk s) h (fresh_side h s)))"
    "k_data (rc_disk ?t) = (k_data (rc_disk s))(h \<mapsto> held (rc_disk s) h)"
    by (simp_all add: reopened_def dump_sidecar_def)
  have held: "held (rc_disk ?t) = held (rc_disk s)"
    using t(9) by (auto simp: held_def fun_eq_iff)
  have r: "true_side d0 j (rc_disk ?t) h 0 (resume_side (rc_disk s) h (fresh_side h s))"
    using resume_true [OF b c, of h] by (simp add: true_side_def held)
  have l: "loose ?t g = 0" "loose s g = 0" for g using t(3) c by (simp_all add: loose_def)
  have "\<exists>sd. k_side (rc_disk ?t) g = Some (Parsed sd) \<and> true_side d0 j (rc_disk ?t) g 0 sd" if "g \<in> set (rc_rotated s @ [h])" for g
  proof (cases "g = h")
    case True
    then show ?thesis using r t(8) by simp
  next
    case False
    then show ?thesis using b that t(8) l by (auto simp: books_def true_side_def held)
  qed
  then show ?thesis using b t held r l by (auto simp: books_def)
qed

lemma rotate_reopened:
  "cap_rotate mt h s =
     (let c = cap_close mt s in
      if rc_pending c \<noteq> [] then put_bytes (rc_pending c) (rc_pending_frames c) (reopened mt h c)
      else (reopened mt h c)\<lparr>rc_pending_frames := rc_pending_frames c\<rparr>)"
  by (simp add: cap_rotate_def reopened_def put_bytes_def dump_sidecar_def Let_def)

lemma rotate_fields [simp]:
  "rc_open (cap_rotate mt h s)" "rc_hour (cap_rotate mt h s) = h" "rc_utc (cap_rotate mt h s) = rc_utc s"
  "rc_utc_mono (cap_rotate mt h s) = rc_utc_mono s" "rc_source (cap_rotate mt h s) = rc_source s"
  "rc_back_since (cap_rotate mt h s) = rc_back_since s" "rc_dumped (cap_rotate mt h s) = mt"
  "rc_rotated (cap_rotate mt h s) = rc_rotated s @ [h]"
  by (simp_all add: rotate_reopened reopened_def put_bytes_def dump_sidecar_def cap_close_def Let_def)

lemma close_fields [simp]: "rc_open (cap_close mt s) = False" "rc_pending (cap_close mt s) = rc_pending s"
  "rc_pending_frames (cap_close mt s) = rc_pending_frames s"
  by (simp_all add: cap_close_def)

lemma books_rotate:
  assumes b: "books d0 ws j rest s" and ne: "list_all (\<lambda>w. w \<noteq> []) rest"
  shows "\<exists>k. books d0 ws k [] (cap_rotate mt h s)"
proof -
  let ?c = "cap_close mt s"
  have c: "books d0 ws j rest ?c" by (rule books_close [OF b])
  have r: "books d0 (concat (map snd j)) j [] (reopened mt h ?c)" by (rule books_reopened [OF c]) simp
  have w: "concat (map snd j) @ rest = ws" "rc_pending ?c = concat rest" "rc_pending_frames ?c = length rest"
    using c by (simp_all add: books_def)
  show ?thesis
  proof (cases "rest = []")
    case True
    then have "cap_rotate mt h s = reopened mt h ?c"
      using w(2,3) by (simp add: rotate_reopened reopened_def dump_sidecar_def Let_def)
    then show ?thesis using r w(1) True by auto
  next
    case False
    then have "concat rest \<noteq> []" using ne by (cases rest) auto
    then have "cap_rotate mt h s = put_bytes (concat rest) (length rest) (reopened mt h ?c)"
      using w(2,3) by (simp add: rotate_reopened Let_def)
    moreover have "rc_open (reopened mt h ?c)" by (simp add: reopened_def)
    ultimately show ?thesis using books_put [OF r _ \<open>concat rest \<noteq> []\<close>] w(1) by auto
  qed
qed

lemma books_rest: "books d0 ws j rest s \<Longrightarrow> list_all (\<lambda>w. w \<noteq> []) ws \<Longrightarrow> list_all (\<lambda>w. w \<noteq> []) rest"
  by (auto simp: books_def)

lemma books_note:
  assumes b: "books d0 ws j rest s" and ne: "list_all (\<lambda>w. w \<noteq> []) ws"
  shows "\<exists>k r. books d0 ws k r (cap_note mt t s)"
proof -
  let ?s = "s\<lparr>rc_back_since := None, rc_utc := Some t, rc_utc_mono := Some mt, rc_source := ''receiver''\<rparr>"
  have "books d0 ws j rest ?s" by (rule books_clock(3) [OF b])
  moreover have "\<exists>k. books d0 ws k [] (cap_rotate mt (hour_floor t) ?s)"
    by (rule books_rotate [OF books_clock(3) [OF b] books_rest [OF b ne]])
  ultimately show ?thesis
    using books_clock(4,5) [OF b] unfolding cap_note_def Let_def by (auto split: option.split)
qed

lemma books_advance:
  assumes b: "books d0 ws j [] s"
  shows "\<exists>k. books d0 ws k [] (advance_hour mt host s)"
proof (cases "cap_clock mt host s")
  case (Some t)
  have "\<exists>k. books d0 ws k [] (cap_rotate mt (hour_floor t) (s\<lparr>rc_utc := Some t, rc_utc_mono := Some mt\<rparr>))"
    by (rule books_rotate [OF books_clock(2) [OF b]]) simp
  then show ?thesis using Some b by (auto simp: advance_hour_def)
qed (use b in \<open>auto simp: advance_hour_def\<close>)

lemma advance_open: "rc_open s \<Longrightarrow> rc_open (advance_hour mt host s)"
  by (simp add: advance_hour_def split: option.split)

lemma books_write:
  assumes b: "books d0 ws j rest s" and ne: "list_all (\<lambda>w. w \<noteq> []) (ws @ [bs])"
  shows "\<exists>k r. books d0 (ws @ [bs]) k r (cap_write mt host bs s)"
proof (cases "rc_open s")
  case False
  let ?p = "s\<lparr>rc_pending := rc_pending s @ bs, rc_pending_frames := rc_pending_frames s + 1\<rparr>"
  have p: "books d0 (ws @ [bs]) j (rest @ [bs]) ?p"
    using b False by (simp add: books_def loose_def cong: if_cong)
  have "\<exists>k. books d0 (ws @ [bs]) k [] (cap_rotate mt (hour_floor host)
      (?p\<lparr>rc_utc := Some host, rc_utc_mono := Some mt, rc_source := ''host''\<rparr>))"
    by (rule books_rotate [OF books_clock(1) [OF p] books_rest [OF p ne]])
  then show ?thesis using p False by (auto simp: cap_write_def Let_def)
next
  case True
  then have "rest = []" using b by (simp add: books_def)
  then obtain k where k: "books d0 ws k [] (advance_hour mt host s)" using books_advance b by blast
  have "books d0 (ws @ [bs]) (k @ [(rc_hour (advance_hour mt host s), [bs])]) [] (put_bytes bs 1 (advance_hour mt host s))"
    using books_put [OF k advance_open [OF True], of "[bs]"] ne by simp
  from books_flush [OF this, of mt] this show ?thesis using True by (auto simp: cap_write_def Let_def)
qed

fun written :: "cap_event list \<Rightarrow> bytes list" where
  "written [] = []"
| "written (CapWrite mt host bs # es) = bs # written es"
| "written (e # es) = written es"

lemma books_run:
  "books d0 ws j rest s \<Longrightarrow> list_all (\<lambda>w. w \<noteq> []) (ws @ written es) \<Longrightarrow> \<exists>k r. books d0 (ws @ written es) k r (cap_run es s)"
proof (induction es arbitrary: ws j rest s)
  case Nil
  then show ?case by (auto simp: cap_run_def)
next
  case (Cons e es)
  have "\<exists>k r. books d0 ws k r (cap_flush mt s)" "\<exists>k r. books d0 ws k r (cap_close mt s)" for mt
    using books_flush [OF Cons.prems(1)] books_close [OF Cons.prems(1)] by blast+
  then have "\<exists>k r. books d0 (ws @ written [e]) k r (cap_event_step e s)"
    using Cons.prems books_write [of d0 ws j rest s] books_note [of d0 ws j rest s] by (cases e) (auto simp: list_all_iff)
  then obtain k r where "books d0 (ws @ written [e]) k r (cap_event_step e s)" by blast
  moreover have "written (e # es) = written [e] @ written es" by (cases e) simp_all
  ultimately show ?case using Cons.IH [of "ws @ written [e]" k r "cap_event_step e s"] Cons.prems(2) by (simp add: cap_run_def)
qed

section \<open>Properties\<close>

lemma crash_sides:
  assumes "books d ws j rest s" "h \<in> set (rc_rotated s)"
  shows "\<exists>sd. k_side (rc_disk (cap_crash n s)) h = Some (Parsed sd) \<and> cs_hour sd = h \<and>
    cs_bytes sd \<le> length (held (rc_disk (cap_crash n s)) h) \<and> length (held (rc_disk s) h) \<le> length (held (rc_disk (cap_crash n s)) h) + n \<and>
    take (length (held (rc_disk (cap_crash n s)) h)) (held (rc_disk s) h) = held (rc_disk (cap_crash n s)) h"
proof -
  obtain sd where sd: "k_side (rc_disk s) h = Some (Parsed sd)" "cs_hour sd = h" "cs_bytes sd + loose s h = length (held (rc_disk s) h)"
    using assms by (auto simp: books_def true_side_def)
  have side: "k_side (rc_disk (cap_crash n s)) h = Some (Parsed sd)"
    using sd(1) by (simp add: cap_crash_def capture_new_def Let_def)
  have held: "held (rc_disk (cap_crash n s)) h =
      (if rc_open s \<and> h = rc_hour s then take (length (held (rc_disk s) h) - min n (rc_unflushed s)) (held (rc_disk s) h) else held (rc_disk s) h)"
    by (simp add: cap_crash_def capture_new_def Let_def held_def)
  show ?thesis unfolding side held using sd(2,3) by (auto simp: loose_def)
qed

text \<open>
  C37. The books of a capture: of the writes (none empty) each is whole in the file of one hour or still buffered, in order, whatever
  readings of the clock, flushes and closes come between them; what a file held before is kept. The sidecar of every hour the capture has
  opened tells the bytes and the frames of its file, up to the bytes not flushed, and after a crash never more bytes than the file has,
  which loses at most its last bytes not flushed.
\<close>

theorem capture_books:
  assumes "list_all (\<lambda>w. w \<noteq> []) (written es)" and "s = cap_run es (capture_new st v d)"
  shows "(\<exists>j rest. books d (written es) j rest s) \<and>
    list_all (\<lambda>h. \<exists>sd. k_side (rc_disk (cap_crash n s)) h = Some (Parsed sd) \<and> cs_hour sd = h \<and>
      cs_bytes sd \<le> length (held (rc_disk (cap_crash n s)) h) \<and>
      length (held (rc_disk s) h) \<le> length (held (rc_disk (cap_crash n s)) h) + n \<and>
      take (length (held (rc_disk (cap_crash n s)) h)) (held (rc_disk s) h) = held (rc_disk (cap_crash n s)) h) (rc_rotated s)"
proof -
  obtain j rest where b: "books d (written es) j rest s"
    using books_run [OF books_new [of d st v], of es] assms by auto
  then show ?thesis unfolding list_all_iff by (intro conjI exI [of _ j] exI [of _ rest] ballI crash_sides [OF b])
qed

text \<open>A reading that moves the capture back to an earlier hour.\<close>

lemma moved_back:
  assumes "rc_open s" "rc_hour (cap_note mt t s) < rc_hour s"
  shows "MIN_VALID_YEAR \<le> fst (date_of t) \<and> hour_floor t < rc_hour s \<and>
    (\<exists>b. rc_back_since s = Some b \<and> b + BACKSTEP_HOLD \<le> t) \<and>
    cap_note mt t s = cap_rotate mt (hour_floor t)
      (s\<lparr>rc_back_since := None, rc_utc := Some t, rc_utc_mono := Some mt, rc_source := ''receiver''\<rparr>)"
  using assms by (auto simp: cap_note_def Let_def BACKSTEP_HOLD_def SECOND_def split: if_splits option.splits)

text \<open>
  A capture follows its clock: no write goes to an hour before that of the clock at the write, the sidecar is then less than ten
  seconds old, and a reading moves the capture to an earlier hour only when the clock has been back for at least five seconds.
\<close>

lemma capture_follows_clock:
  assumes "rc_open s"
  shows "rc_open (cap_write mt host bs s) \<and> mt - rc_dumped (cap_write mt host bs s) < SIDECAR_EVERY_S \<and>
    (case cap_clock mt host s of None \<Rightarrow> rc_hour (cap_write mt host bs s) = rc_hour s
      | Some t \<Rightarrow> rc_hour (cap_write mt host bs s) = max (rc_hour s) (hour_floor t)) \<and>
    (rc_hour (cap_note mt' t' s) \<ge> rc_hour s \<or>
      rc_hour (cap_note mt' t' s) = hour_floor t' \<and> (\<exists>b. rc_back_since s = Some b \<and> b + BACKSTEP_HOLD \<le> t'))"
proof -
  have p: "rc_open (put_bytes bs n x) = rc_open x" "rc_hour (put_bytes bs n x) = rc_hour x" "rc_dumped (put_bytes bs n x) = rc_dumped x" for n x
    by (simp_all add: put_bytes_def)
  have w: "rc_open (cap_write mt host bs s)" "mt - rc_dumped (cap_write mt host bs s) < SIDECAR_EVERY_S"
    "rc_hour (cap_write mt host bs s) = rc_hour (advance_hour mt host s)"
    using assms by (auto simp: cap_write_def Let_def p cap_flush_def advance_open dump_sidecar_def SIDECAR_EVERY_S_def)
  have h: "case cap_clock mt host s of None \<Rightarrow> rc_hour (advance_hour mt host s) = rc_hour s
      | Some t \<Rightarrow> rc_hour (advance_hour mt host s) = max (rc_hour s) (hour_floor t)"
    by (auto simp: advance_hour_def split: option.split)
  show ?thesis
  proof (cases "rc_hour (cap_note mt' t' s) < rc_hour s")
    case True
    then show ?thesis using moved_back [OF assms True] w(1,2) h unfolding w(3) by auto
  next
    case False
    then show ?thesis using w(1,2) h unfolding w(3) by simp
  qed
qed

text \<open>The sidecar of the hour that is left then ends before it has begun.\<close>

lemma ends_before_start:
  assumes "rc_open s" "hour_floor (rc_hour s) = rc_hour s" "rc_hour (cap_note mt t s) < rc_hour s"
  shows "\<exists>sd. k_side (rc_disk (cap_note mt t s)) (rc_hour s) = Some (Parsed sd) \<and> cs_end sd = Some t \<and> t < rc_hour s"
proof -
  let ?s = "s\<lparr>rc_back_since := None, rc_utc := Some t, rc_utc_mono := Some mt, rc_source := ''receiver''\<rparr>"
  have m: "hour_floor t < rc_hour s" "cap_note mt t s = cap_rotate mt (hour_floor t) ?s"
    using moved_back [OF assms(1,3)] by simp_all
  have "t < rc_hour s" using m(1) assms(2) hour_floor_mono [of "rc_hour s" t] by linarith
  moreover have "k_side (rc_disk (cap_rotate mt (hour_floor t) ?s)) (rc_hour s) = k_side (rc_disk (cap_close mt ?s)) (rc_hour s)"
    using m(1) by (simp add: rotate_reopened Let_def put_bytes_def reopened_def)
  moreover have "k_side (rc_disk (cap_close mt ?s)) (rc_hour s) = Some (Parsed ((rc_side s)\<lparr>cs_end := Some t\<rparr>))"
    using assms(1) by (simp add: cap_close_def)
  ultimately show ?thesis using m(2) by simp
qed

section \<open>Witnesses\<close>

definition cap_hour :: utc where "cap_hour = 63919209600000000"

definition cap_events :: "cap_event list" where
  "cap_events = [CapWrite 0 0 [1, 2], CapNote 1 cap_hour, CapWrite 2 0 [3], CapWrite 20 0 [4, 5], CapWrite 21 0 [6]]"

lemma capture_books_witness:
  "\<exists>s :: capture. s = cap_run cap_events (capture_new ''INS'' ''vn'' \<lparr>k_data = Map.empty, k_side = Map.empty\<rparr>) \<and> rc_rotated s = [cap_hour] \<and>
    held (rc_disk s) cap_hour = [1, 2, 3, 4, 5, 6] \<and>
    (\<exists>j rest. books \<lparr>k_data = Map.empty, k_side = Map.empty\<rparr> (written cap_events) j rest s) \<and>
    list_all (\<lambda>h. \<exists>sd. k_side (rc_disk (cap_crash 3 s)) h = Some (Parsed sd) \<and> cs_hour sd = h \<and>
      cs_bytes sd \<le> length (held (rc_disk (cap_crash 3 s)) h) \<and>
      length (held (rc_disk s) h) \<le> length (held (rc_disk (cap_crash 3 s)) h) + 3 \<and>
      take (length (held (rc_disk (cap_crash 3 s)) h)) (held (rc_disk s) h) = held (rc_disk (cap_crash 3 s)) h) (rc_rotated s)"
proof (intro exI [of _ "cap_run cap_events (capture_new ''INS'' ''vn'' \<lparr>k_data = Map.empty, k_side = Map.empty\<rparr>)"] conjI)
  let ?d = "\<lparr>k_data = Map.empty, k_side = Map.empty\<rparr>"
  let ?s = "cap_run cap_events (capture_new ''INS'' ''vn'' ?d)"
  have w: "list_all (\<lambda>w. w \<noteq> []) (written cap_events)" by (simp add: cap_events_def)
  note b = capture_books [OF w refl, of ?d "''INS''" "''vn''" 3]
  show "\<exists>j rest. books ?d (written cap_events) j rest ?s" using b by blast
  show "list_all (\<lambda>h. \<exists>sd. k_side (rc_disk (cap_crash 3 ?s)) h = Some (Parsed sd) \<and> cs_hour sd = h \<and>
      cs_bytes sd \<le> length (held (rc_disk (cap_crash 3 ?s)) h) \<and>
      length (held (rc_disk ?s) h) \<le> length (held (rc_disk (cap_crash 3 ?s)) h) + 3 \<and>
      take (length (held (rc_disk (cap_crash 3 ?s)) h)) (held (rc_disk ?s) h) = held (rc_disk (cap_crash 3 ?s)) h) (rc_rotated ?s)"
    using b by blast
  have t: "timedelta_s (numeral k) = numeral k * 1000000" "timedelta_s 1 = 1000000" for k
    using py_round_int [of "numeral k * 1000000"] py_round_int [of 1000000] by (simp_all add: timedelta_s_def)
  have y: "fst (date_of cap_hour) = 2026" by code_simp
  have f: "hour_floor cap_hour = cap_hour" "hour_floor (cap_hour + 1000000) = cap_hour" "hour_floor (cap_hour + 19000000) = cap_hour"
    "hour_floor (cap_hour + 20000000) = cap_hour"
    by (simp_all add: cap_hour_def hour_floor_def HOUR_def)
  have run: "rc_rotated ?s = [cap_hour] \<and> held (rc_disk ?s) cap_hour = [1, 2, 3, 4, 5, 6]"
    by (simp add: cap_run_def cap_events_def cap_write_def cap_note_def cap_rotate_def cap_close_def dump_sidecar_def capture_new_def
        put_bytes_def advance_hour_def cap_clock_def cap_flush_def held_def y f t MIN_VALID_YEAR_def CAPTURE_CAP_BYTES_def SIDECAR_EVERY_S_def Let_def)
  show "rc_rotated ?s = [cap_hour]" "held (rc_disk ?s) cap_hour = [1, 2, 3, 4, 5, 6]" using run by simp_all
qed simp

lemma capture_follows_clock_witness:
  "\<exists>s :: capture. rc_open s \<and> rc_open (cap_write 5 0 [1] s) \<and> 5 - rc_dumped (cap_write 5 0 [1] s) < SIDECAR_EVERY_S \<and>
    rc_hour (cap_write 5 0 [1] s) = max (rc_hour s) (hour_floor (cap_hour + 5000000))"
proof -
  let ?s = "(capture_new ''INS'' ''vn'' \<lparr>k_data = Map.empty, k_side = Map.empty\<rparr>)
    \<lparr>rc_open := True, rc_hour := cap_hour, rc_utc := Some cap_hour, rc_utc_mono := Some 0\<rparr>"
  have o: "rc_open ?s" by simp
  have "cap_clock 5 0 ?s = Some (cap_hour + 5000000)"
    using py_round_int [of 5000000] by (simp add: cap_clock_def capture_new_def timedelta_s_def)
  with capture_follows_clock [OF o, of 5 0 "[1]" 0 0] show ?thesis by (intro exI [of _ ?s]) simp
qed

end
