(* ===== verification/UbxConfig.thy ===== *)
theory UbxConfig
  imports Text "HOL-Library.Multiset"
begin

text \<open>
  The receiver profiles of \<open>src/mtrtk/core/ubx_config.py\<close>: the configuration items of a base and of a rover, the optional
  features, and the chunks they are written in. The TMODE items are in \<open>BaseMode\<close>.
\<close>

section \<open>Profiles\<close>

datatype cfg_value = CInt int | CBytes bytes

type_synonym cfg_item = "string \<times> cfg_value"

definition LAYERS_RAM :: nat where "LAYERS_RAM = 1"
definition LAYERS_ALL :: nat where "LAYERS_ALL = 1 + 2 + 4"
definition MAX_KEYS_PER_VALSET :: nat where "MAX_KEYS_PER_VALSET = 64"

definition RTCM_MSM7 :: "string list" where "RTCM_MSM7 = [''1077'', ''1087'', ''1097'', ''1127'']"
definition RTCM_MSM4 :: "string list" where "RTCM_MSM4 = [''1074'', ''1084'', ''1094'', ''1124'']"

definition COMMON_MSGOUT :: "(string \<times> int) list" where
  "COMMON_MSGOUT =
     [(''NAV_PVT'', 1), (''NAV_SAT'', 1), (''NAV_SIG'', 1), (''NAV_DOP'', 1), (''NAV_STATUS'', 1), (''NAV_CLOCK'', 1),
      (''NAV_TIMEGPS'', 1), (''NAV_TIMEUTC'', 1), (''NAV_HPPOSLLH'', 1), (''NAV_HPPOSECEF'', 1), (''NAV_EOE'', 1),
      (''RXM_RAWX'', 1), (''RXM_SFRBX'', 1), (''MON_HW'', 1), (''MON_RF'', 1)]"

definition SIGNALS_L1_L2 :: "cfg_item list" where
  "SIGNALS_L1_L2 =
     map (\<lambda>n. (''CFG_SIGNAL_'' @ n @ ''_ENA'', CInt 1))
       [''GPS'', ''GPS_L1CA'', ''GPS_L2C'', ''GLO'', ''GLO_L1'', ''GLO_L2'', ''GAL'', ''GAL_E1'', ''GAL_E5B'', ''BDS'', ''BDS_B1'',
        ''BDS_B2'', ''QZSS'', ''QZSS_L1CA'', ''QZSS_L2C'']
     @ [(''CFG_SIGNAL_SBAS_ENA'', CInt 0)]"

definition OPTIONAL_FEATURES :: "(string \<times> cfg_item list) list" where
  "OPTIONAL_FEATURES =
     [(''MON-SPAN'', [(''CFG_MSGOUT_UBX_MON_SPAN_USB'', CInt 5)]),
      (''MON-COMMS'', [(''CFG_MSGOUT_UBX_MON_COMMS_USB'', CInt 5)]),
      (''NAV-TIMELS'', [(''CFG_MSGOUT_UBX_NAV_TIMELS_USB'', CInt 10)])]"

record profile =
  pr_name :: string
  pr_core :: "cfg_item list"
  pr_signals :: "cfg_item list"
  pr_optional :: "(string \<times> cfg_item list) list"
  pr_nav_hz :: int

definition msgout :: "(string \<times> int) list \<Rightarrow> cfg_item list" where
  "msgout names = map (\<lambda>(n, rate). (''CFG_MSGOUT_UBX_'' @ n @ ''_USB'', CInt rate)) names"

definition common_core :: "int \<Rightarrow> int \<Rightarrow> bool \<Rightarrow> cfg_item list" where
  "common_core meas_ms dynmodel rtcm_out =
     [(''CFG_RATE_MEAS'', CInt meas_ms), (''CFG_RATE_NAV'', CInt 1), (''CFG_RATE_TIMEREF'', CInt 1),
      (''CFG_USBOUTPROT_UBX'', CInt 1), (''CFG_USBOUTPROT_NMEA'', CInt 0),
      (''CFG_USBOUTPROT_RTCM3X'', CInt (if rtcm_out then 1 else 0)),
      (''CFG_USBINPROT_UBX'', CInt 1), (''CFG_USBINPROT_NMEA'', CInt 0),
      (''CFG_USBINPROT_RTCM3X'', CInt (if rtcm_out then 0 else 1)),
      (''CFG_NAVSPG_DYNMODEL'', CInt dynmodel), (''CFG_NAVSPG_INFIL_MINELEV'', CInt 10),
      (''CFG_INFMSG_UBX_USB'', CBytes [0]), (''CFG_ITFM_ENABLE'', CInt 1), (''CFG_ITFM_ANTSETTING'', CInt 2)]
     @ msgout COMMON_MSGOUT"

definition rtcm_key :: "string \<Rightarrow> string" where
  "rtcm_key t = ''CFG_MSGOUT_RTCM_3X_TYPE'' @ t @ ''_USB''"

definition base_profile :: "int \<Rightarrow> int \<Rightarrow> int \<Rightarrow> profile" where
  "base_profile rtcm_msm rtcm_1230_rate station_id =
     (let enabled = (if rtcm_msm = 7 then RTCM_MSM7 else RTCM_MSM4);
          disabled = (if rtcm_msm = 7 then RTCM_MSM4 else RTCM_MSM7)
      in \<lparr>pr_name = ''base'',
          pr_core = common_core 1000 2 True @ msgout [(''NAV_SVIN'', 1)] @ [(rtcm_key ''1005'', CInt 1)]
            @ map (\<lambda>t. (rtcm_key t, CInt 1)) enabled @ map (\<lambda>t. (rtcm_key t, CInt 0)) disabled
            @ [(rtcm_key ''1230'', CInt rtcm_1230_rate), (rtcm_key ''4072_0'', CInt 0), (rtcm_key ''4072_1'', CInt 0),
               (''CFG_RTCM_DF003_OUT'', CInt station_id)],
          pr_signals = SIGNALS_L1_L2, pr_optional = OPTIONAL_FEATURES, pr_nav_hz = 1\<rparr>)"

text \<open>\<open>nav_hz\<close> is a positive integer of the settings; \<open>round\<close> of a quotient rounds half to even.\<close>

definition rover_profile :: "int \<Rightarrow> int \<Rightarrow> profile" where
  "rover_profile nav_hz dynmodel =
     \<lparr>pr_name = ''rover'',
      pr_core = common_core (py_round (1000 / real_of_int nav_hz)) dynmodel False
        @ msgout [(''NAV_RELPOSNED'', 1), (''RXM_RTCM'', 1), (''TIM_TM2'', 1), (''NAV_VELNED'', 1)]
        @ [(''CFG_NAVHPG_DGNSSMODE'', CInt 3), (''CFG_TMODE_MODE'', CInt 0)],
      pr_signals = SIGNALS_L1_L2, pr_optional = OPTIONAL_FEATURES, pr_nav_hz = nav_hz\<rparr>"

fun chunked :: "nat \<Rightarrow> 'a list \<Rightarrow> 'a list list" where
  "chunked n [] = []"
| "chunked n (x # xs) = (x # take (n - 1) xs) # chunked n (drop (n - 1) xs)"

definition all_keys :: "profile \<Rightarrow> string list" where
  "all_keys p = map fst (pr_core p) @ map fst (pr_signals p) @ concat (map (\<lambda>(f, items). map fst items) (pr_optional p))"

section \<open>Lemmas\<close>

lemma chunked_concat [simp]: "concat (chunked n xs) = xs"
  by (induction n xs rule: chunked.induct) auto

lemma chunked_size: "0 < n \<Longrightarrow> ys \<in> set (chunked n xs) \<Longrightarrow> ys \<noteq> [] \<and> length ys \<le> n"
  by (induction n xs rule: chunked.induct) auto

lemma profile_keys_distinct:
  "distinct (all_keys (base_profile m r s))" "distinct (all_keys (rover_profile h d))"
proof -
  have "map fst (pr_core (base_profile m r s)) = map fst (pr_core (base_profile (if m = 7 then 7 else 4) 0 0))"
    "pr_signals (base_profile m r s) = pr_signals (base_profile 7 0 0)" "pr_optional (base_profile m r s) = pr_optional (base_profile 7 0 0)"
    by (simp_all add: base_profile_def common_core_def Let_def)
  then have "all_keys (base_profile m r s) = all_keys (base_profile (if m = 7 then 7 else 4) 0 0)"
    by (simp add: all_keys_def base_profile_def)
  moreover have seven: "distinct (all_keys (base_profile 7 0 0))"
    by (simp add: all_keys_def base_profile_def common_core_def msgout_def COMMON_MSGOUT_def rtcm_key_def RTCM_MSM7_def RTCM_MSM4_def SIGNALS_L1_L2_def OPTIONAL_FEATURES_def)
  moreover have "mset (all_keys (base_profile 4 0 0)) = mset (all_keys (base_profile 7 0 0))"
    by (simp add: all_keys_def base_profile_def comp_def)
  then have "distinct (all_keys (base_profile 4 0 0))" using seven mset_eq_imp_distinct_iff by blast
  ultimately show "distinct (all_keys (base_profile m r s))" by simp
  have c: "map fst (common_core a d b) = map fst (common_core 0 0 False)" for a d b
    by (simp add: common_core_def)
  have "all_keys (rover_profile h d) = map fst (common_core 0 0 False)
      @ map fst (msgout [(''NAV_RELPOSNED'', 1), (''RXM_RTCM'', 1), (''TIM_TM2'', 1), (''NAV_VELNED'', 1)])
      @ [''CFG_NAVHPG_DGNSSMODE'', ''CFG_TMODE_MODE''] @ map fst SIGNALS_L1_L2 @ concat (map (\<lambda>(f, items). map fst items) OPTIONAL_FEATURES)"
    by (simp add: all_keys_def rover_profile_def c [of "py_round (1000 / real_of_int h)" d])
  moreover have "distinct \<dots>" by (simp add: common_core_def msgout_def COMMON_MSGOUT_def SIGNALS_L1_L2_def OPTIONAL_FEATURES_def)
  ultimately show "distinct (all_keys (rover_profile h d))" by simp
qed

end
