(* ===== verification/Receiver.thy ===== *)
theory Receiver
  imports UbxConfig
begin

text \<open>
  The owner of the receiver's connection, \<open>src/mtrtk/core/receiver.py\<close>: the probe of the optional features, the write of a profile with
  the search for the keys a receiver refuses, the readback and the verdict on it, and the supervision of the connection with its
  backoff and its reports.

  What the link answers is an argument, a \<open>rlink\<close>: a request gives one of the outcomes of \<open>UbxLink.valset\<close>, \<open>valget\<close> and \<open>poll\<close> and a new
  state of whatever is on the other side. Layers are the bits of pyubx2, \<open>MON-VER\<close> is read by the state store, whose result is
  part of the answer. An exception other than those of the link ends a configuration as \<open>RFailed\<close>.
\<close>

section \<open>Requests\<close>

datatype set_reply = SetAck | SetNak | SetTimeout | SetFail
datatype get_reply = Got "cfg_item list" | GetNak | GetNoData | GetTimeout | GetFail

record version_info =
  vi_protver :: string
  vi_fw_version :: string
  vi_module :: string

text \<open>The answer to the poll of MON-VER: its content, another frame (an ACK-NAK), no answer, or an exception.\<close>

datatype ver_reply = Version version_info | NotVersion | VerTimeout | VerFail

record 's rlink =
  do_set :: "cfg_item list \<Rightarrow> nat \<Rightarrow> 's \<Rightarrow> set_reply \<times> 's"
  do_get :: "string list \<Rightarrow> 's \<Rightarrow> get_reply \<times> 's"
  do_poll :: "'s \<Rightarrow> ver_reply \<times> 's"
  is_stale :: "'s \<Rightarrow> bool"

record caps =
  ca_version :: version_info
  ca_supported :: "string set"
  ca_unsupported :: "string set"

datatype verdict_error = NoProfile | CoreRejected "string list" | SignalsRejected | VerifyFailed

datatype rerror = ProfileErr verdict_error | Unanswered | RTimeout | RFailed

record 's conf =
  cf_link :: 's
  cf_seen :: "string set"
  cf_slept :: "real list"

type_synonym ('s, 'a) ract = "'s conf \<Rightarrow> (rerror + 'a) \<times> 's conf"

definition ret :: "'a \<Rightarrow> ('s, 'a) ract" where "ret a = (\<lambda>c. (Inr a, c))"
definition fails :: "rerror \<Rightarrow> ('s, 'a) ract" where "fails e = (\<lambda>c. (Inl e, c))"

definition andthen :: "('s, 'a) ract \<Rightarrow> ('a \<Rightarrow> ('s, 'b) ract) \<Rightarrow> ('s, 'b) ract" where
  "andthen m f = (\<lambda>c. case m c of (Inl e, c') \<Rightarrow> (Inl e, c') | (Inr a, c') \<Rightarrow> f a c')"

definition ask_set :: "'s rlink \<Rightarrow> nat \<Rightarrow> cfg_item list \<Rightarrow> 's conf \<Rightarrow> set_reply \<times> 's conf" where
  "ask_set L layers items c = (case do_set L items layers (cf_link c) of (r, s) \<Rightarrow> (r, c\<lparr>cf_link := s\<rparr>))"

definition ask_get :: "'s rlink \<Rightarrow> string list \<Rightarrow> 's conf \<Rightarrow> get_reply \<times> 's conf" where
  "ask_get L keys c = (case do_get L keys (cf_link c) of (r, s) \<Rightarrow> (r, c\<lparr>cf_link := s\<rparr>))"

definition valset_act :: "'s rlink \<Rightarrow> nat \<Rightarrow> cfg_item list \<Rightarrow> ('s, bool) ract" where
  "valset_act L layers items = (\<lambda>c.
     case ask_set L layers items c of
       (SetAck, c') \<Rightarrow> (Inr True, c') | (SetNak, c') \<Rightarrow> (Inr False, c')
     | (SetTimeout, c') \<Rightarrow> (Inl RTimeout, c') | (SetFail, c') \<Rightarrow> (Inl RFailed, c'))"

section \<open>The probe\<close>

definition PROBE_ATTEMPTS :: nat where "PROBE_ATTEMPTS = 3"
definition PROBE_NAKS_FINAL :: nat where "PROBE_NAKS_FINAL = 2"
definition VERIFY_ATTEMPTS :: nat where "VERIFY_ATTEMPTS = 3"
definition VERIFY_RETRY_PAUSE_S :: real where "VERIFY_RETRY_PAUSE_S = 1"

text \<open>The attempts that are left, and the refusals so far.\<close>

fun probe_feature :: "'s rlink \<Rightarrow> string \<Rightarrow> string list \<Rightarrow> nat \<Rightarrow> nat \<Rightarrow> ('s, bool) ract" where
  "probe_feature L feature keys 0 naks = (\<lambda>c. (Inr (feature \<in> cf_seen c), c))"
| "probe_feature L feature keys (Suc n) naks = (\<lambda>c.
     case ask_get L keys c of
       (Got got, c') \<Rightarrow> if set keys \<subseteq> fst ` set got then (Inr True, c') else probe_feature L feature keys n naks c'
     | (GetNak, c') \<Rightarrow> if naks + 1 \<ge> PROBE_NAKS_FINAL then (Inr False, c') else probe_feature L feature keys n (naks + 1) c'
     | (GetNoData, c') \<Rightarrow> probe_feature L feature keys n naks c'
     | (GetTimeout, c') \<Rightarrow> if is_stale L (cf_link c') then (Inl RTimeout, c') else probe_feature L feature keys n naks c'
     | (GetFail, c') \<Rightarrow> (Inl RFailed, c'))"

fun probe_features :: "'s rlink \<Rightarrow> (string \<times> cfg_item list) list \<Rightarrow> caps \<Rightarrow> ('s, caps) ract" where
  "probe_features L [] caps = ret caps"
| "probe_features L ((feature, items) # fs) caps =
     andthen (probe_feature L feature (map fst items) PROBE_ATTEMPTS 0)
       (\<lambda>found. probe_features L fs
          (if found then caps\<lparr>ca_supported := insert feature (ca_supported caps)\<rparr>
           else caps\<lparr>ca_unsupported := insert feature (ca_unsupported caps)\<rparr>))"

definition no_version :: version_info where
  "no_version = \<lparr>vi_protver = [], vi_fw_version = [], vi_module = []\<rparr>"

definition probe :: "'s rlink \<Rightarrow> profile option \<Rightarrow> ('s, caps) ract" where
  "probe L p = (\<lambda>c.
     case do_poll L (cf_link c) of
       (VerTimeout, s) \<Rightarrow> (Inl RTimeout, c\<lparr>cf_link := s\<rparr>)
     | (VerFail, s) \<Rightarrow> (Inl RFailed, c\<lparr>cf_link := s\<rparr>)
     | (v, s) \<Rightarrow>
         andthen
           (probe_features L (case p of None \<Rightarrow> OPTIONAL_FEATURES | Some p \<Rightarrow> pr_optional p)
              \<lparr>ca_version = (case v of Version i \<Rightarrow> i | _ \<Rightarrow> no_version), ca_supported = {}, ca_unsupported = {}\<rparr>)
           (\<lambda>caps c. (Inr caps, c\<lparr>cf_seen := cf_seen c \<union> ca_supported caps\<rparr>)) (c\<lparr>cf_link := s\<rparr>))"

section \<open>Reading back\<close>

type_synonym readings = "(string \<rightharpoonup> cfg_value) \<times> string set"

text \<open>The keys of a refused chunk, one by one; the second component collects what was not heard.\<close>

fun read_singly :: "'s rlink \<Rightarrow> string list \<Rightarrow> readings \<Rightarrow> ('s, readings) ract" where
  "read_singly L [] r = ret r"
| "read_singly L (k # ks) r = (\<lambda>c.
     case ask_get L [k] c of
       (Got one, c') \<Rightarrow> read_singly L ks (fst r ++ map_of (rev one), if k \<in> fst ` set one then snd r else insert k (snd r)) c'
     | (GetNoData, c') \<Rightarrow> read_singly L ks (fst r, insert k (snd r)) c'
     | (GetNak, c') \<Rightarrow> read_singly L ks r c'
     | (GetTimeout, c') \<Rightarrow> (Inl RTimeout, c')
     | (GetFail, c') \<Rightarrow> (Inl RFailed, c'))"

fun read_chunks :: "'s rlink \<Rightarrow> string list list \<Rightarrow> readings \<Rightarrow> ('s, readings) ract" where
  "read_chunks L [] r = ret r"
| "read_chunks L (names # more_names) r = (\<lambda>c.
     case ask_get L names c of
       (Got got, c') \<Rightarrow>
         read_chunks L more_names (fst r ++ map_of (rev got), snd r \<union> {k \<in> set names. k \<notin> fst ` set got}) c'
     | (GetTimeout, c') \<Rightarrow> (Inl RTimeout, c')
     | (GetFail, c') \<Rightarrow> (Inl RFailed, c')
     | (_, c') \<Rightarrow> andthen (read_singly L names r) (read_chunks L more_names) c')"

definition readback :: "'s rlink \<Rightarrow> string list \<Rightarrow> ('s, readings) ract" where
  "readback L keys = read_chunks L (chunked MAX_KEYS_PER_VALSET keys) (Map.empty, {})"

section \<open>Writing\<close>

text \<open>
  A write that is searched for its bad keys when it is refused; \<open>_bisect\<close> is never called on an empty list.
\<close>

definition or_search :: "'s rlink \<Rightarrow> nat \<Rightarrow> (cfg_item list \<Rightarrow> ('s, string list) ract) \<Rightarrow> cfg_item list \<Rightarrow> ('s, string list) ract" where
  "or_search L layers search items =
     andthen (valset_act L layers items) (\<lambda>acked. if acked then ret [] else search items)"

lemma or_search_cong [fundef_cong]:
  "items = items' \<Longrightarrow> (\<And>c. f items' c = g items' c) \<Longrightarrow> c = c' \<Longrightarrow> or_search L layers f items c = or_search L layers g items' c'"
  by (auto simp: or_search_def andthen_def split: prod.splits sum.splits)

lemma andthen_cong [fundef_cong]:
  "m c = m' c' \<Longrightarrow> (\<And>a c1. m' c' = (Inr a, c1) \<Longrightarrow> f a c1 = g a c1) \<Longrightarrow> andthen m f c = andthen m' g c'"
  by (auto simp: andthen_def split: prod.splits sum.splits)

function bisect :: "'s rlink \<Rightarrow> nat \<Rightarrow> cfg_item list \<Rightarrow> 's conf \<Rightarrow> (rerror + string list) \<times> 's conf" where
  "bisect L layers items c =
     (if length items \<le> 1 then (Inr (map fst items), c)
      else
        (let mid = length items div 2 in
         andthen (\<lambda>c. or_search L layers (bisect L layers) (take mid items) c)
           (\<lambda>r1 c. andthen (\<lambda>c. or_search L layers (bisect L layers) (drop mid items) c) (\<lambda>r2. ret (r1 @ r2)) c) c))"
  by pat_completeness auto
termination
  by (relation "measure (\<lambda>(L, l, items, c). length items)") auto

declare bisect.simps [simp del]

fun apply_chunks :: "'s rlink \<Rightarrow> nat \<Rightarrow> cfg_item list list \<Rightarrow> ('s, string list) ract" where
  "apply_chunks L layers [] = ret []"
| "apply_chunks L layers (items # rest) =
     andthen (or_search L layers (bisect L layers) items) (\<lambda>r1. andthen (apply_chunks L layers rest) (\<lambda>r2. ret (r1 @ r2)))"

definition apply_with_bisect :: "'s rlink \<Rightarrow> cfg_item list \<Rightarrow> nat \<Rightarrow> ('s, string list) ract" where
  "apply_with_bisect L items layers = apply_chunks L layers (chunked MAX_KEYS_PER_VALSET items)"

definition differing :: "(string \<rightharpoonup> cfg_value) \<Rightarrow> cfg_item list \<Rightarrow> cfg_item list" where
  "differing held items = filter (\<lambda>(k, v). held k \<noteq> Some v) items"

definition apply_core :: "'s rlink \<Rightarrow> cfg_item list \<Rightarrow> nat \<Rightarrow> ('s, string list) ract" where
  "apply_core L core layers =
     andthen (readback L (map fst core))
       (\<lambda>r. let pending = differing (fst r) core in if pending = [] then ret [] else apply_with_bisect L pending layers)"

text \<open>Two attempts; \<open>None\<close> is silence.\<close>

definition valset_optional :: "'s rlink \<Rightarrow> cfg_item list \<Rightarrow> nat \<Rightarrow> ('s, bool option) ract" where
  "valset_optional L items layers = (\<lambda>c.
     case valset_act L layers items c of
       (Inl RTimeout, c1) \<Rightarrow>
         (case valset_act L layers items c1 of
            (Inl RTimeout, c2) \<Rightarrow> (Inr None, c2) | (Inl e, c2) \<Rightarrow> (Inl e, c2) | (Inr b, c2) \<Rightarrow> (Inr (Some b), c2))
     | (Inl e, c1) \<Rightarrow> (Inl e, c1)
     | (Inr b, c1) \<Rightarrow> (Inr (Some b), c1))"

definition supports :: "string \<Rightarrow> caps \<Rightarrow> caps" where
  "supports f caps = caps\<lparr>ca_supported := insert f (ca_supported caps)\<rparr>"

definition demotes :: "string \<Rightarrow> caps \<Rightarrow> caps" where
  "demotes f caps = caps\<lparr>ca_supported := ca_supported caps - {f}, ca_unsupported := insert f (ca_unsupported caps)\<rparr>"

definition apply_optional :: "'s rlink \<Rightarrow> caps \<Rightarrow> string \<Rightarrow> cfg_item list \<Rightarrow> nat \<Rightarrow> ('s, caps) ract" where
  "apply_optional L caps feature items layers =
     andthen (readback L (map fst items))
       (\<lambda>r. if differing (fst r) items = [] then ret (supports feature caps)
            else andthen (valset_optional L items layers)
                   (\<lambda>b. ret (if b = Some False then demotes feature caps else supports feature caps)))"

fun apply_optionals :: "'s rlink \<Rightarrow> nat \<Rightarrow> (string \<times> cfg_item list) list \<Rightarrow> caps \<Rightarrow> ('s, caps) ract" where
  "apply_optionals L layers [] caps = ret caps"
| "apply_optionals L layers ((feature, items) # fs) caps =
     (if feature \<in> ca_unsupported caps then apply_optionals L layers fs caps
      else andthen (apply_optional L caps feature items layers) (apply_optionals L layers fs))"

section \<open>The verdict\<close>

text \<open>\<open>_wanted\<close>: a later value of a key replaces an earlier one.\<close>

definition wanted :: "profile \<Rightarrow> string list \<Rightarrow> cfg_item list" where
  "wanted p skip =
     (let items = filter (\<lambda>(k, v). k \<notin> set skip) (pr_core p @ pr_signals p)
      in map (\<lambda>k. (k, the (map_of (rev items) k))) (remdups (map fst items)))"

text \<open>\<open>verify\<close>: the items that differ, and the keys not heard.\<close>

definition verify_profile :: "'s rlink \<Rightarrow> profile \<Rightarrow> string list \<Rightarrow> ('s, cfg_item list \<times> readings) ract" where
  "verify_profile L p skip =
     andthen (readback L (map fst (wanted p skip))) (\<lambda>r. ret (differing (fst r) (wanted p skip), r))"

fun verify_attempts :: "'s rlink \<Rightarrow> bool \<Rightarrow> profile \<Rightarrow> string list \<Rightarrow> nat \<Rightarrow> ('s, unit) ract" where
  "verify_attempts L once p skip 0 = (if once then fails RTimeout else fails Unanswered)"
| "verify_attempts L once p skip (Suc n) =
     andthen (verify_profile L p skip)
       (\<lambda>(bad, got, unheard).
          if bad = [] then ret ()
          else if (\<exists>(k, v)\<in>set bad. k \<notin> unheard) \<and> length (filter (\<lambda>(k, v). got k = None) bad) \<noteq> length (wanted p skip)
          then fails (ProfileErr VerifyFailed)
          else
            andthen (\<lambda>c. (Inr (), if n > 0 then c\<lparr>cf_slept := cf_slept c @ [VERIFY_RETRY_PAUSE_S]\<rparr> else c))
              (\<lambda>_. verify_attempts L once p skip n))"

definition verify_or_raise :: "'s rlink \<Rightarrow> bool \<Rightarrow> profile \<Rightarrow> string list \<Rightarrow> ('s, unit) ract" where
  "verify_or_raise L once p skip = verify_attempts L once p skip (if once then 1 else VERIFY_ATTEMPTS)"

text \<open>\<open>_configure\<close>, under its lock.\<close>

definition configure :: "'s rlink \<Rightarrow> bool \<Rightarrow> bool \<Rightarrow> profile option \<Rightarrow> bool \<Rightarrow> ('s, caps) ract" where
  "configure L strict once profile_opt first =
     (case profile_opt of
        None \<Rightarrow> fails (ProfileErr NoProfile)
      | Some p \<Rightarrow>
          (let layers = (if first then LAYERS_ALL else LAYERS_RAM) in
           andthen (probe L (Some p))
             (\<lambda>caps. andthen (apply_core L (pr_core p) layers)
                (\<lambda>rejected.
                   if rejected \<noteq> [] \<and> strict then fails (ProfileErr (CoreRejected rejected))
                   else andthen (readback L (map fst (pr_signals p)))
                     (\<lambda>r. andthen
                        (if differing (fst r) (pr_signals p) \<noteq> []
                         then andthen (valset_act L layers (pr_signals p)) (\<lambda>b. if b then ret () else fails (ProfileErr SignalsRejected))
                         else ret ())
                        (\<lambda>_. andthen (apply_optionals L layers (pr_optional p) caps)
                           (\<lambda>caps'. andthen (verify_or_raise L once p rejected) (\<lambda>_. ret caps'))))))))"

section \<open>A receiver that answers\<close>

text \<open>
  What the protocol says of a receiver that hears and answers every request: a CFG-VALSET is taken whole or not at all, and is refused
  when one of its items is (\<open>ok\<close> is the firmware's word on an item); a CFG-VALGET of keys it has gives their values, any other is refused.
  \<open>held\<close> is its configuration, \<open>log\<close> the writes it was sent.
\<close>

definition obeys ::
  "'s rlink \<Rightarrow> ('s \<Rightarrow> string \<rightharpoonup> cfg_value) \<Rightarrow> (cfg_item \<Rightarrow> bool) \<Rightarrow> ('s \<Rightarrow> (cfg_item list \<times> nat) list) \<Rightarrow> bool" where
  "obeys L held ok wlog \<longleftrightarrow>
     (\<forall>s items layers. \<exists>s'.
        do_set L items layers s = (if list_all ok items then SetAck else SetNak, s') \<and>
        held s' = (if list_all ok items then held s ++ map_of (rev items) else held s) \<and> wlog s' = wlog s @ [(items, layers)]) \<and>
     (\<forall>s keys. \<exists>s'.
        do_get L keys s = (if set keys \<subseteq> dom (held s) then Got (map (\<lambda>k. (k, the (held s k))) keys) else GetNak, s') \<and>
        held s' = held s \<and> wlog s' = wlog s) \<and>
     (\<forall>s. \<exists>v s'. do_poll L s = (v, s') \<and> v \<noteq> VerTimeout \<and> v \<noteq> VerFail \<and> held s' = held s \<and> wlog s' = wlog s)"

text \<open>The effect of an action that succeeds: the new configuration and the writes, all of them with these layers and of some of the items.\<close>

definition effect ::
  "('s \<Rightarrow> string \<rightharpoonup> cfg_value) \<Rightarrow> ('s \<Rightarrow> (cfg_item list \<times> nat) list) \<Rightarrow> 's conf \<Rightarrow> cfg_item list \<Rightarrow> nat \<Rightarrow> cfg_item set \<Rightarrow> 's conf \<Rightarrow> bool" where
  "effect held wlog c items layers of_these c' \<longleftrightarrow>
     held (cf_link c') = held (cf_link c) ++ map_of (rev items) \<and>
     (\<exists>ws. wlog (cf_link c') = wlog (cf_link c) @ ws \<and> list_all (\<lambda>(is, l). l = layers \<and> set is \<subseteq> of_these) ws) \<and>
     (of_these = {} \<longrightarrow> wlog (cf_link c') = wlog (cf_link c)) \<and>
     cf_seen c \<subseteq> cf_seen c'"

lemma effect_refl [simp]: "effect held wlog c [] l T c"
  by (auto simp: effect_def)

lemma effect_trans:
  assumes "effect held wlog c is l T c1" "effect held wlog c1 js l U c2"
  shows "effect held wlog c (is @ js) l (T \<union> U) c2"
proof -
  obtain ws where ws: "wlog (cf_link c1) = wlog (cf_link c) @ ws" "list_all (\<lambda>(is, k). k = l \<and> set is \<subseteq> T) ws"
    using assms(1) unfolding effect_def by blast
  obtain vs where vs: "wlog (cf_link c2) = wlog (cf_link c1) @ vs" "list_all (\<lambda>(is, k). k = l \<and> set is \<subseteq> U) vs"
    using assms(2) unfolding effect_def by blast
  have "wlog (cf_link c2) = wlog (cf_link c) @ (ws @ vs)" using ws(1) vs(1) by simp
  moreover have "list_all (\<lambda>(is, k). k = l \<and> set is \<subseteq> T \<union> U) (ws @ vs)"
    using ws(2) vs(2) unfolding list_all_iff by fastforce
  ultimately show ?thesis using assms unfolding effect_def by (intro conjI exI [of _ "ws @ vs"]) auto
qed

lemma effect_mono:
  assumes "effect held wlog c is l T c'" "T \<subseteq> U"
  shows "effect held wlog c is l U c'"
proof -
  obtain ws where ws: "wlog (cf_link c') = wlog (cf_link c) @ ws" "list_all (\<lambda>(is, k). k = l \<and> set is \<subseteq> T) ws"
    using assms(1) unfolding effect_def by blast
  have "list_all (\<lambda>(is, k). k = l \<and> set is \<subseteq> U) ws" using ws(2) assms(2) unfolding list_all_iff by fastforce
  then show ?thesis using assms ws(1) unfolding effect_def by (intro conjI exI [of _ ws]) auto
qed

lemma andthen_apply:
  "andthen m f c = (case m c of (Inl e, c') \<Rightarrow> (Inl e, c') | (Inr a, c') \<Rightarrow> f a c')"
  by (simp add: andthen_def)

lemma andthen_run:
  assumes "m c = (Inr a, c1)" shows "andthen m f c = f a c1"
  using assms by (simp add: andthen_def)

lemma valset_answers:
  assumes A: "obeys L held ok wlog" and ne: "items \<noteq> []"
  shows "\<exists>c'. valset_act L l items c = (Inr (list_all ok items), c') \<and>
     effect held wlog c (if list_all ok items then items else []) l (set items) c' \<and> cf_seen c' = cf_seen c"
proof -
  obtain s where s: "do_set L items l (cf_link c) = (if list_all ok items then SetAck else SetNak, s)"
    "held s = (if list_all ok items then held (cf_link c) ++ map_of (rev items) else held (cf_link c))"
    "wlog s = wlog (cf_link c) @ [(items, l)]"
    using A unfolding obeys_def by metis
  show ?thesis using s ne by (auto simp: valset_act_def ask_set_def effect_def)
qed

lemma get_answers:
  assumes A: "obeys L held ok wlog"
  shows "\<exists>c'. ask_get L keys c =
      (if set keys \<subseteq> dom (held (cf_link c)) then Got (map (\<lambda>k. (k, the (held (cf_link c) k))) keys) else GetNak, c') \<and>
    held (cf_link c') = held (cf_link c) \<and> wlog (cf_link c') = wlog (cf_link c) \<and> cf_seen c' = cf_seen c"
proof -
  obtain s where s: "do_get L keys (cf_link c) =
      (if set keys \<subseteq> dom (held (cf_link c)) then Got (map (\<lambda>k. (k, the (held (cf_link c) k))) keys) else GetNak, s)"
    "held s = held (cf_link c)" "wlog s = wlog (cf_link c)"
    using A unfolding obeys_def by metis
  then show ?thesis by (auto simp: ask_get_def)
qed

definition same_receiver :: "('s \<Rightarrow> string \<rightharpoonup> cfg_value) \<Rightarrow> ('s \<Rightarrow> (cfg_item list \<times> nat) list) \<Rightarrow> 's conf \<Rightarrow> 's conf \<Rightarrow> bool" where
  "same_receiver held wlog c c' \<longleftrightarrow>
     held (cf_link c') = held (cf_link c) \<and> wlog (cf_link c') = wlog (cf_link c) \<and> cf_seen c \<subseteq> cf_seen c'"

lemma same_receiver_effect: "same_receiver held wlog c c' \<Longrightarrow> effect held wlog c [] l T c'"
  by (auto simp: same_receiver_def effect_def)

lemma same_receiver_trans: "same_receiver held wlog c c1 \<Longrightarrow> same_receiver held wlog c1 c2 \<Longrightarrow> same_receiver held wlog c c2"
  by (auto simp: same_receiver_def)

lemma got_map: "set ks \<subseteq> dom m \<Longrightarrow> map_of (rev (map (\<lambda>k. (k, the (m k))) ks)) = m |` set ks"
proof (induction ks)
  case (Cons k ks)
  then have "map_of (rev (map (\<lambda>k. (k, the (m k))) (k # ks))) = [k \<mapsto> the (m k)] ++ m |` set ks" by simp
  then show ?case using Cons.prems by (auto simp: restrict_map_def map_add_def fun_eq_iff split: option.splits)
qed (simp add: restrict_map_def)

lemma read_singly_answers:
  assumes A: "obeys L held ok wlog"
  shows "\<exists>c'. read_singly L ks r c = (Inr (fst r ++ held (cf_link c) |` set ks, snd r), c') \<and> same_receiver held wlog c c'"
proof (induction ks arbitrary: r c)
  case Nil
  then show ?case by (simp add: ret_def same_receiver_def restrict_map_def map_add_def)
next
  case (Cons k ks)
  obtain c1 where g: "ask_get L [k] c =
      (if set [k] \<subseteq> dom (held (cf_link c)) then Got (map (\<lambda>k. (k, the (held (cf_link c) k))) [k]) else GetNak, c1)"
    "held (cf_link c1) = held (cf_link c)" "wlog (cf_link c1) = wlog (cf_link c)" "cf_seen c1 = cf_seen c"
    using get_answers [OF A] by blast
  have s: "same_receiver held wlog c c1" using g by (simp add: same_receiver_def)
  show ?case
  proof (cases "held (cf_link c) k")
    case None
    then have "k \<notin> dom (held (cf_link c))" by auto
    then have "held (cf_link c) |` insert k (set ks) = held (cf_link c) |` set ks" by (auto simp: restrict_map_def fun_eq_iff)
    then show ?thesis using Cons [of r c1] g s None \<open>k \<notin> dom (held (cf_link c))\<close> same_receiver_trans by (auto simp: domIff)
  next
    case (Some v)
    let ?r = "(fst r ++ [k \<mapsto> v], snd r)"
    have e: "fst ?r ++ held (cf_link c) |` set ks = fst r ++ held (cf_link c) |` set (k # ks)"
      using Some by (auto simp: restrict_map_def map_add_def fun_eq_iff split: option.splits)
    have "read_singly L (k # ks) r c = read_singly L ks ?r c1" using g(1) Some by (simp add: domIff)
    moreover obtain c2 where "read_singly L ks ?r c1 = (Inr (fst ?r ++ held (cf_link c1) |` set ks, snd ?r), c2)"
      "same_receiver held wlog c1 c2"
      using Cons by blast
    ultimately show ?thesis using g(2) e same_receiver_trans [OF s] by auto
  qed
qed

lemma read_chunks_answers:
  assumes A: "obeys L held ok wlog"
  shows "\<exists>c'. read_chunks L kss r c = (Inr (fst r ++ held (cf_link c) |` set (concat kss), snd r), c') \<and> same_receiver held wlog c c'"
proof (induction kss arbitrary: r c)
  case Nil
  then show ?case by (simp add: ret_def same_receiver_def restrict_map_def map_add_def)
next
  case (Cons ks kss)
  obtain c1 where g: "ask_get L ks c =
      (if set ks \<subseteq> dom (held (cf_link c)) then Got (map (\<lambda>k. (k, the (held (cf_link c) k))) ks) else GetNak, c1)"
    "held (cf_link c1) = held (cf_link c)" "wlog (cf_link c1) = wlog (cf_link c)" "cf_seen c1 = cf_seen c"
    using get_answers [OF A] by blast
  have s: "same_receiver held wlog c c1" using g by (simp add: same_receiver_def)
  have add: "m ++ h |` S ++ h |` T = m ++ h |` (S \<union> T)" for m h :: "string \<rightharpoonup> cfg_value" and S T
    by (auto simp: restrict_map_def map_add_def fun_eq_iff split: option.splits)
  show ?case
  proof (cases "set ks \<subseteq> dom (held (cf_link c))")
    case True
    have n: "{k \<in> set ks. k \<notin> fst ` (\<lambda>k. (k, the (held (cf_link c) k))) ` set ks} = {}" by (auto simp: image_image)
    have "read_chunks L (ks # kss) r c = read_chunks L kss (fst r ++ held (cf_link c) |` set ks, snd r) c1"
      using g(1) True got_map [OF True] by (simp only: read_chunks.simps prod.case get_reply.case if_True set_map n Un_empty_right)
    then show ?thesis using Cons [of "(fst r ++ held (cf_link c) |` set ks, snd r)" c1] g s same_receiver_trans
      by (auto simp: add)
  next
    case False
    obtain c2 where c2: "read_singly L ks r c1 = (Inr (fst r ++ held (cf_link c1) |` set ks, snd r), c2)" "same_receiver held wlog c1 c2"
      using read_singly_answers [OF A] by blast
    have "read_chunks L (ks # kss) r c = read_chunks L kss (fst r ++ held (cf_link c) |` set ks, snd r) c2"
      using g(1,2) False c2(1) by (simp add: andthen_def)
    moreover have "held (cf_link c2) = held (cf_link c)" using c2(2) g(2) by (simp add: same_receiver_def)
    ultimately show ?thesis
      using Cons [of "(fst r ++ held (cf_link c) |` set ks, snd r)" c2] same_receiver_trans [OF s same_receiver_trans [OF c2(2)]]
      by (auto simp: add)
  qed
qed

lemma readback_answers:
  assumes A: "obeys L held ok wlog"
  shows "\<exists>c'. readback L keys c = (Inr (held (cf_link c) |` set keys, {}), c') \<and> same_receiver held wlog c c'"
  using read_chunks_answers [OF A, of "chunked MAX_KEYS_PER_VALSET keys" "(Map.empty, {})" c] by (simp add: readback_def)

section \<open>The search for refused keys\<close>

definition refused :: "(cfg_item \<Rightarrow> bool) \<Rightarrow> cfg_item list \<Rightarrow> string list" where
  "refused ok items = map fst (filter (\<lambda>x. \<not> ok x) items)"

lemma refused_append [simp]: "refused ok (xs @ ys) = refused ok xs @ refused ok ys"
  by (simp add: refused_def)

lemma refused_none: "list_all ok items \<Longrightarrow> refused ok items = [] \<and> filter ok items = items"
  by (auto simp: refused_def list_all_iff)

definition searched :: "('s \<Rightarrow> string \<rightharpoonup> cfg_value) \<Rightarrow> ('s \<Rightarrow> (cfg_item list \<times> nat) list) \<Rightarrow> (cfg_item \<Rightarrow> bool) \<Rightarrow> nat \<Rightarrow>
    ('s, string list) ract \<Rightarrow> cfg_item list \<Rightarrow> 's conf \<Rightarrow> bool" where
  "searched held wlog ok l m items c \<longleftrightarrow>
     (\<exists>c'. m c = (Inr (refused ok items), c') \<and> effect held wlog c (filter ok items) l (set items) c' \<and> cf_seen c' = cf_seen c)"

lemma or_search_answers:
  assumes A: "obeys L held ok wlog" and ne: "items \<noteq> []"
    and rec: "\<And>c. \<not> list_all ok items \<Longrightarrow> searched held wlog ok l (f items) items c"
  shows "searched held wlog ok l (or_search L l f items) items c"
proof -
  obtain c1 where c1: "valset_act L l items c = (Inr (list_all ok items), c1)"
    "effect held wlog c (if list_all ok items then items else []) l (set items) c1" "cf_seen c1 = cf_seen c"
    using valset_answers [OF A ne] by blast
  show ?thesis
  proof (cases "list_all ok items")
    case True
    then show ?thesis using c1 refused_none [OF True] by (auto simp: searched_def or_search_def andthen_def ret_def)
  next
    case False
    obtain c2 where c2: "f items c1 = (Inr (refused ok items), c2)" "effect held wlog c1 (filter ok items) l (set items) c2"
      "cf_seen c2 = cf_seen c1"
      using rec [OF False, of c1] by (auto simp: searched_def)
    have "effect held wlog c ([] @ filter ok items) l (set items \<union> set items) c2"
      using effect_trans [OF _ c2(2), of c "[]" "set items"] c1(2) False by simp
    then show ?thesis using False c1(1,3) c2 by (auto simp: searched_def or_search_def andthen_def)
  qed
qed

lemma searched_both:
  assumes "\<And>c. searched held wlog ok l m xs c" "\<And>c. searched held wlog ok l m' ys c"
  shows "searched held wlog ok l (andthen m (\<lambda>r1. andthen m' (\<lambda>r2. ret (r1 @ r2)))) (xs @ ys) c"
proof -
  obtain c1 where c1: "m c = (Inr (refused ok xs), c1)" "effect held wlog c (filter ok xs) l (set xs) c1" "cf_seen c1 = cf_seen c"
    using assms(1) by (auto simp: searched_def)
  obtain c2 where c2: "m' c1 = (Inr (refused ok ys), c2)" "effect held wlog c1 (filter ok ys) l (set ys) c2" "cf_seen c2 = cf_seen c1"
    using assms(2) [of c1] by (auto simp: searched_def)
  show ?thesis using c1 c2 effect_trans [OF c1(2) c2(2)] by (auto simp: searched_def andthen_def ret_def)
qed

lemma bisect_answers:
  assumes A: "obeys L held ok wlog"
  shows "\<not> list_all ok items \<Longrightarrow> searched held wlog ok l (bisect L l items) items c"
proof (induction items arbitrary: c rule: measure_induct_rule [of length])
  case (less items c)
  show ?case
  proof (cases "length items \<le> 1")
    case True
    then obtain x where x: "items = [x]" "\<not> ok x" using less.prems by (cases items) auto
    then show ?thesis by (auto simp: searched_def bisect.simps refused_def)
  next
    case False
    let ?m = "length items div 2"
    have ne: "take ?m items \<noteq> []" "drop ?m items \<noteq> []" using False by (auto simp: Suc_le_eq div_eq_0_iff)
    have l: "length (take ?m items) < length items" "length (drop ?m items) < length items" using False by auto
    have "searched held wlog ok l (or_search L l (bisect L l) (take ?m items)) (take ?m items) c" for c
      by (rule or_search_answers [OF A ne(1)]) (rule less.IH [OF l(1)])
    moreover have "searched held wlog ok l (or_search L l (bisect L l) (drop ?m items)) (drop ?m items) c" for c
      by (rule or_search_answers [OF A ne(2)]) (rule less.IH [OF l(2)])
    ultimately have "searched held wlog ok l (andthen (or_search L l (bisect L l) (take ?m items))
        (\<lambda>r1. andthen (or_search L l (bisect L l) (drop ?m items)) (\<lambda>r2. ret (r1 @ r2)))) (take ?m items @ drop ?m items) c"
      by (rule searched_both)
    moreover have "bisect L l items = andthen (or_search L l (bisect L l) (take ?m items))
        (\<lambda>r1. andthen (or_search L l (bisect L l) (drop ?m items)) (\<lambda>r2. ret (r1 @ r2)))"
      using False by (intro ext, subst bisect.simps) (simp add: Let_def)
    ultimately show ?thesis by simp
  qed
qed

lemma apply_chunks_answers:
  assumes A: "obeys L held ok wlog"
  shows "list_all (\<lambda>xs. xs \<noteq> []) xss \<Longrightarrow> searched held wlog ok l (apply_chunks L l xss) (concat xss) c"
proof (induction xss arbitrary: c)
  case Nil
  then show ?case by (auto simp: searched_def ret_def refused_def)
next
  case (Cons xs xss)
  have "searched held wlog ok l (or_search L l (bisect L l) xs) xs c" for c
    by (rule or_search_answers [OF A]) (use Cons.prems bisect_answers [OF A] in auto)
  moreover have "searched held wlog ok l (apply_chunks L l xss) (concat xss) c" for c
    by (rule Cons.IH) (use Cons.prems in auto)
  ultimately show ?case by (simp add: searched_both)
qed

lemma differing_restrict: "differing (h |` set (map fst items)) items = differing h items"
proof -
  have "(h |` set (map fst items)) k = h k" if "(k, v) \<in> set items" for k v
    using that by (force simp: restrict_map_def)
  then show ?thesis unfolding differing_def by (intro filter_cong) auto
qed

lemma apply_core_answers:
  assumes A: "obeys L held ok wlog"
  shows "\<exists>c'. apply_core L core l c = (Inr (refused ok (differing (held (cf_link c)) core)), c') \<and>
    effect held wlog c (filter ok (differing (held (cf_link c)) core)) l (set (differing (held (cf_link c)) core)) c'"
proof -
  let ?p = "differing (held (cf_link c)) core"
  obtain c1 where c1: "readback L (map fst core) c = (Inr (held (cf_link c) |` set (map fst core), {}), c1)" "same_receiver held wlog c c1"
    using readback_answers [OF A] by blast
  note p = differing_restrict [of "held (cf_link c)" core]
  have run: "apply_core L core l c = (if ?p = [] then ret [] else apply_with_bisect L ?p l) c1"
    unfolding apply_core_def andthen_run [of "readback L (map fst core)" c, OF c1(1)] by (simp only: fst_conv p Let_def)
  show ?thesis
  proof (cases "?p = []")
    case True
    then show ?thesis using run same_receiver_effect [OF c1(2)] by (auto simp: ret_def refused_def)
  next
    case False
    have "list_all (\<lambda>xs. xs \<noteq> []) (chunked MAX_KEYS_PER_VALSET ?p)"
      using chunked_size [of MAX_KEYS_PER_VALSET _ ?p] by (auto simp: list_all_iff MAX_KEYS_PER_VALSET_def)
    from apply_chunks_answers [OF A this, of l c1]
    obtain c2 where c2: "apply_with_bisect L ?p l c1 = (Inr (refused ok ?p), c2)" "effect held wlog c1 (filter ok ?p) l (set ?p) c2"
      by (auto simp: searched_def apply_with_bisect_def)
    have "effect held wlog c ([] @ filter ok ?p) l ({} \<union> set ?p) c2"
      by (rule effect_trans [OF same_receiver_effect [OF c1(2)] c2(2)])
    then show ?thesis using run False c2(1) by auto
  qed
qed

section \<open>Features and the whole configuration\<close>

definition known :: "(string \<rightharpoonup> cfg_value) \<Rightarrow> cfg_item list \<Rightarrow> bool" where
  "known h items \<longleftrightarrow> set (map fst items) \<subseteq> dom h"

lemma probe_feature_answers:
  assumes A: "obeys L held ok wlog"
  shows "\<exists>c'. probe_feature L f (map fst items) PROBE_ATTEMPTS 0 c = (Inr (known (held (cf_link c)) items), c') \<and>
    same_receiver held wlog c c'"
proof -
  let ?ks = "map fst items"
  obtain c1 where c1: "ask_get L ?ks c =
      (if set ?ks \<subseteq> dom (held (cf_link c)) then Got (map (\<lambda>k. (k, the (held (cf_link c) k))) ?ks) else GetNak, c1)"
    "held (cf_link c1) = held (cf_link c)" "wlog (cf_link c1) = wlog (cf_link c)" "cf_seen c1 = cf_seen c"
    using get_answers [OF A] by blast
  obtain c2 where c2: "ask_get L ?ks c1 =
      (if set ?ks \<subseteq> dom (held (cf_link c1)) then Got (map (\<lambda>k. (k, the (held (cf_link c1) k))) ?ks) else GetNak, c2)"
    "held (cf_link c2) = held (cf_link c1)" "wlog (cf_link c2) = wlog (cf_link c1)" "cf_seen c2 = cf_seen c1"
    using get_answers [OF A] by blast
  have n: "PROBE_ATTEMPTS = Suc (Suc (Suc 0))" by (simp add: PROBE_ATTEMPTS_def)
  show ?thesis
  proof (cases "known (held (cf_link c)) items")
    case True
    then have g: "ask_get L ?ks c = (Got (map (\<lambda>k. (k, the (held (cf_link c) k))) ?ks), c1)"
      using c1(1) unfolding known_def by (simp only: if_True)
    have "set ?ks \<subseteq> fst ` set (map (\<lambda>k. (k, the (held (cf_link c) k))) ?ks)" by (force simp: image_image)
    then have "probe_feature L f ?ks PROBE_ATTEMPTS 0 c = (Inr True, c1)"
      unfolding n probe_feature.simps g prod.case get_reply.case by (rule if_P)
    then show ?thesis using True c1 by (auto simp: same_receiver_def)
  next
    case False
    then have "ask_get L ?ks c = (GetNak, c1)" "ask_get L ?ks c1 = (GetNak, c2)"
      using c1(1,2) c2(1) unfolding known_def by (simp_all only: if_False)
    then have "probe_feature L f ?ks PROBE_ATTEMPTS 0 c = (Inr False, c2)"
      by (simp add: n PROBE_NAKS_FINAL_def)
    then show ?thesis using False c1 c2 by (auto simp: same_receiver_def)
  qed
qed

definition feature_names :: "(cfg_item list \<Rightarrow> bool) \<Rightarrow> (string \<times> cfg_item list) list \<Rightarrow> string set" where
  "feature_names P fs = fst ` {x \<in> set fs. P (snd x)}"

lemma probe_features_answers:
  assumes A: "obeys L held ok wlog"
  shows "\<exists>c'. probe_features L fs caps c =
      (Inr (caps\<lparr>ca_supported := ca_supported caps \<union> feature_names (known (held (cf_link c))) fs,
                 ca_unsupported := ca_unsupported caps \<union> feature_names (\<lambda>is. \<not> known (held (cf_link c)) is) fs\<rparr>), c') \<and>
    same_receiver held wlog c c'"
proof (induction fs arbitrary: caps c)
  case Nil
  then show ?case by (auto simp: ret_def feature_names_def same_receiver_def)
next
  case (Cons x fs)
  obtain f items where x: "x = (f, items)" by (cases x)
  let ?h = "held (cf_link c)"
  obtain c1 where c1: "probe_feature L f (map fst items) PROBE_ATTEMPTS 0 c = (Inr (known ?h items), c1)" "same_receiver held wlog c c1"
    using probe_feature_answers [OF A] by blast
  have h: "held (cf_link c1) = ?h" using c1(2) by (simp add: same_receiver_def)
  let ?caps = "if known ?h items then caps\<lparr>ca_supported := insert f (ca_supported caps)\<rparr>
    else caps\<lparr>ca_unsupported := insert f (ca_unsupported caps)\<rparr>"
  obtain c2 where c2: "probe_features L fs ?caps c1 =
      (Inr (?caps\<lparr>ca_supported := ca_supported ?caps \<union> feature_names (known ?h) fs,
                  ca_unsupported := ca_unsupported ?caps \<union> feature_names (\<lambda>is. \<not> known ?h is) fs\<rparr>), c2)" "same_receiver held wlog c1 c2"
    using Cons.IH [of ?caps c1] unfolding h by blast
  have n: "feature_names P (x # fs) = (if P items then insert f (feature_names P fs) else feature_names P fs)" for P
    by (auto simp: feature_names_def x image_iff)
  have "probe_features L (x # fs) caps c = probe_features L fs ?caps c1"
    using c1(1) by (simp add: x andthen_def)
  then show ?case using c2 same_receiver_trans [OF c1(2) c2(2)] by (auto simp: n)
qed

lemma probe_answers:
  assumes A: "obeys L held ok wlog"
  shows "\<exists>caps c'. probe L (Some p) c = (Inr caps, c') \<and> same_receiver held wlog c c' \<and>
    ca_supported caps = feature_names (known (held (cf_link c))) (pr_optional p) \<and>
    ca_unsupported caps = feature_names (\<lambda>is. \<not> known (held (cf_link c)) is) (pr_optional p)"
proof -
  obtain v s where v: "do_poll L (cf_link c) = (v, s)" "v \<noteq> VerTimeout" "v \<noteq> VerFail" "held s = held (cf_link c)" "wlog s = wlog (cf_link c)"
    using A unfolding obeys_def by metis
  let ?caps = "\<lparr>ca_version = (case v of Version i \<Rightarrow> i | _ \<Rightarrow> no_version), ca_supported = {}, ca_unsupported = {}\<rparr>"
  obtain c1 where c1: "probe_features L (pr_optional p) ?caps (c\<lparr>cf_link := s\<rparr>) =
      (Inr (?caps\<lparr>ca_supported := feature_names (known (held (cf_link c))) (pr_optional p),
                 ca_unsupported := feature_names (\<lambda>is. \<not> known (held (cf_link c)) is) (pr_optional p)\<rparr>), c1)"
    "same_receiver held wlog (c\<lparr>cf_link := s\<rparr>) c1"
    using probe_features_answers [OF A, of "pr_optional p" ?caps "c\<lparr>cf_link := s\<rparr>"] v(4) by auto
  show ?thesis
    using v c1 by (cases v) (auto simp: probe_def andthen_def same_receiver_def)
qed

definition holds_items :: "(string \<rightharpoonup> cfg_value) \<Rightarrow> cfg_item list \<Rightarrow> bool" where
  "holds_items h items \<longleftrightarrow> list_all (\<lambda>(k, v). h k = Some v) items"

lemma differing_none: "differing h items = [] \<longleftrightarrow> holds_items h items"
  by (auto simp: differing_def holds_items_def filter_empty_conv list_all_iff)

lemma holds_written: "distinct (map fst items) \<Longrightarrow> holds_items (h ++ map_of (rev items)) items"
  by (auto simp: holds_items_def list_all_iff map_add_def rev_map split: option.splits intro: map_of_is_SomeI)
    (metis distinct_rev map_of_is_SomeI option.distinct(1) rev_map set_rev, metis distinct_rev map_of_is_SomeI option.inject rev_map set_rev)

lemma map_add_elsewhere: "k \<notin> fst ` set items \<Longrightarrow> (h ++ map_of (rev items)) k = h k"
  by (simp add: map_add_def map_of_eq_None_iff split: option.split) (metis map_of_eq_None_iff option.distinct(1) set_rev)

lemma holds_elsewhere:
  "fst ` set items \<inter> fst ` set written = {} \<Longrightarrow> holds_items (h ++ map_of (rev written)) items = holds_items h items"
proof -
  assume d: "fst ` set items \<inter> fst ` set written = {}"
  have e: "(h ++ map_of (rev written)) (fst x) = h (fst x)" if "x \<in> set items" for x
    by (rule map_add_elsewhere) (use d imageI [OF that, of fst] in blast)
  have "((h ++ map_of (rev written)) (fst x) = Some (snd x)) = (h (fst x) = Some (snd x))" if "x \<in> set items" for x
    unfolding e [OF that] by (rule refl)
  then show ?thesis
    unfolding holds_items_def case_prod_unfold list_all_iff by blast
qed

lemma apply_optional_answers:
  assumes A: "obeys L held ok wlog" and d: "distinct (map fst items)"
  shows "\<exists>caps' c' its. apply_optional L caps f items l c = (Inr caps', c') \<and>
    effect held wlog c its l {x \<in> set items. \<not> holds_items (held (cf_link c)) items} c' \<and> set its \<subseteq> set items \<and>
    (if holds_items (held (cf_link c)) items \<or> list_all ok items
     then caps' = supports f caps \<and> holds_items (held (cf_link c')) items else caps' = demotes f caps)"
proof -
  let ?h = "held (cf_link c)"
  obtain c1 where c1: "readback L (map fst items) c = (Inr (?h |` set (map fst items), {}), c1)" "same_receiver held wlog c c1"
    using readback_answers [OF A] by blast
  have run: "apply_optional L caps f items l c =
      (if holds_items ?h items then ret (supports f caps)
       else andthen (valset_optional L items l) (\<lambda>b. ret (if b = Some False then demotes f caps else supports f caps))) c1"
    unfolding apply_optional_def andthen_run [of "readback L (map fst items)" c, OF c1(1)]
    by (simp only: fst_conv differing_restrict differing_none)
  show ?thesis
  proof (cases "holds_items ?h items")
    case True
    have "held (cf_link c1) = ?h" using c1(2) by (simp add: same_receiver_def)
    then show ?thesis
      using run True same_receiver_effect [OF c1(2), of l "{x \<in> set items. \<not> holds_items ?h items}"]
      by (intro exI [of _ "supports f caps"] exI [of _ c1] exI [of _ "[]"]) (simp add: ret_def)
  next
    case False
    then have ne: "items \<noteq> []" by (auto simp: holds_items_def)
    obtain c2 where c2: "valset_act L l items c1 = (Inr (list_all ok items), c2)"
      "effect held wlog c1 (if list_all ok items then items else []) l (set items) c2"
      using valset_answers [OF A ne] by blast
    have r: "apply_optional L caps f items l c = (Inr (if list_all ok items then supports f caps else demotes f caps), c2)"
      using run False c2(1) by (simp add: valset_optional_def andthen_def ret_def)
    have e: "effect held wlog c (if list_all ok items then items else []) l (set items) c2"
      using effect_trans [OF same_receiver_effect [OF c1(2), of l "{}"] c2(2)] by simp
    have "held (cf_link c2) = ?h ++ map_of (rev items)" if "list_all ok items"
      using e that by (simp add: effect_def)
    then show ?thesis using r e False holds_written [OF d, of ?h]
      by (intro exI [of _ "if list_all ok items then supports f caps else demotes f caps"] exI [of _ c2]
          exI [of _ "if list_all ok items then items else []"]) auto
  qed
qed

text \<open>The items of the features that are written: those that differ, of a feature not known to be missing.\<close>

definition written_features :: "(string \<rightharpoonup> cfg_value) \<Rightarrow> string set \<Rightarrow> (string \<times> cfg_item list) list \<Rightarrow> cfg_item set" where
  "written_features h missing fs = {x. \<exists>f is. (f, is) \<in> set fs \<and> x \<in> set is \<and> f \<notin> missing \<and> \<not> holds_items h is}"

definition items_of :: "(string \<times> cfg_item list) list \<Rightarrow> cfg_item list" where
  "items_of fs = concat (map snd fs)"

lemma items_of_Cons [simp]: "items_of (x # fs) = snd x @ items_of fs"
  by (simp add: items_of_def)

lemma in_items_of: "(f, is) \<in> set fs \<Longrightarrow> set is \<subseteq> set (items_of fs)"
  by (force simp: items_of_def)

lemma holds_after:
  assumes "effect held wlog c its l T c'" "set its \<subseteq> set written" "fst ` set items \<inter> fst ` set written = {}"
  shows "holds_items (held (cf_link c')) items = holds_items (held (cf_link c)) items"
proof -
  have "held (cf_link c') = held (cf_link c) ++ map_of (rev its)" using assms(1) by (simp add: effect_def)
  moreover have "fst ` set items \<inter> fst ` set its = {}" using assms(2,3) by blast
  ultimately show ?thesis using holds_elsewhere by simp
qed

lemma written_features_after:
  assumes "effect held wlog c its l T c'" "set its \<subseteq> set written" "fst ` set (items_of fs) \<inter> fst ` set written = {}"
  shows "written_features (held (cf_link c')) missing fs = written_features (held (cf_link c)) missing fs"
proof -
  have "holds_items (held (cf_link c')) is = holds_items (held (cf_link c)) is" if "(f, is) \<in> set fs" for f "is"
    by (rule holds_after [OF assms(1,2)]) (use in_items_of [OF that] assms(3) in blast)
  then show ?thesis unfolding written_features_def by blast
qed

text \<open>What becomes of a feature that is not known to be missing: it is supported unless it differs and is refused.\<close>

definition takes :: "(cfg_item \<Rightarrow> bool) \<Rightarrow> (string \<rightharpoonup> cfg_value) \<Rightarrow> cfg_item list \<Rightarrow> bool" where
  "takes ok h items \<longleftrightarrow> holds_items h items \<or> list_all ok items"

definition settled :: "(cfg_item \<Rightarrow> bool) \<Rightarrow> (string \<rightharpoonup> cfg_value) \<Rightarrow> caps \<Rightarrow> caps \<Rightarrow> string \<Rightarrow> cfg_item list \<Rightarrow> bool" where
  "settled ok h caps caps' f items \<longleftrightarrow>
     (f \<in> ca_unsupported caps' \<longleftrightarrow> f \<in> ca_unsupported caps \<or> \<not> takes ok h items) \<and>
     (f \<in> ca_supported caps' \<longleftrightarrow> (if f \<in> ca_unsupported caps then f \<in> ca_supported caps else takes ok h items))"

lemma apply_optionals_answers:
  assumes A: "obeys L held ok wlog"
  shows "distinct (map fst fs) \<Longrightarrow> distinct (map fst (items_of fs)) \<Longrightarrow>
    \<exists>caps' c' its. apply_optionals L l fs caps c = (Inr caps', c') \<and>
      effect held wlog c its l (written_features (held (cf_link c)) (ca_unsupported caps) fs) c' \<and> set its \<subseteq> set (items_of fs) \<and>
      (\<forall>f. f \<notin> fst ` set fs \<longrightarrow>
         (f \<in> ca_supported caps') = (f \<in> ca_supported caps) \<and> (f \<in> ca_unsupported caps') = (f \<in> ca_unsupported caps)) \<and>
      (\<forall>f is. (f, is) \<in> set fs \<longrightarrow> settled ok (held (cf_link c)) caps caps' f is \<and>
         (f \<in> ca_unsupported caps' \<or> holds_items (held (cf_link c')) is))"
proof (induction fs arbitrary: caps c)
  case Nil
  then show ?case
    by (intro exI [of _ caps] exI [of _ c] exI [of _ "[]"]) (simp add: ret_def)
next
  case (Cons x fs)
  obtain f items where x: "x = (f, items)" by (cases x)
  let ?h = "held (cf_link c)"
  have d: "distinct (map fst items)" "distinct (map fst fs)" "distinct (map fst (items_of fs))" "f \<notin> fst ` set fs"
    and sep: "fst ` set items \<inter> fst ` set (items_of fs) = {}"
    using Cons.prems by (simp_all add: x)
  show ?case
  proof (cases "f \<in> ca_unsupported caps")
    case True
    obtain caps' c' its where s: "apply_optionals L l fs caps c = (Inr caps', c')"
      "effect held wlog c its l (written_features ?h (ca_unsupported caps) fs) c'" "set its \<subseteq> set (items_of fs)"
      "\<forall>f. f \<notin> fst ` set fs \<longrightarrow>
         (f \<in> ca_supported caps') = (f \<in> ca_supported caps) \<and> (f \<in> ca_unsupported caps') = (f \<in> ca_unsupported caps)"
      "\<forall>f is. (f, is) \<in> set fs \<longrightarrow> settled ok ?h caps caps' f is \<and> (f \<in> ca_unsupported caps' \<or> holds_items (held (cf_link c')) is)"
      using Cons.IH [OF d(2,3), of caps c] by blast
    have w: "written_features ?h (ca_unsupported caps) (x # fs) = written_features ?h (ca_unsupported caps) fs"
      using True by (auto simp: written_features_def x)
    have "settled ok ?h caps caps' f items" using s(4) d(4) True by (simp add: settled_def)
    then show ?thesis
      using s w True d(4) by (intro exI [of _ caps'] exI [of _ c'] exI [of _ its]) (auto simp: x)
  next
    case False
    obtain caps1 c1 its1 where o: "apply_optional L caps f items l c = (Inr caps1, c1)"
      "effect held wlog c its1 l {x \<in> set items. \<not> holds_items ?h items} c1" "set its1 \<subseteq> set items"
      "if holds_items ?h items \<or> list_all ok items
       then caps1 = supports f caps \<and> holds_items (held (cf_link c1)) items else caps1 = demotes f caps"
      using apply_optional_answers [OF A d(1)] by blast
    obtain caps' c' its where s: "apply_optionals L l fs caps1 c1 = (Inr caps', c')"
      "effect held wlog c1 its l (written_features (held (cf_link c1)) (ca_unsupported caps1) fs) c'" "set its \<subseteq> set (items_of fs)"
      "\<forall>f. f \<notin> fst ` set fs \<longrightarrow>
         (f \<in> ca_supported caps') = (f \<in> ca_supported caps1) \<and> (f \<in> ca_unsupported caps') = (f \<in> ca_unsupported caps1)"
      "\<forall>f is. (f, is) \<in> set fs \<longrightarrow> settled ok (held (cf_link c1)) caps1 caps' f is \<and>
         (f \<in> ca_unsupported caps' \<or> holds_items (held (cf_link c')) is)"
      using Cons.IH [OF d(2,3), of caps1 c1] by blast
    have caps1: "ca_unsupported caps1 - {f} = ca_unsupported caps - {f}" "ca_supported caps1 - {f} = ca_supported caps - {f}"
      using o(4) by (auto simp: supports_def demotes_def split: if_splits)
    have "written_features (held (cf_link c1)) (ca_unsupported caps1) fs = written_features ?h (ca_unsupported caps1) fs"
      by (rule written_features_after [OF o(2,3)]) (use sep in blast)
    also have "\<dots> = written_features ?h (ca_unsupported caps) fs"
      using caps1(1) d(4) unfolding written_features_def by force
    finally have w: "{x \<in> set items. \<not> holds_items ?h items} \<union> written_features (held (cf_link c1)) (ca_unsupported caps1) fs =
        written_features ?h (ca_unsupported caps) (x # fs)"
      using False by (auto simp: written_features_def x)
    have mine: "f \<in> ca_unsupported caps' \<or> holds_items (held (cf_link c')) items"
    proof (cases "holds_items ?h items \<or> list_all ok items")
      case True
      then show ?thesis using o(4) holds_after [OF s(2,3), of items] sep by auto
    next
      case False
      then show ?thesis using o(4) s(4) d(4) by (auto simp: demotes_def)
    qed
    have "settled ok ?h caps caps' f items"
      using o(4) s(4) d(4) False by (simp add: settled_def takes_def supports_def demotes_def split: if_splits)
    note mine = this mine
    have theirs: "settled ok ?h caps caps' g is" if g: "(g, is) \<in> set fs" for g "is"
    proof -
      have "g \<noteq> f" using d(4) g by force
      then have c: "(g \<in> ca_supported caps1) = (g \<in> ca_supported caps)" "(g \<in> ca_unsupported caps1) = (g \<in> ca_unsupported caps)"
        using caps1 by blast+
      have "holds_items (held (cf_link c1)) is = holds_items ?h is"
        by (rule holds_after [OF o(2,3)]) (use in_items_of [OF g] sep in blast)
      moreover have "settled ok (held (cf_link c1)) caps1 caps' g is" using s(5) g by blast
      ultimately show ?thesis using c by (simp add: settled_def takes_def)
    qed
    have others: "(g \<in> ca_supported caps') = (g \<in> ca_supported caps) \<and> (g \<in> ca_unsupported caps') = (g \<in> ca_unsupported caps)"
      if "g \<notin> fst ` set (x # fs)" for g
      using that s(4) caps1 by (auto simp: x)
    have "apply_optionals L l (x # fs) caps c = (Inr caps', c')" using False o(1) s(1) by (simp add: x andthen_def)
    moreover have "effect held wlog c (its1 @ its) l (written_features ?h (ca_unsupported caps) (x # fs)) c'"
      using effect_trans [OF o(2) s(2)] unfolding w .
    moreover have "set (its1 @ its) \<subseteq> set (items_of (x # fs))" using o(3) s(3) by (auto simp: x)
    moreover have "settled ok ?h caps caps' g is \<and> (g \<in> ca_unsupported caps' \<or> holds_items (held (cf_link c')) is)"
      if "(g, is) \<in> set (x # fs)" for g "is"
      using that s(5) mine theirs by (auto simp: x)
    ultimately show ?thesis using others by blast
  qed
qed

lemma wanted_items: "set (wanted p skip) \<subseteq> {x \<in> set (pr_core p @ pr_signals p). fst x \<notin> set skip}"
proof
  fix x assume x: "x \<in> set (wanted p skip)"
  let ?items = "filter (\<lambda>(k, v). k \<notin> set skip) (pr_core p @ pr_signals p)"
  obtain k where k: "k \<in> fst ` set ?items" "x = (k, the (map_of (rev ?items) k))"
    using x by (auto simp: wanted_def Let_def)
  have "map_of (rev ?items) k \<noteq> None" using k(1) by (simp only: map_of_eq_None_iff set_rev not_not)
  then have "map_of (rev ?items) k = Some (the (map_of (rev ?items) k))" by simp
  then have "x \<in> set (rev ?items)" unfolding k(2) by (rule map_of_SomeD)
  then show "x \<in> {x \<in> set (pr_core p @ pr_signals p). fst x \<notin> set skip}" by auto
qed

lemma verify_answers:
  assumes A: "obeys L held ok wlog" and h: "holds_items (held (cf_link c)) (wanted p skip)"
  shows "\<exists>c'. verify_or_raise L once p skip c = (Inr (), c') \<and> same_receiver held wlog c c'"
proof -
  let ?ks = "map fst (wanted p skip)"
  obtain c1 where c1: "readback L ?ks c = (Inr (held (cf_link c) |` set ?ks, {}), c1)" "same_receiver held wlog c c1"
    using readback_answers [OF A] by blast
  have "differing (held (cf_link c) |` set ?ks) (wanted p skip) = []"
    using h unfolding differing_restrict differing_none .
  then have "verify_attempts L once p skip (Suc n) c = (Inr (), c1)" for n
    using c1(1) by (simp add: verify_profile_def andthen_def ret_def del: map_map)
  moreover have "\<exists>n. (if once then 1 else VERIFY_ATTEMPTS) = Suc n" by (simp add: VERIFY_ATTEMPTS_def)
  ultimately show ?thesis using c1(2) unfolding verify_or_raise_def by metis
qed

lemma all_keys_eq: "all_keys p = map fst (pr_core p @ pr_signals p @ items_of (pr_optional p))"
  by (simp add: all_keys_def items_of_def map_concat comp_def case_prod_unfold)

lemma core_after:
  assumes d: "distinct (map fst core)"
  shows "holds_items (h ++ map_of (rev (filter ok (differing h core)))) (filter (\<lambda>x. fst x \<notin> set (refused ok (differing h core))) core)"
proof -
  let ?w = "filter ok (differing h core)"
  have dw: "distinct (map fst ?w)" using d by (simp add: differing_def distinct_map_filter)
  have "(h ++ map_of (rev ?w)) k = Some v" if kv: "(k, v) \<in> set core" "k \<notin> set (refused ok (differing h core))" for k v
  proof (cases "h k = Some v")
    case True
    have nin: "k \<notin> fst ` set ?w"
    proof
      assume "k \<in> fst ` set ?w"
      then obtain u where u: "(k, u) \<in> set core" "h k \<noteq> Some u" by (auto simp: differing_def)
      then have "u = v" using kv(1) d eq_key_imp_eq_value by metis
      then show False using u(2) True by simp
    qed
    show ?thesis using map_add_elsewhere [OF nin, of h] True by (rule trans)
  next
    case False
    then have "(k, v) \<in> set (differing h core)" using kv(1) by (simp add: differing_def)
    moreover have "ok (k, v)" using kv(2) calculation by (force simp: refused_def)
    ultimately have "(k, v) \<in> set ?w" by simp
    then show ?thesis using holds_written [OF dw, of h] unfolding holds_items_def list_all_iff by fastforce
  qed
  then show ?thesis unfolding holds_items_def list_all_iff by auto
qed

lemma holds_append [simp]: "holds_items h (xs @ ys) \<longleftrightarrow> holds_items h xs \<and> holds_items h ys"
  by (simp add: holds_items_def)

definition layers_of :: "bool \<Rightarrow> nat" where "layers_of first = (if first then LAYERS_ALL else LAYERS_RAM)"

text \<open>The items a configuration may write: those that differ, the signals and the features as wholes.\<close>

definition to_write :: "(string \<rightharpoonup> cfg_value) \<Rightarrow> profile \<Rightarrow> cfg_item set" where
  "to_write h p =
     set (differing h (pr_core p)) \<union> (if holds_items h (pr_signals p) then {} else set (pr_signals p)) \<union>
     written_features h (feature_names (\<lambda>is. \<not> known h is) (pr_optional p)) (pr_optional p)"

lemma feature_names_iff: "distinct (map fst fs) \<Longrightarrow> (f, is) \<in> set fs \<Longrightarrow> f \<in> feature_names P fs \<longleftrightarrow> P is"
  by (force simp: feature_names_def dest: eq_key_imp_eq_value)

text \<open>What is reported of the features, and that those reported as supported are in place.\<close>

definition features_reported :: "(cfg_item \<Rightarrow> bool) \<Rightarrow> (string \<rightharpoonup> cfg_value) \<Rightarrow> (string \<rightharpoonup> cfg_value) \<Rightarrow> profile \<Rightarrow> caps \<Rightarrow> bool" where
  "features_reported ok h h' p caps \<longleftrightarrow>
     (\<forall>f is. (f, is) \<in> set (pr_optional p) \<longrightarrow>
        (f \<in> ca_supported caps \<longleftrightarrow> known h is \<and> (holds_items h is \<or> list_all ok is)) \<and>
        (f \<in> ca_unsupported caps \<longleftrightarrow> f \<notin> ca_supported caps) \<and>
        (f \<in> ca_supported caps \<longrightarrow> holds_items h' is))"

lemma configure_answers:
  assumes A: "obeys L held ok wlog" and d: "distinct (all_keys p)" "distinct (map fst (pr_optional p))"
    and h: "h = held (cf_link c)" and rej: "rej = refused ok (differing h (pr_core p))"
  shows "\<exists>r c' its. configure L strict once (Some p) first c = (r, c') \<and> effect held wlog c its (layers_of first) (to_write h p) c' \<and>
    (if strict \<and> rej \<noteq> [] then r = Inl (ProfileErr (CoreRejected rej))
     else if \<not> holds_items h (pr_signals p) \<and> \<not> list_all ok (pr_signals p) then r = Inl (ProfileErr SignalsRejected)
     else \<exists>caps. r = Inr caps \<and> holds_items (held (cf_link c')) (filter (\<lambda>x. fst x \<notin> set rej) (pr_core p @ pr_signals p)) \<and>
       features_reported ok h (held (cf_link c')) p caps)"
proof -
  let ?l = "layers_of first" and ?core = "pr_core p" and ?sig = "pr_signals p" and ?opt = "pr_optional p"
  let ?D = "differing h ?core" and ?miss = "feature_names (\<lambda>is. \<not> known h is) ?opt"
  have keys: "distinct (map fst ?core)" "distinct (map fst ?sig)" "distinct (map fst (items_of ?opt))"
    "fst ` set ?sig \<inter> fst ` set ?core = {}" "fst ` set ?core \<inter> fst ` set (items_of ?opt) = {}"
    "fst ` set ?sig \<inter> fst ` set (items_of ?opt) = {}"
    using d(1) unfolding all_keys_eq by auto
  have D: "set (filter ok ?D) \<subseteq> set ?core" "set ?D \<subseteq> set ?core" by (auto simp: differing_def)
  obtain caps c1 where c1: "probe L (Some p) c = (Inr caps, c1)" "same_receiver held wlog c c1" "ca_unsupported caps = ?miss"
    "ca_supported caps = feature_names (known h) ?opt"
    using probe_answers [OF A] h by metis
  have h1: "held (cf_link c1) = h" using c1(2) h by (simp add: same_receiver_def)
  obtain c2 where c2: "apply_core L ?core ?l c1 = (Inr rej, c2)" "effect held wlog c1 (filter ok ?D) ?l (set ?D) c2"
    using apply_core_answers [OF A, of ?core ?l c1] unfolding h1 rej by blast
  have e2: "effect held wlog c (filter ok ?D) ?l (set ?D) c2"
    using effect_trans [OF same_receiver_effect [OF c1(2), of ?l "{}"] c2(2)] by simp
  have start: "configure L strict once (Some p) first c = (if rej \<noteq> [] \<and> strict then fails (ProfileErr (CoreRejected rej))
      else andthen (readback L (map fst ?sig))
        (\<lambda>r. andthen
           (if differing (fst r) ?sig \<noteq> []
            then andthen (valset_act L ?l ?sig) (\<lambda>b. if b then ret () else fails (ProfileErr SignalsRejected)) else ret ())
           (\<lambda>_. andthen (apply_optionals L ?l ?opt caps)
              (\<lambda>caps'. andthen (verify_or_raise L once p rej) (\<lambda>_. ret caps'))))) c2"
    unfolding configure_def option.case Let_def layers_of_def [symmetric] andthen_apply c1(1) c2(1) prod.case sum.case ..
  have sub: "set ?D \<subseteq> to_write h p" by (auto simp: to_write_def)
  show ?thesis
  proof (cases "strict \<and> rej \<noteq> []")
    case True
    then show ?thesis using start effect_mono [OF e2 sub] by (auto simp: fails_def)
  next
    case goes_on: False
    obtain c3 where c3: "readback L (map fst ?sig) c2 = (Inr (held (cf_link c2) |` set (map fst ?sig), {}), c3)" "same_receiver held wlog c2 c3"
      using readback_answers [OF A] by blast
    have e3: "effect held wlog c (filter ok ?D) ?l (set ?D) c3"
      using effect_trans [OF e2 same_receiver_effect [OF c3(2), of ?l "{}"]] by simp
    have sig2: "holds_items (held (cf_link c2)) ?sig = holds_items h ?sig"
      using holds_after [OF e2 D(1)] keys(4) h by simp
    have next_run: "configure L strict once (Some p) first c =
        andthen
           (if \<not> holds_items h ?sig
            then andthen (valset_act L ?l ?sig) (\<lambda>b. if b then ret () else fails (ProfileErr SignalsRejected)) else ret ())
           (\<lambda>_. andthen (apply_optionals L ?l ?opt caps)
              (\<lambda>caps'. andthen (verify_or_raise L once p rej) (\<lambda>_. ret caps'))) c3"
    proof -
      have "configure L strict once (Some p) first c = andthen (readback L (map fst ?sig))
        (\<lambda>r. andthen
           (if differing (fst r) ?sig \<noteq> []
            then andthen (valset_act L ?l ?sig) (\<lambda>b. if b then ret () else fails (ProfileErr SignalsRejected)) else ret ())
           (\<lambda>_. andthen (apply_optionals L ?l ?opt caps)
              (\<lambda>caps'. andthen (verify_or_raise L once p rej) (\<lambda>_. ret caps')))) c2"
        using start goes_on by auto
      then show ?thesis
        unfolding andthen_run [of "readback L (map fst ?sig)" c2, OF c3(1)] fst_conv differing_restrict
        unfolding differing_none sig2 .
    qed
    let ?S = "if holds_items h ?sig then [] else ?sig"
    let ?m = "if \<not> holds_items h ?sig
            then andthen (valset_act L ?l ?sig) (\<lambda>b. if b then ret () else fails (ProfileErr SignalsRejected)) else ret ()"
    show ?thesis
    proof (cases "\<not> holds_items h ?sig \<and> \<not> list_all ok ?sig")
      case True
      then have ne: "?sig \<noteq> []" by (auto simp: holds_items_def)
      obtain c4 where c4: "valset_act L ?l ?sig c3 = (Inr False, c4)" "effect held wlog c3 [] ?l (set ?sig) c4"
        using valset_answers [OF A ne, of ?l c3] True by auto
      have "effect held wlog c (filter ok ?D @ []) ?l (set ?D \<union> set ?sig) c4" by (rule effect_trans [OF e3 c4(2)])
      then have "effect held wlog c (filter ok ?D) ?l (to_write h p) c4"
        using True by (auto simp: to_write_def intro: effect_mono)
      then show ?thesis using next_run c4(1) True goes_on by (auto simp: andthen_def fails_def)
    next
      case taken: False
      have "\<exists>c4. (if \<not> holds_items h ?sig
            then andthen (valset_act L ?l ?sig) (\<lambda>b. if b then ret () else fails (ProfileErr SignalsRejected)) else ret ()) c3 = (Inr (), c4) \<and>
          effect held wlog c3 ?S ?l (set ?S) c4"
      proof (cases "holds_items h ?sig")
        case False
        then have ne: "?sig \<noteq> []" by (auto simp: holds_items_def)
        show ?thesis using valset_answers [OF A ne, of ?l c3] taken False by (auto simp: andthen_def ret_def)
      qed (simp add: ret_def)
      then obtain c4 where c4: "(if \<not> holds_items h ?sig
            then andthen (valset_act L ?l ?sig) (\<lambda>b. if b then ret () else fails (ProfileErr SignalsRejected)) else ret ()) c3 = (Inr (), c4)"
        "effect held wlog c3 ?S ?l (set ?S) c4" by blast
      have e4: "effect held wlog c (filter ok ?D @ ?S) ?l (set ?D \<union> set ?S) c4" by (rule effect_trans [OF e3 c4(2)])
      obtain caps' c5 its where c5: "apply_optionals L ?l ?opt caps c4 = (Inr caps', c5)"
        "effect held wlog c4 its ?l (written_features (held (cf_link c4)) ?miss ?opt) c5" "set its \<subseteq> set (items_of ?opt)"
        "\<forall>f is. (f, is) \<in> set ?opt \<longrightarrow> settled ok (held (cf_link c4)) caps caps' f is \<and>
           (f \<in> ca_unsupported caps' \<or> holds_items (held (cf_link c5)) is)"
        using apply_optionals_answers [OF A d(2) keys(3), of ?l caps c4] unfolding c1(3) by blast
      have feat: "features_reported ok h (held (cf_link c5)) p caps'"
        unfolding features_reported_def
      proof (intro allI impI)
        fix f "is" assume f: "(f, is) \<in> set ?opt"
        have "fst ` set is \<subseteq> fst ` set (items_of ?opt)" using in_items_of [OF f] by (rule image_mono)
        then have "fst ` set is \<inter> fst ` set (?core @ ?sig) = {}" using keys(5,6) unfolding set_append image_Un by blast
        then have "holds_items (held (cf_link c4)) is = holds_items (held (cf_link c)) is"
          by (intro holds_after [OF e4, where written = "?core @ ?sig"]) (use D in auto)
        then have "settled ok h caps caps' f is" using c5(4) f h by (auto simp: settled_def takes_def)
        moreover have "f \<in> ca_unsupported caps \<longleftrightarrow> \<not> known h is" "f \<in> ca_supported caps \<longleftrightarrow> known h is"
          unfolding c1(3,4) by (simp_all add: feature_names_iff [OF d(2) f])
        ultimately show "(f \<in> ca_supported caps' \<longleftrightarrow> known h is \<and> (holds_items h is \<or> list_all ok is)) \<and>
            (f \<in> ca_unsupported caps' \<longleftrightarrow> f \<notin> ca_supported caps') \<and>
            (f \<in> ca_supported caps' \<longrightarrow> holds_items (held (cf_link c5)) is)"
          using c5(4) f by (auto simp: settled_def takes_def)
      qed
      have "written_features (held (cf_link c4)) ?miss ?opt = written_features (held (cf_link c)) ?miss ?opt"
        by (rule written_features_after [OF e4, where written = "?core @ ?sig"]) (use D keys(5,6) in auto)
      then have T: "set ?D \<union> set ?S \<union> written_features (held (cf_link c4)) ?miss ?opt = to_write h p"
        using h by (simp add: to_write_def)
      have e5: "effect held wlog c ((filter ok ?D @ ?S) @ its) ?l (to_write h p) c5"
        using effect_trans [OF e4 c5(2)] unfolding T .
      have "holds_items (held (cf_link c3)) (filter (\<lambda>x. fst x \<notin> set rej) ?core)"
        using e3 core_after [OF keys(1), of h ok] unfolding rej effect_def h by simp
      then have "holds_items (held (cf_link c4)) (filter (\<lambda>x. fst x \<notin> set rej) ?core)"
        by (subst holds_after [OF c4(2) order.refl]) (use keys(4) in \<open>auto split: if_splits\<close>)
      then have core5: "holds_items (held (cf_link c5)) (filter (\<lambda>x. fst x \<notin> set rej) ?core)"
        using holds_after [OF c5(2,3), of "filter (\<lambda>x. fst x \<notin> set rej) ?core"] keys(5) by auto
      have "holds_items (held (cf_link c4)) ?sig"
      proof (cases "holds_items h ?sig")
        case True
        then have "held (cf_link c4) = held (cf_link c2)" using c4(2) c3(2) by (simp add: effect_def same_receiver_def)
        then show ?thesis using True sig2 by simp
      next
        case False
        then show ?thesis using c4(2) holds_written [OF keys(2)] by (simp add: effect_def)
      qed
      then have sig5: "holds_items (held (cf_link c5)) ?sig"
        using holds_after [OF c5(2,3), of ?sig] keys(6) by simp
      have all5: "holds_items (held (cf_link c5)) (filter (\<lambda>x. fst x \<notin> set rej) (?core @ ?sig))"
        using core5 sig5 by (auto simp: holds_items_def list_all_iff)
      then have "holds_items (held (cf_link c5)) (wanted p rej)"
        using wanted_items [of p rej] unfolding holds_items_def list_all_iff by auto
      from verify_answers [OF A this, of once]
      obtain c6 where c6: "verify_or_raise L once p rej c5 = (Inr (), c6)" "same_receiver held wlog c5 c6" by blast
      have h6: "held (cf_link c6) = held (cf_link c5)" using c6(2) by (simp add: same_receiver_def)
      have e6: "effect held wlog c ((filter ok ?D @ ?S) @ its) ?l (to_write h p) c6"
        using effect_trans [OF e5 same_receiver_effect [OF c6(2), of ?l "{}"]] by simp
      have "configure L strict once (Some p) first c = (Inr caps', c6)"
        unfolding next_run andthen_run [of ?m c3, OF c4(1)] andthen_run [of "apply_optionals L ?l ?opt caps" c4, OF c5(1)]
          andthen_run [of "verify_or_raise L once p rej" c5, OF c6(1)] by (simp add: ret_def)
      then show ?thesis using e6 all5 feat goes_on taken unfolding h6 [symmetric] by auto
    qed
  qed
qed

section \<open>Any link\<close>

lemma andthen_Inr: "andthen m f c = (Inr b, c') \<Longrightarrow> \<exists>a c1. m c = (Inr a, c1) \<and> f a c1 = (Inr b, c')"
  by (auto simp: andthen_def split: prod.splits sum.splits)

text \<open>A key is given up only after a write of it alone has been refused.\<close>

definition nakked :: "'s rlink \<Rightarrow> nat \<Rightarrow> cfg_item list \<Rightarrow> bool" where
  "nakked L l items \<longleftrightarrow> (\<exists>s s'. do_set L items l s = (SetNak, s'))"

definition given_up :: "'s rlink \<Rightarrow> nat \<Rightarrow> cfg_item list \<Rightarrow> string list \<Rightarrow> bool" where
  "given_up L l items ks \<longleftrightarrow> (\<forall>k \<in> set ks. \<exists>v. (k, v) \<in> set items \<and> nakked L l [(k, v)])"

lemma given_up_Nil [simp]: "given_up L l items []"
  by (simp add: given_up_def)

lemma given_up_append:
  "given_up L l items ks \<Longrightarrow> given_up L l items' ks' \<Longrightarrow> set items \<subseteq> set all \<Longrightarrow> set items' \<subseteq> set all \<Longrightarrow> given_up L l all (ks @ ks')"
  unfolding given_up_def by (simp add: ball_Un) blast

lemma or_search_given_up:
  assumes "or_search L l f items c = (Inr ks, c')"
    and "\<And>c ks c'. nakked L l items \<Longrightarrow> f items c = (Inr ks, c') \<Longrightarrow> given_up L l items ks"
  shows "given_up L l items ks"
proof -
  obtain b c1 where b: "valset_act L l items c = (Inr b, c1)" "(if b then ret [] else f items) c1 = (Inr ks, c')"
    using andthen_Inr [OF assms(1) [unfolded or_search_def]] by blast
  show ?thesis
  proof (cases b)
    case True
    then show ?thesis using b(2) by (simp add: ret_def)
  next
    case False
    then have "nakked L l items"
      using b(1) by (auto simp: valset_act_def ask_set_def nakked_def split: prod.splits set_reply.splits)
    then show ?thesis using assms(2) b(2) False by simp
  qed
qed

lemma bisect_given_up: "nakked L l items \<Longrightarrow> bisect L l items c = (Inr ks, c') \<Longrightarrow> given_up L l items ks"
proof (induction items arbitrary: c ks c' rule: measure_induct_rule [of length])
  case (less items c ks c')
  show ?case
  proof (cases "length items \<le> 1")
    case True
    then have "items = [] \<or> (\<exists>x. items = [x])" by (cases items) auto
    moreover have "ks = map fst items" using less.prems(2) True by (simp add: bisect.simps)
    ultimately show ?thesis using less.prems(1) by (auto simp: given_up_def)
  next
    case False
    let ?m = "length items div 2"
    have l: "length (take ?m items) < length items" "length (drop ?m items) < length items" using False by auto
    have "andthen (or_search L l (bisect L l) (take ?m items))
        (\<lambda>r1. andthen (or_search L l (bisect L l) (drop ?m items)) (\<lambda>r2. ret (r1 @ r2))) c = (Inr ks, c')"
      using less.prems(2) False by (subst (asm) bisect.simps) (simp add: Let_def)
    then obtain r1 r2 c1 c2 where r: "or_search L l (bisect L l) (take ?m items) c = (Inr r1, c1)"
      "or_search L l (bisect L l) (drop ?m items) c1 = (Inr r2, c2)" "ks = r1 @ r2"
      by (auto dest!: andthen_Inr simp: ret_def)
    have "given_up L l (take ?m items) r1" by (rule or_search_given_up [OF r(1)]) (rule less.IH [OF l(1)])
    moreover have "given_up L l (drop ?m items) r2" by (rule or_search_given_up [OF r(2)]) (rule less.IH [OF l(2)])
    ultimately show ?thesis unfolding r(3) using set_take_subset set_drop_subset by (rule given_up_append)
  qed
qed

lemma apply_chunks_given_up: "apply_chunks L l xss c = (Inr ks, c') \<Longrightarrow> given_up L l (concat xss) ks"
proof (induction xss arbitrary: c ks c')
  case Nil
  then show ?case by (simp add: ret_def)
next
  case (Cons xs xss)
  obtain r1 r2 c1 c2 where r: "or_search L l (bisect L l) xs c = (Inr r1, c1)" "apply_chunks L l xss c1 = (Inr r2, c2)" "ks = r1 @ r2"
    using Cons.prems by (auto dest!: andthen_Inr simp: ret_def)
  have "given_up L l xs r1" by (rule or_search_given_up [OF r(1) bisect_given_up])
  then show ?case unfolding r(3) using Cons.IH [OF r(2)] by (rule given_up_append) auto
qed

lemma apply_core_given_up:
  assumes "apply_core L core l c = (Inr ks, c')"
  shows "\<exists>r c1. readback L (map fst core) c = (Inr r, c1) \<and> given_up L l (differing (fst r) core) ks"
proof -
  obtain r c1 where r: "readback L (map fst core) c = (Inr r, c1)"
    "(if differing (fst r) core = [] then ret [] else apply_with_bisect L (differing (fst r) core) l) c1 = (Inr ks, c')"
    using andthen_Inr [OF assms [unfolded apply_core_def Let_def]] by blast
  have "given_up L l (differing (fst r) core) ks"
  proof (cases "differing (fst r) core = []")
    case True
    then show ?thesis using r(2) by (simp add: ret_def)
  next
    case False
    then have "apply_chunks L l (chunked MAX_KEYS_PER_VALSET (differing (fst r) core)) c1 = (Inr ks, c')"
      using r(2) by (simp add: apply_with_bisect_def)
    from apply_chunks_given_up [OF this] show ?thesis by simp
  qed
  then show ?thesis using r(1) by blast
qed

lemma verify_attempts_holds:
  "verify_attempts L once p skip n c = (Inr (), c') \<Longrightarrow>
   \<exists>r c1. readback L (map fst (wanted p skip)) c1 = (Inr r, c') \<and> holds_items (fst r) (wanted p skip)"
proof (induction n arbitrary: c)
  case 0
  then show ?case by (simp add: fails_def split: if_splits)
next
  case (Suc n)
  obtain a c1 where v: "verify_profile L p skip c = (Inr a, c1)"
    and rest: "(case a of (bad, got, unheard) \<Rightarrow>
          if bad = [] then ret ()
          else if (\<exists>(k, v)\<in>set bad. k \<notin> unheard) \<and> length (filter (\<lambda>(k, v). got k = None) bad) \<noteq> length (wanted p skip)
          then fails (ProfileErr VerifyFailed)
          else
            andthen (\<lambda>c. (Inr (), if n > 0 then c\<lparr>cf_slept := cf_slept c @ [VERIFY_RETRY_PAUSE_S]\<rparr> else c))
              (\<lambda>_. verify_attempts L once p skip n)) c1 = (Inr (), c')"
    using andthen_Inr [OF Suc.prems [unfolded verify_attempts.simps]] by blast
  obtain r c2 where r: "readback L (map fst (wanted p skip)) c = (Inr r, c2)" "ret (differing (fst r) (wanted p skip), r) c2 = (Inr a, c1)"
    using andthen_Inr [OF v [unfolded verify_profile_def]] by blast
  then have a: "a = (differing (fst r) (wanted p skip), r)" "c2 = c1" by (simp_all add: ret_def)
  show ?case
  proof (cases "differing (fst r) (wanted p skip) = []")
    case True
    then have "c1 = c'" using rest a by (cases r) (simp add: ret_def)
    then show ?thesis using r(1) a(2) True unfolding differing_none by blast
  next
    case False
    then have "\<exists>c3. verify_attempts L once p skip n c3 = (Inr (), c')"
      using rest a by (cases r) (auto simp: fails_def andthen_def split: if_splits)
    then show ?thesis using Suc.IH by blast
  qed
qed

lemma wanted_complete:
  assumes "distinct (map fst (pr_core p @ pr_signals p))"
  shows "{x \<in> set (pr_core p @ pr_signals p). fst x \<notin> set skip} \<subseteq> set (wanted p skip)"
proof
  fix x assume x: "x \<in> {x \<in> set (pr_core p @ pr_signals p). fst x \<notin> set skip}"
  let ?items = "filter (\<lambda>(k, v). k \<notin> set skip) (pr_core p @ pr_signals p)"
  have "distinct (map fst (rev ?items))"
    using assms distinct_map_filter [of fst "pr_core p @ pr_signals p"] by (simp only: rev_map [symmetric] distinct_rev)
  moreover have m: "x \<in> set ?items" using x by (cases x) simp
  moreover have "(fst x, snd x) \<in> set (rev ?items)" using m by (simp only: prod.collapse set_rev)
  ultimately have "map_of (rev ?items) (fst x) = Some (snd x)" by (intro map_of_is_SomeI)
  then have eq: "x = (\<lambda>k. (k, the (map_of (rev ?items) k))) (fst x)" by simp
  have k: "fst x \<in> set (remdups (map fst ?items))" unfolding set_remdups list.set_map using m by (rule imageI)
  have "x \<in> (\<lambda>k. (k, the (map_of (rev ?items) k))) ` set (remdups (map fst ?items))" using eq k by (rule image_eqI)
  then show "x \<in> set (wanted p skip)" unfolding wanted_def Let_def list.set_map .
qed

section \<open>The connection\<close>

definition RC_BACKOFF_MIN_S :: real where "RC_BACKOFF_MIN_S = 1"
definition RC_BACKOFF_MAX_S :: real where "RC_BACKOFF_MAX_S = 30"

datatype rc_msg = Connected string | Disconnected string | Trouble string

text \<open>How a session ends, the exceptions with their texts; and whether a configuration succeeded in it.\<close>

datatype rc_end =
    StopSeen
  | StopConfiguring
  | EndOfSource
  | ProfileError string
  | ReceiverError string
  | LinkFailure string
  | Unexpected string

record ctl =
  ct_strict :: bool
  ct_configures :: bool
  ct_first_apply :: bool
  ct_once :: bool
  ct_backoff :: real
  ct_down_reported :: bool
  ct_open_failures :: "string set"
  ct_msgs :: "rc_msg list"
  ct_waits :: "real list"

definition ctl_new :: "bool \<Rightarrow> bool \<Rightarrow> ctl" where
  "ctl_new strict configures =
     \<lparr>ct_strict = strict, ct_configures = configures, ct_first_apply = True, ct_once = False, ct_backoff = RC_BACKOFF_MIN_S,
      ct_down_reported = False, ct_open_failures = {}, ct_msgs = [], ct_waits = []\<rparr>"

definition publish_msg :: "rc_msg \<Rightarrow> ctl \<Rightarrow> ctl" where
  "publish_msg m s = s\<lparr>ct_msgs := ct_msgs s @ [m]\<rparr>"

definition report_open_failure :: "string \<Rightarrow> ctl \<Rightarrow> ctl" where
  "report_open_failure reason s =
     (if reason \<in> ct_open_failures s then s
      else
        (let after_drop = (ct_down_reported s \<and> ct_open_failures s = {});
             s1 = s\<lparr>ct_open_failures := insert reason (ct_open_failures s)\<rparr>
         in if \<not> ct_down_reported s then publish_msg (Disconnected reason) (s1\<lparr>ct_down_reported := True\<rparr>)
            else if \<not> after_drop then publish_msg (Trouble reason) s1 else s1))"

definition backoff_sleep :: "real option \<Rightarrow> ctl \<Rightarrow> ctl" where
  "backoff_sleep every s =
     (case every of
        Some t \<Rightarrow> s\<lparr>ct_waits := ct_waits s @ [t]\<rparr>
      | None \<Rightarrow> s\<lparr>ct_waits := ct_waits s @ [ct_backoff s], ct_backoff := min (ct_backoff s * 2) RC_BACKOFF_MAX_S\<rparr>)"

definition REASON_ENDED :: string where "REASON_ENDED = ''source ended''"

definition end_reason :: "rc_end \<Rightarrow> string" where
  "end_reason e =
     (case e of
        StopSeen \<Rightarrow> ''stopped'' | StopConfiguring \<Rightarrow> ''stopped'' | EndOfSource \<Rightarrow> REASON_ENDED
      | ProfileError t \<Rightarrow> t | ReceiverError t \<Rightarrow> t | LinkFailure t \<Rightarrow> ''link failure: '' @ t | Unexpected t \<Rightarrow> ''unexpected failure: '' @ t)"

definition is_failure :: "rc_end \<Rightarrow> bool" where
  "is_failure e = (case e of StopSeen \<Rightarrow> False | StopConfiguring \<Rightarrow> False | EndOfSource \<Rightarrow> False | _ \<Rightarrow> True)"

text \<open>\<open>_session\<close>: the state after it, and whether it raises the failure of the profile.\<close>

definition rc_session :: "string \<Rightarrow> rc_end \<Rightarrow> bool \<Rightarrow> ctl \<Rightarrow> ctl \<times> bool" where
  "rc_session name e configured s0 =
     (let s1 = publish_msg (Connected name) (if ct_configures s0 then s0 else s0\<lparr>ct_backoff := RC_BACKOFF_MIN_S\<rparr>);
          s2 = (if ct_configures s0 \<and> configured
                then s1\<lparr>ct_first_apply := False, ct_once := True, ct_backoff := RC_BACKOFF_MIN_S\<rparr> else s1);
          s3 = (if is_failure e then publish_msg (Trouble (end_reason e)) s2 else s2);
          fatal = (case e of ProfileError _ \<Rightarrow> ct_strict s3 \<and> \<not> ct_once s3 | _ \<Rightarrow> False)
      in (publish_msg (Disconnected (end_reason e)) (s3\<lparr>ct_down_reported := True, ct_open_failures := {}\<rparr>), fatal))"

datatype run_event = OpenFails string "real option" | Session string rc_end bool

datatype progress = GoesOn | Returns | Raises

definition run_step :: "run_event \<Rightarrow> ctl \<Rightarrow> ctl \<times> progress" where
  "run_step ev s =
     (case ev of
        OpenFails reason retry \<Rightarrow> (backoff_sleep retry (report_open_failure reason s), GoesOn)
      | Session name e configured \<Rightarrow>
          (let (s1, fatal) = rc_session name e configured s in
           if fatal then (s1, Raises)
           else if \<not> is_failure e then (s1, Returns) else (backoff_sleep None s1, GoesOn)))"

text \<open>The loop of \<open>run\<close>; what is left of the events when it ends is not looked at.\<close>

fun run_ctl :: "run_event list \<Rightarrow> ctl \<Rightarrow> ctl \<times> progress" where
  "run_ctl [] s = (s, GoesOn)"
| "run_ctl (ev # evs) s = (case run_step ev s of (s', GoesOn) \<Rightarrow> run_ctl evs s' | r \<Rightarrow> r)"

section \<open>Laws of the connection\<close>

text \<open>The link is up and down in turn: \<open>up\<close> is what was said last.\<close>

fun turns :: "bool option \<Rightarrow> rc_msg list \<Rightarrow> bool" where
  "turns up [] \<longleftrightarrow> True"
| "turns up (Connected n # ms) \<longleftrightarrow> up \<noteq> Some True \<and> turns (Some True) ms"
| "turns up (Disconnected r # ms) \<longleftrightarrow> up \<noteq> Some False \<and> turns (Some False) ms"
| "turns up (Trouble r # ms) \<longleftrightarrow> turns up ms"

fun last_said :: "bool option \<Rightarrow> rc_msg list \<Rightarrow> bool option" where
  "last_said up [] = up"
| "last_said up (Connected n # ms) = last_said (Some True) ms"
| "last_said up (Disconnected r # ms) = last_said (Some False) ms"
| "last_said up (Trouble r # ms) = last_said up ms"

lemma turns_append: "turns up (ms @ ns) \<longleftrightarrow> turns up ms \<and> turns (last_said up ms) ns"
  by (induction up ms rule: turns.induct) auto

lemma last_said_append: "last_said up (ms @ ns) = last_said (last_said up ms) ns"
  by (induction up ms rule: turns.induct) auto

fun had_configure :: "run_event list \<Rightarrow> bool" where
  "had_configure [] \<longleftrightarrow> False"
| "had_configure (Session n e b # evs) \<longleftrightarrow> b \<or> had_configure evs"
| "had_configure (OpenFails r t # evs) \<longleftrightarrow> had_configure evs"

definition ctl_ok :: "ctl \<Rightarrow> bool" where
  "ctl_ok s \<longleftrightarrow> turns None (ct_msgs s) \<and> last_said None (ct_msgs s) \<noteq> Some True \<and>
     (ct_down_reported s \<longleftrightarrow> last_said None (ct_msgs s) = Some False) \<and> (\<not> ct_down_reported s \<longrightarrow> ct_open_failures s = {}) \<and>
     ct_backoff s \<in> {1, 2, 4, 8, 16, 30}"

lemma ctl_ok_session: "ctl_ok s \<Longrightarrow> ctl_ok (fst (rc_session name e configured s))"
  by (cases "is_failure e")
    (simp_all add: rc_session_def ctl_ok_def publish_msg_def Let_def turns_append last_said_append RC_BACKOFF_MIN_S_def)

lemma ctl_ok_step:
  assumes "ctl_ok s" "run_step ev s = (s', g)"
  shows "ctl_ok s'"
proof -
  have sleep: "ctl_ok (backoff_sleep r x)" if "ctl_ok x" for r x
    using that by (cases r) (auto simp: ctl_ok_def backoff_sleep_def RC_BACKOFF_MAX_S_def)
  have report: "ctl_ok (report_open_failure reason s)" for reason
  proof (cases "reason \<in> ct_open_failures s")
    case True
    then show ?thesis using assms(1) by (simp add: report_open_failure_def)
  next
    case False
    then show ?thesis
      using assms(1)
      by (cases "ct_down_reported s"; cases "ct_open_failures s = {}")
        (simp_all add: report_open_failure_def ctl_ok_def publish_msg_def turns_append last_said_append)
  qed
  show ?thesis
  proof (cases ev)
    case (OpenFails reason retry)
    then show ?thesis using sleep [OF report] assms(2) by (auto simp: run_step_def)
  next
    case (Session name e configured)
    have "ctl_ok (fst (rc_session name e configured s))" by (rule ctl_ok_session [OF assms(1)])
    then show ?thesis using sleep assms(2) Session by (auto simp: run_step_def Let_def split: prod.splits if_splits)
  qed
qed

text \<open>Only a strict start can end in an exception, and no start after the first configuration.\<close>

lemma run_step_keeps:
  "run_step ev s = (s', g) \<Longrightarrow> ct_strict s' = ct_strict s \<and> ct_configures s' = ct_configures s \<and>
     ct_once s' = (ct_once s \<or> ct_configures s \<and> had_configure [ev]) \<and> (ct_first_apply s' \<longrightarrow> ct_first_apply s)"
  by (auto simp: run_step_def backoff_sleep_def report_open_failure_def rc_session_def publish_msg_def Let_def
      split: run_event.splits option.splits if_splits)

lemma run_step_raises:
  assumes "run_step ev s = (s', Raises)"
  shows "ct_strict s \<and> \<not> ct_once s \<and> (\<exists>name t b. ev = Session name (ProfileError t) b \<and> \<not> (ct_configures s \<and> b))"
  using assms
  by (cases ev) (auto simp: run_step_def rc_session_def publish_msg_def backoff_sleep_def Let_def split: rc_end.splits if_splits option.splits)

definition fixed_waits :: "run_event list \<Rightarrow> real set" where
  "fixed_waits evs = {t. \<exists>r. OpenFails r (Some t) \<in> set evs}"

lemma run_step_waits:
  assumes "run_step ev s = (s', g)" "ctl_ok s"
  shows "set (ct_waits s') \<subseteq> set (ct_waits s) \<union> {1, 2, 4, 8, 16, 30} \<union> fixed_waits [ev]"
proof -
  have w: "ct_waits (report_open_failure r s) = ct_waits s" "ct_waits (fst (rc_session n e b s)) = ct_waits s" for r n e b
    by (auto simp: report_open_failure_def rc_session_def publish_msg_def Let_def)
  have b: "ct_backoff (report_open_failure r s) \<in> {1, 2, 4, 8, 16, 30}" "ct_backoff (fst (rc_session n e b s)) \<in> {1, 2, 4, 8, 16, 30}" for r n e b
    using assms(2) ctl_ok_session [OF assms(2), of n e b] by (auto simp: ctl_ok_def report_open_failure_def publish_msg_def Let_def)
  have sleep: "set (ct_waits (backoff_sleep t x)) \<subseteq> set (ct_waits x) \<union> (case t of None \<Rightarrow> {ct_backoff x} | Some u \<Rightarrow> {u})" for t x
    by (cases t) (auto simp: backoff_sleep_def)
  show ?thesis
  proof (cases ev)
    case (OpenFails r t)
    then have "s' = backoff_sleep t (report_open_failure r s)" using assms(1) by (simp add: run_step_def)
    then show ?thesis
      using sleep [of t "report_open_failure r s"] w(1) [of r] b(1) [of r] OpenFails by (cases t) (auto simp: fixed_waits_def)
  next
    case (Session n e c)
    then have "s' = fst (rc_session n e c s) \<or> s' = backoff_sleep None (fst (rc_session n e c s))"
      using assms(1) by (auto simp: run_step_def Let_def split: prod.splits if_splits)
    then show ?thesis
      using sleep [of None "fst (rc_session n e c s)"] w(2) [of n e c] b(2) [of n e c] by auto
  qed
qed

lemma run_ctl_laws:
  "run_ctl evs s = (s', g) \<Longrightarrow> ctl_ok s \<Longrightarrow>
   ctl_ok s' \<and> set (ct_waits s') \<subseteq> set (ct_waits s) \<union> {1, 2, 4, 8, 16, 30} \<union> fixed_waits evs \<and>
   (g = Raises \<longrightarrow> ct_strict s \<and> \<not> ct_once s \<and>
      (\<exists>done name t b rest. evs = done @ Session name (ProfileError t) b # rest \<and> \<not> (ct_configures s \<and> (had_configure done \<or> b))))"
proof (induction evs arbitrary: s)
  case (Cons ev evs)
  obtain s1 k where st: "run_step ev s = (s1, k)" by fastforce
  note ok1 = ctl_ok_step [OF Cons.prems(2) st]
  have w1: "set (ct_waits s1) \<subseteq> set (ct_waits s) \<union> {1, 2, 4, 8, 16, 30} \<union> fixed_waits [ev]"
    by (rule run_step_waits [OF st Cons.prems(2)])
  have f: "fixed_waits (ev # evs) = fixed_waits [ev] \<union> fixed_waits evs" by (auto simp: fixed_waits_def)
  show ?case
  proof (cases k)
    case GoesOn
    then have r: "run_ctl evs s1 = (s', g)" using Cons.prems(1) st by simp
    note ih = Cons.IH [OF r ok1]
    have "\<exists>done name t b rest. ev # evs = done @ Session name (ProfileError t) b # rest \<and> \<not> (ct_configures s \<and> (had_configure done \<or> b))"
      if "g = Raises"
    proof -
      obtain "done" name t b rest where d: "evs = done @ Session name (ProfileError t) b # rest"
        "\<not> (ct_configures s1 \<and> (had_configure done \<or> b))" "\<not> ct_once s1"
        using ih \<open>g = Raises\<close> by blast
      have "had_configure (ev # done) = (had_configure [ev] \<or> had_configure done)" by (cases ev) simp_all
      then have "\<not> (ct_configures s \<and> (had_configure (ev # done) \<or> b))" using d(2,3) run_step_keeps [OF st] by blast
      moreover have "ev # evs = (ev # done) @ Session name (ProfileError t) b # rest" using d(1) by simp
      ultimately show ?thesis by blast
    qed
    then show ?thesis using ih w1 f run_step_keeps [OF st] by auto
  next
    case Returns
    then show ?thesis using Cons.prems(1) st ok1 w1 f by auto
  next
    case Raises
    obtain name t b where r: "ev = Session name (ProfileError t) b" "\<not> (ct_configures s \<and> b)"
      using run_step_raises [OF st [unfolded Raises]] by blast
    have "ev # evs = [] @ Session name (ProfileError t) b # evs" "\<not> (ct_configures s \<and> (had_configure [] \<or> b))" using r by simp_all
    then have "\<exists>done name t b rest. ev # evs = done @ Session name (ProfileError t) b # rest \<and> \<not> (ct_configures s \<and> (had_configure done \<or> b))"
      by blast
    then show ?thesis using Cons.prems(1) st ok1 w1 f Raises run_step_raises [OF st [unfolded Raises]] by auto
  qed
qed auto

lemma open_ladder:
  "ct_waits (fst (run_ctl (map (\<lambda>r. OpenFails r None) rs) s)) =
   ct_waits s @ map (\<lambda>i. if i = 0 then ct_backoff s else min (ct_backoff s * 2 ^ i) 30) [0..<length rs]"
  if "ct_backoff s \<le> 30" "0 \<le> ct_backoff s"
  using that
proof (induction rs arbitrary: s)
  case (Cons r rs)
  let ?s = "backoff_sleep None (report_open_failure r s)"
  have b: "ct_backoff (report_open_failure r s) = ct_backoff s" "ct_waits (report_open_failure r s) = ct_waits s"
    by (simp_all add: report_open_failure_def publish_msg_def Let_def)
  have w: "ct_waits ?s = ct_waits s @ [ct_backoff s]" "ct_backoff ?s = min (ct_backoff s * 2) 30"
    by (simp_all add: backoff_sleep_def b RC_BACKOFF_MAX_S_def)
  have m: "min (min (x * 2) 30 * 2 ^ i) 30 = min (x * 2 ^ Suc i) (30 :: real)" if "0 \<le> x" for x i
  proof (cases "x * 2 \<le> 30")
    case False
    then have x: "30 * 2 ^ i \<le> x * 2 * 2 ^ i" by simp
    have p: "(30 :: real) \<le> 30 * 2 ^ i" by simp
    have "min (x * 2) 30 = 30" using False by simp
    then have "min (min (x * 2) 30 * 2 ^ i) 30 = 30" using p by (simp only: min_absorb2)
    moreover have "min (x * 2 ^ Suc i) 30 = 30" using order.trans [OF p x] by (simp only: power_Suc mult.assoc min_absorb2)
    ultimately show ?thesis by simp
  qed (simp add: min_def mult.assoc)
  have "ct_waits (fst (run_ctl (map (\<lambda>r. OpenFails r None) (r # rs)) s)) =
      ct_waits s @ ct_backoff s # map (\<lambda>i. if i = 0 then ct_backoff ?s else min (ct_backoff ?s * 2 ^ i) 30) [0..<length rs]"
    using Cons.IH [of ?s] Cons.prems w by (simp add: run_step_def)
  moreover have "map (\<lambda>i. if i = 0 then ct_backoff ?s else min (ct_backoff ?s * 2 ^ i) 30) [0..<length rs] =
      map (\<lambda>i. min (ct_backoff s * 2 ^ i) 30) (map Suc [0..<length rs])"
    using m Cons.prems(2) unfolding w(2) by auto
  ultimately show ?case by (simp add: map_Suc_upt upt_conv_Cons del: upt_Suc)
qed simp

section \<open>Properties\<close>

text \<open>
  C38. Against a receiver that hears and answers every request, for a profile that names no key and no feature twice. Let \<open>rej\<close> be the
  core keys the receiver does not hold already and refuses. Under \<open>RECEIVER_STRICT\<close> a configuration fails with exactly those, if there
  is one; without it they are only passed over. A configuration that goes on fails on the signals if it holds them differently
  and refuses one of them. Else it succeeds: the receiver then holds every other core key and every signal, and a feature is reported
  as supported, and then is in place, exactly if the receiver knows all its keys and either held it already or refuses none of its
  items; every other feature is reported as unsupported. All that is ever written, to all layers the first time and to RAM later, are
  the core items that differ, the signals as a whole if one differs, and as wholes the features that it knows of which one item
  differs; a receiver that holds all these is written nothing.
\<close>

theorem profile_reaches_receiver:
  assumes "obeys L held ok wlog" "distinct (all_keys p)" "distinct (map fst (pr_optional p))"
    and "h = held (cf_link c)" "rej = refused ok (differing h (pr_core p))" "configure L strict once (Some p) first c = (r, c')"
  shows "(if strict \<and> rej \<noteq> [] then r = Inl (ProfileErr (CoreRejected rej))
     else if \<not> holds_items h (pr_signals p) \<and> \<not> list_all ok (pr_signals p) then r = Inl (ProfileErr SignalsRejected)
     else \<exists>caps. r = Inr caps \<and> holds_items (held (cf_link c')) (filter (\<lambda>x. fst x \<notin> set rej) (pr_core p @ pr_signals p)) \<and>
       (\<forall>f is. (f, is) \<in> set (pr_optional p) \<longrightarrow>
          (f \<in> ca_supported caps \<longleftrightarrow> known h is \<and> (holds_items h is \<or> list_all ok is)) \<and>
          (f \<in> ca_unsupported caps \<longleftrightarrow> f \<notin> ca_supported caps) \<and>
          (f \<in> ca_supported caps \<longrightarrow> holds_items (held (cf_link c')) is))) \<and>
    (\<exists>ws. wlog (cf_link c') = wlog (cf_link c) @ ws \<and>
       list_all (\<lambda>(items, l). l = (if first then LAYERS_ALL else LAYERS_RAM) \<and> set items \<subseteq> to_write h p) ws) \<and>
    (to_write h p = {} \<longrightarrow> wlog (cf_link c') = wlog (cf_link c))"
proof -
  obtain its where e: "effect held wlog c its (layers_of first) (to_write h p) c'" and v: "if strict \<and> rej \<noteq> [] then r = Inl (ProfileErr (CoreRejected rej))
     else if \<not> holds_items h (pr_signals p) \<and> \<not> list_all ok (pr_signals p) then r = Inl (ProfileErr SignalsRejected)
     else \<exists>caps. r = Inr caps \<and> holds_items (held (cf_link c')) (filter (\<lambda>x. fst x \<notin> set rej) (pr_core p @ pr_signals p)) \<and>
       features_reported ok h (held (cf_link c')) p caps"
    using configure_answers [OF assms(1-5), of strict once first] unfolding assms(6) prod.inject by blast
  show ?thesis using v e unfolding effect_def layers_of_def features_reported_def by (intro conjI) blast+
qed

text \<open>
  C39. Whatever the link does - silence, refusals, late or foreign answers, exceptions - a configuration that succeeds, of a profile
  with no key twice in its core and signals, ends with a readback in which every core key and every signal came back with the value
  of the profile, except the keys that the write of the core in this very run gave up. Each of those the receiver was read, before
  that write, not to hold, and a write of it alone was refused. Under \<open>RECEIVER_STRICT\<close> there is none of them.
\<close>

theorem configured_is_verified:
  assumes "configure L strict once (Some p) first c = (Inr caps, c')" "distinct (map fst (pr_core p @ pr_signals p))"
  shows "\<exists>caps1 c1 rejected c2 held0 c3 r c4.
    probe L (Some p) c = (Inr caps1, c1) \<and>
    apply_core L (pr_core p) (if first then LAYERS_ALL else LAYERS_RAM) c1 = (Inr rejected, c2) \<and>
    readback L (map fst (pr_core p)) c1 = (Inr held0, c3) \<and>
    (\<forall>k \<in> set rejected. \<exists>v. (k, v) \<in> set (pr_core p) \<and> fst held0 k \<noteq> Some v \<and>
       (\<exists>s s'. do_set L [(k, v)] (if first then LAYERS_ALL else LAYERS_RAM) s = (SetNak, s'))) \<and>
    readback L (map fst (wanted p rejected)) c4 = (Inr r, c') \<and>
    holds_items (fst r) (filter (\<lambda>x. fst x \<notin> set rejected) (pr_core p @ pr_signals p)) \<and> (strict \<longrightarrow> rejected = [])"
proof -
  obtain caps1 c1 rejected c2 where a: "probe L (Some p) c = (Inr caps1, c1)" "apply_core L (pr_core p) (layers_of first) c1 = (Inr rejected, c2)"
    and rest: "(if rejected \<noteq> [] \<and> strict then fails (ProfileErr (CoreRejected rejected))
      else andthen (readback L (map fst (pr_signals p)))
        (\<lambda>r. andthen
           (if differing (fst r) (pr_signals p) \<noteq> []
            then andthen (valset_act L (layers_of first) (pr_signals p)) (\<lambda>b. if b then ret () else fails (ProfileErr SignalsRejected)) else ret ())
           (\<lambda>_. andthen (apply_optionals L (layers_of first) (pr_optional p) caps1)
              (\<lambda>caps'. andthen (verify_or_raise L once p rejected) (\<lambda>_. ret caps'))))) c2 = (Inr caps, c')"
    using assms(1) unfolding configure_def option.case Let_def layers_of_def [symmetric]
    by (auto dest!: andthen_Inr)
  have s: "\<not> (rejected \<noteq> [] \<and> strict)" using rest by (auto simp: fails_def)
  then obtain caps' c3 c4 where v: "verify_or_raise L once p rejected c3 = (Inr (), c4)" "ret caps' c4 = (Inr caps, c')"
    using rest by (auto dest!: andthen_Inr)
  then have "c4 = c'" by (simp add: ret_def)
  then obtain r c5 where "readback L (map fst (wanted p rejected)) c5 = (Inr r, c')" "holds_items (fst r) (wanted p rejected)"
    using verify_attempts_holds v(1) unfolding verify_or_raise_def by blast
  moreover have "holds_items (fst r) (filter (\<lambda>x. fst x \<notin> set rejected) (pr_core p @ pr_signals p))"
    using calculation(2) wanted_complete [OF assms(2), of rejected] unfolding holds_items_def list_all_iff by auto
  moreover obtain held0 c6 where h: "readback L (map fst (pr_core p)) c1 = (Inr held0, c6)"
    "given_up L (layers_of first) (differing (fst held0) (pr_core p)) rejected"
    using apply_core_given_up [OF a(2)] by blast
  moreover have "\<forall>k \<in> set rejected. \<exists>v. (k, v) \<in> set (pr_core p) \<and> fst held0 k \<noteq> Some v \<and>
      (\<exists>s s'. do_set L [(k, v)] (layers_of first) s = (SetNak, s'))"
    using h(2) unfolding given_up_def nakked_def differing_def by fastforce
  ultimately show ?thesis using s a unfolding layers_of_def by blast
qed

text \<open>
  C40. The supervision of the connection, over any sequence of failed opens and of sessions: what is published says connected and
  disconnected in turn, never one of them twice; every wait is one of the ladder 1, 2, 4, 8, 16, 30 s or the source's own, and an outage
  climbs the ladder; the run ends in an exception only under \<open>RECEIVER_STRICT\<close>, on a profile refused in a session before which no
  session, and in which no configuration, had succeeded.
\<close>

theorem connection_supervised:
  assumes "run_ctl evs (ctl_new strict configures) = (s, g)"
  shows "turns None (ct_msgs s) \<and> set (ct_waits s) \<subseteq> {1, 2, 4, 8, 16, 30} \<union> fixed_waits evs \<and>
    (g = Raises \<longrightarrow> strict \<and>
      (\<exists>done name t b rest. evs = done @ Session name (ProfileError t) b # rest \<and> \<not> (configures \<and> (had_configure done \<or> b)))) \<and>
    ct_waits (fst (run_ctl (map (\<lambda>r. OpenFails r None) reasons) (ctl_new strict configures))) = map (\<lambda>i. min (2 ^ i) 30) [0..<length reasons]"
proof -
  have n: "ctl_ok (ctl_new strict configures)" "ct_waits (ctl_new strict configures) = []" "ct_strict (ctl_new strict configures) = strict"
    "ct_configures (ctl_new strict configures) = configures" "ct_backoff (ctl_new strict configures) = 1"
    by (simp_all add: ctl_ok_def ctl_new_def RC_BACKOFF_MIN_S_def)
  have l: "ct_waits (fst (run_ctl (map (\<lambda>r. OpenFails r None) reasons) (ctl_new strict configures))) = map (\<lambda>i. min (2 ^ i) 30) [0..<length reasons]"
    using open_ladder [of "ctl_new strict configures" reasons] n by (auto intro!: map_cong)
  show ?thesis using run_ctl_laws [OF assms n(1)] l n unfolding ctl_ok_def by auto
qed

section \<open>Witnesses\<close>

text \<open>A receiver that is a configuration and the writes it has been sent.\<close>

definition obedient :: "(cfg_item \<Rightarrow> bool) \<Rightarrow> ((string \<rightharpoonup> cfg_value) \<times> (cfg_item list \<times> nat) list) rlink" where
  "obedient ok =
     \<lparr>do_set = (\<lambda>items l (h, ws). if list_all ok items then (SetAck, (h ++ map_of (rev items), ws @ [(items, l)])) else (SetNak, (h, ws @ [(items, l)]))),
      do_get = (\<lambda>keys (h, ws). (if set keys \<subseteq> dom h then Got (map (\<lambda>k. (k, the (h k))) keys) else GetNak, (h, ws))),
      do_poll = (\<lambda>s. (NotVersion, s)), is_stale = (\<lambda>s. False)\<rparr>"

lemma obedient_answers: "obeys (obedient ok) fst ok snd"
  by (auto simp: obeys_def obedient_def)

definition blank_conf :: "((string \<rightharpoonup> cfg_value) \<times> (cfg_item list \<times> nat) list) conf" where
  "blank_conf = \<lparr>cf_link = (Map.empty, []), cf_seen = {}, cf_slept = []\<rparr>"

lemma base_optional_distinct: "distinct (map fst (pr_optional (base_profile m r s)))"
  by (simp add: base_profile_def OPTIONAL_FEATURES_def Let_def)

lemma profile_reaches_receiver_witness:
  "\<exists>caps c'. configure (obedient (\<lambda>x. True)) True False (Some (base_profile 7 1 0)) True blank_conf = (Inr caps, c') \<and>
     fst (cf_link c') ''CFG_RATE_MEAS'' = Some (CInt 1000)"
proof -
  let ?p = "base_profile 7 1 0"
  obtain r c' where run: "configure (obedient (\<lambda>x. True)) True False (Some ?p) True blank_conf = (r, c')" by fastforce
  have ref: "refused (\<lambda>x. True) xs = []" for xs by (simp add: refused_def)
  have "\<exists>caps. r = Inr caps \<and> holds_items (fst (cf_link c')) (filter (\<lambda>x. fst x \<notin> set []) (pr_core ?p @ pr_signals ?p))"
    using profile_reaches_receiver [OF obedient_answers profile_keys_distinct(1) base_optional_distinct refl refl run]
    unfolding ref by (auto simp: list_all_iff)
  moreover have "(''CFG_RATE_MEAS'', CInt 1000) \<in> set (pr_core ?p)" by (simp add: base_profile_def common_core_def)
  ultimately show ?thesis using run by (auto simp: holds_items_def list_all_iff)
qed

lemma configured_is_verified_witness:
  "\<exists>caps1 c1 c2 r c4 c'. probe (obedient (\<lambda>x. True)) (Some (base_profile 7 1 0)) blank_conf = (Inr caps1, c1) \<and>
    apply_core (obedient (\<lambda>x. True)) (pr_core (base_profile 7 1 0)) LAYERS_ALL c1 = (Inr [], c2) \<and>
    readback (obedient (\<lambda>x. True)) (map fst (wanted (base_profile 7 1 0) [])) c4 = (Inr r, c') \<and>
    holds_items (fst r) (pr_core (base_profile 7 1 0) @ pr_signals (base_profile 7 1 0))"
proof -
  let ?p = "base_profile 7 1 0"
  have d: "distinct (map fst (pr_core ?p @ pr_signals ?p))"
    using profile_keys_distinct(1) [of 7 1 0] unfolding all_keys_eq by auto
  have ref: "refused (\<lambda>x. True) xs = []" for xs by (simp add: refused_def)
  have "\<exists>caps c'. configure (obedient (\<lambda>x. True)) True False (Some ?p) True blank_conf = (Inr caps, c')"
    using configure_answers [OF obedient_answers [of "\<lambda>x. True"] profile_keys_distinct(1) [of 7 1 0] base_optional_distinct [of 7 1 0] refl refl,
        where c = blank_conf and strict = True and once = False and first = True]
    unfolding ref by (auto simp: list_all_iff)
  then obtain caps c' where "configure (obedient (\<lambda>x. True)) True False (Some ?p) True blank_conf = (Inr caps, c')" by blast
  from configured_is_verified [OF this d] obtain caps1 c1 rejected c2 r c4 where
    v: "probe (obedient (\<lambda>x. True)) (Some ?p) blank_conf = (Inr caps1, c1)"
    "apply_core (obedient (\<lambda>x. True)) (pr_core ?p) LAYERS_ALL c1 = (Inr rejected, c2)"
    "readback (obedient (\<lambda>x. True)) (map fst (wanted ?p rejected)) c4 = (Inr r, c')"
    "holds_items (fst r) (filter (\<lambda>x. fst x \<notin> set rejected) (pr_core ?p @ pr_signals ?p))" "rejected = []"
    unfolding if_True by blast
  then have "holds_items (fst r) (pr_core ?p @ pr_signals ?p)" by simp
  then show ?thesis using v by blast
qed

lemma connection_supervised_witness:
  "\<exists>s g. run_ctl [OpenFails ''no device'' None, Session ''ttyACM0'' (ProfileError ''rejected'') False] (ctl_new True True) = (s, g) \<and>
    g = Raises \<and> turns None (ct_msgs s) \<and> set (ct_waits s) \<subseteq> {1, 2, 4, 8, 16, 30}"
proof -
  let ?evs = "[OpenFails ''no device'' None, Session ''ttyACM0'' (ProfileError ''rejected'') False]"
  obtain s g where r: "run_ctl ?evs (ctl_new True True) = (s, g)" by fastforce
  then have "g = Raises"
    by (simp add: run_step_def rc_session_def backoff_sleep_def report_open_failure_def publish_msg_def ctl_new_def is_failure_def split: if_splits)
  then show ?thesis using connection_supervised [OF r] r by (auto simp: fixed_waits_def)
qed

end
