(* ===== verification/Spec2Isabelle.thy ===== *)
theory Spec2Isabelle
  imports Router Naming Caster Alerts EnvFile SbgLogLaws WebAuth VnRegisters UbxLink BaseMode NtripClient Jobs Replay InsCapture Receiver
begin

text \<open>
  A verification development of mtrtk, a GNSS base station and rover daemon in Python (\<open>src/mtrtk\<close>). File names below are
  relative to that directory.

  \<^bold>\<open>How the program is put together.\<close> A byte source (\<open>core/source.py\<close>: serial port or recorded file) feeds a framer (\<open>core/frames.py\<close>,
  or the vendor framers under \<open>rover/drivers\<close>). The router (\<open>core/router.py\<close>) publishes every frame on the bus (\<open>core/bus.py\<close>), a set of
  bounded queues. On the bus sit the hourly raw logger (\<open>rawlog\<close>), whose hours are later listed, spliced and pruned; the state
  store; the NTRIP caster of a base (\<open>base/ntrip_caster.py\<close>), which streams RTCM 3 frames to rovers; and the alert engine
  (\<open>alerts.py\<close>). Requests to the receiver go through the link (\<open>core/link.py\<close>): the receiver controller
  (\<open>core/receiver.py\<close>) owns the connection and writes a profile (\<open>core/ubx_config.py\<close>) through it, and the base mode manager
  (\<open>base/basemode.py\<close>) sets the survey-in or the active site. A rover pulls corrections with the NTRIP client (\<open>rover/ntrip_client.py\<close>); a
  rover with an INS captures the bytes of its unit by the hour (\<open>rover/drivers/ins_common.py\<close>). Long
  tasks (RINEX exports, PPK) are jobs (\<open>jobs.py\<close>). The web layer (\<open>web\<close>) stands behind a password gate and edits the \<open>.env\<close> file.

  \<^bold>\<open>Conventions.\<close> Bytes are 8-bit words, Python's integers \<open>int\<close> or \<open>nat\<close>, text is a list of characters (Latin-1, or ASCII where a theory
  says so), floats are the doubles of \<open>Floats\<close> where rounding matters and reals where only the order does (clocks, durations).
  An object is a record, updated and returned; an exception is the left summand of a result or a member of \<open>py_error\<close>; a dict
  is an association list or a map. A coroutine is cut at its suspensions, and a run is a list of events, so that every interleaving
  of tasks is a list. Code of other packages is an argument (SHA-256, the NAV-PVT reader of pyubx2, the table of UBX names, random numbers,
  an HMAC), and what the sources rely on is a named hypothesis.

  \<^bold>\<open>Theories.\<close>

  \<^item> \<open>Prelude\<close>, \<open>Numerals\<close>, \<open>Text\<close>, \<open>Struct\<close>, \<open>Floats\<close>, \<open>Calendar\<close>: what the sources use of the language and its library:
    slices, \<open>find\<close>, \<open>strip\<close>, \<open>split\<close>, numerals and their round trips, \<open>struct\<close> formats, doubles, UTC datetimes and their texts.
  \<^item> \<open>Checksums\<close> (\<open>core/crc.py\<close>, \<open>rover/drivers/sbg/crc.py\<close>, \<open>rover/drivers/vectornav/checksum.py\<close>): the tables and routines, equal to
    the bit-serial registers. The locales \<open>msb_register\<close>, \<open>byte_register\<close> and \<open>crc_register\<close> carry the linearity and burst detection and are
    interpreted on CRC-24Q, XMODEM and KERMIT.
  \<^item> \<open>Scanner\<close>: the contract of an incremental framer as the locale \<open>scanner\<close> (one step of the loop, its measure, its stability
    under more bytes), with the extensions \<open>counting_scanner\<close> (every byte is accounted for) and \<open>bounded_scanner\<close> (what is kept is bounded).
    Chunking, soundness, order and the round trip of a stream are proved there once, and interpreted for \<open>Frames\<close> (\<open>core/frames.py\<close>),
    \<open>SbgFramer\<close> (\<open>rover/drivers/sbg/framer.py\<close> with \<open>ids.py\<close>) and \<open>VnFramer\<close> (\<open>rover/drivers/vectornav/framer.py\<close> over the layout of
    \<open>fields.py\<close> in \<open>VnFields\<close>). \<open>FrameStream\<close> lifts the bound of the buffer: streams of any length, by a second interpretation without it,
    and streams of whole frames, which a client and a replay read in pieces.
  \<^item> \<open>Bus\<close> (\<open>core/bus.py\<close>) and \<open>Router\<close> (\<open>core/router.py\<close>): the locale \<open>drop_oldest\<close> of a bounded queue that drops its oldest item,
    interpreted for a subscription and, in \<open>Caster\<close>, for a client's queue.
  \<^item> \<open>Replay\<close> (\<open>FileReplaySource\<close> of \<open>core/source.py\<close>): a recorded file through the framer, cut into epochs, paced, repeated.
  \<^item> \<open>RawLog\<close> (\<open>rawlog/writer.py\<close>): sidecars, open hour, rotation, keep marks, recovery after a crash, over a map of files.
    \<open>LogIndex\<close> (\<open>rawlog/index.py\<close>, \<open>rawlog/retention.py\<close>, \<open>rinex/splice.py\<close>): names and listings, pruning, the splice of a window.
    \<open>Naming\<close> (\<open>rinex/naming.py\<close>): RINEX file names.
  \<^item> \<open>InsCapture\<close> (\<open>RawCapture\<close> of \<open>rover/drivers/ins_common.py\<close>): the hourly capture of an INS unit's bytes, its sidecars and its crashes.
  \<^item> \<open>Caster\<close> (\<open>base/ntrip_caster.py\<close>) and \<open>NtripClient\<close> (\<open>rover/ntrip_client.py\<close>): both ends of an NTRIP connection, and their composition.
  \<^item> \<open>UbxLink\<close> (\<open>core/link.py\<close>) and \<open>BaseMode\<close> (\<open>base/basemode.py\<close>, \<open>base/rtcm1005.py\<close>, the TMODE items of \<open>core/ubx_config.py\<close>,
    the sites of \<open>store/repos.py\<close>): requests and answers, and the mode of the base with its verdict on the position.
  \<^item> \<open>UbxConfig\<close> (\<open>core/ubx_config.py\<close>) and \<open>Receiver\<close> (\<open>core/receiver.py\<close>): the profiles, their write with the search for refused keys and
    the readback, over any answers of the link, and the supervision of the connection over any outcomes of its sessions.
  \<^item> \<open>SbgLogs\<close>, \<open>SbgLogLaws\<close> (\<open>rover/drivers/sbg/logs.py\<close>), \<open>VnParse\<close>, \<open>VnRegisters\<close> (\<open>rover/drivers/vectornav/parse.py\<close>, \<open>registers.py\<close>):
    the parsers of the INS messages and the register access.
  \<^item> \<open>Alerts\<close> (\<open>alerts.py\<close>), \<open>Jobs\<close> (\<open>jobs.py\<close>), \<open>EnvFile\<close> (\<open>web/envfile.py\<close>), \<open>WebAuth\<close> (\<open>web/auth.py\<close>, \<open>web/headers.py\<close>).

  \<^bold>\<open>What is shown.\<close> Framers return valid frames only, in order, lose nothing of a clean stream, and do not depend on how it is cut. Every
  frame reaches the subscribers of its topic, and is written once by the raw logger, whose files and sidecars agree at every moment
  and after a crash. The caster admits exactly the clients it should and sends each an ordered stream, which the rover's client reads back. The link gives an answer to
  the request it belongs to. The base's verdict is the truth about what the receiver was last told. A profile that is reported as applied has been read back,
  and a receiver that answers ends up with all of it that it does not refuse. A recorded file is replayed epoch by epoch, in its own time. Alerts are raised and cleared
  alternately. Jobs keep their slots and rows in order through cancellation and shutdown. The \<open>.env\<close> editor writes what it reads. The password
  gate lets nothing through without the token. A capture's sidecars never tell more than its files hold. Where the code does less than its comments say, the exact condition is a hypothesis, and
  the case outside of it a lemma (a line of 257 bytes in the mixed framer, two late acknowledgements in the link, two deletes of a job).

  \<^bold>\<open>Loops and bounds.\<close> Loops of the code are structural recursion or functions with a measure (the bytes left in a buffer or a file, the
  items of a search, the hours up to an end), so none of them needs fuel; a bounded retry counts the attempts it has left, as the code does. Runs of concurrent parts are lists of events, and the liveness properties say after which
  events the result is there. Queue limits, buffer caps and frame lengths are the constants of the sources.

  \<^bold>\<open>Not modelled.\<close> The wiring and the outer interfaces: \<open>cli.py\<close>, \<open>daemon.py\<close>, \<open>doctor.py\<close>, \<open>system.py\<close>, \<open>config.py\<close>, \<open>backup.py\<close>, the
  routes of \<open>web/api\<close>, \<open>web/app.py\<close>, \<open>web/server.py\<close>, \<open>web/hostguard.py\<close>, the web socket hub \<open>web/ws.py\<close>, the sinks and sentences of
  \<open>rover/sinks.py\<close>, \<open>nmea_out.py\<close> and \<open>json_out.py\<close>, the serial port of \<open>core/source.py\<close>; they call the parts above and are made of input and output. The
  geodesy of \<open>core/geo.py\<close> and what rests on it (\<open>rover/points.py\<close>, the tracks of \<open>ppk\<close>, the coordinates of NMEA sentences) is
  floating-point trigonometry, of which the theories have no faithful account. The readers of third-party results
  (\<open>rinex/ppp_result.py\<close>, \<open>ppk/pos.py\<close>) are chains of regular expressions of \<open>re\<close>; \<open>rinex/convbin.py\<close>, \<open>rinex/export.py\<close> and \<open>ppk/pipeline.py\<close>
  drive other programs. The state store and the adapters of the INS drivers turn parsed messages into display state. Of the receiver
  controller the read loop with its watchdog is an outcome of a session; the controller of an INS unit, which is built like it, and the
  configurations of the vendors' units are left out. The database is SQLite: the sites and the jobs table are modelled as rows, the sessions,
  the sampler of \<open>store/sampler.py\<close> and the other tables are not.
\<close>

end
